(* ===== verification/Prelude.thy ===== *)
theory Prelude
  imports Main "HOL-Library.Word" "HOL-Library.Signed_Division" "HOL-Library.Monad_Syntax"
begin

text \<open>
  Shared ground of the development: the scalar types of the C sources, the collections that
  carry the component proofs, and the arithmetic facts about decimal mantissas that the number,
  subscript and local-variable theories use.

  The C type \<open>int4\<close> is modelled by \<^typ>\<open>int\<close>; every component proves, where it matters, that the
  values it stores stay inside the range of \<open>int4\<close> (\<open>in_int4\<close>), so that the wrap-around of the
  machine type is never reached.  Bytes are \<open>8 word\<close>.  C's \<open>/\<close> and \<open>%\<close> on signed values
  truncate towards zero: they are \<open>sdiv\<close> and \<open>smod\<close> of \<open>HOL-Library.Signed_Division\<close>.
\<close>

named_theorems mv_defs \<open>constants of arit.h and mdef.h, unfolded to numerals\<close>
named_theorems mv_simps \<open>rules that evaluate flag and field accesses\<close>

type_synonym int4 = int
type_synonym byte = "8 word"
type_synonym bytes = "8 word list"

definition in_int4 :: "int \<Rightarrow> bool" where
  "in_int4 x \<longleftrightarrow> - (2 ^ 31) \<le> x \<and> x < 2 ^ 31"

lemma in_int4_I: "- 2147483648 \<le> x \<Longrightarrow> x < 2147483648 \<Longrightarrow> in_int4 x"
  by (simp add: in_int4_def)

subsection \<open>Truncating division\<close>

lemma sdiv_nonneg: "0 \<le> a \<Longrightarrow> 0 \<le> b \<Longrightarrow> (a::int) sdiv b = a div b"
  by (cases "a = 0"; cases "b = 0") (auto simp: signed_divide_int_def sgn_mult)

lemma smod_nonneg: "0 \<le> a \<Longrightarrow> 0 \<le> b \<Longrightarrow> (a::int) smod b = a mod b"
  by (cases "a = 0") (auto simp: signed_modulo_int_def)

lemma sdiv_neg_left: "(- a::int) sdiv b = - (a sdiv b)"
  by (simp add: signed_divide_int_def sgn_mult)

lemma sdiv_neg_right: "(a::int) sdiv (- b) = - (a sdiv b)"
  by (simp add: signed_divide_int_def sgn_mult)

lemma div_eq_of_bounds: "0 < (b::int) \<Longrightarrow> q * b \<le> a \<Longrightarrow> a < (q + 1) * b \<Longrightarrow> a div b = q"
proof -
  assume b: "0 < b" and l: "q * b \<le> a" and u: "a < (q + 1) * b"
  have "a = q * b + (a - q * b)" by simp
  moreover have "0 \<le> a - q * b" "a - q * b < b"
    using l u by (simp_all add: algebra_simps)
  ultimately show "a div b = q"
    using b by (metis div_pos_pos_trivial add_cancel_left_right div_mult_self3 less_irrefl add.commute)
qed

subsection \<open>Products with a power of ten\<close>

lemma pow10_pos [simp]: "(0::int) < 10 ^ n"
  by simp

lemma pow10_mono: "m \<le> n \<Longrightarrow> (10::int) ^ m \<le> 10 ^ n"
  by (simp add: power_increasing)

lemma pow10_split: "k \<le> n \<Longrightarrow> (10::int) ^ n = 10 ^ k * 10 ^ (n - k)"
  by (simp flip: power_add)

lemma div_less_prod: "0 < (c::int) \<Longrightarrow> a < b * c \<Longrightarrow> a div c < b"
proof -
  assume c: "0 < c" and a: "a < b * c"
  have "a div c * c \<le> a" using div_mult_mod_eq [of a c] pos_mod_sign [OF c, of a] by linarith
  then have "a div c * c < b * c" using a by (rule le_less_trans)
  then show "a div c < b" using c by simp
qed

lemma div_pow10: "0 \<le> (a::int) \<Longrightarrow> 0 \<le> a div 10 ^ d \<and> a div 10 ^ d \<le> a"
  using zdiv_mono2 [of a 1 "10 ^ d"] by (simp add: pos_imp_zdiv_nonneg_iff)

text \<open>
  Mantissas of \<open>d\<close> digits: when the exponent of one number is smaller, the number is smaller,
  whatever the digits.  This is the fact behind every exponent comparison in the sources.
\<close>

lemma mant_exp_less:
  fixes a b lo :: int
  assumes a: "a < 10 * lo" and b: "lo \<le> b" and lo: "0 < lo" and e: "i < j"
  shows "a * 10 ^ i < b * 10 ^ j"
proof -
  have "a * 10 ^ i < 10 * lo * 10 ^ i"
    using a by simp
  also have "\<dots> = lo * 10 ^ Suc i" by simp
  also have "\<dots> \<le> lo * 10 ^ j"
    using e lo pow10_mono [of "Suc i" j] by (simp del: power_Suc)
  also have "\<dots> \<le> b * 10 ^ j"
    using b by simp
  finally show ?thesis .
qed

lemma two_limbs_less:
  fixes a0 a1 b0 b1 B :: int
  assumes "a1 < b1" "a0 < B" "0 \<le> b0" "0 < B"
  shows "a1 * B + a0 < b1 * B + b0"
proof -
  have "a1 * B + a0 < (a1 + 1) * B"
    using assms by (simp add: algebra_simps)
  also have "\<dots> \<le> b1 * B"
    using assms by (intro mult_right_mono) auto
  finally show ?thesis using assms by linarith
qed

lemma two_limbs_eq_iff:
  fixes a0 a1 b0 b1 B :: int
  assumes "0 \<le> a0" "a0 < B" "0 \<le> b0" "b0 < B"
  shows "a1 * B + a0 = b1 * B + b0 \<longleftrightarrow> a1 = b1 \<and> a0 = b0"
  using assms two_limbs_less [of a1 b1 a0 B b0] two_limbs_less [of b1 a1 b0 B a0]
  by (cases a1 b1 rule: linorder_cases) auto

text \<open>The number of decimal digits.\<close>

fun ndigits :: "nat \<Rightarrow> nat" where
  "ndigits n = (if n = 0 then 0 else Suc (ndigits (n div 10)))"

declare ndigits.simps [simp del]

lemma ndigits_0 [simp]: "ndigits 0 = 0"
  by (simp add: ndigits.simps)

lemma ndigits_eq: "10 ^ k \<le> n \<Longrightarrow> n < 10 ^ Suc k \<Longrightarrow> ndigits n = Suc k"
proof (induction k arbitrary: n)
  case 0
  then show ?case by (simp add: ndigits.simps [of n])
next
  case (Suc k)
  then have "10 ^ k \<le> n div 10" "n div 10 < 10 ^ Suc k" by (simp_all add: less_eq_div_iff_mult_less_eq div_less_iff_less_mult mult.commute)
  with Suc show ?case by (subst ndigits.simps) (auto simp del: power_Suc)
qed

subsection \<open>Signs\<close>

lemma sgn_diff_eq:
  fixes a b :: int
  shows "a < b \<Longrightarrow> sgn (a - b) = -1" and "b < a \<Longrightarrow> sgn (a - b) = 1"
  by (simp_all add: sgn_if)

end
