(* ===== verification/Mval.thy ===== *)
theory Mval
  imports Prelude
begin

text \<open>
  The M value of \<open>mdef.h\<close> / \<open>mdefsp.h\<close>: the type bits, the constants of \<open>arit.h\<close>, the table
  \<open>ten_pwr\<close>, the conversions between the two numeric representations (\<open>promodemo.c\<close>), the
  comparison \<open>numcmp\<close>, and the value a numeric mval denotes.
\<close>

section \<open>Type bits and constants\<close>

text \<open>
  \<open>mvtype\<close> is an unsigned short of flag bits; each bit the modelled code reads or writes is a
  boolean field, \<open>|\<close> is \<open>mv_or\<close>, and a test \<open>mvtype & MV_X\<close> is the field itself.
\<close>

record mvtype_bits =
  is_nm :: bool
  is_int :: bool
  is_str :: bool
  is_approx :: bool
  is_canon :: bool
  is_utflen :: bool

definition MV_0 :: mvtype_bits where
  "MV_0 = \<lparr>is_nm = False, is_int = False, is_str = False, is_approx = False, is_canon = False,
     is_utflen = False\<rparr>"

definition MV_NM :: mvtype_bits where "MV_NM = MV_0\<lparr>is_nm := True\<rparr>"
definition MV_INT :: mvtype_bits where "MV_INT = MV_0\<lparr>is_int := True\<rparr>"
definition MV_STR :: mvtype_bits where "MV_STR = MV_0\<lparr>is_str := True\<rparr>"
definition MV_NUM_APPROX :: mvtype_bits where "MV_NUM_APPROX = MV_0\<lparr>is_approx := True\<rparr>"
definition MV_CANONICAL :: mvtype_bits where "MV_CANONICAL = MV_0\<lparr>is_canon := True\<rparr>"
definition MV_UTF_LEN :: mvtype_bits where "MV_UTF_LEN = MV_0\<lparr>is_utflen := True\<rparr>"

definition mv_or :: "mvtype_bits \<Rightarrow> mvtype_bits \<Rightarrow> mvtype_bits" where
  "mv_or a b = \<lparr>is_nm = (is_nm a \<or> is_nm b), is_int = (is_int a \<or> is_int b),
     is_str = (is_str a \<or> is_str b), is_approx = (is_approx a \<or> is_approx b),
     is_canon = (is_canon a \<or> is_canon b), is_utflen = (is_utflen a \<or> is_utflen b)\<rparr>"

definition mv_and :: "mvtype_bits \<Rightarrow> mvtype_bits \<Rightarrow> mvtype_bits" where
  "mv_and a b = \<lparr>is_nm = (is_nm a \<and> is_nm b), is_int = (is_int a \<and> is_int b),
     is_str = (is_str a \<and> is_str b), is_approx = (is_approx a \<and> is_approx b),
     is_canon = (is_canon a \<and> is_canon b), is_utflen = (is_utflen a \<and> is_utflen b)\<rparr>"

lemmas mv_flag_defs =
  MV_0_def MV_NM_def MV_INT_def MV_STR_def MV_NUM_APPROX_def MV_CANONICAL_def MV_UTF_LEN_def
  mv_or_def mv_and_def

lemma mv_or_sel [simp, mv_simps]:
  "is_nm (mv_or a b) \<longleftrightarrow> is_nm a \<or> is_nm b"
  "is_int (mv_or a b) \<longleftrightarrow> is_int a \<or> is_int b"
  "is_str (mv_or a b) \<longleftrightarrow> is_str a \<or> is_str b"
  "is_approx (mv_or a b) \<longleftrightarrow> is_approx a \<or> is_approx b"
  "is_canon (mv_or a b) \<longleftrightarrow> is_canon a \<or> is_canon b"
  "is_utflen (mv_or a b) \<longleftrightarrow> is_utflen a \<or> is_utflen b"
  by (simp_all add: mv_or_def)

lemma mv_and_sel [simp, mv_simps]:
  "is_nm (mv_and a b) \<longleftrightarrow> is_nm a \<and> is_nm b"
  "is_int (mv_and a b) \<longleftrightarrow> is_int a \<and> is_int b"
  "is_str (mv_and a b) \<longleftrightarrow> is_str a \<and> is_str b"
  "is_approx (mv_and a b) \<longleftrightarrow> is_approx a \<and> is_approx b"
  "is_canon (mv_and a b) \<longleftrightarrow> is_canon a \<and> is_canon b"
  "is_utflen (mv_and a b) \<longleftrightarrow> is_utflen a \<and> is_utflen b"
  by (simp_all add: mv_and_def)

lemma mv_const_sel [simp, mv_simps]:
  "\<not> is_nm MV_0" "\<not> is_int MV_0" "\<not> is_str MV_0" "\<not> is_approx MV_0" "\<not> is_canon MV_0" "\<not> is_utflen MV_0"
  "is_nm MV_NM" "\<not> is_int MV_NM" "\<not> is_str MV_NM" "\<not> is_approx MV_NM" "\<not> is_canon MV_NM" "\<not> is_utflen MV_NM"
  "\<not> is_nm MV_INT" "is_int MV_INT" "\<not> is_str MV_INT" "\<not> is_approx MV_INT" "\<not> is_canon MV_INT" "\<not> is_utflen MV_INT"
  "\<not> is_nm MV_STR" "\<not> is_int MV_STR" "is_str MV_STR" "\<not> is_approx MV_STR" "\<not> is_canon MV_STR" "\<not> is_utflen MV_STR"
  "\<not> is_nm MV_NUM_APPROX" "\<not> is_int MV_NUM_APPROX" "\<not> is_str MV_NUM_APPROX" "is_approx MV_NUM_APPROX" "\<not> is_canon MV_NUM_APPROX" "\<not> is_utflen MV_NUM_APPROX"
  "\<not> is_nm MV_CANONICAL" "\<not> is_int MV_CANONICAL" "\<not> is_str MV_CANONICAL" "\<not> is_approx MV_CANONICAL" "is_canon MV_CANONICAL" "\<not> is_utflen MV_CANONICAL"
  "\<not> is_nm MV_UTF_LEN" "\<not> is_int MV_UTF_LEN" "\<not> is_str MV_UTF_LEN" "\<not> is_approx MV_UTF_LEN" "\<not> is_canon MV_UTF_LEN" "is_utflen MV_UTF_LEN"
  by (simp_all add: mv_flag_defs)

definition NUM_DEC_DG_1L :: int where [mv_defs]: "NUM_DEC_DG_1L = 9"
definition NUM_DEC_DG_2L :: int where [mv_defs]: "NUM_DEC_DG_2L = 18"
definition MV_XBIAS :: int where [mv_defs]: "MV_XBIAS = 62"
definition MV_BIAS :: int where [mv_defs]: "MV_BIAS = 1000"
definition MV_BIAS_PWR :: int where [mv_defs]: "MV_BIAS_PWR = 3"
definition EXP_IDX_BIAL :: int where [mv_defs]: "EXP_IDX_BIAL = 9 + MV_XBIAS"
definition EXP_IDX_BIAQ :: int where [mv_defs]: "EXP_IDX_BIAQ = 18 + MV_XBIAS"
definition EXPLO :: int where [mv_defs]: "EXPLO = - 42 + MV_XBIAS"
definition EXPHI :: int where [mv_defs]: "EXPHI = 48 + MV_XBIAS"
definition EXP_INT_OVERF :: int where [mv_defs]: "EXP_INT_OVERF = 7 + MV_XBIAS"
definition EXP_INT_UNDERF :: int where [mv_defs]: "EXP_INT_UNDERF = - 3 + MV_XBIAS"
definition MANT_LO :: int where [mv_defs]: "MANT_LO = 100000000"
definition MANT_HI :: int where [mv_defs]: "MANT_HI = 1000000000"
definition INT_HI :: int where [mv_defs]: "INT_HI = 1000000"

definition ten_pwr_tab :: "int list" where
  "ten_pwr_tab = [1, 10, 100, 1000, 10000, 100000, 1000000, 10000000, 100000000, 1000000000]"

definition ten_pwr :: "int \<Rightarrow> int" where
  "ten_pwr i = ten_pwr_tab ! nat i"

section \<open>The mval\<close>

record mval =
  mvtype :: mvtype_bits
  sgn_of :: int
  e_of :: int
  m0 :: int4
  m1 :: int4
  str_of :: bytes

definition literal_zero :: mval where
  "literal_zero = \<lparr>mvtype = mv_or (mv_or (mv_or MV_STR MV_NM) MV_INT) MV_UTF_LEN, sgn_of = 0, e_of = 0,
     m0 = 0, m1 = 0, str_of = [48]\<rparr>"

definition literal_null :: mval where
  "literal_null = \<lparr>mvtype = mv_or (mv_or (mv_or (mv_or MV_STR MV_NM) MV_INT) MV_NUM_APPROX) MV_UTF_LEN,
     sgn_of = 0, e_of = 0, m0 = 0, m1 = 0, str_of = []\<rparr>"

subsection \<open>promote and demote (promodemo.c)\<close>

text \<open>
  The loop \<open>while (m1 >= *pwr) \{ exp++; pwr++; \}\<close>: \<open>pwr\<close> always points at \<open>ten_pwr[exp]\<close>, so it
  is a search over the table from \<open>exp\<close> on.  Past the end of the table the model stops (the
  source asserts this never happens, see \<open>scan_pwr_digits\<close>).
\<close>

function scan_pwr :: "int \<Rightarrow> int \<Rightarrow> int" where
  "scan_pwr m exp = (if exp < 10 \<and> ten_pwr exp \<le> m then scan_pwr m (exp + 1) else exp)"
  by pat_completeness auto
termination
  by (relation "measure (\<lambda>(m, exp). nat (10 - exp))") auto

declare scan_pwr.simps [simp del]

definition promote :: "mval \<Rightarrow> mval" where
  "promote v =
    (let m = m1 v in
     if 0 < m then
       let exp = scan_pwr m 0 in
       v\<lparr>sgn_of := 0, m0 := 0, m1 := m * ten_pwr (NUM_DEC_DG_1L - exp), mvtype := MV_NM,
         e_of := EXP_INT_UNDERF + exp\<rparr>
     else if 0 > m then
       let m' = - m; exp = scan_pwr m' 0 in
       v\<lparr>sgn_of := 1, m0 := 0, m1 := m' * ten_pwr (NUM_DEC_DG_1L - exp), mvtype := MV_NM,
         e_of := EXP_INT_UNDERF + exp\<rparr>
     else literal_zero)"

definition demote :: "mval \<Rightarrow> int \<Rightarrow> int \<Rightarrow> mval" where
  "demote v exp sign =
    (let v' = (if exp = 0 then v
               else if sign = 0 then v\<lparr>m1 := m1 v sdiv ten_pwr (EXP_INT_OVERF - 1 - exp)\<rparr>
               else v\<lparr>m1 := m1 v sdiv (- ten_pwr (EXP_INT_OVERF - 1 - exp))\<rparr>)
     in v'\<lparr>mvtype := mv_or MV_NM MV_INT\<rparr>)"

section \<open>What a numeric mval denotes\<close>

text \<open>
  A number with the \<open>MV_INT\<close> bit is \<open>m[1]\<close> thousandths; any other is
  \<open>(-1)^sgn * 0.m[1]m[0] * 10^(e - 62)\<close> with nine digits in each of \<open>m[1]\<close>, \<open>m[0]\<close>.
  \<open>numval\<close> is that number times \<open>10^80\<close>, an integer for every mval: a unit of the last of the
  18 digits weighs \<open>10^e\<close>, and a thousandth weighs \<open>10^77\<close>.
\<close>

definition mant :: "mval \<Rightarrow> int" where
  "mant v = m1 v * MANT_HI + m0 v"

definition numval :: "mval \<Rightarrow> int" where
  "numval v = (if is_int (mvtype v) then m1 v * 10 ^ 77
               else (if sgn_of v = 0 then 1 else - 1) * mant v * 10 ^ nat (e_of v))"

definition wf_int :: "mval \<Rightarrow> bool" where
  "wf_int v \<longleftrightarrow> is_nm (mvtype v) \<and> is_int (mvtype v) \<and> - MANT_HI < m1 v \<and> m1 v < MANT_HI"

definition wf_flt :: "mval \<Rightarrow> bool" where
  "wf_flt v \<longleftrightarrow> is_nm (mvtype v) \<and> \<not> is_int (mvtype v) \<and> (sgn_of v = 0 \<or> sgn_of v = 1) \<and>
     MANT_LO \<le> m1 v \<and> m1 v < MANT_HI \<and> 0 \<le> m0 v \<and> m0 v < MANT_HI \<and> EXPLO \<le> e_of v \<and> e_of v < EXPHI"

definition wf_num :: "mval \<Rightarrow> bool" where
  "wf_num v \<longleftrightarrow> wf_int v \<or> wf_flt v"

lemma ten_pwr_eq: "0 \<le> i \<Longrightarrow> i \<le> 9 \<Longrightarrow> ten_pwr i = 10 ^ nat i"
proof -
  assume "0 \<le> i" "i \<le> 9"
  then have "nat i \<in> {0, 1, 2, 3, 4, 5, 6, 7, 8, 9}" by (simp add: nat_eq_iff) presburger
  then show ?thesis by (auto simp: ten_pwr_def ten_pwr_tab_def)
qed

lemma ten_pwr_numeral [simp]:
  "ten_pwr 0 = 1" "ten_pwr 1 = 10" "ten_pwr 2 = 100" "ten_pwr 3 = 1000" "ten_pwr 4 = 10000"
  "ten_pwr 5 = 100000" "ten_pwr 6 = 1000000" "ten_pwr 7 = 10000000" "ten_pwr 8 = 100000000"
  "ten_pwr 9 = 1000000000"
  by (simp_all add: ten_pwr_def ten_pwr_tab_def)

section \<open>promote and demote keep the value\<close>

lemma scan_pwr_digits:
  assumes "0 \<le> exp" "exp \<le> 9" "m < 10 ^ 9" "exp = 0 \<or> 10 ^ nat (exp - 1) \<le> m"
  shows "exp \<le> scan_pwr m exp \<and> scan_pwr m exp \<le> 9 \<and> m < 10 ^ nat (scan_pwr m exp)
    \<and> (scan_pwr m exp = 0 \<or> 10 ^ nat (scan_pwr m exp - 1) \<le> m)"
  using assms
proof (induction m exp rule: scan_pwr.induct)
  case (1 m exp)
  show ?case
  proof (cases "ten_pwr exp \<le> m")
    case True
    have "exp \<noteq> 9" using True "1.prems" by auto
    with "1.prems" have "exp \<le> 8" by simp
    have "10 ^ nat exp \<le> m"
      using True "1.prems" ten_pwr_eq [of exp] by simp
    then show ?thesis
      using "1.IH" "1.prems" True \<open>exp \<le> 8\<close>
      by (subst (1 2 3 4 5) scan_pwr.simps) (auto simp: nat_add_distrib)
  next
    case False
    then have "m < 10 ^ nat exp"
      using "1.prems" ten_pwr_eq [of exp] by simp
    with False "1.prems" show ?thesis
      by (subst (1 2 3 4 5) scan_pwr.simps) simp
  qed
qed

lemma scan_pwr_pos:
  assumes "0 < m" "m < MANT_HI"
  defines "d \<equiv> scan_pwr m 0"
  shows "1 \<le> d" "d \<le> 9" "10 ^ nat (d - 1) \<le> m" "m < 10 ^ nat d"
proof -
  note D = scan_pwr_digits [of 0 m, folded d_def]
  from D assms show "d \<le> 9" "m < 10 ^ nat d" by (auto simp: mv_defs)
  have "d \<noteq> 0" using \<open>m < 10 ^ nat d\<close> assms by auto
  with D assms show "1 \<le> d" "10 ^ nat (d - 1) \<le> m" by (auto simp: mv_defs)
qed

text \<open>Scaling a \<open>d\<close>-digit mantissa to nine digits, as \<open>promote\<close> and \<open>lvAvlTreeNodeFltConv\<close> do.\<close>

lemma scale_mantissa:
  assumes "0 < m" "m < MANT_HI"
  defines "d \<equiv> scan_pwr m 0"
  shows "MANT_LO \<le> m * ten_pwr (NUM_DEC_DG_1L - d)"
    and "m * ten_pwr (NUM_DEC_DG_1L - d) < MANT_HI"
    and "m * ten_pwr (NUM_DEC_DG_1L - d) * MANT_HI * 10 ^ nat (EXP_INT_UNDERF + d) = m * 10 ^ 77"
proof -
  note D = scan_pwr_pos [OF assms(1,2), folded d_def]
  have tp: "ten_pwr (NUM_DEC_DG_1L - d) = 10 ^ nat (9 - d)"
    using D ten_pwr_eq [of "9 - d"] by (simp add: mv_defs)
  have "(10::int) ^ nat (d - 1) * 10 ^ nat (9 - d) = 10 ^ 8"
    using D by (simp flip: power_add nat_add_distrib)
  then show "MANT_LO \<le> m * ten_pwr (NUM_DEC_DG_1L - d)"
    using mult_right_mono [OF D(3), of "10 ^ nat (9 - d)"] unfolding tp by (simp add: mv_defs)
  have "(10::int) ^ nat d * 10 ^ nat (9 - d) = 10 ^ 9"
    using D by (simp flip: power_add nat_add_distrib)
  then show "m * ten_pwr (NUM_DEC_DG_1L - d) < MANT_HI"
    using mult_strict_right_mono [OF D(4), of "10 ^ nat (9 - d)"] unfolding tp by (simp add: mv_defs)
  have "(10::int) ^ nat (9 - d) * (10 ^ 9 * 10 ^ nat (59 + d)) = 10 ^ nat (9 - d + (9 + (59 + d)))"
    using D by (simp only: nat_add_distrib power_add) (simp add: nat_add_distrib power_add)
  also have "\<dots> = 10 ^ 77" by simp
  finally show "m * ten_pwr (NUM_DEC_DG_1L - d) * MANT_HI * 10 ^ nat (EXP_INT_UNDERF + d) = m * 10 ^ 77"
    unfolding tp by (simp add: mv_defs algebra_simps)
qed

lemma promote_props:
  assumes "wf_int v"
  shows "numval (promote v) = numval v"
    and "m1 v \<noteq> 0 \<Longrightarrow> wf_flt (promote v)"
    and "m1 v \<noteq> 0 \<Longrightarrow> m0 (promote v) = 0"
    and "m1 v \<noteq> 0 \<Longrightarrow> sgn_of (promote v) = (if m1 v < 0 then 1 else 0)"
    and "m1 v = 0 \<Longrightarrow> promote v = literal_zero"
proof -
  consider "m1 v = 0" | "0 < m1 v" | "m1 v < 0" by linarith
  note cases3 = this
  have rng: "- MANT_HI < m1 v" "m1 v < MANT_HI" and flags: "is_nm (mvtype v)" "is_int (mvtype v)"
    using assms by (auto simp: wf_int_def)
  show "numval (promote v) = numval v"
  proof (cases rule: cases3)
    case 1 then show ?thesis
      by (simp add: promote_def numval_def literal_zero_def mv_simps flags)
  next
    case 2 then show ?thesis using scale_mantissa(3) [of "m1 v"] rng
      by (simp add: promote_def Let_def numval_def mant_def mv_simps flags mult.assoc)
  next
    case 3 then show ?thesis using scale_mantissa(3) [of "- m1 v"] rng
      by (simp add: promote_def Let_def numval_def mant_def mv_simps flags mult.assoc)
  qed
  show "wf_flt (promote v)" if "m1 v \<noteq> 0"
  proof (cases rule: cases3)
    case 1 with that show ?thesis by simp
  next
    case 2 then show ?thesis using scale_mantissa(1,2) [of "m1 v"] scan_pwr_pos(1,2) [of "m1 v"] rng
      by (simp add: promote_def Let_def wf_flt_def mv_simps) (simp add: mv_defs)
  next
    case 3 then show ?thesis
      using scale_mantissa(1,2) [of "- m1 v"] scan_pwr_pos(1,2) [of "- m1 v"] rng
      by (simp add: promote_def Let_def wf_flt_def mv_simps) (simp add: mv_defs)
  qed
  show "m0 (promote v) = 0" if "m1 v \<noteq> 0"
    using that by (cases rule: cases3) (auto simp: promote_def Let_def)
  show "sgn_of (promote v) = (if m1 v < 0 then 1 else 0)" if "m1 v \<noteq> 0"
    using that by (cases rule: cases3) (auto simp: promote_def Let_def)
  show "promote v = literal_zero" if "m1 v = 0"
    using that by (simp add: promote_def)
qed


section \<open>Properties\<close>

definition ex_num :: "int \<Rightarrow> mval" where
  "ex_num m = \<lparr>mvtype = mv_or MV_NM MV_INT, sgn_of = 0, e_of = 0, m0 = 0, m1 = m, str_of = []\<rparr>"

text \<open>
  \<open>promote\<close> changes the representation and not the number: an integer-form number below
  \<open>10^6\<close> in magnitude becomes a normalised float (nine leading digits, exponent in range) of the
  same value and sign, and zero becomes the literal zero.
\<close>

theorem promote_keeps_value:
  assumes "wf_int v"
  shows "numval (promote v) = numval v \<and> (m1 v \<noteq> 0 \<longrightarrow> wf_flt (promote v)) \<and>
    (m1 v = 0 \<longrightarrow> promote v = literal_zero)"
  using promote_props [OF assms] by blast

theorem promote_keeps_value_witness:
  "numval (promote (ex_num (- 1500))) = numval (ex_num (- 1500)) \<and> wf_flt (promote (ex_num (- 1500)))"
  using promote_keeps_value [of "ex_num (- 1500)"] by (simp add: wf_int_def ex_num_def mv_defs)

end
