(* ===== verification/S2n.thy ===== *)
theory S2n
  imports Mval
begin

text \<open>
  Conversion of an M string to a number (\<open>s2n.c\<close>) and the forcing macros of \<open>mdef.h\<close> that call
  it.  The character pointers \<open>c\<close>, \<open>d\<close>, \<open>w\<close>, \<open>eos\<close> of the source are indices into the string;
  each scanning loop of the source is one function over the index.  The theorem at the end: for
  every string the conversion ends in a number within the documented ranges, or in the overflow
  error, and never in an out-of-range table access or \<open>int4\<close> overflow.
\<close>

datatype rt_error = ERR_NUMOFLOW | ERR_DIVZERO | ERR_UNDEF | ERR_GVSUBOFLOW | ERR_MAXSTRLEN | SIGFPE

text \<open>
  The run-time errors the modelled code raises; \<open>SIGFPE\<close> is the trap of an integer division by zero
  in the C code itself.
\<close>

type_synonym 'a result = "rt_error + 'a"

definition DIGIT :: "byte \<Rightarrow> bool" where
  "DIGIT x \<longleftrightarrow> 48 \<le> x \<and> x \<le> 57"

definition digval :: "byte \<Rightarrow> int" where
  "digval x = uint x - 48"

abbreviation ch_plus :: byte where "ch_plus \<equiv> 43"
abbreviation ch_minus :: byte where "ch_minus \<equiv> 45"
abbreviation ch_dot :: byte where "ch_dot \<equiv> 46"
abbreviation ch_0 :: byte where "ch_0 \<equiv> 48"
abbreviation ch_E :: byte where "ch_E \<equiv> 69"

definition MAX_DIGITS_IN_EXP :: int where [mv_defs]: "MAX_DIGITS_IN_EXP = 2"

section \<open>The scanning loops\<close>

text \<open>\<open>while (c < eos && ('-' == *c || '+' == *c)) sign += ('-' == *c++) ? 1 : 2\<close>\<close>

function scan_sign :: "bytes \<Rightarrow> nat \<Rightarrow> int \<Rightarrow> nat \<times> int" where
  "scan_sign s c sign =
    (if c < length s \<and> (s ! c = ch_minus \<or> s ! c = ch_plus)
     then scan_sign s (c + 1) (sign + (if s ! c = ch_minus then 1 else 2))
     else (c, sign))"
  by pat_completeness auto
termination by (relation "measure (\<lambda>(s, c, sign). length s - c)") auto

text \<open>\<open>for (zero = 0; c < eos && '0' == *c; zero++, c++)\<close>; the fraction's zeros count down instead.\<close>

function scan_zeros :: "bytes \<Rightarrow> nat \<Rightarrow> int \<Rightarrow> nat \<times> int" where
  "scan_zeros s c n =
    (if c < length s \<and> s ! c = ch_0 then scan_zeros s (c + 1) (n + 1) else (c, n))"
  by pat_completeness auto
termination by (relation "measure (\<lambda>(s, c, n). length s - c)") auto

text \<open>
  The two loops that build \<open>m[1]\<close>: \<open>z\<close> counts the digits, \<open>i\<close> the zeros at the end of what has
  been read so far.
\<close>

function scan_m1 :: "bytes \<Rightarrow> nat \<Rightarrow> nat \<Rightarrow> int \<Rightarrow> int \<Rightarrow> int \<Rightarrow> nat \<times> int \<times> int \<times> int" where
  "scan_m1 s w c z i m =
    (if c < w \<and> DIGIT (s ! c)
     then if s ! c = ch_0 then scan_m1 s w (c + 1) (z + 1) (i + 1) (m * 10)
          else scan_m1 s w (c + 1) (z + 1) 0 (m * 10 + digval (s ! c))
     else (c, z, i, m))"
  by pat_completeness auto
termination by (relation "measure (\<lambda>(s, w, c, z, i, m). w - c)") auto

function scan_m0 :: "bytes \<Rightarrow> nat \<Rightarrow> nat \<Rightarrow> int \<Rightarrow> int \<Rightarrow> nat \<times> int \<times> int" where
  "scan_m0 s w c z m =
    (if c < w \<and> DIGIT (s ! c) then scan_m0 s w (c + 1) (z + 1) (m * 10 + digval (s ! c))
     else (c, z, m))"
  by pat_completeness auto
termination by (relation "measure (\<lambda>(s, w, c, z, m). w - c)") auto

text \<open>
  The digits past the eighteenth: \<open>z\<close> still counts those before the point.  \<open>dot\<close> is not updated
  by this loop, exactly as in the source, so a second point does not stop it when the first one is
  met here.
\<close>

function scan_tail :: "bytes \<Rightarrow> bool \<Rightarrow> nat \<Rightarrow> int \<Rightarrow> bool \<Rightarrow> nat \<times> int" where
  "scan_tail s dot c z dotseen =
    (if c < length s \<and> ((s ! c = ch_dot \<and> \<not> dot) \<or> DIGIT (s ! c))
     then let dotseen' = (dotseen \<or> s ! c = ch_dot) in
          scan_tail s dot (c + 1) (if \<not> dotseen' then z + 1 else z) dotseen'
     else (c, z))"
  by pat_completeness auto
termination by (relation "measure (\<lambda>(s, dot, c, z, ds). length s - c)") auto

function scan_exp :: "bytes \<Rightarrow> nat \<Rightarrow> int \<Rightarrow> int \<Rightarrow> nat \<times> int \<times> int" where
  "scan_exp s c x expdigits =
    (if c < length s \<and> DIGIT (s ! c)
     then if expdigits < MAX_DIGITS_IN_EXP + 1
          then scan_exp s (c + 1) (x * 10 + digval (s ! c)) (expdigits + 1)
          else scan_exp s (c + 1) x expdigits
     else (c, x, expdigits))"
  by pat_completeness auto
termination by (relation "measure (\<lambda>(s, c, x, ed). length s - c)") auto

lemmas scan_simps = scan_sign.simps scan_zeros.simps scan_m1.simps scan_m0.simps
  scan_tail.simps scan_exp.simps
declare scan_simps [simp del]

section \<open>s2n\<close>

text \<open>
  The scan of the mantissa, up to the label-free point before the exponent: the fields are the
  local variables of \<open>s2n\<close> at that point.
\<close>

record s2n_st =
  pos :: nat
  s_sign :: int
  s_zero :: int
  s_dot :: bool
  s_y :: int
  s_z :: int
  s_i :: int
  s_k :: int
  s_tail :: bool
  s_m0 :: int
  s_m1 :: int

text \<open>Signs, leading zeros, a leading point and the zeros after it: \<open>(c, sign, zero, dot, y)\<close>.\<close>

definition s2n_lead :: "bytes \<Rightarrow> nat \<times> int \<times> int \<times> bool \<times> int" where
  "s2n_lead s =
    (let (c, sign) = scan_sign s 0 0;
         (c, zero) = scan_zeros s c 0;
         dot = (c < length s \<and> s ! c = ch_dot);
         c = (if dot then c + 1 else c);
         (c, yn) = scan_zeros s c 0
     in (c, sign, zero, dot, - yn))"

text \<open>\<open>w = (d < eos) ? d : eos\<close>\<close>

definition s2n_win :: "bytes \<Rightarrow> nat \<Rightarrow> nat" where
  "s2n_win s d = (if d < length s then d else length s)"

text \<open>The first nine digits, with a point among them: \<open>(c, z, i, m[1], dot, y, k)\<close>.\<close>

definition s2n_hi :: "bytes \<Rightarrow> nat \<Rightarrow> bool \<Rightarrow> int \<Rightarrow> nat \<times> int \<times> int \<times> int \<times> bool \<times> int \<times> int" where
  "s2n_hi s c dot y =
    (let eos = length s;
         d = c + 9;
         w = s2n_win s d;
         (c, z, i, mh) = scan_m1 s w c 0 0 0;
         pt = (c < w \<and> s ! c = ch_dot \<and> \<not> dot);
         (c, d, w, y) = (if pt then (c + 1, d + 1, if w < eos then w + 1 else w, z) else (c, d, w, y));
         (c, _, i, mh) = scan_m1 s w c z i mh
     in (c, z, i, mh, dot \<or> pt, y, int d - int c))"

text \<open>The next nine digits, when the string goes on: \<open>(c, z, m[0], dot, y)\<close>.\<close>

definition s2n_lo :: "bytes \<Rightarrow> nat \<Rightarrow> int \<Rightarrow> bool \<Rightarrow> int \<Rightarrow> nat \<times> int \<times> int \<times> bool \<times> int" where
  "s2n_lo s c z dot y =
    (let eos = length s in
     if c < eos then
       let d = c + 9;
           w = s2n_win s d;
           (c, z, ml) = scan_m0 s w c z 0;
           pt = (c < w \<and> s ! c = ch_dot \<and> \<not> dot);
           (c, d, w, y) = (if pt then (c + 1, d + 1, if w < eos then w + 1 else w, z) else (c, d, w, y));
           (c, _, ml) = scan_m0 s w c z ml;
           ml = ml * ten_pwr (int d - int c);
           (c, z) = scan_zeros s c z
       in (c, z, ml, dot \<or> pt, y)
     else (c, z, 0, dot, y))"

definition s2n_mantissa :: "bytes \<Rightarrow> s2n_st" where
  "s2n_mantissa s =
    (let (c, sign, zero, dot, y) = s2n_lead s;
         (c, z, i, mh, dot, y, k) = s2n_hi s c dot y;
         (c, z, ml, dot, y) = s2n_lo s c z dot y;
         tail = (c \<noteq> length s \<or> (dot \<and> (s ! (c - 1) = ch_0 \<or> s ! (c - 1) = ch_dot)));
         (c, z) = scan_tail s dot c z dot
     in \<lparr>pos = c, s_sign = sign, s_zero = zero, s_dot = dot, s_y = y, s_z = z, s_i = i, s_k = k,
         s_tail = tail, s_m0 = ml, s_m1 = mh\<rparr>)"

text \<open>The exponent part: \<open>(exp, x, c)\<close>; a trailing \<open>E\<close> with no digit after it is not consumed.\<close>

definition s2n_exponent :: "bytes \<Rightarrow> nat \<Rightarrow> bool \<Rightarrow> bool \<times> int \<times> nat" where
  "s2n_exponent s c digit =
    (let eos = length s;
         exp = (c < eos \<and> s ! c = ch_E \<and> digit)
     in if exp \<and> c + 1 < eos then
          let w = c;
              c = c + 1;
              exneg = (s ! c = ch_minus);
              c = (if exneg \<or> s ! c = ch_plus then c + 1 else c);
              d = c;
              (c, _) = scan_zeros s c 0;
              (c, x, expdigits) = scan_exp s c 0 0
          in if expdigits = 0 \<and> d = c then (exp, x, w)
             else if exneg then (exp, - x, c)
             else (exp, x, c)
        else (exp, 0, c))"

text \<open>
  The last part, run when the string starts with a number: \<open>x\<close> is the exponent read after \<open>E\<close>.
  The number is an \<open>MV_INT\<close> when it is a multiple of a thousandth below \<open>10^6\<close>, a float otherwise;
  too small is zero, too large is NUMOFLOW (no error, but no number either, at compile time).
\<close>

definition s2n_number :: "bool \<Rightarrow> mval \<Rightarrow> s2n_st \<Rightarrow> int \<Rightarrow> nat \<Rightarrow> mval result" where
  "s2n_number compile_time u st x0 len =
    (let neg = odd (s_sign st);
         approx = (s_tail st \<or> 1 < s_sign st \<or> (s_zero st \<noteq> 0 \<and> 1 \<noteq> len));
         x = x0 + (if s_dot st then s_y st else s_z st);
         j = x + s_k st - 6;
         i = s_i st + j
     in if m0 u = 0 \<and> 6 \<ge> x \<and> 0 \<le> i then
          Inr (u\<lparr>mvtype := mv_or (mvtype u)
                  (if approx then mv_or (mv_or MV_NM MV_INT) MV_NUM_APPROX else mv_or MV_NM MV_INT),
                 m1 := (if 0 > j
                        then m1 u sdiv (if neg then - ten_pwr (- j) else ten_pwr (- j))
                        else m1 u * (if neg then - ten_pwr j else ten_pwr j))\<rparr>)
        else
          let u = u\<lparr>m1 := m1 u * ten_pwr (s_k st)\<rparr>;
              x = x + MV_XBIAS
          in if EXPLO > x \<or> m1 u = 0 then
               Inr (u\<lparr>mvtype := mv_or (mvtype u) (mv_or (mv_or MV_NM MV_INT) MV_NUM_APPROX), m1 := 0\<rparr>)
             else if EXPHI \<le> x then
               (if compile_time
                then Inr (u\<lparr>mvtype := (mvtype u)\<lparr>is_nm := False, is_int := False, is_approx := False\<rparr>\<rparr>)
                else Inl ERR_NUMOFLOW)
             else
               Inr (u\<lparr>e_of := x, sgn_of := (if neg then 1 else 0),
                      mvtype := mv_or (mvtype u) (if approx then mv_or MV_NM MV_NUM_APPROX else MV_NM)\<rparr>))"

text \<open>
  The result: the converted mval, the returned pointer (as an index), and the value left in
  \<open>TREF(s2n_intlit)\<close>.
\<close>

record s2n_res =
  r_mval :: mval
  r_pos :: nat
  r_intlit :: bool

definition s2n :: "bool \<Rightarrow> mval \<Rightarrow> s2n_res result" where
  "s2n compile_time u =
    (if str_of u = [] then Inr \<lparr>r_mval = literal_null, r_pos = 0, r_intlit = True\<rparr>
     else
       let s = str_of u;
           st = s2n_mantissa s;
           digit = (s_z st \<noteq> 0 \<or> s_y st \<noteq> 0 \<or> s_zero st \<noteq> 0);
           (exp, x, c) = s2n_exponent s (pos st) digit;
           intlit = (s_sign st \<noteq> 0 \<or> s_dot st \<or> exp);
           u = u\<lparr>m0 := s_m0 st, m1 := s_m1 st\<rparr>
       in case (if digit then s2n_number compile_time u st x (length s)
                else Inr (u\<lparr>mvtype := mv_or (mvtype u) (mv_or (mv_or MV_NM MV_INT) MV_NUM_APPROX), m1 := 0\<rparr>)) of
            Inl err \<Rightarrow> Inl err
          | Inr v \<Rightarrow> Inr \<lparr>r_mval = v, r_pos = c, r_intlit = intlit\<rparr>)"

text \<open>
  \<open>MV_FORCE_NUM\<close> at run time (\<open>compile_time\<close> is FALSE then): an undefined mval goes through
  \<open>underr\<close>, which returns \<open>literal_null\<close> under \<open>VIEW "NOUNDEF"\<close> (\<open>undef_inhibit\<close>) and raises
  UNDEF otherwise; \<open>MV_FORCE_CANONICAL\<close> drops the string bits of an approximate number.
\<close>

definition MV_DEFINED :: "mval \<Rightarrow> bool" where
  "MV_DEFINED v \<longleftrightarrow> is_str (mvtype v) \<or> is_nm (mvtype v)"

definition underr :: "bool \<Rightarrow> mval result" where
  "underr undef_inhibit = (if undef_inhibit then Inr literal_null else Inl ERR_UNDEF)"

definition MV_FORCE_NUM :: "bool \<Rightarrow> mval \<Rightarrow> mval result" where
  "MV_FORCE_NUM undef_inhibit v =
    (case (if \<not> MV_DEFINED v then underr undef_inhibit else Inr v) of
       Inl err \<Rightarrow> Inl err
     | Inr v \<Rightarrow> if is_nm (mvtype v) then Inr v
               else (case s2n False v of Inl err \<Rightarrow> Inl err | Inr r \<Rightarrow> Inr (r_mval r)))"

definition MV_FORCE_CANONICAL :: "mval \<Rightarrow> mval result" where
  "MV_FORCE_CANONICAL v =
    (case (if is_nm (mvtype v) then Inr v
           else (case s2n False v of Inl err \<Rightarrow> Inl err | Inr r \<Rightarrow> Inr (r_mval r))) of
       Inl err \<Rightarrow> Inl err
     | Inr v \<Rightarrow> Inr (if is_approx (mvtype v) then v\<lparr>mvtype := mv_and (mvtype v) (mv_or MV_NM MV_INT)\<rparr> else v))"

section \<open>Every string converts to a number in range, or overflows\<close>


lemma digval_bounds: "DIGIT b \<Longrightarrow> 0 \<le> digval b \<and> digval b \<le> 9"
  by (simp add: DIGIT_def digval_def word_le_def)

lemma digval_pos: "DIGIT b \<Longrightarrow> b \<noteq> ch_0 \<Longrightarrow> 1 \<le> digval b"
proof -
  assume a: "DIGIT b" "b \<noteq> ch_0"
  have "uint b \<noteq> uint (48::byte)" using a(2) by (metis word_uint_eq_iff)
  then show ?thesis using a by (simp add: DIGIT_def digval_def word_le_def)
qed

lemma DIGIT_not_dot: "DIGIT b \<Longrightarrow> b \<noteq> ch_dot"
  by (auto simp: DIGIT_def)

lemma scan_sign_props:
  "scan_sign s c sign = (c', sign') \<Longrightarrow> c \<le> c' \<and> (c \<le> length s \<longrightarrow> c' \<le> length s) \<and> sign \<le> sign'"
proof (induction s c sign rule: scan_sign.induct)
  case (1 s c sign)
  then show ?case by (subst (asm) scan_sign.simps) (fastforce split: if_splits)
qed

lemma scan_zeros_props:
  "scan_zeros s c n = (c', n') \<Longrightarrow> c \<le> c' \<and> (c \<le> length s \<longrightarrow> c' \<le> length s) \<and>
     n' = n + int (c' - c) \<and> (c' < length s \<longrightarrow> s ! c' \<noteq> ch_0)"
proof (induction s c n rule: scan_zeros.induct)
  case (1 s c n)
  show ?case
  proof (cases "c < length s \<and> s ! c = ch_0")
    case True
    with "1.prems" have "scan_zeros s (c + 1) (n + 1) = (c', n')"
      by (subst (asm) scan_zeros.simps) simp
    from "1.IH" [OF True this] True show ?thesis
      by (auto simp: of_nat_diff)
  next
    case False
    with "1.prems" show ?thesis by (subst (asm) scan_zeros.simps) (auto split: if_splits)
  qed
qed

lemma scan_m1_props:
  assumes "scan_m1 s w c z i m = (c', z', i', m')" "c \<le> w" "0 \<le> m" "0 \<le> i" "10 ^ nat i dvd m"
  shows "c \<le> c' \<and> c' \<le> w \<and> z' = z + int (c' - c) \<and> 0 \<le> i' \<and> i' \<le> i + int (c' - c) \<and>
    m * 10 ^ (c' - c) \<le> m' \<and> m' < (m + 1) * 10 ^ (c' - c) \<and> 10 ^ nat i' dvd m' \<and>
    (c' < w \<longrightarrow> \<not> DIGIT (s ! c'))"
  using assms
proof (induction s w c z i m rule: scan_m1.induct)
  case (1 s w c z i m)
  show ?case
  proof (cases "c < w \<and> DIGIT (s ! c)")
    case T: True
    define dv where "dv = (if s ! c = ch_0 then 0 else digval (s ! c))"
    define i2 where "i2 = (if s ! c = ch_0 then i + 1 else 0)"
    have dv: "0 \<le> dv" "dv \<le> 9" using T digval_bounds by (auto simp: dv_def)
    have i2: "0 \<le> i2" "i2 \<le> i + 1" using "1.prems" by (auto simp: i2_def)
    have dvd: "10 ^ nat i2 dvd m * 10 + dv"
      using "1.prems" by (auto simp: i2_def dv_def nat_add_distrib mult_dvd_mono)
    have rec: "scan_m1 s w (c + 1) (z + 1) i2 (m * 10 + dv) = (c', z', i', m')"
      using "1.prems"(1) T by (subst (asm) scan_m1.simps) (auto simp: dv_def i2_def split: if_splits)
    have IH: "c + 1 \<le> c' \<and> c' \<le> w \<and> z' = z + 1 + int (c' - (c + 1)) \<and> 0 \<le> i' \<and>
        i' \<le> i2 + int (c' - (c + 1)) \<and> (m * 10 + dv) * 10 ^ (c' - (c + 1)) \<le> m' \<and>
        m' < (m * 10 + dv + 1) * 10 ^ (c' - (c + 1)) \<and> 10 ^ nat i' dvd m' \<and>
        (c' < w \<longrightarrow> \<not> DIGIT (s ! c'))"
    proof (cases "s ! c = ch_0")
      case True
      then show ?thesis using "1.IH"(1) [OF T True] rec T "1.prems" dvd by (auto simp: dv_def i2_def of_nat_diff)
    next
      case False
      then show ?thesis using "1.IH"(2) [OF T False] rec T "1.prems" dv by (auto simp: dv_def i2_def of_nat_diff)
    qed
    then obtain n where n: "c' = c + 1 + n" by (metis le_Suc_ex)
    have lo: "m * 10 ^ (c' - c) \<le> m'"
    proof -
      have "m * 10 ^ (c' - c) = (m * 10) * 10 ^ n" by (simp add: n)
      also have "\<dots> \<le> (m * 10 + dv) * 10 ^ n" using dv by (intro mult_right_mono) auto
      also have "\<dots> \<le> m'" using IH by (simp add: n)
      finally show ?thesis .
    qed
    have hi: "m' < (m + 1) * 10 ^ (c' - c)"
    proof -
      have "m' < (m * 10 + dv + 1) * 10 ^ n" using IH by (simp add: n)
      also have "\<dots> \<le> ((m + 1) * 10) * 10 ^ n" using dv by (intro mult_right_mono) auto
      also have "\<dots> = (m + 1) * 10 ^ (c' - c)" by (simp add: n)
      finally show ?thesis .
    qed
    from IH lo hi i2 show ?thesis by (auto simp: n)
  next
    case False
    with "1.prems" show ?thesis by (subst (asm) scan_m1.simps) auto
  qed
qed

lemma scan_m0_props:
  assumes "scan_m0 s w c z m = (c', z', m')" "c \<le> w" "0 \<le> m"
  shows "c \<le> c' \<and> c' \<le> w \<and> z' = z + int (c' - c) \<and>
    m * 10 ^ (c' - c) \<le> m' \<and> m' < (m + 1) * 10 ^ (c' - c) \<and> (c' < w \<longrightarrow> \<not> DIGIT (s ! c'))"
  using assms
proof (induction s w c z m rule: scan_m0.induct)
  case (1 s w c z m)
  show ?case
  proof (cases "c < w \<and> DIGIT (s ! c)")
    case T: True
    define dv where "dv = digval (s ! c)"
    have dv: "0 \<le> dv" "dv \<le> 9" using T digval_bounds by (auto simp: dv_def)
    have rec: "scan_m0 s w (c + 1) (z + 1) (m * 10 + dv) = (c', z', m')"
      using "1.prems"(1) T by (subst (asm) scan_m0.simps) (auto simp: dv_def)
    have IH: "c + 1 \<le> c' \<and> c' \<le> w \<and> z' = z + 1 + int (c' - (c + 1)) \<and>
        (m * 10 + dv) * 10 ^ (c' - (c + 1)) \<le> m' \<and>
        m' < (m * 10 + dv + 1) * 10 ^ (c' - (c + 1)) \<and> (c' < w \<longrightarrow> \<not> DIGIT (s ! c'))"
      using "1.IH" [OF T] rec T "1.prems" dv by (simp add: dv_def)
    then obtain n where n: "c' = c + 1 + n" by (metis le_Suc_ex)
    have "m * 10 ^ (c' - c) = (m * 10) * 10 ^ n" by (simp add: n)
    also have "\<dots> \<le> (m * 10 + dv) * 10 ^ n" using dv by (intro mult_right_mono) auto
    also have "\<dots> \<le> m'" using IH by (simp add: n)
    finally have lo: "m * 10 ^ (c' - c) \<le> m'" .
    have "m' < (m * 10 + dv + 1) * 10 ^ n" using IH by (simp add: n)
    also have "\<dots> \<le> ((m + 1) * 10) * 10 ^ n" using dv by (intro mult_right_mono) auto
    also have "\<dots> = (m + 1) * 10 ^ (c' - c)" by (simp add: n)
    finally have hi: "m' < (m + 1) * 10 ^ (c' - c)" .
    from IH lo hi show ?thesis by (auto simp: n)
  next
    case False
    with "1.prems" show ?thesis by (subst (asm) scan_m0.simps) auto
  qed
qed



lemma s2n_lead_props:
  assumes "s2n_lead s = (c, sign, zero, dot, y)"
  shows "c \<le> length s" "c < length s \<Longrightarrow> s ! c \<noteq> ch_0" "c < length s \<Longrightarrow> \<not> dot \<Longrightarrow> s ! c \<noteq> ch_dot"
    and "0 \<le> sign"
proof -
  obtain c1 sign' where e1: "scan_sign s 0 0 = (c1, sign')" by force
  obtain c2 zero' where e2: "scan_zeros s c1 0 = (c2, zero')" by force
  define c3 where "c3 = (if c2 < length s \<and> s ! c2 = ch_dot then c2 + 1 else c2)"
  obtain c4 yn where e4: "scan_zeros s c3 0 = (c4, yn)" by force
  have res: "c = c4" "sign = sign'" "dot = (c2 < length s \<and> s ! c2 = ch_dot)"
    using assms e1 e2 e4 by (auto simp: s2n_lead_def c3_def)
  note p1 = scan_sign_props [OF e1]
  note p2 = scan_zeros_props [OF e2]
  note p4 = scan_zeros_props [OF e4]
  show "c \<le> length s" "c < length s \<Longrightarrow> s ! c \<noteq> ch_0" "0 \<le> sign"
    using p1 p2 p4 by (auto simp: res c3_def split: if_splits)
  have "c2 < length s \<Longrightarrow> \<not> dot \<Longrightarrow> c4 = c2"
    using e4 p2 by (auto simp: res c3_def scan_zeros.simps [of s c2])
  then show "c < length s \<Longrightarrow> \<not> dot \<Longrightarrow> s ! c \<noteq> ch_dot"
    using p1 p2 p4 by (cases "c2 < length s") (auto simp: res c3_def split: if_splits)
qed


lemma s2n_win_props: "c \<le> length s \<Longrightarrow> c \<le> s2n_win s (c + n) \<and> s2n_win s d \<le> d \<and> s2n_win s d \<le> length s"
  by (simp add: s2n_win_def)

lemma digits_join:
  assumes "0 \<le> h1" "h1 < (10::int) ^ a" "h1 * 10 ^ b \<le> h3" "h3 < (h1 + 1) * 10 ^ b"
  shows "0 \<le> h3" "h3 < 10 ^ (a + b)"
proof -
  show "0 \<le> h3" using assms(1,3) by (meson order_trans pow10_pos less_imp_le mult_nonneg_nonneg)
  have "(h1 + 1) * 10 ^ b \<le> 10 ^ a * 10 ^ b" using assms(2) by (intro mult_right_mono) auto
  with assms(4) have "h3 < 10 ^ a * 10 ^ b" by (rule less_le_trans)
  then show "h3 < 10 ^ (a + b)" by (simp add: power_add)
qed

lemma scan_m1_first:
  assumes "scan_m1 s w c 0 0 0 = (c', z', i', m')" "c \<le> w" "c < w \<Longrightarrow> s ! c \<noteq> ch_0"
  shows "if c' = c then m' = 0 else 10 ^ (c' - c - 1) \<le> m'"
proof (cases "c < w \<and> DIGIT (s ! c)")
  case True
  then have "scan_m1 s w (c + 1) 1 0 (digval (s ! c)) = (c', z', i', m')"
    using assms by (subst (asm) scan_m1.simps) simp
  from scan_m1_props [OF this] True digval_pos [of "s ! c"] assms(3)
  have p: "c + 1 \<le> c'" "digval (s ! c) * 10 ^ (c' - (c + 1)) \<le> m'" by auto
  have "1 * 10 ^ (c' - (c + 1)) \<le> digval (s ! c) * 10 ^ (c' - (c + 1))"
    using True digval_pos [of "s ! c"] assms(3) by (intro mult_right_mono) auto
  with p(2) have "10 ^ (c' - (c + 1)) \<le> m'" by linarith
  with p(1) show ?thesis by simp
next
  case False
  with assms show ?thesis by (subst (asm) scan_m1.simps) auto
qed

lemma s2n_hi_props:
  assumes H: "s2n_hi s c dot y = (c', z, i, mh, dot', y', k)"
    and c: "c \<le> length s" "c < length s \<Longrightarrow> s ! c \<noteq> ch_0"
      "c < length s \<Longrightarrow> \<not> dot \<Longrightarrow> s ! c \<noteq> ch_dot"
  shows "\<exists>n. n \<le> 9 \<and> k = 9 - int n \<and> mh < 10 ^ n \<and> (if n = 0 then mh = 0 else 10 ^ (n - 1) \<le> mh)
    \<and> 0 \<le> i \<and> i \<le> int n \<and> 10 ^ nat i dvd mh \<and> c \<le> c' \<and> c' \<le> length s"
proof -
  define w where "w = s2n_win s (c + 9)"
  have w: "c \<le> w" "w \<le> c + 9" "w \<le> length s"
    using s2n_win_props [OF c(1)] by (auto simp: w_def)
  obtain c1 z1 i1 h1 where e1: "scan_m1 s w c 0 0 0 = (c1, z1, i1, h1)" by (metis prod_cases4)
  note p1 = scan_m1_props [OF e1 w(1)]
  have f1: "if c1 = c then h1 = 0 else 10 ^ (c1 - c - 1) \<le> h1"
    using scan_m1_first [OF e1 w(1)] c w by auto
  define pt where "pt = (c1 < w \<and> s ! c1 = ch_dot \<and> \<not> dot)"
  define c2 where "c2 = (if pt then c1 + 1 else c1)"
  define w2 where "w2 = (if pt then if w < length s then w + 1 else w else w)"
  obtain c3 z3 i3 h3 where e3: "scan_m1 s w2 c2 z1 i1 h1 = (c3, z3, i3, h3)" by (metis prod_cases4)
  have w2: "c2 \<le> w2" "w2 \<le> length s" "w2 \<le> (if pt then c + 10 else c + 9)"
    using p1 w by (auto simp: c2_def w2_def pt_def)
  have h1: "0 \<le> h1" "0 \<le> i1" "10 ^ nat i1 dvd h1" using p1 by auto
  note p3 = scan_m1_props [OF e3 w2(1) h1]
  have res: "c' = c3" "i = i3" "mh = h3" "k = int (if pt then c + 10 else c + 9) - int c3"
    using H e1 e3 unfolding s2n_hi_def Let_def w_def [symmetric]
    by (cases pt; auto simp: c2_def w2_def pt_def)+
  have c12: "c1 = c \<Longrightarrow> c3 = c2 \<and> \<not> pt"
  proof -
    assume eq: "c1 = c"
    then have "\<not> pt" using c(3) w unfolding pt_def by (metis less_le_trans)
    moreover have "\<not> (c < w \<and> DIGIT (s ! c))" using p1 eq by auto
    ultimately show ?thesis using e3 eq by (auto simp: c2_def w2_def scan_m1.simps [of s w c])
  qed
  define n where "n = (c1 - c) + (c3 - c2)"
  have "n \<le> 9" "k = 9 - int n" using p1 p3 w w2 by (auto simp: n_def res c2_def)
  moreover have "h3 < 10 ^ n"
    using digits_join(2) [of h1 "c1 - c" "c3 - c2" h3] p1 p3 by (simp add: n_def)
  moreover have "if n = 0 then h3 = 0 else 10 ^ (n - 1) \<le> h3"
  proof (cases "c1 = c")
    case True
    then show ?thesis using c12 p3 f1 by (simp add: n_def)
  next
    case False
    then have "10 ^ (c1 - c - 1) * 10 ^ (c3 - c2) \<le> h1 * 10 ^ (c3 - c2)"
      using f1 by (intro mult_right_mono) auto
    then show ?thesis using False p1 p3 by (auto simp: n_def simp flip: power_add)
  qed
  moreover have "0 \<le> i3 \<and> i3 \<le> int n \<and> 10 ^ nat i3 dvd h3 \<and> c \<le> c3 \<and> c3 \<le> length s"
    using p1 p3 w2 by (auto simp: n_def c2_def split: if_splits)
  ultimately show ?thesis unfolding res by blast
qed

lemma s2n_lo_props:
  assumes L: "s2n_lo s c z dot y = (c', z', ml, dot', y')" and c: "c \<le> length s"
  shows "0 \<le> ml \<and> ml < 10 ^ 9 \<and> c \<le> c' \<and> c' \<le> length s"
proof (cases "c < length s")
  case True
  define w where "w = s2n_win s (c + 9)"
  have w: "c \<le> w" "w \<le> c + 9" "w \<le> length s"
    using s2n_win_props [OF c] by (auto simp: w_def)
  obtain c1 z1 l1 where e1: "scan_m0 s w c z 0 = (c1, z1, l1)" by (metis prod_cases3)
  note p1 = scan_m0_props [OF e1 w(1)]
  define pt where "pt = (c1 < w \<and> s ! c1 = ch_dot \<and> \<not> dot)"
  define c2 where "c2 = (if pt then c1 + 1 else c1)"
  define d2 where "d2 = (if pt then c + 9 + 1 else c + 9)"
  define w2 where "w2 = (if pt then if w < length s then w + 1 else w else w)"
  obtain c3 z3 l3 where e3: "scan_m0 s w2 c2 z1 l1 = (c3, z3, l3)" by (metis prod_cases3)
  have w2: "c2 \<le> w2" "w2 \<le> length s" "w2 \<le> d2"
    using p1 w by (auto simp: c2_def w2_def d2_def pt_def)
  note p3 = scan_m0_props [OF e3 w2(1)]
  obtain c4 z4 where e4: "scan_zeros s c3 z1 = (c4, z4)" by force
  have res: "c' = c4" "ml = l3 * ten_pwr (int d2 - int c3)"
    using L e1 e3 e4 True unfolding s2n_lo_def Let_def w_def [symmetric]
    by (cases pt; auto simp: c2_def d2_def w2_def pt_def)+
  define n where "n = (c1 - c) + (c3 - c2)"
  have n: "n \<le> 9" "int d2 - int c3 = 9 - int n"
    using p1 p3 w w2 by (auto simp: n_def c2_def d2_def split: if_splits)
  have l3: "0 \<le> l3" "l3 < 10 ^ n"
    using digits_join [of l1 "c1 - c" "c3 - c2" l3] p1 p3 by (simp_all add: n_def)
  have tp: "ten_pwr (int d2 - int c3) = 10 ^ (9 - n)"
    using n ten_pwr_eq [of "9 - int n"] by (simp add: nat_diff_distrib)
  have "l3 * 10 ^ (9 - n) < 10 ^ n * 10 ^ (9 - n)"
    using l3 by (intro mult_strict_right_mono) auto
  also have "\<dots> = 10 ^ 9" using n(1) by (simp flip: power_add)
  finally have "ml < 10 ^ 9" unfolding res tp .
  moreover have "0 \<le> ml" using l3 by (simp add: res tp)
  moreover have "c \<le> c' \<and> c' \<le> length s"
    using scan_zeros_props [OF e4] p1 p3 w2 by (auto simp: res c2_def split: if_splits)
  ultimately show ?thesis by blast
next
  case False
  with L c show ?thesis by (auto simp: s2n_lo_def)
qed

lemma s2n_mantissa_props:
  "\<exists>n. n \<le> 9 \<and> s_k (s2n_mantissa s) = 9 - int n \<and> s_m1 (s2n_mantissa s) < 10 ^ n
    \<and> (if n = 0 then s_m1 (s2n_mantissa s) = 0 else 10 ^ (n - 1) \<le> s_m1 (s2n_mantissa s))
    \<and> 0 \<le> s_i (s2n_mantissa s) \<and> s_i (s2n_mantissa s) \<le> int n
    \<and> 10 ^ nat (s_i (s2n_mantissa s)) dvd s_m1 (s2n_mantissa s)
    \<and> 0 \<le> s_m0 (s2n_mantissa s) \<and> s_m0 (s2n_mantissa s) < 10 ^ 9"
proof -
  obtain c sign zero dot y where e1: "s2n_lead s = (c, sign, zero, dot, y)" by (metis prod_cases5)
  obtain c2 z i mh dot2 y2 k where e2: "s2n_hi s c dot y = (c2, z, i, mh, dot2, y2, k)"
    by (metis prod_cases7)
  obtain c3 z3 ml dot3 y3 where e3: "s2n_lo s c2 z dot2 y2 = (c3, z3, ml, dot3, y3)"
    by (metis prod_cases5)
  note p1 = s2n_lead_props [OF e1]
  note p2 = s2n_hi_props [OF e2 p1(1-3)]
  then have "c2 \<le> length s" by blast
  note p3 = s2n_lo_props [OF e3 this]
  have "s_k (s2n_mantissa s) = k" "s_m1 (s2n_mantissa s) = mh" "s_i (s2n_mantissa s) = i"
    "s_m0 (s2n_mantissa s) = ml"
    by (simp_all add: s2n_mantissa_def e1 e2 e3 Let_def split_beta)
  with p2 p3 show ?thesis by metis
qed


lemma sdiv_pow_bound:
  assumes "0 \<le> m" "m < (B::int)" "0 < t"
  shows "- B < m sdiv t" "m sdiv t < B" "- B < m sdiv (- t)" "m sdiv (- t) < B"
proof -
  have "0 \<le> m div t" "m div t \<le> m"
    using assms zdiv_mono2 [of m 1 t] by (auto simp: pos_imp_zdiv_nonneg_iff)
  moreover have "m sdiv t = m div t" using assms by (simp add: sdiv_nonneg)
  ultimately show "- B < m sdiv t" "m sdiv t < B" "- B < m sdiv (- t)" "m sdiv (- t) < B"
    using assms by (auto simp: sdiv_neg_right)
qed

text \<open>
  What the mantissa scan guarantees, with \<open>n\<close> the number of digits that went into \<open>m[1]\<close>.
\<close>

definition mantissa_ok :: "s2n_st \<Rightarrow> nat \<Rightarrow> bool" where
  "mantissa_ok st n \<longleftrightarrow> n \<le> 9 \<and> s_k st = 9 - int n \<and> s_m1 st < 10 ^ n
    \<and> (if n = 0 then s_m1 st = 0 else 10 ^ (n - 1) \<le> s_m1 st)
    \<and> 0 \<le> s_i st \<and> s_i st \<le> int n \<and> 10 ^ nat (s_i st) dvd s_m1 st
    \<and> 0 \<le> s_m0 st \<and> s_m0 st < 10 ^ 9"

lemma mantissa_okD:
  assumes "mantissa_ok st n"
  shows "0 \<le> s_m1 st" "s_m1 st < 10 ^ 9" "ten_pwr (s_k st) = 10 ^ (9 - n)"
    and "s_m1 st \<noteq> 0 \<Longrightarrow> 10 ^ 8 \<le> s_m1 st * 10 ^ (9 - n) \<and> s_m1 st * 10 ^ (9 - n) < 10 ^ 9"
proof -
  note n = assms [unfolded mantissa_ok_def]
  show "0 \<le> s_m1 st" using n by (auto split: if_splits intro: order_trans [of 0 "10 ^ (n - 1)"])
  show "s_m1 st < 10 ^ 9" using n pow10_mono [of n 9] by simp
  show "ten_pwr (s_k st) = 10 ^ (9 - n)"
    using n ten_pwr_eq [of "9 - int n"] by (simp add: nat_diff_distrib)
  assume "s_m1 st \<noteq> 0"
  then have n0: "n \<noteq> 0" "10 ^ (n - 1) \<le> s_m1 st" using n by (auto split: if_splits)
  have "(10::int) ^ (n - 1) * 10 ^ (9 - n) = 10 ^ 8" using n0 n by (simp flip: power_add)
  moreover have "10 ^ (n - 1) * 10 ^ (9 - n) \<le> s_m1 st * 10 ^ (9 - n)"
    using n0 by (intro mult_right_mono) auto
  moreover have "s_m1 st * 10 ^ (9 - n) < 10 ^ n * 10 ^ (9 - n)"
    using n by (intro mult_strict_right_mono) auto
  moreover have "(10::int) ^ n * 10 ^ (9 - n) = 10 ^ 9" using n by (simp flip: power_add)
  ultimately show "10 ^ 8 \<le> s_m1 st * 10 ^ (9 - n) \<and> s_m1 st * 10 ^ (9 - n) < 10 ^ 9" by linarith
qed

text \<open>The integer branch of \<open>s2n\<close>: shifting the digits to thousandths stays below \<open>10^9\<close>.\<close>

lemma s2n_int_branch:
  assumes ok: "mantissa_ok st n" and j: "j = x + s_k st - 6" "x \<le> 6" "0 \<le> s_i st + j"
  shows "0 > j \<Longrightarrow> 0 < ten_pwr (- j)" and "0 \<le> j \<Longrightarrow> 0 \<le> s_m1 st * ten_pwr j \<and> s_m1 st * ten_pwr j < 10 ^ 9"
proof -
  note n = ok [unfolded mantissa_ok_def]
  show "0 < ten_pwr (- j)" if "0 > j" using that j n ten_pwr_eq [of "- j"] by simp
  assume "0 \<le> j"
  have tp: "ten_pwr j = 10 ^ nat j" using \<open>0 \<le> j\<close> j n ten_pwr_eq [of j] by simp
  have "s_m1 st * 10 ^ nat j < 10 ^ n * 10 ^ nat j"
    using n by (intro mult_strict_right_mono) auto
  also have "\<dots> = 10 ^ nat (int n + j)" using \<open>0 \<le> j\<close> by (simp add: nat_add_distrib power_add)
  also have "\<dots> \<le> 10 ^ 9" using j n by (intro pow10_mono) simp
  finally show "0 \<le> s_m1 st * ten_pwr j \<and> s_m1 st * ten_pwr j < 10 ^ 9"
    using mantissa_okD(1) [OF ok] by (simp add: tp)
qed

lemma s2n_number_wf:
  assumes ok: "mantissa_ok st n" and u: "m0 u = s_m0 st" "m1 u = s_m1 st" "\<not> is_int (mvtype u)"
    and r: "s2n_number False u st x0 len = Inr v"
  shows "wf_num v"
proof -
  define x where "x = x0 + (if s_dot st then s_y st else s_z st)"
  define j where "j = x + s_k st - 6"
  note okD = mantissa_okD [OF ok]
  consider (int) "m0 u = 0" "x \<le> 6" "0 \<le> s_i st + j"
    | (flt) "\<not> (m0 u = 0 \<and> x \<le> 6 \<and> 0 \<le> s_i st + j)" by blast
  then show ?thesis
  proof cases
    case int
    note ib = s2n_int_branch [OF ok j_def int(2,3)]
    have "wf_int v"
    proof (cases "0 > j")
      case True
      with r int u sdiv_pow_bound [OF okD(1,2) ib(1) [OF True]] show ?thesis
        unfolding s2n_number_def Let_def x_def [symmetric] j_def [symmetric]
        by (auto simp: wf_int_def mv_simps mv_defs)
    next
      case False
      with r int u ib(2) show ?thesis
        unfolding s2n_number_def Let_def x_def [symmetric] j_def [symmetric]
        by (auto simp: wf_int_def mv_simps mv_defs)
    qed
    then show ?thesis by (simp add: wf_num_def)
  next
    case flt
    define h where "h = s_m1 st * 10 ^ (9 - n)"
    have h: "h = 0 \<or> 10 ^ 8 \<le> h \<and> h < 10 ^ 9" using okD(4) by (auto simp: h_def)
    have l: "0 \<le> s_m0 st" "s_m0 st < 10 ^ 9" using ok by (auto simp: mantissa_ok_def)
    have eq: "s2n_number False u st x0 len =
       (if EXPLO > x + MV_XBIAS \<or> h = 0
        then Inr (u\<lparr>m1 := h, mvtype := mv_or (mvtype u) (mv_or (mv_or MV_NM MV_INT) MV_NUM_APPROX), m1 := 0\<rparr>)
        else if EXPHI \<le> x + MV_XBIAS then Inl ERR_NUMOFLOW
        else Inr (u\<lparr>m1 := h, e_of := x + MV_XBIAS, sgn_of := (if odd (s_sign st) then 1 else 0),
               mvtype := mv_or (mvtype u) (if s_tail st \<or> 1 < s_sign st \<or> (s_zero st \<noteq> 0 \<and> 1 \<noteq> len)
                 then mv_or MV_NM MV_NUM_APPROX else MV_NM)\<rparr>))"
      unfolding s2n_number_def Let_def x_def [symmetric] j_def [symmetric] if_not_P [OF flt]
      by (simp add: u okD(3) h_def)
    show ?thesis
    proof (cases "EXPLO > x + MV_XBIAS \<or> h = 0")
      case True
      with r show ?thesis unfolding eq by (auto simp: wf_num_def wf_int_def mv_defs)
    next
      case False
      with r h l u show ?thesis unfolding eq
        by (auto simp: wf_num_def wf_flt_def mv_defs split: if_splits)
    qed
  qed
qed

lemma s2n_wf:
  assumes r: "s2n False u = Inr r" and u: "\<not> is_int (mvtype u)"
  shows "wf_num (r_mval r)"
proof (cases "str_of u = []")
  case True
  with r show ?thesis
    by (auto simp: s2n_def literal_null_def wf_num_def wf_int_def mv_simps mv_defs)
next
  case False
  define st where "st = s2n_mantissa (str_of u)"
  obtain n where n: "mantissa_ok st n"
    using s2n_mantissa_props [of "str_of u"] unfolding st_def mantissa_ok_def by blast
  define digit where "digit = (s_z st \<noteq> 0 \<or> s_y st \<noteq> 0 \<or> s_zero st \<noteq> 0)"
  obtain exp x c where e: "s2n_exponent (str_of u) (pos st) digit = (exp, x, c)" by (metis prod_cases3)
  have zero: "wf_num (u\<lparr>m0 := s_m0 st, mvtype := mv_or (mvtype u) (mv_or (mv_or MV_NM MV_INT) MV_NUM_APPROX), m1 := 0\<rparr>)"
    by (simp add: wf_num_def wf_int_def mv_simps mv_defs)
  show ?thesis
    using r False u s2n_number_wf [OF n, of "u\<lparr>m0 := s_m0 st, m1 := s_m1 st\<rparr>"] zero
    unfolding s2n_def Let_def st_def [symmetric] digit_def [symmetric]
    by (auto simp: e split: if_splits sum.splits)
qed


section \<open>Properties\<close>

definition ex_string :: "bytes \<Rightarrow> mval" where
  "ex_string s = \<lparr>mvtype = MV_STR, sgn_of = 0, e_of = 0, m0 = 0, m1 = 0, str_of = s\<rparr>"

text \<open>
  C28. At run time \<open>s2n\<close> turns every string into a number within the documented ranges of the
  representation, or raises NUMOFLOW; in particular every index into \<open>ten_pwr\<close> is inside the table
  and no mantissa leaves its nine digits.
\<close>

theorem s2n_in_range:
  assumes "\<not> is_int (mvtype u)"
  shows "s2n False u = Inl ERR_NUMOFLOW \<or> (\<exists>r. s2n False u = Inr r \<and> wf_num (r_mval r))"
proof (cases "s2n False u")
  case (Inr r) then show ?thesis using s2n_wf [OF Inr assms] by blast
next
  case (Inl err)
  then have "err = ERR_NUMOFLOW"
    by (auto simp: s2n_def s2n_number_def Let_def split: if_splits sum.splits prod.splits)
  with Inl show ?thesis by simp
qed

theorem s2n_in_range_witness:
  "s2n False (ex_string [45, 49, 46, 53]) = Inl ERR_NUMOFLOW \<or>
   (\<exists>r. s2n False (ex_string [45, 49, 46, 53]) = Inr r \<and> wf_num (r_mval r))"
  by (rule s2n_in_range) (simp add: ex_string_def)

end
