(* ===== verification/Numcmp.thy ===== *)
theory Numcmp
  imports S2n
begin

text \<open>
  The numeric comparison \<open>numcmp\<close> (\<open>numcmp.c\<close>) and the proof that it orders mvals by the
  numbers they denote, whichever of the two representations each has.
\<close>

section \<open>numcmp\<close>

text \<open>The comparison of two floats: signs, then exponents, then the two halves of the mantissa.\<close>

definition numcmp_flt :: "mval \<Rightarrow> mval \<Rightarrow> int" where
  "numcmp_flt u v =
    (let u_sgn = (if sgn_of u = 0 then 1 else - 1);
         v_sgn = (if sgn_of v = 0 then 1 else - 1)
     in if u_sgn \<noteq> v_sgn then u_sgn
        else
          let exp_diff = e_of u - e_of v in
          if exp_diff \<noteq> 0 then (if 0 > exp_diff then - u_sgn else u_sgn)
          else
            let m1_diff = m1 u - m1 v in
            if m1_diff \<noteq> 0 then (if 0 > m1_diff then - u_sgn else u_sgn)
            else if m1 u = 0 then 0
            else
              let m0_diff = m0 u - m0 v in
              if m0_diff \<noteq> 0 then (if 0 > m0_diff then - u_sgn else u_sgn)
              else 0)"

definition numcmp_num :: "mval \<Rightarrow> mval \<Rightarrow> int" where
  "numcmp_num u v =
    (if is_int (mvtype u) \<and> is_int (mvtype v) then
       (if m1 u > m1 v then 1 else if m1 u = m1 v then 0 else - 1)
     else if is_int (mvtype u) then numcmp_flt (promote u) v
     else if is_int (mvtype v) then numcmp_flt u (promote v)
     else numcmp_flt u v)"

definition numcmp :: "bool \<Rightarrow> mval \<Rightarrow> mval \<Rightarrow> int result" where
  "numcmp undef_inhibit u v =
    (case MV_FORCE_NUM undef_inhibit u of
       Inl err \<Rightarrow> Inl err
     | Inr u \<Rightarrow> (case MV_FORCE_NUM undef_inhibit v of
                  Inl err \<Rightarrow> Inl err
                | Inr v \<Rightarrow> Inr (numcmp_num u v)))"

section \<open>Floats\<close>

text \<open>
  A float or the zero that \<open>promote\<close> makes: all that \<open>numcmp_flt\<close> ever sees.
\<close>

definition wf_cmp :: "mval \<Rightarrow> bool" where
  "wf_cmp v \<longleftrightarrow> wf_flt v \<or> (sgn_of v = 0 \<and> e_of v = 0 \<and> m1 v = 0 \<and> m0 v = 0)"

definition flt_mag :: "mval \<Rightarrow> int" where
  "flt_mag v = mant v * 10 ^ nat (e_of v)"

definition flt_val :: "mval \<Rightarrow> int" where
  "flt_val v = (if sgn_of v = 0 then 1 else - 1) * flt_mag v"

lemma wf_flt_bounds:
  assumes "wf_flt v"
  shows "0 < m1 v" "0 \<le> m0 v" "m0 v < MANT_HI" "10 ^ 17 \<le> mant v" "mant v < 10 * 10 ^ 17" "20 \<le> e_of v"
  using assms by (auto simp: wf_flt_def mant_def mv_defs)

lemma flt_mag_pos: "wf_flt v \<Longrightarrow> 0 < flt_mag v"
  using wf_flt_bounds(4) [of v] by (simp add: flt_mag_def)

lemma flt_mag_less_exp:
  assumes "wf_cmp u" "wf_flt v" "e_of u < e_of v"
  shows "flt_mag u < flt_mag v"
proof (cases "wf_flt u")
  case True
  with assms wf_flt_bounds [of u] wf_flt_bounds [of v] show ?thesis
    unfolding flt_mag_def by (intro mant_exp_less [of _ "10 ^ 17"]) auto
next
  case False
  with assms flt_mag_pos [OF assms(2)] show ?thesis by (simp add: wf_cmp_def flt_mag_def mant_def)
qed

lemma wf_cmp_e_pos: "wf_cmp v \<Longrightarrow> 0 < e_of v \<Longrightarrow> wf_flt v"
  by (auto simp: wf_cmp_def)

lemma wf_cmp_e0: "wf_cmp v \<Longrightarrow> 0 \<le> e_of v"
  by (auto simp: wf_cmp_def wf_flt_def mv_defs)

lemma wf_cmp_m1: "wf_cmp v \<Longrightarrow> 0 \<le> m1 v \<and> 0 \<le> m0 v \<and> m0 v < MANT_HI"
  by (auto simp: wf_cmp_def wf_flt_def mv_defs)

lemma wf_cmp_mag_nonneg: "wf_cmp v \<Longrightarrow> 0 \<le> flt_mag v"
  using wf_cmp_m1 [of v] by (simp add: flt_mag_def mant_def mv_defs)

lemma wf_cmp_neg: "wf_cmp v \<Longrightarrow> sgn_of v \<noteq> 0 \<Longrightarrow> flt_val v < 0"
  using flt_mag_pos [of v] by (auto simp: wf_cmp_def flt_val_def)

lemma mag_cmp:
  assumes "wf_cmp u" "wf_cmp v"
  shows "sgn (flt_mag u - flt_mag v) =
    (if e_of u \<noteq> e_of v then (if e_of u < e_of v then - 1 else 1)
     else if m1 u \<noteq> m1 v then (if m1 u < m1 v then - 1 else 1)
     else if m0 u < m0 v then - 1 else if m0 v < m0 u then 1 else 0)"
proof (cases "e_of u" "e_of v" rule: linorder_cases)
  case less
  then have "wf_flt v" using wf_cmp_e0 [OF assms(1)] wf_cmp_e_pos [OF assms(2)] by simp
  from flt_mag_less_exp [OF assms(1) this less] less show ?thesis by (simp add: sgn_diff_eq)
next
  case greater
  then have "wf_flt u" using wf_cmp_e0 [OF assms(2)] wf_cmp_e_pos [OF assms(1)] by simp
  from flt_mag_less_exp [OF assms(2) this greater] greater show ?thesis by (simp add: sgn_diff_eq)
next
  case equal
  have p: "(0::int) < 10 ^ nat (e_of v)" by simp
  have *: "sgn (flt_mag u - flt_mag v) = sgn (mant u - mant v)"
    using equal p by (simp add: flt_mag_def left_diff_distrib [symmetric] sgn_mult)
  show ?thesis
    unfolding * using equal wf_cmp_m1 [OF assms(1)] wf_cmp_m1 [OF assms(2)]
      two_limbs_less [of "m1 u" "m1 v" "m0 u" MANT_HI "m0 v"]
      two_limbs_less [of "m1 v" "m1 u" "m0 v" MANT_HI "m0 u"]
    by (cases "m1 u" "m1 v" rule: linorder_cases) (auto simp: mant_def sgn_if mv_defs)
qed

lemma numcmp_flt_correct:
  assumes u: "wf_cmp u" and v: "wf_cmp v"
  shows "numcmp_flt u v = sgn (flt_val u - flt_val v)"
proof (cases "(sgn_of u = 0) = (sgn_of v = 0)")
  case False
  then show ?thesis
    using wf_cmp_neg [OF u] wf_cmp_neg [OF v] wf_cmp_mag_nonneg [OF u] wf_cmp_mag_nonneg [OF v]
    by (cases "sgn_of u = 0") (auto simp: numcmp_flt_def flt_val_def sgn_if)
next
  case True
  have z: "m1 u = 0 \<Longrightarrow> m1 v = m1 u \<Longrightarrow> m0 u = m0 v"
    using u v wf_flt_bounds(1) [of u] wf_flt_bounds(1) [of v] by (auto simp: wf_cmp_def)
  have "numcmp_flt u v = (if sgn_of u = 0 then 1 else - 1) * sgn (flt_mag u - flt_mag v)"
    unfolding mag_cmp [OF u v] using True z by (simp add: numcmp_flt_def Let_def)
  also have "\<dots> = sgn (flt_val u - flt_val v)"
    using True by (auto simp: flt_val_def sgn_if)
  finally show ?thesis .
qed

section \<open>All numbers\<close>

lemma numval_flt: "wf_flt v \<Longrightarrow> numval v = flt_val v"
  by (simp add: numval_def flt_val_def flt_mag_def wf_flt_def)

lemma promote_cmp: "wf_int v \<Longrightarrow> wf_cmp (promote v) \<and> flt_val (promote v) = numval v"
  using promote_props [of v] numval_flt [of "promote v"]
  by (cases "m1 v = 0")
     (auto simp: wf_cmp_def literal_zero_def flt_val_def flt_mag_def mant_def numval_def wf_int_def)

lemma wf_num_cases: "wf_num v \<Longrightarrow> (is_int (mvtype v) \<and> wf_int v) \<or> (\<not> is_int (mvtype v) \<and> wf_flt v)"
  by (auto simp: wf_num_def wf_int_def wf_flt_def)

lemma numcmp_num_correct:
  assumes "wf_num u" "wf_num v"
  shows "numcmp_num u v = sgn (numval u - numval v)"
proof (cases "is_int (mvtype u) \<and> is_int (mvtype v)")
  case True
  have "numval u - numval v = (m1 u - m1 v) * 10 ^ 77"
    using True by (simp add: numval_def left_diff_distrib)
  then have "sgn (numval u - numval v) = sgn (m1 u - m1 v) * sgn (10 ^ 77)"
    by (simp only: sgn_mult)
  then show ?thesis using True by (simp add: numcmp_num_def sgn_if)
next
  case False
  with assms [THEN wf_num_cases] promote_cmp [of u] promote_cmp [of v] show ?thesis
    by (auto simp: numcmp_num_def numcmp_flt_correct numval_flt wf_cmp_def)
qed

lemma MV_FORCE_NUM_wf:
  assumes "MV_FORCE_NUM ui v = Inr v'" "is_nm (mvtype v) \<Longrightarrow> wf_num v" "\<not> is_nm (mvtype v) \<Longrightarrow> \<not> is_int (mvtype v)"
  shows "wf_num v'"
proof -
  have "wf_num literal_null"
    by (simp add: wf_num_def wf_int_def literal_null_def mv_defs)
  moreover have "is_nm (mvtype literal_null)" by (simp add: literal_null_def)
  ultimately show ?thesis
    using assms by (auto simp: MV_FORCE_NUM_def underr_def MV_DEFINED_def split: if_splits sum.splits dest: s2n_wf)
qed

lemma MV_FORCE_NUM_num [simp]: "is_nm (mvtype v) \<Longrightarrow> MV_FORCE_NUM ui v = Inr v"
  by (simp add: MV_FORCE_NUM_def MV_DEFINED_def)


section \<open>Properties\<close>

definition ex_float :: mval where
  "ex_float = \<lparr>mvtype = MV_NM, sgn_of = 1, e_of = 70, m0 = 5, m1 = 123456789, str_of = []\<rparr>"

text \<open>
  C27. \<open>numcmp\<close> orders numbers by value: for operands that are numbers already, in whichever of the
  two representations, the result is the sign of the difference of the numbers they denote.
\<close>

theorem numcmp_orders:
  assumes "wf_num u" "wf_num v"
  shows "numcmp undef_inhibit u v = Inr (sgn (numval u - numval v))"
proof -
  have "is_nm (mvtype u)" "is_nm (mvtype v)" using assms by (auto simp: wf_num_def wf_int_def wf_flt_def)
  then show ?thesis using numcmp_num_correct [OF assms] by (simp add: numcmp_def)
qed

theorem numcmp_orders_witness:
  "numcmp False (ex_num 1500) ex_float = Inr (sgn (numval (ex_num 1500) - numval ex_float))"
  by (rule numcmp_orders) (simp_all add: wf_num_def wf_int_def wf_flt_def ex_num_def ex_float_def mv_defs)

text \<open>
  \<open>numcmp\<close> on arbitrary operands: an undefined operand is the UNDEF error (or the empty string
  under \<open>undef_inhibit\<close>), a string too large for a number is NUMOFLOW, and in every other case the
  result is the order of the converted values.
\<close>

theorem numcmp_total:
  assumes "is_nm (mvtype u) \<longrightarrow> wf_num u" "\<not> is_nm (mvtype u) \<longrightarrow> \<not> is_int (mvtype u)"
    and "is_nm (mvtype v) \<longrightarrow> wf_num v" "\<not> is_nm (mvtype v) \<longrightarrow> \<not> is_int (mvtype v)"
  shows "(case (MV_FORCE_NUM undef_inhibit u, MV_FORCE_NUM undef_inhibit v) of
      (Inl err, _) \<Rightarrow> numcmp undef_inhibit u v = Inl err
    | (Inr _, Inl err) \<Rightarrow> numcmp undef_inhibit u v = Inl err
    | (Inr u', Inr v') \<Rightarrow> numcmp undef_inhibit u v = Inr (sgn (numval u' - numval v')))"
proof -
  have "wf_num w'" if "MV_FORCE_NUM undef_inhibit u = Inr w'" for w' by (rule MV_FORCE_NUM_wf [OF that]) (use assms in auto)
  moreover have "wf_num w'" if "MV_FORCE_NUM undef_inhibit v = Inr w'" for w' by (rule MV_FORCE_NUM_wf [OF that]) (use assms in auto)
  ultimately show ?thesis by (auto simp: numcmp_def numcmp_num_correct split: sum.splits)
qed

theorem numcmp_total_witness:
  "(case (MV_FORCE_NUM False (ex_string [49]), MV_FORCE_NUM False (ex_num 2000)) of
      (Inl err, _) \<Rightarrow> numcmp False (ex_string [49]) (ex_num 2000) = Inl err
    | (Inr _, Inl err) \<Rightarrow> numcmp False (ex_string [49]) (ex_num 2000) = Inl err
    | (Inr u', Inr v') \<Rightarrow> numcmp False (ex_string [49]) (ex_num 2000) = Inr (sgn (numval u' - numval v')))"
  by (rule numcmp_total) (simp_all add: ex_string_def ex_num_def wf_num_def wf_int_def mv_defs)

end
