(* ===== verification/LvTree.thy ===== *)
theory LvTree
  imports Numcmp
begin

text \<open>
  The AVL tree of local-variable subscripts, \<open>lv_tree.c\<close> / \<open>lv_tree.h\<close>: nodes live in an explicit
  store (address to node), links are optional addresses (\<open>None\<close> is NULL), and every function takes
  the store and the \<open>lvTree\<close> it works on and returns them updated.  Following a NULL or dangling
  link is \<open>None\<close>; so is a traversal that never ends.  This theory holds the definitions; the
  theories \<open>LvKey\<close>, \<open>LvShape\<close> and \<open>LvAvl\<close> hold the proofs.
\<close>

section \<open>Nodes, trees, the store\<close>

type_synonym nptr = "nat option"

text \<open>
  \<open>lvTreeNode\<close> and \<open>lvTreeNodeNum\<close> share one layout; the fields of the numeric variant
  (\<open>key_sgn\<close> to \<open>key_m1\<close>) are meaningful when the key is canonical, \<open>key_str\<close> when it is a string.
\<close>

record lvTreeNode =
  nd_v :: mval
  sbs_child :: nptr
  tree_parent :: nat
  key_mvtype :: mvtype_bits
  balance :: int
  descent_dir :: int
  key_sgn :: int
  key_e :: int
  key_iconv :: bool
  key_m0 :: int4
  key_m1 :: int4
  key_str :: bytes
  avl_left :: nptr
  avl_right :: nptr
  avl_parent :: nptr

type_synonym lvheap = "nat \<Rightarrow> lvTreeNode option"

record lvTree =
  lvt_addr :: nat
  avl_height :: int
  avl_root :: nptr
  lastNodeLookedUp :: nptr
  lastNodeMin :: nptr
  lastNodeMax :: nptr

definition TREE_DESCEND_LEFT :: int where [mv_defs]: "TREE_DESCEND_LEFT = 0"
definition TREE_DESCEND_RIGHT :: int where [mv_defs]: "TREE_DESCEND_RIGHT = 1"
definition TREE_LEFT_HEAVY :: int where [mv_defs]: "TREE_LEFT_HEAVY = 0"
definition TREE_RIGHT_HEAVY :: int where [mv_defs]: "TREE_RIGHT_HEAVY = 1"
definition TREE_BALANCED :: int where [mv_defs]: "TREE_BALANCED = 2"

definition tree_balance_invert :: "int list" where
  "tree_balance_invert = [TREE_RIGHT_HEAVY, TREE_LEFT_HEAVY, TREE_BALANCED]"

definition TREE_INVERT_BALANCE_FACTOR :: "int \<Rightarrow> int" where
  "TREE_INVERT_BALANCE_FACTOR bal = tree_balance_invert ! nat bal"

definition rd :: "lvheap \<Rightarrow> nptr \<Rightarrow> lvTreeNode option" where
  "rd h p = (case p of None \<Rightarrow> None | Some a \<Rightarrow> h a)"

definition upd :: "lvheap \<Rightarrow> nptr \<Rightarrow> (lvTreeNode \<Rightarrow> lvTreeNode) \<Rightarrow> lvheap option" where
  "upd h p f = (case p of None \<Rightarrow> None
     | Some a \<Rightarrow> (case h a of None \<Rightarrow> None | Some n \<Rightarrow> Some (h(a \<mapsto> f n))))"

section \<open>Key comparison\<close>

definition lvAvlTreeNodeFltConv :: "lvTreeNode \<Rightarrow> lvTreeNode" where
  "lvAvlTreeNodeFltConv nd =
    (let int_m1 = key_m0 nd in
     if int_m1 \<noteq> 0 then
       let sg = (if 0 < int_m1 then 0 else 1);
           int_m1 = (if 0 < int_m1 then int_m1 else - int_m1);
           int_exp = scan_pwr int_m1 0
       in nd\<lparr>key_sgn := sg, key_m1 := int_m1 * ten_pwr (NUM_DEC_DG_1L - int_exp),
             key_e := int_exp + EXP_INT_UNDERF, key_iconv := True\<rparr>
     else nd\<lparr>key_e := 0, key_iconv := True\<rparr>)"

text \<open>The common tail of the two numeric macros: signs, exponents, high digits, low digits.\<close>

definition lv_num_cmp :: "mval \<Rightarrow> lvTreeNode \<Rightarrow> bool \<Rightarrow> int" where
  "lv_num_cmp a b b_int =
    (let a_sgn = (if sgn_of a = 0 then 1 else - 1);
         b_sgn = (if key_sgn b = 0 then 1 else - 1)
     in if a_sgn \<noteq> b_sgn then a_sgn
        else
          let exp_diff = e_of a - key_e b in
          if exp_diff \<noteq> 0 then exp_diff * a_sgn
          else
            let m1_diff = m1 a - key_m1 b in
            if m1_diff \<noteq> 0 then m1_diff * a_sgn
            else if m1 a = 0 then 0
            else
              let b_m0 = (if b_int then 0 else key_m0 b);
                  m0_diff = m0 a - b_m0
              in if m0_diff \<noteq> 0 then m0_diff * a_sgn else 0)"

text \<open>
  \<open>LV_AVL_TREE_INTKEY_CMP\<close>: \<open>promote\<close> runs on a local copy of which only \<open>m[1]\<close> is set, so any
  mval with that \<open>m[1]\<close> stands for it.  The node is never changed.
\<close>

definition LV_AVL_TREE_INTKEY_CMP :: "mval \<Rightarrow> lvTreeNode \<Rightarrow> int \<times> lvTreeNode" where
  "LV_AVL_TREE_INTKEY_CMP a b =
    (if is_int (key_mvtype b) then (m1 a - key_m0 b, b)
     else if is_canon (key_mvtype b) then (lv_num_cmp (promote a) b False, b)
     else (- 1, b))"

text \<open>\<open>LV_AVL_TREE_NUMKEY_CMP\<close> converts an integer node to float form once and keeps the result.\<close>

definition LV_AVL_TREE_NUMKEY_CMP :: "mval \<Rightarrow> lvTreeNode \<Rightarrow> int \<times> lvTreeNode" where
  "LV_AVL_TREE_NUMKEY_CMP a b =
    (if is_canon (key_mvtype b) then
       let b_int = is_int (key_mvtype b);
           b' = (if b_int \<and> \<not> key_iconv b then lvAvlTreeNodeFltConv b else b)
       in (lv_num_cmp a b' b_int, b')
     else (- 1, b))"

text \<open>\<open>memcmp\<close> of equal-length prefixes (bytes compare unsigned), and \<open>MEMVCMP\<close> over it.\<close>

fun memcmp :: "bytes \<Rightarrow> bytes \<Rightarrow> nat \<Rightarrow> int" where
  "memcmp (x # xs) (y # ys) (Suc n) = (if x = y then memcmp xs ys n else uint x - uint y)"
| "memcmp _ _ _ = 0"

definition MEMVCMP :: "bytes \<Rightarrow> bytes \<Rightarrow> int" where
  "MEMVCMP s1 s2 =
    (let (minLen, retVal) =
           (if length s1 < length s2 then (length s1, - 1)
            else if length s1 > length s2 then (length s2, 1)
            else (length s1, 0));
         retVal2 = memcmp s1 s2 minLen
     in if retVal2 = 0 then retVal else retVal2)"

definition LV_AVL_TREE_STRKEY_CMP :: "mval \<Rightarrow> lvTreeNode \<Rightarrow> int \<times> lvTreeNode" where
  "LV_AVL_TREE_STRKEY_CMP a b =
    (if is_canon (key_mvtype b) then (1, b) else (MEMVCMP (str_of a) (key_str b), b))"

definition lvAvlTreeKeySubscrCmp :: "mval \<Rightarrow> lvTreeNode \<Rightarrow> int \<times> lvTreeNode" where
  "lvAvlTreeKeySubscrCmp a b =
    (if is_canon (mvtype a)
     then if is_int (mvtype a) then LV_AVL_TREE_INTKEY_CMP a b else LV_AVL_TREE_NUMKEY_CMP a b
     else LV_AVL_TREE_STRKEY_CMP a b)"

section \<open>Traversal\<close>

text \<open>\<open>do \{ x = next; next = next->avl_left; \} while (NULL != next)\<close> and its mirror image.\<close>

partial_function (option) go_left :: "lvheap \<Rightarrow> nptr \<Rightarrow> nptr option" where
  "go_left h p = do {
     n \<leftarrow> rd h p;
     if avl_left n = None then Some p else go_left h (avl_left n)
   }"

partial_function (option) go_right :: "lvheap \<Rightarrow> nptr \<Rightarrow> nptr option" where
  "go_right h p = do {
     n \<leftarrow> rd h p;
     if avl_right n = None then Some p else go_right h (avl_right n)
   }"

definition lvAvlTreeFirst :: "lvheap \<Rightarrow> lvTree \<Rightarrow> nptr option" where
  "lvAvlTreeFirst h lvt = (if avl_root lvt = None then Some None else go_left h (avl_root lvt))"

definition lvAvlTreeLast :: "lvheap \<Rightarrow> lvTree \<Rightarrow> nptr option" where
  "lvAvlTreeLast h lvt = (if avl_root lvt = None then Some None else go_right h (avl_root lvt))"

text \<open>
  The climb of \<open>lvAvlTreePrev\<close>: up the parent links until a node is reached from its right
  (\<open>lvAvlTreeNext\<close>: from its left).
\<close>

partial_function (option) climb_prev :: "lvheap \<Rightarrow> nptr \<Rightarrow> nptr \<Rightarrow> nptr option" where
  "climb_prev h tmp parent =
    (if parent = None then Some None
     else do {
       n \<leftarrow> rd h parent;
       if avl_right n = tmp then Some parent else climb_prev h parent (avl_parent n)
     })"

partial_function (option) climb_next :: "lvheap \<Rightarrow> nptr \<Rightarrow> nptr \<Rightarrow> nptr option" where
  "climb_next h tmp parent =
    (if parent = None then Some None
     else do {
       n \<leftarrow> rd h parent;
       if avl_left n = tmp then Some parent else climb_next h parent (avl_parent n)
     })"

definition lvAvlTreePrev :: "lvheap \<Rightarrow> nptr \<Rightarrow> nptr option" where
  "lvAvlTreePrev h node = do {
     n \<leftarrow> rd h node;
     if avl_left n \<noteq> None then go_right h (avl_left n)
     else climb_prev h node (avl_parent n)
   }"

definition lvAvlTreeNext :: "lvheap \<Rightarrow> nptr \<Rightarrow> nptr option" where
  "lvAvlTreeNext h node = do {
     n \<leftarrow> rd h node;
     if avl_right n \<noteq> None then go_left h (avl_right n)
     else climb_next h node (avl_parent n)
   }"

text \<open>The descent of the post-order walk: left child if any, else right child, else stop.\<close>

partial_function (option) go_leaf :: "lvheap \<Rightarrow> nptr \<Rightarrow> nptr option" where
  "go_leaf h p = do {
     n \<leftarrow> rd h p;
     if avl_left n \<noteq> None then go_leaf h (avl_left n)
     else if avl_right n \<noteq> None then go_leaf h (avl_right n)
     else Some p
   }"

definition lvAvlTreeFirstPostOrder :: "lvheap \<Rightarrow> lvTree \<Rightarrow> nptr option" where
  "lvAvlTreeFirstPostOrder h lvt = (if avl_root lvt = None then Some None else go_leaf h (avl_root lvt))"

definition lvAvlTreeNextPostOrder :: "lvheap \<Rightarrow> nptr \<Rightarrow> nptr option" where
  "lvAvlTreeNextPostOrder h node = do {
     n \<leftarrow> rd h node;
     if avl_parent n = None then Some None
     else do {
       p \<leftarrow> rd h (avl_parent n);
       if node = avl_right p then Some (avl_parent n)
       else if avl_right p = None then Some (avl_parent n)
       else go_leaf h (avl_right p)
     }
   }"

section \<open>Lookup\<close>

definition cmp_at :: "(lvTreeNode \<Rightarrow> int \<times> lvTreeNode) \<Rightarrow> lvheap \<Rightarrow> nptr \<Rightarrow> (int \<times> lvheap) option" where
  "cmp_at cmp h p = do {
     n \<leftarrow> rd h p;
     h' \<leftarrow> upd h p (\<lambda>_. snd (cmp n));
     Some (fst (cmp n), h')
   }"

text \<open>
  The clue: \<open>Inl (node, parent, h)\<close> when the clue decides the lookup (with the value left in
  \<open>*lookupParent\<close>), \<open>Inr h\<close> when a fresh traversal is needed.
\<close>

definition lookup_clue ::
  "(lvTreeNode \<Rightarrow> int \<times> lvTreeNode) \<Rightarrow> lvheap \<Rightarrow> lvTree \<Rightarrow> nptr \<Rightarrow> (nptr \<times> nptr \<times> lvheap + lvheap) option" where
  "lookup_clue cmp h lvt lookupParent =
    (let tmpNode = lastNodeLookedUp lvt in
     if tmpNode = None then Some (Inr h)
     else do {
       (c, h) \<leftarrow> cmp_at cmp h tmpNode;
       t \<leftarrow> rd h tmpNode;
       if c = 0 then Some (Inl (tmpNode, lookupParent, h))
       else if 0 < c then
         if avl_right t = None then
           if lastNodeMax lvt \<noteq> None then do {
             (c, h) \<leftarrow> cmp_at cmp h (lastNodeMax lvt);
             if c = 0 then Some (Inl (lastNodeMax lvt, lookupParent, h))
             else if 0 > c then do {
               h \<leftarrow> upd h tmpNode (\<lambda>n. n\<lparr>descent_dir := TREE_DESCEND_RIGHT\<rparr>);
               Some (Inl (None, tmpNode, h))
             } else Some (Inr h)
           } else do {
             h \<leftarrow> upd h tmpNode (\<lambda>n. n\<lparr>descent_dir := TREE_DESCEND_RIGHT\<rparr>);
             Some (Inl (None, tmpNode, h))
           }
         else Some (Inr h)
       else if avl_left t = None then
         if lastNodeMin lvt \<noteq> None then do {
           (c, h) \<leftarrow> cmp_at cmp h (lastNodeMin lvt);
           if c = 0 then Some (Inl (lastNodeMin lvt, lookupParent, h))
           else if 0 < c then do {
             h \<leftarrow> upd h tmpNode (\<lambda>n. n\<lparr>descent_dir := TREE_DESCEND_LEFT\<rparr>);
             Some (Inl (None, tmpNode, h))
           } else Some (Inr h)
         } else do {
           h \<leftarrow> upd h tmpNode (\<lambda>n. n\<lparr>descent_dir := TREE_DESCEND_LEFT\<rparr>);
           Some (Inl (None, tmpNode, h))
         }
       else Some (Inr h)
     })"

text \<open>
  The traversal loop.  The result: the node found (or NULL), \<open>parent\<close>, the bounds
  \<open>lastNodeMin\<close>, \<open>lastNodeMax\<close>, the node stored in \<open>lastNodeLookedUp\<close>, and the store.
\<close>

partial_function (option) lookup_loop ::
  "(lvTreeNode \<Rightarrow> int \<times> lvTreeNode) \<Rightarrow> lvheap \<Rightarrow> nptr \<Rightarrow> nptr \<Rightarrow> nptr \<Rightarrow> nptr \<Rightarrow>
     (nptr \<times> nptr \<times> nptr \<times> nptr \<times> nptr \<times> lvheap) option" where
  "lookup_loop cmp h node parent mn mx = do {
     (c, h1) \<leftarrow> cmp_at cmp h node;
     if c = 0 then Some (node, parent, mn, mx, node, h1)
     else do {
       t \<leftarrow> rd h1 node;
       h2 \<leftarrow> upd h1 node (\<lambda>n. n\<lparr>descent_dir := (if c < 0 then TREE_DESCEND_LEFT else TREE_DESCEND_RIGHT)\<rparr>);
       (let nextNode = (if c < 0 then avl_left t else avl_right t) in
        if nextNode = None then Some (None, node, mn, mx, node, h2)
        else if c < 0 then lookup_loop cmp h2 nextNode node mn node
        else lookup_loop cmp h2 nextNode node node mx)
     }
   }"

text \<open>
  The body the three lookup functions share; they differ in the comparison macro only.
  The result: the node (or NULL), \<open>*lookupParent\<close>, the store, the tree with its clue.
\<close>

definition lookup_with ::
  "(lvTreeNode \<Rightarrow> int \<times> lvTreeNode) \<Rightarrow> lvheap \<Rightarrow> lvTree \<Rightarrow> nptr \<Rightarrow> (nptr \<times> nptr \<times> lvheap \<times> lvTree) option" where
  "lookup_with cmp h lvt lookupParent = do {
     r \<leftarrow> lookup_clue cmp h lvt lookupParent;
     (case r of
        Inl (node, parent, h) \<Rightarrow> Some (node, parent, h, lvt)
      | Inr h \<Rightarrow>
          if avl_root lvt = None then Some (None, None, h, lvt)
          else do {
            (node, parent, mn, mx, clue, h) \<leftarrow> lookup_loop cmp h (avl_root lvt) (avl_root lvt) None None;
            Some (node, parent, h, lvt\<lparr>lastNodeLookedUp := clue, lastNodeMin := mn, lastNodeMax := mx\<rparr>)
          })
   }"

definition lvAvlTreeLookupInt ::
  "lvheap \<Rightarrow> lvTree \<Rightarrow> mval \<Rightarrow> nptr \<Rightarrow> (nptr \<times> nptr \<times> lvheap \<times> lvTree) option" where
  "lvAvlTreeLookupInt h lvt key = lookup_with (LV_AVL_TREE_INTKEY_CMP key) h lvt"

definition lvAvlTreeLookupNum ::
  "lvheap \<Rightarrow> lvTree \<Rightarrow> mval \<Rightarrow> nptr \<Rightarrow> (nptr \<times> nptr \<times> lvheap \<times> lvTree) option" where
  "lvAvlTreeLookupNum h lvt key = lookup_with (LV_AVL_TREE_NUMKEY_CMP key) h lvt"

definition lvAvlTreeLookupStr ::
  "lvheap \<Rightarrow> lvTree \<Rightarrow> mval \<Rightarrow> nptr \<Rightarrow> (nptr \<times> nptr \<times> lvheap \<times> lvTree) option" where
  "lvAvlTreeLookupStr h lvt key = lookup_with (LV_AVL_TREE_STRKEY_CMP key) h lvt"

definition lvAvlTreeLookup ::
  "lvheap \<Rightarrow> lvTree \<Rightarrow> mval \<Rightarrow> nptr \<Rightarrow> (nptr \<times> nptr \<times> lvheap \<times> lvTree) option" where
  "lvAvlTreeLookup h lvt key lookupParent =
    (if is_canon (mvtype key)
     then if is_int (mvtype key) then lvAvlTreeLookupInt h lvt key lookupParent
          else lvAvlTreeLookupNum h lvt key lookupParent
     else lvAvlTreeLookupStr h lvt key lookupParent)"

section \<open>Neighbours of a key\<close>

definition lvAvlTreeKeyPrev :: "lvheap \<Rightarrow> lvTree \<Rightarrow> mval \<Rightarrow> (nptr \<times> lvheap \<times> lvTree) option" where
  "lvAvlTreeKeyPrev h lvt key = do {
     (node, parent, h, lvt) \<leftarrow> lvAvlTreeLookup h lvt key None;
     if node \<noteq> None then do { prev \<leftarrow> lvAvlTreePrev h node; Some (prev, h, lvt) }
     else do {
       p \<leftarrow> rd h parent;
       if descent_dir p = TREE_DESCEND_LEFT
       then do { prev \<leftarrow> lvAvlTreePrev h parent; Some (prev, h, lvt) }
       else Some (parent, h, lvt)
     }
   }"

definition lvAvlTreeKeyNext :: "lvheap \<Rightarrow> lvTree \<Rightarrow> mval \<Rightarrow> (nptr \<times> lvheap \<times> lvTree) option" where
  "lvAvlTreeKeyNext h lvt key = do {
     (node, parent, h, lvt) \<leftarrow> lvAvlTreeLookup h lvt key None;
     if node \<noteq> None then do { next \<leftarrow> lvAvlTreeNext h node; Some (next, h, lvt) }
     else do {
       p \<leftarrow> rd h parent;
       if descent_dir p = TREE_DESCEND_RIGHT
       then do { next \<leftarrow> lvAvlTreeNext h parent; Some (next, h, lvt) }
       else Some (parent, h, lvt)
     }
   }"

text \<open>
  Collation order under the standard null collation (\<open>local_collseq_stdnull\<close>): the null string
  comes before the numbers, although the tree stores it between the numbers and the strings.
\<close>

definition is_null_subs :: "lvTreeNode \<Rightarrow> bool" where
  "is_null_subs n \<longleftrightarrow> is_str (key_mvtype n) \<and> key_str n = []"

definition hop_null :: "lvheap \<Rightarrow> nptr \<Rightarrow> nptr option" where
  "hop_null h node =
    (if node = None then Some None
     else do { n \<leftarrow> rd h node; if is_null_subs n then lvAvlTreeNext h node else Some node })"

definition lvAvlTreeKeyCollatedNext ::
  "bool \<Rightarrow> lvheap \<Rightarrow> lvTree \<Rightarrow> mval \<Rightarrow> (nptr \<times> lvheap \<times> lvTree) option" where
  "lvAvlTreeKeyCollatedNext stdnull h lvt key =
    (if stdnull then do {
       (node, h, lvt) \<leftarrow>
         (if is_str (mvtype key) \<and> str_of key = []
          then do { node \<leftarrow> lvAvlTreeFirst h lvt; Some (node, h, lvt) }
          else lvAvlTreeKeyNext h lvt key);
       node \<leftarrow> hop_null h node;
       Some (node, h, lvt)
     } else lvAvlTreeKeyNext h lvt key)"

text \<open>\<open>lvt\<close> is \<open>LV_GET_PARENT_TREE(node)\<close>.\<close>

definition lvAvlTreeNodeCollatedNext :: "bool \<Rightarrow> lvheap \<Rightarrow> lvTree \<Rightarrow> nptr \<Rightarrow> nptr option" where
  "lvAvlTreeNodeCollatedNext stdnull h lvt node =
    (if stdnull then do {
       n \<leftarrow> rd h node;
       node \<leftarrow> (if is_null_subs n then lvAvlTreeFirst h lvt else lvAvlTreeNext h node);
       hop_null h node
     } else lvAvlTreeNext h node)"

section \<open>Rotations\<close>

definition upd_opt :: "lvheap \<Rightarrow> nptr \<Rightarrow> (lvTreeNode \<Rightarrow> lvTreeNode) \<Rightarrow> lvheap option" where
  "upd_opt h p f = (if p = None then Some h else upd h p f)"

definition lvAvlTreeSingleRotation :: "lvheap \<Rightarrow> nptr \<Rightarrow> nptr \<Rightarrow> int \<Rightarrow> (nptr \<times> lvheap) option" where
  "lvAvlTreeSingleRotation h rebalanceNode anchorNode balanceFactor = do {
     anchor \<leftarrow> rd h anchorNode;
     let node = (if TREE_LEFT_HEAVY = balanceFactor then avl_right anchor else avl_left anchor);
     h \<leftarrow> (if TREE_LEFT_HEAVY = balanceFactor then do {
             h \<leftarrow> upd h rebalanceNode (\<lambda>n. n\<lparr>avl_left := node\<rparr>);
             upd h anchorNode (\<lambda>n. n\<lparr>avl_right := rebalanceNode\<rparr>)
           } else do {
             h \<leftarrow> upd h rebalanceNode (\<lambda>n. n\<lparr>avl_right := node\<rparr>);
             upd h anchorNode (\<lambda>n. n\<lparr>avl_left := rebalanceNode\<rparr>)
           });
     h \<leftarrow> upd_opt h node (\<lambda>n. n\<lparr>avl_parent := rebalanceNode\<rparr>);
     h \<leftarrow> upd h rebalanceNode (\<lambda>n. n\<lparr>avl_parent := anchorNode\<rparr>);
     anchor \<leftarrow> rd h anchorNode;
     h \<leftarrow> (if balance anchor \<noteq> TREE_BALANCED then do {
             h \<leftarrow> upd h rebalanceNode (\<lambda>n. n\<lparr>balance := TREE_BALANCED\<rparr>);
             upd h anchorNode (\<lambda>n. n\<lparr>balance := TREE_BALANCED\<rparr>)
           } else upd h anchorNode (\<lambda>n. n\<lparr>balance := TREE_INVERT_BALANCE_FACTOR balanceFactor\<rparr>));
     Some (anchorNode, h)
   }"

definition lvAvlTreeDoubleRotation :: "lvheap \<Rightarrow> nptr \<Rightarrow> nptr \<Rightarrow> int \<Rightarrow> (nptr \<times> lvheap) option" where
  "lvAvlTreeDoubleRotation h rebalanceNode anchorNode balanceFactor = do {
     anchor \<leftarrow> rd h anchorNode;
     let newRoot = (if TREE_LEFT_HEAVY = balanceFactor then avl_right anchor else avl_left anchor);
     nr \<leftarrow> rd h newRoot;
     let rebalanceChild = (if TREE_LEFT_HEAVY = balanceFactor then avl_right nr else avl_left nr);
     let anchorChild = (if TREE_LEFT_HEAVY = balanceFactor then avl_left nr else avl_right nr);
     h \<leftarrow> (if TREE_LEFT_HEAVY = balanceFactor then do {
             h \<leftarrow> upd h rebalanceNode (\<lambda>n. n\<lparr>avl_left := rebalanceChild\<rparr>);
             h \<leftarrow> upd h anchorNode (\<lambda>n. n\<lparr>avl_right := anchorChild\<rparr>);
             h \<leftarrow> upd h newRoot (\<lambda>n. n\<lparr>avl_left := anchorNode\<rparr>);
             upd h newRoot (\<lambda>n. n\<lparr>avl_right := rebalanceNode\<rparr>)
           } else do {
             h \<leftarrow> upd h rebalanceNode (\<lambda>n. n\<lparr>avl_right := rebalanceChild\<rparr>);
             h \<leftarrow> upd h anchorNode (\<lambda>n. n\<lparr>avl_left := anchorChild\<rparr>);
             h \<leftarrow> upd h newRoot (\<lambda>n. n\<lparr>avl_left := rebalanceNode\<rparr>);
             upd h newRoot (\<lambda>n. n\<lparr>avl_right := anchorNode\<rparr>)
           });
     h \<leftarrow> upd_opt h rebalanceChild (\<lambda>n. n\<lparr>avl_parent := rebalanceNode\<rparr>);
     h \<leftarrow> upd_opt h anchorChild (\<lambda>n. n\<lparr>avl_parent := anchorNode\<rparr>);
     h \<leftarrow> upd h anchorNode (\<lambda>n. n\<lparr>avl_parent := newRoot\<rparr>);
     h \<leftarrow> upd h rebalanceNode (\<lambda>n. n\<lparr>avl_parent := newRoot\<rparr>);
     nr \<leftarrow> rd h newRoot;
     let bal = balance nr;
     let rb = (if bal = balanceFactor then TREE_INVERT_BALANCE_FACTOR balanceFactor else TREE_BALANCED);
     let an = (if bal = balanceFactor \<or> bal = TREE_BALANCED then TREE_BALANCED else balanceFactor);
     h \<leftarrow> upd h rebalanceNode (\<lambda>n. n\<lparr>balance := rb\<rparr>);
     h \<leftarrow> upd h anchorNode (\<lambda>n. n\<lparr>balance := an\<rparr>);
     h \<leftarrow> upd h newRoot (\<lambda>n. n\<lparr>balance := TREE_BALANCED\<rparr>);
     Some (newRoot, h)
   }"

section \<open>Insertion\<close>

text \<open>
  The initialised node: \<open>slot\<close> is what \<open>lvtreenode_getslot\<close> returned, whose old contents show
  through wherever the source does not assign (\<open>descent_dir\<close>, the unused key fields, the value).
\<close>

definition new_node :: "lvTreeNode \<Rightarrow> lvTree \<Rightarrow> mval \<Rightarrow> nptr \<Rightarrow> lvTreeNode" where
  "new_node slot lvt key parent =
    (let n = slot\<lparr>sbs_child := None, tree_parent := lvt_addr lvt, avl_left := None, avl_right := None,
                  avl_parent := parent, balance := TREE_BALANCED\<rparr>
     in if is_canon (mvtype key) then
          let n = n\<lparr>key_mvtype := mv_and (mvtype key) (mv_or (mv_or MV_NM MV_INT) MV_CANONICAL)\<rparr>
          in if is_int (mvtype key) then n\<lparr>key_m0 := m1 key, key_iconv := False\<rparr>
             else n\<lparr>key_sgn := sgn_of key, key_e := e_of key, key_m0 := m0 key, key_m1 := m1 key\<rparr>
        else n\<lparr>key_mvtype := MV_STR, key_str := str_of key\<rparr>)"

text \<open>Balance adjustment up the path: stops at the root or at the first node not balanced.\<close>

partial_function (option) insert_climb :: "lvheap \<Rightarrow> nptr \<Rightarrow> nptr \<Rightarrow> (nptr \<times> lvheap) option" where
  "insert_climb h t_root tmpNode =
    (if t_root = tmpNode then Some (tmpNode, h)
     else do {
       n \<leftarrow> rd h tmpNode;
       if balance n \<noteq> TREE_BALANCED then Some (tmpNode, h)
       else do {
         h \<leftarrow> upd h tmpNode (\<lambda>n. n\<lparr>balance := descent_dir n\<rparr>);
         insert_climb h t_root (avl_parent n)
       }
     })"

text \<open>
  The link from a parent to its child on the side of its \<open>descent_dir\<close>; \<open>relink\<close> replaces the root
  instead when there is no parent.
\<close>

definition link_child :: "lvheap \<Rightarrow> nptr \<Rightarrow> nptr \<Rightarrow> lvheap option" where
  "link_child h parent new =
     upd h parent (\<lambda>n. if descent_dir n = TREE_DESCEND_LEFT then n\<lparr>avl_left := new\<rparr> else n\<lparr>avl_right := new\<rparr>)"

definition relink :: "lvheap \<Rightarrow> lvTree \<Rightarrow> nptr \<Rightarrow> nptr \<Rightarrow> (lvheap \<times> lvTree) option" where
  "relink h lvt parent new =
    (if parent \<noteq> None then do { h \<leftarrow> link_child h parent new; Some (h, lvt) }
     else Some (h, lvt\<lparr>avl_root := new\<rparr>))"

definition insert_rebalance :: "lvheap \<Rightarrow> lvTree \<Rightarrow> nptr \<Rightarrow> (lvheap \<times> lvTree) option" where
  "insert_rebalance h lvt rebalanceNode = do {
     r \<leftarrow> rd h rebalanceNode;
     let anchorNode = (if descent_dir r = TREE_DESCEND_LEFT then avl_left r else avl_right r);
     let balanceFactor = (if descent_dir r = TREE_DESCEND_LEFT then TREE_LEFT_HEAVY else TREE_RIGHT_HEAVY);
     let curBalance = balance r;
     if curBalance = TREE_BALANCED then do {
       h \<leftarrow> upd h rebalanceNode (\<lambda>n. n\<lparr>balance := balanceFactor\<rparr>);
       Some (h, lvt\<lparr>avl_height := avl_height lvt + 1\<rparr>)
     } else if curBalance = TREE_INVERT_BALANCE_FACTOR balanceFactor then do {
       h \<leftarrow> upd h rebalanceNode (\<lambda>n. n\<lparr>balance := TREE_BALANCED\<rparr>);
       Some (h, lvt)
     } else do {
       let rebalanceNodeParent = avl_parent r;
       a \<leftarrow> rd h anchorNode;
       (tmpNode, h) \<leftarrow> (if balance a = balanceFactor
                        then lvAvlTreeSingleRotation h rebalanceNode anchorNode balanceFactor
                        else lvAvlTreeDoubleRotation h rebalanceNode anchorNode balanceFactor);
       h \<leftarrow> upd h tmpNode (\<lambda>n. n\<lparr>avl_parent := rebalanceNodeParent\<rparr>);
       relink h lvt rebalanceNodeParent tmpNode
     }
   }"

definition lvAvlTreeNodeInsert ::
  "lvheap \<Rightarrow> lvTree \<Rightarrow> mval \<Rightarrow> nptr \<Rightarrow> nat \<Rightarrow> lvTreeNode \<Rightarrow> (nptr \<times> lvheap \<times> lvTree) option" where
  "lvAvlTreeNodeInsert h lvt key parent node slot =
    (let h = h(node \<mapsto> new_node slot lvt key parent);
         lvt = lvt\<lparr>lastNodeLookedUp := Some node\<rparr>
     in if parent \<noteq> None then do {
          p \<leftarrow> rd h parent;
          let left = (descent_dir p = TREE_DESCEND_LEFT);
          h \<leftarrow> link_child h parent (Some node);
          let lvt = (if left then lvt\<lparr>lastNodeMax := parent\<rparr> else lvt\<lparr>lastNodeMin := parent\<rparr>);
          (rebalanceNode, h) \<leftarrow> insert_climb h (avl_root lvt) parent;
          (h, lvt) \<leftarrow> insert_rebalance h lvt rebalanceNode;
          Some (Some node, h, lvt)
        } else
          Some (Some node, h, lvt\<lparr>avl_root := Some node, avl_height := 1, lastNodeMin := None, lastNodeMax := None\<rparr>))"

section \<open>Deletion\<close>

text \<open>The walk to the in-order successor, which marks each step as a left descent.\<close>

partial_function (option) delete_succ :: "lvheap \<Rightarrow> nptr \<Rightarrow> (nptr \<times> lvheap) option" where
  "delete_succ h next = do {
     n \<leftarrow> rd h next;
     if avl_left n \<noteq> None then do {
       h \<leftarrow> upd h next (\<lambda>n. n\<lparr>descent_dir := TREE_DESCEND_LEFT\<rparr>);
       delete_succ h (avl_left n)
     } else Some (next, h)
   }"

text \<open>
  Unlinking: the result is \<open>balanceThisNode\<close>, the lowest node whose subtree got shorter.
\<close>

definition delete_unlink :: "lvheap \<Rightarrow> lvTree \<Rightarrow> nptr \<Rightarrow> (nptr \<times> lvheap \<times> lvTree) option" where
  "delete_unlink h lvt node = do {
     nd \<leftarrow> rd h node;
     let nodeLeft = avl_left nd;
     let nodeRight = avl_right nd;
     let nodeParent = avl_parent nd;
     if nodeRight = None then do {
       (h, lvt) \<leftarrow> relink h lvt nodeParent nodeLeft;
       h \<leftarrow> upd_opt h nodeLeft (\<lambda>n. n\<lparr>avl_parent := nodeParent\<rparr>);
       Some (nodeParent, h, lvt)
     } else do {
       (next, h) \<leftarrow> delete_succ h nodeRight;
       nx \<leftarrow> rd h next;
       let nextRight = avl_right nx;
       let nextParent = avl_parent nx;
       (balanceThisNode, h) \<leftarrow>
         (if nextParent \<noteq> node then do {
            h \<leftarrow> link_child h nextParent nextRight;
            h \<leftarrow> upd_opt h nextRight (\<lambda>n. n\<lparr>avl_parent := nextParent\<rparr>);
            h \<leftarrow> upd h next (\<lambda>n. n\<lparr>avl_right := nodeRight\<rparr>);
            h \<leftarrow> upd h nodeRight (\<lambda>n. n\<lparr>avl_parent := next\<rparr>);
            Some (nextParent, h)
          } else Some (next, h));
       h \<leftarrow> upd h next (\<lambda>n. n\<lparr>avl_left := nodeLeft\<rparr>);
       h \<leftarrow> upd_opt h nodeLeft (\<lambda>n. n\<lparr>avl_parent := next\<rparr>);
       h \<leftarrow> upd h next (\<lambda>n. n\<lparr>avl_parent := nodeParent, balance := balance nd, descent_dir := TREE_DESCEND_RIGHT\<rparr>);
       (h, lvt) \<leftarrow> relink h lvt nodeParent next;
       Some (balanceThisNode, h, lvt)
     }
   }"

partial_function (option) delete_balance :: "lvheap \<Rightarrow> lvTree \<Rightarrow> nptr \<Rightarrow> (lvheap \<times> lvTree) option" where
  "delete_balance h lvt balanceThisNode =
    (if balanceThisNode = None then Some (h, lvt\<lparr>avl_height := avl_height lvt - 1\<rparr>)
     else do {
       b \<leftarrow> rd h balanceThisNode;
       (let balanceFactor = descent_dir b;
            curNodeBalance = balance b;
            nextBalanceThisNode = avl_parent b
        in if curNodeBalance = TREE_BALANCED then do {
             h \<leftarrow> upd h balanceThisNode (\<lambda>n. n\<lparr>balance := TREE_INVERT_BALANCE_FACTOR balanceFactor\<rparr>);
             Some (h, lvt)
           } else if curNodeBalance = balanceFactor then do {
             h \<leftarrow> upd h balanceThisNode (\<lambda>n. n\<lparr>balance := TREE_BALANCED\<rparr>);
             delete_balance h lvt nextBalanceThisNode
           } else
             let anchorNode = (if TREE_LEFT_HEAVY = balanceFactor then avl_right b else avl_left b);
                 balanceFactor = (if TREE_LEFT_HEAVY = balanceFactor then TREE_RIGHT_HEAVY else TREE_LEFT_HEAVY)
             in do {
               a \<leftarrow> rd h anchorNode;
               (newRoot, h) \<leftarrow> (if balance a = TREE_BALANCED \<or> balance a = balanceFactor
                                then lvAvlTreeSingleRotation h balanceThisNode anchorNode balanceFactor
                                else lvAvlTreeDoubleRotation h balanceThisNode anchorNode balanceFactor);
               h \<leftarrow> upd h newRoot (\<lambda>n. n\<lparr>avl_parent := nextBalanceThisNode\<rparr>);
               (h, lvt) \<leftarrow> relink h lvt nextBalanceThisNode newRoot;
               if balance a = TREE_BALANCED then Some (h, lvt)
               else delete_balance h lvt nextBalanceThisNode
             })
     })"

definition lvAvlTreeNodeDelete :: "lvheap \<Rightarrow> lvTree \<Rightarrow> nptr \<Rightarrow> (lvheap \<times> lvTree) option" where
  "lvAvlTreeNodeDelete h lvt node = do {
     (balanceThisNode, h, lvt) \<leftarrow> delete_unlink h lvt node;
     (h, lvt) \<leftarrow> delete_balance h lvt balanceThisNode;
     Some (h, lvt\<lparr>lastNodeLookedUp := None\<rparr>)
   }"

end
