(* ===== verification/LvKey.thy ===== *)
theory LvKey
  imports LvTree "HOL-Library.List_Lexorder"
begin

text \<open>
  What the three key comparison macros of \<open>lv_tree.c\<close> compute.  A subscript is a number or a
  string; numbers sort before strings, numbers by value, strings bytewise.  The locale
  \<open>lv_key_cmp\<close> is the contract the tree code relies on: the sign of the result is the order of
  the keys, and the only thing a comparison may change in a node is the cached float form of an
  integer key.  Each macro is an instance.
\<close>

section \<open>Subscripts and their order\<close>

datatype skey = NumKey int | StrKey bytes

instantiation skey :: linorder
begin

fun less_eq_skey :: "skey \<Rightarrow> skey \<Rightarrow> bool" where
  "less_eq_skey (NumKey a) (NumKey b) = (a \<le> b)"
| "less_eq_skey (NumKey a) (StrKey s) = True"
| "less_eq_skey (StrKey s) (NumKey b) = False"
| "less_eq_skey (StrKey s) (StrKey t) = (s \<le> t)"

definition less_skey :: "skey \<Rightarrow> skey \<Rightarrow> bool" where
  "less_skey a b \<longleftrightarrow> a \<le> b \<and> \<not> b \<le> (a::skey)"

instance
proof
  fix x y z :: skey
  show "x < y \<longleftrightarrow> x \<le> y \<and> \<not> y \<le> x" by (rule less_skey_def)
  show "x \<le> x" by (cases x) auto
  show "x \<le> y \<Longrightarrow> y \<le> z \<Longrightarrow> x \<le> z" by (cases x; cases y; cases z) auto
  show "x \<le> y \<Longrightarrow> y \<le> x \<Longrightarrow> x = y" by (cases x; cases y) auto
  show "x \<le> y \<or> y \<le> x" by (cases x; cases y) auto
qed

end

lemma skey_less_simps [simp]:
  "NumKey a < NumKey b \<longleftrightarrow> a < b" "NumKey a < StrKey s" "\<not> StrKey s < NumKey a"
  "StrKey s < StrKey t \<longleftrightarrow> s < t"
  by (auto simp: less_skey_def)

definition key_abs :: "mval \<Rightarrow> skey" where
  "key_abs k = (if is_canon (mvtype k) then NumKey (numval k) else StrKey (str_of k))"

definition node_num :: "lvTreeNode \<Rightarrow> int" where
  "node_num n = (if is_int (key_mvtype n) then key_m0 n * 10 ^ 77
     else (if key_sgn n = 0 then 1 else - 1) * (key_m1 n * MANT_HI + key_m0 n) * 10 ^ nat (key_e n))"

definition node_key :: "lvTreeNode \<Rightarrow> skey" where
  "node_key n = (if is_canon (key_mvtype n) then NumKey (node_num n) else StrKey (key_str n))"

section \<open>Well-formed nodes\<close>

text \<open>
  The cached float form of an integer key, when \<open>key_iconv\<close> says there is one.  For the key zero
  \<open>lvAvlTreeNodeFltConv\<close> sets the exponent only; the sign and \<open>key_m1\<close> keep what the slot held
  before, and no comparison depends on them.
\<close>

definition conv_ok :: "lvTreeNode \<Rightarrow> bool" where
  "conv_ok n \<longleftrightarrow>
    (if key_m0 n = 0 then key_e n = 0
     else (key_sgn n = (if key_m0 n < 0 then 1 else 0) \<and> MANT_LO \<le> key_m1 n \<and> key_m1 n < MANT_HI \<and>
           EXPLO \<le> key_e n \<and> key_e n < EXPHI \<and>
           key_m1 n * MANT_HI * 10 ^ nat (key_e n) = \<bar>key_m0 n\<bar> * 10 ^ 77))"

definition wf_node :: "lvTreeNode \<Rightarrow> bool" where
  "wf_node n \<longleftrightarrow>
    (if is_canon (key_mvtype n) then
       \<not> is_str (key_mvtype n) \<and>
       (if is_int (key_mvtype n)
        then - MANT_HI < key_m0 n \<and> key_m0 n < MANT_HI \<and> (key_iconv n \<longrightarrow> conv_ok n)
        else (key_sgn n = 0 \<or> key_sgn n = 1) \<and> MANT_LO \<le> key_m1 n \<and> key_m1 n < MANT_HI \<and>
             0 \<le> key_m0 n \<and> key_m0 n < MANT_HI \<and> EXPLO \<le> key_e n \<and> key_e n < EXPHI)
     else \<not> is_int (key_mvtype n) \<and> is_str (key_mvtype n))"

text \<open>Everything of a node but the cached float form.\<close>

definition same_node :: "lvTreeNode \<Rightarrow> lvTreeNode \<Rightarrow> bool" where
  "same_node n' n \<longleftrightarrow> nd_v n' = nd_v n \<and> sbs_child n' = sbs_child n \<and> tree_parent n' = tree_parent n \<and>
     key_mvtype n' = key_mvtype n \<and> balance n' = balance n \<and> descent_dir n' = descent_dir n \<and>
     key_str n' = key_str n \<and> avl_left n' = avl_left n \<and> avl_right n' = avl_right n \<and>
     avl_parent n' = avl_parent n \<and> node_key n' = node_key n"

lemma same_node_refl [simp]: "same_node n n"
  by (simp add: same_node_def)

section \<open>The contract of a comparison\<close>

locale lv_key_cmp =
  fixes cmp :: "mval \<Rightarrow> lvTreeNode \<Rightarrow> int \<times> lvTreeNode"
    and valid :: "mval \<Rightarrow> bool"
  assumes cmp_eq: "valid k \<Longrightarrow> wf_node n \<Longrightarrow> fst (cmp k n) = 0 \<longleftrightarrow> key_abs k = node_key n"
    and cmp_less: "valid k \<Longrightarrow> wf_node n \<Longrightarrow> fst (cmp k n) < 0 \<longleftrightarrow> key_abs k < node_key n"
    and cmp_wf: "valid k \<Longrightarrow> wf_node n \<Longrightarrow> wf_node (snd (cmp k n))"
    and cmp_same: "valid k \<Longrightarrow> wf_node n \<Longrightarrow> same_node (snd (cmp k n)) n"
begin

lemma cmp_greater: "valid k \<Longrightarrow> wf_node n \<Longrightarrow> 0 < fst (cmp k n) \<longleftrightarrow> node_key n < key_abs k"
  using cmp_eq [of k n] cmp_less [of k n] by auto

end

text \<open>The keys each lookup function is called with.\<close>

definition int_key :: "mval \<Rightarrow> bool" where
  "int_key k \<longleftrightarrow> is_canon (mvtype k) \<and> wf_int k"

definition num_key :: "mval \<Rightarrow> bool" where
  "num_key k \<longleftrightarrow> is_canon (mvtype k) \<and> wf_flt k"

definition str_key :: "mval \<Rightarrow> bool" where
  "str_key k \<longleftrightarrow> \<not> is_canon (mvtype k) \<and> is_str (mvtype k)"

definition lv_key :: "mval \<Rightarrow> bool" where
  "lv_key k \<longleftrightarrow> int_key k \<or> num_key k \<or> str_key k"

section \<open>Numbers\<close>

text \<open>A node's float form as an mval, so that the facts about \<open>numcmp\<close> apply.\<close>

definition node_flt :: "lvTreeNode \<Rightarrow> bool \<Rightarrow> mval" where
  "node_flt b b_int = \<lparr>mvtype = MV_NM, sgn_of = key_sgn b, e_of = key_e b,
     m0 = (if b_int then 0 else key_m0 b), m1 = key_m1 b, str_of = []\<rparr>"

lemma lv_num_cmp_sgn: "sgn (lv_num_cmp a b b_int) = numcmp_flt a (node_flt b b_int)"
  by (simp add: lv_num_cmp_def numcmp_flt_def node_flt_def Let_def sgn_if)

lemma lv_num_cmp_correct:
  assumes "wf_cmp a" "wf_cmp (node_flt b b_int)"
  shows "sgn (lv_num_cmp a b b_int) = sgn (flt_val a - flt_val (node_flt b b_int))"
  unfolding lv_num_cmp_sgn by (rule numcmp_flt_correct [OF assms])

lemma sgn_cmp:
  fixes x a b :: int
  assumes "sgn x = sgn (a - b)"
  shows "x = 0 \<longleftrightarrow> a = b" and "x < 0 \<longleftrightarrow> a < b"
  using assms by (auto simp: sgn_if split: if_splits)

lemma node_flt_float:
  assumes "wf_node b" "is_canon (key_mvtype b)" "\<not> is_int (key_mvtype b)"
  shows "wf_flt (node_flt b False)" "flt_val (node_flt b False) = node_num b"
  using assms
  by (simp_all add: wf_node_def wf_flt_def node_flt_def node_num_def flt_val_def flt_mag_def mant_def)

text \<open>An integer node in float form denotes the same number, unless it is zero.\<close>

lemma node_flt_conv:
  assumes "conv_ok b" "key_m0 b \<noteq> 0"
  shows "wf_flt (node_flt b True)" "flt_val (node_flt b True) = key_m0 b * 10 ^ 77"
  using assms
  by (auto simp: conv_ok_def wf_flt_def node_flt_def flt_val_def flt_mag_def mant_def mv_defs)

lemma flt_conv_ok:
  assumes "- MANT_HI < key_m0 b" "key_m0 b < MANT_HI"
  shows "conv_ok (lvAvlTreeNodeFltConv b)"
proof -
  consider "key_m0 b = 0" | "0 < key_m0 b" | "key_m0 b < 0" by linarith
  then show ?thesis
  proof cases
    case 1 then show ?thesis by (simp add: conv_ok_def lvAvlTreeNodeFltConv_def)
  next
    case 2
    with assms scale_mantissa [of "key_m0 b"] scan_pwr_pos(1,2) [of "key_m0 b"] show ?thesis
      by (simp add: conv_ok_def lvAvlTreeNodeFltConv_def Let_def add.commute) (simp add: mv_defs)
  next
    case 3
    with assms scale_mantissa [of "- key_m0 b"] scan_pwr_pos(1,2) [of "- key_m0 b"] show ?thesis
      by (simp add: conv_ok_def lvAvlTreeNodeFltConv_def Let_def add.commute) (simp add: mv_defs)
  qed
qed

lemma flt_conv_frame:
  "same_node (lvAvlTreeNodeFltConv b) b \<longleftrightarrow> node_key (lvAvlTreeNodeFltConv b) = node_key b"
  "key_m0 (lvAvlTreeNodeFltConv b) = key_m0 b" "key_mvtype (lvAvlTreeNodeFltConv b) = key_mvtype b"
  "key_iconv (lvAvlTreeNodeFltConv b)"
  by (simp_all add: same_node_def lvAvlTreeNodeFltConv_def Let_def)

text \<open>A float against the integer zero: the exponent decides, whatever sign the slot held.\<close>

lemma lv_num_cmp_zero_node:
  assumes "wf_flt a" "key_e b = 0"
  shows "sgn (lv_num_cmp a b True) = sgn (flt_val a)"
  using flt_mag_pos [OF assms(1)] wf_flt_bounds(6) [OF assms(1)] assms(2)
  by (auto simp: lv_num_cmp_def flt_val_def Let_def sgn_if)

section \<open>Strings\<close>

lemma memcmp_prefix: "memcmp (x # s) (x # t) (Suc n) = memcmp s t n"
  by simp

lemma memcmp_lex:
  "n = min (length s) (length t) \<Longrightarrow>
   (memcmp s t n = 0 \<longleftrightarrow> take n s = take n t) \<and>
   (memcmp s t n < 0 \<longrightarrow> s < t) \<and> (0 < memcmp s t n \<longrightarrow> t < s)"
proof (induction s t n rule: memcmp.induct)
  case (1 x xs y ys n)
  show ?case
  proof (cases "x = y")
    case True
    with 1 show ?thesis by simp
  next
    case False
    then have "uint x \<noteq> uint y" by (metis word_uint_eq_iff)
    with False show ?thesis by (simp add: word_less_def)
  qed
qed auto

lemma prefix_less: "take (length s) t = s \<Longrightarrow> length s < length t \<Longrightarrow> s < (t::bytes)"
proof (induction s arbitrary: t)
  case Nil then show ?case by (cases t) auto
next
  case (Cons x s) then show ?case by (cases t) auto
qed

lemma MEMVCMP_lex: "(MEMVCMP s t = 0 \<longleftrightarrow> s = t) \<and> (MEMVCMP s t < 0 \<longleftrightarrow> s < t)"
proof -
  define n where "n = min (length s) (length t)"
  note M = memcmp_lex [OF n_def]
  consider "memcmp s t n \<noteq> 0" | "memcmp s t n = 0" "length s < length t"
    | "memcmp s t n = 0" "length t < length s" | "memcmp s t n = 0" "length s = length t" by linarith
  then show ?thesis
  proof cases
    case 1
    then have "MEMVCMP s t = memcmp s t n" by (auto simp: MEMVCMP_def n_def Let_def)
    with 1 M show ?thesis by (auto simp: less_le_not_le)
  next
    case 2
    then have "MEMVCMP s t = - 1" by (auto simp: MEMVCMP_def n_def Let_def)
    with 2 M prefix_less [of s t] show ?thesis by (auto simp: n_def)
  next
    case 3
    then have "MEMVCMP s t = 1" by (auto simp: MEMVCMP_def n_def Let_def)
    with 3 M prefix_less [of t s] show ?thesis by (auto simp: n_def)
  next
    case 4
    then have "MEMVCMP s t = 0" by (auto simp: MEMVCMP_def n_def Let_def)
    with 4 M show ?thesis by (auto simp: n_def)
  qed
qed

section \<open>The three macros\<close>

text \<open>A comparison whose sign is that of the difference of the two numbers decides the order of the keys.\<close>

lemma num_keys_cmp:
  assumes "sgn c = sgn (numval k - node_num n)" "is_canon (mvtype k)" "is_canon (key_mvtype n)"
  shows "c = 0 \<longleftrightarrow> key_abs k = node_key n" "c < 0 \<longleftrightarrow> key_abs k < node_key n"
  using sgn_cmp [OF assms(1)] assms(2,3) by (simp_all add: key_abs_def node_key_def)

lemma intkey_int_sgn:
  assumes "int_key k" "is_int (key_mvtype n)"
  shows "sgn (m1 k - key_m0 n) = sgn (numval k - node_num n)"
proof -
  have "numval k - node_num n = (m1 k - key_m0 n) * 10 ^ 77"
    using assms by (simp add: numval_def node_num_def int_key_def wf_int_def left_diff_distrib)
  then have "sgn (numval k - node_num n) = sgn (m1 k - key_m0 n) * sgn (10 ^ 77)" by (simp only: sgn_mult)
  then show ?thesis by simp
qed

lemma intkey_cmp_sgn:
  assumes "int_key k" "wf_node n" "is_canon (key_mvtype n)"
  shows "sgn (fst (LV_AVL_TREE_INTKEY_CMP k n)) = sgn (numval k - node_num n)"
proof (cases "is_int (key_mvtype n)")
  case True with assms show ?thesis by (simp add: LV_AVL_TREE_INTKEY_CMP_def intkey_int_sgn)
next
  case False
  with assms node_flt_float [of n] promote_cmp [of k] lv_num_cmp_correct [of "promote k" n False] show ?thesis
    by (simp add: LV_AVL_TREE_INTKEY_CMP_def int_key_def wf_cmp_def)
qed

text \<open>The node after a float comparison: an integer node carries its float form.\<close>

definition conv_node :: "lvTreeNode \<Rightarrow> lvTreeNode" where
  "conv_node n = (if is_int (key_mvtype n) \<and> \<not> key_iconv n then lvAvlTreeNodeFltConv n else n)"

lemma numkey_cmp_conv:
  "is_canon (key_mvtype n) \<Longrightarrow>
   LV_AVL_TREE_NUMKEY_CMP k n = (lv_num_cmp k (conv_node n) (is_int (key_mvtype n)), conv_node n)"
  by (simp add: LV_AVL_TREE_NUMKEY_CMP_def conv_node_def Let_def)

lemma conv_node_props:
  assumes "wf_node n" "is_canon (key_mvtype n)"
  shows "wf_node (conv_node n)" "same_node (conv_node n) n"
    "is_int (key_mvtype n) \<Longrightarrow> conv_ok (conv_node n) \<and> key_m0 (conv_node n) = key_m0 n"
  using assms flt_conv_ok [of n]
  by (auto simp: conv_node_def wf_node_def flt_conv_frame node_key_def node_num_def)

lemma numkey_cmp_sgn:
  assumes "num_key k" "wf_node n" "is_canon (key_mvtype n)"
  shows "sgn (fst (LV_AVL_TREE_NUMKEY_CMP k n)) = sgn (numval k - node_num n)"
proof -
  have k: "wf_flt k" "numval k = flt_val k" using assms by (simp_all add: num_key_def numval_flt)
  note c = conv_node_props [OF assms(2,3)]
  consider "\<not> is_int (key_mvtype n)" | "is_int (key_mvtype n)" "key_m0 n = 0"
    | "is_int (key_mvtype n)" "key_m0 n \<noteq> 0" by blast
  then show ?thesis
  proof cases
    case 1
    then have "conv_node n = n" by (simp add: conv_node_def)
    with 1 assms k node_flt_float [of n] lv_num_cmp_correct [of k n False] show ?thesis
      by (simp add: numkey_cmp_conv wf_cmp_def)
  next
    case 2
    with c(3) have "key_e (conv_node n) = 0" by (simp add: conv_ok_def)
    with 2 assms k lv_num_cmp_zero_node [of k "conv_node n"] show ?thesis
      by (simp add: numkey_cmp_conv node_num_def)
  next
    case 3
    with c(3) node_flt_conv [of "conv_node n"] k assms lv_num_cmp_correct [of k "conv_node n" True] show ?thesis
      by (simp add: numkey_cmp_conv wf_cmp_def node_num_def)
  qed
qed

interpretation IntCmp: lv_key_cmp LV_AVL_TREE_INTKEY_CMP int_key
proof
  fix k n assume k: "int_key k" and n: "wf_node n"
  have "snd (LV_AVL_TREE_INTKEY_CMP k n) = n" by (simp add: LV_AVL_TREE_INTKEY_CMP_def)
  with n show "wf_node (snd (LV_AVL_TREE_INTKEY_CMP k n))" "same_node (snd (LV_AVL_TREE_INTKEY_CMP k n)) n"
    by simp_all
  have k': "is_canon (mvtype k)" using k by (simp add: int_key_def)
  show "fst (LV_AVL_TREE_INTKEY_CMP k n) = 0 \<longleftrightarrow> key_abs k = node_key n"
    "fst (LV_AVL_TREE_INTKEY_CMP k n) < 0 \<longleftrightarrow> key_abs k < node_key n"
    using num_keys_cmp [OF intkey_cmp_sgn [OF k n] k'] k' n
    by (cases "is_canon (key_mvtype n)";
        simp add: LV_AVL_TREE_INTKEY_CMP_def key_abs_def node_key_def wf_node_def)+
qed

interpretation NumCmp: lv_key_cmp LV_AVL_TREE_NUMKEY_CMP num_key
proof
  fix k n assume k: "num_key k" and n: "wf_node n"
  show "wf_node (snd (LV_AVL_TREE_NUMKEY_CMP k n))" "same_node (snd (LV_AVL_TREE_NUMKEY_CMP k n)) n"
    using conv_node_props [OF n] n
    by (cases "is_canon (key_mvtype n)"; simp add: numkey_cmp_conv; simp add: LV_AVL_TREE_NUMKEY_CMP_def)+
  have k': "is_canon (mvtype k)" using k by (simp add: num_key_def)
  show "fst (LV_AVL_TREE_NUMKEY_CMP k n) = 0 \<longleftrightarrow> key_abs k = node_key n"
    "fst (LV_AVL_TREE_NUMKEY_CMP k n) < 0 \<longleftrightarrow> key_abs k < node_key n"
    using num_keys_cmp [OF numkey_cmp_sgn [OF k n] k'] k'
    by (cases "is_canon (key_mvtype n)"; simp; simp add: LV_AVL_TREE_NUMKEY_CMP_def key_abs_def node_key_def)+
qed

interpretation StrCmp: lv_key_cmp LV_AVL_TREE_STRKEY_CMP str_key
  using MEMVCMP_lex
  by unfold_locales (auto simp: LV_AVL_TREE_STRKEY_CMP_def str_key_def key_abs_def node_key_def)

interpretation SubscrCmp: lv_key_cmp lvAvlTreeKeySubscrCmp lv_key
proof -
  have d: "lvAvlTreeKeySubscrCmp k = LV_AVL_TREE_INTKEY_CMP k" if "int_key k" for k
    using that by (auto simp: lvAvlTreeKeySubscrCmp_def int_key_def wf_int_def)
  have f: "lvAvlTreeKeySubscrCmp k = LV_AVL_TREE_NUMKEY_CMP k" if "num_key k" for k
    using that by (auto simp: lvAvlTreeKeySubscrCmp_def num_key_def wf_flt_def)
  have s: "lvAvlTreeKeySubscrCmp k = LV_AVL_TREE_STRKEY_CMP k" if "str_key k" for k
    using that by (auto simp: lvAvlTreeKeySubscrCmp_def str_key_def)
  show "lv_key_cmp lvAvlTreeKeySubscrCmp lv_key"
    by unfold_locales
      (auto simp: lv_key_def d f s IntCmp.cmp_eq IntCmp.cmp_less IntCmp.cmp_wf IntCmp.cmp_same
        NumCmp.cmp_eq NumCmp.cmp_less NumCmp.cmp_wf NumCmp.cmp_same
        StrCmp.cmp_eq StrCmp.cmp_less StrCmp.cmp_wf StrCmp.cmp_same)
qed

end
