(* ===== verification/LvShape.thy ===== *)
theory LvShape
  imports LvKey "HOL-Library.Tree"
begin

text \<open>
  Shape of a subscript tree in the store.  \<open>is_tree h par t\<close> says that the nodes of the
  mathematical tree \<open>t\<close> (of addresses) are linked in \<open>h\<close> as \<open>t\<close> says, parent links included.
  A position inside a tree is a context: the list of frames from the position up to the root, each
  with the side on which the position lies, the address of the node and the sibling subtree.
  The traversal functions of \<open>lv_tree.c\<close> are proved against the in-order and post-order listings.
\<close>

section \<open>Trees in the store\<close>

fun rootp :: "nat tree \<Rightarrow> nptr" where
  "rootp Leaf = None"
| "rootp (Node l a r) = Some a"

lemma rootp_None [simp]: "rootp t = None \<longleftrightarrow> t = Leaf" "None = rootp t \<longleftrightarrow> t = Leaf"
  by (cases t; simp)+

lemma rootp_Some: "rootp t = Some a \<longleftrightarrow> (\<exists>l r. t = Node l a r)"
  by (cases t) auto

fun is_tree :: "lvheap \<Rightarrow> nptr \<Rightarrow> nat tree \<Rightarrow> bool" where
  "is_tree h par Leaf = True"
| "is_tree h par (Node l a r) =
    (case h a of None \<Rightarrow> False
     | Some n \<Rightarrow> avl_parent n = par \<and> avl_left n = rootp l \<and> avl_right n = rootp r \<and>
         is_tree h (Some a) l \<and> is_tree h (Some a) r)"

lemma is_tree_NodeD:
  assumes "is_tree h par (Node l a r)"
  obtains n where "h a = Some n" "avl_parent n = par" "avl_left n = rootp l" "avl_right n = rootp r"
    "is_tree h (Some a) l" "is_tree h (Some a) r"
  using assms by (auto split: option.splits)

definition links :: "lvheap \<Rightarrow> nat \<Rightarrow> (nptr \<times> nptr \<times> nptr) option" where
  "links h a = map_option (\<lambda>n. (avl_parent n, avl_left n, avl_right n)) (h a)"

lemma is_tree_cong:
  "(\<And>a. a \<in> set_tree t \<Longrightarrow> links h' a = links h a) \<Longrightarrow> is_tree h' par t = is_tree h par t"
proof (induction t arbitrary: par)
  case (Node l a r)
  have "links h' a = links h a" using Node.prems by simp
  moreover have "\<And>p. is_tree h' p l = is_tree h p l" "\<And>p. is_tree h' p r = is_tree h p r"
    using Node.IH Node.prems by simp_all
  ultimately show ?case
    by (cases "h a"; cases "h' a") (auto simp: links_def)
qed simp

lemma is_tree_upd [simp]: "a \<notin> set_tree t \<Longrightarrow> is_tree (h(a := x)) par t = is_tree h par t"
  by (rule is_tree_cong) (auto simp: links_def)

lemma is_tree_dom: "is_tree h par t \<Longrightarrow> a \<in> set_tree t \<Longrightarrow> \<exists>n. h a = Some n"
  by (induction t arbitrary: par) (auto split: option.splits)

lemma rd_Some [simp]: "rd h (Some a) = h a"
  by (simp add: rd_def)

lemma upd_Some [simp]:
  "upd h (Some a) f = (case h a of None \<Rightarrow> None | Some n \<Rightarrow> Some (h(a \<mapsto> f n)))"
  by (simp add: upd_def)

lemma upd_opt_simps [simp]: "upd_opt h None f = Some h" "upd_opt h (Some a) f = upd h (Some a) f"
  by (simp_all add: upd_opt_def)

section \<open>Contexts\<close>

text \<open>\<open>(True, a, s)\<close>: the position is in the left subtree of \<open>a\<close>, and \<open>s\<close> is its right subtree.\<close>

type_synonym frame = "bool \<times> nat \<times> nat tree"

fun frm :: "frame \<Rightarrow> nat tree \<Rightarrow> nat tree" where
  "frm (L, a, s) t = (if L then Node t a s else Node s a t)"

fun plug :: "nat tree \<Rightarrow> frame list \<Rightarrow> nat tree" where
  "plug t [] = t"
| "plug t (f # cs) = plug (frm f t) cs"

fun hole :: "frame list \<Rightarrow> nptr" where
  "hole [] = None"
| "hole ((L, a, s) # cs) = Some a"

fun lefts :: "frame list \<Rightarrow> nat list" where
  "lefts [] = []"
| "lefts ((L, a, s) # cs) = lefts cs @ (if L then [] else inorder s @ [a])"

fun rights :: "frame list \<Rightarrow> nat list" where
  "rights [] = []"
| "rights ((L, a, s) # cs) = (if L then a # inorder s else []) @ rights cs"

fun ctx_max :: "frame list \<Rightarrow> nptr" where
  "ctx_max [] = None"
| "ctx_max ((L, a, s) # cs) = (if L then Some a else ctx_max cs)"

fun ctx_min :: "frame list \<Rightarrow> nptr" where
  "ctx_min [] = None"
| "ctx_min ((L, a, s) # cs) = (if L then ctx_min cs else Some a)"

definition hd_opt :: "'a list \<Rightarrow> 'a option" where
  "hd_opt xs = (case xs of [] \<Rightarrow> None | x # _ \<Rightarrow> Some x)"

definition last_opt :: "'a list \<Rightarrow> 'a option" where
  "last_opt xs = (if xs = [] then None else Some (last xs))"

lemma hd_opt_simps [simp]: "hd_opt [] = None" "hd_opt (x # xs) = Some x"
  "hd_opt (xs @ ys) = (if xs = [] then hd_opt ys else hd_opt xs)"
  by (auto simp: hd_opt_def split: list.splits)

lemma last_opt_simps [simp]: "last_opt [] = None" "last_opt [x] = Some x"
  "last_opt (xs @ ys) = (if ys = [] then last_opt xs else last_opt ys)"
  by (auto simp: last_opt_def)

lemma hd_opt_eq_None [simp]: "hd_opt xs = None \<longleftrightarrow> xs = []"
  by (cases xs) auto

lemma last_opt_eq_None [simp]: "last_opt xs = None \<longleftrightarrow> xs = []"
  by (simp add: last_opt_def)

lemma hd_opt_in: "hd_opt xs = Some x \<Longrightarrow> x \<in> set xs"
  by (cases xs) auto

lemma last_opt_in: "last_opt xs = Some x \<Longrightarrow> x \<in> set xs"
  by (auto simp: last_opt_def split: if_splits)

lemma inorder_eq_Nil [simp]: "inorder t = [] \<longleftrightarrow> t = Leaf" "[] = inorder t \<longleftrightarrow> t = Leaf"
  by (cases t; simp)+

lemma inorder_plug: "inorder (plug t cs) = lefts cs @ inorder t @ rights cs"
  by (induction cs arbitrary: t) auto

lemma plug_append: "plug t (cs1 @ cs2) = plug (plug t cs1) cs2"
  by (induction cs1 arbitrary: t) auto

lemma rights_append: "rights (cs1 @ cs2) = rights cs1 @ rights cs2"
  by (induction cs1) auto

lemma lefts_append: "lefts (cs1 @ cs2) = lefts cs2 @ lefts cs1"
  by (induction cs1) auto

lemma ctx_max_rights: "ctx_max cs = hd_opt (rights cs)"
  by (induction cs rule: rights.induct) auto

lemma ctx_min_lefts: "ctx_min cs = last_opt (lefts cs)"
  by (induction cs rule: lefts.induct) auto

lemma plug_Leaf [simp]: "plug t cs = Leaf \<longleftrightarrow> t = Leaf \<and> cs = []"
  by (induction cs arbitrary: t rule: rights.induct) (auto split: if_splits)

definition ctx_set :: "frame list \<Rightarrow> nat set" where
  "ctx_set cs = (\<Union>(L, a, s) \<in> set cs. insert a (set_tree s))"

lemma ctx_set_simps [simp]:
  "ctx_set [] = {}" "ctx_set ((L, a, s) # cs) = insert a (set_tree s) \<union> ctx_set cs"
  "ctx_set (cs1 @ cs2) = ctx_set cs1 \<union> ctx_set cs2"
  by (auto simp: ctx_set_def)

lemma set_lefts_rights: "ctx_set cs = set (lefts cs) \<union> set (rights cs)"
  by (induction cs rule: lefts.induct) auto

lemma set_tree_plug: "set_tree (plug t cs) = set_tree t \<union> ctx_set cs"
  by (induction cs arbitrary: t rule: rights.induct) auto

lemma distinct_plug:
  "distinct (inorder (plug t cs)) \<longleftrightarrow>
   distinct (inorder t) \<and> distinct (lefts cs @ rights cs) \<and> set_tree t \<inter> ctx_set cs = {}"
  by (auto simp: inorder_plug set_lefts_rights)

lemma distinct_ctx_step:
  "distinct (lefts ((L, a, s) # cs) @ rights ((L, a, s) # cs)) \<longleftrightarrow>
   distinct (lefts cs @ rights cs) \<and> distinct (inorder s) \<and> a \<notin> set_tree s \<and> a \<notin> ctx_set cs \<and>
   set_tree s \<inter> ctx_set cs = {}"
  by (cases L) (auto simp: set_lefts_rights)

fun is_ctx :: "lvheap \<Rightarrow> frame list \<Rightarrow> nptr \<Rightarrow> bool" where
  "is_ctx h [] q = True"
| "is_ctx h ((L, a, s) # cs) q =
    (case h a of None \<Rightarrow> False
     | Some n \<Rightarrow> avl_parent n = hole cs \<and> avl_left n = (if L then q else rootp s) \<and>
         avl_right n = (if L then rootp s else q) \<and> is_tree h (Some a) s \<and> is_ctx h cs (Some a))"

lemma is_tree_plug:
  "is_tree h None (plug t cs) \<longleftrightarrow> is_tree h (hole cs) t \<and> is_ctx h cs (rootp t)"
proof (induction cs arbitrary: t rule: rights.induct)
  case (2 L a s cs)
  show ?case
    by (cases L) (auto simp: "2.IH" split: option.splits)
qed simp

lemma is_ctx_cong:
  "(\<And>a. a \<in> ctx_set cs \<Longrightarrow> links h' a = links h a) \<Longrightarrow> is_ctx h' cs q = is_ctx h cs q"
proof (induction cs arbitrary: q rule: rights.induct)
  case (2 L a s cs)
  have "links h' a = links h a" using "2.prems" by simp
  moreover have "is_tree h' (Some a) s = is_tree h (Some a) s" using "2.prems" by (intro is_tree_cong) auto
  moreover have "\<And>q. is_ctx h' cs q = is_ctx h cs q" using "2.IH" "2.prems" by auto
  ultimately show ?case by (cases "h a"; cases "h' a") (auto simp: links_def)
qed simp

lemma is_ctx_upd [simp]: "a \<notin> ctx_set cs \<Longrightarrow> is_ctx (h(a := x)) cs q = is_ctx h cs q"
  by (rule is_ctx_cong) (auto simp: links_def)

fun rootc :: "nptr \<Rightarrow> frame list \<Rightarrow> nptr" where
  "rootc q [] = q"
| "rootc q ((L, a, s) # cs) = rootc (Some a) cs"

lemma rootp_plug: "rootp (plug t cs) = rootc (rootp t) cs"
  by (induction cs arbitrary: t rule: rights.induct) auto

text \<open>Every node of a tree is at some position.\<close>

lemma context_of: "a \<in> set_tree t \<Longrightarrow> \<exists>l r cs. t = plug (Node l a r) cs"
proof (induction t)
  case (Node l b r)
  then consider "a = b" | "a \<in> set_tree l" | "a \<in> set_tree r" by auto
  then show ?case
  proof cases
    case 1 then show ?thesis by (intro exI [of _ l] exI [of _ r] exI [of _ "[]"]) simp
  next
    case 2
    with Node obtain l' r' cs where "l = plug (Node l' a r') cs" by blast
    then show ?thesis
      by (intro exI [of _ l'] exI [of _ r'] exI [of _ "cs @ [(True, b, r)]"]) (simp add: plug_append)
  next
    case 3
    with Node obtain l' r' cs where "r = plug (Node l' a r') cs" by blast
    then show ?thesis
      by (intro exI [of _ l'] exI [of _ r'] exI [of _ "cs @ [(False, b, l)]"]) (simp add: plug_append)
  qed
qed simp

section \<open>In-order traversal\<close>

lemma go_left_first: "is_tree h par t \<Longrightarrow> t \<noteq> Leaf \<Longrightarrow> go_left h (rootp t) = Some (hd_opt (inorder t))"
proof (induction t arbitrary: par)
  case (Node l a r)
  then obtain n where n: "h a = Some n" "avl_left n = rootp l" "is_tree h (Some a) l"
    by (auto split: option.splits)
  show ?case
    by (subst go_left.simps) (use n Node.IH(1) [OF n(3)] in \<open>auto\<close>)
qed simp

lemma go_right_last: "is_tree h par t \<Longrightarrow> t \<noteq> Leaf \<Longrightarrow> go_right h (rootp t) = Some (last_opt (inorder t))"
proof (induction t arbitrary: par)
  case (Node l a r)
  then obtain n where n: "h a = Some n" "avl_right n = rootp r" "is_tree h (Some a) r"
    by (auto split: option.splits)
  show ?case
    by (subst go_right.simps) (use n Node.IH(2) [OF n(3)] in \<open>auto simp: last_opt_def\<close>)
qed simp

lemma climb_next_ctx:
  "is_ctx h cs (Some a) \<Longrightarrow> a \<notin> ctx_set cs \<Longrightarrow> distinct (lefts cs @ rights cs) \<Longrightarrow>
   climb_next h (Some a) (hole cs) = Some (ctx_max cs)"
proof (induction cs arbitrary: a rule: rights.induct)
  case (2 L b s cs)
  then obtain n where n: "h b = Some n" "avl_parent n = hole cs" "avl_left n = (if L then Some a else rootp s)"
    "is_ctx h cs (Some b)" by (auto split: option.splits)
  have b: "b \<notin> ctx_set cs" "distinct (lefts cs @ rights cs)"
    using "2.prems"(3) unfolding distinct_ctx_step by simp_all
  have "rootp s \<noteq> Some a" using "2.prems"(2) by (auto simp: rootp_Some)
  then show ?case
    by (subst climb_next.simps) (use n "2.IH" [OF n(4) b] in auto)
qed (simp add: climb_next.simps)

lemma climb_prev_ctx:
  "is_ctx h cs (Some a) \<Longrightarrow> a \<notin> ctx_set cs \<Longrightarrow> distinct (lefts cs @ rights cs) \<Longrightarrow>
   climb_prev h (Some a) (hole cs) = Some (ctx_min cs)"
proof (induction cs arbitrary: a rule: rights.induct)
  case (2 L b s cs)
  then obtain n where n: "h b = Some n" "avl_parent n = hole cs" "avl_right n = (if L then rootp s else Some a)"
    "is_ctx h cs (Some b)" by (auto split: option.splits)
  have b: "b \<notin> ctx_set cs" "distinct (lefts cs @ rights cs)"
    using "2.prems"(3) unfolding distinct_ctx_step by simp_all
  have "rootp s \<noteq> Some a" using "2.prems"(2) by (auto simp: rootp_Some)
  then show ?case
    by (subst climb_prev.simps) (use n "2.IH" [OF n(4) b] in auto)
qed (simp add: climb_prev.simps)

text \<open>Where \<open>lvAvlTreeNext\<close> and \<open>lvAvlTreePrev\<close> get to from a given position.\<close>

lemma next_at:
  assumes "is_tree h None (plug (Node l a r) cs)" "distinct (inorder (plug (Node l a r) cs))"
  shows "lvAvlTreeNext h (Some a) = Some (hd_opt (inorder r @ rights cs))"
proof -
  obtain n where n: "h a = Some n" "avl_parent n = hole cs" "avl_right n = rootp r"
    "is_tree h (Some a) r" "is_ctx h cs (Some a)"
    using assms(1) by (auto simp: is_tree_plug split: option.splits)
  show ?thesis
  proof (cases "r = Leaf")
    case True
    have "a \<notin> ctx_set cs" "distinct (lefts cs @ rights cs)" using assms(2) by (auto simp: distinct_plug)
    with n True climb_next_ctx [of h cs a] show ?thesis
      by (simp add: lvAvlTreeNext_def ctx_max_rights)
  next
    case False
    with n go_left_first [OF n(4)] show ?thesis by (simp add: lvAvlTreeNext_def)
  qed
qed

lemma prev_at:
  assumes "is_tree h None (plug (Node l a r) cs)" "distinct (inorder (plug (Node l a r) cs))"
  shows "lvAvlTreePrev h (Some a) = Some (last_opt (lefts cs @ inorder l))"
proof -
  obtain n where n: "h a = Some n" "avl_parent n = hole cs" "avl_left n = rootp l"
    "is_tree h (Some a) l" "is_ctx h cs (Some a)"
    using assms(1) by (auto simp: is_tree_plug split: option.splits)
  show ?thesis
  proof (cases "l = Leaf")
    case True
    have "a \<notin> ctx_set cs" "distinct (lefts cs @ rights cs)" using assms(2) by (auto simp: distinct_plug)
    with n True climb_prev_ctx [of h cs a] show ?thesis
      by (simp add: lvAvlTreePrev_def ctx_min_lefts)
  next
    case False
    with n go_right_last [OF n(4)] show ?thesis by (simp add: lvAvlTreePrev_def)
  qed
qed

lemma distinct_split_unique:
  assumes "distinct (xs @ a # ys)" "xs @ a # ys = xs' @ a # ys'"
  shows "xs = xs' \<and> ys = ys'"
proof -
  have "a \<notin> set xs" "a \<notin> set ys" using assms(1) by simp_all
  from append_Cons_eq_iff [OF this] show ?thesis using assms(2) by blast
qed

lemma next_inorder:
  assumes "is_tree h None t" "distinct (inorder t)" "inorder t = xs @ a # ys"
  shows "lvAvlTreeNext h (Some a) = Some (hd_opt ys)" "lvAvlTreePrev h (Some a) = Some (last_opt xs)"
proof -
  have "a \<in> set_tree t" using assms(3) by (simp flip: set_inorder)
  then obtain l r cs where t: "t = plug (Node l a r) cs" using context_of by blast
  have "xs @ a # ys = (lefts cs @ inorder l) @ a # (inorder r @ rights cs)"
    using assms(3) t by (simp add: inorder_plug)
  from distinct_split_unique [OF _ this] assms(2,3)
  have "xs = lefts cs @ inorder l" "ys = inorder r @ rights cs" by simp_all
  with next_at [of h l a r cs] prev_at [of h l a r cs] assms(1,2) t
  show "lvAvlTreeNext h (Some a) = Some (hd_opt ys)" "lvAvlTreePrev h (Some a) = Some (last_opt xs)" by simp_all
qed

lemma first_inorder: "is_tree h None t \<Longrightarrow> avl_root lvt = rootp t \<Longrightarrow> lvAvlTreeFirst h lvt = Some (hd_opt (inorder t))"
  using go_left_first [of h None t] by (cases "t = Leaf") (auto simp: lvAvlTreeFirst_def)

lemma last_inorder: "is_tree h None t \<Longrightarrow> avl_root lvt = rootp t \<Longrightarrow> lvAvlTreeLast h lvt = Some (last_opt (inorder t))"
  using go_right_last [of h None t] by (cases "t = Leaf") (auto simp: lvAvlTreeLast_def)

section \<open>Post-order traversal\<close>

fun po_after :: "frame list \<Rightarrow> nat list" where
  "po_after [] = []"
| "po_after ((L, a, s) # cs) = (if L then postorder s else []) @ a # po_after cs"

fun po_before :: "frame list \<Rightarrow> nat list" where
  "po_before [] = []"
| "po_before ((L, a, s) # cs) = po_before cs @ (if L then [] else postorder s)"

lemma postorder_eq_Nil [simp]: "postorder t = [] \<longleftrightarrow> t = Leaf"
  by (cases t) auto

lemma postorder_plug: "postorder (plug t cs) = po_before cs @ postorder t @ po_after cs"
  by (induction cs arbitrary: t rule: rights.induct) auto

lemma go_leaf_first: "is_tree h par t \<Longrightarrow> t \<noteq> Leaf \<Longrightarrow> go_leaf h (rootp t) = Some (hd_opt (postorder t))"
proof (induction t arbitrary: par)
  case (Node l a r)
  then obtain n where n: "h a = Some n" "avl_left n = rootp l" "avl_right n = rootp r"
     "is_tree h (Some a) l" "is_tree h (Some a) r"
    by (auto split: option.splits)
  show ?case
    by (subst go_leaf.simps) (use n Node.IH(1) [OF n(4)] Node.IH(2) [OF n(5)] in auto)
qed simp

lemma next_postorder_at:
  assumes "is_tree h None (plug (Node l a r) cs)" "distinct (inorder (plug (Node l a r) cs))"
  shows "lvAvlTreeNextPostOrder h (Some a) = Some (hd_opt (po_after cs))"
proof -
  obtain n where n: "h a = Some n" "avl_parent n = hole cs" "is_ctx h cs (Some a)"
    using assms(1) by (auto simp: is_tree_plug split: option.splits)
  have a: "a \<notin> ctx_set cs" using assms(2) by (auto simp: distinct_plug)
  show ?thesis
  proof (cases cs rule: rights.cases)
    case 1 with n show ?thesis by (simp add: lvAvlTreeNextPostOrder_def)
  next
    case (2 L b s cs')
    then have "rootp s \<noteq> Some a" using a by (auto simp: rootp_Some)
    with 2 n go_leaf_first [of h "Some b" s] show ?thesis
      by (auto simp: lvAvlTreeNextPostOrder_def split: option.splits)
  qed
qed

lemma first_postorder:
  "is_tree h None t \<Longrightarrow> avl_root lvt = rootp t \<Longrightarrow> lvAvlTreeFirstPostOrder h lvt = Some (hd_opt (postorder t))"
  using go_leaf_first [of h None t] by (cases "t = Leaf") (auto simp: lvAvlTreeFirstPostOrder_def)

lemma distinct_postorder: "distinct (inorder t) \<Longrightarrow> distinct (postorder t)"
  by (induction t) auto

lemma next_postorder:
  assumes "is_tree h None t" "distinct (inorder t)" "postorder t = xs @ a # ys"
  shows "lvAvlTreeNextPostOrder h (Some a) = Some (hd_opt ys)"
proof -
  have "a \<in> set_tree t" using assms(3) by (simp flip: set_postorder)
  then obtain l r cs where t: "t = plug (Node l a r) cs" using context_of by blast
  have "xs @ a # ys = (po_before cs @ postorder l @ postorder r) @ a # po_after cs"
    using assms(3) t by (simp add: postorder_plug)
  from distinct_split_unique [OF _ this] have "ys = po_after cs"
    using assms(2,3) distinct_postorder [of t] by simp
  with next_postorder_at [of h l a r cs] assms(1,2) t show ?thesis by simp
qed

end
