(* ===== verification/LvLookup.thy ===== *)
theory LvLookup
  imports LvShape
begin

text \<open>
  Lookup in a subscript tree: the traversal, the clue kept from the last lookup, and what both
  leave behind.  The facts are proved once, in the locale \<open>lv_key_cmp\<close> of a correct comparison,
  and hold for the integer, number and string lookups through its interpretations.
\<close>

section \<open>Views of the store\<close>

definition hkey :: "lvheap \<Rightarrow> nat \<Rightarrow> skey" where "hkey h a = node_key (the (h a))"
definition bal :: "lvheap \<Rightarrow> nat \<Rightarrow> int" where "bal h a = balance (the (h a))"
definition ddir :: "lvheap \<Rightarrow> nat \<Rightarrow> int" where "ddir h a = descent_dir (the (h a))"

definition dirv :: "bool \<Rightarrow> int" where
  "dirv L = (if L then TREE_DESCEND_LEFT else TREE_DESCEND_RIGHT)"

text \<open>The \<open>descent_dir\<close> of every node above a position points towards it.\<close>

fun dir_ok :: "lvheap \<Rightarrow> frame list \<Rightarrow> bool" where
  "dir_ok h [] = True"
| "dir_ok h ((L, a, s) # cs) = (ddir h a = dirv L \<and> dir_ok h cs)"

lemma dir_ok_append [simp]: "dir_ok h (cs1 @ cs2) = (dir_ok h cs1 \<and> dir_ok h cs2)"
  by (induction cs1) auto

lemma dir_ok_cong: "(\<And>a. a \<in> ctx_set cs \<Longrightarrow> ddir h' a = ddir h a) \<Longrightarrow> dir_ok h' cs = dir_ok h cs"
  by (induction cs rule: rights.induct) auto

lemma dir_ok_upd [simp]: "a \<notin> ctx_set cs \<Longrightarrow> dir_ok (h(a := x)) cs = dir_ok h cs"
  by (rule dir_ok_cong) (auto simp: ddir_def)

lemma dirv_simps [simp]: "dirv True = TREE_DESCEND_LEFT" "dirv False = TREE_DESCEND_RIGHT"
  "dirv L = TREE_DESCEND_LEFT \<longleftrightarrow> L" "dirv L = TREE_DESCEND_RIGHT \<longleftrightarrow> \<not> L"
  by (auto simp: dirv_def mv_defs)

text \<open>
  \<open>data_eq\<close>: the value, the child tree, the owner and the key of a node are kept; \<open>heap_quiet\<close>:
  in addition no link and no balance changes, in any node.
\<close>

definition data_eq :: "lvTreeNode \<Rightarrow> lvTreeNode \<Rightarrow> bool" where
  "data_eq n' n \<longleftrightarrow> nd_v n' = nd_v n \<and> sbs_child n' = sbs_child n \<and> tree_parent n' = tree_parent n \<and>
     key_mvtype n' = key_mvtype n \<and> key_str n' = key_str n \<and> node_key n' = node_key n \<and>
     (wf_node n \<longrightarrow> wf_node n')"

definition heap_data :: "lvheap \<Rightarrow> lvheap \<Rightarrow> bool" where
  "heap_data h' h \<longleftrightarrow> (\<forall>a. rel_option data_eq (h' a) (h a))"

definition heap_quiet :: "lvheap \<Rightarrow> lvheap \<Rightarrow> bool" where
  "heap_quiet h' h \<longleftrightarrow> heap_data h' h \<and> (\<forall>a. links h' a = links h a \<and> bal h' a = bal h a)"

lemma data_eq_refl [simp]: "data_eq n n"
  by (simp add: data_eq_def)

lemma data_eq_trans: "data_eq n2 n1 \<Longrightarrow> data_eq n1 n0 \<Longrightarrow> data_eq n2 n0"
  by (simp add: data_eq_def)

lemma heap_data_refl [simp]: "heap_data h h"
  by (simp add: heap_data_def option.rel_refl)

lemma heap_data_trans: "heap_data h2 h1 \<Longrightarrow> heap_data h1 h0 \<Longrightarrow> heap_data h2 h0"
  unfolding heap_data_def option_rel_Some1
  by (metis (mono_tags, lifting) data_eq_trans option.rel_sel)

lemma heap_quiet_refl [simp]: "heap_quiet h h"
  by (simp add: heap_quiet_def)

lemma heap_quiet_trans: "heap_quiet h2 h1 \<Longrightarrow> heap_quiet h1 h0 \<Longrightarrow> heap_quiet h2 h0"
  by (auto simp: heap_quiet_def intro: heap_data_trans)

lemma heap_data_upd [simp]:
  "h a = Some n \<Longrightarrow> data_eq n' n \<Longrightarrow> heap_data h h0 \<Longrightarrow> heap_data (h(a \<mapsto> n')) h0"
  by (erule heap_data_trans [rotated]) (simp add: heap_data_def option.rel_refl)

lemma heap_quiet_upd:
  "h a = Some n \<Longrightarrow> data_eq n' n \<Longrightarrow> avl_parent n' = avl_parent n \<Longrightarrow> avl_left n' = avl_left n \<Longrightarrow>
   avl_right n' = avl_right n \<Longrightarrow> balance n' = balance n \<Longrightarrow> heap_quiet (h(a \<mapsto> n')) h"
  by (auto simp: heap_quiet_def links_def bal_def)

lemma heap_data_hkey: "heap_data h' h \<Longrightarrow> hkey h' = hkey h"
proof
  fix a assume "heap_data h' h"
  then have "rel_option data_eq (h' a) (h a)" by (simp add: heap_data_def)
  then show "hkey h' a = hkey h a" by (cases "h a"; cases "h' a") (auto simp: hkey_def data_eq_def)
qed

lemma heap_data_wf:
  assumes "heap_data h' h" "wf_node (the (h a))" shows "wf_node (the (h' a))"
proof -
  have "rel_option data_eq (h' a) (h a)" using assms(1) by (simp add: heap_data_def)
  with assms(2) show ?thesis by (cases "h a"; cases "h' a") (auto simp: data_eq_def)
qed

lemma heap_data_dom: "heap_data h' h \<Longrightarrow> h a = None \<longleftrightarrow> h' a = None"
  using rel_option_None1 by (auto simp: heap_data_def) (metis option.rel_sel)+

section \<open>Search trees\<close>

definition sorted_keys :: "lvheap \<Rightarrow> nat list \<Rightarrow> bool" where
  "sorted_keys h xs \<longleftrightarrow> sorted_wrt (<) (map (hkey h) xs)"

definition search_tree :: "lvheap \<Rightarrow> nat tree \<Rightarrow> bool" where
  "search_tree h t \<longleftrightarrow> is_tree h None t \<and> sorted_keys h (inorder t) \<and> (\<forall>a \<in> set_tree t. wf_node (the (h a)))"

lemma sorted_keys_append:
  "sorted_keys h (xs @ ys) \<longleftrightarrow>
   sorted_keys h xs \<and> sorted_keys h ys \<and> (\<forall>x \<in> set xs. \<forall>y \<in> set ys. hkey h x < hkey h y)"
  by (simp add: sorted_keys_def sorted_wrt_append)

lemma sorted_keys_Cons: "sorted_keys h (x # ys) \<longleftrightarrow> sorted_keys h ys \<and> (\<forall>y \<in> set ys. hkey h x < hkey h y)"
  by (auto simp: sorted_keys_def)

lemma sorted_keys_Nil [simp]: "sorted_keys h []"
  by (simp add: sorted_keys_def)

lemma sorted_keys_distinct: "sorted_keys h xs \<Longrightarrow> distinct xs"
  by (induction xs) (auto simp: sorted_keys_Cons)

lemma search_tree_distinct: "search_tree h t \<Longrightarrow> distinct (inorder t)"
  by (auto simp: search_tree_def dest: sorted_keys_distinct)

lemma search_tree_quiet: "heap_quiet h' h \<Longrightarrow> search_tree h t \<Longrightarrow> search_tree h' t"
  using heap_data_hkey [of h' h] heap_data_wf [of h' h] is_tree_cong [of t h' h None]
  by (auto simp: search_tree_def heap_quiet_def sorted_keys_def)

text \<open>All keys left of a position are below \<open>K\<close>, all keys right of it above.\<close>

definition fits :: "lvheap \<Rightarrow> frame list \<Rightarrow> skey \<Rightarrow> bool" where
  "fits h cs K \<longleftrightarrow> (\<forall>x \<in> set (lefts cs). hkey h x < K) \<and> (\<forall>x \<in> set (rights cs). K < hkey h x)"

lemma fits_Nil [simp]: "fits h [] K"
  by (simp add: fits_def)

lemma fits_quiet: "heap_data h' h \<Longrightarrow> fits h' cs K = fits h cs K"
  by (simp add: fits_def heap_data_hkey)

lemma fits_step:
  assumes "search_tree h (plug (Node l a r) cs)" "fits h cs K" "hkey h a \<noteq> K" "L \<longleftrightarrow> K < hkey h a"
  shows "fits h ((L, a, (if L then r else l)) # cs) K"
proof -
  have s: "\<forall>x \<in> set_tree l. hkey h x < hkey h a" "\<forall>x \<in> set_tree r. hkey h a < hkey h x"
    using assms(1) by (auto simp: search_tree_def inorder_plug sorted_keys_append sorted_keys_Cons)
  from s assms(2-) show ?thesis by (auto simp: fits_def)
qed

text \<open>The outcome of a search for \<open>K\<close>: the position of the node with that key, or the gap where it belongs.\<close>

definition found_at :: "lvheap \<Rightarrow> nat tree \<Rightarrow> skey \<Rightarrow> nat \<Rightarrow> bool" where
  "found_at h t K b \<longleftrightarrow> hkey h b = K \<and> (\<exists>l r cs. t = plug (Node l b r) cs \<and> dir_ok h cs)"

definition gap_at :: "lvheap \<Rightarrow> nat tree \<Rightarrow> skey \<Rightarrow> nat \<Rightarrow> bool" where
  "gap_at h t K b \<longleftrightarrow> (\<exists>L s cs. t = plug Leaf ((L, b, s) # cs) \<and> dir_ok h ((L, b, s) # cs) \<and>
     fits h ((L, b, s) # cs) K)"

text \<open>
  The clue of a tree: the node last looked up is a node of the tree, the descent directions above it
  point to it, and where it has no right (left) child, \<open>lastNodeMax\<close> (\<open>lastNodeMin\<close>) is its
  successor (predecessor).
\<close>

definition clue_at :: "lvheap \<Rightarrow> nat tree \<Rightarrow> nat \<Rightarrow> nptr \<Rightarrow> nptr \<Rightarrow> bool" where
  "clue_at h t b mn mx \<longleftrightarrow> (\<exists>l r cs. t = plug (Node l b r) cs \<and> dir_ok h cs \<and>
     (l = Leaf \<longrightarrow> mn = ctx_min cs) \<and> (r = Leaf \<longrightarrow> mx = ctx_max cs))"

definition clue_ok :: "lvheap \<Rightarrow> lvTree \<Rightarrow> nat tree \<Rightarrow> bool" where
  "clue_ok h lvt t \<longleftrightarrow>
    (case lastNodeLookedUp lvt of None \<Rightarrow> True | Some b \<Rightarrow> clue_at h t b (lastNodeMin lvt) (lastNodeMax lvt))"

section \<open>The traversal\<close>

lemma same_node_data_eq: "same_node n' n \<Longrightarrow> (wf_node n \<Longrightarrow> wf_node n') \<Longrightarrow> data_eq n' n"
  by (simp add: same_node_def data_eq_def)

lemma node_upd_data [simp]:
  "node_key (n\<lparr>descent_dir := x\<rparr>) = node_key n" "wf_node (n\<lparr>descent_dir := x\<rparr>) = wf_node n"
  "node_key (n\<lparr>balance := y\<rparr>) = node_key n" "wf_node (n\<lparr>balance := y\<rparr>) = wf_node n"
  "node_key (n\<lparr>avl_left := p\<rparr>) = node_key n" "wf_node (n\<lparr>avl_left := p\<rparr>) = wf_node n"
  "node_key (n\<lparr>avl_right := p\<rparr>) = node_key n" "wf_node (n\<lparr>avl_right := p\<rparr>) = wf_node n"
  "node_key (n\<lparr>avl_parent := p\<rparr>) = node_key n" "wf_node (n\<lparr>avl_parent := p\<rparr>) = wf_node n"
  by (simp_all add: node_key_def node_num_def wf_node_def conv_ok_def)

context lv_key_cmp
begin

lemma cmp_at_quiet:
  assumes "valid k" "h a = Some n" "wf_node n"
  shows "cmp_at (cmp k) h (Some a) = Some (fst (cmp k n), h(a \<mapsto> snd (cmp k n)))"
    and "heap_quiet (h(a \<mapsto> snd (cmp k n))) h" "ddir (h(a \<mapsto> snd (cmp k n))) = ddir h"
proof -
  note s = cmp_same [OF assms(1,3)]
  show "cmp_at (cmp k) h (Some a) = Some (fst (cmp k n), h(a \<mapsto> snd (cmp k n)))"
    using assms(2) by (simp add: cmp_at_def)
  show "heap_quiet (h(a \<mapsto> snd (cmp k n))) h"
    using assms s cmp_wf [OF assms(1,3)]
    by (intro heap_quiet_upd same_node_data_eq) (auto simp: same_node_def)
  show "ddir (h(a \<mapsto> snd (cmp k n))) = ddir h"
    using assms(2) s by (auto simp: ddir_def same_node_def)
qed

text \<open>One step of the traversal: the node compared, its direction set.\<close>

lemma visit_quiet:
  assumes "valid k" "h a = Some n" "wf_node n"
  shows "heap_quiet (h(a \<mapsto> (snd (cmp k n))\<lparr>descent_dir := d\<rparr>)) h"
  using assms cmp_same [OF assms(1,3)] cmp_wf [OF assms(1,3)]
  by (intro heap_quiet_upd) (auto simp: same_node_def data_eq_def)

lemma lookup_loop_ok:
  assumes "valid k" "t = plug t0 cs" "t0 \<noteq> Leaf" "search_tree h t" "dir_ok h cs" "fits h cs (key_abs k)"
  shows "\<exists>node par' b mn mx h'.
    lookup_loop (cmp k) h (rootp t0) par (ctx_min cs) (ctx_max cs) = Some (node, par', mn, mx, Some b, h') \<and>
    heap_quiet h' h \<and> (\<forall>a. a \<notin> set_tree t0 \<longrightarrow> h' a = h a) \<and> clue_at h' t b mn mx \<and>
    (case node of Some a \<Rightarrow> a = b \<and> found_at h' t (key_abs k) b
     | None \<Rightarrow> par' = Some b \<and> gap_at h' t (key_abs k) b)"
  using assms(2-)
proof (induction t0 arbitrary: h cs par)
  case (Node l a r)
  have a: "a \<in> set_tree t" using Node.prems by (simp add: set_tree_plug)
  then obtain n where n: "h a = Some n" "wf_node n"
    using Node.prems is_tree_dom [of h None t a] by (auto simp: search_tree_def)
  have lk: "avl_left n = rootp l" "avl_right n = rootp r"
    using Node.prems n by (auto simp: search_tree_def is_tree_plug)
  note cq = cmp_at_quiet [of k h a n, OF assms(1) n]
  let ?c = "fst (cmp k n)" and ?n' = "snd (cmp k n)"
  have lk': "avl_left ?n' = rootp l" "avl_right ?n' = rootp r"
    using cmp_same [OF assms(1) n(2)] lk by (simp_all add: same_node_def)
  have hk: "hkey h a = node_key n" using n by (simp add: hkey_def)
  have dj: "set_tree (Node l a r) \<inter> ctx_set cs = {}"
    using search_tree_distinct [OF Node.prems(3)] Node.prems(1) by (simp add: distinct_plug)
  show ?case
  proof (cases "?c = 0")
    case True
    let ?h = "h(a \<mapsto> ?n')"
    have d: "dir_ok ?h cs" using Node.prems(4) dir_ok_cong [of cs ?h h] cq(3) by simp
    have "found_at ?h t (key_abs k) a"
      using True cmp_eq [OF assms(1) n(2)] hk d Node.prems(1) heap_data_hkey [of ?h h] cq(2)
      by (auto simp: found_at_def heap_quiet_def)
    moreover have "clue_at ?h t a (ctx_min cs) (ctx_max cs)"
      using d Node.prems(1) by (auto simp: clue_at_def)
    ultimately show ?thesis
      by (subst lookup_loop.simps) (use True cq in \<open>auto intro!: exI [of _ ?h]\<close>)
  next
    case False
    define L where "L \<longleftrightarrow> ?c < 0"
    define sub sib where "sub = (if L then l else r)" and "sib = (if L then r else l)"
    define h2 where "h2 = h(a \<mapsto> ?n'\<lparr>descent_dir := dirv L\<rparr>)"
    have q: "heap_quiet h2 h" unfolding h2_def by (rule visit_quiet [of k h a n, OF assms(1) n])
    have t: "t = plug sub ((L, a, sib) # cs)" using Node.prems(1) by (simp add: sub_def sib_def)
    have "fits h ((L, a, sib) # cs) (key_abs k)"
      unfolding sib_def using Node.prems cmp_eq [OF assms(1) n(2)] cmp_less [OF assms(1) n(2)] hk False
      by (intro fits_step) (auto simp: L_def)
    then have f: "fits h2 ((L, a, sib) # cs) (key_abs k)"
      using q fits_quiet [of h2 h] by (simp add: heap_quiet_def)
    have "dir_ok h2 cs" using Node.prems(4) dj by (simp add: h2_def)
    then have d: "dir_ok h2 ((L, a, sib) # cs)" by (simp add: h2_def ddir_def)
    have st: "search_tree h2 t" using q Node.prems(3) by (rule search_tree_quiet)
    have unf: "lookup_loop (cmp k) h (Some a) par (ctx_min cs) (ctx_max cs) =
      (if sub = Leaf then Some (None, Some a, ctx_min cs, ctx_max cs, Some a, h2)
       else lookup_loop (cmp k) h2 (rootp sub) (Some a) (ctx_min ((L, a, sib) # cs)) (ctx_max ((L, a, sib) # cs)))"
      by (subst lookup_loop.simps) (use False cq(1) lk' in \<open>auto simp: L_def sub_def h2_def Let_def dirv_def\<close>)
    show ?thesis
    proof (cases "sub = Leaf")
      case True
      have "gap_at h2 t (key_abs k) a" unfolding gap_at_def using t d f True by blast
      moreover have "clue_at h2 t a (ctx_min cs) (ctx_max cs)"
        using Node.prems(1) d by (auto simp: clue_at_def)
      ultimately show ?thesis
        using True unf q by (auto intro!: exI [of _ h2] simp: h2_def)
    next
      case False
      have IH: "\<exists>node par' b mn mx h'.
          lookup_loop (cmp k) h2 (rootp sub) (Some a) (ctx_min ((L, a, sib) # cs)) (ctx_max ((L, a, sib) # cs))
            = Some (node, par', mn, mx, Some b, h') \<and>
          heap_quiet h' h2 \<and> (\<forall>a. a \<notin> set_tree sub \<longrightarrow> h' a = h2 a) \<and> clue_at h' t b mn mx \<and>
          (case node of Some a \<Rightarrow> a = b \<and> found_at h' t (key_abs k) b
           | None \<Rightarrow> par' = Some b \<and> gap_at h' t (key_abs k) b)"
        using Node.IH(1) [of "(L, a, sib) # cs" h2 "Some a"] Node.IH(2) [of "(L, a, sib) # cs" h2 "Some a"]
          t False st d f by (cases L) (simp_all add: sub_def sib_def)
      then obtain node par' b mn mx h' where r:
        "lookup_loop (cmp k) h2 (rootp sub) (Some a) (ctx_min ((L, a, sib) # cs)) (ctx_max ((L, a, sib) # cs))
            = Some (node, par', mn, mx, Some b, h')" "heap_quiet h' h2"
        "\<forall>a. a \<notin> set_tree sub \<longrightarrow> h' a = h2 a" "clue_at h' t b mn mx"
        "case node of Some a \<Rightarrow> a = b \<and> found_at h' t (key_abs k) b
           | None \<Rightarrow> par' = Some b \<and> gap_at h' t (key_abs k) b" by blast
      have "heap_quiet h' h" using r(2) q by (rule heap_quiet_trans)
      moreover have "\<forall>x. x \<notin> set_tree (Node l a r) \<longrightarrow> h' x = h x"
        using r(3) by (auto simp: sub_def h2_def)
      ultimately show ?thesis using unf False r by (intro exI conjI) auto
    qed
  qed
qed simp

end

section \<open>The clue\<close>

text \<open>The two branches of the clue check are one function of the side.\<close>

definition clue_side ::
  "(lvTreeNode \<Rightarrow> int \<times> lvTreeNode) \<Rightarrow> lvheap \<Rightarrow> bool \<Rightarrow> nptr \<Rightarrow> nptr \<Rightarrow> nptr \<Rightarrow>
     (nptr \<times> nptr \<times> lvheap + lvheap) option" where
  "clue_side cmp h L tmpNode nb lookupParent =
    (let miss = (\<lambda>h. do { h \<leftarrow> upd h tmpNode (\<lambda>n. n\<lparr>descent_dir := dirv L\<rparr>); Some (Inl (None, tmpNode, h)) }) in
     if nb = None then miss h
     else do {
       (c, h) \<leftarrow> cmp_at cmp h nb;
       if c = 0 then Some (Inl (nb, lookupParent, h))
       else if (if L then 0 < c else c < 0) then miss h else Some (Inr h)
     })"

lemma lookup_clue_eq:
  "lookup_clue cmp h lvt lp =
    (let tmpNode = lastNodeLookedUp lvt in
     if tmpNode = None then Some (Inr h)
     else do {
       (c, h) \<leftarrow> cmp_at cmp h tmpNode;
       t \<leftarrow> rd h tmpNode;
       if c = 0 then Some (Inl (tmpNode, lp, h))
       else
         let L = (c < 0) in
         if (if L then avl_left t else avl_right t) = None
         then clue_side cmp h L tmpNode (if L then lastNodeMin lvt else lastNodeMax lvt) lp
         else Some (Inr h)
     })"
  unfolding lookup_clue_def clue_side_def Let_def
  by (intro if_cong refl Option.bind_cong) (auto split: prod.splits intro!: Option.bind_cong)

definition nbr :: "bool \<Rightarrow> frame list \<Rightarrow> nptr" where
  "nbr L cs = (if L then ctx_min cs else ctx_max cs)"

lemma nbr_split:
  "nbr L cs = Some m \<Longrightarrow> \<exists>cs1 s cs2. cs = cs1 @ (\<not> L, m, s) # cs2"
proof (induction cs rule: rights.induct)
  case (2 L' a s cs)
  show ?case
  proof (cases "L' = L")
    case True
    with 2 obtain cs1 s' cs2 where "cs = cs1 @ (\<not> L, m, s') # cs2"
      by (auto simp: nbr_def split: if_splits)
    with True show ?thesis by (intro exI [of _ "(L', a, s) # cs1"]) auto
  next
    case False
    with "2.prems" show ?thesis by (intro exI [of _ "[]"]) (auto simp: nbr_def split: if_splits)
  qed
qed (simp add: nbr_def split: if_splits)

lemma nbr_position:
  assumes "nbr L cs = Some m" "dir_ok h cs"
  shows "\<exists>l r cs'. plug t0 cs = plug (Node l m r) cs' \<and> dir_ok h cs'"
proof -
  obtain cs1 s cs2 where cs: "cs = cs1 @ (\<not> L, m, s) # cs2" using nbr_split [OF assms(1)] by blast
  then have "plug t0 cs = plug (frm (\<not> L, m, s) (plug t0 cs1)) cs2" by (simp add: plug_append)
  with assms(2) cs show ?thesis by (cases L) auto
qed

text \<open>Between a node without child on one side and its neighbour there is nothing.\<close>

lemma clue_gap:
  assumes "search_tree h (plug (Node l b r) cs)" "hkey h b \<noteq> K" "L \<longleftrightarrow> K < hkey h b"
    "(if L then l else r) = Leaf"
    "\<And>m. nbr L cs = Some m \<Longrightarrow> if L then hkey h m < K else K < hkey h m"
  shows "fits h ((L, b, (if L then r else l)) # cs) K"
proof (cases L)
  case True
  have "\<forall>x \<in> set (lefts cs). hkey h x < K"
  proof (cases "lefts cs" rule: rev_cases)
    case (snoc xs m)
    then have "hkey h m < K" using assms(5) [of m] True by (simp add: nbr_def ctx_min_lefts)
    moreover have "sorted_keys h (xs @ [m])"
      using assms(1) snoc by (auto simp: search_tree_def inorder_plug sorted_keys_append sorted_keys_Cons)
    ultimately show ?thesis using snoc by (auto simp: sorted_keys_append)
  qed simp
  moreover have "\<forall>x \<in> set_tree r \<union> set (rights cs). hkey h b < hkey h x"
    using assms(1) by (auto simp: search_tree_def inorder_plug sorted_keys_append sorted_keys_Cons)
  ultimately show ?thesis using assms(3) True by (auto simp: fits_def intro: less_trans)
next
  case False
  have "\<forall>x \<in> set (rights cs). K < hkey h x"
  proof (cases "rights cs")
    case (Cons m xs)
    then have "K < hkey h m" using assms(5) [of m] False by (simp add: nbr_def ctx_max_rights)
    moreover have "sorted_keys h (m # xs)"
      using assms(1) Cons by (auto simp: search_tree_def inorder_plug sorted_keys_append sorted_keys_Cons)
    ultimately show ?thesis using Cons by (auto simp: sorted_keys_Cons)
  qed simp
  moreover have "hkey h b < K" using assms(2,3) False by auto
  moreover have "\<forall>x \<in> set (lefts cs) \<union> set_tree l. hkey h x < hkey h b"
    using assms(1) by (auto simp: search_tree_def inorder_plug sorted_keys_append sorted_keys_Cons)
  ultimately show ?thesis using False by (auto simp: fits_def intro: less_trans)
qed

lemma clue_at_dirs:
  assumes "clue_at h t b mn mx" "distinct (inorder t)" "\<And>a. a \<noteq> b \<Longrightarrow> ddir h' a = ddir h a"
  shows "clue_at h' t b mn mx"
proof -
  obtain l r cs where c: "t = plug (Node l b r) cs" "dir_ok h cs"
    "l = Leaf \<longrightarrow> mn = ctx_min cs" "r = Leaf \<longrightarrow> mx = ctx_max cs"
    using assms(1) by (auto simp: clue_at_def)
  then have "b \<notin> ctx_set cs" using assms(2) by (auto simp: distinct_plug)
  with assms(3) have "dir_ok h' cs = dir_ok h cs" by (intro dir_ok_cong) metis
  with c show ?thesis by (auto simp: clue_at_def)
qed

context lv_key_cmp
begin

text \<open>What the clue check leaves: its answer is right, or a traversal is still to come.\<close>

definition clue_post :: "mval \<Rightarrow> lvheap \<Rightarrow> nat tree \<Rightarrow> nat \<Rightarrow> nptr \<times> nptr \<times> lvheap + lvheap \<Rightarrow> bool" where
  "clue_post k h t b r =
    (case r of
       Inl (Some a, par, h') \<Rightarrow> heap_quiet h' h \<and> (\<forall>x. x \<notin> set_tree t \<longrightarrow> h' x = h x) \<and>
         (\<forall>x. x \<noteq> b \<longrightarrow> ddir h' x = ddir h x) \<and> found_at h' t (key_abs k) a
     | Inl (None, par, h') \<Rightarrow> heap_quiet h' h \<and> (\<forall>x. x \<notin> set_tree t \<longrightarrow> h' x = h x) \<and>
         (\<forall>x. x \<noteq> b \<longrightarrow> ddir h' x = ddir h x) \<and> par = Some b \<and> gap_at h' t (key_abs k) b
     | Inr h' \<Rightarrow> heap_quiet h' h \<and> (\<forall>x. x \<notin> set_tree t \<longrightarrow> h' x = h x) \<and>
         (\<forall>x. x \<noteq> b \<longrightarrow> ddir h' x = ddir h x))"

lemma clue_miss:
  assumes t: "t = plug (Node l b r) cs" and st: "search_tree h t" and d: "dir_ok h cs"
    and f: "fits h ((L, b, (if L then r else l)) # cs) (key_abs k)" and lf: "(if L then l else r) = Leaf"
    and n: "h b = Some n" and h2: "h2 = h(b \<mapsto> n\<lparr>descent_dir := dirv L\<rparr>)"
  shows "heap_quiet h2 h" "\<forall>x. x \<noteq> b \<longrightarrow> ddir h2 x = ddir h x" "\<forall>x. x \<noteq> b \<longrightarrow> h2 x = h x"
    "gap_at h2 t (key_abs k) b"
proof -
  show q: "heap_quiet h2 h" unfolding h2 using n by (intro heap_quiet_upd) (auto simp: data_eq_def)
  show "\<forall>x. x \<noteq> b \<longrightarrow> ddir h2 x = ddir h x" "\<forall>x. x \<noteq> b \<longrightarrow> h2 x = h x" by (simp_all add: h2 ddir_def)
  have "b \<notin> ctx_set cs" using search_tree_distinct [OF st] t by (auto simp: distinct_plug)
  then have "dir_ok h2 ((L, b, (if L then r else l)) # cs)" using d by (simp add: h2 ddir_def)
  moreover have "fits h2 ((L, b, (if L then r else l)) # cs) (key_abs k)"
    using f q fits_quiet [of h2 h] by (simp add: heap_quiet_def)
  moreover have "t = plug Leaf ((L, b, (if L then r else l)) # cs)" using t lf by (cases L) simp_all
  ultimately show "gap_at h2 t (key_abs k) b" unfolding gap_at_def by blast
qed

lemma clue_side_ok:
  assumes k: "valid k" and t: "t = plug (Node l b r) cs" and st: "search_tree h t" and d: "dir_ok h cs"
    and ne: "hkey h b \<noteq> key_abs k" and L: "L \<longleftrightarrow> key_abs k < hkey h b" and lf: "(if L then l else r) = Leaf"
  shows "\<exists>res. clue_side (cmp k) h L (Some b) (nbr L cs) lp = Some res \<and> clue_post k h t b res"
proof (cases "nbr L cs")
  case None
  obtain n where n: "h b = Some n" using is_tree_dom [of h None t b] st t by (auto simp: search_tree_def set_tree_plug)
  have "fits h ((L, b, (if L then r else l)) # cs) (key_abs k)"
    using None st t by (intro clue_gap [OF _ ne L lf]) auto
  from clue_miss [OF t st d this lf n refl] None n t show ?thesis
    by (auto simp: clue_side_def clue_post_def set_tree_plug)
next
  case (Some m)
  have mm: "m \<in> ctx_set cs" using nbr_split [OF Some] by auto
  then have mb: "m \<noteq> b" "m \<in> set_tree t"
    using search_tree_distinct [OF st] t by (auto simp: distinct_plug set_tree_plug)
  then obtain n where n: "h m = Some n" "wf_node n"
    using st is_tree_dom [of h None t m] by (auto simp: search_tree_def)
  note cq = cmp_at_quiet [of k h m n, OF k n]
  let ?h = "h(m \<mapsto> snd (cmp k n))"
  have hk: "hkey h m = node_key n" "hkey ?h = hkey h"
    using n cq(2) heap_data_hkey [of ?h h] by (simp_all add: hkey_def heap_quiet_def)
  have fr: "\<forall>x. x \<notin> set_tree t \<longrightarrow> ?h x = h x" using mb by auto
  have d': "dir_ok ?h cs" using d dir_ok_cong [of cs ?h h] cq(3) by simp
  have st': "search_tree ?h t" using cq(2) st by (rule search_tree_quiet)
  consider "fst (cmp k n) = 0" | "fst (cmp k n) \<noteq> 0" "\<not> (if L then 0 < fst (cmp k n) else fst (cmp k n) < 0)"
    | "fst (cmp k n) \<noteq> 0" "if L then 0 < fst (cmp k n) else fst (cmp k n) < 0" by blast
  then show ?thesis
  proof cases
    case 1
    then have "found_at ?h t (key_abs k) m"
      using nbr_position [OF Some d', of "Node l b r"] cmp_eq [OF k n(2)] hk t by (simp add: found_at_def)
    with 1 Some cq fr show ?thesis by (auto simp: clue_side_def clue_post_def)
  next
    case 2
    with Some cq fr show ?thesis by (auto simp: clue_side_def clue_post_def)
  next
    case 3
    have "fits ?h ((L, b, (if L then r else l)) # cs) (key_abs k)"
      using Some st' t ne L lf 3 cmp_less [OF k n(2)] cmp_greater [OF k n(2)] hk
      by (intro clue_gap) (auto split: if_splits)
    note cm = clue_miss [OF t st' d' this lf]
    obtain nb where nb: "?h b = Some nb"
      using is_tree_dom [of ?h None t b] st' t by (auto simp: search_tree_def set_tree_plug)
    let ?h2 = "?h(b \<mapsto> nb\<lparr>descent_dir := dirv L\<rparr>)"
    have "clue_side (cmp k) h L (Some b) (nbr L cs) lp = Some (Inl (None, Some b, ?h2))"
      using 3 Some cq nb by (simp add: clue_side_def)
    moreover have "heap_quiet ?h2 h" using cm(1) [OF nb refl] cq(2) by (rule heap_quiet_trans)
    moreover have "\<forall>x. x \<noteq> b \<longrightarrow> ddir ?h2 x = ddir h x" using cm(2) [OF nb refl] cq(3) by simp
    moreover have "\<forall>x. x \<notin> set_tree t \<longrightarrow> ?h2 x = h x" using fr t by (auto simp: set_tree_plug)
    moreover have "gap_at ?h2 t (key_abs k) b" using cm(4) [OF nb refl] .
    ultimately show ?thesis by (simp add: clue_post_def)
  qed
qed

lemma lookup_clue_ok:
  assumes k: "valid k" and st: "search_tree h t" and b: "lastNodeLookedUp lvt = Some b"
    and cl: "clue_at h t b (lastNodeMin lvt) (lastNodeMax lvt)"
  shows "\<exists>res. lookup_clue (cmp k) h lvt lp = Some res \<and> clue_post k h t b res"
proof -
  obtain l r cs where t: "t = plug (Node l b r) cs" and d: "dir_ok h cs"
    and mn: "l = Leaf \<longrightarrow> lastNodeMin lvt = ctx_min cs" and mx: "r = Leaf \<longrightarrow> lastNodeMax lvt = ctx_max cs"
    using cl by (auto simp: clue_at_def)
  have bt: "b \<in> set_tree t" using t by (simp add: set_tree_plug)
  then obtain n where n: "h b = Some n" "wf_node n"
    using st is_tree_dom [of h None t b] by (auto simp: search_tree_def)
  have lk: "avl_left n = rootp l" "avl_right n = rootp r"
    using st n t by (auto simp: search_tree_def is_tree_plug)
  note cq = cmp_at_quiet [of k h b n, OF k n]
  let ?h = "h(b \<mapsto> snd (cmp k n))" and ?c = "fst (cmp k n)"
  have lk': "avl_left (snd (cmp k n)) = rootp l" "avl_right (snd (cmp k n)) = rootp r"
    using cmp_same [OF k n(2)] lk by (simp_all add: same_node_def)
  have hk: "hkey h b = node_key n" "hkey ?h = hkey h"
    using n cq(2) heap_data_hkey [of ?h h] by (simp_all add: hkey_def heap_quiet_def)
  have fr: "\<forall>x. x \<notin> set_tree t \<longrightarrow> ?h x = h x" using bt by auto
  have d': "dir_ok ?h cs" using d dir_ok_cong [of cs ?h h] cq(3) by simp
  have st': "search_tree ?h t" using cq(2) st by (rule search_tree_quiet)
  show ?thesis
  proof (cases "?c = 0")
    case True
    then have "found_at ?h t (key_abs k) b"
      unfolding found_at_def using cmp_eq [OF k n(2)] hk t d' by auto
    with True b cq fr show ?thesis by (auto simp: lookup_clue_eq clue_post_def)
  next
    case False
    define L where "L \<longleftrightarrow> ?c < 0"
    show ?thesis
    proof (cases "(if L then l else r) = Leaf")
      case True
      have "\<exists>res. clue_side (cmp k) ?h L (Some b) (nbr L cs) lp = Some res \<and> clue_post k ?h t b res"
        using True False hk cmp_eq [OF k n(2)] cmp_less [OF k n(2)]
        by (intro clue_side_ok [OF k t st' d']) (auto simp: L_def)
      then obtain res where res: "clue_side (cmp k) ?h L (Some b) (nbr L cs) lp = Some res" "clue_post k ?h t b res"
        by blast
      have "clue_post k h t b res"
        using res(2) cq(2,3) fr heap_quiet_trans [OF _ cq(2)]
        by (auto simp: clue_post_def split: sum.splits option.splits)
      moreover have "lookup_clue (cmp k) h lvt lp = Some res"
        using b cq(1) False True lk' mn mx res(1)
        by (cases L) (simp_all add: lookup_clue_eq L_def nbr_def)
      ultimately show ?thesis by blast
    next
      case False
      then have "lookup_clue (cmp k) h lvt lp = Some (Inr ?h)"
        using b cq(1) \<open>?c \<noteq> 0\<close> lk' by (cases L) (simp_all add: lookup_clue_eq L_def)
      then show ?thesis using cq fr by (auto simp: clue_post_def)
    qed
  qed
qed

end

section \<open>Lookup\<close>

definition lv_search :: "lvheap \<Rightarrow> lvTree \<Rightarrow> nat tree \<Rightarrow> bool" where
  "lv_search h lvt t \<longleftrightarrow> search_tree h t \<and> avl_root lvt = rootp t \<and> clue_ok h lvt t"

text \<open>
  The promise of a lookup: the node with that key; or NULL with the parent below which it belongs,
  on the side of the parent's \<open>descent_dir\<close> (no parent when the tree is empty).
\<close>

definition lookup_post ::
  "skey \<Rightarrow> lvheap \<Rightarrow> lvTree \<Rightarrow> nat tree \<Rightarrow> nptr \<times> nptr \<times> lvheap \<times> lvTree \<Rightarrow> bool" where
  "lookup_post K h lvt t res =
    (case res of (node, par, h', lvt') \<Rightarrow>
       heap_quiet h' h \<and> (\<forall>x. x \<notin> set_tree t \<longrightarrow> h' x = h x) \<and> lv_search h' lvt' t \<and>
       avl_height lvt' = avl_height lvt \<and> lvt_addr lvt' = lvt_addr lvt \<and>
       (case node of Some b \<Rightarrow> found_at h' t K b
        | None \<Rightarrow> if t = Leaf then par = None
                  else \<exists>b. par = Some b \<and> lastNodeLookedUp lvt' = Some b \<and> gap_at h' t K b))"

lemma lookup_post_quiet:
  "heap_quiet h1 h \<Longrightarrow> \<forall>x. x \<notin> set_tree t \<longrightarrow> h1 x = h x \<Longrightarrow> lookup_post K h1 lvt t res \<Longrightarrow>
   lookup_post K h lvt t res"
  by (auto simp: lookup_post_def intro: heap_quiet_trans split: prod.splits option.splits)

context lv_key_cmp
begin

lemma traverse_ok:
  assumes k: "valid k" and st: "search_tree h t" and rt: "avl_root lvt = rootp t" and ne: "t \<noteq> Leaf"
  shows "\<exists>node par mn mx clue h'.
    lookup_loop (cmp k) h (rootp t) (rootp t) None None = Some (node, par, mn, mx, clue, h') \<and>
    lookup_post (key_abs k) h lvt t
      (node, par, h', lvt\<lparr>lastNodeLookedUp := clue, lastNodeMin := mn, lastNodeMax := mx\<rparr>)"
proof -
  obtain node par' b mn mx h' where r:
    "lookup_loop (cmp k) h (rootp t) (rootp t) None None = Some (node, par', mn, mx, Some b, h')"
    "heap_quiet h' h" "\<forall>a. a \<notin> set_tree t \<longrightarrow> h' a = h a" "clue_at h' t b mn mx"
    "case node of Some a \<Rightarrow> a = b \<and> found_at h' t (key_abs k) b
     | None \<Rightarrow> par' = Some b \<and> gap_at h' t (key_abs k) b"
    using lookup_loop_ok [of k t t "[]" h "rootp t"] k st ne by auto
  have "lv_search h' (lvt\<lparr>lastNodeLookedUp := Some b, lastNodeMin := mn, lastNodeMax := mx\<rparr>) t"
    using r(2,4) st rt search_tree_quiet by (auto simp: lv_search_def clue_ok_def)
  with r ne show ?thesis by (intro exI conjI) (assumption, auto simp: lookup_post_def split: option.splits)
qed

theorem lookup_with_ok:
  assumes k: "valid k" and inv: "lv_search h lvt t"
  shows "\<exists>res. lookup_with (cmp k) h lvt lp = Some res \<and> lookup_post (key_abs k) h lvt t res"
proof -
  have st: "search_tree h t" and rt: "avl_root lvt = rootp t" and cl: "clue_ok h lvt t"
    using inv by (simp_all add: lv_search_def)
  have go: ?thesis if c: "lookup_clue (cmp k) h lvt lp = Some (Inr h1)" and q: "heap_quiet h1 h"
    and fr: "\<forall>x. x \<notin> set_tree t \<longrightarrow> h1 x = h x" and cl1: "clue_ok h1 lvt t" for h1
  proof (cases "t = Leaf")
    case True
    then show ?thesis using c q fr cl1 rt st search_tree_quiet [OF q st]
      by (simp add: lookup_with_def lookup_post_def lv_search_def)
  next
    case False
    obtain node par mn mx clue h' where
      r: "lookup_loop (cmp k) h1 (rootp t) (rootp t) None None = Some (node, par, mn, mx, clue, h')"
        "lookup_post (key_abs k) h1 lvt t
          (node, par, h', lvt\<lparr>lastNodeLookedUp := clue, lastNodeMin := mn, lastNodeMax := mx\<rparr>)"
      using traverse_ok [OF k search_tree_quiet [OF q st] rt False] by blast
    from lookup_post_quiet [OF q fr r(2)] show ?thesis
      using c rt False r(1) by (simp add: lookup_with_def)
  qed
  show ?thesis
  proof (cases "lastNodeLookedUp lvt")
    case None
    then show ?thesis using cl by (intro go [of h]) (simp_all add: lookup_clue_def)
  next
    case (Some b)
    with cl have ca: "clue_at h t b (lastNodeMin lvt) (lastNodeMax lvt)" by (simp add: clue_ok_def)
    then have ne: "t \<noteq> Leaf" by (auto simp: clue_at_def)
    obtain res where res: "lookup_clue (cmp k) h lvt lp = Some res" "clue_post k h t b res"
      using lookup_clue_ok [OF k st Some ca] by blast
    have cl': "clue_ok h' lvt t" if "\<forall>x. x \<noteq> b \<longrightarrow> ddir h' x = ddir h x" for h'
      using clue_at_dirs [OF ca search_tree_distinct [OF st], of h'] that Some by (simp add: clue_ok_def)
    show ?thesis
    proof (cases res)
      case (Inr h1)
      with res cl' [of h1] show ?thesis by (intro go [of h1]) (auto simp: clue_post_def)
    next
      case (Inl r)
      obtain node par h1 where r: "r = (node, par, h1)" by (cases r) auto
      have "lookup_with (cmp k) h lvt lp = Some (node, par, h1, lvt)"
        using res(1) Inl r by (simp add: lookup_with_def)
      moreover have "lookup_post (key_abs k) h lvt t (node, par, h1, lvt)"
        using res(2) Inl r cl' [of h1] st rt Some ne search_tree_quiet [of h1 h t]
        by (auto simp: clue_post_def lookup_post_def lv_search_def split: option.splits)
      ultimately show ?thesis by blast
    qed
  qed
qed

end

theorem lookup_ok:
  assumes "lv_key k" "lv_search h lvt t"
  shows "\<exists>res. lvAvlTreeLookup h lvt k lp = Some res \<and> lookup_post (key_abs k) h lvt t res"
  using assms IntCmp.lookup_with_ok [of k h lvt t lp] NumCmp.lookup_with_ok [of k h lvt t lp]
    StrCmp.lookup_with_ok [of k h lvt t lp]
  by (auto simp: lv_key_def lvAvlTreeLookup_def int_key_def num_key_def str_key_def wf_int_def wf_flt_def
      lvAvlTreeLookupInt_def lvAvlTreeLookupNum_def lvAvlTreeLookupStr_def)

end
