(* ===== verification/LvAvl.thy ===== *)
theory LvAvl
  imports LvLookup
begin

text \<open>
  Balance of a subscript tree: the \<open>balance\<close> field of every node says which of its subtrees is
  higher, by one level at most.  The rotations keep the listing of the tree and restore the balance.
\<close>

section \<open>Balance in the store\<close>

definition bal_ok :: "int \<Rightarrow> nat \<Rightarrow> nat \<Rightarrow> bool" where
  "bal_ok b hl hr \<longleftrightarrow> (b = TREE_LEFT_HEAVY \<and> hl = hr + 1) \<or> (b = TREE_RIGHT_HEAVY \<and> hr = hl + 1) \<or>
     (b = TREE_BALANCED \<and> hl = hr)"

fun avl :: "lvheap \<Rightarrow> nat tree \<Rightarrow> bool" where
  "avl h Leaf = True"
| "avl h (Node l a r) = (bal_ok (bal h a) (height l) (height r) \<and> avl h l \<and> avl h r)"

fun avl_ctx :: "lvheap \<Rightarrow> frame list \<Rightarrow> nat \<Rightarrow> bool" where
  "avl_ctx h [] n = True"
| "avl_ctx h ((L, a, s) # cs) n =
    (bal_ok (bal h a) (if L then n else height s) (if L then height s else n) \<and> avl h s \<and>
     avl_ctx h cs (Suc (max n (height s))))"

lemma avl_plug: "avl h (plug t cs) \<longleftrightarrow> avl h t \<and> avl_ctx h cs (height t)"
  by (induction cs arbitrary: t rule: rights.induct) (auto simp: max.commute)

fun ctx_height :: "frame list \<Rightarrow> nat \<Rightarrow> nat" where
  "ctx_height [] n = n"
| "ctx_height ((L, a, s) # cs) n = ctx_height cs (Suc (max n (height s)))"

lemma height_plug: "height (plug t cs) = ctx_height cs (height t)"
  by (induction cs arbitrary: t rule: rights.induct) (auto simp: max.commute)

lemma avl_cong: "(\<And>a. a \<in> set_tree t \<Longrightarrow> bal h' a = bal h a) \<Longrightarrow> avl h' t = avl h t"
  by (induction t) auto

lemma avl_cong_out: "S \<inter> set_tree t = {} \<Longrightarrow> (\<And>a. a \<notin> S \<Longrightarrow> bal h' a = bal h a) \<Longrightarrow> avl h' t = avl h t"
  by (rule avl_cong) blast

lemma avl_ctx_cong: "(\<And>a. a \<in> ctx_set cs \<Longrightarrow> bal h' a = bal h a) \<Longrightarrow> avl_ctx h' cs n = avl_ctx h cs n"
proof (induction cs arbitrary: n rule: rights.induct)
  case (2 L a s cs)
  moreover have "avl h' s = avl h s" using "2.prems" by (intro avl_cong) auto
  ultimately show ?case by simp
qed simp

lemma avl_ctx_out:
  "S \<inter> ctx_set cs = {} \<Longrightarrow> (\<And>a. a \<notin> S \<Longrightarrow> bal h' a = bal h a) \<Longrightarrow> avl_ctx h' cs n = avl_ctx h cs n"
  by (rule avl_ctx_cong) blast

text \<open>The side constants of balance and of descent are the same numbers.\<close>

lemma tree_consts [simp]:
  "TREE_LEFT_HEAVY = TREE_DESCEND_LEFT" "TREE_RIGHT_HEAVY = TREE_DESCEND_RIGHT"
  "TREE_DESCEND_LEFT \<noteq> TREE_DESCEND_RIGHT" "TREE_DESCEND_RIGHT \<noteq> TREE_DESCEND_LEFT"
  "TREE_DESCEND_LEFT \<noteq> TREE_BALANCED" "TREE_DESCEND_RIGHT \<noteq> TREE_BALANCED"
  "TREE_BALANCED \<noteq> TREE_DESCEND_LEFT" "TREE_BALANCED \<noteq> TREE_DESCEND_RIGHT"
  "TREE_INVERT_BALANCE_FACTOR TREE_DESCEND_LEFT = TREE_DESCEND_RIGHT"
  "TREE_INVERT_BALANCE_FACTOR TREE_DESCEND_RIGHT = TREE_DESCEND_LEFT"
  by (simp_all add: TREE_INVERT_BALANCE_FACTOR_def tree_balance_invert_def mv_defs)

lemma dir_heavy [simp]:
  "TREE_DESCEND_LEFT = dirv L \<longleftrightarrow> L" "TREE_DESCEND_RIGHT = dirv L \<longleftrightarrow> \<not> L"
  "dirv L \<noteq> TREE_BALANCED" "TREE_BALANCED \<noteq> dirv L"
  "TREE_INVERT_BALANCE_FACTOR (dirv L) = dirv (\<not> L)" "dirv L = dirv L' \<longleftrightarrow> L = L'"
  by (cases L; cases L'; simp)+

lemma heavy_dirv: "(if L then TREE_LEFT_HEAVY else TREE_RIGHT_HEAVY) = dirv L"
  by (simp add: dirv_def)

lemma bal_ok_side:
  "bal_ok b (if L then m else n) (if L then n else m) \<longleftrightarrow>
   (b = dirv L \<and> m = n + 1) \<or> (b = dirv (\<not> L) \<and> n = m + 1) \<or> (b = TREE_BALANCED \<and> m = n)"
  by (cases L) (auto simp: bal_ok_def dirv_def mv_defs)

lemma avl_frm:
  "avl h (frm (L, a, s) t) \<longleftrightarrow>
   ((bal h a = dirv L \<and> height t = height s + 1) \<or> (bal h a = dirv (\<not> L) \<and> height s = height t + 1) \<or>
    (bal h a = TREE_BALANCED \<and> height t = height s)) \<and> avl h s \<and> avl h t"
  using bal_ok_side [of "bal h a" L "height t" "height s"] by (cases L) auto

lemma height_frm: "height (frm (L, a, s) t) = Suc (max (height t) (height s))"
  by (auto simp: max.commute)

lemma set_frm: "set_tree (frm (L, a, s) t) = insert a (set_tree s \<union> set_tree t)"
  by auto

lemma inorder_frm: "inorder (frm (L, a, s) t) = (if L then inorder t @ a # inorder s else inorder s @ a # inorder t)"
  by simp

lemma distinct_frm:
  "distinct (inorder (frm (L, a, s) t)) \<longleftrightarrow> distinct (inorder s) \<and> distinct (inorder t) \<and>
   a \<notin> set_tree s \<and> a \<notin> set_tree t \<and> set_tree s \<inter> set_tree t = {}"
  by auto

lemma is_tree_frm:
  "is_tree h par (frm (L, a, s) t) \<longleftrightarrow>
   (\<exists>n. h a = Some n \<and> avl_parent n = par \<and> avl_left n = (if L then rootp t else rootp s) \<and>
      avl_right n = (if L then rootp s else rootp t) \<and> is_tree h (Some a) s \<and> is_tree h (Some a) t)"
  by (auto split: option.splits)

lemma rootp_frm [simp]: "rootp (frm (L, a, s) t) = Some a"
  by simp

section \<open>Following the descent directions\<close>

fun reach :: "lvheap \<Rightarrow> nat tree \<Rightarrow> nat \<Rightarrow> bool" where
  "reach h Leaf w = False"
| "reach h (Node l a r) w \<longleftrightarrow> a = w \<or> ddir h a = TREE_DESCEND_LEFT \<and> reach h l w \<or>
     ddir h a = TREE_DESCEND_RIGHT \<and> reach h r w"

lemma reach_frm:
  "reach h (frm (L, a, s) t) w \<longleftrightarrow> a = w \<or> ddir h a = dirv L \<and> reach h t w \<or> ddir h a = dirv (\<not> L) \<and> reach h s w"
  by auto

lemma reach_cong: "(\<And>a. a \<in> set_tree t \<Longrightarrow> ddir h' a = ddir h a) \<Longrightarrow> reach h' t w = reach h t w"
  by (induction t) auto

lemma reach_plug: "dir_ok h cs \<Longrightarrow> reach h t w \<Longrightarrow> reach h (plug t cs) w"
proof (induction cs arbitrary: t rule: rights.induct)
  case (2 L a s cs)
  then show ?case using reach_frm [of h L a s t w] by simp
qed simp

lemma reach_position: "reach h t w \<longleftrightarrow> (\<exists>l r cs. t = plug (Node l w r) cs \<and> dir_ok h cs)"
proof
  show "reach h t w \<Longrightarrow> \<exists>l r cs. t = plug (Node l w r) cs \<and> dir_ok h cs"
  proof (induction t)
    case (Node l a r)
    consider "a = w" | "ddir h a = TREE_DESCEND_LEFT" "reach h l w" | "ddir h a = TREE_DESCEND_RIGHT" "reach h r w"
      using Node.prems by auto
    then show ?case
    proof cases
      case 1 then show ?thesis by (intro exI [of _ l] exI [of _ r] exI [of _ "[]"]) simp
    next
      case 2
      with Node obtain l' r' cs where "l = plug (Node l' w r') cs" "dir_ok h cs" by blast
      with 2 show ?thesis
        by (intro exI [of _ l'] exI [of _ r'] exI [of _ "cs @ [(True, a, r)]"]) (simp add: plug_append)
    next
      case 3
      with Node obtain l' r' cs where "r = plug (Node l' w r') cs" "dir_ok h cs" by blast
      with 3 show ?thesis
        by (intro exI [of _ l'] exI [of _ r'] exI [of _ "cs @ [(False, a, l)]"]) (simp add: plug_append)
    qed
  qed simp
  show "\<exists>l r cs. t = plug (Node l w r) cs \<and> dir_ok h cs \<Longrightarrow> reach h t w"
    by (auto intro: reach_plug)
qed

section \<open>Rotations\<close>

text \<open>
  What a rotation of the subtree \<open>t\<close> into \<open>t'\<close> under the parent \<open>par\<close> leaves, once the new root's
  parent link is set: the new shape, nothing outside the subtree changed, no direction and no data
  changed, and the balance of the nodes outside \<open>S\<close> is kept.
\<close>

definition rot_post :: "lvheap \<Rightarrow> lvheap \<Rightarrow> nptr \<Rightarrow> nat tree \<Rightarrow> nat tree \<Rightarrow> nat set \<Rightarrow> bool" where
  "rot_post h h' par t t' S \<longleftrightarrow> is_tree h' par t' \<and> heap_data h' h \<and> (\<forall>a. a \<notin> set_tree t \<longrightarrow> h' a = h a) \<and>
     (\<forall>a. ddir h' a = ddir h a) \<and> (\<forall>a. a \<notin> S \<longrightarrow> bal h' a = bal h a)"

lemma data_eq_links [simp]:
  "data_eq (n\<lparr>avl_left := p\<rparr>) m = data_eq n m" "data_eq (n\<lparr>avl_right := p\<rparr>) m = data_eq n m"
  "data_eq (n\<lparr>avl_parent := p\<rparr>) m = data_eq n m" "data_eq (n\<lparr>balance := b\<rparr>) m = data_eq n m"
  "data_eq (n\<lparr>descent_dir := d\<rparr>) m = data_eq n m"
  by (simp_all add: data_eq_def)

lemma tree_subst_parent:
  "is_tree h p (Node l b r) \<Longrightarrow> \<exists>n. h b = Some n"
  by (auto split: option.splits)

lemma view_upd [simp]:
  "ddir (h(a \<mapsto> n)) x = (if x = a then descent_dir n else ddir h x)"
  "bal (h(a \<mapsto> n)) x = (if x = a then balance n else bal h x)"
  by (simp_all add: ddir_def bal_def)

lemma single_rotation:
  assumes tr: "is_tree h par (frm (L, x, c) (frm (L, y, b) a))"
    and di: "distinct (inorder (frm (L, x, c) (frm (L, y, b) a)))"
  shows "\<exists>h1 n. lvAvlTreeSingleRotation h (Some x) (Some y) (dirv L) = Some (Some y, h1) \<and> h1 y = Some n \<and>
    rot_post h (h1(y \<mapsto> n\<lparr>avl_parent := par\<rparr>)) par (frm (L, x, c) (frm (L, y, b) a))
      (frm (\<not> L, y, a) (frm (L, x, c) b)) {x, y} \<and>
    bal h1 x = (if bal h y = TREE_BALANCED then bal h x else TREE_BALANCED) \<and>
    bal h1 y = (if bal h y = TREE_BALANCED then dirv (\<not> L) else TREE_BALANCED)"
proof -
  obtain nx where x: "h x = Some nx" "avl_parent nx = par" "avl_left nx = (if L then Some y else rootp c)"
    "avl_right nx = (if L then rootp c else Some y)" "is_tree h (Some x) c" "is_tree h (Some x) (frm (L, y, b) a)"
    using tr unfolding is_tree_frm by auto
  obtain ny where y: "h y = Some ny" "avl_parent ny = Some x" "avl_left ny = (if L then rootp a else rootp b)"
    "avl_right ny = (if L then rootp b else rootp a)" "is_tree h (Some y) b" "is_tree h (Some y) a"
    using x(6) unfolding is_tree_frm by auto
  have d: "x \<noteq> y" "x \<notin> set_tree a" "x \<notin> set_tree b" "x \<notin> set_tree c" "y \<notin> set_tree a" "y \<notin> set_tree b"
    "y \<notin> set_tree c" "set_tree a \<inter> set_tree b = {}" "set_tree a \<inter> set_tree c = {}" "set_tree b \<inter> set_tree c = {}"
    "distinct (inorder b)"
    using di unfolding distinct_frm set_frm by auto
  have by': "balance ny = bal h y" "descent_dir nx = ddir h x" "descent_dir ny = ddir h y"
    "balance nx = bal h x" using x y by (simp_all add: bal_def ddir_def)
  show ?thesis
  proof (cases b)
    case Leaf
    then show ?thesis using x y d by' unfolding lvAvlTreeSingleRotation_def Let_def rot_post_def
      by (cases L; cases "bal h y = TREE_BALANCED") simp_all
  next
    case (Node b1 z b2)
    then obtain nz where z: "h z = Some nz" "descent_dir nz = ddir h z" "balance nz = bal h z"
      using y(5) by (auto simp: ddir_def bal_def split: option.splits)
    show ?thesis using Node x y d by' z unfolding lvAvlTreeSingleRotation_def Let_def rot_post_def
      by (cases L; cases "bal h y = TREE_BALANCED") simp_all
  qed
qed

definition dbl_tree :: "bool \<Rightarrow> nat \<Rightarrow> nat tree \<Rightarrow> nat \<Rightarrow> nat tree \<Rightarrow> nat \<Rightarrow> nat tree \<Rightarrow> nat tree \<Rightarrow> nat tree" where
  "dbl_tree L y a z b x d c = (if L then Node (Node a y b) z (Node c x d) else Node (Node d x c) z (Node b y a))"

text \<open>\<open>a\<close> to \<open>d\<close> from the anchor's outer subtree to the sibling: the middle node \<open>z\<close> comes up.\<close>

lemma double_rotation:
  assumes tr: "is_tree h par (frm (L, x, d) (frm (\<not> L, y, a) (frm (L, z, c) b)))"
    and di: "distinct (inorder (frm (L, x, d) (frm (\<not> L, y, a) (frm (L, z, c) b))))"
  shows "\<exists>h1 n. lvAvlTreeDoubleRotation h (Some x) (Some y) (dirv L) = Some (Some z, h1) \<and> h1 z = Some n \<and>
    rot_post h (h1(z \<mapsto> n\<lparr>avl_parent := par\<rparr>)) par (frm (L, x, d) (frm (\<not> L, y, a) (frm (L, z, c) b)))
      (dbl_tree L y a z b x d c) {x, y, z} \<and>
    bal h1 x = (if bal h z = dirv L then dirv (\<not> L) else TREE_BALANCED) \<and>
    bal h1 y = (if bal h z = dirv L \<or> bal h z = TREE_BALANCED then TREE_BALANCED else dirv L) \<and>
    bal h1 z = TREE_BALANCED"
proof -
  obtain nx where x: "h x = Some nx" "avl_parent nx = par" "avl_left nx = (if L then Some y else rootp d)"
    "avl_right nx = (if L then rootp d else Some y)" "is_tree h (Some x) d"
    "is_tree h (Some x) (frm (\<not> L, y, a) (frm (L, z, c) b))"
    using tr unfolding is_tree_frm [of h par] by auto
  obtain ny where y: "h y = Some ny" "avl_parent ny = Some x" "avl_left ny = (if L then rootp a else Some z)"
    "avl_right ny = (if L then Some z else rootp a)" "is_tree h (Some y) a" "is_tree h (Some y) (frm (L, z, c) b)"
    using x(6) unfolding is_tree_frm [of h "Some x"] by auto
  obtain nz where z: "h z = Some nz" "avl_parent nz = Some y" "avl_left nz = (if L then rootp b else rootp c)"
    "avl_right nz = (if L then rootp c else rootp b)" "is_tree h (Some z) b" "is_tree h (Some z) c"
    using y(6) unfolding is_tree_frm by auto
  have ds: "x \<noteq> y" "x \<noteq> z" "y \<noteq> z" "x \<notin> set_tree a" "x \<notin> set_tree b" "x \<notin> set_tree c" "x \<notin> set_tree d"
    "y \<notin> set_tree a" "y \<notin> set_tree b" "y \<notin> set_tree c" "y \<notin> set_tree d"
    "z \<notin> set_tree a" "z \<notin> set_tree b" "z \<notin> set_tree c" "z \<notin> set_tree d"
    "set_tree a \<inter> set_tree b = {}" "set_tree a \<inter> set_tree c = {}" "set_tree b \<inter> set_tree c = {}"
    "set_tree b \<inter> set_tree d = {}" "set_tree c \<inter> set_tree d = {}" "distinct (inorder b)" "distinct (inorder c)"
    using di unfolding distinct_frm set_frm by auto
  have bz: "balance nz = bal h z" "descent_dir nx = ddir h x" "descent_dir ny = ddir h y" "descent_dir nz = ddir h z"
    using x y z by (simp_all add: bal_def ddir_def)
  have b: "b = Leaf \<or> (\<exists>b1 u nu b2. b = Node b1 u b2 \<and> h u = Some nu \<and> descent_dir nu = ddir h u \<and> balance nu = bal h u)"
    using z(5) is_tree_dom [of h "Some z" b] by (cases b) (auto simp: ddir_def bal_def split: option.splits)
  have c: "c = Leaf \<or> (\<exists>c1 v nv c2. c = Node c1 v c2 \<and> h v = Some nv \<and> descent_dir nv = ddir h v \<and> balance nv = bal h v)"
    using z(6) is_tree_dom [of h "Some z" c] by (cases c) (auto simp: ddir_def bal_def split: option.splits)
  note defs = lvAvlTreeDoubleRotation_def Let_def rot_post_def dbl_tree_def
  note hyps = x y z ds bz
  from b c show ?thesis
  proof (elim disjE exE conjE)
    assume "b = Leaf" "c = Leaf"
    then show ?thesis using hyps unfolding defs by (cases L) simp_all
  next
    fix c1 v nv c2 assume "b = Leaf" "c = Node c1 v c2" "h v = Some nv" "descent_dir nv = ddir h v" "balance nv = bal h v"
    then show ?thesis using hyps unfolding defs by (cases L) simp_all
  next
    fix b1 u nu b2 assume "b = Node b1 u b2" "h u = Some nu" "descent_dir nu = ddir h u" "balance nu = bal h u" "c = Leaf"
    then show ?thesis using hyps unfolding defs by (cases L) simp_all
  next
    fix b1 u nu b2 c1 v nv c2
    assume bc: "b = Node b1 u b2" "h u = Some nu" "descent_dir nu = ddir h u" "balance nu = bal h u"
      "c = Node c1 v c2" "h v = Some nv" "descent_dir nv = ddir h v" "balance nv = bal h v"
    then have "u \<noteq> v" "u \<noteq> x" "u \<noteq> y" "u \<noteq> z" "v \<noteq> x" "v \<noteq> y" "v \<noteq> z" using ds by auto
    with bc show ?thesis using hyps unfolding defs by (cases L) simp_all
  qed
qed


text \<open>The two rotations and the choice between them, for a node two levels higher on its side \<open>L\<close>.\<close>

definition rotate :: "lvheap \<Rightarrow> bool \<Rightarrow> nat \<Rightarrow> nat \<Rightarrow> (nptr \<times> lvheap) option" where
  "rotate h L x y = (if bal h y = dirv (\<not> L) then lvAvlTreeDoubleRotation h (Some x) (Some y) (dirv L)
     else lvAvlTreeSingleRotation h (Some x) (Some y) (dirv L))"

lemma frm_swap: "frm (L, a, s) t = frm (\<not> L, a, t) s"
  by simp

lemma nonleaf_frm: "t \<noteq> Leaf \<Longrightarrow> \<exists>a s u. t = frm (L, a, s) u"
  by (cases t; cases L) auto

lemma rot_post_mono: "rot_post h h' par t t' S \<Longrightarrow> S \<subseteq> S' \<Longrightarrow> rot_post h h' par t t' S'"
  by (auto simp: rot_post_def)

lemma single_avl:
  assumes tr: "is_tree h par (frm (L, x, c) (frm (L, y, b) a))" (is "is_tree h par ?t")
    and di: "distinct (inorder (frm (L, x, c) (frm (L, y, b) a)))"
    and av: "avl h (frm (L, y, b) a)" "avl h c" and bx: "bal h x = dirv L"
    and hh: "height (frm (L, y, b) a) = height c + 2" and nb: "bal h y \<noteq> dirv (\<not> L)"
  shows "\<exists>h1 n t'. lvAvlTreeSingleRotation h (Some x) (Some y) (dirv L) = Some (Some y, h1) \<and> h1 y = Some n \<and>
    rootp t' = Some y \<and> rot_post h (h1(y \<mapsto> n\<lparr>avl_parent := par\<rparr>)) par ?t t' (set_tree ?t) \<and>
    avl (h1(y \<mapsto> n\<lparr>avl_parent := par\<rparr>)) t' \<and> inorder t' = inorder ?t \<and>
    (\<forall>w. ddir h x = dirv L \<longrightarrow> reach h (frm (L, y, b) a) w \<longrightarrow> reach h t' w) \<and>
    height t' = (if bal h y = TREE_BALANCED then height c + 3 else height c + 2)"
proof -
  let ?t' = "frm (\<not> L, y, a) (frm (L, x, c) b)"
  obtain h1 n where r: "lvAvlTreeSingleRotation h (Some x) (Some y) (dirv L) = Some (Some y, h1)" "h1 y = Some n"
    "rot_post h (h1(y \<mapsto> n\<lparr>avl_parent := par\<rparr>)) par ?t ?t' {x, y}"
    "bal h1 x = (if bal h y = TREE_BALANCED then bal h x else TREE_BALANCED)"
    "bal h1 y = (if bal h y = TREE_BALANCED then dirv (\<not> L) else TREE_BALANCED)"
    using single_rotation [OF tr di] by blast
  let ?h = "h1(y \<mapsto> n\<lparr>avl_parent := par\<rparr>)"
  have d: "x \<noteq> y" "x \<notin> set_tree a" "x \<notin> set_tree b" "x \<notin> set_tree c" "y \<notin> set_tree a" "y \<notin> set_tree b" "y \<notin> set_tree c"
    using di unfolding distinct_frm set_frm by auto
  have bl: "bal ?h x = bal h1 x" "bal ?h y = bal h1 y" "\<And>v. v \<noteq> x \<Longrightarrow> v \<noteq> y \<Longrightarrow> bal ?h v = bal h v"
    using r(2,3) d by (auto simp: rot_post_def bal_def)
  have "avl ?h a = avl h a" "avl ?h b = avl h b" "avl ?h c = avl h c"
    using d bl(3) by (intro avl_cong; metis)+
  then have "avl ?h ?t'"
    using av hh bx nb unfolding avl_frm height_frm bl(1,2) r(4,5) by auto
  moreover have "height ?t' = (if bal h y = TREE_BALANCED then height c + 3 else height c + 2)"
    using av hh nb unfolding avl_frm height_frm by auto
  moreover have "inorder ?t' = inorder ?t" by simp
  moreover have "rot_post h ?h par ?t ?t' (set_tree ?t)" using r(3) by (rule rot_post_mono) auto
  moreover have "\<forall>w. ddir h x = dirv L \<longrightarrow> reach h (frm (L, y, b) a) w \<longrightarrow> reach h ?t' w"
    unfolding reach_frm by auto
  ultimately show ?thesis using r(1,2) rootp_frm by blast
qed

lemma double_avl:
  assumes tr: "is_tree h par (frm (L, x, d) (frm (\<not> L, y, a) (frm (L, z, c) b)))" (is "is_tree h par ?t")
    and di: "distinct (inorder (frm (L, x, d) (frm (\<not> L, y, a) (frm (L, z, c) b))))"
    and av: "avl h (frm (\<not> L, y, a) (frm (L, z, c) b))" "avl h d" and bx: "bal h x = dirv L"
    and hh: "height (frm (\<not> L, y, a) (frm (L, z, c) b)) = height d + 2" and nb: "bal h y = dirv (\<not> L)"
  shows "\<exists>h1 n t'. lvAvlTreeDoubleRotation h (Some x) (Some y) (dirv L) = Some (Some z, h1) \<and> h1 z = Some n \<and>
    rootp t' = Some z \<and> rot_post h (h1(z \<mapsto> n\<lparr>avl_parent := par\<rparr>)) par ?t t' (set_tree ?t) \<and>
    avl (h1(z \<mapsto> n\<lparr>avl_parent := par\<rparr>)) t' \<and> inorder t' = inorder ?t \<and>
    (\<forall>w. ddir h x = dirv L \<longrightarrow> reach h (frm (\<not> L, y, a) (frm (L, z, c) b)) w \<longrightarrow>
      ddir h y = dirv (\<not> L) \<longrightarrow> w \<noteq> y \<longrightarrow> reach h t' w) \<and> height t' = height d + 2"
proof -
  let ?t' = "dbl_tree L y a z b x d c"
  obtain h1 n where r: "lvAvlTreeDoubleRotation h (Some x) (Some y) (dirv L) = Some (Some z, h1)" "h1 z = Some n"
    "rot_post h (h1(z \<mapsto> n\<lparr>avl_parent := par\<rparr>)) par ?t ?t' {x, y, z}"
    "bal h1 x = (if bal h z = dirv L then dirv (\<not> L) else TREE_BALANCED)"
    "bal h1 y = (if bal h z = dirv L \<or> bal h z = TREE_BALANCED then TREE_BALANCED else dirv L)"
    "bal h1 z = TREE_BALANCED"
    using double_rotation [OF tr di] by blast
  let ?h = "h1(z \<mapsto> n\<lparr>avl_parent := par\<rparr>)"
  have ds: "x \<noteq> y" "x \<noteq> z" "y \<noteq> z" "{x, y, z} \<inter> set_tree a = {}" "{x, y, z} \<inter> set_tree b = {}"
    "{x, y, z} \<inter> set_tree c = {}" "{x, y, z} \<inter> set_tree d = {}"
    using di unfolding distinct_frm set_frm by auto
  have bl: "bal ?h x = bal h1 x" "bal ?h y = bal h1 y" "bal ?h z = bal h1 z" "\<And>v. v \<notin> {x, y, z} \<Longrightarrow> bal ?h v = bal h v"
    using r(2,3) ds by (auto simp: rot_post_def bal_def)
  have s: "avl ?h a = avl h a" "avl ?h b = avl h b" "avl ?h c = avl h c" "avl ?h d = avl h d"
    by (rule avl_cong_out [OF _ bl(4)], fact ds, assumption)+
  have ez: "?t' = frm (\<not> L, z, frm (L, y, b) a) (frm (L, x, d) c)" by (simp add: dbl_tree_def)
  have ht: "height a = height d" "max (height b) (height c) = height d"
    using av hh nb unfolding avl_frm height_frm by auto
  have sub: "avl h a" "avl h b" "avl h c" "avl h d" using av unfolding avl_frm by simp_all
  have "bal h z = dirv L \<and> height b = height c + 1 \<or> bal h z = dirv (\<not> L) \<and> height c = height b + 1 \<or>
      bal h z = TREE_BALANCED \<and> height b = height c"
    using av(1) unfolding avl_frm by simp
  then have "avl ?h ?t'"
    using ht unfolding ez avl_frm height_frm bl(1-3) r(4-6) s by (elim disjE) (simp_all add: sub)
  moreover have "height ?t' = height d + 2"
    using ht unfolding ez height_frm by auto
  moreover have "inorder ?t' = inorder ?t" by (simp add: dbl_tree_def)
  moreover have "rot_post h ?h par ?t ?t' (set_tree ?t)" using r(3) by (rule rot_post_mono) auto
  moreover have "rootp ?t' = Some z" by (simp add: dbl_tree_def)
  moreover have "\<forall>w. ddir h x = dirv L \<longrightarrow> reach h (frm (\<not> L, y, a) (frm (L, z, c) b)) w \<longrightarrow>
      ddir h y = dirv (\<not> L) \<longrightarrow> w \<noteq> y \<longrightarrow> reach h ?t' w"
    unfolding ez reach_frm by auto
  ultimately show ?thesis using r(1,2) by blast
qed

lemma rotate_ok:
  assumes tr: "is_tree h par (frm (L, x, c) u)" and di: "distinct (inorder (frm (L, x, c) u))"
    and av: "avl h u" "avl h c" and bx: "bal h x = dirv L" and hh: "height u = height c + 2" and y: "rootp u = Some y"
  shows "\<exists>z h1 n t'. rotate h L x y = Some (Some z, h1) \<and> h1 z = Some n \<and> rootp t' = Some z \<and>
    rot_post h (h1(z \<mapsto> n\<lparr>avl_parent := par\<rparr>)) par (frm (L, x, c) u) t' (set_tree (frm (L, x, c) u)) \<and>
    avl (h1(z \<mapsto> n\<lparr>avl_parent := par\<rparr>)) t' \<and> inorder t' = inorder (frm (L, x, c) u) \<and>
    (\<forall>w. ddir h x = dirv L \<longrightarrow> reach h u w \<longrightarrow>
      (bal h y = dirv (\<not> L) \<longrightarrow> ddir h y = dirv (\<not> L) \<and> w \<noteq> y) \<longrightarrow> reach h t' w) \<and>
    height t' = (if bal h y = TREE_BALANCED then height c + 3 else height c + 2)"
proof -
  have "u \<noteq> Leaf" using hh by auto
  then obtain y' b a where u': "u = frm (L, y', b) a" using nonleaf_frm by blast
  have u: "u = frm (L, y, b) a" using u' y by (simp split: if_splits)
  show ?thesis
  proof (cases "bal h y = dirv (\<not> L)")
    case False
    from single_avl [OF tr [unfolded u] di [unfolded u] av [unfolded u] bx hh [unfolded u] False] False
    show ?thesis unfolding rotate_def u if_not_P [OF False] by blast
  next
    case True
    then have "height b = height a + 1" using av(1) unfolding u avl_frm by auto
    then have "b \<noteq> Leaf" by auto
    then obtain z c' b' where b: "b = frm (L, z, c') b'" using nonleaf_frm [of b L] by blast
    have u2: "u = frm (\<not> L, y, a) (frm (L, z, c') b')" unfolding u b by simp
    have nb: "bal h y \<noteq> TREE_BALANCED" using True by simp
    from double_avl [OF tr [unfolded u2] di [unfolded u2] av [unfolded u2] bx hh [unfolded u2] True] True
    show ?thesis unfolding rotate_def u2 if_P [OF True] if_not_P [OF nb] by blast
  qed
qed

end
