(* ===== verification/LvInsert.thy ===== *)
theory LvInsert
  imports LvAvl
begin

text \<open>
  Insertion into a subscript tree: the new node is linked in the gap the lookup left, the balance
  fields along the descent are adjusted, and one rotation restores the balance where it was lost.
\<close>

section \<open>The invariant of a subscript tree\<close>

definition lv_inv :: "lvheap \<Rightarrow> lvTree \<Rightarrow> nat tree \<Rightarrow> bool" where
  "lv_inv h lvt t \<longleftrightarrow> lv_search h lvt t \<and> avl h t \<and> avl_height lvt = int (height t)"

section \<open>Linking\<close>

lemma link_child_ok:
  assumes "is_ctx h ((L, a, s) # cs) q" "ddir h a = dirv L" "distinct (lefts ((L, a, s) # cs) @ rights ((L, a, s) # cs))"
  shows "\<exists>n'. link_child h (Some a) q' = Some (h(a \<mapsto> n')) \<and> is_ctx (h(a \<mapsto> n')) ((L, a, s) # cs) q' \<and>
    data_eq n' (the (h a)) \<and> descent_dir n' = ddir h a \<and> balance n' = bal h a"
proof -
  obtain n where n: "h a = Some n" using assms(1) by (auto split: option.splits)
  have d: "a \<notin> set_tree s" "a \<notin> ctx_set cs" using assms(3) unfolding distinct_ctx_step by simp_all
  show ?thesis using assms(1,2) n d
    by (cases L) (auto simp: link_child_def ddir_def bal_def)
qed

lemma rootc_Cons: "cs \<noteq> [] \<Longrightarrow> rootc q cs = rootc q' cs"
  by (cases cs rule: rights.cases) auto

lemma rootc_in: "cs \<noteq> [] \<Longrightarrow> \<exists>a \<in> ctx_set cs. rootc q cs = Some a"
proof (induction cs arbitrary: q rule: rights.induct)
  case (2 L a s cs) then show ?case by (cases "cs = []") auto
qed simp

lemma relink_ok:
  assumes "is_ctx h cs q" "dir_ok h cs" "distinct (lefts cs @ rights cs)" "avl_root lvt = rootc q cs"
  shows "\<exists>h'. relink h lvt (hole cs) q' = Some (h', lvt\<lparr>avl_root := rootc q' cs\<rparr>) \<and> is_ctx h' cs q' \<and>
    heap_data h' h \<and> (\<forall>a. ddir h' a = ddir h a \<and> bal h' a = bal h a) \<and> (\<forall>a. hole cs \<noteq> Some a \<longrightarrow> h' a = h a)"
proof (cases cs rule: rights.cases)
  case 1 then show ?thesis by (simp add: relink_def)
next
  case (2 L a s cs')
  obtain n' where n': "link_child h (Some a) q' = Some (h(a \<mapsto> n'))" "is_ctx (h(a \<mapsto> n')) cs q'"
    "data_eq n' (the (h a))" "descent_dir n' = ddir h a" "balance n' = bal h a"
    using link_child_ok [of h L a s cs' q q'] assms 2 by auto
  obtain n where "h a = Some n" using assms(1) 2 by (auto split: option.splits)
  with n' have "heap_data (h(a \<mapsto> n')) h" by simp
  moreover have "lvt\<lparr>avl_root := rootc q' cs\<rparr> = lvt"
    using assms(4) rootc_Cons [of cs q q'] 2 by simp
  ultimately show ?thesis using n' 2 by (auto simp: relink_def)
qed

section \<open>Adjusting the balance on the way up\<close>

text \<open>
  A subtree that has grown by one level: either it is the new node alone, or its root leans the way
  its \<open>descent_dir\<close> points, which is the way to the new node \<open>w\<close>.
\<close>

definition grown :: "lvheap \<Rightarrow> nat tree \<Rightarrow> nat \<Rightarrow> nat \<Rightarrow> bool" where
  "grown h u n w \<longleftrightarrow> avl h u \<and> height u = Suc n \<and> reach h u w \<and>
     (n = 0 \<or> (\<exists>y D. rootp u = Some y \<and> y \<noteq> w \<and> bal h y = dirv D \<and> ddir h y = dirv D))"

definition climb_post :: "lvheap \<Rightarrow> nat tree \<Rightarrow> frame list \<Rightarrow> nat \<Rightarrow> nat \<Rightarrow> nptr \<times> lvheap \<Rightarrow> bool" where
  "climb_post h u cs n w res = (case res of (p, h') \<Rightarrow>
     \<exists>cs1 L g s cs2 m. cs = cs1 @ (L, g, s) # cs2 \<and> p = Some g \<and> heap_data h' h \<and>
       (\<forall>a. links h' a = links h a \<and> ddir h' a = ddir h a) \<and> (\<forall>a. a \<notin> ctx_set cs1 \<longrightarrow> h' a = h a) \<and>
       grown h' (plug u cs1) m w \<and> avl_ctx h' ((L, g, s) # cs2) m \<and> (cs2 = [] \<or> bal h' g \<noteq> TREE_BALANCED) \<and>
       ctx_height cs n = ctx_height ((L, g, s) # cs2) m)"

lemma climb_postI:
  assumes "cs = cs1 @ (L, g, s) # cs2" "heap_data h' h" "\<forall>a. links h' a = links h a \<and> ddir h' a = ddir h a"
    "\<forall>a. a \<notin> ctx_set cs1 \<longrightarrow> h' a = h a" "grown h' (plug u cs1) m w" "avl_ctx h' ((L, g, s) # cs2) m"
    "cs2 = [] \<or> bal h' g \<noteq> TREE_BALANCED" "ctx_height cs n = ctx_height ((L, g, s) # cs2) m"
  shows "climb_post h u cs n w (Some g, h')"
  unfolding climb_post_def prod.case
  by (intro exI conjI, fact, rule refl, fact+)

lemma climb_stop:
  assumes "grown h u n w" "avl_ctx h ((L, a, s) # cs) n" "cs = [] \<or> bal h a \<noteq> TREE_BALANCED"
  shows "climb_post h u ((L, a, s) # cs) n w (Some a, h)"
  by (rule climb_postI [of _ "[]"]) (use assms in \<open>simp_all del: avl_ctx.simps\<close>)

lemma climb_ok:
  assumes "cs \<noteq> []" "grown h u n w" "avl_ctx h cs n" "dir_ok h cs" "is_ctx h cs (rootp u)"
    "distinct (inorder (plug u cs))" "w \<in> set_tree u"
  shows "\<exists>res. insert_climb h (rootc None cs) (hole cs) = Some res \<and> climb_post h u cs n w res"
  using assms
proof (induction cs arbitrary: h u n rule: rights.induct)
  case (2 L a s cs)
  obtain nd where nd: "h a = Some nd" "avl_parent nd = hole cs" "balance nd = bal h a" "descent_dir nd = dirv L"
    using "2.prems"(4,5) by (auto simp: bal_def ddir_def split: option.splits)
  have d: "a \<notin> set_tree u" "a \<notin> set_tree s" "a \<notin> ctx_set cs" "distinct (lefts cs @ rights cs)"
    using "2.prems"(6) unfolding plug.simps distinct_plug distinct_frm set_frm by simp_all
  show ?case
  proof (cases "cs = [] \<or> bal h a \<noteq> TREE_BALANCED")
    case True
    have "insert_climb h (rootc None ((L, a, s) # cs)) (hole ((L, a, s) # cs)) = Some (Some a, h)"
      by (subst insert_climb.simps) (use True nd in auto)
    with climb_stop [OF "2.prems"(2,3) True] show ?thesis by blast
  next
    case False
    define h2 where "h2 = h(a \<mapsto> nd\<lparr>balance := dirv L\<rparr>)"
    let ?u = "frm (L, a, s) u"
    have bs: "height s = n" "avl h s" "avl_ctx h cs (Suc n)" and hu: "height u = Suc n" "avl h u" "reach h u w"
      using "2.prems"(2,3) False by (auto simp: bal_ok_def grown_def dirv_def mv_defs split: if_splits)
    have same: "\<forall>x. links h2 x = links h x \<and> ddir h2 x = ddir h x" "heap_data h2 h" "\<forall>x. x \<noteq> a \<longrightarrow> h2 x = h x"
      using nd by (auto simp: h2_def links_def ddir_def)
    have bl: "bal h2 a = dirv L" "\<And>x. x \<noteq> a \<Longrightarrow> bal h2 x = bal h x" by (simp_all add: h2_def)
    have av: "avl h2 s" "avl h2 u" "avl_ctx h2 cs (Suc n)"
      using bs hu d bl(2) avl_cong_out [of "{a}" s h2 h] avl_cong_out [of "{a}" u h2 h] avl_ctx_out [of "{a}" cs h2 h]
      by auto
    have "grown h2 ?u (Suc n) w"
      unfolding grown_def avl_frm height_frm reach_frm
      using av bs hu bl same(1) nd reach_cong [of u h2 h w] "2.prems"(4,7) d by auto
    moreover have "dir_ok h2 cs" "is_ctx h2 cs (rootp ?u)"
      using "2.prems"(4,5) same dir_ok_cong [of cs h2 h] is_ctx_cong [of cs h2 h] nd by auto
    moreover have "distinct (inorder (plug ?u cs))" using "2.prems"(6) by simp
    moreover have "w \<in> set_tree ?u" using "2.prems"(7) by simp
    ultimately obtain res where res: "insert_climb h2 (rootc None cs) (hole cs) = Some res"
      "climb_post h2 ?u cs (Suc n) w res"
      using "2.IH" [of h2 ?u "Suc n"] False av by blast
    have "rootc None ((L, a, s) # cs) \<noteq> Some a" "rootc None ((L, a, s) # cs) = rootc None cs"
      using rootc_in [of cs "Some a"] rootc_Cons [of cs "Some a" None] d False by auto
    then have "insert_climb h (rootc None ((L, a, s) # cs)) (hole ((L, a, s) # cs)) = Some res"
      by (subst insert_climb.simps) (use False nd res(1) in \<open>auto simp: h2_def\<close>)
    moreover have "climb_post h u ((L, a, s) # cs) n w res"
    proof -
      obtain p h' cs1 L' g s' cs2 m where r: "res = (p, h')" "cs = cs1 @ (L', g, s') # cs2" "p = Some g" "heap_data h' h2"
        "\<forall>a. links h' a = links h2 a \<and> ddir h' a = ddir h2 a" "\<forall>a. a \<notin> ctx_set cs1 \<longrightarrow> h' a = h2 a"
        "grown h' (plug ?u cs1) m w" "avl_ctx h' ((L', g, s') # cs2) m" "cs2 = [] \<or> bal h' g \<noteq> TREE_BALANCED"
        "ctx_height cs (Suc n) = ctx_height ((L', g, s') # cs2) m"
        using res(2) unfolding climb_post_def by (cases res) blast
      have "climb_post h u ((L, a, s) # cs) n w (Some g, h')"
      proof (rule climb_postI)
        show "(L, a, s) # cs = ((L, a, s) # cs1) @ (L', g, s') # cs2" using r(2) by simp
        show "heap_data h' h" using r(4) same(2) by (rule heap_data_trans)
        show "\<forall>a. links h' a = links h a \<and> ddir h' a = ddir h a" using r(5) same(1) by simp
        show "\<forall>x. x \<notin> ctx_set ((L, a, s) # cs1) \<longrightarrow> h' x = h x" using r(6) same(3) by simp
        show "grown h' (plug u ((L, a, s) # cs1)) m w" using r(7) by simp
        show "ctx_height ((L, a, s) # cs) n = ctx_height ((L', g, s') # cs2) m" using r(10) bs(1) by simp
      qed (use r(8,9) in simp_all)
      with r(1,3) show ?thesis by simp
    qed
    ultimately show ?thesis by blast
  qed
qed simp

section \<open>Restoring the balance\<close>

text \<open>A rotated subtree put back below the node it hung from.\<close>

lemma replace_ok:
  assumes tr: "is_tree h None (plug t0 cs)" and di: "distinct (inorder (plug t0 cs))" and dr: "dir_ok h cs"
    and rt: "avl_root lvt = rootp (plug t0 cs)" and ro: "rot_post h h2 (hole cs) t0 t1 (set_tree t0)"
    and io: "inorder t1 = inorder t0"
  shows "\<exists>h3. relink h2 lvt (hole cs) (rootp t1) = Some (h3, lvt\<lparr>avl_root := rootp (plug t1 cs)\<rparr>) \<and>
    is_tree h3 None (plug t1 cs) \<and> heap_data h3 h \<and> (\<forall>a. a \<notin> set_tree (plug t0 cs) \<longrightarrow> h3 a = h a) \<and>
    (\<forall>a. ddir h3 a = ddir h a) \<and> (\<forall>a. bal h3 a = bal h2 a)"
proof -
  have dj: "set_tree t0 \<inter> ctx_set cs = {}" "distinct (lefts cs @ rights cs)" "set_tree t1 = set_tree t0"
    using di io by (auto simp: distinct_plug simp flip: set_inorder)
  have ag: "\<And>a. a \<in> ctx_set cs \<Longrightarrow> h2 a = h a" using ro dj by (auto simp: rot_post_def)
  have "is_ctx h2 cs (rootp t0)" using tr is_ctx_cong [of cs h2 h] ag by (simp add: is_tree_plug links_def)
  moreover have "dir_ok h2 cs" using dr dir_ok_cong [of cs h2 h] ag by (simp add: ddir_def)
  moreover have "avl_root lvt = rootc (rootp t0) cs" using rt by (simp add: rootp_plug)
  ultimately obtain h3 where h3: "relink h2 lvt (hole cs) (rootp t1) = Some (h3, lvt\<lparr>avl_root := rootc (rootp t1) cs\<rparr>)"
    "is_ctx h3 cs (rootp t1)" "heap_data h3 h2" "\<forall>a. ddir h3 a = ddir h2 a \<and> bal h3 a = bal h2 a"
    "\<forall>a. hole cs \<noteq> Some a \<longrightarrow> h3 a = h2 a"
    using relink_ok [of h2 cs "rootp t0" lvt "rootp t1"] dj by blast
  have hc: "a \<in> ctx_set cs" if "hole cs = Some a" for a using that by (cases cs rule: rights.cases) auto
  have "is_tree h3 (hole cs) t1"
  proof (subst is_tree_cong [of t1 h3 h2])
    fix a assume "a \<in> set_tree t1"
    then have "h3 a = h2 a" using h3(5) hc dj by blast
    then show "links h3 a = links h2 a" by (simp add: links_def)
  qed (use ro in \<open>simp add: rot_post_def\<close>)
  then have "is_tree h3 None (plug t1 cs)" using h3(2) by (simp add: is_tree_plug)
  moreover have "heap_data h3 h" using h3(3) ro heap_data_trans by (auto simp: rot_post_def)
  moreover have "\<forall>a. a \<notin> set_tree (plug t0 cs) \<longrightarrow> h3 a = h a"
    using h3(5) hc ro unfolding set_tree_plug rot_post_def by (metis UnCI)
  moreover have "\<forall>a. ddir h3 a = ddir h a" using h3(4) ro by (simp add: rot_post_def)
  ultimately show ?thesis using h3(1,4) by (simp add: rootp_plug)
qed

text \<open>What rebalancing the tree \<open>t\<close> leaves: a balanced tree with the same listing.\<close>

definition reb_post :: "lvheap \<Rightarrow> lvTree \<Rightarrow> nat tree \<Rightarrow> (nat tree \<Rightarrow> lvheap \<Rightarrow> bool) \<Rightarrow> lvheap \<times> lvTree \<Rightarrow> bool" where
  "reb_post h lvt t Q res = (case res of (h', lvt') \<Rightarrow>
     \<exists>t'. is_tree h' None t' \<and> inorder t' = inorder t \<and> avl h' t' \<and> heap_data h' h \<and>
       (\<forall>a. a \<notin> set_tree t \<longrightarrow> h' a = h a) \<and>
       lvt' = lvt\<lparr>avl_root := rootp t', avl_height := int (height t')\<rparr> \<and> Q t' h')"

lemma reb_postI:
  assumes "is_tree h' None t'" "inorder t' = inorder t" "avl h' t'" "heap_data h' h"
    "\<forall>a. a \<notin> set_tree t \<longrightarrow> h' a = h a" "lvt' = lvt\<lparr>avl_root := rootp t', avl_height := int (height t')\<rparr>" "Q t' h'"
  shows "reb_post h lvt t Q (h', lvt')"
  unfolding reb_post_def prod.case by (intro exI conjI) fact+

text \<open>Changing the balance of one node on the path, the shape kept.\<close>

lemma set_balance:
  assumes tr: "is_tree h None (plug u ((L, g, s) # cs))" (is "is_tree h None ?t")
    and di: "distinct (inorder (plug u ((L, g, s) # cs)))"
    and av: "avl h u" "avl h s" and b: "(b = dirv L \<and> height u = height s + 1) \<or> (b = dirv (\<not> L) \<and> height s = height u + 1) \<or>
      (b = TREE_BALANCED \<and> height u = height s)"
    and nd: "h g = Some nd" and h2: "h2 = h(g \<mapsto> nd\<lparr>balance := b\<rparr>)"
  shows "is_tree h2 None ?t" "avl h2 (frm (L, g, s) u)" "heap_data h2 h" "\<forall>a. ddir h2 a = ddir h a"
    "\<forall>a. a \<notin> set_tree ?t \<longrightarrow> h2 a = h a" "avl_ctx h2 cs m = avl_ctx h cs m"
proof -
  have d: "g \<notin> set_tree u" "g \<notin> set_tree s" "g \<notin> ctx_set cs"
    using di unfolding plug.simps distinct_plug distinct_frm set_frm by simp_all
  show "heap_data h2 h" "\<forall>a. ddir h2 a = ddir h a" using nd by (simp_all add: h2 ddir_def)
  show "\<forall>a. a \<notin> set_tree ?t \<longrightarrow> h2 a = h a" by (simp add: h2 set_tree_plug)
  show "is_tree h2 None ?t" using tr nd by (subst is_tree_cong [of _ h2 h]) (auto simp: h2 links_def)
  have "avl h2 u" "avl h2 s"
    using av d avl_cong_out [of "{g}" u h2 h] avl_cong_out [of "{g}" s h2 h] by (simp_all add: h2)
  moreover have "bal h2 g = b" by (simp add: h2)
  ultimately show "avl h2 (frm (L, g, s) u)" using b unfolding avl_frm by auto
  show "avl_ctx h2 cs m = avl_ctx h cs m" using d avl_ctx_out [of "{g}" cs h2 h m] by (simp add: h2)
qed

lemma grown_root:
  assumes "grown h u (Suc n) w"
  obtains y D where "rootp u = Some y" "y \<noteq> w" "bal h y = dirv D" "ddir h y = dirv D"
  using assms by (auto simp: grown_def)

text \<open>The rotation case: the node was already leaning to the side that has grown.\<close>

lemma insert_rotate:
  assumes tr: "is_tree h None (plug u ((L, g, s) # cs))" (is "is_tree h None ?t")
    and di: "distinct (inorder (plug u ((L, g, s) # cs)))" and dr: "dir_ok h ((L, g, s) # cs)"
    and gr: "grown h u m w" and ac: "avl_ctx h ((L, g, s) # cs) m" and bg: "bal h g = dirv L"
    and rt: "avl_root lvt = rootp (plug u ((L, g, s) # cs))"
    and ht: "avl_height lvt = int (ctx_height ((L, g, s) # cs) m)"
  shows "\<exists>res. insert_rebalance h lvt (Some g) = Some res \<and> reb_post h lvt ?t (\<lambda>t h. reach h t w) res"
proof -
  let ?sub = "frm (L, g, s) u"
  have m: "m = height s + 1" "avl h s" and ac': "avl_ctx h cs (height s + 2)"
    using ac bg bal_ok_side [of "bal h g" L m "height s"] by auto
  have u: "avl h u" "height u = height s + 2" "reach h u w" using gr m by (auto simp: grown_def)
  obtain y D where y: "rootp u = Some y" "y \<noteq> w" "bal h y = dirv D" "ddir h y = dirv D"
    using gr grown_root [of h u "height s" w] unfolding m(1) by auto
  have t0: "is_tree h (hole cs) ?sub" "is_ctx h cs (Some g)" "distinct (inorder ?sub)"
    using tr di by (simp_all add: is_tree_plug distinct_plug del: frm.simps)
  obtain z h1 n t1 where ro: "rotate h L g y = Some (Some z, h1)" "h1 z = Some n" "rootp t1 = Some z"
    "rot_post h (h1(z \<mapsto> n\<lparr>avl_parent := hole cs\<rparr>)) (hole cs) ?sub t1 (set_tree ?sub)"
    "avl (h1(z \<mapsto> n\<lparr>avl_parent := hole cs\<rparr>)) t1" "inorder t1 = inorder ?sub"
    "\<forall>w. ddir h g = dirv L \<longrightarrow> reach h u w \<longrightarrow>
      (bal h y = dirv (\<not> L) \<longrightarrow> ddir h y = dirv (\<not> L) \<and> w \<noteq> y) \<longrightarrow> reach h t1 w"
    "height t1 = height s + 2"
    using rotate_ok [OF t0(1,3) u(1) m(2) bg u(2) y(1)] y(3) by auto
  let ?h2 = "h1(z \<mapsto> n\<lparr>avl_parent := hole cs\<rparr>)"
  obtain h3 where h3: "relink ?h2 lvt (hole cs) (rootp t1) = Some (h3, lvt\<lparr>avl_root := rootp (plug t1 cs)\<rparr>)"
    "is_tree h3 None (plug t1 cs)" "heap_data h3 h" "\<forall>a. a \<notin> set_tree (plug ?sub cs) \<longrightarrow> h3 a = h a"
    "\<forall>a. ddir h3 a = ddir h a" "\<forall>a. bal h3 a = bal ?h2 a"
    using replace_ok [of h ?sub cs lvt ?h2 t1] tr di dr rt ro(4,6) unfolding plug.simps dir_ok.simps by blast
  obtain nd where nd: "h g = Some nd" "descent_dir nd = dirv L" "balance nd = dirv L" "avl_parent nd = hole cs"
    "(if L then avl_left nd else avl_right nd) = Some y"
    using t0(1) y(1) dr bg by (auto simp: ddir_def bal_def split: option.splits if_splits)
  obtain ny where ny: "h y = Some ny" "balance ny = dirv D"
    using is_tree_dom [OF t0(1), of y] y unfolding set_frm by (auto simp: bal_def rootp_Some)
  have "insert_rebalance h lvt (Some g) = Some (h3, lvt\<lparr>avl_root := rootp (plug t1 cs)\<rparr>)"
    using nd ny ro(1-3) h3(1) y(3) by (cases L; cases D) (simp_all add: insert_rebalance_def rotate_def)
  moreover have "reb_post h lvt ?t (\<lambda>t h. reach h t w) (h3, lvt\<lparr>avl_root := rootp (plug t1 cs)\<rparr>)"
  proof (rule reb_postI)
    show "inorder (plug t1 cs) = inorder ?t" unfolding plug.simps inorder_plug ro(6) ..
    have "avl h3 t1" using ro(5) h3(6) avl_cong [of t1 h3 ?h2] by simp
    moreover have "avl_ctx h3 cs (height t1)"
      using ac' ro(4,8) h3(6) di avl_ctx_out [of "set_tree ?sub" cs h3 h]
      by (simp add: rot_post_def distinct_plug del: frm.simps)
    ultimately show "avl h3 (plug t1 cs)" by (simp add: avl_plug)
    have "height (plug t1 cs) = ctx_height ((L, g, s) # cs) m" using ro(8) m by (simp add: height_plug)
    then show "lvt\<lparr>avl_root := rootp (plug t1 cs)\<rparr> = lvt\<lparr>avl_root := rootp (plug t1 cs), avl_height := int (height (plug t1 cs))\<rparr>"
      using ht by simp
    have "reach h t1 w" using ro(7) u(3) y(2-4) dr by auto
    then have "reach h3 t1 w" using reach_cong [of t1 h3 h] h3(5) by simp
    then show "reach h3 (plug t1 cs) w" using dr dir_ok_cong [of cs h3 h] h3(5) by (intro reach_plug) auto
  qed (use h3 in simp_all)
  ultimately show ?thesis by blast
qed

lemma insert_rebalance_ok:
  assumes tr: "is_tree h None (plug u ((L, g, s) # cs))" (is "is_tree h None ?t")
    and di: "distinct (inorder (plug u ((L, g, s) # cs)))" and dr: "dir_ok h ((L, g, s) # cs)"
    and gr: "grown h u m w" and ac: "avl_ctx h ((L, g, s) # cs) m" and st: "cs = [] \<or> bal h g \<noteq> TREE_BALANCED"
    and rt: "avl_root lvt = rootp (plug u ((L, g, s) # cs))"
    and ht: "avl_height lvt = int (ctx_height ((L, g, s) # cs) m)"
  shows "\<exists>res. insert_rebalance h lvt (Some g) = Some res \<and> reb_post h lvt ?t (\<lambda>t h. reach h t w) res"
proof -
  have u: "avl h u" "height u = Suc m" "reach h u w" using gr by (auto simp: grown_def)
  obtain nd where nd: "h g = Some nd" "descent_dir nd = dirv L" "balance nd = bal h g"
    using tr dr by (auto simp: is_tree_plug ddir_def bal_def split: option.splits if_splits)
  have reach2: "reach h2 ?t w" if "\<forall>a. ddir h2 a = ddir h a" for h2
    using that u(3) dr dir_ok_cong [of "(L, g, s) # cs" h2 h] reach_cong [of u h2 h]
    by (intro reach_plug) auto
  have s: "avl h s" "avl_ctx h cs (Suc (max m (height s)))"
    and c: "(bal h g = dirv L \<and> m = height s + 1) \<or> (bal h g = dirv (\<not> L) \<and> height s = m + 1) \<or> (bal h g = TREE_BALANCED \<and> m = height s)"
    using ac bal_ok_side [of "bal h g" L m "height s"] by auto
  from c consider (rot) "bal h g = dirv L" | (even) "bal h g = dirv (\<not> L)" "height s = m + 1"
    | (root) "bal h g = TREE_BALANCED" "m = height s" by blast
  then show ?thesis
  proof cases
    case rot then show ?thesis by (rule insert_rotate [OF tr di dr gr ac _ rt ht])
  next
    case even
    let ?h2 = "h(g \<mapsto> nd\<lparr>balance := TREE_BALANCED\<rparr>)"
    have ac': "avl_ctx h cs (height (frm (L, g, s) u))" using s(2) even(2) u(2) unfolding height_frm by simp
    have b: "(TREE_BALANCED = dirv L \<and> height u = height s + 1) \<or> (TREE_BALANCED = dirv (\<not> L) \<and> height s = height u + 1) \<or>
        (TREE_BALANCED = TREE_BALANCED \<and> height u = height s)"
      using u(2) even(2) by simp
    note p = set_balance [OF tr di u(1) s(1) b nd(1) refl]
    have av: "avl ?h2 ?t" using p(2,6) ac' unfolding plug.simps avl_plug by simp
    have hq: "height ?t = ctx_height ((L, g, s) # cs) m" using even(2) u(2) by (simp add: height_plug)
    have "reb_post h lvt ?t (\<lambda>t h. reach h t w) (?h2, lvt)"
      using p(1-5) av reach2 [OF p(4)] rt ht hq by (intro reb_postI [where t' = ?t]) simp_all
    moreover have "insert_rebalance h lvt (Some g) = Some (?h2, lvt)"
      using nd even(1) by (cases L) (simp_all add: insert_rebalance_def)
    ultimately show ?thesis by blast
  next
    case root
    then have cs: "cs = []" using st by simp
    let ?h2 = "h(g \<mapsto> nd\<lparr>balance := dirv L\<rparr>)"
    have b: "(dirv L = dirv L \<and> height u = height s + 1) \<or> (dirv L = dirv (\<not> L) \<and> height s = height u + 1) \<or>
        (dirv L = TREE_BALANCED \<and> height u = height s)"
      and ac': "avl_ctx h cs (height (frm (L, g, s) u))" using u(2) root(2) cs by simp_all
    note p = set_balance [OF tr di u(1) s(1) b nd(1) refl]
    have av: "avl ?h2 ?t" using p(2,6) ac' unfolding plug.simps avl_plug by simp
    have hq: "height ?t = ctx_height ((L, g, s) # cs) m + 1" using root(2) u(2) cs by auto
    let ?lvt = "lvt\<lparr>avl_height := avl_height lvt + 1\<rparr>"
    have "reb_post h lvt ?t (\<lambda>t h. reach h t w) (?h2, ?lvt)"
      using p(1-5) av reach2 [OF p(4)] rt ht hq by (intro reb_postI [where t' = ?t]) simp_all
    moreover have "insert_rebalance h lvt (Some g) = Some (?h2, ?lvt)"
      using nd root(1) by (cases L) (simp_all add: insert_rebalance_def)
    ultimately show ?thesis by blast
  qed
qed

section \<open>Insertion\<close>

lemma new_node_ok:
  fixes slot lvt k p
  assumes "lv_key k"
  defines "n \<equiv> new_node slot lvt k p"
  shows "node_key n = key_abs k" "wf_node n" "avl_left n = None" "avl_right n = None" "avl_parent n = p"
    "balance n = TREE_BALANCED" "nd_v n = nd_v slot" "sbs_child n = None" "tree_parent n = lvt_addr lvt"
proof -
  show "avl_left n = None" "avl_right n = None" "avl_parent n = p" "balance n = TREE_BALANCED" "nd_v n = nd_v slot"
    "sbs_child n = None" "tree_parent n = lvt_addr lvt"
    by (simp_all add: n_def new_node_def Let_def)
  from assms(1) consider "int_key k" | "num_key k" | "str_key k" by (auto simp: lv_key_def)
  then show "node_key n = key_abs k" "wf_node n"
    by (cases; simp add: n_def new_node_def Let_def node_key_def node_num_def key_abs_def numval_def mant_def
        int_key_def num_key_def str_key_def wf_int_def wf_flt_def wf_node_def)+
qed

text \<open>The outcome of an insertion of \<open>a\<close> with the key of \<open>k\<close>.\<close>

definition insert_post :: "mval \<Rightarrow> nat \<Rightarrow> lvTreeNode \<Rightarrow> lvheap \<Rightarrow> lvTree \<Rightarrow> nat tree \<Rightarrow> lvheap \<times> lvTree \<Rightarrow> bool" where
  "insert_post k a slot h lvt t res = (case res of (h', lvt') \<Rightarrow>
     \<exists>t' xs ys. inorder t = xs @ ys \<and> inorder t' = xs @ a # ys \<and> lv_inv h' lvt' t' \<and> hkey h' a = key_abs k \<and>
       (\<forall>x. x \<noteq> a \<longrightarrow> rel_option data_eq (h' x) (h x)) \<and> (\<forall>x. x \<notin> insert a (set_tree t) \<longrightarrow> h' x = h x) \<and>
       nd_v (the (h' a)) = nd_v slot \<and> sbs_child (the (h' a)) = None \<and> tree_parent (the (h' a)) = lvt_addr lvt \<and>
       lvt_addr lvt' = lvt_addr lvt \<and> lastNodeLookedUp lvt' = Some a)"

lemma insert_postI:
  assumes "inorder t = xs @ ys" "inorder t' = xs @ a # ys" "lv_inv h' lvt' t'" "hkey h' a = key_abs k"
    "\<forall>x. x \<noteq> a \<longrightarrow> rel_option data_eq (h' x) (h x)" "\<forall>x. x \<notin> insert a (set_tree t) \<longrightarrow> h' x = h x"
    "nd_v (the (h' a)) = nd_v slot" "sbs_child (the (h' a)) = None" "tree_parent (the (h' a)) = lvt_addr lvt"
    "lvt_addr lvt' = lvt_addr lvt" "lastNodeLookedUp lvt' = Some a"
  shows "insert_post k a slot h lvt t (h', lvt')"
  unfolding insert_post_def prod.case by (intro exI conjI) fact+

text \<open>The gap and the clue describe the same position.\<close>

lemma gap_clue:
  assumes st: "search_tree h t" and t: "t = plug Leaf ((L, b, s) # cs)" and cl: "clue_at h t b mn mx"
  shows "if L then mn = ctx_min cs else mx = ctx_max cs"
proof -
  obtain l r cs' where p: "t = plug (Node l b r) cs'" "l = Leaf \<longrightarrow> mn = ctx_min cs'" "r = Leaf \<longrightarrow> mx = ctx_max cs'"
    using cl by (auto simp: clue_at_def)
  obtain n where n: "h b = Some n" "avl_left n = (if L then None else rootp s)" "avl_right n = (if L then rootp s else None)"
    using st t by (auto simp: search_tree_def is_tree_plug split: option.splits if_splits)
  have lr: "avl_left n = rootp l" "avl_right n = rootp r" using st p(1) n(1) by (auto simp: search_tree_def is_tree_plug)
  have e: "(lefts cs @ (if L then [] else inorder s)) @ b # ((if L then inorder s else []) @ rights cs) =
      (lefts cs' @ inorder l) @ b # (inorder r @ rights cs')"
  proof -
    have "inorder t = (lefts cs @ (if L then [] else inorder s)) @ b # ((if L then inorder s else []) @ rights cs)"
      unfolding t by (simp add: inorder_plug)
    moreover have "inorder t = (lefts cs' @ inorder l) @ b # (inorder r @ rights cs')"
      unfolding p(1) by (simp add: inorder_plug)
    ultimately show ?thesis by simp
  qed
  moreover have "distinct (\<dots>)" using search_tree_distinct [OF st] unfolding p(1) by (simp add: inorder_plug)
  ultimately have "lefts cs @ (if L then [] else inorder s) = lefts cs' @ inorder l"
    "(if L then inorder s else []) @ rights cs = inorder r @ rights cs'"
    using distinct_split_unique [OF _ e] e by auto
  with p(2,3) n lr show ?thesis by (cases L) (auto simp: ctx_min_lefts ctx_max_rights)
qed

text \<open>Linking the new node into the gap.\<close>

lemma insert_link:
  fixes h a nn
  assumes tr: "is_tree h None (plug Leaf ((L, b, s) # cs))" and di: "distinct (inorder (plug Leaf ((L, b, s) # cs)))"
    and dr: "dir_ok h ((L, b, s) # cs)" and av: "avl h (plug Leaf ((L, b, s) # cs))"
    and a: "a \<notin> set_tree (plug Leaf ((L, b, s) # cs))"
    and nn: "avl_left nn = None" "avl_right nn = None" "avl_parent nn = Some b" "balance nn = TREE_BALANCED"
  defines "h1 \<equiv> h(a \<mapsto> nn)"
  shows "\<exists>n'. link_child h1 (Some b) (Some a) = Some (h1(b \<mapsto> n')) \<and> h b \<noteq> None \<and> data_eq n' (the (h b)) \<and> b \<noteq> a \<and>
    descent_dir n' = ddir h b \<and>
    is_tree (h1(b \<mapsto> n')) None (plug (Node Leaf a Leaf) ((L, b, s) # cs)) \<and> dir_ok (h1(b \<mapsto> n')) ((L, b, s) # cs) \<and>
    avl_ctx (h1(b \<mapsto> n')) ((L, b, s) # cs) 0 \<and> grown (h1(b \<mapsto> n')) (Node Leaf a Leaf) 0 a"
proof -
  let ?cs = "(L, b, s) # cs"
  have a': "a \<notin> ctx_set ?cs" "b \<noteq> a" using a unfolding set_tree_plug by auto
  have c: "is_ctx h ?cs None" "avl_ctx h ?cs 0" "distinct (lefts ?cs @ rights ?cs)"
    using tr av di unfolding is_tree_plug avl_plug distinct_plug by simp_all
  have "is_ctx h1 ?cs None" using c(1) a' unfolding h1_def by (subst is_ctx_upd) auto
  moreover have dd: "ddir h1 b = ddir h b" "bal h1 b = bal h b" "h1 b = h b" using a' by (simp_all add: h1_def)
  ultimately obtain n' where n': "link_child h1 (Some b) (Some a) = Some (h1(b \<mapsto> n'))" "is_ctx (h1(b \<mapsto> n')) ?cs (Some a)"
    "data_eq n' (the (h1 b))" "descent_dir n' = ddir h1 b" "balance n' = bal h1 b"
    using link_child_ok [of h1 L b s cs None "Some a"] dr c(3) by auto
  let ?h2 = "h1(b \<mapsto> n')"
  have "is_tree ?h2 (Some b) (Node Leaf a Leaf)" using nn a' by (simp add: h1_def)
  then have "is_tree ?h2 None (plug (Node Leaf a Leaf) ?cs)"
    using n'(2) unfolding is_tree_plug by simp
  moreover have vw: "ddir ?h2 x = ddir h x" "bal ?h2 x = bal h x" if "x \<in> ctx_set ?cs" for x
  proof -
    have "x \<noteq> a" using that a'(1) by blast
    then show "ddir ?h2 x = ddir h x" "bal ?h2 x = bal h x" using n'(4,5) dd by (simp_all add: h1_def)
  qed
  moreover have "dir_ok ?h2 ?cs" using dr dir_ok_cong [OF vw(1)] by blast
  moreover have "avl_ctx ?h2 ?cs 0" using c(2) avl_ctx_cong [OF vw(2)] by blast
  moreover have "grown ?h2 (Node Leaf a Leaf) 0 a" using nn a' by (simp add: grown_def h1_def bal_ok_def)
  moreover have "h b \<noteq> None" using c(1) by (auto split: option.splits)
  ultimately show ?thesis using n' a' dd by auto
qed

text \<open>The balance adjustment and the rotation, from the linked node up.\<close>

lemma insert_fixup:
  assumes tr: "is_tree h None (plug u cs)" and di: "distinct (inorder (plug u cs))" and ne: "cs \<noteq> []"
    and dr: "dir_ok h cs" and ac: "avl_ctx h cs 0" and gr: "grown h u 0 a" and rt: "avl_root lvt = rootp (plug u cs)"
    and ht: "avl_height lvt = int (ctx_height cs 0)"
  shows "\<exists>g h1 res. insert_climb h (avl_root lvt) (hole cs) = Some (g, h1) \<and> insert_rebalance h1 lvt g = Some res \<and>
    reb_post h lvt (plug u cs) (\<lambda>t h. reach h t a) res"
proof -
  have au: "a \<in> set_tree u" using gr reach_position [of h u a] by (auto simp: grown_def set_tree_plug)
  have rc: "avl_root lvt = rootc None cs" using rt rootc_Cons [OF ne] by (simp add: rootp_plug)
  have "is_ctx h cs (rootp u)" using tr by (simp add: is_tree_plug)
  from climb_ok [OF ne gr ac dr this di au] obtain res where
    r: "insert_climb h (avl_root lvt) (hole cs) = Some res" "climb_post h u cs 0 a res" unfolding rc by blast
  then obtain p h1 cs1 L g s cs2 m where c: "res = (p, h1)" "cs = cs1 @ (L, g, s) # cs2" "p = Some g" "heap_data h1 h"
    "\<forall>a. links h1 a = links h a \<and> ddir h1 a = ddir h a" "\<forall>a. a \<notin> ctx_set cs1 \<longrightarrow> h1 a = h a"
    "grown h1 (plug u cs1) m a" "avl_ctx h1 ((L, g, s) # cs2) m" "cs2 = [] \<or> bal h1 g \<noteq> TREE_BALANCED"
    "ctx_height cs 0 = ctx_height ((L, g, s) # cs2) m"
    unfolding climb_post_def by (cases res) blast
  have pl: "plug u cs = plug (plug u cs1) ((L, g, s) # cs2)" unfolding c(2) plug_append ..
  have tr1: "is_tree h1 None (plug (plug u cs1) ((L, g, s) # cs2))"
    using tr is_tree_cong [of "plug u cs" h1 h] c(5) unfolding pl by simp
  have dr1: "dir_ok h1 ((L, g, s) # cs2)"
    using dr dir_ok_cong [of "(L, g, s) # cs2" h1 h] c(5) unfolding c(2) by simp
  obtain res' where res': "insert_rebalance h1 lvt (Some g) = Some res'"
    "reb_post h1 lvt (plug u cs) (\<lambda>t h. reach h t a) res'"
    using insert_rebalance_ok [OF tr1 di [unfolded pl] dr1 c(7,8,9) rt [unfolded pl] ht [unfolded c(10)]]
    unfolding pl by blast
  have "\<forall>x. x \<notin> set_tree (plug u cs) \<longrightarrow> h1 x = h x" using c(6) unfolding set_tree_plug c(2) by simp
  then have "reb_post h lvt (plug u cs) (\<lambda>t h. reach h t a) res'"
    using res'(2) heap_data_trans [OF _ c(4)] unfolding reb_post_def by (cases res') (simp only: prod.case, metis)
  then show ?thesis using r(1) c(1,3) res'(1) by blast
qed

lemma clue_from_reach:
  assumes "reach h t a" "inorder t = xs @ a # ys" "distinct (inorder t)" "mn = last_opt xs" "mx = hd_opt ys"
  shows "clue_at h t a mn mx"
proof -
  obtain l r cs where p: "t = plug (Node l a r) cs" "dir_ok h cs" using assms(1) reach_position by blast
  have "xs @ a # ys = (lefts cs @ inorder l) @ a # (inorder r @ rights cs)" using assms(2) p by (simp add: inorder_plug)
  from distinct_split_unique [OF _ this] assms(2,3) have "xs = lefts cs @ inorder l" "ys = inorder r @ rights cs" by simp_all
  with p assms(4,5) show ?thesis by (auto simp: clue_at_def ctx_min_lefts ctx_max_rights)
qed

text \<open>A sorted listing stays sorted when the new key goes into the gap.\<close>

lemma search_tree_insert:
  assumes st: "search_tree h t" and io: "inorder t = xs @ ys" "inorder t' = xs @ a # ys" and tr: "is_tree h' None t'"
    and da: "\<And>x. x \<noteq> a \<Longrightarrow> rel_option data_eq (h' x) (h x)" and wf: "wf_node (the (h' a))" and a: "a \<notin> set_tree t"
    and lt: "\<forall>x \<in> set xs. hkey h x < hkey h' a" and gt: "\<forall>x \<in> set ys. hkey h' a < hkey h x"
  shows "search_tree h' t'"
proof -
  have out: "x \<noteq> a" if "x \<in> set xs \<union> set ys" for x using that a io(1) by (metis set_append set_inorder)
  have k: "hkey h' x = hkey h x \<and> (wf_node (the (h x)) \<longrightarrow> wf_node (the (h' x)))" if "x \<noteq> a" for x
    using da [OF that] by (cases "h x"; cases "h' x") (auto simp: hkey_def data_eq_def)
  have s: "sorted_keys h (xs @ ys)" using st io(1) by (simp add: search_tree_def)
  then have s': "sorted_keys h xs" "sorted_keys h ys" "\<forall>x \<in> set xs. \<forall>y \<in> set ys. hkey h x < hkey h y"
    by (simp_all add: sorted_keys_append)
  have m: "map (hkey h') xs = map (hkey h) xs" "map (hkey h') ys = map (hkey h) ys"
    using out k by auto
  have "sorted_keys h' xs" "sorted_keys h' ys" using s' unfolding sorted_keys_def m by blast+
  then have "sorted_keys h' (xs @ a # ys)"
    using s'(3) lt gt out k by (auto simp: sorted_keys_append sorted_keys_Cons)
  moreover have "wf_node (the (h' x))" if "x \<in> set_tree t'" for x
  proof (cases "x = a")
    case False
    then have "x \<in> set_tree t" using that io by (simp flip: set_inorder)
    with st k [OF False] show ?thesis by (simp add: search_tree_def)
  qed (use wf in simp)
  ultimately show ?thesis using tr io(2) by (simp add: search_tree_def)
qed

theorem insert_ok:
  assumes inv: "lv_inv h lvt t" and k: "lv_key k" and gap: "gap_at h t (key_abs k) b"
    and last: "lastNodeLookedUp lvt = Some b" and a: "a \<notin> set_tree t"
  shows "\<exists>h' lvt'. lvAvlTreeNodeInsert h lvt k (Some b) a slot = Some (Some a, h', lvt') \<and>
    insert_post k a slot h lvt t (h', lvt')"
proof -
  obtain L s cs where g: "t = plug Leaf ((L, b, s) # cs)" "dir_ok h ((L, b, s) # cs)" "fits h ((L, b, s) # cs) (key_abs k)"
    using gap unfolding gap_at_def by blast
  let ?cs = "(L, b, s) # cs" and ?u = "Node Leaf a Leaf"
  have i: "search_tree h t" "avl_root lvt = rootp t" "clue_at h t b (lastNodeMin lvt) (lastNodeMax lvt)" "avl h t"
    "avl_height lvt = int (height t)"
    using inv last by (auto simp: lv_inv_def lv_search_def clue_ok_def)
  have tr: "is_tree h None (plug Leaf ?cs)" and di: "distinct (inorder (plug Leaf ?cs))"
    using i(1) search_tree_distinct [OF i(1)] unfolding g(1) search_tree_def by simp_all
  let ?nn = "new_node slot lvt k (Some b)"
  note nn = new_node_ok [OF k, of slot lvt "Some b"]
  let ?h1 = "h(a \<mapsto> ?nn)"
  obtain n' where l: "link_child ?h1 (Some b) (Some a) = Some (?h1(b \<mapsto> n'))" "h b \<noteq> None" "data_eq n' (the (h b))" "b \<noteq> a"
    "descent_dir n' = ddir h b" "is_tree (?h1(b \<mapsto> n')) None (plug ?u ?cs)" "dir_ok (?h1(b \<mapsto> n')) ?cs"
    "avl_ctx (?h1(b \<mapsto> n')) ?cs 0" "grown (?h1(b \<mapsto> n')) ?u 0 a"
    using insert_link [OF tr di g(2) i(4) [unfolded g(1)] a [unfolded g(1)] nn(3-6)] by blast
  let ?h2 = "?h1(b \<mapsto> n')"
  let ?lvt1 = "if L then lvt\<lparr>lastNodeLookedUp := Some a, lastNodeMax := Some b\<rparr>
    else lvt\<lparr>lastNodeLookedUp := Some a, lastNodeMin := Some b\<rparr>"
  have io: "inorder (plug ?u ?cs) = lefts ?cs @ a # rights ?cs" "inorder t = lefts ?cs @ rights ?cs"
    unfolding g(1) inorder_plug by simp_all
  have di2: "distinct (inorder (plug ?u ?cs))"
    using di a unfolding g(1) io inorder_plug set_tree_plug set_lefts_rights by simp
  have "avl_root ?lvt1 = rootp (plug ?u ?cs)" "avl_height ?lvt1 = int (ctx_height ?cs 0)"
    using i(2,5) unfolding g(1) rootp_plug height_plug by simp_all
  from insert_fixup [OF l(6) di2 _ l(7-9) this] obtain p h3 h4 lvt4 where
    f: "insert_climb ?h2 (avl_root ?lvt1) (Some b) = Some (p, h3)" "insert_rebalance h3 ?lvt1 p = Some (h4, lvt4)"
    "reb_post ?h2 ?lvt1 (plug ?u ?cs) (\<lambda>t h. reach h t a) (h4, lvt4)" by auto
  obtain nb where nb: "?h1 b = Some nb" "descent_dir nb = dirv L" using l(2,4) g(2) by (auto simp: ddir_def)
  have run: "lvAvlTreeNodeInsert h lvt k (Some b) a slot = Some (Some a, h4, lvt4)"
    using l(1) nb f(1,2) by (simp add: lvAvlTreeNodeInsert_def Let_def split: if_splits)
  obtain t' where t': "is_tree h4 None t'" "inorder t' = lefts ?cs @ a # rights ?cs" "avl h4 t'" "heap_data h4 ?h2"
    "\<forall>x. x \<notin> set_tree (plug ?u ?cs) \<longrightarrow> h4 x = ?h2 x"
    "lvt4 = ?lvt1\<lparr>avl_root := rootp t', avl_height := int (height t')\<rparr>" "reach h4 t' a"
    using f(3) unfolding reb_post_def prod.case io by blast
  have rel: "rel_option data_eq (h4 x) (?h2 x)" for x using t'(4) by (simp add: heap_data_def)
  have da: "rel_option data_eq (h4 x) (h x)" if "x \<noteq> a" for x
    using rel [of x] that l(2,3) data_eq_trans by (cases "x = b") (auto simp: option_rel_Some2)
  have ka: "data_eq (the (h4 a)) ?nn" using rel [of a] l(4) by (auto simp: option_rel_Some2)
  have hk: "hkey h4 a = key_abs k" "wf_node (the (h4 a))" using ka nn(1,2) by (simp_all add: hkey_def data_eq_def)
  have st: "search_tree h4 t'"
    by (rule search_tree_insert [OF i(1) io(2) t'(2,1) da hk(2) a]) (use g(3) hk(1) in \<open>auto simp: fits_def\<close>)
  have mn: "lastNodeMin ?lvt1 = last_opt (lefts ?cs)" "lastNodeMax ?lvt1 = hd_opt (rights ?cs)"
    using gap_clue [OF i(1) g(1) i(3)] by (cases L; simp add: ctx_min_lefts ctx_max_rights)+
  have "clue_at h4 t' a (lastNodeMin lvt4) (lastNodeMax lvt4)"
    using mn t'(6) by (intro clue_from_reach [OF t'(7,2) search_tree_distinct [OF st]]) simp_all
  then have "lv_inv h4 lvt4 t'"
    using st t'(3,6) by (cases L) (simp_all add: lv_inv_def lv_search_def clue_ok_def)
  moreover have "\<forall>x. x \<notin> insert a (set_tree t) \<longrightarrow> h4 x = h x"
    using t'(5) unfolding g(1) set_tree_plug by auto
  moreover have "lastNodeLookedUp lvt4 = Some a" "lvt_addr lvt4 = lvt_addr lvt" using t'(6) by simp_all
  ultimately have "insert_post k a slot h lvt t (h4, lvt4)"
    using hk(1) da ka nn(7-9) by (intro insert_postI [OF io(2) t'(2)]) (simp_all add: data_eq_def)
  with run show ?thesis by blast
qed

lemma insert_first:
  assumes k: "lv_key k"
  shows "\<exists>h' lvt'. lvAvlTreeNodeInsert h lvt k None a slot = Some (Some a, h', lvt') \<and>
    insert_post k a slot h lvt Leaf (h', lvt')"
proof -
  note nn = new_node_ok [OF k, of slot lvt None]
  let ?nn = "new_node slot lvt k None" and ?t = "Node Leaf a Leaf"
  let ?h = "h(a \<mapsto> ?nn)" and ?lvt = "lvt\<lparr>lastNodeLookedUp := Some a, avl_root := Some a, avl_height := 1, lastNodeMin := None, lastNodeMax := None\<rparr>"
  have run: "lvAvlTreeNodeInsert h lvt k None a slot = Some (Some a, ?h, ?lvt)"
    by (simp add: lvAvlTreeNodeInsert_def Let_def)
  have "clue_at ?h ?t a None None" unfolding clue_at_def
    by (intro exI [of _ Leaf] exI [of _ Leaf] exI [of _ "[]"]) simp
  moreover have "search_tree ?h ?t" using nn by (simp add: search_tree_def sorted_keys_def)
  ultimately have "lv_inv ?h ?lvt ?t"
    using nn by (simp add: lv_inv_def lv_search_def clue_ok_def bal_ok_def)
  then have "insert_post k a slot h lvt Leaf (?h, ?lvt)"
    unfolding insert_post_def prod.case using nn
    by (intro exI [of _ ?t] exI [of _ "[]"] conjI) (auto simp: hkey_def option.rel_refl)
  with run show ?thesis by blast
qed

end
