(* ===== verification/LvDelete.thy ===== *)
theory LvDelete
  imports LvInsert
begin

text \<open>
  Deletion from a subscript tree: a node with no right child is replaced by its left subtree, any
  other by its in-order successor; the balance is then restored on the way up, with a rotation at
  every level that needs one.
\<close>

section \<open>Restoring the balance after a subtree got shorter\<close>

lemma reb_post_trans:
  assumes "reb_post h2 lvt2 t2 Q res" "inorder t2 = inorder t" "heap_data h2 h"
    "\<forall>a. a \<notin> set_tree t \<longrightarrow> h2 a = h a" "\<And>p n. lvt2\<lparr>avl_root := p, avl_height := n\<rparr> = lvt\<lparr>avl_root := p, avl_height := n\<rparr>"
  shows "reb_post h lvt t Q res"
proof -
  obtain h' lvt' where res: "res = (h', lvt')" by (cases res)
  obtain t' where t': "is_tree h' None t'" "inorder t' = inorder t2" "avl h' t'" "heap_data h' h2"
    "\<forall>a. a \<notin> set_tree t2 \<longrightarrow> h' a = h2 a" "lvt' = lvt2\<lparr>avl_root := rootp t', avl_height := int (height t')\<rparr>" "Q t' h'"
    using assms(1) unfolding reb_post_def res prod.case by blast
  have st: "set_tree t2 = set_tree t" using assms(2) by (simp flip: set_inorder)
  show ?thesis unfolding res
    using t' assms st heap_data_trans [OF t'(4) assms(3)] by (intro reb_postI [of h' t']) auto
qed

text \<open>
  The state at each level of the climb: below the context \<open>cs\<close> hangs the balanced subtree \<open>s\<close>, one
  level shorter than the context was made for.
\<close>

definition shrunk :: "lvheap \<Rightarrow> lvTree \<Rightarrow> nat tree \<Rightarrow> frame list \<Rightarrow> bool" where
  "shrunk h lvt s cs \<longleftrightarrow> is_tree h None (plug s cs) \<and> distinct (inorder (plug s cs)) \<and> dir_ok h cs \<and> avl h s \<and>
     avl_ctx h cs (height s + 1) \<and> avl_root lvt = rootp (plug s cs) \<and>
     avl_height lvt = int (ctx_height cs (height s + 1))"

text \<open>The rotation of one level: the node leans away from the side that got shorter.\<close>

lemma delete_rotate:
  assumes sh: "shrunk h lvt u ((L, g, s) # cs)" and bg: "bal h g = dirv (\<not> L)" and y: "rootp s = Some y"
  shows "\<exists>z h1 n h3 t1. rotate h (\<not> L) g y = Some (Some z, h1) \<and> h1 z = Some n \<and>
    relink (h1(z \<mapsto> n\<lparr>avl_parent := hole cs\<rparr>)) lvt (hole cs) (Some z) = Some (h3, lvt\<lparr>avl_root := rootp (plug t1 cs)\<rparr>) \<and>
    is_tree h3 None (plug t1 cs) \<and> inorder (plug t1 cs) = inorder (plug u ((L, g, s) # cs)) \<and>
    heap_data h3 h \<and> (\<forall>a. a \<notin> set_tree (plug u ((L, g, s) # cs)) \<longrightarrow> h3 a = h a) \<and> dir_ok h3 cs \<and> avl h3 t1 \<and>
    avl_ctx h3 cs (height u + 3) \<and> height t1 = (if bal h y = TREE_BALANCED then height u + 3 else height u + 2) \<and>
    ctx_height ((L, g, s) # cs) (height u + 1) = ctx_height cs (height u + 3)"
proof -
  let ?sub = "frm (\<not> L, g, u) s"
  have sw: "frm (L, g, s) u = ?sub" by simp
  have i: "is_tree h None (plug ?sub cs)" "distinct (inorder (plug ?sub cs))" "dir_ok h cs" "avl h u"
    "avl_ctx h ((L, g, s) # cs) (height u + 1)" "avl_root lvt = rootp (plug ?sub cs)"
    using sh unfolding shrunk_def plug.simps sw dir_ok.simps by simp_all
  have s: "avl h s" "height s = height u + 2" "avl_ctx h cs (height u + 3)"
    using i(5) bg bal_ok_side [of "bal h g" L "Suc (height u)" "height s"] by (auto simp: numeral_3_eq_3)
  have t0: "is_tree h (hole cs) ?sub" "distinct (inorder ?sub)"
    using i(1,2) by (simp_all add: is_tree_plug distinct_plug del: frm.simps)
  obtain z h1 n t1 where ro: "rotate h (\<not> L) g y = Some (Some z, h1)" "h1 z = Some n" "rootp t1 = Some z"
    "rot_post h (h1(z \<mapsto> n\<lparr>avl_parent := hole cs\<rparr>)) (hole cs) ?sub t1 (set_tree ?sub)"
    "avl (h1(z \<mapsto> n\<lparr>avl_parent := hole cs\<rparr>)) t1" "inorder t1 = inorder ?sub"
    "height t1 = (if bal h y = TREE_BALANCED then height u + 3 else height u + 2)"
    using rotate_ok [OF t0 s(1) i(4) bg s(2) y] by blast
  let ?h2 = "h1(z \<mapsto> n\<lparr>avl_parent := hole cs\<rparr>)"
  obtain h3 where h3: "relink ?h2 lvt (hole cs) (rootp t1) = Some (h3, lvt\<lparr>avl_root := rootp (plug t1 cs)\<rparr>)"
    "is_tree h3 None (plug t1 cs)" "heap_data h3 h" "\<forall>a. a \<notin> set_tree (plug ?sub cs) \<longrightarrow> h3 a = h a"
    "\<forall>a. ddir h3 a = ddir h a" "\<forall>a. bal h3 a = bal ?h2 a"
    using replace_ok [OF i(1-3,6) ro(4,6)] by blast
  have "avl h3 t1" using ro(5) h3(6) avl_cong [of t1 h3 ?h2] by simp
  moreover have "avl_ctx h3 cs (height u + 3)"
    using s(3) ro(4) h3(6) i(2) avl_ctx_out [of "set_tree ?sub" cs h3 h]
    by (simp add: rot_post_def distinct_plug del: frm.simps)
  moreover have "dir_ok h3 cs" using i(3) dir_ok_cong [of cs h3 h] h3(5) by simp
  moreover have "inorder (plug t1 cs) = inorder (plug u ((L, g, s) # cs))" unfolding plug.simps sw inorder_plug ro(6) ..
  moreover have "ctx_height ((L, g, s) # cs) (height u + 1) = ctx_height cs (height u + 3)"
    using s(2) by (simp add: numeral_3_eq_3)
  ultimately show ?thesis using ro h3 unfolding plug.simps sw ro(3) by blast
qed

lemma delete_balance_ok:
  assumes "shrunk h lvt s cs"
  shows "\<exists>res. delete_balance h lvt (hole cs) = Some res \<and> reb_post h lvt (plug s cs) (\<lambda>_ _. True) res"
  using assms
proof (induction cs arbitrary: h lvt s rule: rights.induct)
  case 1
  then have "reb_post h lvt (plug s []) (\<lambda>_ _. True) (h, lvt\<lparr>avl_height := avl_height lvt - 1\<rparr>)"
    by (intro reb_postI [where t' = s]) (auto simp: shrunk_def)
  then show ?case by (simp add: delete_balance.simps)
next
  case (2 L g s' cs)
  let ?t = "plug s ((L, g, s') # cs)"
  have tr: "is_tree h None ?t" and di: "distinct (inorder ?t)" and dr: "ddir h g = dirv L" "dir_ok h cs"
    and av: "avl h s" "avl h s'" "avl_ctx h cs (Suc (max (height s + 1) (height s')))"
    and rt: "avl_root lvt = rootp ?t" and ht: "avl_height lvt = int (ctx_height ((L, g, s') # cs) (height s + 1))"
    using "2.prems" unfolding shrunk_def by auto
  have "is_tree h (hole cs) (frm (L, g, s') s)" using tr unfolding plug.simps is_tree_plug by blast
  then obtain nd where nd: "h g = Some nd" "avl_parent nd = hole cs" "avl_left nd = (if L then rootp s else rootp s')"
    "avl_right nd = (if L then rootp s' else rootp s)" "descent_dir nd = dirv L" "balance nd = bal h g" "is_tree h (Some g) s'"
    unfolding is_tree_frm using dr by (auto simp: ddir_def bal_def)
  have c: "(bal h g = dirv L \<and> height s + 1 = height s' + 1) \<or> (bal h g = dirv (\<not> L) \<and> height s' = height s + 1 + 1) \<or>
      (bal h g = TREE_BALANCED \<and> height s + 1 = height s')"
    using "2.prems" bal_ok_side [of "bal h g" L "height s + 1" "height s'"] unfolding shrunk_def avl_ctx.simps by blast
  from c consider (stop) "bal h g = TREE_BALANCED" "height s' = height s + 1" | (up) "bal h g = dirv L" "height s' = height s"
    | (rot) "bal h g = dirv (\<not> L)" "height s' = height s + 2" by auto
  then show ?case
  proof cases
    case stop
    let ?h2 = "h(g \<mapsto> nd\<lparr>balance := dirv (\<not> L)\<rparr>)"
    have ac': "avl_ctx h cs (height (frm (L, g, s') s))" using av(3) stop(2) unfolding height_frm by simp
    have b: "(dirv (\<not> L) = dirv L \<and> height s = height s' + 1) \<or> (dirv (\<not> L) = dirv (\<not> L) \<and> height s' = height s + 1) \<or>
        (dirv (\<not> L) = TREE_BALANCED \<and> height s = height s')" using stop(2) by simp
    note p = set_balance [OF tr di av(1,2) b nd(1) refl]
    have pa: "avl ?h2 ?t" using p(2,6) ac' unfolding plug.simps avl_plug by simp
    have hq: "height ?t = ctx_height ((L, g, s') # cs) (height s + 1)" using stop(2) by (simp add: height_plug)
    have "reb_post h lvt ?t (\<lambda>_ _. True) (?h2, lvt)"
      using p(1-5) pa rt ht hq by (intro reb_postI [where t' = ?t]) simp_all
    moreover have "delete_balance h lvt (hole ((L, g, s') # cs)) = Some (?h2, lvt)"
      by (subst delete_balance.simps) (use nd stop(1) in simp)
    ultimately show ?thesis by blast
  next
    case up
    let ?h2 = "h(g \<mapsto> nd\<lparr>balance := TREE_BALANCED\<rparr>)" and ?s = "frm (L, g, s') s"
    have b: "(TREE_BALANCED = dirv L \<and> height s = height s' + 1) \<or> (TREE_BALANCED = dirv (\<not> L) \<and> height s' = height s + 1) \<or>
        (TREE_BALANCED = TREE_BALANCED \<and> height s = height s')" using up(2) by simp
    note p = set_balance [OF tr di av(1,2) b nd(1) refl]
    have hs: "height ?s = height s + 1" using up(2) unfolding height_frm by simp
    have "shrunk ?h2 lvt ?s cs"
      unfolding shrunk_def hs using p di dr(2) av(3) rt ht up(2) dir_ok_cong [of cs ?h2 h]
      by (simp add: max_def del: frm.simps)
    from "2.IH" [OF this] obtain res where res: "delete_balance ?h2 lvt (hole cs) = Some res"
      "reb_post ?h2 lvt (plug ?s cs) (\<lambda>_ _. True) res" by blast
    have "delete_balance h lvt (hole ((L, g, s') # cs)) = Some res"
      by (subst delete_balance.simps) (use nd up(1) res(1) in simp)
    moreover have "reb_post h lvt ?t (\<lambda>_ _. True) res"
      by (rule reb_post_trans [OF res(2)]) (use p in simp_all)
    ultimately show ?thesis by blast
  next
    case rot
    then obtain y where y: "rootp s' = Some y" by (cases s') auto
    then obtain ny where ny: "h y = Some ny" "balance ny = bal h y" using nd(7) by (cases s') (auto simp: bal_def split: option.splits)
    have by': "bal h y = TREE_BALANCED \<or> bal h y = dirv L \<or> bal h y = dirv (\<not> L)"
      using av(2) y by (cases s'; cases L) (auto simp: bal_ok_def)
    obtain z h1 n h3 t1 where r: "rotate h (\<not> L) g y = Some (Some z, h1)" "h1 z = Some n"
      "relink (h1(z \<mapsto> n\<lparr>avl_parent := hole cs\<rparr>)) lvt (hole cs) (Some z) = Some (h3, lvt\<lparr>avl_root := rootp (plug t1 cs)\<rparr>)"
      "is_tree h3 None (plug t1 cs)" "inorder (plug t1 cs) = inorder ?t"
      "heap_data h3 h" "\<forall>a. a \<notin> set_tree ?t \<longrightarrow> h3 a = h a" "dir_ok h3 cs" "avl h3 t1"
      "avl_ctx h3 cs (height s + 3)" "height t1 = (if bal h y = TREE_BALANCED then height s + 3 else height s + 2)"
      "ctx_height ((L, g, s') # cs) (height s + 1) = ctx_height cs (height s + 3)"
      using delete_rotate [OF "2.prems" rot(1) y] by blast
    let ?lvt = "lvt\<lparr>avl_root := rootp (plug t1 cs)\<rparr>"
    have run: "delete_balance h lvt (hole ((L, g, s') # cs)) =
      (if bal h y = TREE_BALANCED then Some (h3, ?lvt) else delete_balance h3 ?lvt (hole cs))"
      by (subst delete_balance.simps)
        (use nd(1-6) ny r(1,2,3) rot(1) y by' in \<open>cases L; elim disjE; simp add: rotate_def Let_def\<close>)
    show ?thesis
    proof (cases "bal h y = TREE_BALANCED")
      case True
      have "reb_post h lvt ?t (\<lambda>_ _. True) (h3, ?lvt)"
      proof (rule reb_postI [OF r(4,5) _ r(6,7)])
        show "avl h3 (plug t1 cs)" using r(9,10,11) True by (simp add: avl_plug)
        have "height (plug t1 cs) = ctx_height ((L, g, s') # cs) (height s + 1)" using r(11,12) True by (simp add: height_plug)
        then show "?lvt = lvt\<lparr>avl_root := rootp (plug t1 cs), avl_height := int (height (plug t1 cs))\<rparr>" using ht by simp
      qed simp
      with run True show ?thesis by simp
    next
      case False
      have "shrunk h3 ?lvt t1 cs"
        using r(4,5,8-12) False di ht by (simp add: shrunk_def del: plug.simps ctx_height.simps) (simp add: numeral_3_eq_3)
      from "2.IH" [OF this] obtain res where res: "delete_balance h3 ?lvt (hole cs) = Some res"
        "reb_post h3 ?lvt (plug t1 cs) (\<lambda>_ _. True) res" by blast
      from reb_post_trans [OF res(2) r(5,6,7)] have "reb_post h lvt ?t (\<lambda>_ _. True) res" by simp
      with run False res(1) show ?thesis by auto
    qed
  qed
qed

section \<open>Unlinking\<close>

text \<open>Two stores that differ in links and, on \<open>S\<close>, in directions only.\<close>

definition relinked :: "lvheap \<Rightarrow> lvheap \<Rightarrow> nat set \<Rightarrow> bool" where
  "relinked h' h S \<longleftrightarrow> heap_data h' h \<and> (\<forall>x. x \<notin> S \<longrightarrow> h' x = h x) \<and> (\<forall>x. ddir h' x = ddir h x \<and> bal h' x = bal h x)"

lemma relinked_out: "relinked h' h S \<Longrightarrow> x \<notin> S \<Longrightarrow> h' x = h x"
  by (simp add: relinked_def)

lemma relinked_trans:
  assumes "relinked h2 h1 S" "relinked h1 h S'" "S \<union> S' \<subseteq> T"
  shows "relinked h2 h T"
proof -
  have "h2 x = h x" if "x \<notin> T" for x
    using that assms(3) relinked_out [OF assms(1), of x] relinked_out [OF assms(2), of x] by (metis UnI1 UnI2 subsetD)
  then show ?thesis using assms(1,2) heap_data_trans [of h2 h1 h] by (simp add: relinked_def)
qed

lemma relinked_links:
  assumes "relinked h' h S" "S \<inter> T = {}" "x \<in> T"
  shows "links h' x = links h x"
proof -
  have "x \<notin> S" using assms(2,3) by blast
  then show ?thesis using relinked_out [OF assms(1)] by (simp add: links_def)
qed

lemma relinked_tree: "relinked h' h S \<Longrightarrow> S \<inter> set_tree t = {} \<Longrightarrow> is_tree h' p t = is_tree h p t"
  by (rule is_tree_cong) (rule relinked_links)

lemma relinked_ctx: "relinked h' h S \<Longrightarrow> S \<inter> ctx_set cs = {} \<Longrightarrow> is_ctx h' cs q = is_ctx h cs q"
  by (rule is_ctx_cong) (rule relinked_links)

lemma relinked_dir: "relinked h' h S \<Longrightarrow> dir_ok h' cs = dir_ok h cs"
  by (rule dir_ok_cong) (simp add: relinked_def)

lemma relinked_upd:
  "h a = Some n \<Longrightarrow> data_eq n' n \<Longrightarrow> descent_dir n' = descent_dir n \<Longrightarrow> balance n' = balance n \<Longrightarrow> relinked (h(a \<mapsto> n')) h {a}"
  by (simp add: relinked_def ddir_def bal_def)

lemma reparent_ok:
  assumes "is_tree h p t" "distinct (inorder t)"
  shows "\<exists>h'. upd_opt h (rootp t) (\<lambda>n. n\<lparr>avl_parent := q\<rparr>) = Some h' \<and> is_tree h' q t \<and> relinked h' h (set_tree t)"
proof (cases t)
  case Leaf then show ?thesis by (simp add: relinked_def)
next
  case (Node l a r)
  then obtain n where n: "h a = Some n" "avl_left n = rootp l" "avl_right n = rootp r" "is_tree h (Some a) l" "is_tree h (Some a) r"
    using assms(1) by (auto split: option.splits)
  have "a \<notin> set_tree l" "a \<notin> set_tree r" using assms(2) Node by auto
  with n Node show ?thesis by (auto simp: relinked_def ddir_def bal_def)
qed

text \<open>A context below a parent other than the root's.\<close>

definition hole_or :: "nptr \<Rightarrow> frame list \<Rightarrow> nptr" where
  "hole_or p cs = (if cs = [] then p else hole cs)"

fun seg :: "lvheap \<Rightarrow> nptr \<Rightarrow> frame list \<Rightarrow> nptr \<Rightarrow> bool" where
  "seg h p [] q = True"
| "seg h p ((L, a, s) # cs) q =
    (case h a of None \<Rightarrow> False
     | Some n \<Rightarrow> avl_parent n = hole_or p cs \<and> avl_left n = (if L then q else rootp s) \<and>
         avl_right n = (if L then rootp s else q) \<and> is_tree h (Some a) s \<and> seg h p cs (Some a))"

lemma is_tree_plug_seg: "is_tree h p (plug t cs) \<longleftrightarrow> is_tree h (hole_or p cs) t \<and> seg h p cs (rootp t)"
proof (induction cs arbitrary: t rule: rights.induct)
  case (2 L a s cs)
  show ?case by (cases L) (auto simp: "2.IH" hole_or_def split: option.splits)
qed (simp add: hole_or_def)

lemma seg_cong:
  "(\<And>a. a \<in> ctx_set cs \<Longrightarrow> links h' a = links h a) \<Longrightarrow> seg h' p cs q = seg h p cs q"
proof (induction cs arbitrary: q rule: rights.induct)
  case (2 L a s cs)
  have "links h' a = links h a" using "2.prems" by simp
  moreover have "is_tree h' (Some a) s = is_tree h (Some a) s" using "2.prems" by (intro is_tree_cong) auto
  moreover have "\<And>q. seg h' p cs q = seg h p cs q" using "2.IH" "2.prems" by auto
  ultimately show ?case by (cases "h a"; cases "h' a") (auto simp: links_def)
qed simp

lemma seg_upd [simp]: "a \<notin> ctx_set cs \<Longrightarrow> seg (h(a := x)) p cs q = seg h p cs q"
  by (rule seg_cong) (auto simp: links_def)

text \<open>The successor, at the end of the left spine of the right subtree.\<close>

lemma delete_succ_ok:
  assumes "is_tree h p r" "r \<noteq> Leaf" "distinct (inorder r)"
  shows "\<exists>b br cs h'. r = plug (Node Leaf b br) cs \<and> lefts cs = [] \<and> delete_succ h (rootp r) = Some (Some b, h') \<and> heap_data h' h \<and>
    (\<forall>x. links h' x = links h x \<and> bal h' x = bal h x) \<and> (\<forall>x. x \<notin> ctx_set cs \<longrightarrow> h' x = h x) \<and> dir_ok h' cs"
  using assms
proof (induction r arbitrary: h p)
  case (Node l a r)
  then obtain n where n: "h a = Some n" "avl_left n = rootp l" "is_tree h (Some a) l" by (auto split: option.splits)
  show ?case
  proof (cases "l = Leaf")
    case True
    have "delete_succ h (Some a) = Some (Some a, h)" by (subst delete_succ.simps) (use n True in simp)
    then show ?thesis using True
      by (intro exI [of _ a] exI [of _ r] exI [of _ "[]"] exI [of _ h]) simp
  next
    case False
    let ?h = "h(a \<mapsto> n\<lparr>descent_dir := TREE_DESCEND_LEFT\<rparr>)"
    have a: "a \<notin> set_tree l" "distinct (inorder l)" using Node.prems(3) by auto
    then have "is_tree ?h (Some a) l" using n(3) by simp
    from Node.IH(1) [OF this False a(2)] obtain b br cs h' where ln: "lefts cs = []" and r: "l = plug (Node Leaf b br) cs"
      "delete_succ ?h (rootp l) = Some (Some b, h')" "heap_data h' ?h"
      "\<forall>x. links h' x = links ?h x \<and> bal h' x = bal ?h x" "\<forall>x. x \<notin> ctx_set cs \<longrightarrow> h' x = ?h x" "dir_ok h' cs" by blast
    have ac: "a \<notin> ctx_set cs" using a r(1) by (simp add: set_tree_plug)
    have "heap_data ?h h" using n(1) by simp
    then have "heap_data h' h" by (rule heap_data_trans [OF r(3)])
    moreover have "\<forall>x. links h' x = links h x \<and> bal h' x = bal h x" using r(4) n(1) by (simp add: links_def bal_def)
    moreover have "dir_ok h' (cs @ [(True, a, r)])" using r(5,6) ac by (simp add: ddir_def)
    moreover have "delete_succ h (Some a) = Some (Some b, h')"
      by (subst delete_succ.simps) (use n False r(2) in simp)
    moreover have "Node l a r = plug (Node Leaf b br) (cs @ [(True, a, r)])" using r(1) by (simp add: plug_append)
    moreover have "\<forall>x. x \<notin> ctx_set (cs @ [(True, a, r)]) \<longrightarrow> h' x = h x" using r(5) by simp
    moreover have "lefts (cs @ [(True, a, r)]) = []" using ln by (simp add: lefts_append)
    ultimately show ?thesis unfolding rootp.simps by blast
  qed
qed simp

text \<open>Taking the successor \<open>b\<close> out of the right subtree: its right subtree takes its place.\<close>

lemma unlink_succ:
  assumes tr: "is_tree h p (plug (Node Leaf b br) cs)" and ne: "cs \<noteq> []"
    and di: "distinct (inorder (plug (Node Leaf b br) cs))" and dr: "dir_ok h cs"
  shows "\<exists>h1 h2. link_child h (hole cs) (rootp br) = Some h1 \<and>
    upd_opt h1 (rootp br) (\<lambda>n. n\<lparr>avl_parent := hole cs\<rparr>) = Some h2 \<and> is_tree h2 p (plug br cs) \<and>
    relinked h2 h (set_tree br \<union> ctx_set cs)"
proof -
  obtain L a s cs' where cs: "cs = (L, a, s) # cs'" using ne by (cases cs rule: rights.cases) auto
  have d: "a \<notin> set_tree s" "a \<notin> ctx_set cs'" "a \<notin> set_tree br" "distinct (inorder br)" "set_tree br \<inter> ctx_set cs = {}"
    using di unfolding distinct_plug cs distinct_ctx_step by auto
  have i: "is_tree h (Some b) br" "seg h p cs (Some b)" "is_tree h (hole cs) (Node Leaf b br)"
    using tr ne unfolding is_tree_plug_seg by (auto simp: hole_or_def split: option.splits)
  then obtain n where n: "h a = Some n" "avl_parent n = hole_or p cs'" "avl_left n = (if L then Some b else rootp s)"
    "avl_right n = (if L then rootp s else Some b)" "is_tree h (Some a) s" "seg h p cs' (Some a)" "descent_dir n = dirv L"
    using dr unfolding cs by (auto simp: ddir_def split: option.splits)
  define n' where "n' = (if L then n\<lparr>avl_left := rootp br\<rparr> else n\<lparr>avl_right := rootp br\<rparr>)"
  let ?h1 = "h(a \<mapsto> n')"
  have lk: "link_child h (hole cs) (rootp br) = Some ?h1" using n(1,7) cs by (simp add: link_child_def n'_def)
  have sg: "seg ?h1 p cs (rootp br)" using n d unfolding cs by (simp add: n'_def)
  have r1: "relinked ?h1 h {a}" using n(1) by (intro relinked_upd [of h a n]) (auto simp: n'_def)
  have "is_tree ?h1 (Some b) br" using i(1) d(3) by simp
  from reparent_ok [OF this d(4), of "hole cs"] obtain h2 where
    h2: "upd_opt ?h1 (rootp br) (\<lambda>n. n\<lparr>avl_parent := hole cs\<rparr>) = Some h2" "is_tree h2 (hole cs) br" "relinked h2 ?h1 (set_tree br)"
    by blast
  have "seg h2 p cs (rootp br)"
    using sg seg_cong [of cs h2 ?h1] relinked_links [OF h2(3) d(5)] by blast
  then have "is_tree h2 p (plug br cs)" unfolding is_tree_plug_seg using h2(2) ne by (simp add: hole_or_def)
  moreover have "relinked h2 h (set_tree br \<union> ctx_set cs)" by (rule relinked_trans [OF h2(3) r1]) (auto simp: cs)
  ultimately show ?thesis using lk h2(1) by blast
qed

text \<open>The part of \<open>delete_unlink\<close> that takes the successor out, for either distance to it.\<close>

definition splice :: "lvheap \<Rightarrow> nptr \<Rightarrow> nptr \<Rightarrow> nptr \<Rightarrow> nptr \<Rightarrow> nptr \<Rightarrow> (nptr \<times> lvheap) option" where
  "splice h node next nextParent nextRight nodeRight =
     (if nextParent \<noteq> node then do {
            h \<leftarrow> link_child h nextParent nextRight;
            h \<leftarrow> upd_opt h nextRight (\<lambda>n. n\<lparr>avl_parent := nextParent\<rparr>);
            h \<leftarrow> upd h next (\<lambda>n. n\<lparr>avl_right := nodeRight\<rparr>);
            h \<leftarrow> upd h nodeRight (\<lambda>n. n\<lparr>avl_parent := next\<rparr>);
            Some (nextParent, h)
          } else Some (next, h))"

lemma splice_ok:
  assumes tr: "is_tree h (Some a) (plug (Node Leaf b br) cs)" (is "is_tree h _ ?r")
    and di: "distinct (inorder (plug (Node Leaf b br) cs))" and a: "a \<notin> set_tree (plug (Node Leaf b br) cs)"
    and dr: "dir_ok h cs"
  shows "\<exists>h2 nb. splice h (Some a) (Some b) (hole_or (Some a) cs) (rootp br) (rootp ?r) = Some (hole (cs @ [(False, b, l)]), h2) \<and>
    is_tree h2 (Some b) (plug br cs) \<and> h2 b = Some nb \<and> avl_right nb = rootp (plug br cs) \<and> relinked h2 h (set_tree ?r)"
proof -
  have "is_tree h (hole_or (Some a) cs) (Node Leaf b br)" using tr unfolding is_tree_plug_seg by blast
  then obtain nx where nx: "h b = Some nx" "avl_right nx = rootp br" "is_tree h (Some b) br" by (auto split: option.splits)
  have d: "b \<notin> set_tree br" "b \<notin> ctx_set cs" using di unfolding distinct_plug by auto
  show ?thesis
  proof (cases "cs = []")
    case True
    then show ?thesis using nx by (auto simp: splice_def hole_or_def relinked_def)
  next
    case False
    then obtain L c s cs' where cs: "cs = (L, c, s) # cs'" by (cases cs rule: rights.cases) auto
    have ca: "hole cs \<noteq> Some a" using a unfolding set_tree_plug cs by auto
    obtain h1 h2 where u: "link_child h (hole cs) (rootp br) = Some h1"
      "upd_opt h1 (rootp br) (\<lambda>n. n\<lparr>avl_parent := hole cs\<rparr>) = Some h2" "is_tree h2 (Some a) (plug br cs)"
      "relinked h2 h (set_tree br \<union> ctx_set cs)"
      using unlink_succ [OF tr False di dr] by blast
    have b2: "h2 b = Some nx" using relinked_out [OF u(4), of b] d nx(1) by simp
    let ?h3 = "h2(b \<mapsto> nx\<lparr>avl_right := rootp ?r\<rparr>)"
    have rr: "rootp ?r = rootp (plug br cs)" unfolding rootp_plug using rootc_Cons [OF False] by blast
    have "is_tree ?h3 (Some a) (plug br cs)" using u(3) d by (simp add: set_tree_plug)
    moreover have "distinct (inorder (plug br cs))" using di by (simp add: distinct_plug)
    ultimately obtain h4 where h4: "upd_opt ?h3 (rootp (plug br cs)) (\<lambda>n. n\<lparr>avl_parent := Some b\<rparr>) = Some h4"
      "is_tree h4 (Some b) (plug br cs)" "relinked h4 ?h3 (set_tree (plug br cs))"
      using reparent_ok by blast
    have "rootp (plug br cs) \<noteq> None" using False by simp
    then have u4: "upd ?h3 (rootp ?r) (\<lambda>n. n\<lparr>avl_parent := Some b\<rparr>) = Some h4" using h4(1) unfolding rr upd_opt_def by (simp split: if_splits)
    have "splice h (Some a) (Some b) (hole_or (Some a) cs) (rootp br) (rootp ?r) = Some (hole cs, h4)"
      using u(1,2) b2 u4 ca False by (simp add: splice_def hole_or_def)
    moreover have "h4 b = ?h3 b" by (rule relinked_out [OF h4(3)]) (simp add: set_tree_plug d)
    then have "h4 b = Some (nx\<lparr>avl_right := rootp ?r\<rparr>)" by simp
    moreover have "relinked h4 h (set_tree ?r)"
    proof -
      have "relinked ?h3 h2 {b}" using b2 by (intro relinked_upd [of h2 b nx]) auto
      then have "relinked ?h3 h (set_tree ?r)" by (rule relinked_trans [OF _ u(4)]) (auto simp: set_tree_plug)
      then show ?thesis by (rule relinked_trans [OF h4(3)]) (auto simp: set_tree_plug)
    qed
    moreover have "hole (cs @ [(False, b, l)]) = hole cs" unfolding cs by simp
    ultimately show ?thesis using h4(2) rr by auto
  qed
qed

text \<open>Putting the successor in the place of the deleted node.\<close>

lemma adopt_ok:
  assumes b: "h b = Some nb" "avl_right nb = rootp r1" and r1: "is_tree h (Some b) r1" and l: "is_tree h p l"
    and d: "b \<notin> set_tree l" "b \<notin> set_tree r1" "set_tree l \<inter> set_tree r1 = {}" "distinct (inorder l)"
  shows "\<exists>h1 n1. upd_opt (h(b \<mapsto> nb\<lparr>avl_left := rootp l\<rparr>)) (rootp l) (\<lambda>n. n\<lparr>avl_parent := Some b\<rparr>) = Some h1 \<and> h1 b = Some n1 \<and>
    is_tree (h1(b \<mapsto> n1\<lparr>avl_parent := q, balance := bl, descent_dir := TREE_DESCEND_RIGHT\<rparr>)) q (Node l b r1) \<and>
    heap_data h1 h \<and> (\<forall>x. x \<noteq> b \<longrightarrow> ddir h1 x = ddir h x \<and> bal h1 x = bal h x) \<and>
    (\<forall>x. x \<noteq> b \<longrightarrow> x \<notin> set_tree l \<longrightarrow> h1 x = h x)"
proof -
  let ?h = "h(b \<mapsto> nb\<lparr>avl_left := rootp l\<rparr>)"
  have "is_tree ?h p l" using l d by simp
  then obtain h1 where h1: "upd_opt ?h (rootp l) (\<lambda>n. n\<lparr>avl_parent := Some b\<rparr>) = Some h1" "is_tree h1 (Some b) l"
    "relinked h1 ?h (set_tree l)" using reparent_ok d(4) by blast
  have b1: "h1 b = Some (nb\<lparr>avl_left := rootp l\<rparr>)" using relinked_out [OF h1(3) d(1)] by simp
  have "is_tree h1 (Some b) r1" using r1 d relinked_tree [OF h1(3) d(3)] by simp
  moreover have "heap_data h1 h" using h1(3) b(1) heap_data_trans [of h1 ?h h] by (simp add: relinked_def)
  moreover have "\<forall>x. x \<noteq> b \<longrightarrow> ddir h1 x = ddir h x \<and> bal h1 x = bal h x" using h1(3) by (simp add: relinked_def)
  moreover have "\<forall>x. x \<noteq> b \<longrightarrow> x \<notin> set_tree l \<longrightarrow> h1 x = h x" using relinked_out [OF h1(3)] by simp
  ultimately show ?thesis using h1(1,2) b1 b(2) d by simp
qed

lemma delete_unlink_eq:
  "delete_unlink h lvt node = do {
     nd \<leftarrow> rd h node;
     if avl_right nd = None then do {
       (h, lvt) \<leftarrow> relink h lvt (avl_parent nd) (avl_left nd);
       h \<leftarrow> upd_opt h (avl_left nd) (\<lambda>n. n\<lparr>avl_parent := avl_parent nd\<rparr>);
       Some (avl_parent nd, h, lvt)
     } else do {
       (next, h) \<leftarrow> delete_succ h (avl_right nd);
       nx \<leftarrow> rd h next;
       (balanceThisNode, h) \<leftarrow> splice h node next (avl_parent nx) (avl_right nx) (avl_right nd);
       h \<leftarrow> upd h next (\<lambda>n. n\<lparr>avl_left := avl_left nd\<rparr>);
       h \<leftarrow> upd_opt h (avl_left nd) (\<lambda>n. n\<lparr>avl_parent := next\<rparr>);
       h \<leftarrow> upd h next (\<lambda>n. n\<lparr>avl_parent := avl_parent nd, balance := balance nd, descent_dir := TREE_DESCEND_RIGHT\<rparr>);
       (h, lvt) \<leftarrow> relink h lvt (avl_parent nd) next;
       Some (balanceThisNode, h, lvt)
     }
   }"
  unfolding delete_unlink_def splice_def Let_def by (rule refl)

text \<open>What unlinking \<open>a\<close> leaves: the rest of the listing, and a subtree one level shorter than its context.\<close>

definition unlink_post :: "lvheap \<Rightarrow> lvTree \<Rightarrow> nat tree \<Rightarrow> nat list \<Rightarrow> nptr \<times> lvheap \<times> lvTree \<Rightarrow> bool" where
  "unlink_post h lvt t io res = (case res of (bn, h', lvt') \<Rightarrow>
     \<exists>s cs. bn = hole cs \<and> shrunk h' lvt' s cs \<and> inorder (plug s cs) = io \<and> heap_data h' h \<and>
       (\<forall>x. x \<notin> set_tree t \<longrightarrow> h' x = h x) \<and> lvt' = lvt\<lparr>avl_root := rootp (plug s cs)\<rparr>)"

lemma unlink_no_right:
  assumes tr: "is_tree h None (plug (Node l a Leaf) cs)" (is "is_tree h None ?t")
    and di: "distinct (inorder (plug (Node l a Leaf) cs))" and dr: "dir_ok h cs"
    and av: "avl h (plug (Node l a Leaf) cs)" and rt: "avl_root lvt = rootp (plug (Node l a Leaf) cs)"
    and ht: "avl_height lvt = int (height (plug (Node l a Leaf) cs))"
  shows "\<exists>res. delete_unlink h lvt (Some a) = Some res \<and> unlink_post h lvt ?t (lefts cs @ inorder l @ rights cs) res"
proof -
  have i: "is_tree h (hole cs) (Node l a Leaf)" "is_ctx h cs (Some a)" using tr by (simp_all add: is_tree_plug)
  then obtain nd where nd: "h a = Some nd" "avl_left nd = rootp l" "avl_right nd = None" "avl_parent nd = hole cs" "is_tree h (Some a) l"
    by (auto split: option.splits)
  have d: "distinct (inorder l)" "distinct (lefts cs @ rights cs)" "set_tree l \<inter> ctx_set cs = {}"
    using di unfolding distinct_plug by auto
  have "avl_root lvt = rootc (Some a) cs" using rt by (simp add: rootp_plug)
  from relink_ok [OF i(2) dr d(2) this] obtain h1 where
    h1: "relink h lvt (hole cs) (rootp l) = Some (h1, lvt\<lparr>avl_root := rootc (rootp l) cs\<rparr>)" "is_ctx h1 cs (rootp l)" "heap_data h1 h"
      "\<forall>x. ddir h1 x = ddir h x \<and> bal h1 x = bal h x" "\<forall>x. hole cs \<noteq> Some x \<longrightarrow> h1 x = h x" by blast
  have hc: "hole cs \<noteq> Some x" if "x \<notin> ctx_set cs" for x using that by (cases cs rule: rights.cases) auto
  have r1: "relinked h1 h (ctx_set cs)" using h1(3-5) hc by (auto simp: relinked_def)
  have "is_tree h1 (Some a) l" using nd(5) d(3) relinked_tree [OF r1, of l] by (simp add: Int_commute)
  from reparent_ok [OF this d(1), of "hole cs"] obtain h2 where
    h2: "upd_opt h1 (rootp l) (\<lambda>n. n\<lparr>avl_parent := hole cs\<rparr>) = Some h2" "is_tree h2 (hole cs) l" "relinked h2 h1 (set_tree l)" by blast
  have r2: "relinked h2 h (set_tree ?t)" by (rule relinked_trans [OF h2(3) r1]) (auto simp: set_tree_plug)
  have b2: "\<And>x. bal h2 x = bal h x" using r2 by (simp add: relinked_def)
  let ?lvt = "lvt\<lparr>avl_root := rootp (plug l cs)\<rparr>"
  have run: "delete_unlink h lvt (Some a) = Some (hole cs, h2, ?lvt)"
    using nd h1(1) h2(1) by (simp add: delete_unlink_eq rootp_plug)
  have hl: "avl h l" "height (Node l a Leaf) = height l + 1" "avl_ctx h cs (height l + 1)" "height ?t = ctx_height cs (height l + 1)"
    using av by (auto simp: avl_plug height_plug bal_ok_def)
  have "shrunk h2 ?lvt l cs"
    unfolding shrunk_def
    using h2(2) relinked_ctx [OF h2(3) d(3)] h1(2) d relinked_dir [OF r2] dr ht hl avl_cong [OF b2] avl_ctx_cong [OF b2]
    by (simp add: is_tree_plug distinct_plug)
  then have "unlink_post h lvt ?t (lefts cs @ inorder l @ rights cs) (hole cs, h2, ?lvt)"
    unfolding unlink_post_def prod.case using r2
    by (intro exI [of _ l] exI [of _ cs]) (simp add: inorder_plug relinked_def)
  with run show ?thesis by blast
qed

lemma avl_ctx_append: "avl_ctx h (cs1 @ cs2) n \<longleftrightarrow> avl_ctx h cs1 n \<and> avl_ctx h cs2 (ctx_height cs1 n)"
  by (induction cs1 arbitrary: n rule: rights.induct) auto

lemma ctx_height_append: "ctx_height (cs1 @ cs2) n = ctx_height cs2 (ctx_height cs1 n)"
  by (induction cs1 arbitrary: n rule: rights.induct) auto

lemma hole_append: "hole (cs1 @ cs2) = hole_or (hole cs2) cs1"
  by (cases cs1 rule: rights.cases) (auto simp: hole_or_def)

lemma unlink_right:
  assumes tr: "is_tree h None (plug (Node l a r) cs)" (is "is_tree h None ?t") and ne: "r \<noteq> Leaf"
    and di: "distinct (inorder (plug (Node l a r) cs))" and dr: "dir_ok h cs"
    and av: "avl h (plug (Node l a r) cs)" and rt: "avl_root lvt = rootp (plug (Node l a r) cs)"
    and ht: "avl_height lvt = int (height (plug (Node l a r) cs))"
  shows "\<exists>res. delete_unlink h lvt (Some a) = Some res \<and>
    unlink_post h lvt ?t (lefts cs @ inorder l @ inorder r @ rights cs) res"
proof -
  have i: "is_tree h (hole cs) (Node l a r)" "is_ctx h cs (Some a)" using tr by (simp_all add: is_tree_plug)
  then obtain nd where nd: "h a = Some nd" "avl_left nd = rootp l" "avl_right nd = rootp r" "avl_parent nd = hole cs"
    "is_tree h (Some a) l" "is_tree h (Some a) r" "balance nd = bal h a" by (auto simp: bal_def split: option.splits)
  have d: "distinct (inorder l)" "distinct (inorder r)" "distinct (lefts cs @ rights cs)" "a \<notin> set_tree l" "a \<notin> set_tree r"
    "set_tree l \<inter> set_tree r = {}" "a \<notin> ctx_set cs" "set_tree l \<inter> ctx_set cs = {}" "set_tree r \<inter> ctx_set cs = {}"
    using di unfolding distinct_plug by auto
  obtain b br cs1 h1 where ln: "lefts cs1 = []" and s1: "r = plug (Node Leaf b br) cs1" "delete_succ h (rootp r) = Some (Some b, h1)" "heap_data h1 h"
    "\<forall>x. links h1 x = links h x \<and> bal h1 x = bal h x" "\<forall>x. x \<notin> ctx_set cs1 \<longrightarrow> h1 x = h x" "dir_ok h1 cs1"
    using delete_succ_ok [OF nd(6) ne d(2)] by blast
  have tr1: "is_tree h1 (Some a) r" "is_tree h1 (Some a) l" "is_ctx h1 cs (Some a)"
    using nd(5,6) i(2) s1(4) is_tree_cong [of _ h1 h] is_ctx_cong [of _ h1 h] by simp_all
  have "is_tree h1 (hole_or (Some a) cs1) (Node Leaf b br)" using tr1(1) unfolding s1(1) is_tree_plug_seg by blast
  then obtain nx where nx: "h1 b = Some nx" "avl_parent nx = hole_or (Some a) cs1" "avl_right nx = rootp br" by (auto split: option.splits)
  obtain h2 nb where s2: "splice h1 (Some a) (Some b) (hole_or (Some a) cs1) (rootp br) (rootp r) = Some (hole (cs1 @ [(False, b, l)]), h2)"
    "is_tree h2 (Some b) (plug br cs1)" "h2 b = Some nb" "avl_right nb = rootp (plug br cs1)" "relinked h2 h1 (set_tree r)"
    using splice_ok [OF tr1(1) [unfolded s1(1)] d(2) [unfolded s1(1)] d(5) [unfolded s1(1)] s1(6), of l] unfolding s1(1) by blast
  let ?r1 = "plug br cs1"
  have br: "b \<in> set_tree r" "set_tree ?r1 \<subseteq> set_tree r" "b \<notin> set_tree ?r1" "b \<notin> ctx_set cs1"
    using s1(1) d(2) by (auto simp: set_tree_plug distinct_plug)
  have l2: "is_tree h2 (Some a) l" using relinked_tree [OF s2(5), of l] tr1(2) d(6) by (simp add: Int_commute)
  have "b \<notin> set_tree l" "set_tree l \<inter> set_tree ?r1 = {}" using br d(6) by auto
  from adopt_ok [OF s2(3,4,2) l2 this(1) br(3) this(2) d(1), where q = "hole cs" and bl = "bal h a"] obtain h3 n3 where s3:
    "upd_opt (h2(b \<mapsto> nb\<lparr>avl_left := rootp l\<rparr>)) (rootp l) (\<lambda>n. n\<lparr>avl_parent := Some b\<rparr>) = Some h3" "h3 b = Some n3"
    "is_tree (h3(b \<mapsto> n3\<lparr>avl_parent := hole cs, balance := bal h a, descent_dir := TREE_DESCEND_RIGHT\<rparr>)) (hole cs) (Node l b ?r1)"
    "heap_data h3 h2" "\<forall>x. x \<noteq> b \<longrightarrow> ddir h3 x = ddir h2 x \<and> bal h3 x = bal h2 x"
    "\<forall>x. x \<noteq> b \<longrightarrow> x \<notin> set_tree l \<longrightarrow> h3 x = h2 x" by blast
  define h4 where "h4 = h3(b \<mapsto> n3\<lparr>avl_parent := hole cs, balance := bal h a, descent_dir := TREE_DESCEND_RIGHT\<rparr>)"
  have out4: "h4 x = h x" if "x \<notin> set_tree l" "x \<notin> set_tree r" for x
  proof -
    have "x \<noteq> b" "x \<notin> ctx_set cs1" using that br s1(1) by (auto simp: set_tree_plug)
    then show ?thesis using that s3(6) relinked_out [OF s2(5)] s1(5) by (simp add: h4_def)
  qed
  have dt4: "heap_data h4 h"
  proof -
    have "heap_data h2 h1" using s2(5) by (simp add: relinked_def)
    from heap_data_trans [OF heap_data_trans [OF s3(4) this] s1(3)] show ?thesis using s3(2) by (simp add: h4_def)
  qed
  have bl4: "bal h4 x = (if x = b then bal h a else bal h x)" for x
    using s3(5) s2(5) s1(4) by (simp add: h4_def relinked_def)
  have dd4: "ddir h4 x = (if x = b then TREE_DESCEND_RIGHT else ddir h1 x)" for x
    using s3(5) s2(5) by (simp add: h4_def relinked_def)
  have cx: "h4 x = h x" if "x \<in> ctx_set cs" for x using that d(8,9) by (intro out4) auto
  have "is_ctx h4 cs (Some a)" using i(2) is_ctx_cong [of cs h4 h] cx by (simp add: links_def)
  moreover have d4: "dir_ok h4 cs" using dr dir_ok_cong [of cs h4 h] cx by (simp add: ddir_def)
  moreover have "avl_root lvt = rootc (Some a) cs" using rt by (simp add: rootp_plug)
  ultimately obtain h5 where s5: "relink h4 lvt (hole cs) (Some b) = Some (h5, lvt\<lparr>avl_root := rootc (Some b) cs\<rparr>)"
    "is_ctx h5 cs (Some b)" "heap_data h5 h4" "\<forall>x. ddir h5 x = ddir h4 x \<and> bal h5 x = bal h4 x" "\<forall>x. hole cs \<noteq> Some x \<longrightarrow> h5 x = h4 x"
    using relink_ok [OF _ _ d(3)] by blast
  have hc: "hole cs \<noteq> Some x" if "x \<notin> ctx_set cs" for x using that by (cases cs rule: rights.cases) auto
  let ?cs = "cs1 @ (False, b, l) # cs" and ?lvt = "lvt\<lparr>avl_root := rootc (Some b) cs\<rparr>"
  have pl: "plug br ?cs = plug (Node l b ?r1) cs" by (simp add: plug_append)
  have "h5 x = h4 x" if "x \<in> set_tree (Node l b ?r1)" for x
  proof -
    have "x \<notin> ctx_set cs" using that br d(8,9) by auto
    then show ?thesis using s5(5) hc by blast
  qed
  then have "is_tree h5 (hole cs) (Node l b ?r1)"
    using s3(3) is_tree_cong [of "Node l b ?r1" h5 h4] unfolding h4_def [symmetric] by (simp only: links_def)
  then have t5: "is_tree h5 None (plug br ?cs)" unfolding pl is_tree_plug using s5(2) by simp
  have io: "inorder (plug br ?cs) = lefts cs @ inorder l @ inorder r @ rights cs"
    unfolding pl s1(1) inorder_plug using ln by (simp add: inorder_plug)
  have run: "delete_unlink h lvt (Some a) = Some (hole ?cs, h5, ?lvt)"
    using nd s1(2) nx s2(1,3) s3(1,2) s5(1) ne
    by (simp add: delete_unlink_eq hole_append h4_def)
  have b5: "bal h5 x = (if x = b then bal h a else bal h x)" for x using s5(4) bl4 by simp
  have avs: "avl h l" "avl h br" "bal_ok (bal h b) 0 (height br)" "avl_ctx h cs1 (Suc (height br))"
    "bal_ok (bal h a) (height l) (ctx_height cs1 (Suc (height br)))"
    "avl_ctx h cs (Suc (max (height l) (ctx_height cs1 (Suc (height br)))))"
    using av unfolding s1(1) avl_plug height_plug by (simp_all add: avl_plug height_plug)
  have nb: "b \<notin> set_tree br" "b \<notin> set_tree l" "b \<notin> ctx_set cs" using br d(6,9) by (auto simp: set_tree_plug)
  have "avl h5 br" "avl h5 l" "avl_ctx h5 cs1 (Suc (height br))"
    "avl_ctx h5 cs (Suc (max (height l) (ctx_height cs1 (Suc (height br)))))"
    using avs b5 nb br(4) avl_cong_out [of "{b}" _ h5 h] avl_ctx_out [of "{b}" _ h5 h] by simp_all
  then have "avl h5 br" "avl_ctx h5 ?cs (height br + 1)"
    using avs(5) b5 by (simp_all add: avl_ctx_append max.commute)
  moreover have "dir_ok h5 ?cs"
  proof -
    have "dir_ok h5 cs" "ddir h5 b = TREE_DESCEND_RIGHT" using d4 s5(4) dd4 dir_ok_cong [of cs h5 h4] by simp_all
    moreover have "ddir h5 x = ddir h1 x" if "x \<in> ctx_set cs1" for x using that br(4) s5(4) dd4 by auto
    then have "dir_ok h5 cs1" using s1(6) dir_ok_cong [of cs1 h5 h1] by blast
    ultimately show ?thesis by simp
  qed
  moreover have "distinct (inorder (plug br ?cs))" unfolding io using di by (simp add: inorder_plug)
  moreover have "height ?t = ctx_height ?cs (height br + 1)"
    unfolding s1(1) height_plug ctx_height_append by (simp add: height_plug max.commute)
  ultimately have "shrunk h5 ?lvt br ?cs"
    unfolding shrunk_def using t5 ht pl by (simp add: rootp_plug)
  moreover have "heap_data h5 h" using s5(3) dt4 by (rule heap_data_trans)
  moreover have "\<forall>x. x \<notin> set_tree ?t \<longrightarrow> h5 x = h x" using s5(5) hc out4 by (simp add: set_tree_plug)
  moreover have "?lvt = lvt\<lparr>avl_root := rootp (plug br ?cs)\<rparr>" unfolding pl rootp_plug by simp
  ultimately have "unlink_post h lvt ?t (lefts cs @ inorder l @ inorder r @ rights cs) (hole ?cs, h5, ?lvt)"
    unfolding unlink_post_def prod.case using io by blast
  with run show ?thesis by blast
qed

section \<open>Deletion\<close>

definition delete_post :: "nat \<Rightarrow> lvheap \<Rightarrow> lvTree \<Rightarrow> nat tree \<Rightarrow> lvheap \<times> lvTree \<Rightarrow> bool" where
  "delete_post a h lvt t res = (case res of (h', lvt') \<Rightarrow>
     \<exists>t' xs ys. inorder t = xs @ a # ys \<and> inorder t' = xs @ ys \<and> lv_inv h' lvt' t' \<and> heap_data h' h \<and>
       (\<forall>x. x \<notin> set_tree t \<longrightarrow> h' x = h x) \<and> lvt_addr lvt' = lvt_addr lvt \<and> lastNodeLookedUp lvt' = None)"

lemma search_tree_remove:
  assumes st: "search_tree h t" and io: "inorder t = xs @ a # ys" "inorder t' = xs @ ys" and tr: "is_tree h' None t'"
    and da: "heap_data h' h"
  shows "search_tree h' t'"
proof -
  have "sorted_keys h' (xs @ ys)"
    using st io(1) heap_data_hkey [OF da] by (simp add: search_tree_def sorted_keys_def sorted_wrt_append)
  moreover have "set_tree t' \<subseteq> set_tree t" using io by (auto simp flip: set_inorder)
  ultimately show ?thesis using st tr io(2) heap_data_wf [OF da] by (auto simp: search_tree_def)
qed

theorem delete_ok:
  assumes inv: "lv_inv h lvt t" and rc: "reach h t a"
  shows "\<exists>res. lvAvlTreeNodeDelete h lvt (Some a) = Some res \<and> delete_post a h lvt t res"
proof -
  obtain l r cs where t: "t = plug (Node l a r) cs" and dr: "dir_ok h cs" using rc reach_position by blast
  have i: "search_tree h t" "avl_root lvt = rootp t" "avl h t" "avl_height lvt = int (height t)"
    using inv by (simp_all add: lv_inv_def lv_search_def)
  have tr: "is_tree h None t" and di: "distinct (inorder t)" using i(1) search_tree_distinct [OF i(1)] by (simp_all add: search_tree_def)
  let ?io = "lefts cs @ inorder l @ inorder r @ rights cs"
  obtain bn h1 lvt1 where u: "delete_unlink h lvt (Some a) = Some (bn, h1, lvt1)" "unlink_post h lvt t ?io (bn, h1, lvt1)"
  proof (cases "r = Leaf")
    case True
    from unlink_no_right [of h l a cs lvt] tr di dr i(2-4) show ?thesis
      using that unfolding t True by (metis append_Nil inorder.simps(1) surj_pair)
  next
    case False
    from unlink_right [of h l a r cs lvt] tr False di dr i(2-4) show ?thesis
      using that unfolding t by (metis surj_pair)
  qed
  obtain s cs' where p: "bn = hole cs'" "shrunk h1 lvt1 s cs'" "inorder (plug s cs') = ?io" "heap_data h1 h"
    "\<forall>x. x \<notin> set_tree t \<longrightarrow> h1 x = h x" "lvt1 = lvt\<lparr>avl_root := rootp (plug s cs')\<rparr>"
    using u(2) unfolding unlink_post_def prod.case by blast
  obtain h2 lvt2 where b: "delete_balance h1 lvt1 bn = Some (h2, lvt2)" "reb_post h1 lvt1 (plug s cs') (\<lambda>_ _. True) (h2, lvt2)"
    using delete_balance_ok [OF p(2)] unfolding p(1) by auto
  obtain t' where t': "is_tree h2 None t'" "inorder t' = ?io" "avl h2 t'" "heap_data h2 h1"
    "\<forall>x. x \<notin> set_tree (plug s cs') \<longrightarrow> h2 x = h1 x" "lvt2 = lvt1\<lparr>avl_root := rootp t', avl_height := int (height t')\<rparr>"
    using b(2) unfolding reb_post_def prod.case p(3) by blast
  have run: "lvAvlTreeNodeDelete h lvt (Some a) = Some (h2, lvt2\<lparr>lastNodeLookedUp := None\<rparr>)"
    using u(1) b(1) by (simp add: lvAvlTreeNodeDelete_def)
  have io: "inorder t = (lefts cs @ inorder l) @ a # (inorder r @ rights cs)" "inorder t' = (lefts cs @ inorder l) @ (inorder r @ rights cs)"
    using t t'(2) by (simp_all add: inorder_plug)
  have hd: "heap_data h2 h" using t'(4) p(4) by (rule heap_data_trans)
  have "lv_inv h2 (lvt2\<lparr>lastNodeLookedUp := None\<rparr>) t'"
    using search_tree_remove [OF i(1) io t'(1) hd] t'(3,6) by (simp add: lv_inv_def lv_search_def clue_ok_def)
  moreover have "set_tree (plug s cs') \<subseteq> set_tree t" using p(3) io(1) by (auto simp flip: set_inorder)
  then have "\<forall>x. x \<notin> set_tree t \<longrightarrow> h2 x = h x" using t'(5) p(5) by (metis subsetD)
  ultimately have "delete_post a h lvt t (h2, lvt2\<lparr>lastNodeLookedUp := None\<rparr>)"
    unfolding delete_post_def prod.case using io hd t'(6) p(6) by (intro exI conjI) (assumption | simp)+
  with run show ?thesis by blast
qed

end
