(* ===== verification/LvSpec.thy ===== *)
theory LvSpec
  imports LvDelete
begin

text \<open>
  The subscript tree as a finite map.  \<open>lv_abs\<close> lists the subscripts of a tree with the nodes that
  carry them, in collation order; lookup, insertion and deletion of \<open>lv_tree.c\<close> are \<open>map_of\<close>,
  sorted insertion and removal on that list, and the functions that step to the neighbouring
  subscript are the neighbours in it.
\<close>

section \<open>The abstract view\<close>

definition lv_abs :: "lvheap \<Rightarrow> nat tree \<Rightarrow> (skey \<times> nat) list" where
  "lv_abs h t = map (\<lambda>a. (hkey h a, a)) (inorder t)"

lemma heap_quiet_hkey: "heap_quiet h' h \<Longrightarrow> hkey h' = hkey h"
  using heap_data_hkey [of h' h] by (simp add: heap_quiet_def)

lemma lv_abs_quiet: "heap_quiet h' h \<Longrightarrow> lv_abs h' t = lv_abs h t"
  by (simp add: lv_abs_def heap_quiet_hkey [of h' h])

lemma map_of_sorted:
  assumes "sorted_keys h xs" "x \<in> set xs"
  shows "map_of (map (\<lambda>a. (hkey h a, a)) xs) (hkey h x) = Some x"
  using assms by (induction xs) (auto simp: sorted_keys_Cons)

lemma map_of_absent:
  "\<forall>x \<in> set xs. hkey h x \<noteq> K \<Longrightarrow> map_of (map (\<lambda>a. (hkey h a, a)) xs) K = None"
  by (induction xs) auto

lemma insort_gap:
  "\<forall>x \<in> set xs. fst x < K \<Longrightarrow> \<forall>x \<in> set ys. K < fst x \<Longrightarrow>
   insort_key fst (K :: 'k::linorder, a) (xs @ ys) = xs @ (K, a) # ys"
proof (induction xs)
  case Nil then show ?case by (cases ys) (auto simp: less_imp_le)
qed (auto simp: not_le)

section \<open>Lookup, insertion and deletion\<close>

lemma found_abs: "search_tree h t \<Longrightarrow> found_at h t K b \<Longrightarrow> map_of (lv_abs h t) K = Some b"
  using map_of_sorted [of h "inorder t" b]
  by (auto simp: found_at_def lv_abs_def search_tree_def inorder_plug set_tree_plug)

lemma gap_abs: "gap_at h t K b \<Longrightarrow> map_of (lv_abs h t) K = None"
proof -
  assume "gap_at h t K b"
  then obtain L s cs where g: "t = plug Leaf ((L, b, s) # cs)" "fits h ((L, b, s) # cs) K" unfolding gap_at_def by blast
  have "\<forall>x \<in> set (inorder t). hkey h x \<noteq> K"
    using g(2) unfolding g(1) inorder_plug fits_def by auto
  then show ?thesis unfolding lv_abs_def by (rule map_of_absent)
qed

lemma lookup_inv:
  assumes "lv_key k" "lv_inv h lvt t"
  obtains node par h' lvt' where "lvAvlTreeLookup h lvt k lp = Some (node, par, h', lvt')"
    "lookup_post (key_abs k) h lvt t (node, par, h', lvt')" "lv_inv h' lvt' t" "heap_quiet h' h"
    "\<forall>x. x \<notin> set_tree t \<longrightarrow> h' x = h x" "lvt_addr lvt' = lvt_addr lvt"
proof -
  have "lv_search h lvt t" using assms(2) by (simp add: lv_inv_def)
  from lookup_ok [OF assms(1) this] obtain node par h' lvt' where
    r: "lvAvlTreeLookup h lvt k lp = Some (node, par, h', lvt')" "lookup_post (key_abs k) h lvt t (node, par, h', lvt')"
    by (metis surj_pair)
  then have p: "heap_quiet h' h" "\<forall>x. x \<notin> set_tree t \<longrightarrow> h' x = h x" "lv_search h' lvt' t"
    "avl_height lvt' = avl_height lvt" "lvt_addr lvt' = lvt_addr lvt" by (simp_all add: lookup_post_def)
  have "avl h' t" using assms(2) p(1) avl_cong [of t h' h] by (simp add: lv_inv_def heap_quiet_def)
  then have "lv_inv h' lvt' t" using assms(2) p by (simp add: lv_inv_def)
  with r p that show ?thesis by blast
qed

lemma lookup_map_of:
  assumes "lookup_post K h lvt t (node, par, h', lvt')"
  shows "node = map_of (lv_abs h t) K"
proof -
  have q: "heap_quiet h' h" and s: "search_tree h' t" using assms by (simp_all add: lookup_post_def lv_search_def)
  have "map_of (lv_abs h' t) K = node"
    using assms found_abs [OF s] gap_abs [of h' t K]
    by (auto simp: lookup_post_def lv_abs_def split: option.splits if_splits)
  then show ?thesis using lv_abs_quiet [OF q] by simp
qed

lemma insert_abs:
  assumes "insert_post k a slot h lvt t (h', lvt')" "a \<notin> set_tree t" "search_tree h t"
  obtains t' where "lv_inv h' lvt' t'" "lv_abs h' t' = insort_key fst (key_abs k, a) (lv_abs h t)"
proof -
  obtain t' xs ys where p: "inorder t = xs @ ys" "inorder t' = xs @ a # ys" "lv_inv h' lvt' t'" "hkey h' a = key_abs k"
    "\<forall>x. x \<noteq> a \<longrightarrow> rel_option data_eq (h' x) (h x)"
    using assms(1) unfolding insert_post_def prod.case by blast
  have k: "hkey h' x = hkey h x" if "x \<noteq> a" for x
    using p(5) that by (cases "h x"; cases "h' x") (auto simp: hkey_def data_eq_def dest!: spec [of _ x])
  have out: "x \<noteq> a" if "x \<in> set (xs @ ys)" for x using that assms(2) p(1) by (metis set_inorder)
  have m: "map (\<lambda>x. (hkey h' x, x)) xs = map (\<lambda>x. (hkey h x, x)) xs"
    "map (\<lambda>x. (hkey h' x, x)) ys = map (\<lambda>x. (hkey h x, x)) ys" using k out by auto
  have s: "sorted_keys h' (xs @ a # ys)" using p(2,3) by (simp add: lv_inv_def lv_search_def search_tree_def)
  have "insort_key fst (key_abs k, a) (map (\<lambda>x. (hkey h x, x)) xs @ map (\<lambda>x. (hkey h x, x)) ys) =
      map (\<lambda>x. (hkey h x, x)) xs @ (key_abs k, a) # map (\<lambda>x. (hkey h x, x)) ys"
    using s p(4) k out by (intro insort_gap) (auto simp: sorted_keys_append sorted_keys_Cons)
  then have "lv_abs h' t' = insort_key fst (key_abs k, a) (lv_abs h t)"
    unfolding lv_abs_def p(1,2) using m p(4) by simp
  with p(3) that show ?thesis by blast
qed

lemma insert_after_lookup:
  assumes "lv_key k" "lookup_post (key_abs k) h lvt t (None, par, h1, lvt1)" "lv_inv h1 lvt1 t" "a \<notin> set_tree t"
  obtains h2 lvt2 where "lvAvlTreeNodeInsert h1 lvt1 k par a slot = Some (Some a, h2, lvt2)"
    "insert_post k a slot h1 lvt1 t (h2, lvt2)"
proof (cases "t = Leaf")
  case True
  with assms(2) have "par = None" by (simp add: lookup_post_def)
  with insert_first [OF assms(1), of h1 lvt1 a slot] True that show ?thesis by auto
next
  case False
  with assms(2) obtain b where b: "par = Some b" "lastNodeLookedUp lvt1 = Some b" "gap_at h1 t (key_abs k) b"
    by (auto simp: lookup_post_def)
  from insert_ok [OF assms(3,1) b(3,2) assms(4), of slot] b(1) that show ?thesis by blast
qed

lemma delete_abs:
  assumes "delete_post a h lvt t (h', lvt')" "distinct (inorder t)"
  obtains t' where "lv_inv h' lvt' t'" "lv_abs h' t' = filter (\<lambda>(k, x). x \<noteq> a) (lv_abs h t)"
proof -
  obtain t' xs ys where p: "inorder t = xs @ a # ys" "inorder t' = xs @ ys" "lv_inv h' lvt' t'" "heap_data h' h"
    using assms(1) unfolding delete_post_def prod.case by blast
  have "a \<notin> set xs" "a \<notin> set ys" using assms(2) p(1) by auto
  then have "filter (\<lambda>x. x \<noteq> a) xs = xs" "filter (\<lambda>x. x \<noteq> a) ys = ys" by (auto simp: filter_id_conv)
  then have "lv_abs h' t' = filter (\<lambda>(k, x). x \<noteq> a) (lv_abs h t)"
    unfolding lv_abs_def p(1,2) using heap_data_hkey [OF p(4)] by (simp add: filter_map comp_def)
  with p(3) that show ?thesis by blast
qed

section \<open>Neighbouring subscripts\<close>

definition above :: "lvheap \<Rightarrow> nat tree \<Rightarrow> skey \<Rightarrow> nat list" where
  "above h t K = filter (\<lambda>x. K < hkey h x) (inorder t)"

definition below :: "lvheap \<Rightarrow> nat tree \<Rightarrow> skey \<Rightarrow> nat list" where
  "below h t K = filter (\<lambda>x. hkey h x < K) (inorder t)"

lemma above_split:
  assumes "inorder t = xs @ zs @ ys" "\<forall>x \<in> set xs. hkey h x < K" "\<forall>x \<in> set zs. hkey h x = K" "\<forall>x \<in> set ys. K < hkey h x"
  shows "above h t K = ys" "below h t K = xs"
proof -
  have "filter (\<lambda>x. K < hkey h x) xs = []" "filter (\<lambda>x. K < hkey h x) zs = []" "filter (\<lambda>x. K < hkey h x) ys = ys"
    "filter (\<lambda>x. hkey h x < K) xs = xs" "filter (\<lambda>x. hkey h x < K) zs = []" "filter (\<lambda>x. hkey h x < K) ys = []"
    using assms(2-) by (auto simp: filter_empty_conv filter_id_conv dest: order.asym)
  with assms(1) show "above h t K = ys" "below h t K = xs" by (simp_all add: above_def below_def)
qed

lemma found_neighbours:
  assumes st: "search_tree h t" and f: "found_at h t K b"
  shows "lvAvlTreeNext h (Some b) = Some (hd_opt (above h t K))" "lvAvlTreePrev h (Some b) = Some (last_opt (below h t K))"
proof -
  obtain l r cs where p: "t = plug (Node l b r) cs" "hkey h b = K" using f by (auto simp: found_at_def)
  have io: "inorder t = (lefts cs @ inorder l) @ [b] @ (inorder r @ rights cs)" unfolding p(1) by (simp add: inorder_plug)
  have s: "is_tree h None t" "sorted_keys h (inorder t)" using st by (simp_all add: search_tree_def)
  have "\<forall>x \<in> set (lefts cs @ inorder l). hkey h x < K" "\<forall>x \<in> set [b]. hkey h x = K"
    "\<forall>x \<in> set (inorder r @ rights cs). K < hkey h x"
    using s(2) p(2) unfolding io by (auto simp: sorted_keys_append sorted_keys_Cons)
  note ab = above_split [OF io this]
  from ab next_at [of h l b r cs] prev_at [of h l b r cs] s(1) search_tree_distinct [OF st] p(1)
  show "lvAvlTreeNext h (Some b) = Some (hd_opt (above h t K))" "lvAvlTreePrev h (Some b) = Some (last_opt (below h t K))" by simp_all
qed

lemma gap_neighbours:
  assumes st: "search_tree h t" and g: "gap_at h t K b"
  obtains n where "h b = Some n"
    "descent_dir n = TREE_DESCEND_LEFT \<Longrightarrow> lvAvlTreePrev h (Some b) = Some (last_opt (below h t K)) \<and> hd_opt (above h t K) = Some b"
    "descent_dir n \<noteq> TREE_DESCEND_LEFT \<Longrightarrow> descent_dir n = TREE_DESCEND_RIGHT \<and>
       lvAvlTreeNext h (Some b) = Some (hd_opt (above h t K)) \<and> last_opt (below h t K) = Some b"
proof -
  obtain L s cs where p: "t = plug Leaf ((L, b, s) # cs)" "dir_ok h ((L, b, s) # cs)" "fits h ((L, b, s) # cs) K"
    using g unfolding gap_at_def by blast
  have io: "inorder t = lefts ((L, b, s) # cs) @ [] @ rights ((L, b, s) # cs)" unfolding p(1) inorder_plug by simp
  have "\<forall>x \<in> set (lefts ((L, b, s) # cs)). hkey h x < K" "\<forall>x \<in> set []. hkey h x = K"
    "\<forall>x \<in> set (rights ((L, b, s) # cs)). K < hkey h x" using p(3) unfolding fits_def by (blast, simp, blast)
  note ab = above_split [OF io this]
  have i: "is_tree h None t" "distinct (inorder t)" using st search_tree_distinct by (auto simp: search_tree_def)
  have "b \<in> set_tree t" unfolding p(1) set_tree_plug by simp
  then obtain n where n: "h b = Some n" using is_tree_dom [OF i(1)] by blast
  then have d: "descent_dir n = dirv L" using p(2) by (simp add: ddir_def)
  show ?thesis
  proof (rule that [OF n])
    assume "descent_dir n = TREE_DESCEND_LEFT"
    with d have L by simp
    then have "t = plug (Node Leaf b s) cs" using p(1) by simp
    with prev_at [of h Leaf b s cs] i ab \<open>L\<close>
    show "lvAvlTreePrev h (Some b) = Some (last_opt (below h t K)) \<and> hd_opt (above h t K) = Some b" by simp
  next
    assume "descent_dir n \<noteq> TREE_DESCEND_LEFT"
    with d have "\<not> L" by simp
    then have "t = plug (Node s b Leaf) cs" using p(1) by simp
    with next_at [of h s b Leaf cs] i ab \<open>\<not> L\<close> d
    show "descent_dir n = TREE_DESCEND_RIGHT \<and> lvAvlTreeNext h (Some b) = Some (hd_opt (above h t K)) \<and>
       last_opt (below h t K) = Some b" by simp
  qed
qed

lemma above_quiet: "heap_quiet h' h \<Longrightarrow> above h' t K = above h t K" "heap_quiet h' h \<Longrightarrow> below h' t K = below h t K"
  by (simp_all add: above_def below_def heap_quiet_hkey [of h' h])

lemma key_next_ok:
  assumes "lv_key k" "lv_inv h lvt t" "t \<noteq> Leaf"
  shows "\<exists>h' lvt'. lvAvlTreeKeyNext h lvt k = Some (hd_opt (above h t (key_abs k)), h', lvt') \<and> lv_inv h' lvt' t \<and> heap_quiet h' h"
    and "\<exists>h' lvt'. lvAvlTreeKeyPrev h lvt k = Some (last_opt (below h t (key_abs k)), h', lvt') \<and> lv_inv h' lvt' t \<and> heap_quiet h' h"
proof -
  obtain node par h' lvt' where r: "lvAvlTreeLookup h lvt k None = Some (node, par, h', lvt')"
    "lookup_post (key_abs k) h lvt t (node, par, h', lvt')" "lv_inv h' lvt' t" "heap_quiet h' h"
    using lookup_inv [OF assms(1,2)] by metis
  have st: "search_tree h' t" using r(3) by (simp add: lv_inv_def lv_search_def)
  note q = above_quiet [OF r(4)]
  have "lvAvlTreeKeyNext h lvt k = Some (hd_opt (above h t (key_abs k)), h', lvt') \<and>
    lvAvlTreeKeyPrev h lvt k = Some (last_opt (below h t (key_abs k)), h', lvt')"
  proof (cases node)
    case (Some b)
    then have "found_at h' t (key_abs k) b" using r(2) by (simp add: lookup_post_def)
    from found_neighbours [OF st this] r(1) Some show ?thesis
      by (simp add: lvAvlTreeKeyNext_def lvAvlTreeKeyPrev_def q)
  next
    case None
    then obtain b where b: "par = Some b" "gap_at h' t (key_abs k) b" using r(2) assms(3) by (auto simp: lookup_post_def)
    obtain n where n: "h' b = Some n"
      "descent_dir n = TREE_DESCEND_LEFT \<Longrightarrow>
        lvAvlTreePrev h' (Some b) = Some (last_opt (below h' t (key_abs k))) \<and> hd_opt (above h' t (key_abs k)) = Some b"
      "descent_dir n \<noteq> TREE_DESCEND_LEFT \<Longrightarrow> descent_dir n = TREE_DESCEND_RIGHT \<and>
        lvAvlTreeNext h' (Some b) = Some (hd_opt (above h' t (key_abs k))) \<and> last_opt (below h' t (key_abs k)) = Some b"
      using gap_neighbours [OF st b(2)] by blast
    show ?thesis using r(1) None b(1) n
      by (cases "descent_dir n = TREE_DESCEND_LEFT") (simp_all add: lvAvlTreeKeyNext_def lvAvlTreeKeyPrev_def q)
  qed
  with r(3,4) show "\<exists>h' lvt'. lvAvlTreeKeyNext h lvt k = Some (hd_opt (above h t (key_abs k)), h', lvt') \<and> lv_inv h' lvt' t \<and> heap_quiet h' h"
    and "\<exists>h' lvt'. lvAvlTreeKeyPrev h lvt k = Some (last_opt (below h t (key_abs k)), h', lvt') \<and> lv_inv h' lvt' t \<and> heap_quiet h' h"
    by blast+
qed

section \<open>Collation with the null subscript first\<close>

definition null_at :: "lvheap \<Rightarrow> nat \<Rightarrow> bool" where
  "null_at h a \<longleftrightarrow> is_null_subs (the (h a))"

text \<open>The order of the standard null collation: the null subscript, then all others as stored.\<close>

definition collated :: "lvheap \<Rightarrow> nat tree \<Rightarrow> nat list" where
  "collated h t = filter (null_at h) (inorder t) @ filter (\<lambda>x. \<not> null_at h x) (inorder t)"

lemma null_at_key: "wf_node (the (h a)) \<Longrightarrow> null_at h a \<longleftrightarrow> hkey h a = StrKey []"
  by (auto simp: null_at_def is_null_subs_def hkey_def node_key_def wf_node_def)

lemma sorted_suffix: "sorted_keys h xs \<Longrightarrow> \<exists>ws. xs = ws @ filter (\<lambda>x. K < hkey h x) xs"
proof (induction xs)
  case (Cons x xs)
  show ?case
  proof (cases "K < hkey h x")
    case True
    then have "filter (\<lambda>x. K < hkey h x) (x # xs) = x # xs"
      using Cons.prems by (auto simp: sorted_keys_Cons filter_id_conv intro: less_trans)
    then show ?thesis by (intro exI [of _ "[]"]) simp
  next
    case False
    with Cons obtain ws where "xs = ws @ filter (\<lambda>x. K < hkey h x) xs" by (auto simp: sorted_keys_Cons)
    with False show ?thesis by (intro exI [of _ "x # ws"]) simp
  qed
qed simp

lemma hop_null_ok:
  assumes st: "search_tree h t" and io: "inorder t = ws @ xs"
  shows "hop_null h (hd_opt xs) = Some (hd_opt (filter (\<lambda>x. \<not> null_at h x) xs))"
proof (cases xs)
  case Nil then show ?thesis by (simp add: hop_null_def)
next
  case (Cons x ys)
  have i: "is_tree h None t" "distinct (inorder t)" "sorted_keys h (inorder t)" "\<And>a. a \<in> set_tree t \<Longrightarrow> wf_node (the (h a))"
    using st search_tree_distinct [OF st] by (simp_all add: search_tree_def)
  have sub: "set (x # ys) \<subseteq> set_tree t" using io Cons by (auto simp flip: set_inorder)
  then obtain n where n: "h x = Some n" using is_tree_dom [OF i(1), of x] by auto
  show ?thesis
  proof (cases "null_at h x")
    case True
    have "\<not> null_at h y" if "y \<in> set ys" for y
    proof -
      have "hkey h x < hkey h y" using i(3) io Cons that by (auto simp: sorted_keys_append sorted_keys_Cons)
      moreover have "hkey h x = StrKey []" using True null_at_key i(4) sub by auto
      ultimately show ?thesis using null_at_key [of h y] i(4) sub that by auto
    qed
    then have "filter (\<lambda>x. \<not> null_at h x) ys = ys" by (simp add: filter_id_conv)
    moreover have "lvAvlTreeNext h (Some x) = Some (hd_opt ys)" using next_inorder(1) [OF i(1,2)] io Cons by blast
    ultimately show ?thesis using True n Cons by (simp add: hop_null_def null_at_def)
  next
    case False
    with n Cons show ?thesis by (simp add: hop_null_def null_at_def)
  qed
qed

lemma collated_next_ok:
  assumes inv: "lv_inv h lvt t" and c: "collated h t = xs @ a # ys"
  shows "lvAvlTreeNodeCollatedNext True h lvt (Some a) = Some (hd_opt ys)"
proof -
  have st: "search_tree h t" and rt: "avl_root lvt = rootp t" using inv by (simp_all add: lv_inv_def lv_search_def)
  have i: "is_tree h None t" "distinct (inorder t)" "sorted_keys h (inorder t)" "\<And>a. a \<in> set_tree t \<Longrightarrow> wf_node (the (h a))"
    using st search_tree_distinct [OF st] by (simp_all add: search_tree_def)
  let ?nn = "\<lambda>x. \<not> null_at h x"
  have "set (collated h t) = set_tree t" by (auto simp: collated_def)
  then have a: "a \<in> set_tree t" using c by (metis in_set_conv_decomp)
  then obtain n where n: "h a = Some n" using is_tree_dom [OF i(1)] by blast
  obtain us vs where io: "inorder t = us @ a # vs" using a by (metis set_inorder split_list)
  have dc: "distinct (collated h t)" using i(2) by (auto simp: collated_def)
  show ?thesis
  proof (cases "null_at h a")
    case True
    have "null_at h x \<Longrightarrow> x = a" if "x \<in> set_tree t" for x
    proof -
      assume "null_at h x"
      then have "hkey h x = hkey h a" using True null_at_key [of h a] null_at_key [of h x] i(4) a that by simp
      moreover have "x \<in> set (inorder t)" "a \<in> set (inorder t)" using a that by simp_all
      ultimately show "x = a" using map_of_sorted [OF i(3), of x] map_of_sorted [OF i(3), of a] by (metis option.inject)
    qed
    then have "filter (null_at h) us = []" "filter (null_at h) vs = []"
      using io i(2) by (auto simp: filter_empty_conv simp flip: set_inorder)
    then have "collated h t = [] @ a # filter ?nn (inorder t)" using True by (simp add: collated_def io)
    then have "ys = filter ?nn (inorder t)" using c distinct_split_unique [of xs a ys "[]"] dc by simp
    moreover have "lvAvlTreeFirst h lvt = Some (hd_opt (inorder t))" by (rule first_inorder [OF i(1) rt])
    ultimately show ?thesis
      using True n hop_null_ok [OF st, of "[]"] by (simp add: lvAvlTreeNodeCollatedNext_def null_at_def)
  next
    case False
    then have "xs @ a # ys = (filter (null_at h) (inorder t) @ filter ?nn us) @ a # filter ?nn vs"
      unfolding c [symmetric] by (simp add: collated_def io)
    from distinct_split_unique [OF _ this] have "ys = filter ?nn vs" using dc c by simp
    then show ?thesis
      using False n hop_null_ok [OF st, of "us @ [a]" vs] next_inorder(1) [OF i(1,2) io] io
      by (simp add: lvAvlTreeNodeCollatedNext_def null_at_def)
  qed
qed

lemma key_collated_next_ok:
  assumes "lv_key k" "lv_inv h lvt t" "t \<noteq> Leaf"
  shows "\<exists>h' lvt'. lvAvlTreeKeyCollatedNext True h lvt k =
    Some (hd_opt (filter (\<lambda>x. \<not> null_at h x)
      (if is_str (mvtype k) \<and> str_of k = [] then inorder t else above h t (key_abs k))), h', lvt') \<and>
    lv_inv h' lvt' t \<and> heap_quiet h' h"
proof (cases "is_str (mvtype k) \<and> str_of k = []")
  case True
  have st: "search_tree h t" and rt: "avl_root lvt = rootp t" using assms(2) by (simp_all add: lv_inv_def lv_search_def)
  then have "lvAvlTreeFirst h lvt = Some (hd_opt (inorder t))" by (intro first_inorder) (simp_all add: search_tree_def)
  with True hop_null_ok [OF st, of "[]"] assms(2) show ?thesis
    by (auto simp: lvAvlTreeKeyCollatedNext_def)
next
  case False
  obtain h' lvt' where r: "lvAvlTreeKeyNext h lvt k = Some (hd_opt (above h t (key_abs k)), h', lvt')" "lv_inv h' lvt' t" "heap_quiet h' h"
    using key_next_ok(1) [OF assms] by blast
  have st: "search_tree h' t" using r(2) by (simp add: lv_inv_def lv_search_def)
  obtain ws where "inorder t = ws @ above h' t (key_abs k)"
    using sorted_suffix [of h' "inorder t"] st by (auto simp: above_def search_tree_def)
  from hop_null_ok [OF st this] have "hop_null h' (hd_opt (above h t (key_abs k))) =
      Some (hd_opt (filter (\<lambda>x. \<not> null_at h' x) (above h t (key_abs k))))" by (simp add: above_quiet [OF r(3)])
  moreover have "null_at h' x = null_at h x" for x
  proof -
    have "rel_option data_eq (h' x) (h x)" using r(3) by (simp add: heap_quiet_def heap_data_def)
    then show ?thesis by (cases "h x"; cases "h' x") (auto simp: null_at_def is_null_subs_def data_eq_def)
  qed
  ultimately show ?thesis using r unfolding lvAvlTreeKeyCollatedNext_def if_not_P [OF False] by simp
qed

section \<open>Height\<close>

lemma avl_height_size: "avl h t \<Longrightarrow> 2 ^ height t \<le> (size1 t) ^ 2"
proof (induction "height t" arbitrary: t rule: less_induct)
  case less
  show ?case
  proof (cases t)
    case (Node l a r)
    have lr: "avl h l" "avl h r" "height l \<le> height r + 1" "height r \<le> height l + 1"
      using less.prems Node by (auto simp: bal_ok_def)
    have IH: "2 ^ height l \<le> (size1 l) ^ 2" "2 ^ height r \<le> (size1 r) ^ 2"
      using less.hyps lr Node by auto
    define m where "m = min (height l) (height r)"
    have "(2::nat) ^ m \<le> 2 ^ height l" "(2::nat) ^ m \<le> 2 ^ height r"
      by (simp_all add: m_def power_increasing)
    with IH have "2 ^ m \<le> (size1 l)\<^sup>2" "2 ^ m \<le> (size1 r)\<^sup>2" by linarith+
    moreover have "2 * (size1 l * size1 r) \<ge> 2 * 2 ^ m"
    proof -
      have "(2 ^ m) ^ 2 \<le> (size1 l * size1 r) ^ 2"
        using calculation mult_mono [of "2 ^ m" "(size1 l)\<^sup>2" "2 ^ m" "(size1 r)\<^sup>2"] by (simp add: power2_eq_square mult_ac)
      then show ?thesis using power2_nat_le_eq_le by simp
    qed
    moreover have "(size1 t)\<^sup>2 = (size1 l)\<^sup>2 + (size1 r)\<^sup>2 + 2 * (size1 l * size1 r)"
      using Node by (simp add: power2_sum)
    ultimately have "4 * 2 ^ m \<le> (size1 t)\<^sup>2" by linarith
    moreover have "2 ^ height t \<le> (4::nat) * 2 ^ m"
    proof -
      have "height t \<le> m + 2" using lr(3,4) Node by (auto simp: m_def)
      from power_increasing [OF this, of "2::nat"] show ?thesis by simp
    qed
    ultimately show ?thesis by linarith
  qed simp
qed



section \<open>A small tree\<close>

text \<open>Three nodes: the integers 3 and 5 and the string \<open>A\<close>, for the examples below.\<close>

definition ex_int :: "int \<Rightarrow> mval" where
  "ex_int i = \<lparr>mvtype = mv_or (mv_or MV_NM MV_INT) MV_CANONICAL, sgn_of = 0, e_of = 0, m0 = 0, m1 = i * 1000, str_of = []\<rparr>"

definition ex_str :: "bytes \<Rightarrow> mval" where
  "ex_str s = \<lparr>mvtype = MV_STR, sgn_of = 0, e_of = 0, m0 = 0, m1 = 0, str_of = s\<rparr>"

definition ex_slot :: lvTreeNode where
  "ex_slot = \<lparr>nd_v = literal_null, sbs_child = None, tree_parent = 0, key_mvtype = MV_STR, balance = TREE_BALANCED,
     descent_dir = TREE_DESCEND_LEFT, key_sgn = 0, key_e = 0, key_iconv = False, key_m0 = 0, key_m1 = 0, key_str = [],
     avl_left = None, avl_right = None, avl_parent = None\<rparr>"

definition ex_lvt :: lvTree where
  "ex_lvt = \<lparr>lvt_addr = 0, avl_height = 2, avl_root = Some 4, lastNodeLookedUp = None, lastNodeMin = None, lastNodeMax = None\<rparr>"

definition ex_tree :: "nat tree" where
  "ex_tree = Node (Node Leaf 2 Leaf) 4 (Node Leaf 3 Leaf)"

definition ex_heap :: lvheap where
  "ex_heap = Map.empty(4 \<mapsto> (new_node ex_slot ex_lvt (ex_int 5) None)\<lparr>avl_left := Some 2, avl_right := Some 3\<rparr>,
     2 \<mapsto> new_node ex_slot ex_lvt (ex_int 3) (Some 4), 3 \<mapsto> new_node ex_slot ex_lvt (ex_str [65]) (Some 4))"

lemma ex_keys: "lv_key (ex_int i) \<longleftrightarrow> - 1000000 < i \<and> i < 1000000" "lv_key (ex_str s)"
  "key_abs (ex_int i) = NumKey (i * 1000 * 10 ^ 77)" "key_abs (ex_str s) = StrKey s"
  by (auto simp: lv_key_def int_key_def num_key_def str_key_def wf_int_def wf_flt_def key_abs_def ex_int_def ex_str_def
      numval_def mv_defs)

lemma ex_inv: "lv_inv ex_heap ex_lvt ex_tree"
proof -
  have nk: "node_key (new_node ex_slot ex_lvt k p) = key_abs k" "wf_node (new_node ex_slot ex_lvt k p)"
    "avl_left (new_node ex_slot ex_lvt k p) = None" "avl_right (new_node ex_slot ex_lvt k p) = None"
    "avl_parent (new_node ex_slot ex_lvt k p) = p" "balance (new_node ex_slot ex_lvt k p) = TREE_BALANCED"
    if "lv_key k" for k p using new_node_ok [OF that] by simp_all
  have k: "lv_key (ex_int 5)" "lv_key (ex_int 3)" "lv_key (ex_str [65])" by (simp_all add: ex_keys)
  show ?thesis
    unfolding lv_inv_def lv_search_def search_tree_def ex_tree_def
    by (simp add: ex_heap_def sorted_keys_def hkey_def clue_ok_def bal_ok_def bal_def nk [OF k(1)] nk [OF k(2)] nk [OF k(3)] ex_keys)
      (simp add: ex_lvt_def)
qed


lemma ex_node_keys: "hkey ex_heap 4 = NumKey (5000 * 10 ^ 77)" "hkey ex_heap 2 = NumKey (3000 * 10 ^ 77)"
  "hkey ex_heap 3 = StrKey [65]"
  using new_node_ok(1) [of "ex_int 5"] new_node_ok(1) [of "ex_int 3"] new_node_ok(1) [of "ex_str [65]"]
  by (simp_all add: hkey_def ex_heap_def ex_keys)

lemma ex_abs: "lv_abs ex_heap ex_tree = [(NumKey (3000 * 10 ^ 77), 2), (NumKey (5000 * 10 ^ 77), 4), (StrKey [65], 3)]"
  by (simp add: lv_abs_def ex_tree_def ex_node_keys)

lemma ex_null: "\<not> is_null_subs (the (ex_heap 4))" "\<not> is_null_subs (the (ex_heap 2))" "\<not> is_null_subs (the (ex_heap 3))"
  by (simp_all add: is_null_subs_def ex_heap_def new_node_def ex_int_def ex_str_def Let_def)

section \<open>Properties\<close>

text \<open>
  C3. Lookup implements \<open>map_of\<close>: from any state that satisfies the tree invariant,
  \<open>lvAvlTreeLookup\<close> returns (no NULL link is followed, the loop ends), finds exactly the node that
  carries the key, whatever the clue of the last lookup was, keeps the invariant and the map,
  and touches no node outside the tree.
\<close>

theorem lookup_refines:
  assumes "lv_key k" "lv_inv h lvt t"
  shows "\<exists>par h' lvt'. lvAvlTreeLookup h lvt k lp = Some (map_of (lv_abs h t) (key_abs k), par, h', lvt') \<and>
    lv_inv h' lvt' t \<and> lv_abs h' t = lv_abs h t \<and> (\<forall>x. x \<notin> set_tree t \<longrightarrow> h' x = h x)"
proof -
  obtain node par h' lvt' where r: "lvAvlTreeLookup h lvt k lp = Some (node, par, h', lvt')"
    "lookup_post (key_abs k) h lvt t (node, par, h', lvt')" "lv_inv h' lvt' t" "heap_quiet h' h"
    "\<forall>x. x \<notin> set_tree t \<longrightarrow> h' x = h x"
    using lookup_inv [OF assms] by metis
  with lookup_map_of [OF r(2)] lv_abs_quiet [OF r(4)] show ?thesis by blast
qed

theorem lookup_refines_witness:
  "\<exists>par h' lvt'. lvAvlTreeLookup ex_heap ex_lvt (ex_int 3) None =
     Some (map_of (lv_abs ex_heap ex_tree) (key_abs (ex_int 3)), par, h', lvt') \<and>
    lv_inv h' lvt' ex_tree \<and> lv_abs h' ex_tree = lv_abs ex_heap ex_tree \<and>
    (\<forall>x. x \<notin> set_tree ex_tree \<longrightarrow> h' x = ex_heap x)"
  by (rule lookup_refines [OF _ ex_inv]) (simp add: ex_keys)

text \<open>
  C1. A lookup that misses followed by an insertion at the parent it returned, the way
  \<open>op_putindx\<close> creates a subscript, is sorted insertion into the map; every invariant, the
  balance and the recorded height included, holds again, and the new node is the one a later
  lookup starts from.
\<close>

theorem lookup_insert_refines:
  assumes "lv_key k" "lv_inv h lvt t" "map_of (lv_abs h t) (key_abs k) = None" "a \<notin> set_tree t"
  shows "\<exists>par h1 lvt1 h2 lvt2 t2. lvAvlTreeLookup h lvt k lp = Some (None, par, h1, lvt1) \<and>
    lvAvlTreeNodeInsert h1 lvt1 k par a slot = Some (Some a, h2, lvt2) \<and> lv_inv h2 lvt2 t2 \<and>
    lv_abs h2 t2 = insort_key fst (key_abs k, a) (lv_abs h t) \<and> lastNodeLookedUp lvt2 = Some a \<and>
    (\<forall>x. x \<notin> insert a (set_tree t) \<longrightarrow> h2 x = h x)"
proof -
  obtain node par h1 lvt1 where r: "lvAvlTreeLookup h lvt k lp = Some (node, par, h1, lvt1)"
    "lookup_post (key_abs k) h lvt t (node, par, h1, lvt1)" "lv_inv h1 lvt1 t" "heap_quiet h1 h"
    "\<forall>x. x \<notin> set_tree t \<longrightarrow> h1 x = h x"
    using lookup_inv [OF assms(1,2)] by metis
  have node: "node = None" using lookup_map_of [OF r(2)] assms(3) by simp
  have st: "search_tree h1 t" using r(3) by (simp add: lv_inv_def lv_search_def)
  obtain h2 lvt2 where i: "lvAvlTreeNodeInsert h1 lvt1 k par a slot = Some (Some a, h2, lvt2)"
    "insert_post k a slot h1 lvt1 t (h2, lvt2)"
    using insert_after_lookup [OF assms(1) _ r(3) assms(4)] r(2) unfolding node by metis
  obtain t2 where t2: "lv_inv h2 lvt2 t2" "lv_abs h2 t2 = insort_key fst (key_abs k, a) (lv_abs h t)"
    using insert_abs [OF i(2) assms(4) st] lv_abs_quiet [OF r(4)] by metis
  moreover have "lastNodeLookedUp lvt2 = Some a" "\<forall>x. x \<notin> insert a (set_tree t) \<longrightarrow> h2 x = h x"
    using i(2) r(5) unfolding insert_post_def prod.case by auto
  ultimately show ?thesis using r(1) i(1) unfolding node by blast
qed

theorem lookup_insert_refines_witness:
  "\<exists>par h1 lvt1 h2 lvt2 t2. lvAvlTreeLookup ex_heap ex_lvt (ex_int 4) None = Some (None, par, h1, lvt1) \<and>
    lvAvlTreeNodeInsert h1 lvt1 (ex_int 4) par 9 ex_slot = Some (Some 9, h2, lvt2) \<and> lv_inv h2 lvt2 t2 \<and>
    lv_abs h2 t2 = insort_key fst (key_abs (ex_int 4), 9) (lv_abs ex_heap ex_tree) \<and> lastNodeLookedUp lvt2 = Some 9 \<and>
    (\<forall>x. x \<notin> insert 9 (set_tree ex_tree) \<longrightarrow> h2 x = ex_heap x)"
  by (rule lookup_insert_refines [OF _ ex_inv])
    (simp add: ex_keys, simp add: ex_keys ex_abs, simp add: ex_tree_def)

text \<open>
  C2. A lookup that finds the subscript followed by the deletion of the node, the way \<open>lv_kill\<close>
  removes it, takes exactly that pair out of the map; the invariant holds again and the clue is
  cleared.
\<close>

theorem lookup_delete_refines:
  assumes "lv_key k" "lv_inv h lvt t" "map_of (lv_abs h t) (key_abs k) = Some a"
  shows "\<exists>par h1 lvt1 h2 lvt2 t2. lvAvlTreeLookup h lvt k lp = Some (Some a, par, h1, lvt1) \<and>
    lvAvlTreeNodeDelete h1 lvt1 (Some a) = Some (h2, lvt2) \<and> lv_inv h2 lvt2 t2 \<and>
    lv_abs h2 t2 = filter (\<lambda>(k, x). x \<noteq> a) (lv_abs h t) \<and> lastNodeLookedUp lvt2 = None \<and>
    (\<forall>x. x \<notin> set_tree t \<longrightarrow> h2 x = h x)"
proof -
  obtain node par h1 lvt1 where r: "lvAvlTreeLookup h lvt k lp = Some (node, par, h1, lvt1)"
    "lookup_post (key_abs k) h lvt t (node, par, h1, lvt1)" "lv_inv h1 lvt1 t" "heap_quiet h1 h"
    "\<forall>x. x \<notin> set_tree t \<longrightarrow> h1 x = h x"
    using lookup_inv [OF assms(1,2)] by metis
  have node: "node = Some a" using lookup_map_of [OF r(2)] assms(3) by simp
  have "reach h1 t a" using r(2) node reach_position [of h1 t a] by (auto simp: lookup_post_def found_at_def)
  from delete_ok [OF r(3) this] obtain h2 lvt2 where d: "lvAvlTreeNodeDelete h1 lvt1 (Some a) = Some (h2, lvt2)"
    "delete_post a h1 lvt1 t (h2, lvt2)" by (metis surj_pair)
  have "distinct (inorder t)" using r(3) search_tree_distinct by (auto simp: lv_inv_def lv_search_def)
  then obtain t2 where "lv_inv h2 lvt2 t2" "lv_abs h2 t2 = filter (\<lambda>(k, x). x \<noteq> a) (lv_abs h t)"
    using delete_abs [OF d(2)] lv_abs_quiet [OF r(4)] by metis
  moreover have "lastNodeLookedUp lvt2 = None" "\<forall>x. x \<notin> set_tree t \<longrightarrow> h2 x = h x"
    using d(2) r(5) unfolding delete_post_def prod.case by auto
  ultimately show ?thesis using r(1) d(1) unfolding node by blast
qed

theorem lookup_delete_refines_witness:
  "\<exists>par h1 lvt1 h2 lvt2 t2. lvAvlTreeLookup ex_heap ex_lvt (ex_int 5) None = Some (Some 4, par, h1, lvt1) \<and>
    lvAvlTreeNodeDelete h1 lvt1 (Some 4) = Some (h2, lvt2) \<and> lv_inv h2 lvt2 t2 \<and>
    lv_abs h2 t2 = filter (\<lambda>(k, x). x \<noteq> 4) (lv_abs ex_heap ex_tree) \<and> lastNodeLookedUp lvt2 = None \<and>
    (\<forall>x. x \<notin> set_tree ex_tree \<longrightarrow> h2 x = ex_heap x)"
  by (rule lookup_delete_refines [OF _ ex_inv]) (simp_all add: ex_keys ex_abs)

text \<open>
  C26. \<open>lvAvlTreeKeyNext\<close> and \<open>lvAvlTreeKeyPrev\<close> on a non-empty tree return the node with the least
  subscript above the key and the greatest below it, whether or not the key itself is in the tree,
  and NULL when there is none.
\<close>

theorem key_neighbours:
  assumes "lv_key k" "lv_inv h lvt t" "t \<noteq> Leaf"
  shows "\<exists>h1 lvt1 h2 lvt2.
    lvAvlTreeKeyNext h lvt k = Some (hd_opt (filter (\<lambda>x. key_abs k < hkey h x) (inorder t)), h1, lvt1) \<and> lv_inv h1 lvt1 t \<and>
    lvAvlTreeKeyPrev h lvt k = Some (last_opt (filter (\<lambda>x. hkey h x < key_abs k) (inorder t)), h2, lvt2) \<and> lv_inv h2 lvt2 t"
  using key_next_ok [OF assms] unfolding above_def below_def by blast

theorem key_neighbours_witness:
  "\<exists>h1 lvt1 h2 lvt2.
    lvAvlTreeKeyNext ex_heap ex_lvt (ex_int 4) =
      Some (hd_opt (filter (\<lambda>x. key_abs (ex_int 4) < hkey ex_heap x) (inorder ex_tree)), h1, lvt1) \<and> lv_inv h1 lvt1 ex_tree \<and>
    lvAvlTreeKeyPrev ex_heap ex_lvt (ex_int 4) =
      Some (last_opt (filter (\<lambda>x. hkey ex_heap x < key_abs (ex_int 4)) (inorder ex_tree)), h2, lvt2) \<and> lv_inv h2 lvt2 ex_tree"
  by (rule key_neighbours [OF _ ex_inv]) (simp_all add: ex_keys ex_tree_def)

text \<open>
  The in-order walk: \<open>lvAvlTreeFirst\<close> and \<open>lvAvlTreeLast\<close> are the ends of the sorted listing of
  the tree, and from each node \<open>lvAvlTreeNext\<close> and \<open>lvAvlTreePrev\<close> lead to its neighbours in it.
\<close>

theorem inorder_walk:
  assumes "lv_inv h lvt t" "inorder t = xs @ a # ys"
  shows "lvAvlTreeFirst h lvt = Some (hd_opt (inorder t)) \<and> lvAvlTreeLast h lvt = Some (last_opt (inorder t)) \<and>
    lvAvlTreeNext h (Some a) = Some (hd_opt ys) \<and> lvAvlTreePrev h (Some a) = Some (last_opt xs)"
proof -
  have st: "search_tree h t" and rt: "avl_root lvt = rootp t" using assms(1) by (simp_all add: lv_inv_def lv_search_def)
  have tr: "is_tree h None t" using st by (simp add: search_tree_def)
  show ?thesis
    using first_inorder [OF tr rt] last_inorder [OF tr rt] next_inorder [OF tr search_tree_distinct [OF st] assms(2)] by simp
qed

theorem inorder_walk_witness:
  "lvAvlTreeFirst ex_heap ex_lvt = Some (Some 2) \<and> lvAvlTreeLast ex_heap ex_lvt = Some (Some 3) \<and>
   lvAvlTreeNext ex_heap (Some 4) = Some (Some 3) \<and> lvAvlTreePrev ex_heap (Some 4) = Some (Some 2)"
  using inorder_walk [OF ex_inv, of "[2]" 4 "[3]"] by (simp add: ex_tree_def last_opt_def)

text \<open>
  C30. The post-order walk, which frees a tree without touching freed nodes: it starts at the first
  node of the post-order listing and each step leads to the next one, so every node is visited once
  and after its whole subtree.
\<close>

theorem postorder_walk:
  assumes "lv_inv h lvt t" "postorder t = xs @ a # ys"
  shows "lvAvlTreeFirstPostOrder h lvt = Some (hd_opt (postorder t)) \<and> lvAvlTreeNextPostOrder h (Some a) = Some (hd_opt ys) \<and>
    distinct (postorder t) \<and> set (postorder t) = set (inorder t)"
proof -
  have st: "search_tree h t" and rt: "avl_root lvt = rootp t" using assms(1) by (simp_all add: lv_inv_def lv_search_def)
  have tr: "is_tree h None t" and di: "distinct (inorder t)" using st search_tree_distinct by (auto simp: search_tree_def)
  show ?thesis
    using first_postorder [OF tr rt] next_postorder [OF tr di assms(2)] distinct_postorder [OF di] by simp
qed

theorem postorder_walk_witness:
  "lvAvlTreeFirstPostOrder ex_heap ex_lvt = Some (Some 2) \<and> lvAvlTreeNextPostOrder ex_heap (Some 3) = Some (Some 4) \<and>
   distinct (postorder ex_tree) \<and> set (postorder ex_tree) = set (inorder ex_tree)"
  using postorder_walk [OF ex_inv, of "[2]" 3 "[4]"] by (simp add: ex_tree_def)

text \<open>
  Under the standard null collation \<open>lvAvlTreeNodeCollatedNext\<close> walks the tree with the null
  subscript first and all the others in their stored order, although the tree keeps the null
  string between the numbers and the other strings.
\<close>

theorem node_collated_next:
  assumes "lv_inv h lvt t" "collated h t = xs @ a # ys"
  shows "lvAvlTreeNodeCollatedNext True h lvt (Some a) = Some (hd_opt ys)"
  using assms by (rule collated_next_ok)

theorem node_collated_next_witness:
  "lvAvlTreeNodeCollatedNext True ex_heap ex_lvt (Some 4) = Some (hd_opt [3])"
  by (rule node_collated_next [OF ex_inv, of "[2]"]) (simp add: collated_def ex_tree_def null_at_def ex_null)

text \<open>
  Under the standard null collation \<open>lvAvlTreeKeyCollatedNext\<close> returns the first non-null
  subscript after the key (after the null key: the first non-null subscript of the tree).
\<close>

theorem key_collated_next:
  assumes "lv_key k" "lv_inv h lvt t" "t \<noteq> Leaf"
  shows "\<exists>h' lvt'. lvAvlTreeKeyCollatedNext True h lvt k =
    Some (hd_opt (filter (\<lambda>x. \<not> null_at h x)
      (if is_str (mvtype k) \<and> str_of k = [] then inorder t else filter (\<lambda>x. key_abs k < hkey h x) (inorder t))), h', lvt') \<and>
    lv_inv h' lvt' t"
  using key_collated_next_ok [OF assms] unfolding above_def by blast

theorem key_collated_next_witness:
  "\<exists>h' lvt'. lvAvlTreeKeyCollatedNext True ex_heap ex_lvt (ex_str []) =
    Some (hd_opt (filter (\<lambda>x. \<not> null_at ex_heap x)
      (if is_str (mvtype (ex_str [])) \<and> str_of (ex_str []) = [] then inorder ex_tree
       else filter (\<lambda>x. key_abs (ex_str []) < hkey ex_heap x) (inorder ex_tree))), h', lvt') \<and>
    lv_inv h' lvt' ex_tree"
  by (rule key_collated_next [OF _ ex_inv]) (simp_all add: ex_keys ex_tree_def)

text \<open>
  Balance: the height an \<open>lvTree\<close> records is at most twice the binary logarithm of the number
  of its nodes plus one, so lookups, insertions and deletions visit logarithmically many nodes.
\<close>

theorem height_logarithmic:
  assumes "lv_inv h lvt t"
  shows "0 \<le> avl_height lvt \<and> 2 ^ nat (avl_height lvt) \<le> (length (inorder t) + 1) ^ 2"
  using assms avl_height_size [of h t] by (simp add: lv_inv_def size1_size)

theorem height_logarithmic_witness:
  "0 \<le> avl_height ex_lvt \<and> 2 ^ nat (avl_height ex_lvt) \<le> (length (inorder ex_tree) + 1) ^ 2"
  by (rule height_logarithmic [OF ex_inv])

text \<open>
  C29. Key comparison: for every subscript and every well-formed node the sign of
  \<open>lvAvlTreeKeySubscrCmp\<close> is the order of the two subscripts (numbers by value and before strings,
  strings bytewise), and the comparison changes nothing in the node but the cached float form of an
  integer key, which stays a form of the same number.
\<close>

theorem key_comparison:
  assumes "lv_key k" "wf_node n"
  shows "sgn (fst (lvAvlTreeKeySubscrCmp k n)) =
      (if key_abs k < node_key n then - 1 else if key_abs k = node_key n then 0 else 1) \<and>
    wf_node (snd (lvAvlTreeKeySubscrCmp k n)) \<and> same_node (snd (lvAvlTreeKeySubscrCmp k n)) n"
  using SubscrCmp.cmp_eq [OF assms] SubscrCmp.cmp_less [OF assms] SubscrCmp.cmp_wf [OF assms] SubscrCmp.cmp_same [OF assms]
  by (auto simp: sgn_if)

theorem key_comparison_witness:
  "sgn (fst (lvAvlTreeKeySubscrCmp (ex_int 7) (new_node ex_slot ex_lvt (ex_str [65]) None))) =
      (if key_abs (ex_int 7) < node_key (new_node ex_slot ex_lvt (ex_str [65]) None) then - 1
       else if key_abs (ex_int 7) = node_key (new_node ex_slot ex_lvt (ex_str [65]) None) then 0 else 1) \<and>
    wf_node (snd (lvAvlTreeKeySubscrCmp (ex_int 7) (new_node ex_slot ex_lvt (ex_str [65]) None))) \<and>
    same_node (snd (lvAvlTreeKeySubscrCmp (ex_int 7) (new_node ex_slot ex_lvt (ex_str [65]) None)))
      (new_node ex_slot ex_lvt (ex_str [65]) None)"
  by (rule key_comparison) (simp_all add: ex_keys new_node_ok)

end
