(* ===== verification/LvTrace.thy ===== *)
theory LvTrace
  imports LvSpec
begin

text \<open>
  A subscript tree over time: created empty (\<open>LV_TREE_CREATE\<close>), then looked up, extended, pruned
  and walked in any order, the way \<open>op_putindx\<close>, \<open>op_srchindx\<close>, \<open>lv_kill\<close>, \<open>op_fnorder\<close> and
  \<open>op_fnzprevious\<close> use it.  Every state that can arise satisfies the invariant of \<open>LvInsert\<close>, all its
  nodes belong to the tree, no operation gets stuck, and a walk visits every node once.
\<close>

section \<open>Operations\<close>

text \<open>The fields of \<open>lvTree\<close> that \<open>LV_TREE_CREATE\<close> does not assign keep what the slot held.\<close>

definition LV_TREE_CREATE :: "lvTree \<Rightarrow> lvTree" where
  "LV_TREE_CREATE slot = slot\<lparr>avl_height := 0, avl_root := None, lastNodeLookedUp := None\<rparr>"

text \<open>\<open>LVTREENODE_FREESLOT\<close> gives the slot back: the node is no longer in the store.\<close>

definition LV_TREE_NODE_DELETE :: "lvheap \<Rightarrow> lvTree \<Rightarrow> nat \<Rightarrow> (lvheap \<times> lvTree) option" where
  "LV_TREE_NODE_DELETE h lvt node = do {
     (h, lvt) \<leftarrow> lvAvlTreeNodeDelete h lvt (Some node);
     Some (h(node := None), lvt)
   }"

text \<open>
  One level of \<open>op_putindx\<close>: look the subscript up, insert a node with an undefined value in the free
  slot \<open>a\<close> when it is not there.
\<close>

definition put_level :: "lvheap \<Rightarrow> lvTree \<Rightarrow> mval \<Rightarrow> nptr \<Rightarrow> nat \<Rightarrow> lvTreeNode \<Rightarrow> (nptr \<times> lvheap \<times> lvTree) option" where
  "put_level h lvt key lp a slot = do {
     (lv, parent, h, lvt) \<leftarrow> lvAvlTreeLookup h lvt key lp;
     if lv = None then do {
       (lv, h, lvt) \<leftarrow> lvAvlTreeNodeInsert h lvt key parent a slot;
       h \<leftarrow> upd h lv (\<lambda>n. n\<lparr>nd_v := (nd_v n)\<lparr>mvtype := MV_0\<rparr>\<rparr>);
       Some (lv, h, lvt)
     } else Some (lv, h, lvt)
   }"

text \<open>Look a subscript up and, when it is there, delete its node (\<open>op_srchindx\<close> and \<open>lv_kill\<close> on one level).\<close>

definition kill_level :: "lvheap \<Rightarrow> lvTree \<Rightarrow> mval \<Rightarrow> nptr \<Rightarrow> (lvheap \<times> lvTree) option" where
  "kill_level h lvt key lp = do {
     (lv, parent, h, lvt) \<leftarrow> lvAvlTreeLookup h lvt key lp;
     (case lv of None \<Rightarrow> Some (h, lvt)
      | Some a \<Rightarrow> LV_TREE_NODE_DELETE h lvt a)
   }"

section \<open>The invariant, with ownership\<close>

text \<open>Every node of the tree points back to the \<open>lvTree\<close> it belongs to.\<close>

definition lv_good :: "lvheap \<Rightarrow> lvTree \<Rightarrow> nat tree \<Rightarrow> bool" where
  "lv_good h lvt t \<longleftrightarrow> lv_inv h lvt t \<and> (\<forall>a \<in> set_tree t. tree_parent (the (h a)) = lvt_addr lvt)"

lemma lv_inv_cong:
  assumes "lv_inv h lvt t" "\<And>a. a \<in> set_tree t \<Longrightarrow> links h' a = links h a \<and> bal h' a = bal h a \<and> ddir h' a = ddir h a \<and>
    hkey h' a = hkey h a \<and> (wf_node (the (h a)) \<longrightarrow> wf_node (the (h' a)))"
  shows "lv_inv h' lvt t"
proof -
  have st: "search_tree h t" and rt: "avl_root lvt = rootp t" and cl: "clue_ok h lvt t"
    and av: "avl h t" and ht: "avl_height lvt = int (height t)"
    using assms(1) by (simp_all add: lv_inv_def lv_search_def)
  have tr: "is_tree h' None t" using st is_tree_cong [of t h' h None] assms(2) by (simp add: search_tree_def)
  have "map (hkey h') (inorder t) = map (hkey h) (inorder t)" using assms(2) by simp
  then have "sorted_keys h' (inorder t) = sorted_keys h (inorder t)" by (simp only: sorted_keys_def)
  then have "search_tree h' t" using st tr assms(2) by (simp add: search_tree_def)
  moreover have "dir_ok h' cs = dir_ok h cs" if "t = plug s cs" for s cs
    using assms(2) that by (intro dir_ok_cong) (simp add: set_tree_plug)
  then have "clue_at h' t b mn mx = clue_at h t b mn mx" for b mn mx unfolding clue_at_def by metis
  then have "clue_ok h' lvt t" using cl by (simp add: clue_ok_def split: option.splits)
  moreover have "avl h' t" using av avl_cong [of t h' h] assms(2) by simp
  ultimately show ?thesis using rt ht by (simp add: lv_inv_def lv_search_def)
qed

lemmas node_views = links_def bal_def ddir_def hkey_def

lemma rel_data_owner: "rel_option data_eq x y \<Longrightarrow> y \<noteq> None \<Longrightarrow> tree_parent (the x) = tree_parent (the y)"
  by (cases x; cases y) (simp_all add: data_eq_def)

lemma good_dom: "lv_good h lvt t \<Longrightarrow> a \<in> set_tree t \<Longrightarrow> h a \<noteq> None"
  using is_tree_dom [of h None t a] by (auto simp: lv_good_def lv_inv_def lv_search_def search_tree_def)

lemma good_fresh: "lv_good h lvt t \<Longrightarrow> h a = None \<Longrightarrow> a \<notin> set_tree t"
  using good_dom by blast

lemma value_upd_key [simp]: "node_key (n\<lparr>nd_v := v\<rparr>) = node_key n" "wf_node (n\<lparr>nd_v := v\<rparr>) = wf_node n"
  by (simp_all add: node_key_def node_num_def wf_node_def conv_ok_def)

lemma create_good: "lv_good h (LV_TREE_CREATE slot) Leaf"
  by (simp add: lv_good_def lv_inv_def lv_search_def search_tree_def clue_ok_def LV_TREE_CREATE_def)

lemma lookup_good:
  assumes "lv_key k" "lv_good h lvt t"
  obtains par h' lvt' where "lvAvlTreeLookup h lvt k lp = Some (map_of (lv_abs h t) (key_abs k), par, h', lvt')"
    "lookup_post (key_abs k) h lvt t (map_of (lv_abs h t) (key_abs k), par, h', lvt')"
    "lv_good h' lvt' t" "lv_abs h' t = lv_abs h t" "\<forall>x. x \<notin> set_tree t \<longrightarrow> h' x = h x" "lvt_addr lvt' = lvt_addr lvt"
proof -
  have inv: "lv_inv h lvt t" using assms(2) by (simp add: lv_good_def)
  obtain node par h' lvt' where r: "lvAvlTreeLookup h lvt k lp = Some (node, par, h', lvt')"
    "lookup_post (key_abs k) h lvt t (node, par, h', lvt')" "lv_inv h' lvt' t" "heap_quiet h' h"
    "\<forall>x. x \<notin> set_tree t \<longrightarrow> h' x = h x" "lvt_addr lvt' = lvt_addr lvt"
    using lookup_inv [OF assms(1) inv] by metis
  have "tree_parent (the (h' a)) = lvt_addr lvt'" if "a \<in> set_tree t" for a
    using assms(2) that good_dom [OF assms(2) that] r(4,6) rel_data_owner [of "h' a" "h a"]
    by (simp add: lv_good_def heap_quiet_def heap_data_def)
  with r(3) have "lv_good h' lvt' t" by (simp add: lv_good_def)
  with r lookup_map_of [OF r(2)] lv_abs_quiet [OF r(4)] that show ?thesis by simp
qed

lemma insert_good:
  assumes "insert_post k a slot h lvt t (h', lvt')" "a \<notin> set_tree t" "lv_good h lvt t"
  obtains t' where "lv_good h' lvt' t'" "lv_abs h' t' = insort_key fst (key_abs k, a) (lv_abs h t)"
    "set_tree t' = insert a (set_tree t)"
proof -
  have st: "search_tree h t" using assms(3) by (simp add: lv_good_def lv_inv_def lv_search_def)
  obtain t' where t': "lv_inv h' lvt' t'" "lv_abs h' t' = insort_key fst (key_abs k, a) (lv_abs h t)"
    using insert_abs [OF assms(1,2) st] .
  have "snd ` set (lv_abs h' t') = snd ` insert (key_abs k, a) (set (lv_abs h t))" unfolding t'(2) by (simp add: set_insort_key)
  then have s: "set_tree t' = insert a (set_tree t)" by (simp add: lv_abs_def image_image)
  have p: "\<forall>x. x \<noteq> a \<longrightarrow> rel_option data_eq (h' x) (h x)" "tree_parent (the (h' a)) = lvt_addr lvt" "lvt_addr lvt' = lvt_addr lvt"
    using assms(1) unfolding insert_post_def prod.case by blast+
  have "tree_parent (the (h' x)) = lvt_addr lvt'" if "x \<in> set_tree t'" for x
    using p assms(3) that rel_data_owner [of "h' x" "h x"] good_dom [OF assms(3), of x] s
    by (cases "x = a") (auto simp: lv_good_def)
  with t' s that show ?thesis by (simp add: lv_good_def)
qed

lemma delete_good:
  assumes "lv_good h lvt t" "reach h t a"
  obtains h' lvt' t' where "LV_TREE_NODE_DELETE h lvt a = Some (h', lvt')" "lv_good h' lvt' t'"
    "lv_abs h' t' = filter (\<lambda>(k, x). x \<noteq> a) (lv_abs h t)" "\<forall>x. x \<notin> set_tree t \<longrightarrow> h' x = h x" "h' a = None"
    "lvt_addr lvt' = lvt_addr lvt"
proof -
  have inv: "lv_inv h lvt t" using assms(1) by (simp add: lv_good_def)
  obtain h1 lvt1 where d: "lvAvlTreeNodeDelete h lvt (Some a) = Some (h1, lvt1)" "delete_post a h lvt t (h1, lvt1)"
    using delete_ok [OF inv assms(2)] by (metis surj_pair)
  have di: "distinct (inorder t)" using inv search_tree_distinct by (auto simp: lv_inv_def lv_search_def)
  obtain t' where t': "lv_inv h1 lvt1 t'" "lv_abs h1 t' = filter (\<lambda>(k, x). x \<noteq> a) (lv_abs h t)"
    using delete_abs [OF d(2) di] .
  have p: "heap_data h1 h" "\<forall>x. x \<notin> set_tree t \<longrightarrow> h1 x = h x" "lvt_addr lvt1 = lvt_addr lvt"
    using d(2) unfolding delete_post_def prod.case by blast+
  have s: "set_tree t' = set_tree t - {a}"
  proof -
    have "snd ` set (lv_abs h1 t') = set_tree t - {a}" unfolding t'(2) by (force simp: lv_abs_def)
    then show ?thesis by (simp add: lv_abs_def image_image)
  qed
  let ?h = "h1(a := None)"
  have "lv_inv ?h lvt1 t'" by (rule lv_inv_cong [OF t'(1)]) (use s in \<open>auto simp: node_views\<close>)
  moreover have "tree_parent (the (?h x)) = lvt_addr lvt1" if "x \<in> set_tree t'" for x
    using p assms(1) that rel_data_owner [of "h1 x" "h x"] good_dom [OF assms(1), of x] s
    by (auto simp: lv_good_def heap_data_def)
  ultimately have "lv_good ?h lvt1 t'" by (simp add: lv_good_def)
  moreover have "lv_abs ?h t' = lv_abs h1 t'" using s by (auto simp: lv_abs_def hkey_def)
  moreover have "a \<in> set_tree t" using assms(2) reach_position [of h t a] by (auto simp: set_tree_plug)
  ultimately show ?thesis
    using that [of ?h lvt1 t'] d(1) t'(2) p by (auto simp: LV_TREE_NODE_DELETE_def)
qed

section \<open>One operation\<close>

lemma put_level_ok:
  assumes "lv_key k" "lv_good h lvt t" "h a = None"
  obtains h' lvt' t' where
    "put_level h lvt k lp a slot = Some (Some (case map_of (lv_abs h t) (key_abs k) of None \<Rightarrow> a | Some b \<Rightarrow> b), h', lvt')"
    "lv_good h' lvt' t'" "\<forall>x. x \<notin> insert a (set_tree t) \<longrightarrow> h' x = h x" "lvt_addr lvt' = lvt_addr lvt"
    "lv_abs h' t' = (case map_of (lv_abs h t) (key_abs k) of
       None \<Rightarrow> insort_key fst (key_abs k, a) (lv_abs h t) | Some b \<Rightarrow> lv_abs h t)"
    "map_of (lv_abs h t) (key_abs k) = None \<Longrightarrow> mvtype (nd_v (the (h' a))) = MV_0"
proof -
  have a: "a \<notin> set_tree t" using good_dom [OF assms(2)] assms(3) by blast
  let ?m = "map_of (lv_abs h t) (key_abs k)"
  obtain par h1 lvt1 where r: "lvAvlTreeLookup h lvt k lp = Some (?m, par, h1, lvt1)"
    "lookup_post (key_abs k) h lvt t (?m, par, h1, lvt1)" "lv_good h1 lvt1 t" "lv_abs h1 t = lv_abs h t"
    "\<forall>x. x \<notin> set_tree t \<longrightarrow> h1 x = h x" "lvt_addr lvt1 = lvt_addr lvt"
    using lookup_good [OF assms(1,2)] by metis
  show ?thesis
  proof (cases ?m)
    case (Some b)
    with r that [of h1 lvt1 t] show ?thesis by (simp add: put_level_def)
  next
    case None
    have inv1: "lv_inv h1 lvt1 t" using r(3) by (simp add: lv_good_def)
    obtain h2 lvt2 where i: "lvAvlTreeNodeInsert h1 lvt1 k par a slot = Some (Some a, h2, lvt2)"
      "insert_post k a slot h1 lvt1 t (h2, lvt2)"
      using insert_after_lookup [OF assms(1) _ inv1 a] r(2) unfolding None by metis
    obtain t2 where t2: "lv_good h2 lvt2 t2" "lv_abs h2 t2 = insort_key fst (key_abs k, a) (lv_abs h1 t)"
      "set_tree t2 = insert a (set_tree t)" using insert_good [OF i(2) a r(3)] .
    obtain n where n: "h2 a = Some n" using good_dom [OF t2(1)] t2(3) by auto
    define h3 where "h3 = h2(a \<mapsto> n\<lparr>nd_v := (nd_v n)\<lparr>mvtype := MV_0\<rparr>\<rparr>)"
    have v: "links h3 x = links h2 x \<and> bal h3 x = bal h2 x \<and> ddir h3 x = ddir h2 x \<and> hkey h3 x = hkey h2 x \<and>
      (wf_node (the (h2 x)) \<longrightarrow> wf_node (the (h3 x)))" "tree_parent (the (h3 x)) = tree_parent (the (h2 x))" for x
      using n by (simp_all add: h3_def node_views)
    have "lv_inv h2 lvt2 t2" using t2(1) by (simp add: lv_good_def)
    then have "lv_inv h3 lvt2 t2" by (rule lv_inv_cong) (rule v(1))
    then have "lv_good h3 lvt2 t2" using t2(1) v(2) by (simp add: lv_good_def)
    moreover have "lv_abs h3 t2 = lv_abs h2 t2" using v(1) by (simp add: lv_abs_def)
    moreover have "\<forall>x. x \<notin> insert a (set_tree t) \<longrightarrow> h2 x = h1 x" "lvt_addr lvt2 = lvt_addr lvt1"
      using i(2) unfolding insert_post_def prod.case by blast+
    ultimately show ?thesis
      using that [of h3 lvt2 t2] r i(1) t2(2) None n by (auto simp: put_level_def upd_def h3_def)
  qed
qed

lemma kill_level_ok:
  assumes "lv_key k" "lv_good h lvt t"
  obtains h' lvt' t' where "kill_level h lvt k lp = Some (h', lvt')" "lv_good h' lvt' t'"
    "\<forall>x. x \<notin> set_tree t \<longrightarrow> h' x = h x" "lvt_addr lvt' = lvt_addr lvt"
    "lv_abs h' t' = filter (\<lambda>(K, x). Some x \<noteq> map_of (lv_abs h t) (key_abs k)) (lv_abs h t)"
proof -
  let ?m = "map_of (lv_abs h t) (key_abs k)"
  obtain par h1 lvt1 where r: "lvAvlTreeLookup h lvt k lp = Some (?m, par, h1, lvt1)"
    "lookup_post (key_abs k) h lvt t (?m, par, h1, lvt1)" "lv_good h1 lvt1 t" "lv_abs h1 t = lv_abs h t"
    "\<forall>x. x \<notin> set_tree t \<longrightarrow> h1 x = h x" "lvt_addr lvt1 = lvt_addr lvt"
    using lookup_good [OF assms] by metis
  show ?thesis
  proof (cases ?m)
    case None
    with r that [of h1 lvt1 t] show ?thesis by (simp add: kill_level_def case_prod_beta)
  next
    case (Some b)
    have "reach h1 t b" using r(2) Some reach_position [of h1 t b] by (auto simp: lookup_post_def found_at_def)
    then obtain h2 lvt2 t2 where
      "LV_TREE_NODE_DELETE h1 lvt1 b = Some (h2, lvt2)" "lv_good h2 lvt2 t2"
      "lv_abs h2 t2 = filter (\<lambda>(k, x). x \<noteq> b) (lv_abs h1 t)" "\<forall>x. x \<notin> set_tree t \<longrightarrow> h2 x = h1 x"
      "h2 b = None" "lvt_addr lvt2 = lvt_addr lvt1" by (rule delete_good [OF r(3)])
    with r Some that [of h2 lvt2 t2] show ?thesis by (simp add: kill_level_def)
  qed
qed

text \<open>The functions that step to a neighbouring subscript change the state as their lookup does.\<close>

lemma key_step_lookup:
  "lvAvlTreeKeyNext h lvt k = Some (n, h', lvt') \<Longrightarrow> \<exists>node par. lvAvlTreeLookup h lvt k None = Some (node, par, h', lvt')"
  "lvAvlTreeKeyPrev h lvt k = Some (n, h', lvt') \<Longrightarrow> \<exists>node par. lvAvlTreeLookup h lvt k None = Some (node, par, h', lvt')"
  by (auto simp: lvAvlTreeKeyNext_def lvAvlTreeKeyPrev_def split: Option.bind_splits if_splits prod.splits)

lemma kill_filter:
  assumes "lv_good h lvt t"
  shows "filter (\<lambda>(K, x). Some x \<noteq> map_of (lv_abs h t) K0) (lv_abs h t) = filter (\<lambda>(K, x). K \<noteq> K0) (lv_abs h t)"
proof (rule filter_cong [OF refl])
  fix p assume "p \<in> set (lv_abs h t)"
  then obtain x where x: "p = (hkey h x, x)" "x \<in> set (inorder t)" by (auto simp: lv_abs_def)
  have s: "sorted_keys h (inorder t)" using assms by (simp add: lv_good_def lv_inv_def lv_search_def search_tree_def)
  show "(case p of (K, x) \<Rightarrow> Some x \<noteq> map_of (lv_abs h t) K0) \<longleftrightarrow> (case p of (K, x) \<Rightarrow> K \<noteq> K0)"
  proof (cases "hkey h x = K0")
    case True
    with x map_of_sorted [OF s x(2)] show ?thesis by (simp add: lv_abs_def)
  next
    case False
    have "map_of (lv_abs h t) K0 \<noteq> Some x" using False by (auto simp: lv_abs_def dest!: map_of_SomeD)
    with False x show ?thesis by auto
  qed
qed

lemma map_of_insort: "map_of xs K = None \<Longrightarrow> map_of (insort_key fst (K, a) xs) K = Some a"
  by (induction xs) (auto split: if_splits)

lemma put_then_found:
  assumes "lv_good h lvt t" "lv_key k" "h a = None"
  obtains b h1 lvt1 par h2 lvt2 where "put_level h lvt k lp a slot = Some (Some b, h1, lvt1)"
    "lvAvlTreeLookup h1 lvt1 k lp = Some (Some b, par, h2, lvt2)"
    "b = (case map_of (lv_abs h t) (key_abs k) of None \<Rightarrow> a | Some b \<Rightarrow> b)"
proof -
  let ?m = "map_of (lv_abs h t) (key_abs k)"
  obtain h1 lvt1 t1 where r: "put_level h lvt k lp a slot = Some (Some (case ?m of None \<Rightarrow> a | Some b \<Rightarrow> b), h1, lvt1)"
    "lv_good h1 lvt1 t1"
    "lv_abs h1 t1 = (case ?m of None \<Rightarrow> insort_key fst (key_abs k, a) (lv_abs h t) | Some b \<Rightarrow> lv_abs h t)"
    using put_level_ok [OF assms(2,1,3)] by metis
  obtain par h2 lvt2 where l: "lvAvlTreeLookup h1 lvt1 k lp = Some (map_of (lv_abs h1 t1) (key_abs k), par, h2, lvt2)"
    using lookup_good [OF assms(2) r(2)] by metis
  have "map_of (lv_abs h1 t1) (key_abs k) = Some (case ?m of None \<Rightarrow> a | Some b \<Rightarrow> b)"
    unfolding r(3) by (cases ?m) (simp_all add: map_of_insort)
  with r(1) l that show ?thesis by simp
qed

lemma kill_then_absent:
  assumes "lv_good h lvt t" "lv_key k"
  obtains h1 lvt1 par h2 lvt2 where "kill_level h lvt k lp = Some (h1, lvt1)"
    "lvAvlTreeLookup h1 lvt1 k lp = Some (None, par, h2, lvt2)"
proof -
  obtain h1 lvt1 t1 where r: "kill_level h lvt k lp = Some (h1, lvt1)" "lv_good h1 lvt1 t1"
    "lv_abs h1 t1 = filter (\<lambda>(K, x). K \<noteq> key_abs k) (lv_abs h t)"
    using kill_level_ok [OF assms(2,1)] kill_filter [OF assms(1)] by metis
  obtain par h2 lvt2 where "lvAvlTreeLookup h1 lvt1 k lp = Some (map_of (lv_abs h1 t1) (key_abs k), par, h2, lvt2)"
    using lookup_good [OF assms(2) r(2)] by metis
  moreover have "map_of (lv_abs h1 t1) (key_abs k) = None" unfolding r(3) by (auto simp: map_of_eq_None_iff)
  ultimately show ?thesis using r(1) that by simp
qed

section \<open>The states of a subscript tree\<close>

inductive lv_step :: "lvheap \<times> lvTree \<Rightarrow> lvheap \<times> lvTree \<Rightarrow> bool" where
  get: "lv_key k \<Longrightarrow> lvAvlTreeLookup h lvt k lp = Some (node, par, h', lvt') \<Longrightarrow> lv_step (h, lvt) (h', lvt')"
| put: "lv_key k \<Longrightarrow> h a = None \<Longrightarrow> put_level h lvt k lp a slot = Some (lv, h', lvt') \<Longrightarrow> lv_step (h, lvt) (h', lvt')"
| kill: "lv_key k \<Longrightarrow> kill_level h lvt k lp = Some (h', lvt') \<Longrightarrow> lv_step (h, lvt) (h', lvt')"
| order: "lv_key k \<Longrightarrow> lvAvlTreeKeyNext h lvt k = Some (n, h', lvt') \<Longrightarrow> lv_step (h, lvt) (h', lvt')"
| zprevious: "lv_key k \<Longrightarrow> lvAvlTreeKeyPrev h lvt k = Some (n, h', lvt') \<Longrightarrow> lv_step (h, lvt) (h', lvt')"

lemma step_lookup_good:
  assumes "lv_good h lvt t" "lv_key k" "lvAvlTreeLookup h lvt k lp = Some (node, par, h', lvt')"
  shows "lv_good h' lvt' t"
  using lookup_good [OF assms(2,1), of lp] assms(3) by fastforce

lemma lv_step_good:
  assumes "lv_step (h, lvt) (h', lvt')" "lv_good h lvt t"
  shows "\<exists>t'. lv_good h' lvt' t'"
  using assms(1)
proof (cases rule: lv_step.cases)
  case get then show ?thesis using step_lookup_good [OF assms(2)] by blast
next
  case (put k a lp slot lv)
  obtain h1 lvt1 t1 where "put_level h lvt k lp a slot = Some (Some (case map_of (lv_abs h t) (key_abs k) of None \<Rightarrow> a | Some b \<Rightarrow> b), h1, lvt1)"
    "lv_good h1 lvt1 t1" using put_level_ok [OF put(1) assms(2) put(2)] by metis
  with put(3) show ?thesis by auto
next
  case (kill k lp)
  obtain h1 lvt1 t1 where "kill_level h lvt k lp = Some (h1, lvt1)" "lv_good h1 lvt1 t1"
    using kill_level_ok [OF kill(1) assms(2)] by metis
  with kill(2) show ?thesis by auto
next
  case order then show ?thesis using key_step_lookup(1) step_lookup_good [OF assms(2)] by blast
next
  case zprevious then show ?thesis using key_step_lookup(2) step_lookup_good [OF assms(2)] by blast
qed

lemma lv_steps_good: "lv_step\<^sup>*\<^sup>* s s' \<Longrightarrow> lv_good (fst s) (snd s) t \<Longrightarrow> \<exists>t'. lv_good (fst s') (snd s') t'"
proof (induction rule: rtranclp_induct)
  case (step y z)
  then show ?case using lv_step_good [of "fst y" "snd y" "fst z" "snd z"] by auto
qed auto

section \<open>Sequences of operations\<close>

datatype lv_op = Put mval nat lvTreeNode | Kill mval

fun lv_run :: "lv_op list \<Rightarrow> lvheap \<Rightarrow> lvTree \<Rightarrow> (lvheap \<times> lvTree) option" where
  "lv_run [] h lvt = Some (h, lvt)"
| "lv_run (Put k a slot # ops) h lvt = do { (lv, h, lvt) \<leftarrow> put_level h lvt k None a slot; lv_run ops h lvt }"
| "lv_run (Kill k # ops) h lvt = do { (h, lvt) \<leftarrow> kill_level h lvt k None; lv_run ops h lvt }"

text \<open>The same on the abstract side: an association list sorted by subscript.\<close>

fun spec_op :: "lv_op \<Rightarrow> (skey \<times> nat) list \<Rightarrow> (skey \<times> nat) list" where
  "spec_op (Put k a slot) xs = (if map_of xs (key_abs k) = None then insort_key fst (key_abs k, a) xs else xs)"
| "spec_op (Kill k) xs = filter (\<lambda>(K, x). K \<noteq> key_abs k) xs"

fun op_key :: "lv_op \<Rightarrow> mval" where
  "op_key (Put k a slot) = k"
| "op_key (Kill k) = k"

fun op_slot :: "lv_op \<Rightarrow> nat list" where
  "op_slot (Put k a slot) = [a]"
| "op_slot (Kill k) = []"

lemma op_ok:
  assumes "lv_good h lvt t" "lv_key (op_key p)" "\<forall>a \<in> set (op_slot p). h a = None"
  obtains h' lvt' t' where "\<And>ops. lv_run (p # ops) h lvt = lv_run ops h' lvt'" "lv_good h' lvt' t'"
    "lv_abs h' t' = spec_op p (lv_abs h t)" "\<And>x. h x = None \<Longrightarrow> x \<notin> set (op_slot p) \<Longrightarrow> h' x = None"
proof (cases p)
  case (Put k a slot)
  have a: "lv_key k" "h a = None" using assms Put by simp_all
  obtain h' lvt' t' where r:
    "put_level h lvt k None a slot = Some (Some (case map_of (lv_abs h t) (key_abs k) of None \<Rightarrow> a | Some b \<Rightarrow> b), h', lvt')"
    "lv_good h' lvt' t'" "\<forall>x. x \<notin> insert a (set_tree t) \<longrightarrow> h' x = h x"
    "lv_abs h' t' = (case map_of (lv_abs h t) (key_abs k) of
       None \<Rightarrow> insort_key fst (key_abs k, a) (lv_abs h t) | Some b \<Rightarrow> lv_abs h t)"
    using put_level_ok [OF a(1) assms(1) a(2)] by metis
  show ?thesis
    by (rule that [of h' lvt' t']) (use r Put good_fresh [OF assms(1)] in \<open>auto split: option.splits\<close>)
next
  case (Kill k)
  have k: "lv_key k" using assms Kill by simp
  obtain h' lvt' t' where r: "kill_level h lvt k None = Some (h', lvt')" "lv_good h' lvt' t'"
    "\<forall>x. x \<notin> set_tree t \<longrightarrow> h' x = h x"
    "lv_abs h' t' = filter (\<lambda>(K, x). Some x \<noteq> map_of (lv_abs h t) (key_abs k)) (lv_abs h t)"
    using kill_level_ok [OF k assms(1)] by metis
  show ?thesis
    by (rule that [of h' lvt' t']) (use r Kill good_fresh [OF assms(1)] kill_filter [OF assms(1)] in auto)
qed

lemma run_ok:
  assumes "lv_good h lvt t" "\<forall>p \<in> set ops. lv_key (op_key p)" "distinct (concat (map op_slot ops))"
    "\<forall>a \<in> set (concat (map op_slot ops)). h a = None"
  shows "\<exists>h' lvt' t'. lv_run ops h lvt = Some (h', lvt') \<and> lv_good h' lvt' t' \<and> lv_abs h' t' = fold spec_op ops (lv_abs h t)"
  using assms
proof (induction ops arbitrary: h lvt t)
  case Nil then show ?case by auto
next
  case (Cons p ops)
  obtain h1 lvt1 t1 where r: "\<And>ops. lv_run (p # ops) h lvt = lv_run ops h1 lvt1" "lv_good h1 lvt1 t1"
    "lv_abs h1 t1 = spec_op p (lv_abs h t)" "\<And>x. h x = None \<Longrightarrow> x \<notin> set (op_slot p) \<Longrightarrow> h1 x = None"
    by (rule op_ok [OF Cons.prems(1), of p]) (use Cons.prems(2,4) in auto)
  have "h1 a = None" if "a \<in> set (concat (map op_slot ops))" for a
    using Cons.prems(3,4) that by (intro r(4)) auto
  with Cons.IH [OF r(2)] Cons.prems(2,3) r(1,3) show ?case by auto
qed

section \<open>Properties\<close>

text \<open>
  C5. Invariant: in every state that any sequence of lookups, insertions, deletions and steps to a
  neighbour can reach from a freshly created tree, the nodes form a search tree with consistent
  links, balance fields, recorded height and clue, and every node belongs to the tree.
\<close>

theorem reachable_invariant:
  assumes "lv_step\<^sup>*\<^sup>* (h0, LV_TREE_CREATE slot) (h, lvt)"
  shows "\<exists>t. lv_inv h lvt t \<and> (\<forall>a \<in> set_tree t. tree_parent (the (h a)) = lvt_addr lvt)"
  using lv_steps_good [OF assms, of Leaf] create_good by (simp add: lv_good_def)

lemma ex_put_step:
  obtains h lvt where "lv_step (Map.empty, LV_TREE_CREATE ex_lvt) (h, lvt)" "h 9 \<noteq> None" "h 8 = None"
proof -
  have "lv_key (ex_int 4)" by (simp add: ex_keys)
  then obtain h lvt t where p:
    "put_level Map.empty (LV_TREE_CREATE ex_lvt) (ex_int 4) None 9 ex_slot =
       Some (Some (case map_of (lv_abs Map.empty Leaf) (key_abs (ex_int 4)) of None \<Rightarrow> 9 | Some b \<Rightarrow> b), h, lvt)"
    "lv_good h lvt t" "\<forall>x. x \<notin> insert 9 (set_tree Leaf) \<longrightarrow> h x = None"
    "lv_abs h t = (case map_of (lv_abs Map.empty Leaf) (key_abs (ex_int 4)) of
       None \<Rightarrow> insort_key fst (key_abs (ex_int 4), 9) (lv_abs Map.empty Leaf) | Some b \<Rightarrow> lv_abs Map.empty Leaf)"
    using put_level_ok [OF _ create_good, of "ex_int 4" Map.empty 9 ex_lvt None ex_slot] by metis
  have r: "put_level Map.empty (LV_TREE_CREATE ex_lvt) (ex_int 4) None 9 ex_slot = Some (Some 9, h, lvt)"
    "lv_good h lvt t" "lv_abs h t = [(key_abs (ex_int 4), 9)]" "h 8 = None"
    using p by (simp_all add: lv_abs_def)
  then have "lv_step (Map.empty, LV_TREE_CREATE ex_lvt) (h, lvt)"
    by (intro lv_step.put [of "ex_int 4" _ 9]) (simp_all add: ex_keys)
  moreover have "set_tree t = {9}" using arg_cong [OF r(3), of "\<lambda>xs. snd ` set xs"] by (simp add: lv_abs_def image_image)
  ultimately show ?thesis using that good_dom [OF r(2)] r(4) by simp
qed

theorem reachable_invariant_witness:
  "\<exists>h lvt t. h 9 \<noteq> None \<and> lv_step\<^sup>*\<^sup>* (Map.empty, LV_TREE_CREATE ex_lvt) (h, lvt) \<and> lv_inv h lvt t \<and>
    (\<forall>a \<in> set_tree t. tree_parent (the (h a)) = lvt_addr lvt)"
  using reachable_invariant ex_put_step by (metis r_into_rtranclp)

text \<open>
  C6. No operation gets stuck: in every reachable state, for every subscript, creating it and
  killing it return (no NULL link is followed, every loop ends), and afterwards it is found in the
  node that carries it, or not found.
\<close>

theorem never_stuck:
  assumes "lv_step\<^sup>*\<^sup>* (h0, LV_TREE_CREATE slot0) (h, lvt)" "lv_key k" "h a = None"
  shows "(\<exists>b h1 lvt1 par h2 lvt2. put_level h lvt k lp a slot = Some (Some b, h1, lvt1) \<and>
      lvAvlTreeLookup h1 lvt1 k lp = Some (Some b, par, h2, lvt2)) \<and>
    (\<exists>h1 lvt1 par h2 lvt2. kill_level h lvt k lp = Some (h1, lvt1) \<and>
      lvAvlTreeLookup h1 lvt1 k lp = Some (None, par, h2, lvt2))"
proof -
  obtain t where g: "lv_good h lvt t" using lv_steps_good [OF assms(1), of Leaf] create_good by auto
  obtain b h1 lvt1 par h2 lvt2 where "put_level h lvt k lp a slot = Some (Some b, h1, lvt1)"
    "lvAvlTreeLookup h1 lvt1 k lp = Some (Some b, par, h2, lvt2)" by (rule put_then_found [OF g assms(2,3)])
  moreover obtain h3 lvt3 par3 h4 lvt4 where "kill_level h lvt k lp = Some (h3, lvt3)"
    "lvAvlTreeLookup h3 lvt3 k lp = Some (None, par3, h4, lvt4)" by (rule kill_then_absent [OF g assms(2)])
  ultimately show ?thesis by blast
qed

theorem never_stuck_witness:
  "\<exists>h lvt b h1 lvt1 par h2 lvt2. lv_step\<^sup>*\<^sup>* (Map.empty, LV_TREE_CREATE ex_lvt) (h, lvt) \<and> h 9 \<noteq> None \<and>
    put_level h lvt (ex_str [66]) None 8 ex_slot = Some (Some b, h1, lvt1) \<and>
    lvAvlTreeLookup h1 lvt1 (ex_str [66]) None = Some (Some b, par, h2, lvt2)"
proof -
  obtain h lvt where s: "lv_step (Map.empty, LV_TREE_CREATE ex_lvt) (h, lvt)" "h 9 \<noteq> None" "h 8 = None"
    by (rule ex_put_step)
  have r: "lv_step\<^sup>*\<^sup>* (Map.empty, LV_TREE_CREATE ex_lvt) (h, lvt)" using s(1) by simp
  from never_stuck [OF r ex_keys(2) s(3)] r s(2) show ?thesis by blast
qed

text \<open>
  C4. Any sequence of insertions and deletions, from an empty tree and with free slots, runs to its
  end and leaves exactly the subscripts that the same sequence leaves in an association list sorted
  by subscript.
\<close>

theorem run_refines:
  assumes "\<forall>p \<in> set ops. lv_key (op_key p)" "distinct (concat (map op_slot ops))"
    "\<forall>a \<in> set (concat (map op_slot ops)). h a = None"
  shows "\<exists>h' lvt' t'. lv_run ops h (LV_TREE_CREATE slot) = Some (h', lvt') \<and> lv_inv h' lvt' t' \<and>
    lv_abs h' t' = fold spec_op ops []"
  using run_ok [OF create_good assms, of slot] unfolding lv_good_def by (auto simp: lv_abs_def)

theorem run_refines_witness:
  "\<exists>h' lvt' t'. lv_run [Put (ex_int 4) 1 ex_slot, Put (ex_str [65]) 2 ex_slot, Kill (ex_int 4)] Map.empty (LV_TREE_CREATE ex_lvt) = Some (h', lvt') \<and>
    lv_inv h' lvt' t' \<and> lv_abs h' t' = [(StrKey [65], 2)]"
  using run_refines [of "[Put (ex_int 4) 1 ex_slot, Put (ex_str [65]) 2 ex_slot, Kill (ex_int 4)]" Map.empty ex_lvt]
  by (simp add: ex_keys)

end
