(* ===== verification/OpAdd.thy ===== *)
theory OpAdd
  imports Numcmp
begin

text \<open>
  Addition and subtraction, \<open>op_add.c\<close>: \<open>add_mvals\<close> with its alignment, carry, borrow and
  normalisation steps, and the operators \<open>op_add\<close> and \<open>op_sub\<close>.  The theorems compare the result
  with the exact sum of the denoted numbers (\<open>numval\<close>).
\<close>

section \<open>add_mvals\<close>

text \<open>
  The loops \<open>for (...; m1 < MANT_LO; m1 *= 10, ...)\<close>: the scaled mantissa and the number of steps.
  Every caller has \<open>m1 > 0\<close> (for \<open>m1 = 0\<close> the loop of the source would not end; the model stops).
\<close>

function norm_mant :: "int \<Rightarrow> int \<Rightarrow> int \<times> int" where
  "norm_mant m k = (if 0 < m \<and> m < MANT_LO then norm_mant (m * 10) (k + 1) else (m, k))"
  by pat_completeness auto
termination
  by (relation "measure (\<lambda>(m, k). nat (MANT_LO - m))") (auto simp: mv_defs)

declare norm_mant.simps [simp del]

text \<open>
  One operand: sign, high and low digits, biased exponent, with \<open>flip\<close> the sign change of a
  subtrahend; \<open>None\<close> is the integer zero, which jumps to the copy of the other operand.
\<close>

definition xor1 :: "int \<Rightarrow> int \<Rightarrow> int" where
  "xor1 a b = (if (a = 0) = (b = 0) then 0 else 1)"

definition add_operand :: "mval \<Rightarrow> int \<Rightarrow> (int \<times> int \<times> int \<times> int) option" where
  "add_operand u flip =
    (if \<not> is_int (mvtype u) then Some (xor1 (sgn_of u) flip, m1 u, m0 u, e_of u)
     else if m1 u = 0 then None
     else if m1 u > 0 then
       let (m, k) = norm_mant (m1 u) 0 in Some (flip, m, 0, EXP_INT_OVERF - 1 - k)
     else
       let (m, k) = norm_mant (- m1 u) 0 in Some (1 - flip, m, 0, EXP_INT_OVERF - 1 - k))"

text \<open>The operand with the smaller exponent, shifted right by \<open>delta\<close> digits.\<close>

definition add_align :: "int \<Rightarrow> int \<Rightarrow> int \<Rightarrow> int \<times> int" where
  "add_align n1 n0 delta =
    (if delta \<ge> NUM_DEC_DG_1L then (0, n1 sdiv ten_pwr (delta - NUM_DEC_DG_1L))
     else if delta > 0 then
       let factor = ten_pwr delta;
           x = n1;
           n1 = n1 sdiv factor
       in (n1, (x - n1 * factor) * ten_pwr (NUM_DEC_DG_1L - delta) + n0 sdiv factor)
     else (n1, n0))"

text \<open>Equal signs: the sum of the mantissas, one digit dropped on a carry out: \<open>(m1, m0, exp)\<close>.\<close>

definition add_same :: "int \<Rightarrow> int \<Rightarrow> int \<Rightarrow> int \<Rightarrow> int \<Rightarrow> int \<times> int \<times> int" where
  "add_same um1 um0 vm1 vm0 exp =
    (let um0 = um0 + vm0;
         (um1, um0) = (if um0 \<ge> MANT_HI then (um1 + 1, um0 - MANT_HI) else (um1, um0));
         um1 = um1 + vm1
     in if um1 \<ge> MANT_HI then
          let x = um1 sdiv 10
          in (x, um0 sdiv 10 + (um1 - x * 10) * MANT_LO, exp + 1)
        else (um1, um0, exp))"

text \<open>The normalisation of a difference: \<open>(m1, m0, exp)\<close>.\<close>

definition norm_step :: "int \<Rightarrow> int \<Rightarrow> int \<Rightarrow> int \<times> int \<times> int" where
  "norm_step a1 a0 exp =
    (if a1 < MANT_LO then
       let (m, delta) = norm_mant a1 0;
           factor = ten_pwr (NUM_DEC_DG_1L - delta);
           x = a0 sdiv factor
       in (m + x, (a0 - x * factor) * ten_pwr delta, exp - delta)
     else (a1, a0, exp))"

text \<open>
  Opposite signs, the larger mantissa first: the difference, normalised; \<open>None\<close> is the result zero.
\<close>

definition add_diff :: "int \<Rightarrow> int \<Rightarrow> int \<Rightarrow> int \<Rightarrow> int \<Rightarrow> (int \<times> int \<times> int) option" where
  "add_diff um1 um0 vm1 vm0 exp =
    (let um0 = um0 - vm0;
         (um1, um0) = (if um0 < 0 then (um1 - 1, um0 + MANT_HI) else (um1, um0));
         um1 = um1 - vm1
     in if um1 = 0 \<and> um0 = 0 then None
        else
          let (um1, um0, exp) = (if um1 = 0 then (um0, 0, exp - NUM_DEC_DG_1L) else (um1, um0, exp));
              (um1, exp) = (if um1 < 0 then (um1 + MANT_HI, exp - 1) else (um1, exp))
          in Some (norm_step um1 um0 exp))"

text \<open>The tail: an integer form where the number has one, else a float, overflow or underflow.\<close>

definition add_store :: "mval \<Rightarrow> int \<Rightarrow> int \<Rightarrow> int \<Rightarrow> int \<Rightarrow> mval result" where
  "add_store result rsign m1v m0v exp =
    (let factor = ten_pwr (EXP_INT_OVERF - 1 - exp);
         x = m1v sdiv factor
     in if exp < EXP_INT_OVERF \<and> exp > EXP_INT_UNDERF \<and> m0v = 0 \<and> x * factor = m1v then
          Inr (result\<lparr>mvtype := mv_or MV_NM MV_INT, m1 := (if rsign \<noteq> 0 then - x else x)\<rparr>)
        else if EXPHI \<le> exp then Inl ERR_NUMOFLOW
        else if EXPLO > exp then Inr literal_zero
        else Inr (result\<lparr>mvtype := MV_NM, sgn_of := rsign, e_of := exp, m0 := m0v, m1 := m1v\<rparr>))"

definition add_is_u :: "mval \<Rightarrow> mval result" where
  "add_is_u u = MV_FORCE_CANONICAL u"

definition add_is_v :: "mval \<Rightarrow> int \<Rightarrow> mval \<Rightarrow> mval result" where
  "add_is_v v subtraction result =
    (if subtraction \<noteq> 0 then
       if is_int (mvtype v) then Inr (result\<lparr>mvtype := mv_or MV_NM MV_INT, m1 := - m1 v\<rparr>)
       else Inr (result\<lparr>mvtype := MV_NM, sgn_of := (if sgn_of v = 0 then 1 else 0), e_of := e_of v, m0 := m0 v, m1 := m1 v\<rparr>)
     else MV_FORCE_CANONICAL v)"

definition add_mvals :: "mval \<Rightarrow> mval \<Rightarrow> int \<Rightarrow> mval \<Rightarrow> mval result" where
  "add_mvals u v subtraction result =
    (case add_operand u 0 of
       None \<Rightarrow> add_is_v v subtraction result
     | Some (usign, um1, um0, uexp) \<Rightarrow>
         (case add_operand v subtraction of
            None \<Rightarrow> add_is_u u
          | Some (vsign, vm1, vm0, vexp) \<Rightarrow>
              let delta = uexp - vexp in
              if delta \<ge> NUM_DEC_DG_2L then add_is_u u
              else if delta \<le> - NUM_DEC_DG_2L then add_is_v v subtraction result
              else
                let (vm1, vm0) = (if delta \<ge> 0 then add_align vm1 vm0 delta else (vm1, vm0));
                    (um1, um0) = (if delta \<ge> 0 then (um1, um0) else add_align um1 um0 (- delta));
                    exp = (if delta \<ge> 0 then uexp else vexp)
                in if usign = vsign then
                     let (rm1, rm0, exp) = add_same um1 um0 vm1 vm0 exp
                     in add_store result usign rm1 rm0 exp
                   else
                     let swap = (delta < 0 \<or> (delta = 0 \<and> (um1 < vm1 \<or> (um1 = vm1 \<and> um0 < vm0))));
                         rsign = (if swap then vsign else usign)
                     in case (if swap then add_diff vm1 vm0 um1 um0 exp else add_diff um1 um0 vm1 vm0 exp) of
                          None \<Rightarrow> Inr (result\<lparr>mvtype := mv_or MV_NM MV_INT, m1 := 0\<rparr>)
                        | Some (rm1, rm0, exp) \<Rightarrow> add_store result rsign rm1 rm0 exp))"

section \<open>op_add and op_sub\<close>

text \<open>
  Two integer forms: the sum of the thousandths, as a float when it reaches \<open>10^9\<close>; \<open>s\<close> is the old
  content of the result.
\<close>

definition add_ints :: "int \<Rightarrow> mval \<Rightarrow> mval" where
  "add_ints m s =
    (if m < MANT_HI \<and> m > - MANT_HI then s\<lparr>mvtype := mv_or MV_INT MV_NM, m1 := m\<rparr>
     else
       let sg = (if m > 0 then 0 else 1);
           m = (if m > 0 then m else - m);
           h = m sdiv 10
       in s\<lparr>sgn_of := sg, mvtype := MV_NM, e_of := EXP_INT_OVERF, m0 := (m - h * 10) * MANT_LO, m1 := h\<rparr>)"

definition force_both :: "bool \<Rightarrow> mval \<Rightarrow> mval \<Rightarrow> (mval \<Rightarrow> mval \<Rightarrow> 'a result) \<Rightarrow> 'a result" where
  "force_both undef_inhibit u v f =
    (case MV_FORCE_NUM undef_inhibit u of
       Inl err \<Rightarrow> Inl err
     | Inr u \<Rightarrow> (case MV_FORCE_NUM undef_inhibit v of
                  Inl err \<Rightarrow> Inl err
                | Inr v \<Rightarrow> f u v))"

definition op_add :: "bool \<Rightarrow> mval \<Rightarrow> mval \<Rightarrow> mval \<Rightarrow> mval result" where
  "op_add undef_inhibit u v s = force_both undef_inhibit u v (\<lambda>u v.
     if is_int (mvtype u) \<and> is_int (mvtype v) then Inr (add_ints (m1 u + m1 v) s)
     else add_mvals u v 0 s)"

definition op_sub :: "bool \<Rightarrow> mval \<Rightarrow> mval \<Rightarrow> mval \<Rightarrow> mval result" where
  "op_sub undef_inhibit u v s = force_both undef_inhibit u v (\<lambda>u v.
     if is_int (mvtype u) \<and> is_int (mvtype v) then Inr (add_ints (m1 u - m1 v) s)
     else add_mvals u v 1 s)"


section \<open>The steps, on whole mantissas\<close>

text \<open>Two limbs of nine digits, and the number they make.\<close>

definition limbs :: "int \<Rightarrow> int \<Rightarrow> bool" where
  "limbs a b \<longleftrightarrow> 0 \<le> a \<and> a < MANT_HI \<and> 0 \<le> b \<and> b < MANT_HI"

definition join :: "int \<Rightarrow> int \<Rightarrow> int" where
  "join a b = a * MANT_HI + b"

lemma limbs_join: "limbs a b \<Longrightarrow> 0 \<le> join a b \<and> join a b < 10 ^ 18"
  by (auto simp: limbs_def join_def mv_defs)

lemma join_norm: "0 \<le> b \<Longrightarrow> b < MANT_HI \<Longrightarrow> 10 ^ 17 \<le> join a b \<longleftrightarrow> MANT_LO \<le> a"
  by (auto simp: join_def mv_defs)

lemma join_less: "limbs a b \<Longrightarrow> limbs c d \<Longrightarrow> join a b < join c d \<longleftrightarrow> a < c \<or> (a = c \<and> b < d)"
  by (auto simp: limbs_def join_def mv_defs)

lemma norm_mant_ok:
  assumes "0 < m" "m < MANT_HI"
  shows "\<exists>j. norm_mant m k = (m * 10 ^ j, k + int j) \<and> j \<le> 8 \<and> MANT_LO \<le> m * 10 ^ j \<and> m * 10 ^ j < MANT_HI"
proof -
  have "\<exists>j. norm_mant m k = (m * 10 ^ j, k + int j) \<and> MANT_LO \<le> m * 10 ^ j \<and> m * 10 ^ j < MANT_HI"
    using assms
  proof (induction m k rule: norm_mant.induct)
    case (1 m k)
    show ?case
    proof (cases "m < MANT_LO")
      case True
      with 1 obtain j where j: "norm_mant (m * 10) (k + 1) = (m * 10 * 10 ^ j, k + 1 + int j)"
        "MANT_LO \<le> m * 10 * 10 ^ j" "m * 10 * 10 ^ j < MANT_HI" by (auto simp: mv_defs)
      with True 1 show ?thesis
        by (subst norm_mant.simps) (intro exI [of _ "Suc j"], simp add: algebra_simps)
    next
      case False
      with 1 show ?thesis by (subst norm_mant.simps) (intro exI [of _ 0], simp)
    qed
  qed
  then obtain j where j: "norm_mant m k = (m * 10 ^ j, k + int j)" "MANT_LO \<le> m * 10 ^ j" "m * 10 ^ j < MANT_HI"
    by blast
  have "(10::int) ^ j \<le> m * 10 ^ j" using assms by simp
  then have "(10::int) ^ j < MANT_HI" using j(3) by (rule le_less_trans)
  then have "(10::int) ^ j < 10 ^ 9" by (simp add: mv_defs)
  then have "j < 9" by (rule power_less_imp_less_exp [rotated]) simp
  with j show ?thesis by auto
qed

lemma add_align_ok:
  assumes "limbs n1 n0" "0 \<le> delta" "delta < 18" and a: "add_align n1 n0 delta = (a1, a0)"
  shows "limbs a1 a0 \<and> join a1 a0 = join n1 n0 div 10 ^ nat delta"
proof -
  have n: "0 \<le> n1" "n1 < 10 ^ 9" "0 \<le> n0" "n0 < 10 ^ 9" using assms(1) by (auto simp: limbs_def mv_defs)
  consider "9 \<le> delta" | "0 < delta" "delta < 9" | "delta = 0" using assms by linarith
  then show ?thesis
  proof cases
    case 1
    define d where "d = nat (delta - 9)"
    have d: "delta = 9 + int d" "d < 9" using 1 assms by (auto simp: d_def)
    have tp: "ten_pwr (delta - 9) = 10 ^ d" using ten_pwr_eq [of "delta - 9"] 1 assms by (simp add: d_def)
    have eq: "a1 = 0" "a0 = n1 div 10 ^ d" using a 1 n by (auto simp: add_align_def mv_defs tp sdiv_nonneg)
    have "join n1 n0 div 10 ^ nat delta = (n1 * 10 ^ 9 + n0) div 10 ^ 9 div 10 ^ d"
      by (simp add: d nat_add_distrib power_add join_def mv_defs zdiv_zmult2_eq)
    also have "(n1 * 10 ^ 9 + n0) div 10 ^ 9 = n1" using n by simp
    finally have "join n1 n0 div 10 ^ nat delta = a0" using eq by simp
    then show ?thesis using n eq div_pow10 [of n1 d] by (simp add: limbs_def join_def mv_defs)
  next
    case 2
    define d where "d = nat delta"
    have d: "delta = int d" "0 < d" "d < 9" using 2 by (auto simp: d_def)
    have tp: "ten_pwr delta = 10 ^ d" "ten_pwr (9 - delta) = 10 ^ (9 - d)"
      using ten_pwr_eq [of delta] ten_pwr_eq [of "9 - delta"] 2 by (auto simp: d_def nat_diff_distrib)
    have eq: "a1 = n1 div 10 ^ d" "a0 = (n1 - n1 div 10 ^ d * 10 ^ d) * 10 ^ (9 - d) + n0 div 10 ^ d"
      using a 2 n by (auto simp: add_align_def Let_def mv_defs tp sdiv_nonneg)
    have p: "(10::int) ^ 9 = 10 ^ (9 - d) * 10 ^ d" using d by (simp flip: power_add)
    have m: "n1 - n1 div 10 ^ d * 10 ^ d = n1 mod 10 ^ d" by (simp add: minus_div_mult_eq_mod)
    have "n0 div 10 ^ d < 10 ^ (9 - d)"
      using n p by (intro div_less_prod) auto
    moreover have "0 \<le> n0 div 10 ^ d" using n by (simp add: pos_imp_zdiv_nonneg_iff)
    moreover have "n1 mod 10 ^ d * 10 ^ (9 - d) \<le> (10 ^ d - 1) * 10 ^ (9 - d)"
      by (intro mult_right_mono) (use pos_mod_bound [of "10 ^ d" n1] in auto)
    moreover have "(10 ^ d - 1) * 10 ^ (9 - d) = 10 ^ 9 - (10 ^ (9 - d)::int)" using p by (simp add: algebra_simps)
    moreover have "0 \<le> n1 mod 10 ^ d * 10 ^ (9 - d)" by simp
    ultimately have lm: "limbs a1 a0" using n div_pow10 [of n1 d] by (simp add: limbs_def eq m mv_defs)
    have "join n1 n0 = n0 + (n1 * 10 ^ (9 - d)) * 10 ^ d" using p by (simp add: join_def mv_defs algebra_simps)
    then have "join n1 n0 div 10 ^ d = n1 * 10 ^ (9 - d) + n0 div 10 ^ d" by simp
    also have "n1 * 10 ^ (9 - d) = (n1 div 10 ^ d * 10 ^ d + n1 mod 10 ^ d) * 10 ^ (9 - d)"
      by (simp only: div_mult_mod_eq)
    also have "\<dots> = n1 div 10 ^ d * 10 ^ 9 + n1 mod 10 ^ d * 10 ^ (9 - d)"
      unfolding p by (simp only: distrib_right mult.assoc mult.commute [of "10 ^ d" "10 ^ (9 - d)"])
    finally show ?thesis using lm d by (simp add: eq m join_def mv_defs)
  next
    case 3
    then show ?thesis using a assms by (auto simp: add_align_def mv_defs)
  qed
qed

lemma add_same_ok:
  assumes "limbs a1 a0" "limbs b1 b0" and r: "add_same a1 a0 b1 b0 exp = (r1, r0, e)"
  defines "s \<equiv> join a1 a0 + join b1 b0"
  shows "limbs r1 r0 \<and> (if s < 10 ^ 18 then join r1 r0 = s \<and> e = exp else join r1 r0 = s div 10 \<and> e = exp + 1)"
proof -
  have n: "0 \<le> a1" "a1 < 10 ^ 9" "0 \<le> a0" "a0 < 10 ^ 9" "0 \<le> b1" "b1 < 10 ^ 9" "0 \<le> b0" "b0 < 10 ^ 9"
    using assms(1,2) by (auto simp: limbs_def mv_defs)
  define c1 c0 where "c1 = (if a0 + b0 \<ge> 10 ^ 9 then a1 + 1 else a1) + b1" and "c0 = (if a0 + b0 \<ge> 10 ^ 9 then a0 + b0 - 10 ^ 9 else a0 + b0)"
  have s: "s = c1 * 10 ^ 9 + c0" "0 \<le> c1" "0 \<le> c0" "c0 < 10 ^ 9" "c1 < 2 * 10 ^ 9"
    using n by (auto simp: s_def join_def mv_defs c1_def c0_def)
  have r': "(r1, r0, e) = (if c1 \<ge> 10 ^ 9 then (c1 sdiv 10, c0 sdiv 10 + (c1 - c1 sdiv 10 * 10) * 10 ^ 8, exp + 1) else (c1, c0, exp))"
    unfolding r [symmetric] by (simp add: add_same_def Let_def mv_defs c1_def c0_def)
  show ?thesis
  proof (cases "c1 \<ge> 10 ^ 9")
    case True
    then have e: "r1 = c1 div 10" "r0 = c0 div 10 + (c1 mod 10) * 10 ^ 8" "e = exp + 1"
      using r' s by (auto simp: sdiv_nonneg minus_div_mult_eq_mod)
    have "s div 10 = c1 * 100000000 + c0 div 10" unfolding s(1) by simp
    also have "\<dots> = c1 div 10 * 1000000000 + (c0 div 10 + c1 mod 10 * 100000000)"
      using div_mult_mod_eq [of c1 10] by linarith
    also have "\<dots> = join r1 r0" by (simp add: e join_def mv_defs)
    finally have "s div 10 = join r1 r0" .
    moreover have "c1 div 10 < 10 ^ 9" "c0 div 10 < 10 ^ 8" "0 \<le> c0 div 10" "0 \<le> c1 div 10" "0 \<le> c1 mod 10" "c1 mod 10 \<le> 9"
      using s by auto
    ultimately show ?thesis using s True by (simp add: e limbs_def mv_defs)
  next
    case False
    then show ?thesis using r' s by (auto simp: limbs_def join_def mv_defs)
  qed
qed


text \<open>
  Normalising a positive two-limb number: both normalisation loops of the file, the first of them
  on a number whose low limb is zero.
\<close>

lemma norm_limbs:
  assumes "limbs a b" "0 < a" and n: "norm_mant a 0 = (a', j)"
  defines "x \<equiv> b sdiv ten_pwr (9 - j)"
  shows "0 \<le> j \<and> j \<le> 8 \<and> limbs (a' + x) ((b - x * ten_pwr (9 - j)) * ten_pwr j) \<and> MANT_LO \<le> a' + x
    \<and> join (a' + x) ((b - x * ten_pwr (9 - j)) * ten_pwr j) = join a b * 10 ^ nat j"
proof -
  have n0: "0 \<le> b" "b < 10 ^ 9" "a < MANT_HI" using assms(1) by (auto simp: limbs_def mv_defs)
  obtain d where d: "a' = a * 10 ^ d" "j = int d" "d \<le> 8" "MANT_LO \<le> a * 10 ^ d" "a * 10 ^ d < MANT_HI"
    using norm_mant_ok [OF assms(2) n0(3), of 0] n by auto
  have tp: "ten_pwr j = 10 ^ d" "ten_pwr (9 - j) = 10 ^ (9 - d)"
    using ten_pwr_eq [of j] ten_pwr_eq [of "9 - j"] d by (auto simp: nat_diff_distrib)
  have p: "(10::int) ^ 9 = 10 ^ (9 - d) * 10 ^ d" using d by (simp flip: power_add)
  have x: "x = b div 10 ^ (9 - d)" using n0 by (simp add: x_def tp sdiv_nonneg)
  have m: "b - x * ten_pwr (9 - j) = b mod 10 ^ (9 - d)" by (simp add: x tp minus_div_mult_eq_mod)
  have "b < 10 ^ d * 10 ^ (9 - d)" using n0 p by (simp add: mult.commute)
  then have xl: "0 \<le> x" "x < 10 ^ d" using n0 by (auto simp: x pos_imp_zdiv_nonneg_iff intro: div_less_prod)
  have "a * 10 ^ d + 10 ^ d \<le> 10 ^ 9"
  proof -
    have "a * 10 ^ d < 10 ^ (9 - d) * 10 ^ d" using d(5) p by (simp add: mv_defs)
    then have "a + 1 \<le> 10 ^ (9 - d)" by simp
    then have "(a + 1) * 10 ^ d \<le> 10 ^ (9 - d) * 10 ^ d" by (rule mult_right_mono) simp
    then show ?thesis unfolding p by (simp add: algebra_simps)
  qed
  moreover have "b mod 10 ^ (9 - d) * 10 ^ d < 10 ^ 9" unfolding p by (intro mult_strict_right_mono) auto
  moreover have "0 \<le> b mod 10 ^ (9 - d) * 10 ^ d" by simp
  ultimately have lm: "limbs (a' + x) (b mod 10 ^ (9 - d) * 10 ^ d)"
    using xl d by (auto simp: limbs_def mv_defs)
  have "b * 10 ^ d = (b div 10 ^ (9 - d) * 10 ^ (9 - d) + b mod 10 ^ (9 - d)) * 10 ^ d"
    by (simp only: div_mult_mod_eq)
  also have "\<dots> = x * 10 ^ 9 + b mod 10 ^ (9 - d) * 10 ^ d" unfolding x p by (simp only: distrib_right mult.assoc)
  finally have "join (a' + x) (b mod 10 ^ (9 - d) * 10 ^ d) = join a b * 10 ^ d"
    by (simp add: join_def mv_defs d algebra_simps)
  moreover have "0 \<le> j" "j \<le> 8" "MANT_LO \<le> a' + x" "nat j = d" using d xl by simp_all
  ultimately show ?thesis unfolding m unfolding tp using lm by blast
qed

lemma norm_step_ok:
  assumes "limbs a b" "0 < a"
  shows "\<exists>r1 r0 j. norm_step a b exp = (r1, r0, exp - int j) \<and> j \<le> 8 \<and> limbs r1 r0 \<and> MANT_LO \<le> r1 \<and>
    join r1 r0 = join a b * 10 ^ j"
proof (cases "a < MANT_LO")
  case True
  obtain m j where n: "norm_mant a 0 = (m, j)" by fastforce
  note N = norm_limbs [OF assms n]
  show ?thesis
    by (rule exI [of _ "m + b sdiv ten_pwr (9 - j)"],
        rule exI [of _ "(b - b sdiv ten_pwr (9 - j) * ten_pwr (9 - j)) * ten_pwr j"], rule exI [of _ "nat j"])
      (use N True n nat_mono [of j 8] in \<open>simp add: norm_step_def Let_def NUM_DEC_DG_1L_def\<close>)
next
  case False
  with assms show ?thesis
    by (intro exI [of _ a] exI [of _ b] exI [of _ 0]) (simp add: norm_step_def)
qed

lemma add_diff_ok:
  assumes a: "limbs a1 a0" and b: "limbs b1 b0" and le: "join b1 b0 \<le> join a1 a0"
  defines "s \<equiv> join a1 a0 - join b1 b0"
  shows "s = 0 \<Longrightarrow> add_diff a1 a0 b1 b0 exp = None"
    and "s \<noteq> 0 \<Longrightarrow> \<exists>r1 r0 k. add_diff a1 a0 b1 b0 exp = Some (r1, r0, exp - int k) \<and> k \<le> 17 \<and>
      limbs r1 r0 \<and> MANT_LO \<le> r1 \<and> join r1 r0 = s * 10 ^ k"
proof -
  have n: "0 \<le> a1" "a1 < 10 ^ 9" "0 \<le> a0" "a0 < 10 ^ 9" "0 \<le> b1" "b1 < 10 ^ 9" "0 \<le> b0" "b0 < 10 ^ 9"
    using a b by (auto simp: limbs_def mv_defs)
  define c1 c0 where "c1 = (if a0 - b0 < 0 then a1 - 1 else a1) - b1" and "c0 = (if a0 - b0 < 0 then a0 - b0 + 10 ^ 9 else a0 - b0)"
  have s: "s = c1 * 10 ^ 9 + c0" "0 \<le> c0" "c0 < 10 ^ 9" "c1 < 10 ^ 9"
    using n by (auto simp: s_def join_def mv_defs c1_def c0_def)
  have "0 \<le> s" using le by (simp add: s_def)
  then have c1: "0 \<le> c1" using s by simp
  have ad: "add_diff a1 a0 b1 b0 exp =
      (if c1 = 0 \<and> c0 = 0 then None
       else Some (if c1 = 0 then norm_step c0 0 (exp - 9) else norm_step c1 c0 exp))"
  proof -
    have pair: "(if a0 - b0 < 0 then (a1 - 1, a0 - b0 + MANT_HI) else (a1, a0 - b0)) = (c1 + b1, c0)"
      by (simp add: c1_def c0_def mv_defs)
    show ?thesis
      unfolding add_diff_def Let_def pair using c1 s(2) by (cases "c1 = 0") (simp_all add: NUM_DEC_DG_1L_def)
  qed
  show "add_diff a1 a0 b1 b0 exp = None" if "s = 0" using that c1 s by (simp add: ad) 
  assume s0: "s \<noteq> 0"
  show "\<exists>r1 r0 k. add_diff a1 a0 b1 b0 exp = Some (r1, r0, exp - int k) \<and> k \<le> 17 \<and>
      limbs r1 r0 \<and> MANT_LO \<le> r1 \<and> join r1 r0 = s * 10 ^ k"
  proof (cases "c1 = 0")
    case True
    then have c0: "limbs c0 0" "0 < c0" "join c0 0 = s * 10 ^ 9" using s s0 by (auto simp: limbs_def join_def mv_defs)
    obtain r1 r0 j where j: "norm_step c0 0 (exp - 9) = (r1, r0, exp - 9 - int j)" "j \<le> 8" "limbs r1 r0"
      "MANT_LO \<le> r1" "join r1 r0 = join c0 0 * 10 ^ j" using norm_step_ok [OF c0(1,2)] by blast
    have "add_diff a1 a0 b1 b0 exp = Some (r1, r0, exp - int (9 + j))"
      using True c0(2) j(1) unfolding ad by simp
    moreover have "join r1 r0 = s * 10 ^ (9 + j)" using j c0(3) by (simp add: power_add)
    ultimately show ?thesis using j by (intro exI [of _ r1] exI [of _ r0] exI [of _ "9 + j"]) simp
  next
    case False
    then have c: "limbs c1 c0" "0 < c1" "join c1 c0 = s" using s c1 by (auto simp: limbs_def join_def mv_defs)
    obtain r1 r0 j where j: "norm_step c1 c0 exp = (r1, r0, exp - int j)" "j \<le> 8" "limbs r1 r0"
      "MANT_LO \<le> r1" "join r1 r0 = join c1 c0 * 10 ^ j" using norm_step_ok [OF c(1,2)] by blast
    have "add_diff a1 a0 b1 b0 exp = Some (r1, r0, exp - int j)"
      using False j(1) unfolding ad by simp
    then show ?thesis using j c(3) by (intro exI [of _ r1] exI [of _ r0] exI [of _ j]) simp
  qed
qed


section \<open>The specification: sums to 18 digits\<close>

text \<open>
  The weight of the last of the 18 digits of a number, and the sum of two numbers as the code
  computes it.  With the larger of the two weights \<open>E\<close>: a sum of numbers of one sign is cut to 18
  digits; a difference keeps all its digits from \<open>E\<close> up and rounds the rest away from zero.
\<close>

definition last_weight :: "int \<Rightarrow> nat" where
  "last_weight x = ndigits (nat \<bar>x\<bar>) - 18"

definition add_spec :: "int \<Rightarrow> int \<Rightarrow> int" where
  "add_spec x y =
    (let E = 10 ^ max (last_weight x) (last_weight y); s = \<bar>x + y\<bar>
     in sgn (x + y) *
        (if 0 \<le> x * y then (if s div E < 10 ^ 18 then s div E * E else s div E div 10 * (10 * E))
         else - (- s div E) * E))"

definition sgnd :: "int \<Rightarrow> int \<Rightarrow> int" where
  "sgnd sg x = (if sg = 0 then x else - x)"

lemma last_weight_eq: "10 ^ 17 \<le> m \<Longrightarrow> m < 10 ^ 18 \<Longrightarrow> last_weight (sgnd sg (m * 10 ^ e)) = e"
proof -
  assume m: "10 ^ 17 \<le> m" "m < 10 ^ 18"
  have "10 ^ (17 + e) \<le> m * 10 ^ e" "m * 10 ^ e < 10 ^ Suc (17 + e)"
    using m by (simp_all add: power_add)
  then have "10 ^ (17 + e) \<le> nat (m * 10 ^ e)" "nat (m * 10 ^ e) < 10 ^ Suc (17 + e)"
    by (simp_all add: nat_le_iff nat_less_iff le_nat_iff)
  then have "ndigits (nat (m * 10 ^ e)) = Suc (17 + e)" by (rule ndigits_eq)
  moreover have "\<bar>sgnd sg (m * 10 ^ e)\<bar> = m * 10 ^ e" using m by (simp add: sgnd_def abs_mult)
  ultimately show ?thesis by (simp add: last_weight_def)
qed

lemma last_weight_0 [simp]: "last_weight 0 = 0"
  by (simp add: last_weight_def)

text \<open>The outcome of an operation whose 18-digit result is \<open>x\<close>.\<close>

definition num_outcome :: "mval result \<Rightarrow> int \<Rightarrow> bool" where
  "num_outcome r x \<longleftrightarrow>
    (if 10 ^ 127 \<le> \<bar>x\<bar> then r = Inl ERR_NUMOFLOW
     else (\<exists>v. r = Inr v \<and> wf_num v \<and> numval v = (if \<bar>x\<bar> < 10 ^ 37 then 0 else x)))"

lemma add_operand_ok:
  assumes u: "wf_num u" and f: "flip \<in> {0, 1}"
  shows "add_operand u flip = None \<longleftrightarrow> is_int (mvtype u) \<and> m1 u = 0"
    and "add_operand u flip = Some (sg, a1, a0, e) \<Longrightarrow>
      sg \<in> {0, 1} \<and> limbs a1 a0 \<and> MANT_LO \<le> a1 \<and> 20 \<le> e \<and> e < 110 \<and>
      sgnd sg (join a1 a0 * 10 ^ nat e) = sgnd flip (numval u)"
proof -
  show "add_operand u flip = None \<longleftrightarrow> is_int (mvtype u) \<and> m1 u = 0"
    by (auto simp: add_operand_def split: prod.splits)
  assume a: "add_operand u flip = Some (sg, a1, a0, e)"
  show "sg \<in> {0, 1} \<and> limbs a1 a0 \<and> MANT_LO \<le> a1 \<and> 20 \<le> e \<and> e < 110 \<and>
      sgnd sg (join a1 a0 * 10 ^ nat e) = sgnd flip (numval u)"
  proof (cases "is_int (mvtype u)")
    case False
    with u have w: "wf_flt u" using wf_num_cases by blast
    with a False f show ?thesis
      by (auto simp: add_operand_def xor1_def sgnd_def numval_def mant_def join_def limbs_def wf_flt_def)
        (auto simp: mv_defs algebra_simps)
  next
    case True
    with u have w: "wf_int u" using wf_num_cases by blast
    have nz: "m1 u \<noteq> 0" using a True by (auto simp: add_operand_def)
    define m where "m = \<bar>m1 u\<bar>"
    have m: "0 < m" "m < MANT_HI" using w nz by (auto simp: m_def wf_int_def)
    obtain j where j: "norm_mant m 0 = (m * 10 ^ j, int j)" "j \<le> 8" "MANT_LO \<le> m * 10 ^ j" "m * 10 ^ j < MANT_HI"
      using norm_mant_ok [OF m, of 0] by auto
    have r: "sg = (if m1 u > 0 then flip else 1 - flip)" "a1 = m * 10 ^ j" "a0 = 0" "e = 68 - int j"
      using a True nz j(1) by (auto simp: add_operand_def m_def mv_defs split: if_splits)
    have "join a1 a0 * 10 ^ nat e = m * (10 ^ j * 10 ^ 9 * 10 ^ nat e)" by (simp add: r join_def mv_defs)
    also have "(10::int) ^ j * 10 ^ 9 * 10 ^ nat e = 10 ^ (j + 9 + nat e)" by (simp add: power_add)
    also have "j + 9 + nat e = 77" using j by (simp add: r)
    finally have "join a1 a0 * 10 ^ nat e = m * 10 ^ 77" .
    then show ?thesis using r j m f True
      by (auto simp: sgnd_def numval_def limbs_def m_def mv_defs)
  qed
qed

lemma sgnd_abs: "0 < x \<Longrightarrow> \<bar>sgnd sg x\<bar> = x"
  by (simp add: sgnd_def)

lemma add_store_ok:
  assumes l: "limbs a1 a0" "MANT_LO \<le> a1" and e: "0 \<le> e" and sg: "sg \<in> {0, 1}"
  shows "num_outcome (add_store s sg a1 a0 e) (sgnd sg (join a1 a0 * 10 ^ nat e))"
proof -
  define M where "M = join a1 a0"
  have M: "10 ^ 17 \<le> M" "M < 10 ^ 18" using l limbs_join [OF l(1)] join_norm [of a0 a1] by (auto simp: M_def limbs_def)
  have pos: "0 < M * 10 ^ nat e" using M by simp
  have hi: "10 ^ 127 \<le> M * 10 ^ nat e \<longleftrightarrow> 110 \<le> e"
  proof
    assume "110 \<le> e"
    then have "(10::int) ^ 17 * 10 ^ 110 \<le> M * 10 ^ nat e" using M by (intro mult_mono pow10_mono) auto
    then show "10 ^ 127 \<le> M * 10 ^ nat e" by simp
  next
    assume h: "10 ^ 127 \<le> M * 10 ^ nat e"
    show "110 \<le> e"
    proof (rule ccontr)
      assume "\<not> 110 \<le> e"
      then have "M * 10 ^ nat e < 10 ^ 17 * 10 ^ 110" using M by (intro mant_exp_less [of _ "10 ^ 17"]) auto
      with h show False by simp
    qed
  qed
  have lo: "M * 10 ^ nat e < 10 ^ 37 \<longleftrightarrow> e < 20"
  proof
    assume "e < 20"
    then have "M * 10 ^ nat e < 10 ^ 17 * 10 ^ 20" using M by (intro mant_exp_less [of _ "10 ^ 17"]) auto
    then show "M * 10 ^ nat e < 10 ^ 37" by simp
  next
    assume h: "M * 10 ^ nat e < 10 ^ 37"
    show "e < 20"
    proof (rule ccontr)
      assume "\<not> e < 20"
      then have "(10::int) ^ 17 * 10 ^ 20 \<le> M * 10 ^ nat e" using M by (intro mult_mono pow10_mono) auto
      with h show False by simp
    qed
  qed
  show ?thesis
  proof (cases "e < 69 \<and> 59 < e \<and> a0 = 0 \<and> a1 sdiv ten_pwr (68 - e) * ten_pwr (68 - e) = a1")
    case True
    define x where "x = a1 sdiv ten_pwr (68 - e)"
    define d where "d = nat (68 - e)"
    have tp: "ten_pwr (68 - e) = 10 ^ d" using True ten_pwr_eq [of "68 - e"] by (simp add: d_def)
    have "59 < e" "e < 69" using True by auto
    then have de: "d + (9 + nat e) = 77" by (simp add: d_def)
    have a1: "a1 = x * 10 ^ d" "0 \<le> a1" "a1 < 10 ^ 9" using True l by (auto simp: x_def tp limbs_def mv_defs)
    have x0: "0 \<le> x" "x < 10 ^ 9" using a1 div_pow10 [of a1 d] by (auto simp: x_def tp sdiv_nonneg)
    have "M * 10 ^ nat e = x * (10 ^ d * (10 ^ 9 * 10 ^ nat e))" using True a1(1) by (simp add: M_def join_def mv_defs)
    also have "(10::int) ^ d * (10 ^ 9 * 10 ^ nat e) = 10 ^ (d + (9 + nat e))" by (simp only: power_add)
    finally have v: "M * 10 ^ nat e = x * 10 ^ 77" unfolding de .
    have st: "add_store s sg a1 a0 e = Inr (s\<lparr>mvtype := mv_or MV_NM MV_INT, m1 := (if sg \<noteq> 0 then - x else x)\<rparr>)"
      using True by (simp add: add_store_def Let_def EXP_INT_OVERF_def EXP_INT_UNDERF_def MV_XBIAS_def x_def)
    have "\<not> 10 ^ 127 \<le> M * 10 ^ nat e" "\<not> M * 10 ^ nat e < 10 ^ 37" using hi lo True by auto
    then show ?thesis unfolding num_outcome_def M_def [symmetric] sgnd_abs [OF pos] st v
      using x0 by (auto simp: sgnd_def wf_num_def wf_int_def numval_def) (auto simp: mv_defs)
  next
    case False
    then have st: "add_store s sg a1 a0 e =
       (if 110 \<le> e then Inl ERR_NUMOFLOW else if 20 > e then Inr literal_zero
        else Inr (s\<lparr>mvtype := MV_NM, sgn_of := sg, e_of := e, m0 := a0, m1 := a1\<rparr>))"
      by (auto simp: add_store_def Let_def mv_defs)
    show ?thesis unfolding num_outcome_def M_def [symmetric] sgnd_abs [OF pos] st hi lo
      using l e sg by (auto simp: sgnd_def wf_num_def wf_flt_def wf_int_def limbs_def numval_def mant_def literal_zero_def M_def join_def)
         (auto simp: mv_defs algebra_simps)
  qed
qed


section \<open>Addition and subtraction compute the 18-digit sum\<close>

lemma MV_FORCE_CANONICAL_num:
  assumes "wf_num v"
  shows "\<exists>w. MV_FORCE_CANONICAL v = Inr w \<and> wf_num w \<and> numval w = numval v"
  using assms
  by (auto simp: MV_FORCE_CANONICAL_def wf_num_def wf_int_def wf_flt_def numval_def mant_def)

lemma numval_range: "wf_num v \<Longrightarrow> \<bar>numval v\<bar> < 10 ^ 127 \<and> (numval v = 0 \<or> 10 ^ 37 \<le> \<bar>numval v\<bar>)"
proof -
  assume v: "wf_num v"
  show ?thesis
  proof (cases "add_operand v 0")
    case None
    then have "numval v = 0" using add_operand_ok(1) [OF v] by (auto simp: numval_def)
    then show ?thesis by simp
  next
    case (Some q)
    then obtain sg a1 a0 e where q: "add_operand v 0 = Some (sg, a1, a0, e)" by (cases q) auto
    note o = add_operand_ok(2) [OF v _ q]
    have j: "10 ^ 17 \<le> join a1 a0" "join a1 a0 < 10 ^ 18" using o limbs_join [of a1 a0] join_norm [of a0 a1] by (auto simp: limbs_def)
    have "join a1 a0 * 10 ^ nat e < 10 ^ 17 * 10 ^ 110" using o j by (intro mant_exp_less [of _ "10 ^ 17"]) auto
    moreover have "(10::int) ^ 17 * 10 ^ 20 \<le> join a1 a0 * 10 ^ nat e" using o j by (intro mult_mono pow10_mono) auto
    moreover have "\<bar>numval v\<bar> = join a1 a0 * 10 ^ nat e"
      using o sgnd_abs [of "join a1 a0 * 10 ^ nat e" sg] j by (simp add: sgnd_def split: if_splits)
    ultimately show ?thesis by simp
  qed
qed

lemma outcome_exact: "wf_num v \<Longrightarrow> num_outcome (Inr v) (numval v)"
  using numval_range [of v] by (auto simp: num_outcome_def)

lemma add_is_u_ok: "wf_num u \<Longrightarrow> num_outcome (add_is_u u) (numval u)"
  using MV_FORCE_CANONICAL_num [of u] outcome_exact by (auto simp: add_is_u_def) metis

lemma add_is_v_ok:
  assumes v: "wf_num v" and f: "sub \<in> {0, 1}"
  shows "num_outcome (add_is_v v sub s) (sgnd sub (numval v))"
proof (cases "sub = 0")
  case True
  then show ?thesis using add_is_u_ok [OF v] by (simp add: add_is_v_def sgnd_def add_is_u_def)
next
  case False
  then obtain w where w: "add_is_v v sub s = Inr w" by (cases "is_int (mvtype v)") (auto simp: add_is_v_def)
  have "wf_num w \<and> numval w = sgnd sub (numval v)"
    using w False wf_num_cases [OF v]
    by (auto simp: add_is_v_def sgnd_def numval_def mant_def wf_num_def wf_int_def wf_flt_def algebra_simps split: if_splits)
  then show ?thesis using outcome_exact [of w] w by simp
qed

text \<open>The specification on aligned operands: the larger weight is \<open>e + d\<close>.\<close>

lemma sgnd_simps:
  "sg \<in> {0, 1} \<Longrightarrow> sg' \<in> {0, 1} \<Longrightarrow> sg \<noteq> sg' \<Longrightarrow> sgnd sg x + sgnd sg' y = sgnd sg (x - y)"
  "sgnd sg x + sgnd sg y = sgnd sg (x + y)"
  by (auto simp: sgnd_def)

lemma add_spec_commute: "add_spec x y = add_spec y x"
  by (simp add: add_spec_def Let_def add.commute max.commute mult.commute)

lemma add_spec_aligned:
  assumes A: "10 ^ 17 \<le> A" "A < 10 ^ 18" and B: "10 ^ 17 \<le> B" "B < 10 ^ 18" and sg: "sg \<in> {0, 1}" "sg' \<in> {0, 1}"
    and le: "b \<le> a"
  defines "B' \<equiv> B div 10 ^ (a - b)"
  shows "sg = sg' \<Longrightarrow> add_spec (sgnd sg (A * 10 ^ a)) (sgnd sg' (B * 10 ^ b)) =
      sgnd sg ((if A + B' < 10 ^ 18 then A + B' else (A + B') div 10 * 10) * 10 ^ a)"
    and "sg \<noteq> sg' \<Longrightarrow> B' \<le> A \<Longrightarrow> a \<noteq> b \<or> B' \<noteq> A \<Longrightarrow>
      add_spec (sgnd sg (A * 10 ^ a)) (sgnd sg' (B * 10 ^ b)) = sgnd sg ((A - B') * 10 ^ a)"
    and "sg \<noteq> sg' \<Longrightarrow> a = b \<Longrightarrow> B = A \<Longrightarrow> add_spec (sgnd sg (A * 10 ^ a)) (sgnd sg' (B * 10 ^ b)) = 0"
proof -
  have la: "last_weight (sgnd sg (A * 10 ^ a)) = a" and lb: "last_weight (sgnd sg' (B * 10 ^ b)) = b"
    using last_weight_eq A B by auto
  have E: "max a b = a" using le by simp
  have pa: "(10::int) ^ a = 10 ^ b * 10 ^ (a - b)" using le by (simp flip: power_add)
  have dv: "B * 10 ^ b div 10 ^ a = B'" unfolding pa B'_def by (simp add: mult.commute)
  have dva: "(A * 10 ^ a + B * 10 ^ b) div 10 ^ a = A + B'" using dv by simp
  have dvs: "(B * 10 ^ b - A * 10 ^ a) div 10 ^ a = B' - A"
    using dv div_mult_self1 [of "10 ^ a" "B * 10 ^ b" "- A"] by simp
  have pos: "0 < A * 10 ^ a" "0 < B * 10 ^ b" using A B by auto
  have mx: "0 \<le> sgnd sg x * sgnd sg' y \<longleftrightarrow> sg = sg'" if "0 < x" "0 < y" for x y
    using that sg by (auto simp: sgnd_def zero_le_mult_iff)
  show "add_spec (sgnd sg (A * 10 ^ a)) (sgnd sg' (B * 10 ^ b)) =
      sgnd sg ((if A + B' < 10 ^ 18 then A + B' else (A + B') div 10 * 10) * 10 ^ a)" if eq: "sg = sg'"
  proof -
    have s: "\<bar>sgnd sg (A * 10 ^ a) + sgnd sg' (B * 10 ^ b)\<bar> = A * 10 ^ a + B * 10 ^ b"
      and g: "sgn (sgnd sg (A * 10 ^ a) + sgnd sg' (B * 10 ^ b)) = sgnd sg 1"
      using pos sg unfolding eq by (auto simp: sgnd_def sgn_if)
    show ?thesis unfolding add_spec_def Let_def la lb E s g dva mx [OF pos]
      using eq by (simp add: sgnd_def)
  qed
  show "add_spec (sgnd sg (A * 10 ^ a)) (sgnd sg' (B * 10 ^ b)) = sgnd sg ((A - B') * 10 ^ a)"
    if ne: "sg \<noteq> sg'" and BA: "B' \<le> A" and strict: "a \<noteq> b \<or> B' \<noteq> A"
  proof -
    have lt: "B * 10 ^ b < A * 10 ^ a"
    proof (cases "a = b")
      case True
      with BA strict show ?thesis by (simp add: B'_def)
    next
      case False
      with le have "b < a" by simp
      then show ?thesis using A B by (intro mant_exp_less [of _ "10 ^ 17"]) auto
    qed
    have x: "sgnd sg (A * 10 ^ a) + sgnd sg' (B * 10 ^ b) = sgnd sg (A * 10 ^ a - B * 10 ^ b)"
      by (rule sgnd_simps(1) [OF sg ne])
    have s: "\<bar>sgnd sg (A * 10 ^ a) + sgnd sg' (B * 10 ^ b)\<bar> = A * 10 ^ a - B * 10 ^ b"
      and g: "sgn (sgnd sg (A * 10 ^ a) + sgnd sg' (B * 10 ^ b)) = sgnd sg 1"
      unfolding x using lt sg by (auto simp: sgnd_def sgn_if)
    show ?thesis unfolding add_spec_def Let_def la lb E s g mx [OF pos] minus_diff_eq dvs
      using ne by (simp add: sgnd_def)
  qed
  show "add_spec (sgnd sg (A * 10 ^ a)) (sgnd sg' (B * 10 ^ b)) = 0" if "sg \<noteq> sg'" "a = b" "B = A"
    using that sgnd_simps(1) [OF sg that(1)] by (simp add: add_spec_def Let_def sgnd_def)
qed


text \<open>A decoded operand: sign, limbs and exponent of a normalised number.\<close>

definition operand :: "int \<Rightarrow> int \<Rightarrow> int \<Rightarrow> int \<Rightarrow> int \<Rightarrow> bool" where
  "operand x sg a1 a0 e \<longleftrightarrow> sg \<in> {0, 1} \<and> limbs a1 a0 \<and> MANT_LO \<le> a1 \<and> 20 \<le> e \<and> x = sgnd sg (join a1 a0 * 10 ^ nat e)"

lemma operandD:
  assumes "operand x sg a1 a0 e"
  shows "sg \<in> {0, 1}" "limbs a1 a0" "10 ^ 17 \<le> join a1 a0" "join a1 a0 < 10 ^ 18" "0 \<le> e" "x = sgnd sg (join a1 a0 * 10 ^ nat e)"
  using assms limbs_join [of a1 a0] join_norm [of a0 a1] by (auto simp: operand_def limbs_def)

lemma add_operand_operand:
  "wf_num u \<Longrightarrow> flip \<in> {0, 1} \<Longrightarrow> add_operand u flip = Some (sg, a1, a0, e) \<Longrightarrow> operand (sgnd flip (numval u)) sg a1 a0 e"
  using add_operand_ok(2) [of u flip sg a1 a0 e] by (auto simp: operand_def)

lemma add_spec_0:
  assumes "operand x sg a1 a0 e"
  shows "add_spec 0 x = x" "add_spec x 0 = x"
proof -
  note D = operandD [OF assms]
  have lw: "last_weight x = nat e" using last_weight_eq [OF D(3,4)] D(6) by simp
  have ab: "\<bar>x\<bar> = join a1 a0 * 10 ^ nat e" "sgn x = sgnd sg 1" using D(1,3,6) by (auto simp: sgnd_def abs_mult sgn_mult)
  show "add_spec 0 x = x" unfolding add_spec_def Let_def using lw ab D by (simp add: sgnd_def)
  then show "add_spec x 0 = x" by (simp add: add_spec_commute)
qed

lemma core_same:
  assumes x: "operand x sg a1 a0 a" and y: "operand y sg b1 b0 b" and le: "b \<le> a" "a - b < 18"
    and al: "add_align b1 b0 (a - b) = (c1, c0)"
    and r: "add_same a1 a0 c1 c0 a = (r1, r0, e) \<or> add_same c1 c0 a1 a0 a = (r1, r0, e)"
  shows "num_outcome (add_store s sg r1 r0 e) (add_spec x y)"
proof -
  note X = operandD [OF x] and Y = operandD [OF y]
  define A B where "A = join a1 a0" and "B = join c1 c0"
  have c: "limbs c1 c0" "B = join b1 b0 div 10 ^ (nat a - nat b)"
    using add_align_ok [OF Y(2) _ _ al] le Y(5) by (auto simp: B_def nat_diff_distrib)
  have AB: "10 ^ 17 \<le> A" "A < 10 ^ 18" "0 \<le> B" "B < 10 ^ 18" using X c limbs_join [of c1 c0] by (auto simp: A_def B_def)
  have rr: "limbs r1 r0" "if A + B < 10 ^ 18 then join r1 r0 = A + B \<and> e = a else join r1 r0 = (A + B) div 10 \<and> e = a + 1"
    using r add_same_ok [OF X(2) c(1), of a r1 r0 e] add_same_ok [OF c(1) X(2), of a r1 r0 e]
    by (auto simp: A_def B_def add.commute)
  have r1: "MANT_LO \<le> r1" using rr AB join_norm [of r0 r1] by (auto simp: limbs_def split: if_splits)
  have "add_spec x y = sgnd sg ((if A + B < 10 ^ 18 then A + B else (A + B) div 10 * 10) * 10 ^ nat a)"
    unfolding X(6) Y(6) A_def c(2)
    by (rule add_spec_aligned(1) [OF X(3,4) Y(3,4) X(1) Y(1) _ refl]) (use le in simp)
  also have "\<dots> = sgnd sg (join r1 r0 * 10 ^ nat e)"
    using rr X(5) by (auto simp: nat_add_distrib mult.assoc split: if_splits)
  finally show ?thesis using add_store_ok [OF rr(1) r1 _ X(1), of e s] rr X(5) by (auto split: if_splits)
qed

lemma core_diff:
  assumes x: "operand x sg a1 a0 a" and y: "operand y sg' b1 b0 b" and ne: "sg \<noteq> sg'" and le: "b \<le> a" "a - b < 18"
    and al: "add_align b1 b0 (a - b) = (c1, c0)" and BA: "a = b \<Longrightarrow> join c1 c0 \<le> join a1 a0"
  shows "num_outcome (case add_diff a1 a0 c1 c0 a of None \<Rightarrow> Inr (s\<lparr>mvtype := mv_or MV_NM MV_INT, m1 := 0\<rparr>)
    | Some (r1, r0, e) \<Rightarrow> add_store s sg r1 r0 e) (add_spec x y)"
proof -
  note X = operandD [OF x] and Y = operandD [OF y]
  define A B where "A = join a1 a0" and "B = join c1 c0"
  have c: "limbs c1 c0" "B = join b1 b0 div 10 ^ (nat a - nat b)"
    using add_align_ok [OF Y(2) _ _ al] le Y(5) by (auto simp: B_def nat_diff_distrib)
  have "B < 10 ^ 17" if "a \<noteq> b"
  proof -
    have "join b1 b0 < 10 ^ 17 * 10 ^ (nat a - nat b)"
    proof -
      have "1 \<le> nat a - nat b" using le that Y(5) by linarith
      then have "(10::int) ^ 17 * 10 ^ 1 \<le> 10 ^ 17 * 10 ^ (nat a - nat b)" by (intro mult_left_mono pow10_mono) auto
      then show ?thesis using Y(4) by simp
    qed
    then show ?thesis unfolding c(2) by (intro div_less_prod) auto
  qed
  then have BA': "B \<le> A" "a \<noteq> b \<Longrightarrow> B < A" using BA X(3) by (force simp: A_def B_def)+
  note AD = add_diff_ok [OF X(2) c(1), folded A_def B_def, OF BA'(1), of a]
  show ?thesis
  proof (cases "A - B = 0")
    case True
    then have ab: "a = b" using BA' by force
    have "join b1 b0 = A" using True ab c by simp
    then have "add_spec x y = 0" unfolding X(6) Y(6) A_def
      by (intro add_spec_aligned(3) [OF X(3,4) Y(3,4) X(1) Y(1)]) (use ab ne in auto)
    then show ?thesis using AD(1) [OF True]
      by (simp add: num_outcome_def wf_num_def wf_int_def numval_def mv_defs)
  next
    case False
    then obtain r1 r0 k where k: "add_diff a1 a0 c1 c0 a = Some (r1, r0, a - int k)" "k \<le> 17" "limbs r1 r0"
      "MANT_LO \<le> r1" "join r1 r0 = (A - B) * 10 ^ k" using AD(2) by blast
    have "add_spec x y = sgnd sg ((A - B) * 10 ^ nat a)"
      unfolding X(6) Y(6) A_def c(2)
      by (rule add_spec_aligned(2) [OF X(3,4) Y(3,4) X(1) Y(1) _ ne]) (use nat_mono [OF le(1)] BA' False c in \<open>auto simp: A_def\<close>)
    also have "nat a = k + nat (a - int k)" using k(2) x by (auto simp: operand_def)
    finally have "add_spec x y = sgnd sg (join r1 r0 * 10 ^ nat (a - int k))" by (simp add: k(5) power_add mult.assoc)
    then show ?thesis using add_store_ok [OF k(3,4) _ X(1), of "a - int k" s] k(1,2) x by (simp add: operand_def)
  qed
qed

lemma far_apart:
  assumes x: "operand x sg a1 a0 a" and y: "operand y sg' b1 b0 b" and far: "18 \<le> a - b"
  shows "add_spec x y = x"
proof -
  note X = operandD [OF x] and Y = operandD [OF y]
  have "(10::int) ^ 18 \<le> 10 ^ (nat a - nat b)" using far Y(5) by (intro pow10_mono) linarith
  then have B: "join b1 b0 div 10 ^ (nat a - nat b) = 0" using Y(3,4) by (intro div_pos_pos_trivial) auto
  have le: "nat b \<le> nat a" "nat a \<noteq> nat b" using far Y(5) by auto
  show ?thesis
  proof (cases "sg = sg'")
    case True
    show ?thesis unfolding X(6) Y(6) using add_spec_aligned(1) [OF X(3,4) Y(3,4) X(1) Y(1) le(1) True] X(4) by (simp add: B)
  next
    case False
    show ?thesis unfolding X(6) Y(6)
      using add_spec_aligned(2) [OF X(3,4) Y(3,4) X(1) Y(1) le(1) False] le(2) X(3) by (simp add: B)
  qed
qed


text \<open>Both operands are there: the four ranges of the exponent difference.\<close>

lemma add_mvals_decoded:
  assumes u: "wf_num u" and v: "wf_num v" and sub: "sub \<in> {0, 1}"
    and x: "add_operand u 0 = Some (sg, a1, a0, a)" and y: "add_operand v sub = Some (sg', b1, b0, b)"
    and X: "operand (numval u) sg a1 a0 a" and Y: "operand yv sg' b1 b0 b" and yv: "yv = sgnd sub (numval v)"
  shows "num_outcome (add_mvals u v sub s) (add_spec (numval u) yv)"
proof -
  note am = add_mvals_def [of u v sub s, unfolded x y option.case prod.case Let_def mv_defs]
  consider "18 \<le> a - b" | "a - b \<le> - 18" | "0 \<le> a - b" "a - b < 18" | "a - b < 0" "- 18 < a - b" by linarith
  then show ?thesis
  proof cases
    case 1
    then show ?thesis using far_apart [OF X Y] add_is_u_ok [OF u] by (simp add: am)
  next
    case 2
    then have "add_spec (numval u) yv = yv" using far_apart [OF Y X] by (simp add: add_spec_commute)
    then show ?thesis using 2 add_is_v_ok [OF v sub, of s] by (simp add: am yv)
  next
    case 3
    obtain c1 c0 where c: "add_align b1 b0 (a - b) = (c1, c0)" by fastforce
    have lc: "limbs c1 c0" "join c1 c0 = join b1 b0 div 10 ^ nat (a - b)" using add_align_ok [OF operandD(2) [OF Y] _ _ c] 3 by auto
    show ?thesis
    proof (cases "sg = sg'")
      case True
      obtain r1 r0 e where "add_same a1 a0 c1 c0 a = (r1, r0, e)" by (metis prod_cases3)
      then show ?thesis using core_same [OF X Y [folded True] _ _ c] 3 True c by (simp add: am)
    next
      case False
      show ?thesis
      proof (cases "a = b \<and> (a1 < c1 \<or> (a1 = c1 \<and> a0 < c0))")
        case True
        then have eq: "c1 = b1" "c0 = b0" using c by (auto simp: add_align_def mv_defs)
        have "join a1 a0 < join b1 b0" using True eq join_less [OF operandD(2) [OF X] operandD(2) [OF Y]] by auto
        moreover have "add_align a1 a0 (b - a) = (a1, a0)" using True by (simp add: add_align_def mv_defs)
        ultimately have "num_outcome (case add_diff b1 b0 a1 a0 b of None \<Rightarrow> Inr (s\<lparr>mvtype := mv_or MV_NM MV_INT, m1 := 0\<rparr>)
          | Some (r1, r0, e) \<Rightarrow> add_store s sg' r1 r0 e) (add_spec yv (numval u))"
          using core_diff [OF Y X] False True by auto
        then show ?thesis using True False c eq by (simp add: am add_spec_commute)
      next
        case nsw: False
        have "a = b \<Longrightarrow> join c1 c0 \<le> join a1 a0" using nsw join_less [OF operandD(2) [OF X] lc(1)] by auto
        then show ?thesis using core_diff [OF X Y False _ _ c] 3 nsw False c by (auto simp: am)
      qed
    qed
  next
    case 4
    obtain c1 c0 where c: "add_align a1 a0 (b - a) = (c1, c0)" by fastforce
    show ?thesis
    proof (cases "sg = sg'")
      case True
      obtain r1 r0 e where "add_same c1 c0 b1 b0 b = (r1, r0, e)" by (metis prod_cases3)
      then show ?thesis using core_same [OF Y X [unfolded True] _ _ c] 4 True c by (simp add: am add_spec_commute)
    next
      case False
      then show ?thesis using core_diff [OF Y X _ _ _ c] 4 c by (simp add: am add_spec_commute)
    qed
  qed
qed

lemma add_mvals_ok:
  assumes u: "wf_num u" and v: "wf_num v" and sub: "sub \<in> {0, 1}"
  shows "num_outcome (add_mvals u v sub s) (add_spec (numval u) (sgnd sub (numval v)))"
proof -
  have z: "numval w = 0" if "wf_num w" "add_operand w f = None" "f \<in> {0, 1}" for w f
    using that add_operand_ok(1) by (auto simp: numval_def)
  show ?thesis
  proof (cases "add_operand u 0")
    case None
    then have nu: "numval u = 0" using z [OF u] by simp
    have "add_spec 0 (sgnd sub (numval v)) = sgnd sub (numval v)"
    proof (cases "add_operand v sub")
      case None then show ?thesis using z [OF v _ sub] by (simp add: sgnd_def add_spec_def)
    next
      case (Some q) then show ?thesis using add_operand_operand [OF v sub] add_spec_0(1) by (cases q) auto
    qed
    then show ?thesis using None nu add_is_v_ok [OF v sub] by (simp add: add_mvals_def)
  next
    case (Some p)
    then obtain sg a1 a0 a where x: "add_operand u 0 = Some (sg, a1, a0, a)" by (cases p) auto
    have X: "operand (numval u) sg a1 a0 a" using add_operand_operand [OF u _ x] by (simp add: sgnd_def)
    show ?thesis
    proof (cases "add_operand v sub")
      case None
      then have "sgnd sub (numval v) = 0" using z [OF v None sub] by (simp add: sgnd_def)
      then show ?thesis using None x add_spec_0(2) [OF X] add_is_u_ok [OF u] by (simp add: add_mvals_def)
    next
      case (Some q)
      then obtain sg' b1 b0 b where y: "add_operand v sub = Some (sg', b1, b0, b)" by (cases q) auto
      define yv where "yv = sgnd sub (numval v)"
      have Y: "operand yv sg' b1 b0 b" using add_operand_operand [OF v sub y] by (simp add: yv_def)
      show ?thesis unfolding yv_def [symmetric] by (rule add_mvals_decoded [OF u v sub x y X Y])  (simp add: yv_def)
    qed
  qed
qed


lemma add_spec_exact:
  assumes "10 ^ Suc (max (last_weight x) (last_weight y)) dvd x + y"
  shows "add_spec x y = x + y"
proof -
  define E where "E = (10::int) ^ max (last_weight x) (last_weight y)"
  have "10 * E dvd \<bar>x + y\<bar>" using assms by (simp add: E_def)
  then obtain k where k: "\<bar>x + y\<bar> = 10 * E * k" by (rule dvdE)
  have E: "E \<noteq> 0" by (simp add: E_def)
  have d: "\<bar>x + y\<bar> div E = 10 * k" "- \<bar>x + y\<bar> div E = - (10 * k)"
    unfolding k using E nonzero_mult_div_cancel_left [OF E, of "10 * k"] nonzero_mult_div_cancel_left [OF E, of "- (10 * k)"]
    by (simp_all add: ac_simps)
  have "add_spec x y = sgn (x + y) * \<bar>x + y\<bar>"
    unfolding add_spec_def Let_def E_def [symmetric] d unfolding k by (simp add: ac_simps)
  then show ?thesis by (simp add: sgn_mult_abs)
qed

lemma add_ints_ok:
  assumes "- (2 * MANT_HI) < m" "m < 2 * MANT_HI"
  shows "wf_num (add_ints m s)" "numval (add_ints m s) = m * 10 ^ 77"
proof -
  have "wf_num (add_ints m s) \<and> numval (add_ints m s) = m * 10 ^ 77"
  proof (cases "m < MANT_HI \<and> m > - MANT_HI")
    case True
    then show ?thesis by (simp add: add_ints_def wf_num_def wf_int_def numval_def)
  next
    case False
    define k where "k = \<bar>m\<bar>"
    have k: "MANT_HI \<le> k" "k < 2 * MANT_HI" using False assms by (auto simp: k_def)
    have q: "k sdiv 10 = k div 10" "0 \<le> k div 10" using k by (auto simp: sdiv_nonneg mv_defs)
    have r: "add_ints m s = s\<lparr>sgn_of := (if m > 0 then 0 else 1), mvtype := MV_NM, e_of := EXP_INT_OVERF,
        m0 := (k - k div 10 * 10) * MANT_LO, m1 := k div 10\<rparr>"
    proof -
      have kk: "(if m > 0 then m else - m) = k" by (simp add: k_def)
      show ?thesis unfolding add_ints_def if_not_P [OF False] Let_def kk q(1) ..
    qed
    have "k div 10 * 1000000000 + (k - k div 10 * 10) * 100000000 = k * 100000000" by simp
    then have "mant (add_ints m s) = k * 10 ^ 8" by (simp add: r mant_def mv_defs)
    then have "numval (add_ints m s) = (if m > 0 then 1 else - 1) * (k * 10 ^ 8) * 10 ^ 69"
      unfolding numval_def by (simp add: r) (simp add: mv_defs)
    moreover have "(if m > 0 then 1 else - 1) * k = m" using k by (auto simp: k_def mv_defs)
    ultimately have v: "numval (add_ints m s) = m * 10 ^ 77" by (auto simp: k_def)
    have "k - k div 10 * 10 = k mod 10" by (simp add: minus_div_mult_eq_mod)
    moreover have "0 \<le> k mod 10" "k mod 10 \<le> 9" "100000000 \<le> k div 10" "k div 10 < 1000000000" using k by (auto simp: mv_defs)
    ultimately have "wf_flt (add_ints m s)" by (simp add: r wf_flt_def mv_simps) (simp add: mv_defs)
    with v show ?thesis by (simp add: wf_num_def)
  qed
  then show "wf_num (add_ints m s)" "numval (add_ints m s) = m * 10 ^ 77" by auto
qed

lemma int_weight: "wf_int u \<Longrightarrow> last_weight (numval u) \<le> 68"
proof -
  assume u: "wf_int u"
  then have w: "wf_num u" by (simp add: wf_num_def)
  show ?thesis
  proof (cases "m1 u = 0")
    case True
    with u show ?thesis by (simp add: numval_def wf_int_def)
  next
    case False
    have f: "wf_flt (promote u)" and n: "numval (promote u) = numval u" using promote_props [OF u] False by auto
    have "e_of (promote u) \<le> 68"
      using u False scan_pwr_pos(2) [of "m1 u"] scan_pwr_pos(2) [of "- m1 u"]
      by (auto simp: promote_def Let_def wf_int_def EXP_INT_UNDERF_def MV_XBIAS_def)
    moreover have "last_weight (numval (promote u)) = nat (e_of (promote u))"
      using last_weight_eq [of "mant (promote u)" "sgn_of (promote u)" "nat (e_of (promote u))"] wf_flt_bounds(4,5) [OF f] f
      by (auto simp: numval_def wf_flt_def sgnd_def split: if_splits)
    ultimately show ?thesis using n by simp
  qed
qed

lemma int_sum_ok:
  assumes u: "wf_int u" and v: "wf_int v" and f: "flip \<in> {0, 1}"
  shows "num_outcome (Inr (add_ints (m1 u + sgnd flip (m1 v)) s)) (add_spec (numval u) (sgnd flip (numval v)))"
proof -
  have n: "numval u = m1 u * 10 ^ 77" "numval v = m1 v * 10 ^ 77" using u v by (auto simp: numval_def wf_int_def)
  have w: "last_weight (sgnd flip (numval v)) = last_weight (numval v)" by (simp add: last_weight_def sgnd_def)
  have s: "numval u + sgnd flip (numval v) = (m1 u + sgnd flip (m1 v)) * 10 ^ 77"
    by (simp add: n sgnd_def algebra_simps)
  have "(10::int) ^ Suc (max (last_weight (numval u)) (last_weight (sgnd flip (numval v)))) dvd 10 ^ 77"
    using int_weight [OF u] int_weight [OF v] by (intro le_imp_power_dvd) (simp add: w)
  then have "add_spec (numval u) (sgnd flip (numval v)) = (m1 u + sgnd flip (m1 v)) * 10 ^ 77"
    unfolding s [symmetric] by (intro add_spec_exact) (metis s dvd_mult)
  moreover have "- (2 * MANT_HI) < m1 u + sgnd flip (m1 v)" "m1 u + sgnd flip (m1 v) < 2 * MANT_HI"
    using u v by (auto simp: wf_int_def sgnd_def)
  ultimately show ?thesis using add_ints_ok [of "m1 u + sgnd flip (m1 v)" s] outcome_exact [of "add_ints (m1 u + sgnd flip (m1 v)) s"]
    by simp
qed

lemma force_both_num [simp]:
  "is_nm (mvtype u) \<Longrightarrow> is_nm (mvtype v) \<Longrightarrow> force_both ui u v f = f u v"
  by (simp add: force_both_def)

lemma wf_num_nm: "wf_num v \<Longrightarrow> is_nm (mvtype v)"
  by (auto simp: wf_num_def wf_int_def wf_flt_def)

section \<open>Properties\<close>

text \<open>
  C31. \<open>op_add\<close> on numbers, in any mix of the two forms: the result is the sum of the two numbers to 18
  digits (\<open>add_spec\<close>), a well-formed number; NUMOFLOW when that sum is \<open>10^47\<close> or more in magnitude,
  zero when it is below \<open>10^-43\<close>.
\<close>

theorem op_add_sum:
  assumes "wf_num u" "wf_num v"
  shows "num_outcome (op_add undef_inhibit u v s) (add_spec (numval u) (numval v))"
proof (cases "is_int (mvtype u) \<and> is_int (mvtype v)")
  case True
  with assms have "wf_int u" "wf_int v" by (auto dest: wf_num_cases)
  from int_sum_ok [OF this, of 0 s] True assms [THEN wf_num_nm] show ?thesis by (simp add: op_add_def sgnd_def)
next
  case False
  with assms [THEN wf_num_nm] add_mvals_ok [OF assms, of 0 s] show ?thesis by (auto simp: op_add_def sgnd_def)
qed

theorem op_add_sum_witness:
  "num_outcome (op_add False (ex_num 1500) ex_float (ex_num 0)) (add_spec (numval (ex_num 1500)) (numval ex_float))"
  by (rule op_add_sum) (simp_all add: wf_num_def wf_int_def wf_flt_def ex_num_def ex_float_def mv_defs)

text \<open>
  \<open>op_sub\<close> on numbers: the 18-digit sum of the first and the negated second operand, with the same
  overflow and underflow behaviour as addition.
\<close>

theorem op_sub_difference:
  assumes "wf_num u" "wf_num v"
  shows "num_outcome (op_sub undef_inhibit u v s) (add_spec (numval u) (- numval v))"
proof (cases "is_int (mvtype u) \<and> is_int (mvtype v)")
  case True
  with assms have "wf_int u" "wf_int v" by (auto dest: wf_num_cases)
  from int_sum_ok [OF this, of 1 s] True assms [THEN wf_num_nm] show ?thesis by (simp add: op_sub_def sgnd_def)
next
  case False
  with assms [THEN wf_num_nm] add_mvals_ok [OF assms, of 1 s] show ?thesis by (auto simp: op_sub_def sgnd_def)
qed

theorem op_sub_difference_witness:
  "num_outcome (op_sub False (ex_num 1500) ex_float (ex_num 0)) (add_spec (numval (ex_num 1500)) (- numval ex_float))"
  by (rule op_sub_difference) (simp_all add: wf_num_def wf_int_def wf_flt_def ex_num_def ex_float_def mv_defs)

end
