(* ===== verification/EbMul.thy ===== *)
theory EbMul
  imports OpAdd
begin

text \<open>
  Extended-precision multiplication, \<open>eb_mul\<close> of \<open>eb_muldiv.c\<close>: the 18-digit mantissas are broken
  into five digits of base \<open>10^4\<close>, multiplied by the school method into nine such digits, and the
  product is cut back to 18 digits.  Lists hold the digits, index 0 the least significant, as in
  the arrays of the source.
\<close>

definition RADIX :: int where [mv_defs]: "RADIX = 10000"

section \<open>Numbers as digit lists\<close>

fun lval :: "int list \<Rightarrow> int" where
  "lval [] = 0"
| "lval (d # ds) = d + RADIX * lval ds"

definition digits_ok :: "int list \<Rightarrow> bool" where
  "digits_ok ds \<longleftrightarrow> (\<forall>d \<in> set ds. 0 \<le> d \<and> d < RADIX)"

lemma digits_ok_simps [simp]:
  "digits_ok []" "digits_ok (d # ds) \<longleftrightarrow> 0 \<le> d \<and> d < RADIX \<and> digits_ok ds"
  by (auto simp: digits_ok_def)

lemma digits_ok_upd: "digits_ok ds \<Longrightarrow> 0 \<le> d \<Longrightarrow> d < RADIX \<Longrightarrow> digits_ok (ds[k := d])"
  by (auto simp: digits_ok_def dest!: subsetD [OF set_update_subset_insert])

lemma digits_ok_nth: "digits_ok ds \<Longrightarrow> k < length ds \<Longrightarrow> 0 \<le> ds ! k \<and> ds ! k < RADIX"
  by (simp add: digits_ok_def)

lemma lval_upd: "k < length ds \<Longrightarrow> lval (ds[k := d]) = lval ds + (d - ds ! k) * RADIX ^ k"
proof (induction ds arbitrary: k)
  case (Cons x ds)
  then show ?case by (cases k) (simp_all add: Cons.IH algebra_simps)
qed simp

lemma lval_bounds: "digits_ok ds \<Longrightarrow> 0 \<le> lval ds \<and> lval ds < RADIX ^ length ds"
proof (induction ds)
  case (Cons d ds)
  then have "lval ds + 1 \<le> RADIX ^ length ds" by auto
  then have "RADIX * (lval ds + 1) \<le> RADIX * RADIX ^ length ds" by (simp add: mv_defs)
  with Cons show ?case by (auto simp: mv_defs)
qed simp

lemma lval_split: "k \<le> length ds \<Longrightarrow> lval ds = lval (take k ds) + RADIX ^ k * lval (drop k ds)"
proof (induction ds arbitrary: k)
  case (Cons d ds)
  then show ?case by (cases k) (simp_all add: algebra_simps)
qed simp

lemma lval_append: "lval (xs @ ys) = lval xs + RADIX ^ length xs * lval ys"
  by (induction xs) (simp_all add: algebra_simps)

lemma lval_digit_le: "digits_ok ds \<Longrightarrow> k < length ds \<Longrightarrow> ds ! k * RADIX ^ k \<le> lval ds"
proof (induction ds arbitrary: k)
  case (Cons d ds)
  show ?case
  proof (cases k)
    case 0
    with Cons lval_bounds [of ds] show ?thesis by (auto simp: mv_defs)
  next
    case (Suc j)
    with Cons have "RADIX * (ds ! j * RADIX ^ j) \<le> RADIX * lval ds" by (intro mult_left_mono) (auto simp: mv_defs)
    also have "\<dots> \<le> d + RADIX * lval ds" using Cons.prems by simp
    finally show ?thesis using Suc by (simp add: mult.left_commute)
  qed
qed simp

lemma lval_top_zero: "digits_ok ds \<Longrightarrow> k < length ds \<Longrightarrow> lval ds < RADIX ^ k \<Longrightarrow> ds ! k = 0"
proof -
  assume a: "digits_ok ds" "k < length ds" "lval ds < RADIX ^ k"
  then have "ds ! k * RADIX ^ k < 1 * RADIX ^ k" using lval_digit_le [of ds k] by simp
  then have "ds ! k < 1" by (simp add: mv_defs)
  then show "ds ! k = 0" using digits_ok_nth [OF a(1,2)] by simp
qed

section \<open>eb_mul\<close>

text \<open>The five digits of a mantissa: the break-up 2-4-(3/1)-4-4.\<close>

definition eb_digits :: "int \<Rightarrow> int \<Rightarrow> int list" where
  "eb_digits v0 v1 =
    [v0 smod RADIX, (v0 sdiv RADIX) smod RADIX, (v1 smod (RADIX sdiv 10)) * 10 + v0 sdiv (RADIX * RADIX),
     (v1 sdiv (RADIX sdiv 10)) smod RADIX, v1 sdiv ((RADIX sdiv 10) * RADIX)]"

text \<open>The inner loop: one row of the product, from digit \<open>k = i + j\<close> on: the carry out and the digits.\<close>

fun mul_row :: "int list \<Rightarrow> int \<Rightarrow> nat \<Rightarrow> int \<Rightarrow> int list \<Rightarrow> int \<times> int list" where
  "mul_row [] mj k carry pr = (carry, pr)"
| "mul_row (mi # ms) mj k carry pr =
    (let acc = mi * mj + pr ! k + carry
     in mul_row ms mj (k + 1) (acc sdiv RADIX) (pr[k := acc smod RADIX]))"

text \<open>The outer loop over the digits of the second factor.\<close>

fun mul_rows :: "int list \<Rightarrow> int list \<Rightarrow> nat \<Rightarrow> int list \<Rightarrow> int list" where
  "mul_rows ms [] j pr = pr"
| "mul_rows ms (mj # mjs) j pr =
    mul_rows ms mjs (j + 1)
      (if mj \<noteq> 0 then
         let (carry, pr) = mul_row ms mj j 0 pr;
             k = j + length ms
         in if 9 > k then pr[k := carry] else pr
       else pr)"

text \<open>The product mantissa and its scale: \<open>(scale, p[0], p[1])\<close>.\<close>

definition eb_mul :: "int \<Rightarrow> int \<Rightarrow> int \<Rightarrow> int \<Rightarrow> int \<times> int \<times> int" where
  "eb_mul v0 v1 u0 u1 =
    (let pr = mul_rows (eb_digits v0 v1) (eb_digits u0 u1) 0 (replicate 9 0)
     in if pr ! 8 \<ge> RADIX sdiv 10 then
          (0, ((pr ! 6 smod 1000) * RADIX + pr ! 5) * (RADIX sdiv 100) + pr ! 4 sdiv 100,
              (pr ! 8 * RADIX + pr ! 7) * (RADIX sdiv 1000) + pr ! 6 sdiv 1000)
        else
          (- 1, ((pr ! 6 smod 100) * RADIX + pr ! 5) * (RADIX sdiv 10) + pr ! 4 sdiv 10,
                (pr ! 8 * RADIX + pr ! 7) * (RADIX sdiv 100) + pr ! 6 sdiv 100))"

section \<open>The product is exact before the cut\<close>

lemma split_digits:
  fixes x a b c :: int
  assumes "0 < a" "0 < b" "c = a * b"
  shows "x mod a + a * (x div a mod b) + c * (x div c) = x"
proof -
  have "x div c = x div a div b" using assms by (simp add: zdiv_zmult2_eq)
  then have "a * (x div a mod b) + c * (x div c) = a * (x div a div b * b + x div a mod b)"
    unfolding assms(3) by (simp only: distrib_left mult.assoc) (simp add: ac_simps)
  also have "\<dots> = a * (x div a)" by (simp only: div_mult_mod_eq)
  finally have "x mod a + a * (x div a mod b) + c * (x div c) = x mod a + a * (x div a)" by (simp only: add.assoc)
  then show ?thesis by simp
qed

lemma eb_digits_ok:
  assumes "limbs v1 v0"
  shows "digits_ok (eb_digits v0 v1)" "lval (eb_digits v0 v1) = join v1 v0" "length (eb_digits v0 v1) = 5"
proof -
  have v: "0 \<le> v0" "v0 < 1000000000" "0 \<le> v1" "v1 < 1000000000" using assms by (auto simp: limbs_def mv_defs)
  have e: "eb_digits v0 v1 = [v0 mod 10000, (v0 div 10000) mod 10000, (v1 mod 1000) * 10 + v0 div 100000000,
     (v1 div 1000) mod 10000, v1 div 10000000]"
    using v by (simp add: eb_digits_def mv_defs sdiv_nonneg smod_nonneg pos_imp_zdiv_nonneg_iff)
  have "v0 div 100000000 \<le> 9" "v1 mod 1000 \<le> 999" "v1 div 10000000 \<le> 99" using v by auto
  then show "digits_ok (eb_digits v0 v1)" using v by (simp add: e mv_defs pos_imp_zdiv_nonneg_iff) 
  show "lval (eb_digits v0 v1) = join v1 v0"
  proof -
    have "v0 mod 10000 + 10000 * (v0 div 10000 mod 10000) + 100000000 * (v0 div 100000000) = v0"
      and "v1 mod 1000 + 1000 * (v1 div 1000 mod 10000) + 10000000 * (v1 div 10000000) = v1"
      by (rule split_digits; simp)+
    moreover have "p + 10000 * (q + 10000 * (s * 10 + r + 10000 * (t + 10000 * (w + 10000 * 0)))) = b * 1000000000 + a"
      if "p + 10000 * q + 100000000 * r = a" "s + 1000 * t + 10000000 * w = b" for p q r s t w a b :: int
      unfolding that [symmetric] by (simp add: algebra_simps)
    ultimately show ?thesis unfolding e join_def lval.simps RADIX_def MANT_HI_def by blast
  qed
  show "length (eb_digits v0 v1) = 5" by (simp add: e)
qed

lemma mul_row_ok:
  assumes "digits_ok ms" "0 \<le> mj" "mj < RADIX" "0 \<le> c" "c < RADIX" "digits_ok pr" "k + length ms \<le> length pr"
    and "mul_row ms mj k c pr = (c', pr')"
  shows "length pr' = length pr \<and> digits_ok pr' \<and> 0 \<le> c' \<and> c' < RADIX \<and>
    lval pr' + c' * RADIX ^ (k + length ms) = lval pr + (lval ms * mj + c) * RADIX ^ k \<and>
    (\<forall>i \<ge> k + length ms. pr' ! i = pr ! i)"
  using assms
proof (induction ms arbitrary: k c pr)
  case (Cons mi ms)
  define acc where "acc = mi * mj + pr ! k + c"
  have d: "0 \<le> mi" "mi < RADIX" "0 \<le> pr ! k" "pr ! k < RADIX"
    using Cons.prems digits_ok_nth [of pr k] by auto
  have "mi * mj \<le> (RADIX - 1) * (RADIX - 1)" using d Cons.prems by (intro mult_mono) auto
  moreover have "0 \<le> mi * mj" using d Cons.prems by simp
  ultimately have acc: "0 \<le> acc" "acc < RADIX * RADIX" using d Cons.prems by (auto simp: acc_def mv_defs)
  have q: "0 \<le> acc div RADIX" "acc div RADIX < RADIX" "0 \<le> acc mod RADIX" "acc mod RADIX < RADIX"
    using acc by (auto simp: pos_imp_zdiv_nonneg_iff mv_defs intro!: div_less_prod)
  have step: "mul_row ms mj (k + 1) (acc div RADIX) (pr[k := acc mod RADIX]) = (c', pr')"
    using Cons.prems(8) acc by (simp add: acc_def [symmetric] sdiv_nonneg smod_nonneg RADIX_def)
  note IH = Cons.IH [OF _ Cons.prems(2,3) q(1,2) _ _ step]
  have IH': "length pr' = length pr" "digits_ok pr'" "0 \<le> c'" "c' < RADIX"
    "lval pr' + c' * RADIX ^ (k + 1 + length ms) =
       lval (pr[k := acc mod RADIX]) + (lval ms * mj + acc div RADIX) * RADIX ^ (k + 1)"
    "\<forall>i \<ge> k + 1 + length ms. pr' ! i = pr[k := acc mod RADIX] ! i"
    using IH Cons.prems digits_ok_upd [OF Cons.prems(6) q(3,4)] by auto
  obtain q rm where qr: "acc div RADIX = q" "acc mod RADIX = rm" by blast
  then have "mi * mj + pr ! k + c = q * RADIX + rm" using div_mult_mod_eq [of acc RADIX] by (simp add: acc_def)
  then have "(mi * mj + pr ! k + c) * RADIX ^ k = (q * RADIX + rm) * RADIX ^ k" by simp
  then have "lval (pr[k := rm]) + (lval ms * mj + q) * RADIX ^ (k + 1) = lval pr + (lval (mi # ms) * mj + c) * RADIX ^ k"
    using Cons.prems(7) by (simp add: lval_upd algebra_simps)
  then show ?case using IH' qr by auto
qed auto

lemma mul_rows_ok:
  assumes "digits_ok ms" "length ms = 5" "digits_ok mjs" "j + length mjs = 5" "digits_ok pr" "length pr = 9"
    and "lval pr = lval ms * l" "0 \<le> l" "l < RADIX ^ j" "lval ms * (l + lval mjs * RADIX ^ j) < RADIX ^ 9"
  shows "length (mul_rows ms mjs j pr) = 9 \<and> digits_ok (mul_rows ms mjs j pr) \<and>
    lval (mul_rows ms mjs j pr) = lval ms * (l + lval mjs * RADIX ^ j)"
  using assms
proof (induction mjs arbitrary: j pr l)
  case (Cons mj mjs)
  define l' where "l' = l + mj * RADIX ^ j"
  have mj: "0 \<le> mj" "mj < RADIX" "digits_ok mjs" using Cons.prems(3) by auto
  have "mj * RADIX ^ j \<le> (RADIX - 1) * RADIX ^ j" using mj by (intro mult_right_mono) (auto simp: mv_defs)
  then have "l' < RADIX ^ j + (RADIX - 1) * RADIX ^ j" using Cons.prems(9) by (simp add: l'_def)
  also have "\<dots> = RADIX ^ (j + 1)" by (simp add: algebra_simps)
  finally have l': "0 \<le> l'" "l' < RADIX ^ (j + 1)" using Cons.prems(8) mj by (auto simp: l'_def mv_defs)
  have eq: "l + lval (mj # mjs) * RADIX ^ j = l' + lval mjs * RADIX ^ (j + 1)"
    by (simp add: l'_def algebra_simps)
  have M: "0 \<le> lval ms" "lval ms < RADIX ^ 5" using lval_bounds [OF Cons.prems(1)] Cons.prems(2) by auto
  define pr2 where "pr2 = (if mj \<noteq> 0 then
         let (carry, pr) = mul_row ms mj j 0 pr; k = j + length ms in if 9 > k then pr[k := carry] else pr else pr)"
  have pr2: "digits_ok pr2 \<and> length pr2 = 9 \<and> lval pr2 = lval ms * l'"
  proof (cases "mj = 0")
    case True
    then show ?thesis using Cons.prems by (simp add: pr2_def l'_def)
  next
    case False
    obtain c p where cp: "mul_row ms mj j 0 pr = (c, p)" by fastforce
    have R: "length p = 9" "digits_ok p" "0 \<le> c" "c < RADIX" "\<forall>i \<ge> j + 5. p ! i = pr ! i"
      "lval p + c * RADIX ^ (j + 5) = lval ms * l'"
      using mul_row_ok [OF Cons.prems(1) mj(1,2) _ _ Cons.prems(5) _ cp] Cons.prems(2,4,6,7)
      by (auto simp: l'_def algebra_simps RADIX_def)
    show ?thesis
    proof (cases "j + 5 < 9")
      case True
      have "lval ms * l \<le> lval ms * RADIX ^ j" using M Cons.prems(9) by (intro mult_left_mono) auto
      also have "\<dots> < RADIX ^ 5 * RADIX ^ j" using M by (intro mult_strict_right_mono) (auto simp: mv_defs)
      finally have "pr ! (j + 5) = 0"
        using True Cons.prems(5,6,7) by (intro lval_top_zero) (auto simp: power_add mult.commute)
      then have "lval (p[j + 5 := c]) = lval ms * l'" using R True by (simp add: lval_upd)
      then show ?thesis using False True R digits_ok_upd [OF R(2,3,4)] Cons.prems(2) by (simp add: pr2_def cp)
    next
      case j4: False
      then have "length mjs = 0" "j = 4" using Cons.prems(4) by (simp_all del: length_0_conv)
      then have "mjs = []" by simp
      then have "lval ms * l' < RADIX ^ 9" using Cons.prems(10) eq by simp
      then have "c * RADIX ^ 9 < 1 * RADIX ^ 9" using R(6) lval_bounds [OF R(2)] \<open>j = 4\<close> by simp
      then have "c < 1" by (simp add: mv_defs)
      then have "c = 0" using R(3) by simp
      then show ?thesis using False j4 R Cons.prems(2) by (simp add: pr2_def cp)
    qed
  qed
  have step: "mul_rows ms (mj # mjs) j pr = mul_rows ms mjs (j + 1) pr2" by (simp add: pr2_def)
  show ?case unfolding step eq
    by (rule Cons.IH) (use Cons.prems mj pr2 l' eq in auto)
qed auto

lemma prod_digits:
  assumes "length ds = 9"
  shows "lval ds = lval (take 4 ds) + RADIX ^ 4 * (ds ! 4 + RADIX * (ds ! 5 + RADIX * (ds ! 6 + RADIX * (ds ! 7 + RADIX * ds ! 8))))"
  using assms
  by (auto simp: length_Suc_conv numeral_eq_Suc algebra_simps)

text \<open>Cutting nine digits to the leading 18 decimal digits, the last of them at weight \<open>c * 10^16\<close>.\<close>

lemma cut_digits:
  fixes t d4 d5 d6 d7 d8 :: int
  assumes "0 \<le> t" "t < RADIX ^ 4"
  defines "P \<equiv> t + RADIX ^ 4 * (d4 + RADIX * (d5 + RADIX * (d6 + RADIX * (d7 + RADIX * d8))))"
  shows "P div 10 ^ 18 = ((d8 * RADIX + d7) * 10 + d6 div 1000) * 10 ^ 9 + ((d6 mod 1000) * RADIX + d5) * 100 + d4 div 100"
    and "P div 10 ^ 17 = ((d8 * RADIX + d7) * 100 + d6 div 100) * 10 ^ 9 + ((d6 mod 100) * RADIX + d5) * 1000 + d4 div 10"
proof -
  define h where "h = d4 + RADIX * (d5 + RADIX * (d6 + RADIX * (d7 + RADIX * d8)))"
  have P: "P = t + h * 10 ^ 16" by (simp add: P_def h_def RADIX_def)
  have "P div 10 ^ 16 = h" using assms(1,2) unfolding P by (simp add: RADIX_def)
  then have "P div 10 ^ 18 = h div 100" "P div 10 ^ 17 = h div 10"
    using zdiv_zmult2_eq [of 100 P "10 ^ 16"] zdiv_zmult2_eq [of 10 P "10 ^ 16"] by simp_all
  moreover have "h = d4 + (RADIX * 0 + 100 * (d5 + RADIX * (d6 + RADIX * (d7 + RADIX * d8)))) * 100" by (simp add: h_def RADIX_def)
  moreover have "h = d4 + (1000 * (d5 + RADIX * (d6 + RADIX * (d7 + RADIX * d8)))) * 10" by (simp add: h_def RADIX_def)
  ultimately have h: "P div 10 ^ 18 = d4 div 100 + 100 * (d5 + RADIX * (d6 + RADIX * (d7 + RADIX * d8)))"
    "P div 10 ^ 17 = d4 div 10 + 1000 * (d5 + RADIX * (d6 + RADIX * (d7 + RADIX * d8)))" by simp_all
  have c: "100 * (d5 + RADIX * (d6 + RADIX * (d7 + RADIX * d8))) = ((d8 * RADIX + d7) * 10 + q) * 10 ^ 9 + (m * RADIX + d5) * 100"
    if "q * 1000 + m = d6" for q m
    unfolding that [symmetric] RADIX_def by (simp add: algebra_simps)
  have d: "1000 * (d5 + RADIX * (d6 + RADIX * (d7 + RADIX * d8))) = ((d8 * RADIX + d7) * 100 + q) * 10 ^ 9 + (m * RADIX + d5) * 1000"
    if "q * 100 + m = d6" for q m
    unfolding that [symmetric] RADIX_def by (simp add: algebra_simps)
  show "P div 10 ^ 18 = ((d8 * RADIX + d7) * 10 + d6 div 1000) * 10 ^ 9 + ((d6 mod 1000) * RADIX + d5) * 100 + d4 div 100"
    unfolding h(1) c [OF div_mult_mod_eq] by (rule add.commute)
  show "P div 10 ^ 17 = ((d8 * RADIX + d7) * 100 + d6 div 100) * 10 ^ 9 + ((d6 mod 100) * RADIX + d5) * 1000 + d4 div 10"
    unfolding h(2) d [OF div_mult_mod_eq] by (rule add.commute)
qed

lemma eb_mul_ok:
  assumes v: "limbs v1 v0" "MANT_LO \<le> v1" and u: "limbs u1 u0" "MANT_LO \<le> u1" and r: "eb_mul v0 v1 u0 u1 = (scale, p0, p1)"
  defines "P \<equiv> join v1 v0 * join u1 u0"
  shows "limbs p1 p0 \<and> MANT_LO \<le> p1 \<and>
    (if 10 ^ 35 \<le> P then scale = 0 \<and> join p1 p0 = P div 10 ^ 18 else scale = - 1 \<and> join p1 p0 = P div 10 ^ 17)"
proof -
  define ds where "ds = mul_rows (eb_digits v0 v1) (eb_digits u0 u1) 0 (replicate 9 0)"
  note V = eb_digits_ok [OF v(1)] and U = eb_digits_ok [OF u(1)]
  have jv: "10 ^ 17 \<le> join v1 v0" "join v1 v0 < 10 ^ 18" "10 ^ 17 \<le> join u1 u0" "join u1 u0 < 10 ^ 18"
    using limbs_join [OF v(1)] limbs_join [OF u(1)] join_norm [of v0 v1] join_norm [of u0 u1] v u by (auto simp: limbs_def)
  have "P < 10 ^ 18 * 10 ^ 18" unfolding P_def using jv by (intro mult_strict_mono) auto
  moreover have "(10::int) ^ 17 * 10 ^ 17 \<le> P" unfolding P_def using jv by (intro mult_mono) auto
  ultimately have Pb: "10 ^ 34 \<le> P" "P < 10 ^ 36" by simp_all
  have z: "lval (replicate 9 0) = 0" "digits_ok (replicate 9 0)" by (simp_all add: numeral_eq_Suc mv_defs)
  have D: "length ds = 9" "digits_ok ds" "lval ds = P"
    using mul_rows_ok [OF V(1,3) U(1) _ z(2), of 0 0] Pb unfolding ds_def P_def
    by (simp_all add: V U z RADIX_def)
  have dd: "0 \<le> ds ! k" "ds ! k < 10000" if "k < 9" for k using digits_ok_nth [OF D(2)] that D(1) by (auto simp: RADIX_def)
  have t: "0 \<le> lval (take 4 ds)" "lval (take 4 ds) < RADIX ^ 4"
    using lval_bounds [of "take 4 ds"] D(1,2) by (auto simp: digits_ok_def dest: in_set_takeD)
  note cut = cut_digits [OF t, of "ds ! 4" "ds ! 5" "ds ! 6" "ds ! 7" "ds ! 8", folded prod_digits [OF D(1)], unfolded D(3)]
  have top: "P = lval (take 8 ds) + 10 ^ 32 * ds ! 8" "0 \<le> lval (take 8 ds)" "lval (take 8 ds) < 10 ^ 32"
    using lval_split [of 8 ds] D lval_bounds [of "take 8 ds"]
    by (auto simp: digits_ok_def Cons_nth_drop_Suc [symmetric] RADIX_def dest: in_set_takeD)
  then have lead: "10 ^ 35 \<le> P \<longleftrightarrow> 1000 \<le> ds ! 8" by auto
  have r': "(scale, p0, p1) =
      (if 1000 \<le> ds ! 8
       then (0, ((ds ! 6 mod 1000) * 10000 + ds ! 5) * 100 + ds ! 4 div 100, (ds ! 8 * 10000 + ds ! 7) * 10 + ds ! 6 div 1000)
       else (- 1, ((ds ! 6 mod 100) * 10000 + ds ! 5) * 1000 + ds ! 4 div 10, (ds ! 8 * 10000 + ds ! 7) * 100 + ds ! 6 div 100))"
    unfolding r [symmetric] eb_mul_def Let_def ds_def [symmetric] using dd by (simp add: RADIX_def sdiv_nonneg smod_nonneg)
  have d4: "0 \<le> ds ! 4" "ds ! 4 < 10000" and d5: "0 \<le> ds ! 5" "ds ! 5 < 10000" and d6: "0 \<le> ds ! 6" "ds ! 6 < 10000"
    and d7: "0 \<le> ds ! 7" "ds ! 7 < 10000" and d8: "0 \<le> ds ! 8" "ds ! 8 < 10000" using dd by auto
  have m6: "0 \<le> ds ! 6 mod 1000" "ds ! 6 mod 1000 \<le> 999" "0 \<le> ds ! 6 mod 100" "ds ! 6 mod 100 \<le> 99"
    "0 \<le> ds ! 6 div 1000" "ds ! 6 div 1000 \<le> 9" "0 \<le> ds ! 6 div 100" "ds ! 6 div 100 \<le> 99"
    "0 \<le> ds ! 4 div 100" "ds ! 4 div 100 \<le> 99" "0 \<le> ds ! 4 div 10" "ds ! 4 div 10 \<le> 999" using d4 d6 by auto
  obtain a b c d e f where ab: "ds ! 6 mod 1000 = a" "ds ! 6 mod 100 = b" "ds ! 6 div 1000 = c" "ds ! 6 div 100 = d"
    "ds ! 4 div 100 = e" "ds ! 4 div 10 = f" by blast
  note m6' = m6 [unfolded ab]
  show ?thesis
  proof (cases "1000 \<le> ds ! 8")
    case True
    then have p: "scale = 0" "p0 = (a * 10000 + ds ! 5) * 100 + e" "p1 = (ds ! 8 * 10000 + ds ! 7) * 10 + c"
      using r' by (simp_all add: ab)
    have l: "limbs p1 p0" using m6' d5 d7 d8 unfolding p limbs_def mv_defs by auto
    have l': "MANT_LO \<le> p1" using True m6' d7 unfolding p mv_defs by simp
    have "join p1 p0 = P div 10 ^ 18" unfolding cut(1) p join_def mv_defs ab by simp
    with True l l' lead p show ?thesis by simp
  next
    case False
    then have p: "scale = - 1" "p0 = (b * 10000 + ds ! 5) * 1000 + f" "p1 = (ds ! 8 * 10000 + ds ! 7) * 100 + d"
      using r' by (simp_all add: ab)
    have l: "limbs p1 p0" using False m6' d5 d7 d8 unfolding p limbs_def mv_defs by auto
    have j: "join p1 p0 = P div 10 ^ 17" unfolding cut(2) p join_def mv_defs ab by simp
    moreover have "10 ^ 17 \<le> P div 10 ^ 17" using zdiv_mono1 [OF Pb(1), of "10 ^ 17"] by simp
    ultimately have "MANT_LO \<le> p1" using l join_norm [of p0 p1] by (simp add: limbs_def)
    with False l lead p j show ?thesis by simp
  qed
qed

end
