(* ===== verification/EbDiv.thy ===== *)
theory EbDiv
  imports EbMul
begin

text \<open>
  Extended-precision division, \<open>eb_div\<close> of \<open>eb_muldiv.c\<close>: long division in base \<open>10^4\<close> with a
  quotient digit estimated from the leading digits, a multiply-and-subtract pass, and a loop that
  adds the divisor back while the estimate was too high.  The loop is a partial function; that it
  ends, and that the quotient is the exact one cut to 18 digits, is proved for every normalised
  divisor.  A divisor with a zero leading digit makes the source divide an integer by zero: \<open>None\<close>.
\<close>

section \<open>eb_div\<close>

text \<open>The pass \<open>yx[i+j] -= qx[i] * xx[j]\<close> with its borrow, from digit \<open>k\<close> on.\<close>

fun sub_row :: "int list \<Rightarrow> int \<Rightarrow> nat \<Rightarrow> int \<Rightarrow> int list \<Rightarrow> int \<times> int list" where
  "sub_row [] q k borrow yx = (borrow, yx)"
| "sub_row (x # xs) q k borrow yx =
    (let pr = q * x + borrow;
         borrow = pr sdiv RADIX;
         y = yx ! k - pr smod RADIX
     in if y < 0 then sub_row xs q (k + 1) (borrow + 1) (yx[k := y + RADIX])
        else sub_row xs q (k + 1) borrow (yx[k := y]))"

text \<open>The pass \<open>yx[i+j] += xx[j] + carry\<close>.\<close>

fun add_row :: "int list \<Rightarrow> nat \<Rightarrow> int \<Rightarrow> int list \<Rightarrow> int \<times> int list" where
  "add_row [] k carry yx = (carry, yx)"
| "add_row (x # xs) k carry yx =
    (let y = yx ! k + (x + carry)
     in add_row xs (k + 1) (y sdiv RADIX) (yx[k := y smod RADIX]))"

text \<open>The loop \<open>while (yx[i+5] < 0)\<close>.\<close>

partial_function (option) add_back :: "int list \<Rightarrow> nat \<Rightarrow> int list \<Rightarrow> int \<Rightarrow> (int list \<times> int) option" where
  "add_back xx i yx q =
    (if yx ! (i + 5) < 0 then
       let (carry, yx') = add_row xx i 0 yx
       in add_back xx i (yx'[i + 5 := yx' ! (i + 5) + carry]) (q - 1)
     else Some (yx, q))"

text \<open>One quotient digit.\<close>

definition div_step :: "int list \<Rightarrow> nat \<Rightarrow> int list \<Rightarrow> (int list \<times> int) option" where
  "div_step xx i yx =
    (let q = (yx ! (i + 5) * RADIX + yx ! (i + 4)) sdiv (xx ! 4)
     in if q \<noteq> 0 then
          let (borrow, yx') = sub_row xx q i 0 yx
          in add_back xx i (yx'[i + 5 := yx' ! (i + 5) - borrow]) q
        else Some (yx, q))"

text \<open>The loop \<open>for (i = 4; i >= 0; i--)\<close>; \<open>n\<close> counts the digits left, \<open>qs\<close> holds the ones found.\<close>

fun div_loop :: "int list \<Rightarrow> nat \<Rightarrow> int list \<Rightarrow> int list \<Rightarrow> int list option" where
  "div_loop xx 0 yx qs = Some qs"
| "div_loop xx (Suc i) yx qs =
    (case div_step xx i yx of None \<Rightarrow> None | Some (yx, q) \<Rightarrow> div_loop xx i yx (q # qs))"

text \<open>The two ways of breaking a mantissa: 4-4-1/3-4-2 (times 100) and 3-4-2/2-4-3 (times 10).\<close>

definition break100 :: "int \<Rightarrow> int \<Rightarrow> int list" where
  "break100 y0 y1 =
    [(y0 smod (RADIX sdiv 100)) * 100, (y0 sdiv (RADIX sdiv 100)) smod RADIX,
     (y1 smod (RADIX sdiv 1000)) * (RADIX sdiv 10) + y0 sdiv ((RADIX sdiv 100) * RADIX),
     (y1 sdiv (RADIX sdiv 1000)) smod RADIX, y1 sdiv ((RADIX sdiv 1000) * RADIX)]"

definition break10 :: "int \<Rightarrow> int \<Rightarrow> int list" where
  "break10 y0 y1 =
    [(y0 smod (RADIX sdiv 10)) * 10, (y0 sdiv (RADIX sdiv 10)) smod RADIX,
     (y1 smod (RADIX sdiv 100)) * (RADIX sdiv 100) + y0 sdiv ((RADIX sdiv 10) * RADIX),
     (y1 sdiv (RADIX sdiv 100)) smod RADIX, y1 sdiv ((RADIX sdiv 100) * RADIX)]"

text \<open>The quotient mantissa of \<open>y / x\<close> and its scale: \<open>(scale, q[0], q[1])\<close>.\<close>

definition eb_div :: "int \<Rightarrow> int \<Rightarrow> int \<Rightarrow> int \<Rightarrow> (int \<times> int \<times> int) option" where
  "eb_div x0 x1 y0 y1 =
    (let le = (x1 < y1 \<or> (x1 = y1 \<and> x0 \<le> y0));
         scale = (if le then 1 else 0);
         yx = replicate 5 0 @ (if le then break10 y0 y1 else break100 y0 y1);
         xx = break100 x0 x1
     in if xx ! 4 = 0 then None
        else case div_loop xx 5 yx [] of
               None \<Rightarrow> None
             | Some qx \<Rightarrow>
                 Some (scale, ((qx ! 2 smod 1000) * RADIX + qx ! 1) * 100 + qx ! 0 sdiv 100,
                       (qx ! 4 * RADIX + qx ! 3) * 10 + qx ! 2 sdiv 1000))"

section \<open>The passes over the digits\<close>

definition digits_but :: "nat \<Rightarrow> int list \<Rightarrow> bool" where
  "digits_but n ys \<longleftrightarrow> (\<forall>j < length ys. j \<noteq> n \<longrightarrow> 0 \<le> ys ! j \<and> ys ! j < RADIX)"

lemma digits_ok_conv: "digits_ok ys \<longleftrightarrow> (\<forall>j < length ys. 0 \<le> ys ! j \<and> ys ! j < RADIX)"
  by (simp add: digits_ok_def all_set_conv_all_nth)

lemma digits_but_upd: "digits_but n ys \<Longrightarrow> 0 \<le> z \<Longrightarrow> z < RADIX \<Longrightarrow> digits_but n (ys[k := z])"
  by (cases "k < length ys") (auto simp: digits_but_def nth_list_update)

lemma digits_but_top: "digits_but n ys \<Longrightarrow> digits_but n (ys[n := z])"
  by (simp add: digits_but_def)

lemma sub_row_ok:
  assumes "digits_ok xs" "0 \<le> q" "0 \<le> b" "digits_but n ys" "k + length xs \<le> n" "n < length ys"
    and "sub_row xs q k b ys = (b', ys')"
  shows "length ys' = length ys \<and> digits_but n ys' \<and> ys' ! n = ys ! n \<and> 0 \<le> b' \<and>
    lval ys' - b' * RADIX ^ (k + length xs) = lval ys - (lval xs * q + b) * RADIX ^ k \<and>
    (\<forall>j. j < k \<or> k + length xs \<le> j \<longrightarrow> ys' ! j = ys ! j)"
  using assms
proof (induction xs arbitrary: k b ys)
  case (Cons x xs)
  define pr where "pr = q * x + b"
  have pr: "0 \<le> pr" using Cons.prems by (simp add: pr_def)
  have yk: "0 \<le> ys ! k" "ys ! k < RADIX" "k \<noteq> n" "k < length ys" using Cons.prems by (auto simp: digits_but_def)
  have m: "0 \<le> pr mod RADIX" "pr mod RADIX < RADIX" "0 \<le> pr div RADIX" using pr by (auto simp: mv_defs pos_imp_zdiv_nonneg_iff)
  define y where "y = ys ! k - pr mod RADIX"
  define c where "c = (if y < 0 then 1 else (0::int))"
  define z where "z = y + c * RADIX"
  have "- RADIX < y" "y < RADIX" using yk m unfolding y_def by linarith+
  then have z: "0 \<le> z" "z < RADIX" by (auto simp: z_def c_def)
  have st: "sub_row xs q (k + 1) (pr div RADIX + c) (ys[k := z]) = (b', ys')"
    using Cons.prems(7) pr by (auto simp: pr_def [symmetric] sdiv_nonneg smod_nonneg RADIX_def y_def c_def z_def Let_def split: if_splits)
  have up: "digits_but n (ys[k := z])" using Cons.prems(4) z by (rule digits_but_upd)
  have IH: "length ys' = length ys" "digits_but n ys'" "ys' ! n = ys ! n" "0 \<le> b'"
    "lval ys' - b' * RADIX ^ (k + 1 + length xs) = lval (ys[k := z]) - (lval xs * q + (pr div RADIX + c)) * RADIX ^ (k + 1)"
    "\<forall>j. j < k + 1 \<or> k + 1 + length xs \<le> j \<longrightarrow> ys' ! j = ys[k := z] ! j"
    using Cons.IH [OF _ Cons.prems(2) _ up _ _ st] Cons.prems m yk by (auto simp: c_def)
  obtain d r where dr: "pr div RADIX = d" "pr mod RADIX = r" by blast
  have "pr = d * RADIX + r" using div_mult_mod_eq [of pr RADIX] dr by simp
  then have e: "(q * x + b) * RADIX ^ k = (d * RADIX + r) * RADIX ^ k" by (simp add: pr_def)
  have "lval (ys[k := z]) - (lval xs * q + (d + c)) * RADIX ^ (k + 1) = lval ys - (lval (x # xs) * q + b) * RADIX ^ k"
    using e yk by (simp add: lval_upd z_def y_def dr algebra_simps)
  then show ?case using IH dr by auto
qed auto

lemma add_row_ok:
  assumes "digits_ok xs" "0 \<le> c" "c \<le> 1" "digits_but n ys" "k + length xs \<le> n" "n < length ys"
    and "add_row xs k c ys = (c', ys')"
  shows "length ys' = length ys \<and> digits_but n ys' \<and> ys' ! n = ys ! n \<and> 0 \<le> c' \<and> c' \<le> 1 \<and>
    lval ys' + c' * RADIX ^ (k + length xs) = lval ys + (lval xs + c) * RADIX ^ k \<and>
    (\<forall>j. j < k \<or> k + length xs \<le> j \<longrightarrow> ys' ! j = ys ! j)"
  using assms
proof (induction xs arbitrary: k c ys)
  case (Cons x xs)
  have yk: "0 \<le> ys ! k" "ys ! k < RADIX" "k \<noteq> n" "k < length ys" using Cons.prems by (auto simp: digits_but_def)
  define y where "y = ys ! k + (x + c)"
  have y: "0 \<le> y" "y < 2 * RADIX" using yk Cons.prems by (auto simp: y_def)
  obtain d r where dr: "y div RADIX = d" "y mod RADIX = r" by blast
  have yd: "y = d * RADIX + r" using div_mult_mod_eq [of y RADIX] dr by simp
  have d: "0 \<le> d" "d < 2" "0 \<le> r" "r < RADIX"
    using y dr div_less_prod [of RADIX y 2] by (auto simp: mv_defs pos_imp_zdiv_nonneg_iff)
  have st: "add_row xs (k + 1) d (ys[k := r]) = (c', ys')"
    using Cons.prems(7) y dr by (simp add: y_def [symmetric] sdiv_nonneg smod_nonneg RADIX_def)
  have up: "digits_but n (ys[k := r])" using Cons.prems(4) d(3,4) by (rule digits_but_upd)
  have IH: "length ys' = length ys" "digits_but n ys'" "ys' ! n = ys ! n" "0 \<le> c'" "c' \<le> 1"
    "lval ys' + c' * RADIX ^ (k + 1 + length xs) = lval (ys[k := r]) + (lval xs + d) * RADIX ^ (k + 1)"
    "\<forall>j. j < k + 1 \<or> k + 1 + length xs \<le> j \<longrightarrow> ys' ! j = ys[k := r] ! j"
    using Cons.IH [OF _ _ _ up _ _ st] Cons.prems d yk by auto
  have e: "(ys ! k + (x + c)) * RADIX ^ k = (d * RADIX + r) * RADIX ^ k" using yd by (simp add: y_def)
  have "lval (ys[k := r]) + (lval xs + d) * RADIX ^ (k + 1) = lval ys + (lval (x # xs) + c) * RADIX ^ k"
    using e yk by (simp add: lval_upd algebra_simps)
  then show ?case using IH by auto
qed auto


section \<open>One quotient digit\<close>

lemma lval_zeros: "(\<forall>d \<in> set ds. d = 0) \<Longrightarrow> lval ds = 0"
  by (induction ds) auto

lemma lval_neg_iff:
  assumes "digits_but n ys" "n < length ys" "\<forall>j > n. j < length ys \<longrightarrow> ys ! j = 0"
  shows "ys ! n < 0 \<longleftrightarrow> lval ys < 0"
  and "lval ys = lval (take n ys) + RADIX ^ n * ys ! n"
proof -
  have z: "lval (drop (Suc n) ys) = 0"
  proof -
    have "\<forall>d \<in> set (drop (Suc n) ys). d = 0" using assms(3) by (auto simp: in_set_conv_nth)
    then show ?thesis by (rule lval_zeros)
  qed
  show eq: "lval ys = lval (take n ys) + RADIX ^ n * ys ! n"
    using lval_split [of n ys] assms(2) z by (simp add: Cons_nth_drop_Suc [symmetric])
  have t: "digits_ok (take n ys)" using assms(1) by (auto simp: digits_ok_conv digits_but_def)
  have b: "0 \<le> lval (take n ys)" "lval (take n ys) < RADIX ^ n" using lval_bounds [OF t] assms(2) by auto
  have R: "0 < RADIX ^ n" by (simp add: mv_defs)
  show "ys ! n < 0 \<longleftrightarrow> lval ys < 0"
  proof
    assume "ys ! n < 0"
    then have "RADIX ^ n * ys ! n \<le> RADIX ^ n * (- 1)" using R by (intro mult_left_mono) auto
    with b eq show "lval ys < 0" by simp
  next
    assume l: "lval ys < 0"
    show "ys ! n < 0"
    proof (rule ccontr)
      assume "\<not> ys ! n < 0"
      then have "0 \<le> RADIX ^ n * ys ! n" using R by (intro mult_nonneg_nonneg) auto
      with b eq l show False by simp
    qed
  qed
qed

lemma add_back_ok:
  assumes xx: "digits_ok xx" "length xx = 5" "0 < lval xx"
    and "digits_but (i + 5) ys" "i + 5 < length ys" "\<forall>j > i + 5. j < length ys \<longrightarrow> ys ! j = 0" "lval ys < lval xx * RADIX ^ i"
  shows "\<exists>ys' q'. add_back xx i ys q = Some (ys', q') \<and> length ys' = length ys \<and> digits_ok ys' \<and>
    lval ys' = lval ys + (q - q') * (lval xx * RADIX ^ i) \<and> 0 \<le> lval ys' \<and> lval ys' < lval xx * RADIX ^ i"
  using assms(4-)
proof (induction "nat (- lval ys)" arbitrary: ys q rule: less_induct)
  case less
  note neg = lval_neg_iff [OF less.prems(1-3)]
  have X: "0 < lval xx * RADIX ^ i" using xx by (simp add: mv_defs)
  show ?case
  proof (cases "ys ! (i + 5) < 0")
    case False
    then have nn: "0 \<le> lval ys" "0 \<le> ys ! (i + 5)" using neg(1) by auto
    have "lval xx < RADIX ^ 5" using lval_bounds [OF xx(1)] xx(2) by simp
    then have "lval xx * RADIX ^ i < RADIX ^ 5 * RADIX ^ i" by (intro mult_strict_right_mono) (auto simp: mv_defs)
    then have l: "lval ys < RADIX ^ (i + 5)" using less.prems(4) by (simp add: power_add mult.commute)
    have t: "digits_ok (take (i + 5) ys)" using less.prems(1) by (auto simp: digits_ok_conv digits_but_def)
    have "RADIX ^ (i + 5) * ys ! (i + 5) < RADIX ^ (i + 5) * 1" using l neg(2) lval_bounds [OF t] by simp
    then have "ys ! (i + 5) < 1" by (simp add: mv_defs)
    then have "digits_ok ys" using nn less.prems(1) by (auto simp: digits_ok_conv digits_but_def RADIX_def)
    then show ?thesis using False nn less.prems(4) by (subst add_back.simps) simp
  next
    case True
    obtain c zs where cz: "add_row xx i 0 ys = (c, zs)" by fastforce
    define ws where "ws = zs[i + 5 := zs ! (i + 5) + c]"
    note R = add_row_ok [OF xx(1) _ _ less.prems(1) _ less.prems(2) cz, simplified xx(2)]
    have lw: "lval ws = lval ys + lval xx * RADIX ^ i"
      using R less.prems(2) by (simp add: ws_def lval_upd)
    have W: "digits_but (i + 5) ws" "i + 5 < length ws" "\<forall>j > i + 5. j < length ws \<longrightarrow> ws ! j = 0" "length ws = length ys"
      using R less.prems(2,3) by (auto simp: ws_def digits_but_top)
    have "lval ys < 0" using True neg(1) by simp
    then have m: "nat (- lval ws) < nat (- lval ys)" "lval ws < lval xx * RADIX ^ i" using lw X by auto
    obtain ys' q' where I: "add_back xx i ws (q - 1) = Some (ys', q')" "length ys' = length ws" "digits_ok ys'"
      "lval ys' = lval ws + (q - 1 - q') * (lval xx * RADIX ^ i)" "0 \<le> lval ys'" "lval ys' < lval xx * RADIX ^ i"
      using less.hyps [OF m(1) W(1-3) m(2), of "q - 1"] by blast
    have "add_back xx i ys q = Some (ys', q')"
      using True I(1) by (subst add_back.simps) (simp add: cz ws_def)
    moreover have "lval ys' = lval ys + (q - q') * (lval xx * RADIX ^ i)" using I(4) lw by (simp add: algebra_simps)
    ultimately show ?thesis using I W(4) by auto
  qed
qed


lemma div_step_ok:
  assumes xx: "digits_ok xx" "length xx = 5" "0 < xx ! 4" and ys: "digits_ok ys" "length ys = 10" and i: "i < 5"
    and V: "lval ys < lval xx * RADIX ^ Suc i"
  shows "\<exists>ys' q. div_step xx i ys = Some (ys', q) \<and> digits_ok ys' \<and> length ys' = 10 \<and> 0 \<le> q \<and> q < RADIX \<and>
    lval ys' = lval ys - q * (lval xx * RADIX ^ i) \<and> lval ys' < lval xx * RADIX ^ i"
proof -
  define X V where "X = lval xx" and "V = lval ys"
  have x4: "xx ! 4 * RADIX ^ 4 \<le> X" using lval_digit_le [OF xx(1), of 4] xx(2) by (simp add: X_def)
  have X5: "X < RADIX ^ 5" using lval_bounds [OF xx(1)] xx(2) by (simp add: X_def)
  have R: "0 < RADIX ^ k" for k by (simp add: mv_defs)
  have Xp: "0 < X" using x4 mult_pos_pos [OF xx(3) R [of 4]] by linarith
  have V0: "0 \<le> V" using lval_bounds [OF ys(1)] by (simp add: V_def)
  have "X * RADIX ^ Suc i < RADIX ^ 5 * RADIX ^ Suc i" using X5 R by (intro mult_strict_right_mono)
  also have "\<dots> = RADIX ^ (i + 6)" by (simp add: power_add eval_nat_numeral)
  finally have V6: "V < RADIX ^ (i + 6)" using V by (simp add: X_def V_def)
  have zero: "\<forall>j > i + 5. j < length ys \<longrightarrow> ys ! j = 0"
  proof (intro allI impI)
    fix j assume j: "i + 5 < j" "j < length ys"
    have "RADIX ^ (i + 6) \<le> RADIX ^ j" using j by (intro power_increasing) (auto simp: mv_defs)
    with V6 show "ys ! j = 0" using j by (intro lval_top_zero [OF ys(1)]) (auto simp: V_def)
  qed
  have dg: "0 \<le> ys ! j" "ys ! j < RADIX" if "j < 10" for j using ys that by (auto simp: digits_ok_conv)
  have db: "digits_but (i + 5) ys" using ys(1) by (auto simp: digits_ok_conv digits_but_def)
  define h where "h = ys ! (i + 5) * RADIX + ys ! (i + 4)"
  have h0: "0 \<le> h" using dg [of "i + 5"] dg [of "i + 4"] i by (simp add: h_def mv_defs)
  have Vh: "V < (h + 1) * RADIX ^ (i + 4)"
  proof -
    have "V = lval (take (i + 5) ys) + RADIX ^ (i + 5) * ys ! (i + 5)"
      using lval_neg_iff(2) [OF db _ zero] i ys(2) by (simp add: V_def)
    moreover have "lval (take (i + 5) ys) = lval (take (i + 4) ys) + RADIX ^ (i + 4) * ys ! (i + 4)"
    proof -
      have "i + 5 = Suc (i + 4)" by simp
      then have "take (i + 5) ys = take (i + 4) ys @ [ys ! (i + 4)]"
        using take_Suc_conv_app_nth [of "i + 4" ys] i ys(2) by (simp add: add.commute)
      then show ?thesis using i ys(2) by (simp add: lval_append)
    qed
    moreover have "lval (take (i + 4) ys) < RADIX ^ (i + 4)"
      using lval_bounds [of "take (i + 4) ys"] ys i by (auto simp: digits_ok_conv)
    moreover have "RADIX ^ (i + 5) = RADIX * RADIX ^ (i + 4)" by (simp add: eval_nat_numeral)
    ultimately show ?thesis by (simp add: h_def algebra_simps)
  qed
  define q where "q = h div (xx ! 4)"
  have q0: "0 \<le> q" using h0 xx(3) by (simp add: q_def pos_imp_zdiv_nonneg_iff)
  have "h = q * xx ! 4 + h mod xx ! 4" unfolding q_def by (rule div_mult_mod_eq [symmetric])
  then have "h < (q + 1) * xx ! 4" using pos_mod_bound [OF xx(3), of h] unfolding distrib_right by linarith
  then have "(h + 1) * RADIX ^ (i + 4) \<le> (q + 1) * xx ! 4 * RADIX ^ (i + 4)" using less_imp_le [OF R] by (intro mult_right_mono) auto
  also have "\<dots> = (q + 1) * (xx ! 4 * RADIX ^ 4) * RADIX ^ i" by (simp add: power_add)
  also have "\<dots> \<le> (q + 1) * X * RADIX ^ i" using x4 q0 R by (intro mult_right_mono mult_left_mono) (auto intro: less_imp_le)
  finally have est: "V - q * (X * RADIX ^ i) < X * RADIX ^ i" using Vh by (simp add: algebra_simps)
  show ?thesis
  proof (cases "q = 0")
    case True
    then have "div_step xx i ys = Some (ys, 0)"
      using h0 xx(3) by (simp add: div_step_def h_def [symmetric] sdiv_nonneg q_def)
    then show ?thesis using True est ys by (simp add: V_def X_def RADIX_def)
  next
    case False
    obtain b zs where bz: "sub_row xx q i 0 ys = (b, zs)" by fastforce
    have i10: "i + 5 < length ys" using i ys by simp
    note S = sub_row_ok [OF xx(1) q0 _ db _ i10 bz, simplified xx(2)]
    define ws where "ws = zs[i + 5 := zs ! (i + 5) - b]"
    have lw: "lval ws = V - q * (X * RADIX ^ i)" using S i10 by (simp add: ws_def lval_upd V_def X_def algebra_simps)
    have W: "digits_but (i + 5) ws" "i + 5 < length ws" "\<forall>j > i + 5. j < length ws \<longrightarrow> ws ! j = 0" "length ws = 10"
      using S i10 zero ys(2) by (auto simp: ws_def digits_but_top)
    obtain ys' q' where A: "add_back xx i ws q = Some (ys', q')" "length ys' = length ws" "digits_ok ys'"
      "lval ys' = lval ws + (q - q') * (X * RADIX ^ i)" "0 \<le> lval ys'" "lval ys' < X * RADIX ^ i"
      using add_back_ok [OF xx(1,2) _ W(1-3), of q] Xp est lw by (auto simp: X_def)
    have st: "div_step xx i ys = Some (ys', q')"
      using False A(1) h0 xx(3) bz by (simp add: div_step_def h_def [symmetric] sdiv_nonneg q_def ws_def)
    have lv: "lval ys' = V - q' * (X * RADIX ^ i)" using A(4) lw by (simp add: algebra_simps)
    have XR: "0 < X * RADIX ^ i" using Xp R by simp
    have "q' * (X * RADIX ^ i) < RADIX * (X * RADIX ^ i)" using lv A(5) V by (simp add: V_def X_def algebra_simps)
    then have "q' < RADIX" using XR by (simp only: mult_less_cancel_right_pos)
    moreover have "- 1 * (X * RADIX ^ i) < q' * (X * RADIX ^ i)" using lv A(6) V0 by simp
    then have "- 1 < q'" using XR by (simp only: mult_less_cancel_right_pos)
    ultimately show ?thesis using st A lv W(4) by (auto simp: V_def X_def)
  qed
qed

text \<open>The whole loop: the digits found are the quotient.\<close>

lemma div_loop_ok:
  assumes xx: "digits_ok xx" "length xx = 5" "0 < xx ! 4" and "digits_ok ys" "length ys = 10" "n \<le> 5"
    and "lval ys < lval xx * RADIX ^ n" "digits_ok qs"
  shows "\<exists>qx. div_loop xx n ys qs = Some qx \<and> digits_ok qx \<and> length qx = n + length qs \<and>
    (\<exists>t. 0 \<le> t \<and> t < lval xx \<and> lval ys + lval qs * (lval xx * RADIX ^ n) = lval qx * lval xx + t)"
  using assms(4-)
proof (induction n arbitrary: ys qs)
  case 0
  then show ?case using lval_bounds [OF 0(1)] by auto
next
  case (Suc i)
  obtain zs q where st: "div_step xx i ys = Some (zs, q)" "digits_ok zs" "length zs = 10" "0 \<le> q" "q < RADIX"
    "lval zs = lval ys - q * (lval xx * RADIX ^ i)" "lval zs < lval xx * RADIX ^ i"
    using div_step_ok [OF xx Suc.prems(1,2) _ Suc.prems(4)] Suc.prems(3) by auto
  have "digits_ok (q # qs)" using Suc.prems st by simp
  from Suc.IH [OF st(2,3) _ st(7) this] Suc.prems(3)
  obtain qx t where I: "div_loop xx i zs (q # qs) = Some qx" "digits_ok qx" "length qx = Suc i + length qs" "0 \<le> t" "t < lval xx"
    "lval zs + lval (q # qs) * (lval xx * RADIX ^ i) = lval qx * lval xx + t" by auto
  have "lval ys + lval qs * (lval xx * RADIX ^ Suc i) = lval qx * lval xx + t" using I(6) st(6) by (simp add: algebra_simps)
  then show ?case using I st(1) by auto
qed


section \<open>The quotient, cut to 18 digits\<close>

lemma break_ok:
  assumes "limbs y1 y0"
  shows "digits_ok (break100 y0 y1)" "lval (break100 y0 y1) = 100 * join y1 y0" "length (break100 y0 y1) = 5"
    and "digits_ok (break10 y0 y1)" "lval (break10 y0 y1) = 10 * join y1 y0" "length (break10 y0 y1) = 5"
    and "break100 y0 y1 ! 4 = y1 div 100000"
proof -
  have y: "0 \<le> y0" "y0 < 1000000000" "0 \<le> y1" "y1 < 1000000000" using assms by (auto simp: limbs_def mv_defs)
  have e: "break100 y0 y1 = [y0 mod 100 * 100, y0 div 100 mod 10000, y1 mod 10 * 1000 + y0 div 1000000, y1 div 10 mod 10000, y1 div 100000]"
    using y by (simp add: break100_def mv_defs sdiv_nonneg smod_nonneg pos_imp_zdiv_nonneg_iff)
  have f: "break10 y0 y1 = [y0 mod 1000 * 10, y0 div 1000 mod 10000, y1 mod 100 * 100 + y0 div 10000000, y1 div 100 mod 10000, y1 div 1000000]"
    using y by (simp add: break10_def mv_defs sdiv_nonneg smod_nonneg pos_imp_zdiv_nonneg_iff)
  have b: "y0 mod 100 \<le> 99" "y1 mod 10 \<le> 9" "y0 div 1000000 \<le> 999" "y1 div 100000 \<le> 9999"
    "y0 mod 1000 \<le> 999" "y1 mod 100 \<le> 99" "y0 div 10000000 \<le> 99" "y1 div 1000000 \<le> 999" using y by auto
  have nn: "0 \<le> y0 div 1000000" "0 \<le> y0 div 10000000" "0 \<le> y1 div 100000" "0 \<le> y1 div 1000000" using y by (auto simp: pos_imp_zdiv_nonneg_iff)
  have mm: "0 \<le> y0 mod 100" "0 \<le> y0 mod 1000" "0 \<le> y1 mod 10" "0 \<le> y1 mod 100" "0 \<le> y0 div 100 mod 10000" "y0 div 100 mod 10000 < 10000"
    "0 \<le> y0 div 1000 mod 10000" "y0 div 1000 mod 10000 < 10000" "0 \<le> y1 div 10 mod 10000" "y1 div 10 mod 10000 < 10000"
    "0 \<le> y1 div 100 mod 10000" "y1 div 100 mod 10000 < 10000" by simp_all
  have "digits_ok [p * 100, q, s * 1000 + r, t, w]"
    if "0 \<le> p" "p \<le> 99" "0 \<le> q" "q < 10000" "0 \<le> s" "s \<le> 9" "0 \<le> r" "r \<le> 999" "0 \<le> t" "t < 10000" "0 \<le> w" "w \<le> 9999"
    for p q s r t w :: int using that by (simp add: RADIX_def)
  from this [OF mm(1) b(1) mm(5,6,3) b(2) nn(1) b(3) mm(9,10) nn(3) b(4)] show "digits_ok (break100 y0 y1)" unfolding e .
  have "digits_ok [p * 10, q, s * 100 + r, t, w]"
    if "0 \<le> p" "p \<le> 999" "0 \<le> q" "q < 10000" "0 \<le> s" "s \<le> 99" "0 \<le> r" "r \<le> 99" "0 \<le> t" "t < 10000" "0 \<le> w" "w \<le> 999"
    for p q s r t w :: int using that by (simp add: RADIX_def)
  from this [OF mm(2) b(5) mm(7,8,4) b(6) nn(2) b(7) mm(11,12) nn(4) b(8)] show "digits_ok (break10 y0 y1)" unfolding f .
  have "p * 100 + 10000 * (q + 10000 * (s * 1000 + r + 10000 * (t + 10000 * (w + 10000 * 0)))) = 100 * (b * 1000000000 + a)"
    if "p + 100 * q + 1000000 * r = a" "s + 10 * t + 100000 * w = b" for p q r s t w a b :: int
    unfolding that [symmetric] by (simp add: algebra_simps)
  moreover have "y0 mod 100 + 100 * (y0 div 100 mod 10000) + 1000000 * (y0 div 1000000) = y0"
    "y1 mod 10 + 10 * (y1 div 10 mod 10000) + 100000 * (y1 div 100000) = y1"
    by (rule split_digits; simp)+
  ultimately show "lval (break100 y0 y1) = 100 * join y1 y0" unfolding e join_def lval.simps RADIX_def MANT_HI_def by blast
  have "p * 10 + 10000 * (q + 10000 * (s * 100 + r + 10000 * (t + 10000 * (w + 10000 * 0)))) = 10 * (b * 1000000000 + a)"
    if "p + 1000 * q + 10000000 * r = a" "s + 100 * t + 1000000 * w = b" for p q r s t w a b :: int
    unfolding that [symmetric] by (simp add: algebra_simps)
  moreover have "y0 mod 1000 + 1000 * (y0 div 1000 mod 10000) + 10000000 * (y0 div 10000000) = y0"
    "y1 mod 100 + 100 * (y1 div 100 mod 10000) + 1000000 * (y1 div 1000000) = y1"
    by (rule split_digits; simp)+
  ultimately show "lval (break10 y0 y1) = 10 * join y1 y0" unfolding f join_def lval.simps RADIX_def MANT_HI_def by blast
  show "length (break100 y0 y1) = 5" "length (break10 y0 y1) = 5" "break100 y0 y1 ! 4 = y1 div 100000" by (simp_all add: e f)
qed

lemma assemble:
  assumes "length qx = 5" "digits_ok qx"
  shows "limbs ((qx ! 4 * RADIX + qx ! 3) * 10 + qx ! 2 sdiv 1000) (((qx ! 2 smod 1000) * RADIX + qx ! 1) * 100 + qx ! 0 sdiv 100) \<and>
    join ((qx ! 4 * RADIX + qx ! 3) * 10 + qx ! 2 sdiv 1000) (((qx ! 2 smod 1000) * RADIX + qx ! 1) * 100 + qx ! 0 sdiv 100) = lval qx div 100"
proof -
  obtain a b c d e where q: "qx = [a, b, c, d, e]" using assms(1) by (auto simp: length_Suc_conv numeral_eq_Suc)
  have dg: "0 \<le> a" "a < 10000" "0 \<le> b" "b < 10000" "0 \<le> c" "c < 10000" "0 \<le> d" "d < 10000" "0 \<le> e" "e < 10000"
    using assms(2) by (auto simp: q RADIX_def)
  have cut: "(RADIX ^ 4 * lval qx) div 10 ^ 18 = ((e * RADIX + d) * 10 + c div 1000) * 10 ^ 9 + ((c mod 1000) * RADIX + b) * 100 + a div 100"
    using cut_digits(1) [of 0 a b c d e] by (simp add: q RADIX_def)
  have "(RADIX ^ 4 * lval qx) div 10 ^ 18 = lval qx div 100"
    using div_mult_mult1 [of "10 ^ 16" "lval qx" 100] by (simp add: RADIX_def)
  then have j: "join ((e * RADIX + d) * 10 + c div 1000) ((c mod 1000 * RADIX + b) * 100 + a div 100) = lval qx div 100"
    using cut by (simp add: join_def mv_defs)
  obtain r s t where rst: "c div 1000 = r" "c mod 1000 = s" "a div 100 = t" by blast
  have b: "0 \<le> r" "r \<le> 9" "0 \<le> s" "s \<le> 999" "0 \<le> t" "t \<le> 99" using dg rst by auto
  have l: "limbs ((e * RADIX + d) * 10 + r) ((s * RADIX + b) * 100 + t)"
    using b dg by (auto simp: limbs_def mv_defs)
  show ?thesis using j l dg unfolding rst q by (simp add: sdiv_nonneg smod_nonneg rst eval_nat_numeral)
qed

lemma eb_div_ok:
  assumes x: "limbs x1 x0" "MANT_LO \<le> x1" and y: "limbs y1 y0" "MANT_LO \<le> y1"
  shows "\<exists>scale q0 q1. eb_div x0 x1 y0 y1 = Some (scale, q0, q1) \<and> limbs q1 q0 \<and> MANT_LO \<le> q1 \<and>
    (if join x1 x0 \<le> join y1 y0 then scale = 1 \<and> join q1 q0 = join y1 y0 * 10 ^ 17 div join x1 x0
     else scale = 0 \<and> join q1 q0 = join y1 y0 * 10 ^ 18 div join x1 x0)"
proof -
  define X Y where "X = join x1 x0" and "Y = join y1 y0"
  have X: "10 ^ 17 \<le> X" "X < 10 ^ 18" and Y: "10 ^ 17 \<le> Y" "Y < 10 ^ 18"
    using limbs_join [OF x(1)] limbs_join [OF y(1)] join_norm [of x0 x1] join_norm [of y0 y1] x y by (auto simp: limbs_def X_def Y_def)
  have le: "x1 < y1 \<or> (x1 = y1 \<and> x0 \<le> y0) \<longleftrightarrow> X \<le> Y" using join_less [OF y(1) x(1)] by (auto simp: X_def Y_def not_less [symmetric])
  define f where "f = (if X \<le> Y then 10 else 100 :: int)"
  define ys where "ys = replicate 5 0 @ (if X \<le> Y then break10 y0 y1 else break100 y0 y1)"
  define xx where "xx = break100 x0 x1"
  note BX = break_ok [OF x(1)] and BY = break_ok [OF y(1)]
  have xx: "digits_ok xx" "length xx = 5" "0 < xx ! 4" "lval xx = 100 * X"
    using BX x by (auto simp: xx_def X_def limbs_def mv_defs pos_imp_zdiv_pos_iff)
  have ys: "digits_ok ys" "length ys = 10" "lval ys = f * Y * RADIX ^ 5"
    using BY by (auto simp: ys_def f_def Y_def lval_append lval_zeros digits_ok_def RADIX_def)
  have fY: "f * Y < 100 * X" using X Y by (auto simp: f_def)
  then have "lval ys < lval xx * RADIX ^ 5" unfolding xx ys by (intro mult_strict_right_mono) (auto simp: mv_defs)
  from div_loop_ok [OF xx(1-3) ys(1,2) _ this, of "[]"]
  obtain qx t where L: "div_loop xx 5 ys [] = Some qx" "digits_ok qx" "length qx = 5" "0 \<le> t" "t < 100 * X"
    "f * Y * RADIX ^ 5 = lval qx * (100 * X) + t" by (auto simp: xx ys)
  have "lval qx = f * Y * RADIX ^ 5 div (100 * X)" using L X by (intro div_eq_of_bounds [symmetric]) (auto simp: algebra_simps)
  then have "lval qx div 100 = f * Y * RADIX ^ 5 div (100 * X * 100)" by (simp only: zdiv_zmult2_eq)
  also have "RADIX ^ 5 = 10 ^ 20" by (simp add: RADIX_def)
  also have "f * Y * 10 ^ 20 div (100 * X * 100) = (if X \<le> Y then Y * 10 ^ 17 div X else Y * 10 ^ 18 div X)"
  proof (cases "X \<le> Y")
    case True
    have "f * Y * 10 ^ 20 div (100 * X * 100) = 10 ^ 4 * (Y * 10 ^ 17) div (10 ^ 4 * X)" using True by (simp add: f_def)
    then show ?thesis using True by (simp add: mult.commute)
  next
    case False
    have "f * Y * 10 ^ 20 div (100 * X * 100) = 10 ^ 4 * (Y * 10 ^ 18) div (10 ^ 4 * X)" using False by (simp add: f_def)
    then show ?thesis using False by (simp add: mult.commute)
  qed
  finally have q: "lval qx div 100 = (if X \<le> Y then Y * 10 ^ 17 div X else Y * 10 ^ 18 div X)" .
  have "10 ^ 17 \<le> lval qx div 100"
  proof (cases "X \<le> Y")
    case True
    then have "10 ^ 17 * X \<le> Y * 10 ^ 17" by simp
    then show ?thesis using True X unfolding q by (simp add: zdiv_mono1 [of "10 ^ 17 * X" "Y * 10 ^ 17" X, simplified])
  next
    case False
    have "10 ^ 17 * X \<le> Y * 10 ^ 18" using X Y by simp
    then show ?thesis using False X unfolding q by (simp add: zdiv_mono1 [of "10 ^ 17 * X" "Y * 10 ^ 18" X, simplified])
  qed
  define q0 q1 where "q0 = ((qx ! 2 smod 1000) * RADIX + qx ! 1) * 100 + qx ! 0 sdiv 100"
    and "q1 = (qx ! 4 * RADIX + qx ! 3) * 10 + qx ! 2 sdiv 1000"
  have A: "limbs q1 q0" "join q1 q0 = lval qx div 100" using assemble [OF L(3,2)] by (simp_all add: q0_def q1_def)
  have "MANT_LO \<le> q1" using A \<open>10 ^ 17 \<le> lval qx div 100\<close> join_norm [of q0 q1] by (simp add: limbs_def)
  moreover have "eb_div x0 x1 y0 y1 = Some (if X \<le> Y then 1 else 0, q0, q1)"
    using xx(3) L(1) unfolding eb_div_def Let_def le ys_def [symmetric] xx_def [symmetric] by (simp add: q0_def q1_def)
  ultimately show ?thesis using A q by (auto simp: X_def Y_def)
qed

end
