(* ===== verification/EbInt.thy ===== *)
theory EbInt
  imports Complex_Main EbDiv
begin

text \<open>
  The integer fast paths of \<open>eb_muldiv.c\<close>, which compute in C \<open>double\<close>: \<open>eb_int_mul\<close>,
  \<open>eb_mvint_div\<close>, \<open>eb_int_div\<close>, and \<open>eb_int_mod\<close>.  Doubles are modelled as rationals with the
  rounding of IEEE 754 binary64 (53 significant bits, ties to even) after every operation; all
  values here are far from the ends of the exponent range.
\<close>

section \<open>Binary64 rounding\<close>

fun nbits :: "nat \<Rightarrow> nat" where
  "nbits n = (if n = 0 then 0 else Suc (nbits (n div 2)))"

declare nbits.simps [simp del]

definition ilog2 :: "rat \<Rightarrow> int" where
  "ilog2 x =
    (let (a, b) = quotient_of \<bar>x\<bar>;
         k = int (nbits (nat a)) - int (nbits (nat b))
     in if \<bar>x\<bar> < 2 powi k then k - 1 else k)"

definition round_even :: "rat \<Rightarrow> int" where
  "round_even x =
    (let f = \<lfloor>x\<rfloor>; d = x - of_int f
     in if d < 1 / 2 then f else if 1 / 2 < d then f + 1 else if even f then f else f + 1)"

definition dbl :: "rat \<Rightarrow> rat" where
  "dbl x = (if x = 0 then 0 else let u = 2 powi (ilog2 x - 52) in of_int (round_even (x / u)) * u)"

text \<open>The conversion of a double to an integer truncates towards zero.\<close>

definition ctrunc :: "rat \<Rightarrow> int" where
  "ctrunc x = (if 0 \<le> x then \<lfloor>x\<rfloor> else - \<lfloor>- x\<rfloor>)"

section \<open>The fast paths\<close>

definition FLO_HI :: rat where "FLO_HI = 1000000000"
definition FLO_BIAS :: rat where "FLO_BIAS = 1000"

text \<open>\<open>DFLOAT2MINT\<close>: \<open>(X[0], X[1])\<close>.\<close>

definition DFLOAT2MINT :: "rat \<Rightarrow> int \<times> int" where
  "DFLOAT2MINT df = (let x1 = ctrunc df in (ctrunc (dbl (dbl (df - of_int x1) * FLO_HI)), x1))"

text \<open>\<open>None\<close> is the result TRUE, promotion needed; \<open>Some (p[0], p[1])\<close> is FALSE with the result.\<close>

definition eb_int_mul :: "int \<Rightarrow> int \<Rightarrow> (int \<times> int) option" where
  "eb_int_mul v1 u1 =
    (let pf = dbl (dbl (of_int u1 * of_int v1) / FLO_BIAS)
     in if pf < FLO_HI \<and> pf > - FLO_HI then
          let (t0, t1) = DFLOAT2MINT pf in if t0 = 0 then Some (t0, t1) else None
        else None)"

definition eb_mvint_div :: "int \<Rightarrow> int \<Rightarrow> (int \<times> int) option" where
  "eb_mvint_div v u =
    (let qf = dbl (dbl (of_int v * FLO_BIAS) / of_int u)
     in if qf < FLO_HI \<and> qf > - FLO_HI then
          let (t0, t1) = DFLOAT2MINT qf in if t0 = 0 then Some (t0, t1) else None
        else None)"

definition eb_int_div :: "int \<Rightarrow> int \<Rightarrow> (int \<times> int) option" where
  "eb_int_div v1 u1 =
    (let qf = dbl (dbl (of_int v1 * FLO_BIAS) / of_int u1)
     in if qf < FLO_HI \<and> qf > - FLO_HI then
          let (q0, q1) = DFLOAT2MINT qf in Some (q0, (q1 sdiv MV_BIAS) * MV_BIAS)
        else None)"

definition eb_int_mod :: "int \<Rightarrow> int \<Rightarrow> int" where
  "eb_int_mod v1 u1 =
    (if u1 = 0 \<or> v1 = 0 then 0
     else
       let quo = v1 sdiv u1;
           rat = (v1 \<noteq> quo * u1);
           neg = ((v1 < 0 \<and> u1 > 0) \<or> (v1 > 0 \<and> u1 < 0))
       in v1 - u1 * (quo - (if neg \<and> rat then 1 else 0)))"

section \<open>Rounding: error bound and exact cases\<close>

lemma nbits_bounds: "n \<noteq> 0 \<Longrightarrow> 2 ^ (nbits n - 1) \<le> n \<and> n < 2 ^ nbits n \<and> 1 \<le> nbits n"
proof (induction n rule: nbits.induct)
  case (1 n)
  show ?case
  proof (cases "n div 2 = 0")
    case True
    with 1 have "n = 1" by auto
    then show ?thesis by (simp add: nbits.simps)
  next
    case False
    with 1 have IH: "2 ^ (nbits (n div 2) - 1) \<le> n div 2" "n div 2 < 2 ^ nbits (n div 2)" "1 \<le> nbits (n div 2)" by auto
    have n: "nbits n = Suc (nbits (n div 2))" using 1 by (simp add: nbits.simps [of n])
    have "(2::nat) ^ nbits (n div 2) = 2 * 2 ^ (nbits (n div 2) - 1)" using IH(3) by (cases "nbits (n div 2)") auto
    then obtain p where p: "p = (2::nat) ^ (nbits (n div 2) - 1)" "2 ^ nbits (n div 2) = 2 * p" by simp
    have "p \<le> n div 2" "n div 2 < 2 * p" using IH p by auto
    then have "2 * p \<le> n" "n < 2 * (2 * p)" by linarith+
    then show ?thesis using p by (simp add: n)
  qed
qed

lemma ilog2_bounds:
  assumes "x \<noteq> 0"
  shows "2 powi (ilog2 x) \<le> \<bar>x\<bar>" "\<bar>x\<bar> < 2 powi (ilog2 x + 1)"
proof -
  obtain a b where q: "quotient_of \<bar>x\<bar> = (a, b)" by fastforce
  have b: "0 < b" using quotient_of_denom_pos [OF q] .
  have x: "\<bar>x\<bar> = of_int a / of_int b" using quotient_of_div [OF q] .
  have a: "0 < a" using assms x b by (smt (verit) divide_pos_neg of_int_pos of_int_0_less_iff zero_less_abs_iff zero_less_divide_iff of_int_less_0_iff)
  define la lb where "la = nbits (nat a)" and "lb = nbits (nat b)"
  have A: "2 ^ (la - 1) \<le> a" "a < 2 ^ la" "1 \<le> la" and B: "2 ^ (lb - 1) \<le> b" "b < 2 ^ lb" "1 \<le> lb"
    using nbits_bounds [of "nat a"] nbits_bounds [of "nat b"] a b by (auto simp: la_def lb_def le_nat_iff nat_less_iff)
  define k where "k = int la - int lb"
  have p: "(2::rat) powi (int la - 1) \<le> of_int a" "of_int a < (2::rat) powi int la"
    "(2::rat) powi (int lb - 1) \<le> of_int b" "of_int b < (2::rat) powi int lb"
  proof -
    have e: "(2::rat) powi int n = of_int (2 ^ n)" for n by simp
    have e1: "(2::rat) powi (int n - 1) = of_int (2 ^ (n - 1))" if "1 \<le> n" for n
      using e [of "n - 1"] that by (simp add: of_nat_diff)
    show "(2::rat) powi (int la - 1) \<le> of_int a" unfolding e1 [OF A(3)] of_int_le_iff by (rule A(1))
    show "(2::rat) powi (int lb - 1) \<le> of_int b" unfolding e1 [OF B(3)] of_int_le_iff by (rule B(1))
    show "of_int a < (2::rat) powi int la" unfolding e of_int_less_iff by (rule A(2))
    show "of_int b < (2::rat) powi int lb" unfolding e of_int_less_iff by (rule B(2))
  qed
  have lo: "2 powi (k - 1) \<le> \<bar>x\<bar>"
  proof -
    have "(2::rat) powi (k - 1) = 2 powi (int la - 1) / 2 powi int lb" by (simp add: k_def power_int_diff)
    also have "\<dots> \<le> of_int a / of_int b" using p a b by (intro frac_le) auto
    finally show ?thesis using x by simp
  qed
  have hi: "\<bar>x\<bar> < 2 powi (k + 1)"
  proof -
    have "of_int a / of_int b < (2::rat) powi int la / 2 powi (int lb - 1)" using p a by (intro frac_less) auto
    also have "\<dots> = 2 powi (k + 1)" by (simp add: k_def power_int_diff power_int_add)
    finally show ?thesis using x by simp
  qed
  show "2 powi (ilog2 x) \<le> \<bar>x\<bar>" "\<bar>x\<bar> < 2 powi (ilog2 x + 1)"
    using lo hi by (auto simp: ilog2_def q la_def [symmetric] lb_def [symmetric] k_def [symmetric] Let_def)
qed

lemma round_even_err: "\<bar>of_int (round_even x) - x\<bar> \<le> 1 / 2"
  unfolding round_even_def Let_def using floor_correct [of x] by (auto simp: field_simps)

lemma round_even_int: "round_even (of_int n) = n"
  by (simp add: round_even_def)

lemma dbl_err: "\<bar>dbl x - x\<bar> \<le> \<bar>x\<bar> / 2 ^ 53"
proof (cases "x = 0")
  case False
  define u where "u = (2::rat) powi (ilog2 x - 52)"
  have u: "0 < u" by (simp add: u_def)
  have "dbl x - x = (of_int (round_even (x / u)) - x / u) * u" using False u by (simp add: dbl_def u_def Let_def field_simps)
  then have "\<bar>dbl x - x\<bar> = \<bar>of_int (round_even (x / u)) - x / u\<bar> * u" using u by (simp add: abs_mult)
  also have "\<dots> \<le> 1 / 2 * u" using round_even_err u by (intro mult_right_mono) auto
  also have "\<dots> = 2 powi (ilog2 x) / 2 ^ 53" by (simp add: u_def power_int_diff)
  also have "\<dots> \<le> \<bar>x\<bar> / 2 ^ 53" using ilog2_bounds(1) [OF False] by (intro divide_right_mono) auto
  finally show ?thesis .
qed (simp add: dbl_def)

lemma dbl_int: "\<bar>n\<bar> < 2 ^ 53 \<Longrightarrow> dbl (of_int n) = of_int n"
proof (cases "n = 0")
  case False
  assume n: "\<bar>n\<bar> < 2 ^ 53"
  have "\<bar>of_int n :: rat\<bar> < 2 powi 53" using n by (simp add: power_int_def flip: of_int_abs)
  moreover have "(2::rat) powi (ilog2 (of_int n)) \<le> \<bar>of_int n\<bar>" using ilog2_bounds(1) False by simp
  ultimately have "(2::rat) powi (ilog2 (of_int n)) < 2 powi 53" by linarith
  then have k: "ilog2 (of_int n) < 53" using power_int_increasing [of 53 "ilog2 (of_int n)" "2::rat"] by linarith
  define u where "u = (2::rat) powi (ilog2 (of_int n) - 52)"
  have u: "of_int n / u = of_int (n * 2 ^ nat (52 - ilog2 (of_int n)))" "u \<noteq> 0"
    using k by (simp_all add: u_def power_int_def field_simps)
  then have r: "of_int (round_even (of_int n / u)) = of_int n / u" by (simp only: round_even_int)
  show ?thesis unfolding dbl_def Let_def u_def [symmetric] r using False u(2) by simp
qed (simp add: dbl_def)


lemma dbl_ge: "\<bar>x\<bar> * (1 - 1 / 2 ^ 53) \<le> \<bar>dbl x\<bar>"
  using dbl_err [of x] by (simp add: field_simps abs_if split: if_splits)

lemma dbl_sign: "0 \<le> dbl x \<longleftrightarrow> 0 \<le> x"
proof (cases "x = 0")
  case False
  have "\<bar>x\<bar> / 2 ^ 53 < \<bar>x\<bar>" using False by (simp add: field_simps)
  then show ?thesis using dbl_err [of x] by (auto simp: abs_if split: if_splits)
qed (simp add: dbl_def)

lemma ctrunc_int: "ctrunc (of_int m) = m"
proof (cases "0 \<le> m")
  case False
  then have "- of_int m = (of_int (- m) :: rat)" by simp
  then show ?thesis using False unfolding ctrunc_def by (simp only: floor_of_int) simp
qed (simp add: ctrunc_def)

section \<open>Quotients of integers, rounded\<close>

text \<open>
  An integer quotient with numerator below \<open>2^53\<close> is at least \<open>1/|u|\<close> away from every integer it
  does not equal, and the rounding error is smaller than that: rounding never crosses an integer.
\<close>

definition quot :: "int \<Rightarrow> int \<Rightarrow> rat \<Rightarrow> bool" where
  "quot N u x \<longleftrightarrow> \<bar>N\<bar> < 2 ^ 53 \<and> u \<noteq> 0 \<and> x = of_int N / of_int u"

lemma quotD:
  assumes "quot N u x"
  shows "\<bar>N\<bar> < 2 ^ 53" "u \<noteq> 0" "(0::rat) < of_int \<bar>u\<bar>" "\<bar>x\<bar> = of_int \<bar>N\<bar> / of_int \<bar>u\<bar>" "x = of_int N / of_int u"
  using assms by (auto simp: quot_def)

lemma quot_sdiv:
  assumes "quot N u x" "\<bar>N\<bar> div \<bar>u\<bar> \<noteq> 0"
  shows "N sdiv u = (if 0 \<le> x then \<bar>N\<bar> div \<bar>u\<bar> else - (\<bar>N\<bar> div \<bar>u\<bar>))"
proof -
  note D = quotD [OF assms(1)]
  have N: "N \<noteq> 0" using assms(2) by auto
  have "0 \<le> x \<longleftrightarrow> 0 < N * u" using N D(2) by (auto simp: D(5) zero_le_divide_iff zero_less_mult_iff)
  then have "sgn (N * u) = (if 0 \<le> x then 1 else - 1)" using N D(2) by (simp add: sgn_if)
  then show ?thesis by (simp add: signed_divide_int_def sgn_mult)
qed

lemma quot_err:
  assumes Q: "quot N u x"
  shows "\<bar>\<bar>dbl x\<bar> - \<bar>x\<bar>\<bar> \<le> of_int \<bar>N\<bar> / 2 ^ 53 / of_int \<bar>u\<bar>" "of_int \<bar>N\<bar> / (2::rat) ^ 53 < 1"
proof -
  have "\<bar>\<bar>dbl x\<bar> - \<bar>x\<bar>\<bar> \<le> \<bar>dbl x - x\<bar>" by (rule abs_triangle_ineq3)
  also have "\<dots> \<le> \<bar>x\<bar> / 2 ^ 53" by (rule dbl_err)
  finally show "\<bar>\<bar>dbl x\<bar> - \<bar>x\<bar>\<bar> \<le> of_int \<bar>N\<bar> / 2 ^ 53 / of_int \<bar>u\<bar>" by (simp add: quotD(4) [OF Q])
  have "(of_int \<bar>N\<bar> :: rat) < of_int (2 ^ 53)" using quotD(1) [OF Q] by (simp only: of_int_less_iff)
  then show "of_int \<bar>N\<bar> / (2::rat) ^ 53 < 1" by simp
qed

lemma quot_gap:
  assumes Q: "quot N u x" and ne: "\<bar>x\<bar> \<noteq> of_int k"
  shows "1 / of_int \<bar>u\<bar> \<le> \<bar>\<bar>x\<bar> - of_int k\<bar>"
proof -
  note up = quotD(3) [OF Q]
  have eq: "\<bar>x\<bar> - of_int k = of_int (\<bar>N\<bar> - k * \<bar>u\<bar>) / of_int \<bar>u\<bar>" using up by (simp add: quotD(4) [OF Q] field_simps)
  have "\<bar>N\<bar> - k * \<bar>u\<bar> \<noteq> 0"
  proof
    assume "\<bar>N\<bar> - k * \<bar>u\<bar> = 0"
    then show False using ne eq by (simp only: of_int_0)
  qed
  then have "1 \<le> \<bar>\<bar>N\<bar> - k * \<bar>u\<bar>\<bar>" by linarith
  then have "(1::rat) \<le> of_int \<bar>\<bar>N\<bar> - k * \<bar>u\<bar>\<bar>" by (simp only: of_int_1_le_iff)
  then have "1 / of_int \<bar>u\<bar> \<le> of_int \<bar>\<bar>N\<bar> - k * \<bar>u\<bar>\<bar> / (of_int \<bar>u\<bar> :: rat)" using up by (intro divide_right_mono) auto
  also have "\<dots> = \<bar>\<bar>x\<bar> - of_int k\<bar>" unfolding eq by (simp add: abs_divide)
  finally show ?thesis .
qed

lemma quot_cmp:
  assumes Q: "quot N u x" and k: "0 \<le> k" "k < 2 ^ 53"
  shows "of_int k \<le> \<bar>dbl x\<bar> \<longleftrightarrow> of_int k \<le> \<bar>x\<bar>"
proof (cases "\<bar>x\<bar> = of_int k")
  case True
  then have "x = of_int k \<or> x = of_int (- k)" by (auto simp: abs_if split: if_splits)
  then have "dbl x = x" using k dbl_int [of k] dbl_int [of "- k"] by auto
  then show ?thesis by simp
next
  case False
  note up = quotD(3) [OF Q]
  have "of_int \<bar>N\<bar> / 2 ^ 53 / of_int \<bar>u\<bar> < 1 / (of_int \<bar>u\<bar> :: rat)" using quot_err(2) [OF Q] up by (intro divide_strict_right_mono) auto
  with quot_err(1) [OF Q] quot_gap [OF Q False] have "\<bar>\<bar>dbl x\<bar> - \<bar>x\<bar>\<bar> < \<bar>\<bar>x\<bar> - of_int k\<bar>" by linarith
  then show ?thesis by (auto simp: abs_if split: if_splits)
qed

lemma quot_range: "quot N u x \<Longrightarrow> \<bar>dbl x\<bar> < 10 ^ 9 \<longleftrightarrow> \<bar>x\<bar> < 10 ^ 9"
  using quot_cmp [of N u x "10 ^ 9"] by (simp add: not_le [symmetric])

lemma quot_trunc:
  assumes Q: "quot N u x" and b: "\<bar>x\<bar> < 10 ^ 9"
  shows "ctrunc (dbl x) = N sdiv u"
proof -
  define k where "k = \<bar>N\<bar> div \<bar>u\<bar>"
  have fl: "\<lfloor>\<bar>x\<bar>\<rfloor> = k" unfolding quotD(4) [OF Q] k_def by (rule floor_divide_of_int_eq)
  have k: "of_int k \<le> \<bar>x\<bar>" "\<not> of_int (k + 1) \<le> \<bar>x\<bar>" using floor_correct [of "\<bar>x\<bar>"] by (simp_all add: fl)
  have k0: "0 \<le> k" using quotD(2) [OF Q] by (simp add: k_def pos_imp_zdiv_nonneg_iff)
  have "(of_int k :: rat) < of_int (10 ^ 9)" using k(1) b by simp
  then have k9: "k < 10 ^ 9" by (simp only: of_int_less_iff)
  have "of_int k \<le> \<bar>dbl x\<bar>" using quot_cmp [OF Q, of k] k(1) k0 k9 by simp
  moreover have "\<bar>dbl x\<bar> < of_int (k + 1)" using quot_cmp [OF Q, of "k + 1"] k(2) k0 k9 by (simp add: not_le)
  ultimately have "\<lfloor>\<bar>dbl x\<bar>\<rfloor> = k" by (intro floor_unique) simp_all
  then have c: "ctrunc (dbl x) = (if 0 \<le> x then k else - k)" using dbl_sign [of x] by (auto simp: ctrunc_def abs_if split: if_splits)
  show ?thesis
  proof (cases "k = 0")
    case True
    then show ?thesis unfolding c by (simp add: signed_divide_int_def k_def)
  next
    case False
    then show ?thesis unfolding c using quot_sdiv [OF Q] by (simp add: k_def)
  qed
qed

lemma quot_frac:
  assumes Q: "quot N u x" and b: "\<bar>x\<bar> < 10 ^ 9"
  shows "u dvd N \<Longrightarrow> dbl x = of_int (N sdiv u)"
    and "\<not> u dvd N \<Longrightarrow> (1 - of_int \<bar>N\<bar> / 2 ^ 53) / of_int \<bar>u\<bar> \<le> \<bar>dbl x - of_int (N sdiv u)\<bar>"
proof -
  define k where "k = \<bar>N\<bar> div \<bar>u\<bar>"
  have ds: "\<bar>dbl x - of_int (N sdiv u)\<bar> = \<bar>\<bar>dbl x\<bar> - of_int k\<bar>"
  proof (cases "k = 0")
    case True
    then have "N sdiv u = 0" by (simp add: signed_divide_int_def k_def)
    with True show ?thesis by simp
  next
    case False
    then show ?thesis using quot_sdiv [OF Q] dbl_sign [of x] by (auto simp: abs_if k_def)
  qed
  show "dbl x = of_int (N sdiv u)" if "u dvd N"
  proof -
    from that obtain m where m: "N = u * m" by auto
    then have xm: "x = of_int m" using quotD(2,5) [OF Q] by simp
    then have "\<bar>m\<bar> < 10 ^ 9" using b by (simp flip: of_int_abs)
    then have "dbl x = of_int m" unfolding xm by (intro dbl_int) auto
    moreover have "N sdiv u = m" using quot_trunc [OF Q b] \<open>dbl x = of_int m\<close> ctrunc_int [of m] by simp
    ultimately show ?thesis by simp
  qed
  show "(1 - of_int \<bar>N\<bar> / 2 ^ 53) / of_int \<bar>u\<bar> \<le> \<bar>dbl x - of_int (N sdiv u)\<bar>" if nd: "\<not> u dvd N"
  proof -
    have "\<bar>x\<bar> \<noteq> of_int k"
    proof
      assume "\<bar>x\<bar> = of_int k"
      then have "of_int \<bar>N\<bar> = (of_int (k * \<bar>u\<bar>) :: rat)" using quotD(2) [OF Q] by (simp add: quotD(4) [OF Q] field_simps)
      then have "\<bar>N\<bar> = k * \<bar>u\<bar>" by (simp only: of_int_eq_iff)
      then have "\<bar>u\<bar> dvd \<bar>N\<bar>" by simp
      then show False using nd by simp
    qed
    from quot_gap [OF Q this] quot_err(1) [OF Q] have "1 / of_int \<bar>u\<bar> - of_int \<bar>N\<bar> / 2 ^ 53 / of_int \<bar>u\<bar> \<le> \<bar>\<bar>dbl x\<bar> - of_int k\<bar>" by linarith
    then show ?thesis unfolding ds by (simp add: diff_divide_distrib)
  qed
qed


section \<open>What the fast paths compute\<close>

lemma FLO_range: "pf < FLO_HI \<and> pf > - FLO_HI \<longleftrightarrow> \<bar>pf\<bar> < 10 ^ 9"
  by (auto simp: FLO_HI_def abs_if)

text \<open>A fractional part of at least \<open>1.00001 * 10^-9\<close> survives the scaling by \<open>10^9\<close>.\<close>

lemma frac_seen:
  assumes "100001 / 10 ^ 14 \<le> \<bar>f\<bar>"
  shows "ctrunc (dbl (dbl f * FLO_HI)) \<noteq> 0"
proof -
  define c where "c = 1 - 1 / (2::rat) ^ 53"
  have c: "999999 / 1000000 \<le> c * c" "0 \<le> c" by (simp_all add: c_def)
  have "\<bar>f\<bar> * c \<le> \<bar>dbl f\<bar>" using dbl_ge [of f] by (simp add: c_def)
  then have "\<bar>f\<bar> * c * 10 ^ 9 * c \<le> \<bar>dbl f\<bar> * 10 ^ 9 * c" using c by (intro mult_right_mono) auto
  also have "\<dots> = \<bar>dbl f * FLO_HI\<bar> * c" by (simp add: FLO_HI_def abs_mult)
  also have "\<dots> \<le> \<bar>dbl (dbl f * FLO_HI)\<bar>" using dbl_ge [of "dbl f * FLO_HI"] by (simp add: c_def)
  finally have "\<bar>f\<bar> * 10 ^ 9 * (c * c) \<le> \<bar>dbl (dbl f * FLO_HI)\<bar>" by (simp add: ac_simps)
  moreover have "100001 / 10 ^ 5 * (999999 / 1000000) \<le> \<bar>f\<bar> * 10 ^ 9 * (c * c)"
    using assms c by (intro mult_mono) (auto simp: field_simps)
  ultimately have "(100001 / 10 ^ 5) * (999999 / 1000000) \<le> \<bar>dbl (dbl f * FLO_HI)\<bar>" by (rule order_trans [rotated])
  then have "1 \<le> \<bar>dbl (dbl f * FLO_HI)\<bar>" by simp
  then have "\<lfloor>\<bar>dbl (dbl f * FLO_HI)\<bar>\<rfloor> \<noteq> 0" by (simp add: floor_eq_iff)
  then show ?thesis unfolding ctrunc_def abs_if by (simp split: if_splits)
qed

lemma eb_int_mul_ok:
  assumes v: "\<bar>v\<bar> < MANT_HI" and u: "\<bar>u\<bar> < MANT_HI"
  shows "eb_int_mul v u = (if 1000 dvd v * u \<and> \<bar>v * u\<bar> < 10 ^ 12 then Some (0, v * u sdiv 1000) else None)"
proof (cases "\<bar>v * u\<bar> < 2 ^ 53")
  case True
  define P x where "P = v * u" and "x = (of_int P / 1000 :: rat)"
  have Q: "quot P 1000 x" using True by (simp add: quot_def P_def x_def)
  have d: "dbl (of_int u * of_int v) = of_int P" using True dbl_int [of P] by (simp add: P_def mult.commute)
  have rng: "\<bar>x\<bar> < 10 ^ 9 \<longleftrightarrow> \<bar>P\<bar> < 10 ^ 12"
  proof -
    have "\<bar>x\<bar> < 10 ^ 9 \<longleftrightarrow> (of_int \<bar>P\<bar> :: rat) < of_int (10 ^ 12)" by (simp add: x_def)
    then show ?thesis by (simp only: of_int_less_iff)
  qed
  have eq: "eb_int_mul v u = (if \<bar>x\<bar> < 10 ^ 9 then let (t0, t1) = DFLOAT2MINT (dbl x) in if t0 = 0 then Some (t0, t1) else None else None)"
    unfolding eb_int_mul_def Let_def d FLO_range FLO_BIAS_def using quot_range [OF Q] by (simp add: x_def)
  show ?thesis
  proof (cases "\<bar>P\<bar> < 10 ^ 12")
    case False
    then show ?thesis using rng by (simp add: eq P_def)
  next
    case b: True
    then have xb: "\<bar>x\<bar> < 10 ^ 9" using rng by simp
    show ?thesis
    proof (cases "1000 dvd P")
      case True
      have "DFLOAT2MINT (dbl x) = (0, P sdiv 1000)"
        using quot_frac(1) [OF Q xb True] quot_trunc [OF Q xb] by (simp add: DFLOAT2MINT_def dbl_def ctrunc_def)
      then show ?thesis using b True xb by (simp add: eq P_def)
    next
      case False
      have "(of_int \<bar>P\<bar> :: rat) < of_int (10 ^ 12)" using b by (simp only: of_int_less_iff)
      then have "(1 - 1 / 1000) / 1000 \<le> (1 - of_int \<bar>P\<bar> / 2 ^ 53) / (1000 :: rat)" by (intro divide_right_mono diff_mono) (auto simp: field_simps)
      also have "\<dots> \<le> \<bar>dbl x - of_int (P sdiv 1000)\<bar>" using quot_frac(2) [OF Q xb False] by simp
      finally have "100001 / 10 ^ 14 \<le> \<bar>dbl x - of_int (P sdiv 1000)\<bar>" by (rule order_trans [rotated]) simp
      from frac_seen [OF this] have "fst (DFLOAT2MINT (dbl x)) \<noteq> 0" using quot_trunc [OF Q xb] by (simp add: DFLOAT2MINT_def Let_def)
      then show ?thesis using False xb by (auto simp: eq P_def split: prod.splits)
    qed
  qed
next
  case False
  have big: "2 ^ 53 \<le> \<bar>v * u\<bar>" using False by simp
  define c where "c = 1 - 1 / (2::rat) ^ 53"
  have c: "99 / 100 \<le> c" by (simp add: c_def)
  define P where "P = (of_int u * of_int v :: rat)"
  have "(of_int (2 ^ 53) :: rat) \<le> of_int \<bar>v * u\<bar>" using big by (simp only: of_int_le_iff)
  then have P: "2 ^ 53 \<le> \<bar>P\<bar>" by (simp add: P_def abs_mult mult.commute)
  have "99 / 100 * 2 ^ 53 \<le> c * \<bar>P\<bar>" using c P by (intro mult_mono) auto
  also have "\<dots> \<le> \<bar>dbl P\<bar>" using dbl_ge [of P] by (simp add: c_def mult.commute)
  finally have "99 / 100 * 2 ^ 53 / 1000 \<le> \<bar>dbl P / FLO_BIAS\<bar>" by (simp add: FLO_BIAS_def)
  then have "99 / 100 * (99 / 100 * 2 ^ 53 / 1000) \<le> c * \<bar>dbl P / FLO_BIAS\<bar>" using c by (intro mult_mono) auto
  also have "\<dots> \<le> \<bar>dbl (dbl P / FLO_BIAS)\<bar>" using dbl_ge [of "dbl P / FLO_BIAS"] by (simp add: c_def mult.commute)
  finally have "\<not> \<bar>dbl (dbl P / FLO_BIAS)\<bar> < 10 ^ 9" by simp
  then have "eb_int_mul v u = None" unfolding eb_int_mul_def Let_def FLO_range P_def by simp
  then show ?thesis using big by simp
qed

lemma eb_quot:
  assumes v: "\<bar>v\<bar> < MANT_HI" and u: "u \<noteq> 0"
  defines "x \<equiv> of_int (v * 1000) / of_int u :: rat"
  shows "quot (v * 1000) u x" "dbl (of_int v * FLO_BIAS) = of_int (v * 1000)"
proof -
  have b: "\<bar>v * 1000\<bar> < 2 ^ 53" using v by (simp add: mv_defs)
  show "quot (v * 1000) u x" using b u by (simp add: quot_def x_def)
  show "dbl (of_int v * FLO_BIAS) = of_int (v * 1000)" using dbl_int [OF b] by (simp add: FLO_BIAS_def)
qed

lemma quot_less: "u \<noteq> 0 \<Longrightarrow> \<bar>of_int N / of_int u :: rat\<bar> < 10 ^ 9 \<longleftrightarrow> \<bar>N\<bar> < 10 ^ 9 * \<bar>u\<bar>"
proof -
  assume "u \<noteq> 0"
  then have "\<bar>of_int N / of_int u :: rat\<bar> < 10 ^ 9 \<longleftrightarrow> (of_int \<bar>N\<bar> :: rat) < of_int (10 ^ 9 * \<bar>u\<bar>)"
    by (simp add: abs_divide field_simps)
  then show ?thesis by (simp only: of_int_less_iff)
qed

lemma sdiv_thousand: "u \<noteq> 0 \<Longrightarrow> (v * 1000) sdiv u sdiv 1000 = v sdiv (u::int)"
proof -
  assume u: "u \<noteq> 0"
  define k c where "k = \<bar>v\<bar> * 1000 div \<bar>u\<bar>" and "c = sgn v * sgn u"
  have k0: "0 \<le> k" using u by (simp add: k_def pos_imp_zdiv_nonneg_iff)
  have "k div 1000 = \<bar>v\<bar> * 1000 div (\<bar>u\<bar> * 1000)" by (simp only: k_def zdiv_zmult2_eq)
  then have k1: "k div 1000 = \<bar>v\<bar> div \<bar>u\<bar>" by simp
  have e1: "(v * 1000) sdiv u = c * k" by (simp add: signed_divide_int_def sgn_mult abs_mult k_def c_def)
  have "c \<in> {- 1, 0, 1}" by (auto simp: c_def sgn_if)
  then have e2: "(c * k) sdiv 1000 = c * (k div 1000)" using k0 by (auto simp: sdiv_nonneg sdiv_neg_left)
  have "v sdiv u = c * (\<bar>v\<bar> div \<bar>u\<bar>)" by (simp add: signed_divide_int_def sgn_mult c_def)
  then show ?thesis unfolding e1 e2 k1 by simp
qed

lemma eb_int_div_ok:
  assumes v: "\<bar>v\<bar> < MANT_HI" and u: "u \<noteq> 0"
  shows "(\<exists>q0. eb_int_div v u = Some (q0, (v sdiv u) * 1000)) \<longleftrightarrow> \<bar>v * 1000\<bar> < 10 ^ 9 * \<bar>u\<bar>"
    and "eb_int_div v u = None \<longleftrightarrow> \<not> \<bar>v * 1000\<bar> < 10 ^ 9 * \<bar>u\<bar>"
proof -
  define x where "x = (of_int (v * 1000) / of_int u :: rat)"
  note Q = eb_quot [OF v u, folded x_def]
  have rng: "\<bar>dbl x\<bar> < 10 ^ 9 \<longleftrightarrow> \<bar>v * 1000\<bar> < 10 ^ 9 * \<bar>u\<bar>" using quot_range [OF Q(1)] quot_less [OF u, of "v * 1000", folded x_def] by (rule trans)
  have "eb_int_div v u = (if \<bar>dbl x\<bar> < 10 ^ 9 then Some (fst (DFLOAT2MINT (dbl x)), (ctrunc (dbl x) sdiv 1000) * 1000) else None)"
    unfolding eb_int_div_def Let_def Q(2) x_def [symmetric] FLO_range by (simp add: DFLOAT2MINT_def Let_def MV_BIAS_def)
  moreover have "ctrunc (dbl x) sdiv 1000 = v sdiv u" if "\<bar>dbl x\<bar> < 10 ^ 9"
  proof -
    have "ctrunc (dbl x) = (v * 1000) sdiv u" using that quot_trunc [OF Q(1)] quot_range [OF Q(1)] by simp
    then show ?thesis using sdiv_thousand [OF u] by simp
  qed
  ultimately show "(\<exists>q0. eb_int_div v u = Some (q0, (v sdiv u) * 1000)) \<longleftrightarrow> \<bar>v * 1000\<bar> < 10 ^ 9 * \<bar>u\<bar>"
    and "eb_int_div v u = None \<longleftrightarrow> \<not> \<bar>v * 1000\<bar> < 10 ^ 9 * \<bar>u\<bar>" using rng by auto
qed

lemma eb_mvint_div_ok:
  assumes v: "\<bar>v\<bar> < MANT_HI" and u: "u \<noteq> 0"
  shows "u dvd v * 1000 \<Longrightarrow> \<bar>v * 1000\<bar> < 10 ^ 9 * \<bar>u\<bar> \<Longrightarrow> eb_mvint_div v u = Some (0, v * 1000 sdiv u)"
    and "\<not> \<bar>v * 1000\<bar> < 10 ^ 9 * \<bar>u\<bar> \<Longrightarrow> eb_mvint_div v u = None"
    and "\<not> u dvd v * 1000 \<Longrightarrow> \<bar>u\<bar> \<le> 999800000 \<Longrightarrow> eb_mvint_div v u = None"
proof -
  define x where "x = (of_int (v * 1000) / of_int u :: rat)"
  note Q = eb_quot [OF v u, folded x_def]
  have rng: "\<bar>dbl x\<bar> < 10 ^ 9 \<longleftrightarrow> \<bar>v * 1000\<bar> < 10 ^ 9 * \<bar>u\<bar>" using quot_range [OF Q(1)] quot_less [OF u, of "v * 1000", folded x_def] by (rule trans)
  have eq: "eb_mvint_div v u = (if \<bar>dbl x\<bar> < 10 ^ 9 then let (t0, t1) = DFLOAT2MINT (dbl x) in if t0 = 0 then Some (t0, t1) else None else None)"
    unfolding eb_mvint_div_def Let_def Q(2) x_def [symmetric] FLO_range ..
  show "eb_mvint_div v u = None" if "\<not> \<bar>v * 1000\<bar> < 10 ^ 9 * \<bar>u\<bar>" using that rng by (simp add: eq)
  show "eb_mvint_div v u = Some (0, v * 1000 sdiv u)" if d: "u dvd v * 1000" and b: "\<bar>v * 1000\<bar> < 10 ^ 9 * \<bar>u\<bar>"
  proof -
    have xb: "\<bar>x\<bar> < 10 ^ 9" "\<bar>dbl x\<bar> < 10 ^ 9" using b rng quot_range [OF Q(1)] by auto
    have "DFLOAT2MINT (dbl x) = (0, v * 1000 sdiv u)"
      using quot_frac(1) [OF Q(1) xb(1) d] quot_trunc [OF Q(1) xb(1)] by (simp add: DFLOAT2MINT_def dbl_def ctrunc_def)
    then show ?thesis using xb by (simp add: eq)
  qed
  show "eb_mvint_div v u = None" if nd: "\<not> u dvd v * 1000" and ub: "\<bar>u\<bar> \<le> 999800000"
  proof (cases "\<bar>dbl x\<bar> < 10 ^ 9")
    case False
    then show ?thesis by (simp add: eq)
  next
    case True
    then have xb: "\<bar>x\<bar> < 10 ^ 9" using quot_range [OF Q(1)] by simp
    have up: "(0::rat) < of_int \<bar>u\<bar>" using u by simp
    have "\<bar>v * 1000\<bar> < 10 ^ 12" using v by (simp add: mv_defs)
    then have "(of_int \<bar>v * 1000\<bar> :: rat) < of_int (10 ^ 12)" by (simp only: of_int_less_iff)
    then have n: "9998 / 10000 + 8 / 100000 \<le> 1 - of_int \<bar>v * 1000\<bar> / (2::rat) ^ 53" by (simp add: field_simps)
    have "(of_int \<bar>u\<bar> :: rat) \<le> of_int 999800000" using ub by (simp only: of_int_le_iff)
    then have "100001 / 10 ^ 14 \<le> (9998 / 10000 + 8 / 100000) / (of_int \<bar>u\<bar> :: rat)" using up by (simp add: field_simps)
    also have "\<dots> \<le> (1 - of_int \<bar>v * 1000\<bar> / 2 ^ 53) / of_int \<bar>u\<bar>" using n up by (intro divide_right_mono) auto
    also have "\<dots> \<le> \<bar>dbl x - of_int (v * 1000 sdiv u)\<bar>" by (rule quot_frac(2) [OF Q(1) xb nd])
    finally have "fst (DFLOAT2MINT (dbl x)) \<noteq> 0" using frac_seen quot_trunc [OF Q(1) xb] by (simp add: DFLOAT2MINT_def Let_def)
    then show ?thesis by (auto simp: eq split: prod.splits)
  qed
qed

lemma eb_int_mod_ok: "eb_int_mod v u = (if u = 0 then 0 else v mod u)"
proof (cases "u = 0 \<or> v = 0")
  case True
  then show ?thesis by (auto simp: eb_int_mod_def)
next
  case False
  have d: "v \<noteq> v sdiv u * u \<longleftrightarrow> \<not> u dvd v"
  proof
    assume n: "v \<noteq> v sdiv u * u"
    show "\<not> u dvd v"
    proof
      assume "u dvd v"
      then obtain m where m: "v = u * m" by auto
      then have "v sdiv u = m" using False by (simp add: signed_divide_int_def sgn_mult abs_mult ac_simps)
         (metis abs_sgn sgn_sgn mult.commute mult_sgn_abs)
      with m n show False by simp
    qed
  qed (metis dvd_triv_right)
  have s: "((v < 0 \<and> u > 0) \<or> (v > 0 \<and> u < 0)) \<longleftrightarrow> sgn v \<noteq> sgn u" using False by (auto simp: sgn_if)
  have "v div u = v sdiv u - of_bool (u \<noteq> 0 \<and> sgn v \<noteq> sgn u \<and> \<not> u dvd v)" by (rule divide_int_eq_signed_divide_int)
  then have "v div u = v sdiv u - (if ((v < 0 \<and> u > 0) \<or> (v > 0 \<and> u < 0)) \<and> v \<noteq> v sdiv u * u then 1 else 0)"
    unfolding d s using False by simp
  then have "eb_int_mod v u = v - u * (v div u)" using False by (simp only: eb_int_mod_def Let_def if_False)
  then show ?thesis using False by (simp add: minus_mult_div_eq_mod)
qed

end
