(* ===== verification/OpMul.thy ===== *)
theory OpMul
  imports EbInt
begin

text \<open>
  Multiplication, division, integer division and modulo: \<open>op_mul.c\<close>, \<open>op_div.c\<close>, \<open>op_idiv.c\<close> and
  \<open>flt_mod.c\<close>, on top of the mantissa routines of \<open>eb_muldiv.c\<close>.  The theorems compare each result
  with the exact product or quotient of the denoted numbers, cut to 18 digits.
\<close>

section \<open>The operators\<close>

text \<open>An operand in integer form is copied and promoted.\<close>

definition promoted :: "mval \<Rightarrow> mval" where
  "promoted u = (if is_int (mvtype u) then promote u else u)"

text \<open>The integer fast path applies to two integer forms.\<close>

definition int_path :: "(int \<Rightarrow> int \<Rightarrow> (int \<times> int) option) \<Rightarrow> mval \<Rightarrow> mval \<Rightarrow> mval \<Rightarrow> mval option" where
  "int_path f u v p =
    (if is_int (mvtype u) \<and> is_int (mvtype v) then
       case f (m1 u) (m1 v) of
         None \<Rightarrow> None
       | Some (t0, t1) \<Rightarrow> Some (p\<lparr>mvtype := mv_or MV_NM MV_INT, m0 := t0, m1 := t1\<rparr>)
     else None)"

text \<open>The tail shared by \<open>op_mul\<close> and \<open>op_div\<close>; \<open>p\<close> holds the mantissa.\<close>

definition mul_store :: "mval \<Rightarrow> int \<Rightarrow> int \<Rightarrow> mval result" where
  "mul_store p ex sg =
    (if EXPHI \<le> ex then Inl ERR_NUMOFLOW
     else if EXPLO > ex then Inr literal_zero
     else if ex < EXP_INT_OVERF \<and> ex > EXP_INT_UNDERF \<and> m0 p = 0 \<and> m1 p smod ten_pwr (EXP_INT_OVERF - 1 - ex) = 0
       then Inr (demote p ex sg)
     else Inr (p\<lparr>mvtype := MV_NM, sgn_of := sg, e_of := ex\<rparr>))"

definition mul_flt :: "mval \<Rightarrow> mval \<Rightarrow> mval \<Rightarrow> mval result" where
  "mul_flt u v p =
    (let (c, p0, p1) = eb_mul (m0 u) (m1 u) (m0 v) (m1 v)
     in mul_store (p\<lparr>m0 := p0, m1 := p1\<rparr>) (e_of u + e_of v + c - MV_XBIAS) (xor1 (sgn_of u) (sgn_of v)))"

definition op_mul :: "bool \<Rightarrow> mval \<Rightarrow> mval \<Rightarrow> mval \<Rightarrow> mval result" where
  "op_mul undef_inhibit u v p = force_both undef_inhibit u v (\<lambda>u v.
     case int_path eb_int_mul u v p of
       Some r \<Rightarrow> Inr r
     | None \<Rightarrow> mul_flt (promoted u) (promoted v) p)"

definition div_flt :: "mval \<Rightarrow> mval \<Rightarrow> mval \<Rightarrow> mval result" where
  "div_flt u v q =
    (case eb_div (m0 v) (m1 v) (m0 u) (m1 u) of
       None \<Rightarrow> Inl SIGFPE
     | Some (c, q0, q1) \<Rightarrow>
         mul_store (q\<lparr>m0 := q0, m1 := q1\<rparr>) (e_of u - e_of v + c + MV_XBIAS) (xor1 (sgn_of u) (sgn_of v)))"

definition op_div :: "bool \<Rightarrow> mval \<Rightarrow> mval \<Rightarrow> mval \<Rightarrow> mval result" where
  "op_div undef_inhibit u v q = force_both undef_inhibit u v (\<lambda>u v.
     if is_int (mvtype v) \<and> m1 v = 0 then Inl ERR_DIVZERO
     else case int_path eb_mvint_div u v q of
       Some r \<Rightarrow> Inr r
     | None \<Rightarrow> div_flt (promoted u) (promoted v) q)"

text \<open>The fractional digits of a quotient with exponent \<open>exp\<close> are cleared.\<close>

definition idiv_cut :: "mval \<Rightarrow> int \<Rightarrow> mval" where
  "idiv_cut q ex =
    (if ex \<le> MV_XBIAS then literal_zero
     else if ex < EXP_IDX_BIAL then
       let z = ten_pwr (EXP_IDX_BIAL - ex) in q\<lparr>m1 := (m1 q sdiv z) * z, m0 := 0\<rparr>
     else if ex < EXP_IDX_BIAQ then
       let z = ten_pwr (EXP_IDX_BIAQ - ex) in q\<lparr>m0 := (m0 q sdiv z) * z\<rparr>
     else q)"

definition idiv_store :: "mval \<Rightarrow> int \<Rightarrow> int \<Rightarrow> mval result" where
  "idiv_store q ex sg =
    (if ex < EXP_INT_OVERF \<and> ex > EXP_INT_UNDERF \<and> m0 q = 0 \<and> m1 q smod ten_pwr (EXP_INT_OVERF - 1 - ex) = 0
       then Inr (demote q ex sg)
     else if EXPHI \<le> ex then Inl ERR_NUMOFLOW
     else Inr (q\<lparr>e_of := ex, sgn_of := sg, mvtype := MV_NM\<rparr>))"

definition idiv_flt :: "mval \<Rightarrow> mval \<Rightarrow> mval \<Rightarrow> mval result" where
  "idiv_flt u v q =
    (let exp = e_of u - e_of v + MV_XBIAS
     in if exp < MV_XBIAS then Inr literal_zero
        else case eb_div (m0 v) (m1 v) (m0 u) (m1 u) of
               None \<Rightarrow> Inl SIGFPE
             | Some (c, q0, q1) \<Rightarrow>
                 idiv_store (idiv_cut (q\<lparr>m0 := q0, m1 := q1\<rparr>) (exp + c)) (exp + c) (xor1 (sgn_of u) (sgn_of v)))"

definition op_idiv :: "bool \<Rightarrow> mval \<Rightarrow> mval \<Rightarrow> mval \<Rightarrow> mval result" where
  "op_idiv undef_inhibit u v q = force_both undef_inhibit u v (\<lambda>u v.
     if is_int (mvtype v) \<and> m1 v = 0 then Inl ERR_DIVZERO
     else case int_path eb_int_div u v q of
       Some r \<Rightarrow> Inr r
     | None \<Rightarrow> idiv_flt (promoted u) (promoted v) q)"

text \<open>
  \<open>flt_mod\<close>: the quotient \<open>w\<close> of two floats becomes its floor; \<open>None\<close> is the floor zero, where the
  result is the dividend itself.
\<close>

definition mod_floor :: "mval \<Rightarrow> bool \<Rightarrow> mval option" where
  "mod_floor w differ =
    (let exp = e_of w in
     if exp \<le> MV_XBIAS then
       if differ \<and> m1 w \<noteq> 0 \<and> exp \<ge> EXPLO
       then Some (w\<lparr>sgn_of := 1, e_of := MV_XBIAS + 1, m1 := MANT_LO, m0 := 0\<rparr>)
       else None
     else if exp < EXP_IDX_BIAL then
       let z = ten_pwr (EXP_IDX_BIAL - exp); x = (m1 w sdiv z) * z
       in if differ \<and> (m1 w \<noteq> x \<or> m0 w \<noteq> 0) then
            let w = w\<lparr>m0 := 0, m1 := x + z\<rparr>
            in if m1 w \<ge> MANT_HI
               then Some (w\<lparr>m0 := m0 w sdiv 10 + (m1 w smod 10) * MANT_LO, m1 := m1 w sdiv 10, e_of := e_of w + 1\<rparr>)
               else Some w
          else Some (w\<lparr>m0 := 0, m1 := x\<rparr>)
     else if exp < EXP_IDX_BIAQ then
       let z = ten_pwr (EXP_IDX_BIAQ - exp); x = (m0 w sdiv z) * z
       in if differ \<and> m0 w \<noteq> x then
            let w = w\<lparr>m0 := x + z\<rparr>
            in if m0 w \<ge> MANT_HI then Some (w\<lparr>m0 := m0 w - MANT_HI, m1 := m1 w + 1\<rparr>) else Some w
          else Some (w\<lparr>m0 := x\<rparr>)
     else Some w)"

text \<open>
  The temporary \<open>w\<close> of \<open>flt_mod\<close> is uninitialised before \<open>op_div\<close> stores into it: its old content
  is the argument \<open>w0\<close>.
\<close>

definition flt_mod :: "bool \<Rightarrow> mval \<Rightarrow> mval \<Rightarrow> mval \<Rightarrow> mval \<Rightarrow> mval result" where
  "flt_mod undef_inhibit w0 u_orig v0 q = force_both undef_inhibit u_orig v0 (\<lambda>u_orig v0.
     if is_int (mvtype v0) \<and> m1 v0 = 0 then Inl ERR_DIVZERO
     else if is_int (mvtype u_orig) \<and> is_int (mvtype v0) then
       Inr (q\<lparr>mvtype := mv_or MV_NM MV_INT, m1 := eb_int_mod (m1 u_orig) (m1 v0)\<rparr>)
     else
       let u = promoted u_orig; v = promoted v0 in
       case op_div undef_inhibit u v w0 of
         Inl err \<Rightarrow> Inl err
       | Inr w \<Rightarrow>
           (case mod_floor (promoted w) (sgn_of u \<noteq> sgn_of v) of
              None \<Rightarrow> Inr u_orig
            | Some w \<Rightarrow>
                (case op_mul undef_inhibit w v w of
                   Inl err \<Rightarrow> Inl err
                 | Inr w \<Rightarrow> op_sub undef_inhibit u_orig w q)))"

section \<open>The specifications\<close>

text \<open>The 18 leading digits of a number, the rest zero.\<close>

definition cut18 :: "int \<Rightarrow> int" where
  "cut18 t = t div 10 ^ last_weight t * 10 ^ last_weight t"

text \<open>Products and quotients of numbers scaled by \<open>10^80\<close>, towards zero.\<close>

definition mul_spec :: "int \<Rightarrow> int \<Rightarrow> int" where
  "mul_spec x y = sgn (x * y) * cut18 (\<bar>x * y\<bar> div 10 ^ 80)"

definition div_spec :: "int \<Rightarrow> int \<Rightarrow> int" where
  "div_spec x y = sgn (x * y) * cut18 (\<bar>x\<bar> * 10 ^ 80 div \<bar>y\<bar>)"

definition idiv_spec :: "int \<Rightarrow> int \<Rightarrow> int" where
  "idiv_spec x y = sgn (x * y) * cut18 (\<bar>x\<bar> div \<bar>y\<bar>) * 10 ^ 80"

lemma cut18_0 [simp]: "cut18 0 = 0"
  by (simp add: cut18_def)

lemma cut_le: "0 \<le> (t::int) \<Longrightarrow> 0 \<le> t div 10 ^ k * 10 ^ k \<and> t div 10 ^ k * 10 ^ k \<le> t"
  using div_mult_mod_eq [of t "10 ^ k"] pos_mod_sign [OF pow10_pos, of t k] div_pow10 [of t k]
  by (metis le_add_same_cancel1 mult_nonneg_nonneg order_less_imp_le pow10_pos)

lemma cut18_le: "0 \<le> t \<Longrightarrow> 0 \<le> cut18 t \<and> cut18 t \<le> t"
  unfolding cut18_def by (rule cut_le)

lemma last_weight_pos: "10 ^ (17 + k) \<le> t \<Longrightarrow> t < 10 ^ Suc (17 + k) \<Longrightarrow> last_weight t = k"
proof -
  assume t: "10 ^ (17 + k) \<le> t" "t < 10 ^ Suc (17 + k)"
  then have "10 ^ (17 + k) \<le> nat t" "nat t < 10 ^ Suc (17 + k)"
    by (simp_all add: nat_less_iff le_nat_iff del: power_Suc)
  then have "ndigits (nat t) = Suc (17 + k)" by (rule ndigits_eq)
  moreover have "\<bar>t\<bar> = t" using t(1) by (simp add: order_trans [OF _ t(1)])
  ultimately show ?thesis by (simp add: last_weight_def)
qed

lemma cut18_eq: "10 ^ 17 \<le> M \<Longrightarrow> M < 10 ^ 18 \<Longrightarrow> t div 10 ^ k = M \<Longrightarrow> cut18 t = M * 10 ^ k"
proof -
  assume M: "10 ^ 17 \<le> M" "M < 10 ^ 18" and t: "t div 10 ^ k = M"
  have m: "M * 10 ^ k + t mod 10 ^ k = t" using div_mult_mod_eq [of t "10 ^ k"] t by simp
  have r: "0 \<le> t mod 10 ^ k" "t mod 10 ^ k < 10 ^ k" by simp_all
  have "10 ^ 17 * 10 ^ k \<le> M * 10 ^ k" using M by (intro mult_right_mono) auto
  then have "10 ^ 17 * 10 ^ k \<le> t" using m r(1) by linarith
  then have a: "10 ^ (17 + k) \<le> t" by (simp add: power_add)
  have "(M + 1) * 10 ^ k \<le> 10 ^ 18 * 10 ^ k" using M by (intro mult_right_mono) auto
  moreover have "(M + 1) * 10 ^ k = M * 10 ^ k + 10 ^ k" by (simp add: algebra_simps)
  ultimately have "t < 10 ^ 18 * 10 ^ k" using m r by linarith
  then have b: "t < 10 ^ Suc (17 + k)" by (simp add: power_add)
  show ?thesis using last_weight_pos [OF a b] t by (simp add: cut18_def)
qed

lemma ndigits_le: "n < 10 ^ k \<Longrightarrow> ndigits n \<le> k"
proof (induction k arbitrary: n)
  case 0 then show ?case by simp
next
  case (Suc k)
  then have "n div 10 < 10 ^ k" by (simp add: div_less_iff_less_mult mult.commute)
  with Suc.IH [OF this] show ?case by (subst ndigits.simps) simp
qed

lemma cut18_exact: "0 \<le> x \<Longrightarrow> x < 10 ^ 18 \<Longrightarrow> cut18 (x * 10 ^ k) = x * 10 ^ k"
proof -
  assume x: "0 \<le> x" "x < 10 ^ 18"
  then have "x * 10 ^ k < 10 ^ (18 + k)" by (simp add: power_add)
  then have "nat (x * 10 ^ k) < 10 ^ (18 + k)" using x by (simp add: nat_less_iff)
  then have "last_weight (x * 10 ^ k) \<le> k" using x ndigits_le unfolding last_weight_def by fastforce
  then have "(10::int) ^ last_weight (x * 10 ^ k) dvd x * 10 ^ k" by (simp add: le_imp_power_dvd dvd_mult)
  then show ?thesis unfolding cut18_def by (simp add: dvd_div_mult_self)
qed

lemma div_div_pow10: "(x::int) div 10 ^ a div 10 ^ b = x div 10 ^ (a + b)"
  by (simp add: power_add zdiv_zmult2_eq)

section \<open>Storing a normalised result\<close>

lemma mul_store_eq:
  assumes l: "limbs a1 a0" and sg: "sg \<in> {0, 1}"
  shows "mul_store (p\<lparr>m0 := a0, m1 := a1\<rparr>) ex sg = add_store (p\<lparr>m0 := a0\<rparr>) sg a1 a0 ex"
proof (cases "59 < ex \<and> ex < 69 \<and> a0 = 0")
  case True
  define z where "z = ten_pwr (68 - ex)"
  have z: "0 < z" using True ten_pwr_eq [of "68 - ex"] by (simp add: z_def)
  have a1: "0 \<le> a1" using l by (simp add: limbs_def)
  have "a1 smod z = 0 \<longleftrightarrow> (a1 sdiv z) * z = a1"
    using z a1 by (auto simp: smod_nonneg sdiv_nonneg) (metis mod_mult_self2_is_0)
  then show ?thesis using True sg
    by (auto simp: mul_store_def add_store_def demote_def Let_def mv_defs z_def sdiv_neg_right)
next
  case False
  then show ?thesis by (auto simp: mul_store_def add_store_def Let_def mv_defs)
qed

lemma mul_store_ok:
  assumes l: "limbs a1 a0" "MANT_LO \<le> a1" and sg: "sg \<in> {0, 1}" and t: "0 \<le> t"
    and hi: "0 \<le> ex \<Longrightarrow> t div 10 ^ nat ex = join a1 a0" and lo: "ex < 20 \<Longrightarrow> t < 10 ^ 37"
  shows "num_outcome (mul_store (p\<lparr>m0 := a0, m1 := a1\<rparr>) ex sg) (sgnd sg (cut18 t))"
proof (cases "ex < 20")
  case True
  then have "mul_store (p\<lparr>m0 := a0, m1 := a1\<rparr>) ex sg = Inr literal_zero" by (simp add: mul_store_def mv_defs)
  moreover have "\<bar>sgnd sg (cut18 t)\<bar> < 10 ^ 37" using lo [OF True] cut18_le [OF t] by (simp add: sgnd_def)
  ultimately show ?thesis by (simp add: num_outcome_def wf_num_def wf_int_def numval_def literal_zero_def mv_defs)
next
  case False
  have j: "10 ^ 17 \<le> join a1 a0" "join a1 a0 < 10 ^ 18" using l limbs_join [OF l(1)] join_norm [of a0 a1] by (auto simp: limbs_def)
  have "cut18 t = join a1 a0 * 10 ^ nat ex" using j hi False by (intro cut18_eq) auto
  then show ?thesis using add_store_ok [OF l _ sg, of ex] mul_store_eq [OF l(1) sg] False by simp
qed

text \<open>A nonzero operand of the float routines.\<close>

lemma promoted_operand:
  assumes u: "wf_num u" and nz: "numval u \<noteq> 0"
  shows "operand (numval u) (sgn_of (promoted u)) (m1 (promoted u)) (m0 (promoted u)) (e_of (promoted u))"
    and "e_of (promoted u) < 110"
proof -
  have w: "wf_flt (promoted u)" and n: "numval (promoted u) = numval u"
    using wf_num_cases [OF u] promote_props [of u] nz by (auto simp: promoted_def numval_def)
  show "operand (numval u) (sgn_of (promoted u)) (m1 (promoted u)) (m0 (promoted u)) (e_of (promoted u))"
    unfolding n [symmetric] using w
    by (auto simp: operand_def wf_flt_def limbs_def numval_def mant_def join_def sgnd_def) (auto simp: mv_defs algebra_simps)
  show "e_of (promoted u) < 110" using w by (simp add: wf_flt_def mv_defs)
qed

lemma sgn_xor1:
  assumes "0 < a" "0 < b"
  shows "sgn (sgnd sg a * sgnd sg' b) * c = sgnd (xor1 sg sg') c"
  using assms by (simp add: sgnd_def xor1_def sgn_mult)

lemma xor1_bit: "xor1 sg sg' \<in> {0, 1}"
  by (simp add: xor1_def)

text \<open>The integer fast paths store an exact small number.\<close>

lemma small_outcome:
  assumes "\<bar>r\<bar> < MANT_HI" "mvtype w = mv_or MV_NM MV_INT" "m1 w = r"
  shows "num_outcome (Inr w) (r * 10 ^ 77)"
  using assms outcome_exact [of w] by (auto simp: wf_num_def wf_int_def numval_def abs_if split: if_splits)

section \<open>Multiplication\<close>

lemma mul_flt_ok:
  assumes x: "operand x su u1 u0 eu" and y: "operand y sv v1 v0 ev"
    and u: "su = sgn_of u" "u1 = m1 u" "u0 = m0 u" "eu = e_of u" and v: "sv = sgn_of v" "v1 = m1 v" "v0 = m0 v" "ev = e_of v"
  shows "num_outcome (mul_flt u v p) (mul_spec x y)"
proof -
  note X = operandD [OF x] and Y = operandD [OF y]
  have nm: "MANT_LO \<le> u1" "MANT_LO \<le> v1" "20 \<le> eu" "20 \<le> ev" using x y by (auto simp: operand_def)
  obtain c p0 p1 where r: "eb_mul u0 u1 v0 v1 = (c, p0, p1)" by (metis prod_cases3)
  define P where "P = join u1 u0 * join v1 v0"
  note R = eb_mul_ok [OF X(2) nm(1) Y(2) nm(2) r, folded P_def]
  have P0: "0 < P" using X(3) Y(3) by (simp add: P_def)
  define t where "t = P * 10 ^ (nat eu + nat ev) div 10 ^ 80"
  define ex where "ex = eu + ev + c - 62"
  have ab: "\<bar>x * y\<bar> = P * 10 ^ (nat eu + nat ev)"
    using X(3) Y(3) by (simp add: X(6) Y(6) abs_mult sgnd_def P_def power_add)
  have "0 \<le> t" using P0 by (simp add: t_def pos_imp_zdiv_nonneg_iff)
  have c: "c = 0 \<or> c = - 1" using R by (auto split: if_splits)
  have Pc: "P < 10 ^ nat (36 + c)" "join p1 p0 = P div 10 ^ nat (18 + c)"
  proof -
    have "P < 10 ^ 18 * 10 ^ 18" unfolding P_def using X(3,4) Y(3,4) by (intro mult_strict_mono) auto
    then show "P < 10 ^ nat (36 + c)" "join p1 p0 = P div 10 ^ nat (18 + c)" using R by (auto split: if_splits)
  qed
  have hi: "t div 10 ^ nat ex = join p1 p0" if "0 \<le> ex"
  proof -
    define n where "n = nat eu + nat ev"
    have "t div 10 ^ nat ex = P * 10 ^ n div 10 ^ (80 + nat ex)"
      by (simp only: t_def n_def div_div_pow10)
    also have "80 + nat ex = nat (18 + c) + n" using that c nm by (auto simp: ex_def n_def)
    also have "P * 10 ^ n div 10 ^ (nat (18 + c) + n) = P div 10 ^ nat (18 + c)"
      by (simp add: power_add)
    finally show ?thesis using Pc by simp
  qed
  have lo: "t < 10 ^ 37" if "ex < 20"
  proof -
    have "P * 10 ^ (nat eu + nat ev) < 10 ^ nat (36 + c) * 10 ^ (nat eu + nat ev)" using Pc by simp
    also have "\<dots> = 10 ^ (nat (36 + c) + (nat eu + nat ev))" by (simp only: power_add)
    also have "\<dots> \<le> 10 ^ 117" using that c nm by (intro pow10_mono) (auto simp: ex_def)
    finally have "P * 10 ^ (nat eu + nat ev) < 10 ^ 37 * 10 ^ 80" by simp
    then show ?thesis unfolding t_def by (intro div_less_prod) auto
  qed
  have sg: "mul_spec x y = sgnd (xor1 su sv) (cut18 t)"
    unfolding mul_spec_def ab t_def [symmetric] unfolding X(6) Y(6) using X(3) Y(3) by (intro sgn_xor1) auto
  have "num_outcome (mul_store (p\<lparr>m0 := p0, m1 := p1\<rparr>) ex (xor1 su sv)) (sgnd (xor1 su sv) (cut18 t))"
    using R \<open>0 \<le> t\<close> hi lo by (intro mul_store_ok [OF _ _ xor1_bit]) auto
  then show ?thesis using sg r by (simp add: mul_flt_def u v ex_def MV_XBIAS_def)
qed

lemma mul_ints_ok:
  assumes u: "wf_int u" and v: "wf_int v" and r: "int_path eb_int_mul u v p = Some w"
  shows "num_outcome (Inr w) (mul_spec (numval u) (numval v))"
proof -
  have i: "is_int (mvtype u)" "is_int (mvtype v)" and b: "\<bar>m1 u\<bar> < MANT_HI" "\<bar>m1 v\<bar> < MANT_HI" using u v by (auto simp: wf_int_def)
  define P where "P = m1 u * m1 v"
  have d: "1000 dvd P" "\<bar>P\<bar> < 10 ^ 12" and w: "mvtype w = mv_or MV_NM MV_INT" "m1 w = P sdiv 1000"
    using r unfolding int_path_def eb_int_mul_ok [OF b] by (auto simp: i P_def split: if_splits)
  obtain k where k: "P = 1000 * k" using d by auto
  have q: "P sdiv 1000 = k" using sdiv_nonneg [of k 1] sdiv_neg_left [of "- k" 1] by (auto simp: k signed_divide_int_def sgn_mult abs_mult mult_sgn_abs)
  have kb: "\<bar>k\<bar> < 10 ^ 9" using d by (simp add: k)
  have x: "numval u * numval v = k * 10 ^ 77 * 10 ^ 80" by (simp add: numval_def i mult.assoc) (use k in \<open>simp add: P_def mult.assoc [symmetric]\<close>)
  have "\<bar>k * 10 ^ 77 * 10 ^ 80\<bar> div 10 ^ 80 = \<bar>k\<bar> * 10 ^ 77" by (simp add: abs_mult)
  then have "mul_spec (numval u) (numval v) = sgn k * cut18 (\<bar>k\<bar> * 10 ^ 77)" unfolding mul_spec_def x by (simp add: sgn_mult)
  also have "cut18 (\<bar>k\<bar> * 10 ^ 77) = \<bar>k\<bar> * 10 ^ 77" using kb by (intro cut18_exact) auto
  also have "sgn k * (\<bar>k\<bar> * 10 ^ 77) = k * 10 ^ 77" by (simp add: mult.assoc [symmetric] sgn_mult_abs)
  finally show ?thesis using small_outcome [of k w] kb w q by (simp add: MANT_HI_def)
qed

section \<open>Division\<close>

text \<open>The quotient of two normalised mantissas, as \<open>eb_div\<close> scales it.\<close>

lemma eb_div_quotient:
  assumes x: "operand x su u1 u0 eu" and y: "operand y sv v1 v0 ev"
  defines "t \<equiv> \<bar>x\<bar> * 10 ^ 80 div \<bar>y\<bar>"
  shows "\<exists>c q0 q1. eb_div v0 v1 u0 u1 = Some (c, q0, q1) \<and> c \<in> {0, 1} \<and> limbs q1 q0 \<and> MANT_LO \<le> q1 \<and> 0 \<le> t \<and>
    (0 \<le> eu - ev + c + 62 \<longrightarrow> t div 10 ^ nat (eu - ev + c + 62) = join q1 q0) \<and>
    (\<forall>n. eu - ev + c + 62 < int n \<longrightarrow> t < 10 ^ (n + 17))"
proof -
  note X = operandD [OF x] and Y = operandD [OF y]
  have nm: "MANT_LO \<le> u1" "MANT_LO \<le> v1" "20 \<le> eu" "20 \<le> ev" using x y by (auto simp: operand_def)
  define U V where "U = join u1 u0" and "V = join v1 v0"
  obtain c q0 q1 where r: "eb_div v0 v1 u0 u1 = Some (c, q0, q1)" "limbs q1 q0" "MANT_LO \<le> q1"
    and c: "if V \<le> U then c = 1 \<and> join q1 q0 = U * 10 ^ 17 div V else c = 0 \<and> join q1 q0 = U * 10 ^ 18 div V"
    using eb_div_ok [OF Y(2) nm(2) X(2) nm(1)] unfolding U_def V_def by blast
  have c01: "c \<in> {0, 1}" and q: "join q1 q0 = U * 10 ^ nat (18 - c) div V" using c by (auto split: if_splits)
  have V0: "0 < V" "0 < U" using X(3) Y(3) by (auto simp: U_def V_def)
  have lt: "U < 10 ^ nat c * V" using c X(4) Y(3) by (auto simp: U_def V_def split: if_splits)
  have ab: "\<bar>x\<bar> = U * 10 ^ nat eu" "\<bar>y\<bar> = V * 10 ^ nat ev"
    using X(3) Y(3) by (simp_all add: X(6) Y(6) sgnd_def abs_mult U_def V_def)
  have t: "t = U * 10 ^ (nat eu + 80) div (V * 10 ^ nat ev)" by (simp add: t_def ab power_add mult.assoc)
  have t0: "0 \<le> t" using V0 by (simp add: t pos_imp_zdiv_nonneg_iff)
  have hi: "t div 10 ^ nat (eu - ev + c + 62) = join q1 q0" if k: "0 \<le> eu - ev + c + 62"
  proof -
    define n where "n = nat ev + nat (eu - ev + c + 62)"
    have "t div 10 ^ nat (eu - ev + c + 62) = U * 10 ^ (nat eu + 80) div (V * 10 ^ n)"
      unfolding t n_def power_add by (simp only: zdiv_zmult2_eq [symmetric] zero_le_power zero_le_numeral mult.assoc)
    also have "nat eu + 80 = nat (18 - c) + n" using k c01 nm by (auto simp: n_def)
    also have "U * 10 ^ (nat (18 - c) + n) div (V * 10 ^ n) = U * 10 ^ nat (18 - c) div V"
      by (simp add: power_add mult.assoc [symmetric])
    finally show ?thesis using q by simp
  qed
  have lo: "t < 10 ^ (n + 17)" if n: "eu - ev + c + 62 < int n" for n
  proof -
    have "U * 10 ^ (nat eu + 80) < 10 ^ nat c * V * 10 ^ (nat eu + 80)" using lt by (intro mult_strict_right_mono) auto
    also have "\<dots> = V * 10 ^ (nat c + (nat eu + 80))" by (simp only: power_add ac_simps)
    also have "\<dots> \<le> V * 10 ^ (n + 17 + nat ev)" using n c01 nm V0 by (intro mult_left_mono pow10_mono) auto
    also have "\<dots> = 10 ^ (n + 17) * (V * 10 ^ nat ev)" by (simp only: power_add ac_simps)
    finally show ?thesis unfolding t using V0 by (intro div_less_prod) auto
  qed
  show ?thesis using r c01 t0 hi lo by blast
qed

lemma div_flt_ok:
  assumes x: "operand x su u1 u0 eu" and y: "operand y sv v1 v0 ev"
    and u: "su = sgn_of u" "u1 = m1 u" "u0 = m0 u" "eu = e_of u" and v: "sv = sgn_of v" "v1 = m1 v" "v0 = m0 v" "ev = e_of v"
  shows "num_outcome (div_flt u v q) (div_spec x y)"
proof -
  note X = operandD [OF x] and Y = operandD [OF y]
  define t where "t = \<bar>x\<bar> * 10 ^ 80 div \<bar>y\<bar>"
  obtain c q0 q1 where r: "eb_div v0 v1 u0 u1 = Some (c, q0, q1)" "limbs q1 q0" "MANT_LO \<le> q1" "0 \<le> t"
    and hi: "0 \<le> eu - ev + c + 62 \<Longrightarrow> t div 10 ^ nat (eu - ev + c + 62) = join q1 q0"
    and lo: "\<And>n. eu - ev + c + 62 < int n \<Longrightarrow> t < 10 ^ (n + 17)"
    using eb_div_quotient [OF x y, folded t_def] by blast
  have "div_spec x y = sgnd (xor1 su sv) (cut18 t)"
    unfolding div_spec_def t_def [symmetric] unfolding X(6) Y(6) using X(3) Y(3) by (intro sgn_xor1) auto
  moreover have "num_outcome (mul_store (q\<lparr>m0 := q0, m1 := q1\<rparr>) (eu - ev + c + 62) (xor1 su sv)) (sgnd (xor1 su sv) (cut18 t))"
    using hi lo [of 20] by (intro mul_store_ok [OF r(2,3) xor1_bit r(4)]) auto
  ultimately show ?thesis using r(1) by (simp add: div_flt_def u v MV_XBIAS_def)
qed

lemma sdiv_exact: "b \<noteq> 0 \<Longrightarrow> (b * k) sdiv b = (k::int)"
  by (cases "b < 0") (auto simp: signed_divide_int_def sgn_mult abs_mult sgn_mult_abs)

lemma div_ints_ok:
  assumes u: "wf_int u" and v: "wf_int v" "m1 v \<noteq> 0" and r: "int_path eb_mvint_div u v p = Some w" and b: "\<bar>m1 v\<bar> \<le> 999800000"
  shows "num_outcome (Inr w) (div_spec (numval u) (numval v))"
proof -
  have i: "is_int (mvtype u)" "is_int (mvtype v)" and ub: "\<bar>m1 u\<bar> < MANT_HI" using u v by (auto simp: wf_int_def)
  note E = eb_mvint_div_ok [OF ub v(2)]
  from r obtain t0 t1 where t: "eb_mvint_div (m1 u) (m1 v) = Some (t0, t1)" and w: "mvtype w = mv_or MV_NM MV_INT" "m1 w = t1"
    by (auto simp: int_path_def i split: option.splits)
  have d: "m1 v dvd m1 u * 1000" using E(3) b t by fastforce
  have rg: "\<bar>m1 u * 1000\<bar> < 10 ^ 9 * \<bar>m1 v\<bar>" using E(2) t by fastforce
  have t1: "t1 = m1 u * 1000 sdiv m1 v" using E(1) [OF d rg] t by simp
  obtain k where k: "m1 u * 1000 = m1 v * k" using d by auto
  have t1k: "t1 = k" unfolding t1 k by (rule sdiv_exact [OF v(2)])
  have kb: "\<bar>k\<bar> < 10 ^ 9"
  proof -
    have "\<bar>m1 v\<bar> * \<bar>k\<bar> < \<bar>m1 v\<bar> * 10 ^ 9" using rg unfolding k by (simp add: abs_mult mult.commute)
    then show ?thesis by (simp add: mult_less_cancel_left)
  qed
  have "\<bar>numval u\<bar> * 10 ^ 80 = \<bar>m1 u * 1000\<bar> * 10 ^ 77 * 10 ^ 77" by (simp add: numval_def i abs_mult)
  also have "\<dots> = (\<bar>k\<bar> * 10 ^ 77) * \<bar>numval v\<bar>" unfolding k by (simp add: numval_def i abs_mult)
  finally have q: "\<bar>numval u\<bar> * 10 ^ 80 div \<bar>numval v\<bar> = \<bar>k\<bar> * 10 ^ 77"
    using nonzero_mult_div_cancel_right [of "\<bar>numval v\<bar>" "\<bar>k\<bar> * 10 ^ 77"] v(2) by (simp only:) (simp add: numval_def i)
  have "sgn (m1 u * 1000) = sgn (m1 v) * sgn k" unfolding k by (rule sgn_mult)
  then have "sgn (m1 u) * sgn (m1 v) = sgn k * (sgn (m1 v) * sgn (m1 v))" by (simp add: sgn_mult)
  then have sg: "sgn (numval u * numval v) = sgn k" using v(2) by (simp add: numval_def i sgn_mult)
  have "div_spec (numval u) (numval v) = sgn k * cut18 (\<bar>k\<bar> * 10 ^ 77)" unfolding div_spec_def q sg ..
  also have "cut18 (\<bar>k\<bar> * 10 ^ 77) = \<bar>k\<bar> * 10 ^ 77" using kb by (intro cut18_exact) auto
  also have "sgn k * (\<bar>k\<bar> * 10 ^ 77) = k * 10 ^ 77" by (simp add: mult.assoc [symmetric] sgn_mult_abs)
  finally show ?thesis using small_outcome [of k w] kb w t1k by (simp add: MANT_HI_def)
qed

section \<open>Integer division\<close>

lemma idiv_store_eq: "EXPLO \<le> ex \<Longrightarrow> idiv_store q ex sg = mul_store q ex sg"
  by (auto simp: idiv_store_def mul_store_def mv_defs)

lemma idiv_cut_ok:
  assumes l: "limbs a1 a0" "MANT_LO \<le> a1" and ex: "62 < ex" "ex < 80"
  defines "z \<equiv> 10 ^ nat (80 - ex)"
  shows "\<exists>b1 b0. idiv_cut (q\<lparr>m0 := a0, m1 := a1\<rparr>) ex = q\<lparr>m0 := b0, m1 := b1\<rparr> \<and> limbs b1 b0 \<and> MANT_LO \<le> b1 \<and>
    join b1 b0 = join a1 a0 div z * z"
proof -
  have n: "10 ^ 8 \<le> a1" "a1 < 10 ^ 9" "0 \<le> a0" "a0 < 10 ^ 9" using l by (auto simp: limbs_def mv_defs)
  show ?thesis
  proof (cases "ex < 71")
    case True
    define k where "k = nat (71 - ex)"
    have k: "k \<le> 8" "nat (80 - ex) = 9 + k" "ten_pwr (71 - ex) = 10 ^ k" using True ex ten_pwr_eq [of "71 - ex"] by (auto simp: k_def)
    define b1 where "b1 = a1 div 10 ^ k * 10 ^ k"
    have "(10::int) ^ 8 = 10 ^ (8 - k) * 10 ^ k" using k by (simp flip: power_add)
    then have "10 ^ (8 - k) \<le> a1 div 10 ^ k" using n(1) by (metis nonzero_mult_div_cancel_right pow10_pos zdiv_mono1 less_numeral_extra(3) power_not_zero zero_neq_numeral)
    then have "10 ^ (8 - k) * 10 ^ k \<le> b1" unfolding b1_def by (intro mult_right_mono) auto
    then have b1: "10 ^ 8 \<le> b1" "b1 < 10 ^ 9"
      using \<open>10 ^ 8 = 10 ^ (8 - k) * 10 ^ k\<close> cut_le [of a1 k, folded b1_def] n by simp_all
    have "join a1 a0 div 10 ^ (9 + k) = (a1 * 10 ^ 9 + a0) div 10 ^ 9 div 10 ^ k" by (simp add: join_def mv_defs div_div_pow10 [symmetric])
    also have "(a1 * 10 ^ 9 + a0) div 10 ^ 9 = a1" using n by simp
    finally have j: "join a1 a0 div z * z = join b1 0" by (simp add: z_def k b1_def join_def mv_defs power_add)
    have "idiv_cut (q\<lparr>m0 := a0, m1 := a1\<rparr>) ex = q\<lparr>m0 := 0, m1 := b1\<rparr>"
      using True ex k n by (simp add: idiv_cut_def Let_def mv_defs b1_def sdiv_nonneg)
    then show ?thesis using b1 j by (intro exI [of _ b1] exI [of _ 0]) (simp add: limbs_def mv_defs)
  next
    case False
    define k where "k = nat (80 - ex)"
    have k: "k \<le> 9" "ten_pwr (80 - ex) = 10 ^ k" using False ex ten_pwr_eq [of "80 - ex"] by (auto simp: k_def)
    define b0 where "b0 = a0 div 10 ^ k * 10 ^ k"
    have "(10::int) ^ 9 = 10 ^ (9 - k) * 10 ^ k" using k by (simp flip: power_add)
    then have "join a1 a0 = a0 + a1 * 10 ^ (9 - k) * 10 ^ k" by (simp add: join_def mv_defs)
    then have "join a1 a0 div 10 ^ k = a1 * 10 ^ (9 - k) + a0 div 10 ^ k" by simp
    then have j: "join a1 a0 div z * z = join a1 b0" using \<open>(10::int) ^ 9 = 10 ^ (9 - k) * 10 ^ k\<close>
      by (simp add: z_def k_def [symmetric] join_def mv_defs b0_def algebra_simps)
    have "idiv_cut (q\<lparr>m0 := a0, m1 := a1\<rparr>) ex = q\<lparr>m0 := b0, m1 := a1\<rparr>"
      using False ex k n by (simp add: idiv_cut_def Let_def mv_defs b0_def sdiv_nonneg)
    then show ?thesis using n j cut_le [of a0 k] k by (intro exI [of _ a1] exI [of _ b0]) (simp add: limbs_def mv_defs b0_def)
  qed
qed

lemma idiv_flt_ok:
  assumes x: "operand x su u1 u0 eu" and y: "operand y sv v1 v0 ev"
    and u: "su = sgn_of u" "u1 = m1 u" "u0 = m0 u" "eu = e_of u" and v: "sv = sgn_of v" "v1 = m1 v" "v0 = m0 v" "ev = e_of v"
  shows "num_outcome (idiv_flt u v q) (idiv_spec x y)"
proof -
  note X = operandD [OF x] and Y = operandD [OF y]
  define t where "t = \<bar>x\<bar> * 10 ^ 80 div \<bar>y\<bar>"
  define n where "n = \<bar>x\<bar> div \<bar>y\<bar>"
  define sg where "sg = xor1 su sv"
  have ab: "\<bar>x\<bar> = join u1 u0 * 10 ^ nat eu" "\<bar>y\<bar> = join v1 v0 * 10 ^ nat ev"
    using X(3) Y(3) by (simp_all add: X(6) Y(6) sgnd_def abs_mult)
  have "t div 10 ^ 80 = \<bar>x\<bar> * 10 ^ 80 div (\<bar>y\<bar> * 10 ^ 80)" by (simp only: t_def zdiv_zmult2_eq zero_le_power zero_le_numeral)
  then have n: "n = t div 10 ^ 80" by (simp add: n_def)
  have "idiv_spec x y = sgn (x * y) * (cut18 n * 10 ^ 80)" by (simp add: idiv_spec_def n_def)
  also have "\<dots> = sgnd sg (cut18 n * 10 ^ 80)"
    unfolding sg_def X(6) Y(6) using X(3) Y(3) by (intro sgn_xor1) auto
  finally have sp: "idiv_spec x y = sgnd sg (cut18 n * 10 ^ 80)" .
  have zero: "num_outcome (Inr literal_zero) 0" "num_outcome (Inr (literal_zero\<lparr>mvtype := mv_or MV_NM MV_INT, m1 := 0\<rparr>)) 0"
    by (simp_all add: num_outcome_def wf_num_def wf_int_def numval_def literal_zero_def mv_defs)
  show ?thesis
  proof (cases "eu < ev")
    case True
    then have "\<bar>x\<bar> < \<bar>y\<bar>" unfolding ab using X(3,4) Y(3,4) X(5) by (intro mant_exp_less [of _ "10 ^ 17"]) auto
    then have "n = 0" by (simp add: n_def div_pos_pos_trivial)
    then show ?thesis using True zero u v sp by (simp add: idiv_flt_def Let_def MV_XBIAS_def sgnd_def)
  next
    case False
    obtain c q0 q1 where r: "eb_div v0 v1 u0 u1 = Some (c, q0, q1)" "limbs q1 q0" "MANT_LO \<le> q1" "0 \<le> t" "c \<in> {0, 1}"
      and hi: "0 \<le> eu - ev + c + 62 \<Longrightarrow> t div 10 ^ nat (eu - ev + c + 62) = join q1 q0"
      and lo: "\<And>n. eu - ev + c + 62 < int n \<Longrightarrow> t < 10 ^ (n + 17)"
      using eb_div_quotient [OF x y, folded t_def] by blast
    define ex where "ex = eu - ev + c + 62"
    have e62: "62 \<le> ex" using False r(5) by (auto simp: ex_def)
    have f: "idiv_flt u v q = mul_store (idiv_cut (q\<lparr>m0 := q0, m1 := q1\<rparr>) ex) ex sg"
      using False r(1) e62 idiv_store_eq [of ex] by (simp add: idiv_flt_def Let_def u v ex_def sg_def MV_XBIAS_def EXPLO_def algebra_simps)
    have M: "t div 10 ^ nat ex = join q1 q0" using hi e62 by (simp add: ex_def)
    have j: "10 ^ 17 \<le> join q1 q0" "join q1 q0 < 10 ^ 18" using r limbs_join [OF r(2)] join_norm [of q0 q1] by (auto simp: limbs_def)
    consider "ex = 62" | "62 < ex" "ex < 80" | "80 \<le> ex" using e62 by linarith
    then show ?thesis
    proof cases
      case 1
      then have "t < 10 ^ (63 + 17)" using lo [of 63] by (simp add: ex_def)
      then have "n = 0" unfolding n using r(4) by (intro div_pos_pos_trivial) auto
      moreover have "idiv_flt u v q = Inr (literal_zero\<lparr>mvtype := mv_or MV_NM MV_INT, m1 := 0\<rparr>)" unfolding f
        using 1 by (simp add: idiv_cut_def mul_store_def demote_def literal_zero_def mv_defs)
      ultimately show ?thesis using zero sp by (simp add: sgnd_def)
    next
      case 2
      obtain b1 b0 where b: "idiv_cut (q\<lparr>m0 := q0, m1 := q1\<rparr>) ex = q\<lparr>m0 := b0, m1 := b1\<rparr>" "limbs b1 b0" "MANT_LO \<le> b1"
        "join b1 b0 = join q1 q0 div 10 ^ nat (80 - ex) * 10 ^ nat (80 - ex)" using idiv_cut_ok [OF r(2,3) 2] by blast
      have e: "nat ex + nat (80 - ex) = 80" using 2 by simp
      have "n = join q1 q0 div 10 ^ nat (80 - ex)" unfolding n M [symmetric] div_div_pow10 e ..
      then have bn: "join b1 b0 = n * 10 ^ nat (80 - ex)" and nb: "0 \<le> n" "n \<le> join q1 q0"
        using b(4) div_pow10 [of "join q1 q0" "nat (80 - ex)"] j by auto
      have "n * 10 ^ 80 = n * 10 ^ (nat ex + nat (80 - ex))" by (simp only: e)
      then have v80: "n * 10 ^ 80 = join b1 b0 * 10 ^ nat ex" by (simp only: bn power_add ac_simps)
      have "cut18 n = n" using cut18_exact [of n 0] nb j by simp
      moreover have "num_outcome (mul_store (q\<lparr>m0 := b0, m1 := b1\<rparr>) ex sg) (sgnd sg (join b1 b0 * 10 ^ nat ex))"
        using mul_store_eq [OF b(2), of sg] add_store_ok [OF b(2,3), of ex sg] 2 xor1_bit [of su sv] by (simp add: sg_def)
      ultimately show ?thesis unfolding f b(1) sp v80 [symmetric] by simp
    next
      case 3
      have e: "80 + nat (ex - 80) = nat ex" using 3 by simp
      have "n div 10 ^ nat (ex - 80) = join q1 q0" unfolding n div_div_pow10 e M ..
      from cut18_eq [OF j this] have "cut18 n * 10 ^ 80 = join q1 q0 * (10 ^ 80 * 10 ^ nat (ex - 80))" by simp
      also have "(10::int) ^ 80 * 10 ^ nat (ex - 80) = 10 ^ nat ex" unfolding e [symmetric] by (simp only: power_add)
      finally have "cut18 n * 10 ^ 80 = join q1 q0 * 10 ^ nat ex" .
      moreover have "idiv_cut (q\<lparr>m0 := q0, m1 := q1\<rparr>) ex = q\<lparr>m0 := q0, m1 := q1\<rparr>" using 3 by (simp add: idiv_cut_def mv_defs)
      moreover have "num_outcome (mul_store (q\<lparr>m0 := q0, m1 := q1\<rparr>) ex sg) (sgnd sg (join q1 q0 * 10 ^ nat ex))"
        using mul_store_eq [OF r(2), of sg] add_store_ok [OF r(2,3), of ex sg] 3 xor1_bit [of su sv] by (simp add: sg_def)
      ultimately show ?thesis unfolding f sp by simp
    qed
  qed
qed

lemma idiv_ints_ok:
  assumes u: "wf_int u" and v: "wf_int v" "m1 v \<noteq> 0" and r: "int_path eb_int_div u v p = Some w"
  shows "num_outcome (Inr w) (idiv_spec (numval u) (numval v))"
proof -
  have i: "is_int (mvtype u)" "is_int (mvtype v)" and ub: "\<bar>m1 u\<bar> < MANT_HI" using u v by (auto simp: wf_int_def)
  note E = eb_int_div_ok [OF ub v(2)]
  from r obtain t0 t1 where t: "eb_int_div (m1 u) (m1 v) = Some (t0, t1)" and w: "mvtype w = mv_or MV_NM MV_INT" "m1 w = t1"
    by (auto simp: int_path_def i split: option.splits)
  have rg: "\<bar>m1 u * 1000\<bar> < 10 ^ 9 * \<bar>m1 v\<bar>" using E(2) t by fastforce
  define k where "k = \<bar>m1 u\<bar> div \<bar>m1 v\<bar>"
  define sg where "sg = sgn (m1 u) * sgn (m1 v)"
  have "t1 = (m1 u sdiv m1 v) * 1000" using E(1) rg t by auto
  then have t1: "t1 = sg * k * 1000" by (simp add: signed_divide_int_def k_def sg_def sgn_mult)
  have k: "0 \<le> k" "k < 10 ^ 6"
  proof -
    show "0 \<le> k" using v(2) by (simp add: k_def pos_imp_zdiv_nonneg_iff)
    have "\<bar>m1 u\<bar> < 10 ^ 6 * \<bar>m1 v\<bar>" using rg by (simp add: abs_mult)
    then show "k < 10 ^ 6" unfolding k_def using v(2) by (intro div_less_prod) auto
  qed
  have "\<bar>numval u\<bar> div \<bar>numval v\<bar> = k" by (simp add: numval_def i abs_mult k_def)
  then have "idiv_spec (numval u) (numval v) = sg * cut18 k * 10 ^ 80" by (simp add: idiv_spec_def sg_def numval_def i sgn_mult)
  also have "cut18 k = k" using cut18_exact [of k 0] k by simp
  finally have "idiv_spec (numval u) (numval v) = t1 * 10 ^ 77" by (simp add: t1)
  moreover have "\<bar>t1\<bar> < MANT_HI" using k by (auto simp: t1 sg_def mv_defs sgn_if)
  ultimately show ?thesis using small_outcome [of t1 w] w by simp
qed

section \<open>Zero operands\<close>

lemma lval_0_digits: "digits_ok ds \<Longrightarrow> lval ds = 0 \<Longrightarrow> k < length ds \<Longrightarrow> ds ! k = 0"
  using lval_top_zero [of ds k] by (simp add: RADIX_def)

lemma eb_mul_zero:
  assumes v: "limbs v1 v0" and u: "limbs u1 u0" and z: "join v1 v0 = 0 \<or> join u1 u0 = 0"
  shows "eb_mul v0 v1 u0 u1 = (- 1, 0, 0)"
proof -
  note V = eb_digits_ok [OF v] and U = eb_digits_ok [OF u]
  define ds where "ds = mul_rows (eb_digits v0 v1) (eb_digits u0 u1) 0 (replicate 9 0)"
  have rz: "lval (replicate 9 0) = 0" "digits_ok (replicate 9 0)" by (simp_all add: numeral_eq_Suc mv_defs)
  have D: "length ds = 9" "digits_ok ds" "lval ds = 0"
    using mul_rows_ok [OF V(1,3) U(1) _ rz(2), of 0 0] z unfolding ds_def by (auto simp: V U rz RADIX_def)
  have "ds ! k = 0" if "k < 9" for k using lval_0_digits [OF D(2,3)] that D(1) by simp
  then show ?thesis unfolding eb_mul_def Let_def ds_def [symmetric] by (simp add: RADIX_def)
qed

lemma eb_div_zero:
  assumes x: "limbs x1 x0" "MANT_LO \<le> x1"
  shows "eb_div x0 x1 0 0 = Some (0, 0, 0)"
proof -
  have le: "\<not> x1 < 0" "x1 \<noteq> 0" using x by (auto simp: limbs_def mv_defs)
  define xx ys where "xx = break100 x0 x1" and "ys = replicate 5 0 @ break100 0 0"
  have z0: "limbs 0 0" "join 0 0 = 0" by (simp_all add: limbs_def join_def mv_defs)
  note BX = break_ok [OF x(1)] and BY = break_ok [OF z0(1)]
  have xx: "digits_ok xx" "length xx = 5" "0 < xx ! 4"
    using BX x by (auto simp: xx_def limbs_def mv_defs pos_imp_zdiv_pos_iff)
  have x0: "0 < lval xx" using BX(2) x join_norm [of x0 x1] by (simp add: xx_def limbs_def)
  have ys: "digits_ok ys" "length ys = 10" "lval ys = 0"
    using BY z0 by (auto simp: ys_def lval_append lval_zeros digits_ok_def RADIX_def)
  obtain qx t where L: "div_loop xx 5 ys [] = Some qx" "digits_ok qx" "length qx = 5" "0 \<le> t" "lval qx * lval xx + t = 0"
    using div_loop_ok [OF xx ys(1,2), of 5 "[]"] x0 by (auto simp: ys RADIX_def)
  have "0 \<le> lval qx * lval xx" using lval_bounds [OF L(2)] x0 by simp
  then have "lval qx * lval xx = 0" using L(4,5) by linarith
  then have "lval qx = 0" using x0 by simp
  then have "qx ! k = 0" if "k < 5" for k using lval_0_digits [OF L(2)] that L(3) by simp
  then show ?thesis using le xx(3) L(1) unfolding eb_div_def Let_def xx_def [symmetric] ys_def [symmetric]
    by (simp add: ys_def)
qed

text \<open>The magnitude of a float gives its exponent.\<close>

lemma flt_magnitude:
  assumes "wf_flt v"
  shows "10 ^ (17 + n) \<le> \<bar>numval v\<bar> \<longleftrightarrow> int n \<le> e_of v"
proof -
  note b = wf_flt_bounds [OF assms]
  have ab: "\<bar>numval v\<bar> = mant v * 10 ^ nat (e_of v)" using b assms by (auto simp: numval_def wf_flt_def abs_mult)
  show ?thesis
  proof
    assume "int n \<le> e_of v"
    then have "(10::int) ^ 17 * 10 ^ n \<le> mant v * 10 ^ nat (e_of v)" using b by (intro mult_mono pow10_mono) auto
    then show "10 ^ (17 + n) \<le> \<bar>numval v\<bar>" by (simp add: ab power_add)
  next
    assume h: "10 ^ (17 + n) \<le> \<bar>numval v\<bar>"
    show "int n \<le> e_of v"
    proof (rule ccontr)
      assume "\<not> int n \<le> e_of v"
      then have "mant v * 10 ^ nat (e_of v) < 10 ^ 17 * 10 ^ n" using b by (intro mant_exp_less [of _ "10 ^ 17"]) auto
      then show False using h by (simp add: ab power_add)
    qed
  qed
qed

lemma promoted_zero: "wf_num u \<Longrightarrow> numval u = 0 \<Longrightarrow> is_int (mvtype u) \<and> m1 u = 0 \<and> promoted u = literal_zero"
  using wf_num_cases [of u] wf_flt_bounds(4) [of u] by (auto simp: numval_def promoted_def promote_def split: if_splits)

lemma promoted_float [simp]: "wf_flt v \<Longrightarrow> promoted v = v"
  by (simp add: promoted_def wf_flt_def)

lemma num_limbs: "wf_flt v \<Longrightarrow> limbs (m1 v) (m0 v) \<and> MANT_LO \<le> m1 v"
  by (auto simp: wf_flt_def limbs_def mv_defs)

lemma zero_limbs: "limbs 0 0" "join 0 0 = 0"
  by (simp_all add: limbs_def join_def mv_defs)

lemma mul_flt_zero:
  assumes "wf_flt v"
  shows "mul_flt literal_zero v p = mul_store (p\<lparr>m0 := 0, m1 := 0\<rparr>) (e_of v - 63) (xor1 0 (sgn_of v))"
    and "mul_flt v literal_zero p = mul_store (p\<lparr>m0 := 0, m1 := 0\<rparr>) (e_of v - 63) (xor1 (sgn_of v) 0)"
  using eb_mul_zero [OF zero_limbs(1), of "m1 v" "m0 v"] eb_mul_zero [of "m1 v" "m0 v" 0 0] num_limbs [OF assms] zero_limbs
  by (simp_all add: mul_flt_def literal_zero_def MV_XBIAS_def)

lemma div_flt_zero:
  "wf_flt v \<Longrightarrow> div_flt literal_zero v p = mul_store (p\<lparr>m0 := 0, m1 := 0\<rparr>) (62 - e_of v) (xor1 0 (sgn_of v))"
  using eb_div_zero [of "m1 v" "m0 v"] num_limbs [of v] by (simp add: div_flt_def literal_zero_def MV_XBIAS_def)

lemma zero_outcome: "num_outcome (Inr literal_zero) 0"
  by (simp add: num_outcome_def wf_num_def wf_int_def numval_def literal_zero_def mv_defs)

lemma store_small: "ex < 20 \<Longrightarrow> mul_store p ex sg = Inr literal_zero"
  by (simp add: mul_store_def mv_defs)

lemma int_path_float: "\<not> is_int (mvtype u) \<or> \<not> is_int (mvtype v) \<Longrightarrow> int_path f u v p = None"
  by (auto simp: int_path_def)

section \<open>Properties\<close>

text \<open>
  C32. \<open>op_mul\<close> on numbers in any mix of forms: the exact product cut to 18 digits, as a well-formed
  number, with NUMOFLOW from \<open>10^47\<close> up and zero below \<open>10^-43\<close>.  A zero factor in integer form times a
  float needs the float below \<open>10^20\<close>: from there on the result is not a normal zero
  (\<open>zero_product_unnormalised\<close>).
\<close>

theorem op_mul_product:
  assumes u: "wf_num u" and v: "wf_num v"
    and z: "numval u = 0 \<or> numval v = 0 \<longrightarrow>
      (is_int (mvtype u) \<and> is_int (mvtype v)) \<or> (\<bar>numval u\<bar> < 10 ^ 100 \<and> \<bar>numval v\<bar> < 10 ^ 100)"
  shows "num_outcome (op_mul undef_inhibit u v p) (mul_spec (numval u) (numval v))"
proof (cases "int_path eb_int_mul u v p")
  case (Some w)
  then have "is_int (mvtype u)" "is_int (mvtype v)" by (auto simp: int_path_def split: if_splits)
  then have "wf_int u" "wf_int v" using u v by (auto dest: wf_num_cases)
  then show ?thesis using mul_ints_ok Some u v [THEN wf_num_nm] wf_num_nm [OF u] by (simp add: op_mul_def)
next
  case None
  then have eq: "op_mul undef_inhibit u v p = mul_flt (promoted u) (promoted v) p"
    using wf_num_nm [OF u] wf_num_nm [OF v] by (simp add: op_mul_def)
  have not_both: "wf_int u \<Longrightarrow> wf_int v \<Longrightarrow> numval u \<noteq> 0 \<and> numval v \<noteq> 0"
    using None eb_int_mul_ok [of "m1 u" "m1 v"] by (auto simp: int_path_def wf_int_def numval_def abs_if split: if_splits)
  consider "numval u \<noteq> 0" "numval v \<noteq> 0" | "numval u = 0" "wf_flt v" | "numval v = 0" "wf_flt u"
    using not_both wf_num_cases [OF u] wf_num_cases [OF v] promoted_zero [OF u] promoted_zero [OF v] by blast
  then show ?thesis
  proof cases
    case 1
    show ?thesis unfolding eq
      by (rule mul_flt_ok [OF promoted_operand(1) [OF u 1(1)] promoted_operand(1) [OF v 1(2)]]) simp_all
  next
    case 2
    then have "e_of v < 83" using z flt_magnitude [OF 2(2), of 83] by (auto simp: wf_flt_def)
    then show ?thesis using 2 promoted_zero [OF u] mul_flt_zero(1) [OF 2(2)] store_small zero_outcome
      by (simp add: eq mul_spec_def)
  next
    case 3
    then have "e_of u < 83" using z flt_magnitude [OF 3(2), of 83] by (auto simp: wf_flt_def)
    then show ?thesis using 3 promoted_zero [OF v] mul_flt_zero(2) [OF 3(2)] store_small zero_outcome
      by (simp add: eq mul_spec_def)
  qed
qed

theorem op_mul_product_witness:
  "num_outcome (op_mul False (ex_num 1500) ex_float (ex_num 0)) (mul_spec (numval (ex_num 1500)) (numval ex_float))"
  by (rule op_mul_product) (simp_all add: wf_num_def wf_int_def wf_flt_def ex_num_def ex_float_def numval_def mant_def mv_defs)

text \<open>
  C33. \<open>op_div\<close> on numbers: DIVZERO for a zero divisor, otherwise the exact quotient cut to 18 digits with
  the same overflow and underflow behaviour.  Two integer forms need a divisor of at most 999800 in
  magnitude, where the \<open>double\<close> quotient of \<open>eb_mvint_div\<close> still shows every fractional digit; a zero
  dividend with a float divisor needs the divisor at \<open>10^-20\<close> or above.
\<close>

theorem op_div_quotient:
  assumes u: "wf_num u" and v: "wf_num v"
    and i: "is_int (mvtype u) \<and> is_int (mvtype v) \<longrightarrow> \<bar>m1 v\<bar> \<le> 999800000"
    and z: "numval u = 0 \<longrightarrow> is_int (mvtype v) \<or> 10 ^ 60 \<le> \<bar>numval v\<bar>"
  shows "if numval v = 0 then op_div undef_inhibit u v q = Inl ERR_DIVZERO
    else num_outcome (op_div undef_inhibit u v q) (div_spec (numval u) (numval v))"
proof (cases "numval v = 0")
  case True
  then show ?thesis using promoted_zero [OF v True] wf_num_nm [OF u] wf_num_nm [OF v] by (simp add: op_div_def)
next
  case nz: False
  then have m1v: "is_int (mvtype v) \<Longrightarrow> m1 v \<noteq> 0" by (auto simp: numval_def)
  show ?thesis
  proof (cases "int_path eb_mvint_div u v q")
    case (Some w)
    then have iu: "is_int (mvtype u)" "is_int (mvtype v)" by (auto simp: int_path_def split: if_splits)
    then have "wf_int u" "wf_int v" using u v by (auto dest: wf_num_cases)
    then show ?thesis using div_ints_ok [OF _ _ m1v Some] i iu m1v Some nz wf_num_nm [OF u] wf_num_nm [OF v]
      by (simp add: op_div_def)
  next
    case None
    then have eq: "op_div undef_inhibit u v q = div_flt (promoted u) (promoted v) q"
      using m1v wf_num_nm [OF u] wf_num_nm [OF v] by (auto simp: op_div_def)
    show ?thesis
    proof (cases "numval u = 0")
      case False
      have "num_outcome (op_div undef_inhibit u v q) (div_spec (numval u) (numval v))" unfolding eq
        by (rule div_flt_ok [OF promoted_operand(1) [OF u False] promoted_operand(1) [OF v nz]]) simp_all
      then show ?thesis using nz by simp
    next
      case True
      have fl: "wf_flt v"
      proof (rule ccontr)
        assume "\<not> wf_flt v"
        then have w: "wf_int v" "wf_int u" using wf_num_cases [OF v] promoted_zero [OF u True] wf_num_cases [OF u] by auto
        then have "eb_mvint_div (m1 u) (m1 v) = Some (0, m1 u * 1000 sdiv m1 v)"
          using promoted_zero [OF u True] m1v by (intro eb_mvint_div_ok(1)) (auto simp: wf_int_def mv_defs)
        then show False using None w by (simp add: int_path_def wf_int_def)
      qed
      then have "43 \<le> e_of v" using z True flt_magnitude [OF fl, of 43] by (auto simp: wf_flt_def)
      then show ?thesis using nz True fl promoted_zero [OF u True] div_flt_zero [OF fl] store_small zero_outcome
        by (simp add: eq div_spec_def)
    qed
  qed
qed

theorem op_div_quotient_witness:
  "num_outcome (op_div False (ex_num 1500) ex_float (ex_num 0)) (div_spec (numval (ex_num 1500)) (numval ex_float))
   \<and> op_div False ex_float (ex_num 0) ex_float = Inl ERR_DIVZERO"
  using op_div_quotient [of "ex_num 1500" ex_float False "ex_num 0"] op_div_quotient [of ex_float "ex_num 0" False ex_float]
  by (simp add: wf_num_def wf_int_def wf_flt_def ex_num_def ex_float_def numval_def mant_def mv_defs)

text \<open>
  C34. \<open>op_idiv\<close> on numbers: DIVZERO for a zero divisor, otherwise the integer part of the quotient
  (towards zero), cut to 18 digits, with NUMOFLOW from \<open>10^47\<close> up; for every mix of forms.
\<close>

theorem op_idiv_quotient:
  assumes u: "wf_num u" and v: "wf_num v"
  shows "if numval v = 0 then op_idiv undef_inhibit u v q = Inl ERR_DIVZERO
    else num_outcome (op_idiv undef_inhibit u v q) (idiv_spec (numval u) (numval v))"
proof (cases "numval v = 0")
  case True
  then show ?thesis using promoted_zero [OF v True] wf_num_nm [OF u] wf_num_nm [OF v] by (simp add: op_idiv_def)
next
  case nz: False
  then have m1v: "is_int (mvtype v) \<Longrightarrow> m1 v \<noteq> 0" by (auto simp: numval_def)
  show ?thesis
  proof (cases "int_path eb_int_div u v q")
    case (Some w)
    then have iu: "is_int (mvtype u)" "is_int (mvtype v)" by (auto simp: int_path_def split: if_splits)
    then have "wf_int u" "wf_int v" using u v by (auto dest: wf_num_cases)
    then show ?thesis using idiv_ints_ok [OF _ _ m1v Some] iu m1v Some nz wf_num_nm [OF u] wf_num_nm [OF v]
      by (simp add: op_idiv_def)
  next
    case None
    then have eq: "op_idiv undef_inhibit u v q = idiv_flt (promoted u) (promoted v) q"
      using m1v wf_num_nm [OF u] wf_num_nm [OF v] by (auto simp: op_idiv_def)
    have "num_outcome (op_idiv undef_inhibit u v q) (idiv_spec (numval u) (numval v))"
    proof (cases "numval u = 0")
      case False
      show ?thesis unfolding eq
        by (rule idiv_flt_ok [OF promoted_operand(1) [OF u False] promoted_operand(1) [OF v nz]]) simp_all
    next
      case True
      then have "e_of (promoted u) = 0" using promoted_zero [OF u] by (simp add: literal_zero_def)
      moreover have "20 \<le> e_of (promoted v)" using promoted_operand(1) [OF v nz] by (simp add: operand_def)
      ultimately show ?thesis using True zero_outcome by (simp add: eq idiv_flt_def Let_def idiv_spec_def MV_XBIAS_def)
    qed
    then show ?thesis using nz by simp
  qed
qed

theorem op_idiv_quotient_witness:
  "num_outcome (op_idiv False (ex_num 1500) ex_float (ex_num 0)) (idiv_spec (numval (ex_num 1500)) (numval ex_float))"
  using op_idiv_quotient [of "ex_num 1500" ex_float False "ex_num 0"]
  by (simp add: wf_num_def wf_int_def wf_flt_def ex_num_def ex_float_def numval_def mant_def mv_defs)

text \<open>
  The modulo of two integer-form numbers is the floor modulo (the sign of the divisor), and DIVZERO
  for a zero divisor.
\<close>

theorem flt_mod_ints:
  assumes "wf_int u" "wf_int v"
  shows "if m1 v = 0 then flt_mod undef_inhibit w0 u v q = Inl ERR_DIVZERO
    else \<exists>r. flt_mod undef_inhibit w0 u v q = Inr r \<and> wf_num r \<and> numval r = numval u mod numval v"
proof (cases "m1 v = 0")
  case True
  then show ?thesis using assms by (simp add: flt_mod_def wf_int_def)
next
  case False
  then have b: "\<bar>m1 u mod m1 v\<bar> < MANT_HI"
  proof (cases "0 < m1 v")
    case True
    show ?thesis using pos_mod_bound [OF True, of "m1 u"] pos_mod_sign [OF True, of "m1 u"] assms unfolding wf_int_def by linarith
  next
    case n: False
    with False have "m1 v < 0" by simp
    from neg_mod_bound [OF this, of "m1 u"] neg_mod_sign [OF this, of "m1 u"] assms show ?thesis unfolding wf_int_def by linarith
  qed
  have "numval u mod numval v = (m1 u mod m1 v) * 10 ^ 77" using assms by (simp add: numval_def wf_int_def)
  with b False assms show ?thesis by (auto simp: flt_mod_def wf_int_def eb_int_mod_ok numval_def wf_num_def abs_if split: if_splits)
qed

theorem flt_mod_ints_witness:
  "\<exists>r. flt_mod False ex_float (ex_num (- 7000)) (ex_num 3000) ex_float = Inr r \<and> wf_num r \<and> numval r = 2 * 10 ^ 80"
  using flt_mod_ints [of "ex_num (- 7000)" "ex_num 3000" False ex_float ex_float]
  by (simp add: wf_int_def ex_num_def mv_defs numval_def)

text \<open>
  C35. An integer zero times a float of \<open>10^20\<close> or more is stored as a float with a zero mantissa, which is
  not one of the well-formed numbers: \<open>numcmp\<close> finds it different from zero, and dividing by it passes
  the DIVZERO test of \<open>op_div\<close> and divides by zero in \<open>eb_div\<close>.
\<close>

theorem zero_product_unnormalised:
  assumes u: "wf_int u" "m1 u = 0" and v: "wf_flt v" "83 \<le> e_of v"
  shows "\<exists>r. op_mul undef_inhibit u v p = Inr r \<and> numval r = 0 \<and> \<not> wf_num r \<and>
    numcmp undef_inhibit r u \<noteq> Inr 0 \<and> op_div undef_inhibit u r q = Inl SIGFPE"
proof -
  have i: "is_nm (mvtype u)" "is_int (mvtype u)" "is_nm (mvtype v)" "\<not> is_int (mvtype v)" "e_of v < 110"
    using u v by (auto simp: wf_int_def wf_flt_def mv_defs)
  define r where "r = p\<lparr>m0 := 0, m1 := 0, mvtype := MV_NM, sgn_of := xor1 0 (sgn_of v), e_of := e_of v - 63\<rparr>"
  have pu: "promoted u = literal_zero" using u i by (simp add: promoted_def promote_def)
  have "op_mul undef_inhibit u v p = mul_flt (promoted u) (promoted v) p"
    using i by (simp add: op_mul_def int_path_float)
  also have "\<dots> = Inr r" using mul_flt_zero(1) [OF v(1)] v(2) i pu by (simp add: promoted_def mul_store_def mv_defs r_def)
  finally have op: "op_mul undef_inhibit u v p = Inr r" .
  have wf: "numval r = 0" "\<not> wf_num r" by (simp_all add: r_def numval_def mant_def wf_num_def wf_int_def wf_flt_def mv_defs)
  have cmp: "numcmp undef_inhibit r u \<noteq> Inr 0"
    using i u v by (simp add: numcmp_def r_def numcmp_num_def numcmp_flt_def promote_def literal_zero_def Let_def)
  have "eb_div 0 0 0 0 = None" by (simp add: eb_div_def break100_def Let_def RADIX_def eval_nat_numeral)
  then have "op_div undef_inhibit u r q = Inl SIGFPE" using i u pu
    by (simp add: op_div_def r_def int_path_float) (simp add: promoted_def div_flt_def literal_zero_def)
  with op wf cmp show ?thesis by blast
qed

theorem zero_product_unnormalised_witness:
  "\<exists>r. op_mul False (ex_num 0) (ex_float\<lparr>e_of := 90\<rparr>) (ex_num 0) = Inr r \<and> numval r = 0 \<and> \<not> wf_num r \<and>
    numcmp False r (ex_num 0) \<noteq> Inr 0 \<and> op_div False (ex_num 0) r (ex_num 0) = Inl SIGFPE"
  by (rule zero_product_unnormalised) (simp_all add: wf_int_def wf_flt_def ex_num_def ex_float_def mv_defs)

end
