(* ===== verification/MvalConv.thy ===== *)
theory MvalConv
  imports EbInt
begin

text \<open>
  The conversions between C numbers and mvals, \<open>mvalconv.c\<close>: 32- and 64-bit integers to mvals and
  back, mvals to \<open>double\<close>, and the test \<open>isint\<close>.  C integers are \<^typ>\<open>int\<close> with the wrap-around of their
  width written out.  The theorems: integers convert exactly, the conversions back truncate towards
  zero over the whole range of the target type, and so the round trips are exact.
\<close>

section \<open>C integer widths\<close>

definition u32 :: "int \<Rightarrow> int" where "u32 x = x mod 2 ^ 32"
definition s32 :: "int \<Rightarrow> int" where "s32 x = (x + 2 ^ 31) mod 2 ^ 32 - 2 ^ 31"
definition u64 :: "int \<Rightarrow> int" where "u64 x = x mod 2 ^ 64"
definition s64 :: "int \<Rightarrow> int" where "s64 x = (x + 2 ^ 63) mod 2 ^ 64 - 2 ^ 63"

definition MAXPOSINT4 :: int where "MAXPOSINT4 = 2147483647"
definition MAXUINT4 :: int where "MAXUINT4 = 4294967295"

section \<open>Integers to mvals\<close>

text \<open>
  \<open>i2smval\<close> (called nowhere in the sources): the loop to the leading digit, the digit loop (the string and
  what is left of \<open>i\<close>), and the stores.  \<open>exp\<close> is 0 when they are done.
\<close>

function i2s_lead :: "int \<Rightarrow> int \<Rightarrow> int" where
  "i2s_lead i ex = (if 0 < ex \<and> i sdiv ex = 0 then i2s_lead i (ex sdiv 10) else ex)"
  by pat_completeness auto
termination
  by (relation "measure (\<lambda>(i, ex). nat ex)") (auto simp: sdiv_nonneg)

function i2s_digits :: "int \<Rightarrow> int \<Rightarrow> bytes \<Rightarrow> bytes \<times> int" where
  "i2s_digits i ex s =
    (let n = i sdiv ex;
         s = s @ [of_int (n + 48)];
         i = i - n * ex;
         ex = ex sdiv 10
     in if ex \<le> 0 then (s, i) else i2s_digits i ex s)"
  by pat_completeness auto
termination
proof (relation "measure (\<lambda>(i, ex, s). nat ex)", goal_cases)
  case (2 i ex s x xa xb xc)
  then have "0 < ex sdiv 10" by simp
  then have "0 < ex" by (cases "ex \<le> 0") (auto simp: signed_divide_int_def sgn_if mult_le_0_iff split: if_splits)
  with 2 show ?case by (simp add: sdiv_nonneg)
qed simp

declare i2s_lead.simps [simp del] i2s_digits.simps [simp del]

definition i2smval :: "mval \<Rightarrow> int \<Rightarrow> mval" where
  "i2smval v i =
    (let v = v\<lparr>mvtype := mv_or MV_NM MV_STR, m1 := s32 i, sgn_of := 0\<rparr>;
         ex = i2s_lead i 100000000;
         (s, i) = (if ex = 0 then ([0], i) else i2s_digits i ex []);
         v = (if m1 v < INT_HI then v\<lparr>mvtype := mv_or (mvtype v) MV_INT, m1 := s32 (u32 (MV_BIAS * i))\<rparr>
              else if m1 v < MANT_HI then v\<lparr>m1 := s32 (m1 v * ten_pwr NUM_DEC_DG_1L), m0 := 0\<rparr>
              else v\<lparr>m0 := (m1 v smod 10) * MANT_LO, m1 := m1 v sdiv 10\<rparr>)
     in v\<lparr>str_of := s, e_of := int (length s) + MV_XBIAS\<rparr>)"

definition xi2mval :: "mval \<Rightarrow> int \<Rightarrow> mval" where
  "xi2mval v i =
    (if i < INT_HI then
       v\<lparr>mvtype := mv_or (mvtype v) MV_INT, m1 := MV_BIAS * (if sgn_of v \<noteq> 0 then - s32 i else i)\<rparr>
     else if i < MANT_HI then
       let (m, k) = norm_mant i 0 in v\<lparr>e_of := EXP_IDX_BIAL - k, m0 := 0, m1 := m\<rparr>
     else v\<lparr>m0 := (i smod 10) * MANT_LO, m1 := i sdiv 10, e_of := EXP_IDX_BIAL + 1\<rparr>)"

definition i2usmval :: "mval \<Rightarrow> int \<Rightarrow> mval" where
  "i2usmval v i = xi2mval (v\<lparr>mvtype := MV_NM, sgn_of := 0\<rparr>) i"

definition i2mval :: "mval \<Rightarrow> int \<Rightarrow> mval" where
  "i2mval v i =
    (let v = v\<lparr>mvtype := MV_NM\<rparr>
     in if i < 0 then xi2mval (v\<lparr>sgn_of := 1\<rparr>) (u32 (s32 (- i))) else xi2mval (v\<lparr>sgn_of := 0\<rparr>) i)"

text \<open>\<open>%lld\<close> and \<open>%llu\<close>.\<close>

fun dec_digits :: "nat \<Rightarrow> bytes" where
  "dec_digits n = (if n < 10 then [of_nat (n + 48)] else dec_digits (n div 10) @ [of_nat (n mod 10 + 48)])"

declare dec_digits.simps [simp del]

definition fmt_dec :: "int \<Rightarrow> bytes" where
  "fmt_dec i = (if i < 0 then 45 # dec_digits (nat (- i)) else dec_digits (nat i))"

text \<open>
  The loop that normalises the two halves of a number of 10 to 18 digits; \<open>high\<close> is positive there and
  \<open>low\<close> is unsigned.
\<close>

function xi8_norm :: "int \<Rightarrow> int \<Rightarrow> int \<Rightarrow> int \<times> int \<times> int" where
  "xi8_norm high low ex =
    (if 0 < high \<and> 0 \<le> low \<and> high < MANT_LO then
       xi8_norm (high * 10 + low div MANT_LO) ((low mod MANT_LO) * 10) (ex - 1)
     else (high, low, ex))"
  by pat_completeness auto
termination
proof (relation "measure (\<lambda>(high, low, ex). if 0 < high then nat (MANT_LO - high) else 0)", goal_cases)
  case (2 high low ex)
  then have "0 \<le> low div MANT_LO" by (simp add: mv_defs pos_imp_zdiv_nonneg_iff)
  with 2 have "high < high * 10 + low div MANT_LO" by linarith
  with 2 show ?case by simp
qed simp

declare xi8_norm.simps [simp del]

definition xi82mval :: "mval \<Rightarrow> int \<Rightarrow> mval" where
  "xi82mval v i =
    (if i < INT_HI then
       v\<lparr>mvtype := mv_or (mvtype v) MV_INT, m1 := MV_BIAS * (if sgn_of v \<noteq> 0 then - s32 i else i)\<rparr>
     else if i < MANT_HI then
       let (high, k) = norm_mant i 0 in v\<lparr>e_of := EXP_IDX_BIAL - k, m0 := 0, m1 := high\<rparr>
     else if i < MANT_HI * MANT_HI then
       let (high, low, ex) = xi8_norm (i div MANT_HI) (i mod MANT_HI) (EXP_IDX_BIAL + 9)
       in v\<lparr>e_of := ex, m0 := low, m1 := high\<rparr>
     else v\<lparr>mvtype := MV_STR, str_of := (if sgn_of v \<noteq> 0 then fmt_dec (s64 (- s64 i)) else fmt_dec i)\<rparr>)"

definition ui82mval :: "mval \<Rightarrow> int \<Rightarrow> mval" where
  "ui82mval v i = xi82mval (v\<lparr>mvtype := MV_NM, sgn_of := 0\<rparr>) i"

definition i82mval :: "mval \<Rightarrow> int \<Rightarrow> mval" where
  "i82mval v i =
    (let v = v\<lparr>mvtype := MV_NM\<rparr>
     in if i < 0 then xi82mval (v\<lparr>sgn_of := 1\<rparr>) (u64 (- i)) else xi82mval (v\<lparr>sgn_of := 0\<rparr>) (u64 i))"

section \<open>Mvals to C numbers\<close>

text \<open>Every one of these forces a numeric value first; a string that does not convert raises its error.\<close>

definition with_num :: "bool \<Rightarrow> mval \<Rightarrow> (mval \<Rightarrow> 'a) \<Rightarrow> 'a result" where
  "with_num undef_inhibit v f =
    (case MV_FORCE_NUM undef_inhibit v of Inl err \<Rightarrow> Inl err | Inr v \<Rightarrow> Inr (f v))"

text \<open>\<open>mval2double\<close>, rounding after every operation: the two scaling loops and the final sum.\<close>

function dbl_up :: "rat \<Rightarrow> rat \<Rightarrow> int \<Rightarrow> rat \<times> rat \<times> int" where
  "dbl_up x y ex =
    (if ex > EXP_IDX_BIAL then dbl_up (dbl (x * of_int MANT_HI)) (dbl (y * of_int MANT_HI)) (ex - 9) else (x, y, ex))"
  by pat_completeness auto
termination
  by (relation "measure (\<lambda>(x, y, ex). nat (ex - EXP_IDX_BIAL))") auto

function dbl_down :: "rat \<Rightarrow> rat \<Rightarrow> int \<Rightarrow> rat \<times> rat \<times> int" where
  "dbl_down x y ex =
    (if ex < MV_XBIAS then dbl_down (dbl (x / of_int MANT_HI)) (dbl (y / of_int MANT_HI)) (ex + 9) else (x, y, ex))"
  by pat_completeness auto
termination
  by (relation "measure (\<lambda>(x, y, ex). nat (MV_XBIAS - ex))") auto

declare dbl_up.simps [simp del] dbl_down.simps [simp del]

definition num2double :: "mval \<Rightarrow> rat" where
  "num2double v =
    (let x = of_int (m1 v) in
     if is_int (mvtype v) then dbl (x / of_int MV_BIAS)
     else
       let y = dbl (of_int (m0 v) / of_int MANT_HI);
           (x, y, ex) = dbl_up x y (e_of v);
           (x, y, ex) = dbl_down x y ex;
           z = of_int (ten_pwr (EXP_IDX_BIAL - ex));
           x = dbl (dbl (x / z) + dbl (y / z))
       in if sgn_of v \<noteq> 0 then - x else x)"

definition mval2double :: "bool \<Rightarrow> mval \<Rightarrow> rat result" where
  "mval2double undef_inhibit v = with_num undef_inhibit v num2double"

text \<open>
  \<open>float2mval\<close> and \<open>double2mval\<close>: the text the C library prints for \<open>"%.6G"\<close> and \<open>"%.15G"\<close> (the parameter
  \<open>snprintf_G\<close>, by precision) is converted by \<open>s2n\<close>.
\<close>

definition text2mval :: "mval \<Rightarrow> bytes \<Rightarrow> mval result" where
  "text2mval dst buf =
    (case s2n False (dst\<lparr>mvtype := MV_STR, str_of := buf\<rparr>) of
       Inl err \<Rightarrow> Inl err
     | Inr r \<Rightarrow> Inr ((r_mval r)\<lparr>mvtype := (mvtype (r_mval r))\<lparr>is_str := False\<rparr>\<rparr>))"

definition float2mval :: "(nat \<Rightarrow> rat \<Rightarrow> bytes) \<Rightarrow> mval \<Rightarrow> rat \<Rightarrow> mval result" where
  "float2mval snprintf_G dst src = text2mval dst (snprintf_G 6 src)"

definition double2mval :: "(nat \<Rightarrow> rat \<Rightarrow> bytes) \<Rightarrow> mval \<Rightarrow> rat \<Rightarrow> mval result" where
  "double2mval snprintf_G dst src = text2mval dst (snprintf_G 15 src)"

text \<open>The mantissa digits left of the decimal point, for \<open>MV_XBIAS <= exp <= EXP_IDX_BIAL\<close>.\<close>

definition int_part :: "mval \<Rightarrow> int" where
  "int_part v = (if sgn_of v \<noteq> 0 then - m1 v else m1 v) sdiv ten_pwr (EXP_IDX_BIAL - e_of v)"

text \<open>
  A conversion of a \<open>double\<close> outside the target type is undefined in C: \<open>None\<close>.
\<close>

definition mval2i :: "bool \<Rightarrow> mval \<Rightarrow> int option result" where
  "mval2i undef_inhibit v = with_num undef_inhibit v (\<lambda>v.
     if is_int (mvtype v) then Some (m1 v sdiv MV_BIAS)
     else if e_of v > EXP_IDX_BIAL then
       let j = num2double v
       in if of_int MAXPOSINT4 \<ge> j then (if in_int4 (ctrunc j) then Some (ctrunc j) else None) else Some MAXPOSINT4
     else if e_of v < MV_XBIAS then Some 0
     else Some (int_part v))"

definition mval2ui :: "bool \<Rightarrow> mval \<Rightarrow> int option result" where
  "mval2ui undef_inhibit v = with_num undef_inhibit v (\<lambda>v.
     if is_int (mvtype v) then Some (u32 (m1 v sdiv MV_BIAS))
     else if e_of v > EXP_IDX_BIAL then
       let j = num2double v
       in if of_int MAXUINT4 \<ge> j then (if 0 \<le> ctrunc j then Some (ctrunc j) else None) else Some MAXUINT4
     else if e_of v < MV_XBIAS then Some 0
     else Some (u32 (int_part v)))"

text \<open>\<open>mval2i8\<close>: 64-bit products, wrapped where they do not fit.\<close>

function i8_up2 :: "int \<Rightarrow> int \<Rightarrow> int \<Rightarrow> int \<times> int \<times> int" where
  "i8_up2 x y ex =
    (if ex > EXP_IDX_BIAL + 18 then i8_up2 (s64 (x * MANT_HI)) (s64 (y * MANT_HI)) (ex - 9) else (x, y, ex))"
  by pat_completeness auto
termination
  by (relation "measure (\<lambda>(x, y, ex). nat (ex - EXP_IDX_BIAL))") auto

function i8_up1 :: "int \<Rightarrow> int \<Rightarrow> int \<times> int" where
  "i8_up1 x ex = (if ex > EXP_IDX_BIAL + 9 then i8_up1 (s64 (x * MANT_HI)) (ex - 9) else (x, ex))"
  by pat_completeness auto
termination
  by (relation "measure (\<lambda>(x, ex). nat (ex - EXP_IDX_BIAL))") auto

declare i8_up2.simps [simp del] i8_up1.simps [simp del]

definition i8_parts :: "mval \<Rightarrow> int \<times> int" where
  "i8_parts v =
    (if m0 v > 0 then
       let (x, y, ex) = i8_up2 (s64 (m1 v * MANT_HI)) (m0 v) (e_of v)
       in if ex \<ge> EXP_IDX_BIAL + 9
          then (s64 (x * ten_pwr (ex - EXP_IDX_BIAL - 9)), s64 (y * ten_pwr (ex - EXP_IDX_BIAL - 9)))
          else (x sdiv ten_pwr (EXP_IDX_BIAL + 9 - ex), y sdiv ten_pwr (EXP_IDX_BIAL + 9 - ex))
     else
       let (x, ex) = i8_up1 (m1 v) (e_of v) in (s64 (x * ten_pwr (ex - EXP_IDX_BIAL)), m0 v))"

definition mval2i8 :: "bool \<Rightarrow> mval \<Rightarrow> int result" where
  "mval2i8 undef_inhibit v = with_num undef_inhibit v (\<lambda>v.
     if is_int (mvtype v) then m1 v sdiv MV_BIAS
     else if e_of v > EXP_IDX_BIAL then
       let (x, y) = i8_parts v
       in if sgn_of v \<noteq> 0 then s64 (s64 (- x) - y) else s64 (x + y)
     else if e_of v < MV_XBIAS then 0
     else int_part v)"

definition mval2ui8 :: "bool \<Rightarrow> mval \<Rightarrow> int result" where
  "mval2ui8 undef_inhibit v = map_sum id u64 (mval2i8 undef_inhibit v)"

text \<open>\<open>isint\<close>: the result and \<open>*intval\<close> where it is stored.\<close>

definition isint :: "mval \<Rightarrow> bool \<times> int option" where
  "isint v =
    (if \<not> is_nm (mvtype v) \<or> is_approx (mvtype v) then (False, None)
     else if \<not> is_int (mvtype v) \<and> (MV_XBIAS \<ge> e_of v \<or> EXP_IDX_BIAL < e_of v \<or> 0 \<noteq> m0 v) then (False, None)
     else
       let divisor = (if is_int (mvtype v) then MV_BIAS else ten_pwr (EXP_IDX_BIAL - e_of v));
           m = (if is_int (mvtype v) then m1 v else if sgn_of v \<noteq> 0 then - m1 v else m1 v);
           m1_div = m sdiv divisor
       in (m1_div * divisor = m, Some m1_div))"

section \<open>Integers convert exactly\<close>

lemma s32_id: "- (2 ^ 31) \<le> x \<Longrightarrow> x < 2 ^ 31 \<Longrightarrow> s32 x = x"
  by (simp add: s32_def)

lemma s64_id: "- (2 ^ 63) \<le> x \<Longrightarrow> x < 2 ^ 63 \<Longrightarrow> s64 x = x"
  by (simp add: s64_def)

text \<open>A stored float: the limbs, sign and exponent give the number.\<close>

lemma float_stored:
  assumes "mvtype v = MV_NM" "sgn_of v \<in> {0, 1}" "limbs (m1 v) (m0 v)" "MANT_LO \<le> m1 v" "20 \<le> e_of v" "e_of v < 110"
  shows "wf_num v \<and> numval v = sgnd (sgn_of v) (join (m1 v) (m0 v) * 10 ^ nat (e_of v))"
  using assms by (auto simp: wf_num_def wf_flt_def numval_def mant_def sgnd_def limbs_def join_def) (auto simp: mv_defs algebra_simps)

lemma small_stored:
  assumes "0 \<le> i" "i < INT_HI" "mvtype v = MV_NM" "sgn_of v \<in> {0, 1}"
  defines "w \<equiv> v\<lparr>mvtype := mv_or (mvtype v) MV_INT, m1 := MV_BIAS * (if sgn_of v \<noteq> 0 then - s32 i else i)\<rparr>"
  shows "wf_num w \<and> numval w = sgnd (sgn_of v) (i * 10 ^ 80)"
  using assms by (auto simp: w_def wf_num_def wf_int_def numval_def sgnd_def s32_id mv_defs)

lemma nine_digits_stored:
  assumes i: "INT_HI \<le> i" "i < MANT_HI" and m: "norm_mant i 0 = (m, k)" and v: "mvtype v = MV_NM" "sgn_of v \<in> {0, 1}"
  defines "w \<equiv> v\<lparr>e_of := EXP_IDX_BIAL - k, m0 := 0, m1 := m\<rparr>"
  shows "wf_num w \<and> numval w = sgnd (sgn_of v) (i * 10 ^ 80)"
proof -
  obtain j where j: "m = i * 10 ^ j" "k = int j" "j \<le> 8" "MANT_LO \<le> m" "m < MANT_HI"
    using norm_mant_ok [of i 0] i m by (auto simp: mv_defs)
  have "join m 0 * 10 ^ nat (71 - k) = i * (10 ^ j * (10 ^ 9 * 10 ^ nat (71 - k)))" by (simp add: j join_def mv_defs)
  also have "(10::int) ^ j * (10 ^ 9 * 10 ^ nat (71 - k)) = 10 ^ (j + (9 + nat (71 - k)))" by (simp only: power_add)
  also have "j + (9 + nat (71 - k)) = 80" using j by simp
  finally have "join m 0 * 10 ^ nat (71 - k) = i * 10 ^ 80" .
  moreover have "wf_num w \<and> numval w = sgnd (sgn_of w) (join (m1 w) (m0 w) * 10 ^ nat (e_of w))"
    using j v by (intro float_stored) (auto simp: w_def limbs_def mv_defs)
  ultimately show ?thesis by (simp add: w_def EXP_IDX_BIAL_def MV_XBIAS_def)
qed

lemma xi2mval_ok:
  assumes i: "0 \<le> i" "i < 2 ^ 32" and v: "mvtype v = MV_NM" "sgn_of v \<in> {0, 1}"
  shows "wf_num (xi2mval v i) \<and> numval (xi2mval v i) = sgnd (sgn_of v) (i * 10 ^ 80)"
proof -
  consider "i < INT_HI" | "INT_HI \<le> i" "i < MANT_HI" | "MANT_HI \<le> i" by linarith
  then show ?thesis
  proof cases
    case 1
    then show ?thesis using small_stored [OF i(1) 1 v] by (simp add: xi2mval_def)
  next
    case 2
    obtain m k where m: "norm_mant i 0 = (m, k)" by fastforce
    then show ?thesis using nine_digits_stored [OF 2 m v] 2 by (simp add: xi2mval_def)
  next
    case 3
    obtain a b where ab: "i div 10 = a" "i mod 10 = b" "i = a * 10 + b" using div_mult_mod_eq [of i 10] by metis
    have b: "0 \<le> b" "b \<le> 9" "100000000 \<le> a" "a < 1000000000" using i 3 ab by (auto simp: mv_defs)
    define w where "w = v\<lparr>m0 := b * MANT_LO, m1 := a, e_of := EXP_IDX_BIAL + 1\<rparr>"
    have x: "xi2mval v i = w" using 3 i ab by (simp add: xi2mval_def w_def mv_defs sdiv_nonneg smod_nonneg)
    have "wf_num w \<and> numval w = sgnd (sgn_of w) (join (m1 w) (m0 w) * 10 ^ nat (e_of w))"
      using b v by (intro float_stored) (auto simp: w_def limbs_def mv_defs)
    moreover have "join (m1 w) (m0 w) * 10 ^ nat (e_of w) = i * 10 ^ 80" by (simp add: w_def join_def mv_defs ab(3))
    ultimately show ?thesis unfolding x by (simp add: w_def)
  qed
qed

lemma xi8_norm_ok:
  assumes "limbs high low" "0 < high"
  shows "\<exists>h l j. xi8_norm high low ex = (h, l, ex - int j) \<and> limbs h l \<and> MANT_LO \<le> h \<and> join h l = join high low * 10 ^ j \<and> high * 10 ^ j \<le> h"
  using assms
proof (induction high low ex rule: xi8_norm.induct)
  case (1 high low ex)
  show ?case
  proof (cases "high < MANT_LO")
    case False
    with 1 show ?thesis by (subst xi8_norm.simps) (intro exI [of _ high] exI [of _ low] exI [of _ 0], simp)
  next
    case True
    obtain a b where ab: "low div MANT_LO = a" "low mod MANT_LO = b" "low = a * MANT_LO + b" using div_mult_mod_eq [of low MANT_LO] by metis
    have bd: "0 \<le> a" "a \<le> 9" "0 \<le> b" "b < MANT_LO" using 1(2) ab by (auto simp: limbs_def mv_defs)
    have lm: "limbs (high * 10 + a) (b * 10)" "0 < high * 10 + a" using 1(2,3) bd True by (auto simp: limbs_def mv_defs)
    have jn: "join (high * 10 + a) (b * 10) = join high low * 10" by (simp add: join_def ab(3) mv_defs)
    have "0 \<le> low" using 1(2) by (simp add: limbs_def)
    with 1 True lm obtain h l j where j: "xi8_norm (high * 10 + a) (b * 10) (ex - 1) = (h, l, ex - 1 - int j)" "limbs h l"
      "MANT_LO \<le> h" "join h l = join (high * 10 + a) (b * 10) * 10 ^ j" "(high * 10 + a) * 10 ^ j \<le> h" unfolding ab(1,2) by blast
    have "high * 10 ^ Suc j \<le> (high * 10 + a) * 10 ^ j" using bd by (simp add: algebra_simps)
    moreover have "xi8_norm high low ex = (h, l, ex - int (Suc j))"
      using j(1) True 1(3) \<open>0 \<le> low\<close> by (subst xi8_norm.simps) (simp add: ab(1,2))
    moreover have "join h l = join high low * 10 ^ Suc j" using j(4) jn by simp
    ultimately show ?thesis using j(2,3,5) order_trans by blast
  qed
qed

lemma xi82mval_ok:
  assumes i: "0 \<le> i" "i < 10 ^ 18" and v: "mvtype v = MV_NM" "sgn_of v \<in> {0, 1}"
  shows "wf_num (xi82mval v i) \<and> numval (xi82mval v i) = sgnd (sgn_of v) (i * 10 ^ 80)"
proof -
  consider "i < INT_HI" | "INT_HI \<le> i" "i < MANT_HI" | "MANT_HI \<le> i" by linarith
  then show ?thesis
  proof cases
    case 1
    then show ?thesis using small_stored [OF i(1) 1 v] by (simp add: xi82mval_def)
  next
    case 2
    obtain m k where m: "norm_mant i 0 = (m, k)" by fastforce
    then show ?thesis using nine_digits_stored [OF 2 m v] 2 by (simp add: xi82mval_def)
  next
    case 3
    obtain a b where ab: "i div MANT_HI = a" "i mod MANT_HI = b" "i = a * MANT_HI + b" using div_mult_mod_eq [of i MANT_HI] by metis
    have bd: "limbs a b" "0 < a" using i 3 ab by (auto simp: limbs_def mv_defs)
    obtain h l j where h: "xi8_norm a b 80 = (h, l, 80 - int j)" "limbs h l" "MANT_LO \<le> h" "join h l = join a b * 10 ^ j" "a * 10 ^ j \<le> h"
      using xi8_norm_ok [OF bd] by blast
    have "1 * 10 ^ j \<le> a * 10 ^ j" using bd by (intro mult_right_mono) auto
    then have "10 ^ j \<le> h" using h(5) by linarith
    then have "(10::int) ^ j < 10 ^ 9" using h(2) by (simp add: limbs_def mv_defs)
    then have j: "j < 9" by (rule power_less_imp_less_exp [rotated]) simp
    define w where "w = v\<lparr>e_of := 80 - int j, m0 := l, m1 := h\<rparr>"
    have x: "xi82mval v i = w" using 3 i h(1) unfolding xi82mval_def w_def ab(1,2) by (simp add: mv_defs)
    have "join h l * 10 ^ nat (80 - int j) = i * 10 ^ (j + nat (80 - int j))" using h(4) by (simp add: join_def ab(3) power_add)
    also have "j + nat (80 - int j) = 80" using j by simp
    finally have "join (m1 w) (m0 w) * 10 ^ nat (e_of w) = i * 10 ^ 80" by (simp add: w_def)
    moreover have "wf_num w \<and> numval w = sgnd (sgn_of w) (join (m1 w) (m0 w) * 10 ^ nat (e_of w))"
      using h j v by (intro float_stored) (auto simp: w_def)
    ultimately show ?thesis unfolding x by (simp add: w_def)
  qed
qed

section \<open>The conversions back truncate towards zero\<close>

text \<open>Truncation of \<open>(-1)^sg * M * 10^e\<close>, with \<open>M\<close> of 18 digits, to a whole number of units \<open>10^80\<close>.\<close>

lemma sgnd_sdiv: "0 \<le> a \<Longrightarrow> 0 \<le> b \<Longrightarrow> sgnd sg a sdiv b = sgnd sg (a div b)"
  by (simp add: sgnd_def sdiv_neg_left sdiv_nonneg)

lemma trunc_low:
  assumes "limbs a b" "20 \<le> e" "e < 62"
  shows "sgnd sg (join a b * 10 ^ nat e) sdiv 10 ^ 80 = 0"
proof -
  have j: "0 \<le> join a b" "join a b < 10 ^ 18" using limbs_join [OF assms(1)] by auto
  have "join a b * 10 ^ nat e < 10 ^ 18 * 10 ^ nat e" using j by simp
  also have "\<dots> = 10 ^ (18 + nat e)" by (simp only: power_add)
  also have "\<dots> \<le> 10 ^ 80" using assms by (intro pow10_mono) simp
  finally show ?thesis using j by (simp add: sgnd_sdiv) (simp add: sgnd_def div_pos_pos_trivial)
qed

lemma trunc_mid:
  assumes "limbs a b" "62 \<le> e" "e \<le> 80"
  shows "sgnd sg (join a b * 10 ^ nat e) sdiv 10 ^ 80 = sgnd sg (join a b div 10 ^ nat (80 - e))"
proof -
  have j: "0 \<le> join a b" using limbs_join [OF assms(1)] by auto
  have "80 = nat (80 - e) + nat e" using assms by simp
  then have sp: "(10::int) ^ 80 = 10 ^ nat (80 - e) * 10 ^ nat e" by (metis power_add)
  have "join a b * 10 ^ nat e div 10 ^ 80 = join a b div 10 ^ nat (80 - e)" unfolding sp by simp
  then show ?thesis using j by (simp add: sgnd_sdiv)
qed

lemma int_part_ok:
  assumes v: "wf_flt v" and e: "62 \<le> e_of v" "e_of v \<le> 71"
  shows "int_part v = numval v sdiv 10 ^ 80"
proof -
  have l: "limbs (m1 v) (m0 v)" and n: "numval v = sgnd (sgn_of v) (join (m1 v) (m0 v) * 10 ^ nat (e_of v))"
    using v by (auto simp: wf_flt_def limbs_def numval_def mant_def join_def sgnd_def mv_defs algebra_simps)
  have b: "0 \<le> m1 v" "0 \<le> m0 v" "m0 v < 10 ^ 9" using l by (auto simp: limbs_def mv_defs)
  have k: "nat (80 - e_of v) = 9 + nat (71 - e_of v)" using e by simp
  have "join (m1 v) (m0 v) div 10 ^ nat (80 - e_of v) = (m1 v * 10 ^ 9 + m0 v) div 10 ^ 9 div 10 ^ nat (71 - e_of v)"
    unfolding k power_add join_def MANT_HI_def by (simp add: zdiv_zmult2_eq)
  also have "(m1 v * 10 ^ 9 + m0 v) div 10 ^ 9 = m1 v" using b by simp
  finally have "numval v sdiv 10 ^ 80 = sgnd (sgn_of v) (m1 v div 10 ^ nat (71 - e_of v))"
    unfolding n using trunc_mid [OF l] e by simp
  moreover have "ten_pwr (71 - e_of v) = 10 ^ nat (71 - e_of v)" using e ten_pwr_eq by simp
  ultimately show ?thesis using b by (simp add: int_part_def sgnd_def sdiv_neg_left sdiv_nonneg mv_defs)
qed

text \<open>The digits of \<open>mval2i8\<close> for exponents 72 to 81: \<open>x + y\<close> is the truncated magnitude.\<close>

lemma i8_parts_mid:
  assumes l: "limbs (m1 v) (m0 v)" and e: "71 < e_of v" "e_of v \<le> 80" and p: "i8_parts v = (x, y)"
  shows "x + y = join (m1 v) (m0 v) div 10 ^ nat (80 - e_of v)" "0 \<le> x" "0 \<le> y"
proof -
  define k where "k = nat (80 - e_of v)"
  have k: "k \<le> 8" "ten_pwr (80 - e_of v) = 10 ^ k" "ten_pwr (e_of v - 71) = 10 ^ (9 - k)"
    using e ten_pwr_eq [of "80 - e_of v"] ten_pwr_eq [of "e_of v - 71"] by (auto simp: k_def nat_diff_distrib)
  have b: "0 \<le> m1 v" "m1 v < 10 ^ 9" "0 \<le> m0 v" "m0 v < 10 ^ 9" using l by (auto simp: limbs_def mv_defs)
  have sp: "(10::int) ^ 9 = 10 ^ (9 - k) * 10 ^ k" using k by (simp flip: power_add)
  have "join (m1 v) (m0 v) = m0 v + m1 v * 10 ^ (9 - k) * 10 ^ k" using sp by (simp add: join_def mv_defs)
  then have d: "join (m1 v) (m0 v) div 10 ^ k = m1 v * 10 ^ (9 - k) + m0 v div 10 ^ k" by simp
  have s: "s64 (m1 v * 1000000000) = m1 v * 1000000000" using b by (intro s64_id) auto
  have xd: "m1 v * 10 ^ 9 div 10 ^ k = m1 v * 10 ^ (9 - k)" unfolding sp by (simp add: mult.assoc [symmetric])
  have "(10::int) ^ (9 - k) \<le> 10 ^ 9" by (intro pow10_mono) simp
  then have "m1 v * 10 ^ (9 - k) \<le> 10 ^ 9 * 10 ^ 9" using b by (intro mult_mono) auto
  then have s': "s64 (m1 v * 10 ^ (9 - k)) = m1 v * 10 ^ (9 - k)" using b by (intro s64_id) (auto intro: order_trans [of _ 0])
  have "x = m1 v * 10 ^ (9 - k) \<and> y = m0 v div 10 ^ k"
  proof (cases "m0 v > 0")
    case True
    have "i8_up2 (s64 (m1 v * MANT_HI)) (m0 v) (e_of v) = (m1 v * 10 ^ 9, m0 v, e_of v)"
      using e by (subst i8_up2.simps) (simp add: s mv_defs)
    then have "(x, y) = (if e_of v = 80 then (s64 (m1 v * 10 ^ 9), s64 (m0 v)) else (m1 v * 10 ^ 9 sdiv 10 ^ k, m0 v sdiv 10 ^ k))"
      using True p e k by (auto simp: i8_parts_def mv_defs)
    moreover have "s64 (m1 v * 10 ^ 9) = m1 v * 10 ^ 9" "s64 (m0 v) = m0 v" using b s by (auto simp: mv_defs intro: s64_id)
    ultimately show ?thesis using b xd by (cases "e_of v = 80") (simp_all add: sdiv_nonneg k_def)
  next
    case False
    have "i8_up1 (m1 v) (e_of v) = (m1 v, e_of v)" using e by (subst i8_up1.simps) (simp add: mv_defs)
    then show ?thesis using False p k s' b by (auto simp: i8_parts_def mv_defs)
  qed
  then show "x + y = join (m1 v) (m0 v) div 10 ^ nat (80 - e_of v)" "0 \<le> x" "0 \<le> y"
    using d b by (auto simp: k_def pos_imp_zdiv_nonneg_iff)
qed

lemma i8_parts_high:
  assumes l: "limbs (m1 v) (m0 v)" and e: "e_of v = 81" and b: "join (m1 v) (m0 v) * 10 < 2 ^ 63" and p: "i8_parts v = (x, y)"
  shows "x + y = join (m1 v) (m0 v) * 10" "0 \<le> x" "0 \<le> y"
proof -
  have n: "0 \<le> m1 v" "m1 v < 1000000000" "0 \<le> m0 v" "m0 v < 1000000000" using l by (auto simp: limbs_def mv_defs)
  have b': "m1 v * 10000000000 + m0 v * 10 < 9223372036854775808" using b by (simp add: join_def mv_defs)
  have s: "s64 (m1 v * 1000000000) = m1 v * 1000000000" "s64 (m1 v * 1000000000 * 10) = m1 v * 10000000000" "s64 (m0 v * 10) = m0 v * 10"
    using n b' by (auto simp: s64_def)
  have u1: "i8_up1 (m1 v * 1000000000) 72 = (m1 v * 1000000000, 72)" by (subst i8_up1.simps) (simp add: mv_defs)
  have "x = m1 v * 10000000000 \<and> y = m0 v * 10"
  proof (cases "m0 v > 0")
    case True
    have "i8_up2 (m1 v * 1000000000) (m0 v) 81 = (m1 v * 1000000000, m0 v, 81)"
      by (subst i8_up2.simps) (simp add: mv_defs)
    then show ?thesis using True p e s by (simp add: i8_parts_def mv_defs)
  next
    case False
    have "i8_up1 (m1 v) 81 = (m1 v * 1000000000, 72)" using u1 s by (subst i8_up1.simps) (simp add: mv_defs)
    then show ?thesis using False n p e s by (auto simp: i8_parts_def mv_defs)
  qed
  then show "x + y = join (m1 v) (m0 v) * 10" "0 \<le> x" "0 \<le> y" using n by (auto simp: join_def mv_defs)
qed

lemma num_flt_limbs:
  assumes "wf_flt v"
  shows "limbs (m1 v) (m0 v)" "10 ^ 17 \<le> join (m1 v) (m0 v)" "20 \<le> e_of v"
    "numval v = sgnd (sgn_of v) (join (m1 v) (m0 v) * 10 ^ nat (e_of v))"
  using assms by (auto simp: wf_flt_def limbs_def numval_def mant_def join_def sgnd_def mv_defs algebra_simps)

lemma mval2i8_ok:
  assumes v: "wf_num v" and b: "\<bar>numval v\<bar> < 2 ^ 63 * 10 ^ 80"
  shows "mval2i8 undef_inhibit v = Inr (numval v sdiv 10 ^ 80)"
proof -
  have nm: "is_nm (mvtype v)" using v by (auto simp: wf_num_def wf_int_def wf_flt_def)
  show ?thesis
  proof (cases "is_int (mvtype v)")
    case True
    have "m1 v * 10 ^ 77 sdiv 10 ^ 80 = m1 v sdiv 1000" by (simp add: signed_divide_int_def sgn_mult abs_mult)
    then show ?thesis using True nm by (simp add: mval2i8_def with_num_def numval_def MV_BIAS_def)
  next
    case False
    then have w: "wf_flt v" using wf_num_cases [OF v] by blast
    note N = num_flt_limbs [OF w]
    define J where "J = join (m1 v) (m0 v)"
    have ab: "\<bar>numval v\<bar> = J * 10 ^ nat (e_of v)" using N by (simp add: sgnd_def abs_mult J_def)
    have e81: "e_of v \<le> 81"
    proof (rule ccontr)
      assume "\<not> e_of v \<le> 81"
      then have "(10::int) ^ 17 * 10 ^ 82 \<le> J * 10 ^ nat (e_of v)" using N by (intro mult_mono pow10_mono) (auto simp: J_def)
      then show False using b ab by simp
    qed
    consider "e_of v < 62" | "62 \<le> e_of v" "e_of v \<le> 71" | "71 < e_of v" by linarith
    then show ?thesis
    proof cases
      case 1
      then have "numval v sdiv 10 ^ 80 = 0" unfolding N(4) using N by (intro trunc_low) auto
      then show ?thesis using 1 False nm by (simp add: mval2i8_def with_num_def mv_defs)
    next
      case 2
      then show ?thesis using int_part_ok [OF w] False nm by (simp add: mval2i8_def with_num_def mv_defs)
    next
      case 3
      obtain x y where p: "i8_parts v = (x, y)" by fastforce
      have t: "numval v sdiv 10 ^ 80 = sgnd (sgn_of v) (x + y)" "0 \<le> x" "0 \<le> y" "x + y < 2 ^ 63"
      proof -
        have mag: "\<bar>numval v\<bar> div 10 ^ 80 < 2 ^ 63" using b by (intro div_less_prod) auto
        have eq: "x + y = \<bar>numval v\<bar> div 10 ^ 80 \<and> 0 \<le> x \<and> 0 \<le> y"
        proof (cases "e_of v = 81")
          case True
          have "J * 10 < 2 ^ 63" using b unfolding ab True by simp
          then show ?thesis using i8_parts_high [OF N(1) True _ p] by (simp add: ab True J_def)
        next
          case F: False
          with 3 e81 have e: "71 < e_of v" "e_of v \<le> 80" by auto
          have "\<bar>numval v\<bar> div 10 ^ 80 = J div 10 ^ nat (80 - e_of v)"
            using trunc_mid [OF N(1), of "e_of v" 0] e N(2) unfolding ab J_def by (simp add: sgnd_def sdiv_nonneg)
          then show ?thesis using i8_parts_mid [OF N(1) e p] by (simp add: J_def)
        qed
        then show "0 \<le> x" "0 \<le> y" "x + y < 2 ^ 63" using mag by auto
        show "numval v sdiv 10 ^ 80 = sgnd (sgn_of v) (x + y)"
          using eq N(2) unfolding N(4) by (simp add: sgnd_sdiv) (simp add: sgnd_def abs_mult split: if_splits)
      qed
      have "s64 (x + y) = x + y" "s64 (s64 (- x) - y) = - (x + y)" using t by (simp_all add: s64_id)
      then show ?thesis using 3 False nm p t by (simp add: mval2i8_def with_num_def mv_defs sgnd_def)
    qed
  qed
qed

section \<open>isint\<close>

lemma sdiv_mult_eq: "d \<noteq> 0 \<Longrightarrow> (m sdiv d) * d = m \<longleftrightarrow> (d::int) dvd m"
proof
  assume "d \<noteq> 0" "d dvd m"
  then obtain k where "m = d * k" by auto
  then show "(m sdiv d) * d = m" using \<open>d \<noteq> 0\<close>
    by (cases "d < 0") (auto simp: signed_divide_int_def sgn_mult abs_mult sgn_mult_abs)
qed (metis dvd_triv_right)

lemma isint_flt:
  assumes w: "wf_flt v" and a: "\<not> is_approx (mvtype v)"
  shows "isint v = (True, Some n) \<longleftrightarrow> \<bar>n\<bar> < 10 ^ 9 \<and> numval v = n * 10 ^ 80"
proof -
  have fl: "is_nm (mvtype v)" "\<not> is_int (mvtype v)" "sgn_of v = 0 \<or> sgn_of v = 1" using w by (auto simp: wf_flt_def)
  note N = num_flt_limbs [OF w]
  define J where "J = join (m1 v) (m0 v)"
  have J: "10 ^ 17 \<le> J" "J < 10 ^ 18" using N limbs_join [OF N(1)] by (auto simp: J_def)
  have b: "0 \<le> m1 v" "m1 v < 10 ^ 9" "0 \<le> m0 v" "m0 v < 10 ^ 9" using N(1) by (auto simp: limbs_def mv_defs)
  define m where "m = sgnd (sgn_of v) (m1 v)"
  have mdef: "(if sgn_of v \<noteq> 0 then - m1 v else m1 v) = m" by (simp add: m_def sgnd_def)
  define d where "d = (10::int) ^ nat (71 - e_of v)"
  have isv: "isint v = (if 62 < e_of v \<and> e_of v \<le> 71 \<and> m0 v = 0 then ((m sdiv d) * d = m, Some (m sdiv d)) else (False, None))"
    using fl a ten_pwr_eq [of "71 - e_of v"] by (auto simp: isint_def Let_def mdef mv_defs d_def)
  have val: "numval v = m * 10 ^ (9 + nat (e_of v))" if "m0 v = 0" using that N(4) by (simp add: m_def sgnd_def join_def mv_defs power_add)
  have de: "d * 10 ^ (9 + nat (e_of v)) = 10 ^ 80" if "62 < e_of v" "e_of v \<le> 71"
  proof -
    have "nat (71 - e_of v) + (9 + nat (e_of v)) = 80" using that by simp
    then show ?thesis unfolding d_def power_add [symmetric] by (simp only:)
  qed
  have d0: "d \<noteq> 0" by (simp add: d_def)
  show ?thesis
  proof
    assume h: "isint v = (True, Some n)"
    then have c: "62 < e_of v" "e_of v \<le> 71" "m0 v = 0" "m = n * d" by (auto simp: isv split: if_splits)
    have "numval v = n * (d * 10 ^ (9 + nat (e_of v)))" unfolding val [OF c(3)] c(4) by simp
    moreover have "\<bar>n\<bar> * 1 \<le> \<bar>n\<bar> * d" by (intro mult_left_mono) (simp_all add: d_def)
    then have "\<bar>n\<bar> \<le> \<bar>m\<bar>" by (simp add: c(4) abs_mult d_def)
    ultimately show "\<bar>n\<bar> < 10 ^ 9 \<and> numval v = n * 10 ^ 80" using de [OF c(1,2)] b by (auto simp: m_def sgnd_def split: if_splits)
  next
    assume h: "\<bar>n\<bar> < 10 ^ 9 \<and> numval v = n * 10 ^ 80"
    have "\<bar>numval v\<bar> = J * 10 ^ nat (e_of v)" using N by (simp add: sgnd_def abs_mult J_def)
    moreover have "\<bar>numval v\<bar> = \<bar>n\<bar> * 10 ^ 80" using h by (simp add: abs_mult)
    ultimately have ab: "J * 10 ^ nat (e_of v) = \<bar>n\<bar> * 10 ^ 80" by simp
    have n0: "1 \<le> \<bar>n\<bar>" using ab J by (cases "n = 0") auto
    have e1: "e_of v \<le> 71"
    proof (rule ccontr)
      assume "\<not> e_of v \<le> 71"
      then have "(10::int) ^ 17 * 10 ^ 72 \<le> J * 10 ^ nat (e_of v)" using J by (intro mult_mono pow10_mono) auto
      then show False using h ab by simp
    qed
    have e2: "62 < e_of v"
    proof (rule ccontr)
      assume "\<not> 62 < e_of v"
      then have "J * 10 ^ nat (e_of v) < 10 ^ 17 * 10 ^ 63" using J by (intro mant_exp_less [of _ "10 ^ 17"]) auto
      then show False using ab n0 by simp
    qed
    have "J * 10 ^ nat (e_of v) = \<bar>n\<bar> * (d * 10 ^ (9 + nat (e_of v)))" using ab de [OF e2 e1] by simp
    then have "J = \<bar>n\<bar> * d * 10 ^ 9" by (simp add: power_add)
    then have "m1 v * MANT_HI + m0 v = (\<bar>n\<bar> * d) * MANT_HI + 0" by (simp add: J_def join_def mv_defs)
    then have m0: "m0 v = 0" using two_limbs_eq_iff [of "m0 v" MANT_HI 0] b by (simp add: MANT_HI_def)
    then have "m * (10 ^ (9 + nat (e_of v))) = n * d * 10 ^ (9 + nat (e_of v))" using val h de [OF e2 e1] by (simp add: mult.assoc)
    then have "m = d * n" by simp
    then show "isint v = (True, Some n)" using e1 e2 m0 d0 sdiv_mult_eq [OF d0, of m]
      by (simp add: isv)
  qed
qed

lemma isint_int:
  assumes w: "wf_int v" and a: "\<not> is_approx (mvtype v)"
  shows "isint v = (True, Some n) \<longleftrightarrow> \<bar>n\<bar> < 10 ^ 9 \<and> numval v = n * 10 ^ 80"
proof -
  have fl: "is_nm (mvtype v)" "is_int (mvtype v)" "\<bar>m1 v\<bar> < 10 ^ 9" using w by (auto simp: wf_int_def mv_defs)
  have "isint v = (True, Some n) \<longleftrightarrow> m1 v = n * 1000"
    using fl a sdiv_mult_eq [of 1000 "m1 v"] by (auto simp: isint_def mv_defs)
  also have "\<dots> \<longleftrightarrow> \<bar>n\<bar> < 10 ^ 9 \<and> numval v = n * 10 ^ 80" using fl by (auto simp: numval_def abs_mult)
  finally show ?thesis .
qed

section \<open>i2smval\<close>

lemma i2s_lead_pow: "0 \<le> i \<Longrightarrow> (i2s_lead i (10 ^ k) = 0 \<and> i = 0) \<or> (\<exists>j. i2s_lead i (10 ^ k) = 10 ^ j)"
proof (induction k)
  case 0
  have "i2s_lead i 0 = 0" by (simp add: i2s_lead.simps)
  then show ?case using 0 by (subst (1 2) i2s_lead.simps) (auto simp: sdiv_nonneg intro: exI [of _ 0])
next
  case (Suc k)
  have "(10::int) ^ Suc k sdiv 10 = 10 ^ k" by (simp add: sdiv_nonneg)
  then show ?case using Suc
    by (subst (1 2) i2s_lead.simps) (auto simp del: power_Suc)
qed

lemma i2s_digits_rest: "snd (i2s_digits i (10 ^ k) s) = 0"
proof (induction k arbitrary: i s)
  case 0
  have "i sdiv 1 = i" by (simp add: signed_divide_int_def sgn_mult_abs)
  then show ?case by (subst i2s_digits.simps) (simp add: sdiv_nonneg Let_def)
next
  case (Suc k)
  have "(10::int) ^ Suc k sdiv 10 = 10 ^ k" by (simp add: sdiv_nonneg)
  moreover have "\<not> (10::int) ^ k \<le> 0" by (simp add: not_le)
  ultimately show ?case using Suc by (subst i2s_digits.simps) (simp add: Let_def del: power_Suc)
qed

section \<open>Properties\<close>

text \<open>
  C38. A 32-bit integer becomes a well-formed mval of exactly that value, for every \<open>int\<close> (\<open>i2mval\<close>, the
  smallest one included) and every \<open>unsigned int\<close> (\<open>i2usmval\<close>).
\<close>

theorem i2mval_exact:
  assumes "in_int4 i" "0 \<le> j" "j < 2 ^ 32"
  shows "(wf_num (i2mval v i) \<and> numval (i2mval v i) = i * 10 ^ 80) \<and>
    (wf_num (i2usmval v j) \<and> numval (i2usmval v j) = j * 10 ^ 80)"
proof
  have "u32 (s32 (- i)) = - i" if "i < 0"
    using that assms(1) by (cases "i = - 2147483648") (auto simp: u32_def s32_def in_int4_def)
  then show "wf_num (i2mval v i) \<and> numval (i2mval v i) = i * 10 ^ 80"
    using xi2mval_ok [of "- i" "v\<lparr>mvtype := MV_NM, sgn_of := 1\<rparr>"] xi2mval_ok [of i "v\<lparr>mvtype := MV_NM, sgn_of := 0\<rparr>"] assms(1)
    by (auto simp: i2mval_def sgnd_def in_int4_def Let_def)
  show "wf_num (i2usmval v j) \<and> numval (i2usmval v j) = j * 10 ^ 80"
    using xi2mval_ok [of j "v\<lparr>mvtype := MV_NM, sgn_of := 0\<rparr>"] assms by (simp add: i2usmval_def sgnd_def)
qed

theorem i2mval_exact_witness:
  "numval (i2mval (ex_num 0) (- 2147483648)) = - 2147483648 * 10 ^ 80 \<and> numval (i2usmval (ex_num 0) 4294967295) = 4294967295 * 10 ^ 80"
  using i2mval_exact [of "- 2147483648" 4294967295 "ex_num 0"] by (simp add: in_int4_def)

text \<open>
  C37. \<open>mval2i8\<close> of every number below \<open>2^63\<close> in magnitude, in either form, is the number truncated towards
  zero: no 64-bit product on the way overflows.
\<close>

theorem mval2i8_truncates:
  assumes "wf_num v" "\<bar>numval v\<bar> < 2 ^ 63 * 10 ^ 80"
  shows "mval2i8 undef_inhibit v = Inr (numval v sdiv 10 ^ 80)"
  by (rule mval2i8_ok [OF assms])

theorem mval2i8_truncates_witness:
  "mval2i8 False (ex_num (- 1500)) = Inr (- 1)"
  using mval2i8_truncates [of "ex_num (- 1500)" False]
  by (simp add: wf_num_def wf_int_def ex_num_def numval_def mv_defs signed_divide_int_def sgn_if)

text \<open>
  C36. Round trip: a 64-bit integer of up to 18 digits, turned into an mval by \<open>i82mval\<close>, comes back from
  \<open>mval2i8\<close> unchanged.
\<close>

theorem i82mval_mval2i8:
  assumes "\<bar>i\<bar> < 10 ^ 18"
  shows "wf_num (i82mval v i) \<and> numval (i82mval v i) = i * 10 ^ 80 \<and> mval2i8 undef_inhibit (i82mval v i) = Inr i"
proof -
  have u: "i < 0 \<Longrightarrow> u64 (- i) = - i" "0 \<le> i \<Longrightarrow> u64 i = i" using assms by (auto simp: u64_def abs_if)
  have n: "wf_num (i82mval v i) \<and> numval (i82mval v i) = i * 10 ^ 80"
    using xi82mval_ok [of "- i" "v\<lparr>mvtype := MV_NM, sgn_of := 1\<rparr>"] xi82mval_ok [of i "v\<lparr>mvtype := MV_NM, sgn_of := 0\<rparr>"] assms u
    by (auto simp: i82mval_def sgnd_def abs_if Let_def split: if_splits)
  have "i * 10 ^ 80 sdiv 10 ^ 80 = i" by (simp add: signed_divide_int_def sgn_mult abs_mult sgn_mult_abs)
  moreover have "\<bar>i * 10 ^ 80\<bar> < 2 ^ 63 * 10 ^ 80" using assms by (simp add: abs_mult)
  ultimately show ?thesis using n mval2i8_ok [of "i82mval v i" undef_inhibit] by simp
qed

theorem i82mval_mval2i8_witness:
  "mval2i8 False (i82mval (ex_num 0) (- 123456789012345678)) = Inr (- 123456789012345678)"
  using i82mval_mval2i8 [of "- 123456789012345678" "ex_num 0" False] by simp

text \<open>
  \<open>isint\<close> answers TRUE with the integer \<open>n\<close> exactly when the number is the integer \<open>n\<close> and \<open>n\<close> has at
  most nine digits, in either form.
\<close>

theorem isint_correct:
  assumes "wf_num v" "\<not> is_approx (mvtype v)"
  shows "isint v = (True, Some n) \<longleftrightarrow> \<bar>n\<bar> < 10 ^ 9 \<and> numval v = n * 10 ^ 80"
  using assms isint_flt isint_int by (auto simp: wf_num_def)

theorem isint_correct_witness:
  "isint (ex_num 7000) = (True, Some 7) \<and> isint (ex_num 7500) \<noteq> (True, Some 7)"
  using isint_correct [of "ex_num 7000" 7] isint_correct [of "ex_num 7500" 7]
  by (simp add: wf_num_def wf_int_def ex_num_def numval_def mv_defs)

text \<open>
  C39. \<open>i2smval\<close> (which nothing calls) stores the number zero for every argument below \<open>10^6\<close>: the
  digit loop has consumed \<open>i\<close> before \<open>MV_BIAS * i\<close> is stored.
\<close>

theorem i2smval_stores_zero:
  assumes "0 \<le> i" "i < INT_HI"
  shows "numval (i2smval v i) = 0"
proof -
  obtain s where s: "(if i2s_lead i 100000000 = 0 then ([0], i) else i2s_digits i (i2s_lead i 100000000) []) = (s, 0)"
  proof (cases "i2s_lead i 100000000 = 0")
    case True
    then have "i = 0" using i2s_lead_pow [OF assms(1), of 8] by auto
    then show thesis using True that by simp
  next
    case False
    then obtain j where "i2s_lead i 100000000 = 10 ^ j" using i2s_lead_pow [OF assms(1), of 8] by auto
    then show thesis using False i2s_digits_rest [of i j "[]"] that by (cases "i2s_digits i (10 ^ j) []") simp
  qed
  have "s32 i = i" using assms by (intro s32_id) (auto simp: mv_defs)
  then show ?thesis using assms s by (simp add: i2smval_def Let_def numval_def s32_def u32_def)
qed

theorem i2smval_stores_zero_witness: "numval (i2smval (ex_num 0) 42) = 0"
  by (rule i2smval_stores_zero) (simp_all add: mv_defs)

end
