(* ===== verification/N2s.thy ===== *)
theory N2s
  imports OpMul MvalConv
begin

text \<open>
  Numbers to strings, \<open>n2s.c\<close>, with the string-forcing macro that calls it, and the test for a canonical
  number, \<open>val_iscan.c\<close>.  The string the code builds through its pointers \<open>cp\<close> (upwards) and \<open>cp1\<close>
  (downwards) is a byte list here.
\<close>

section \<open>n2s\<close>

definition MAX_DIGITS_IN_INT :: int where [mv_defs]: "MAX_DIGITS_IN_INT = 10"
definition PACKED_DIGITS :: int where [mv_defs]: "PACKED_DIGITS = MAX_DIGITS_IN_INT - 1"
definition MAX_NUM_SIZE :: int where [mv_defs]: "MAX_NUM_SIZE = 64"

definition digit_ch :: "int \<Rightarrow> byte" where
  "digit_ch d = of_int (d + 48)"

text \<open>The integer form: the loop over the trailing zeros of the fraction, \<open>(n0, tmp, m1)\<close>.\<close>

function frac_skip :: "int \<Rightarrow> int \<Rightarrow> int \<Rightarrow> int \<times> int \<times> int" where
  "frac_skip n0 tmp m =
    (if n0 < MV_BIAS_PWR then
       let tmp = m - (m sdiv 10) * 10; m = m sdiv 10
       in if tmp \<noteq> 0 then (n0, tmp, m) else frac_skip (n0 + 1) tmp m
     else (n0, tmp, m))"
  by pat_completeness auto
termination
  by (relation "measure (\<lambda>(n0, tmp, m). nat (MV_BIAS_PWR - n0))") auto

function frac_rest :: "int \<Rightarrow> int \<Rightarrow> bytes \<Rightarrow> bytes" where
  "frac_rest n0 m buf =
    (if n0 < MV_BIAS_PWR then frac_rest (n0 + 1) (m sdiv 10) (digit_ch (m - (m sdiv 10) * 10) # buf) else buf)"
  by pat_completeness auto
termination
  by (relation "measure (\<lambda>(n0, m, buf). nat (MV_BIAS_PWR - n0))") auto

function int_rest :: "int \<Rightarrow> bytes \<Rightarrow> bytes" where
  "int_rest m buf = (if m > 0 then int_rest (m sdiv 10) (digit_ch (m - (m sdiv 10) * 10) # buf) else buf)"
  by pat_completeness auto
termination
  by (relation "measure (\<lambda>(m, buf). nat m)") (auto simp: sdiv_nonneg)

declare frac_skip.simps [simp del] frac_rest.simps [simp del] int_rest.simps [simp del]

text \<open>What \<open>lcl_buf\<close> holds from \<open>cp1\<close> on; \<open>m\<close> is the magnitude.\<close>

definition n2s_int :: "int \<Rightarrow> bytes" where
  "n2s_int m =
    (let m0 = m sdiv MV_BIAS;
         m1 = m - m0 * MV_BIAS;
         buf = (if m1 > 0 then
                  let (n0, tmp, m1) = frac_skip 0 0 m1
                  in ch_dot # frac_rest (n0 + 1) m1 [digit_ch tmp]
                else [])
     in int_rest m0 buf)"

text \<open>
  The float form.  The inner loop writes up to \<open>PACKED_DIGITS\<close> digits of \<open>m1\<close>, stopping early when no
  digits are left right of the decimal point: \<open>(exp, m1, buf)\<close>.
\<close>

function flt_inner :: "int \<Rightarrow> int \<Rightarrow> int \<Rightarrow> int \<Rightarrow> bytes \<Rightarrow> int \<times> int \<times> bytes" where
  "flt_inner n0 ex m1v m0v buf =
    (if n0 < PACKED_DIGITS then
       if ex = 0 \<and> m0v = 0 \<and> m1v = 0 then (ex - 1, m1v, buf)
       else if ex \<noteq> 0 \<and> ex - 1 < 0 \<and> m0v = 0 \<and> m1v = 0 then (ex - 1, m1v, buf)
       else
         let buf = (if ex = 0 then buf @ [ch_dot] else buf);
             tmp = m1v sdiv MANT_LO
         in flt_inner (n0 + 1) (ex - 1) ((m1v - tmp * MANT_LO) * 10) m0v (buf @ [digit_ch tmp])
     else (ex, m1v, buf))"
  by pat_completeness auto
termination
  by (relation "measure (\<lambda>(n0, ex, m1v, m0v, buf). nat (PACKED_DIGITS - n0))") auto

declare flt_inner.simps [simp del]

text \<open>The outer loop \<open>for (; m1; m1 = m0, m0 = 0)\<close> runs over the two limbs.\<close>

definition flt_outer :: "int \<Rightarrow> int \<Rightarrow> int \<Rightarrow> bytes \<Rightarrow> int \<times> bytes" where
  "flt_outer ex m1v m0v buf =
    (if m1v = 0 then (ex, buf)
     else
       let (ex, _, buf) = flt_inner 0 ex m1v m0v buf
       in if m0v = 0 then (ex, buf)
          else let (ex, _, buf) = flt_inner 0 ex m0v 0 buf in (ex, buf))"

definition n2s_flt :: "int \<Rightarrow> int \<Rightarrow> int \<Rightarrow> int \<Rightarrow> bytes" where
  "n2s_flt sg ex m1v m0v =
    (let buf = (if sg \<noteq> 0 then [ch_minus] else []);
         buf = (if ex < 0 then buf @ ch_dot # replicate (nat (- ex)) ch_0 else buf);
         (ex, buf) = flt_outer ex m1v m0v buf
     in buf @ replicate (nat ex) ch_0)"

definition n2s_text :: "mval \<Rightarrow> bytes" where
  "n2s_text v =
    (if m1 v = 0 then [ch_0]
     else if is_int (mvtype v) then (if m1 v < 0 then ch_minus # n2s_int (- m1 v) else n2s_int (m1 v))
     else n2s_flt (sgn_of v) (e_of v - MV_XBIAS) (m1 v) (m0 v))"

definition n2s :: "mval \<Rightarrow> mval" where
  "n2s v = v\<lparr>mvtype := (mvtype v)\<lparr>is_str := True, is_approx := False, is_utflen := True\<rparr>, str_of := n2s_text v\<rparr>"

definition MV_FORCE_STR :: "bool \<Rightarrow> mval \<Rightarrow> mval result" where
  "MV_FORCE_STR undef_inhibit v =
    (case (if \<not> MV_DEFINED v then underr undef_inhibit else Inr v) of
       Inl err \<Rightarrow> Inl err
     | Inr v \<Rightarrow> Inr (if is_str (mvtype v) then v else n2s v))"

section \<open>val_iscan\<close>

text \<open>
  The digit loops: \<open>count_digits\<close> counts digits and trailing zeros (\<open>(c, zeroes, count)\<close>), \<open>skip_zeros\<close> passes
  over zeros.
\<close>

function count_digits :: "bytes \<Rightarrow> nat \<Rightarrow> int \<Rightarrow> int \<Rightarrow> nat \<times> int \<times> int" where
  "count_digits s c zeroes n =
    (if c < length s \<and> DIGIT (s ! c)
     then count_digits s (c + 1) (if s ! c = ch_0 then zeroes + 1 else 0) (n + 1)
     else (c, zeroes, n))"
  by pat_completeness auto
termination
  by (relation "measure (\<lambda>(s, c, z, n). length s - c)") auto

function skip_zeros :: "bytes \<Rightarrow> nat \<Rightarrow> nat" where
  "skip_zeros s c = (if c < length s \<and> s ! c = ch_0 then skip_zeros s (c + 1) else c)"
  by pat_completeness auto
termination
  by (relation "measure (\<lambda>(s, c). length s - c)") auto

declare count_digits.simps [simp del] skip_zeros.simps [simp del]

text \<open>The text test; the position is the index of \<open>c\<close>.\<close>

definition iscan_text :: "bytes \<Rightarrow> bool" where
  "iscan_text s =
    (if s = [] then False
     else if length s = 1 \<and> s ! 0 = ch_0 then True
     else
       let c = (if s ! 0 = ch_minus then 1 else 0)
       in if s ! 0 = ch_minus \<and> c = length s then False
          else if DIGIT (s ! c) \<and> s ! c \<noteq> ch_0 then
            let (c, zeroes, n) = count_digits s c 0 0;
                dot = (c < length s \<and> s ! c = ch_dot);
                (c, zeroes, m) = (if dot then count_digits s (c + 1) zeroes n else (c, zeroes, n))
            in \<not> (c \<noteq> length s \<or> (dot \<and> (s ! (c - 1) = ch_0 \<or> s ! (c - 1) = ch_dot)) \<or>
                  NUM_DEC_DG_2L < m - zeroes \<or> EXPLO > n + MV_XBIAS \<or> EXPHI \<le> n + MV_XBIAS)
          else if s ! c = ch_dot then
            let d = skip_zeros s (c + 1);
                (e, _, m) = count_digits s d 0 0;
                ex = MV_XBIAS - int (d - (c + 1))
            in \<not> (e \<noteq> length s \<or> s ! (e - 1) = ch_0 \<or> s ! (e - 1) = ch_dot \<or>
                  NUM_DEC_DG_2L < m \<or> EXPLO > ex \<or> EXPHI \<le> ex)
          else False)"

definition val_iscan :: "bool \<Rightarrow> mval \<Rightarrow> bool result" where
  "val_iscan undef_inhibit v =
    (case MV_FORCE_STR undef_inhibit v of Inl err \<Rightarrow> Inl err | Inr v \<Rightarrow> Inr (iscan_text (str_of v)))"

section \<open>The buffers are large enough\<close>

lemma frac_skip_range: "0 \<le> n0 \<Longrightarrow> frac_skip n0 tmp m = (n, t, m') \<Longrightarrow> n0 \<le> n"
proof (induction n0 tmp m rule: frac_skip.induct)
  case (1 n0 tmp m)
  then show ?case by (subst (asm) (2) frac_skip.simps) (fastforce simp: Let_def split: if_splits)
qed

lemma frac_rest_length: "0 \<le> n0 \<Longrightarrow> length (frac_rest n0 m buf) = nat (3 - n0) + length buf"
proof (induction n0 m buf rule: frac_rest.induct)
  case (1 n0 m buf)
  then show ?case by (subst frac_rest.simps) (auto simp: MV_BIAS_PWR_def)
qed

lemma int_rest_length: "m < 10 ^ k \<Longrightarrow> length (int_rest m buf) \<le> k + length buf"
proof (induction m buf arbitrary: k rule: int_rest.induct)
  case (1 m buf)
  show ?case
  proof (cases "m > 0")
    case True
    with 1(2) obtain j where k: "k = Suc j" by (cases k) auto
    have "m sdiv 10 < 10 ^ j" using 1(2) True k by (simp add: sdiv_nonneg)
    from 1(1) [OF True this] show ?thesis using True k by (subst int_rest.simps) simp
  next
    case False
    then show ?thesis by (subst int_rest.simps) simp
  qed
qed

lemma n2s_int_length:
  assumes "0 < m" "m < MANT_HI"
  shows "length (n2s_int m) \<le> 10"
proof -
  define m0 m1 where "m0 = m sdiv MV_BIAS" and "m1 = m - m0 * MV_BIAS"
  have m0: "m0 < 10 ^ 6" using assms by (simp add: m0_def sdiv_nonneg mv_defs)
  define buf where "buf = (if m1 > 0 then let (n0, tmp, m1) = frac_skip 0 0 m1 in ch_dot # frac_rest (n0 + 1) m1 [digit_ch tmp] else [])"
  obtain n0 t m' where f: "frac_skip 0 0 m1 = (n0, t, m')" by (metis prod_cases3)
  have "length buf \<le> 4" using frac_skip_range [OF _ f] frac_rest_length [of "n0 + 1"] by (auto simp: buf_def f)
  moreover have "n2s_int m = int_rest m0 buf" by (simp add: n2s_int_def Let_def buf_def m0_def m1_def)
  ultimately show ?thesis using int_rest_length [OF m0, of buf] by simp
qed

text \<open>
  The potential of the float loop: what is written, plus the larger of the zeros still to come and the
  digits still allowed, plus one for the decimal point while it is still to come.
\<close>

lemma flt_inner_length:
  assumes "flt_inner n0 ex a b buf = (ex', a', buf')" "0 \<le> n0" "n0 \<le> 9"
  shows "length buf' + max (nat ex') X + of_bool (0 \<le> ex') \<le> length buf + max (nat ex) (nat (9 - n0) + X) + of_bool (0 \<le> ex)"
  using assms
proof (induction n0 ex a b buf rule: flt_inner.induct)
  case (1 n0 ex a b buf)
  show ?case
  proof (cases "n0 < 9 \<and> \<not> (ex \<le> 0 \<and> a = 0 \<and> b = 0)")
    case False
    then have "(ex', buf') = (if n0 < 9 then ex - 1 else ex, buf)" and "n0 < 9 \<Longrightarrow> ex \<le> 0"
      using 1(2) by (subst (asm) flt_inner.simps, auto simp: mv_defs split: if_splits)+
    then show ?thesis using 1(4) by (auto split: if_splits)
  next
    case True
    define buf1 where "buf1 = (if ex = 0 then buf @ [ch_dot] else buf) @ [digit_ch (a sdiv MANT_LO)]"
    have r: "flt_inner (n0 + 1) (ex - 1) ((a - a sdiv MANT_LO * MANT_LO) * 10) b buf1 = (ex', a', buf')"
      using 1(2) True by (subst (asm) flt_inner.simps) (auto simp: PACKED_DIGITS_def MAX_DIGITS_IN_INT_def Let_def buf1_def split: if_splits)
    have "length buf' + max (nat ex') X + of_bool (0 \<le> ex') \<le> length buf1 + max (nat (ex - 1)) (nat (9 - (n0 + 1)) + X) + of_bool (0 \<le> ex - 1)"
      using 1(1) r True 1(3) by (auto simp: PACKED_DIGITS_def MAX_DIGITS_IN_INT_def buf1_def)
    also have "\<dots> \<le> length buf + max (nat ex) (nat (9 - n0) + X) + of_bool (0 \<le> ex)"
    proof -
      have "nat (9 - n0) = Suc (nat (9 - (n0 + 1)))" using True by linarith
      then show ?thesis by (cases "0 < ex") (auto simp: buf1_def max_def)
    qed
    finally show ?thesis .
  qed
qed

lemma flt_outer_length:
  assumes "flt_outer ex a b buf = (ex', buf')"
  shows "length buf' + nat ex' \<le> length buf + max (nat ex) 18 + of_bool (0 \<le> ex)"
proof -
  obtain e1 a1 f1 where i1: "flt_inner 0 ex a b buf = (e1, a1, f1)" by (metis prod_cases3)
  obtain e2 a2 f2 where i2: "flt_inner 0 e1 b 0 f1 = (e2, a2, f2)" by (metis prod_cases3)
  have "(ex', buf') = (ex, buf) \<or> (ex', buf') = (e1, f1) \<or> (ex', buf') = (e2, f2)"
    using assms by (auto simp: flt_outer_def i1 i2 split: if_splits)
  then show ?thesis using flt_inner_length [OF i1, of 9] flt_inner_length [OF i2, of 0] by (auto simp: max_def of_bool_def split: if_splits)
qed

section \<open>Properties\<close>

text \<open>
  C40. Memory safety of \<open>n2s\<close>: the text of any well-formed number is not empty and fits in the
  \<open>MAX_NUM_SIZE\<close> bytes reserved in the string pool, and the digits of an integer form fit in the local buffer
  of \<open>MAX_DIGITS_IN_INT\<close> bytes.
\<close>

theorem n2s_fits:
  assumes v: "wf_num v"
  shows "int (length (n2s_text v)) \<le> MAX_NUM_SIZE \<and>
    (wf_int v \<and> m1 v \<noteq> 0 \<longrightarrow> int (length (n2s_int \<bar>m1 v\<bar>)) \<le> MAX_DIGITS_IN_INT)"
proof -
  have int: "length (n2s_int \<bar>m1 v\<bar>) \<le> 10" if "wf_int v" "m1 v \<noteq> 0"
    using n2s_int_length [of "\<bar>m1 v\<bar>"] that by (auto simp: wf_int_def)
  have flt: "length (n2s_text v) \<le> 64" if w: "wf_flt v"
  proof -
    define ex where "ex = e_of v - 62"
    have ex: "- 42 \<le> ex" "ex < 48" and m: "m1 v \<noteq> 0" "\<not> is_int (mvtype v)" using w by (auto simp: wf_flt_def ex_def mv_defs)
    define buf where "buf = (if sgn_of v \<noteq> 0 then [ch_minus] else []) @ (if ex < 0 then ch_dot # replicate (nat (- ex)) ch_0 else [])"
    obtain e' f' where o: "flt_outer ex (m1 v) (m0 v) buf = (e', f')" by fastforce
    have "n2s_text v = f' @ replicate (nat e') ch_0"
      using m o by (simp add: n2s_text_def n2s_flt_def Let_def buf_def ex_def MV_XBIAS_def split: if_splits)
    moreover have "length buf \<le> (if ex < 0 then 44 else 1)" using ex by (auto simp: buf_def)
    ultimately show ?thesis using flt_outer_length [OF o] ex by (auto split: if_splits)
  qed
  have "length (n2s_text v) \<le> 64" if w: "wf_int v"
    using int [OF w] w by (auto simp: n2s_text_def wf_int_def abs_if split: if_splits)
  then show ?thesis using v int flt by (auto simp: wf_num_def mv_defs)
qed

theorem n2s_fits_witness:
  "int (length (n2s_text ex_float)) \<le> MAX_NUM_SIZE"
  using n2s_fits [of ex_float] by (simp add: wf_num_def wf_flt_def ex_float_def mv_defs)

end
