(* ===== verification/LvOrder.thy ===== *)
theory LvOrder
  imports LvTrace N2s
begin

text \<open>
  The \<open>$ORDER\<close>, \<open>$NEXT\<close> and \<open>$ZPREVIOUS\<close> functions on local variables (\<open>op_fnorder.c\<close>, \<open>op_fnnext.c\<close>,
  \<open>op_fnzprevious.c\<close>): from the subscript an M program passes to the key the tree is searched with, to the
  neighbouring node, and back to the M value of its subscript.  The collation library a site may load
  (\<open>local_collseq\<close>) is a parameter: the pair of its transformation and its inverse.
\<close>

section \<open>From M values to keys and back\<close>

type_synonym collseq = "((bytes \<Rightarrow> bytes) \<times> (bytes \<Rightarrow> bytes)) option"

definition MV_IS_CANONICAL :: "bool \<Rightarrow> mval \<Rightarrow> bool result" where
  "MV_IS_CANONICAL undef_inhibit v =
    (if is_nm (mvtype v) then Inr (\<not> is_approx (mvtype v)) else val_iscan undef_inhibit v)"

definition MV_FORCE_DEFINED :: "bool \<Rightarrow> mval \<Rightarrow> mval result" where
  "MV_FORCE_DEFINED undef_inhibit v = (if \<not> MV_DEFINED v then underr undef_inhibit else Inr v)"

definition LV_NUM_NODE_GET_KEY :: "lvTreeNode \<Rightarrow> mval \<Rightarrow> mval" where
  "LV_NUM_NODE_GET_KEY nd key =
    (let key = (if is_int (key_mvtype nd) then key\<lparr>m1 := key_m0 nd\<rparr>
                else key\<lparr>sgn_of := key_sgn nd, e_of := key_e nd, m0 := key_m0 nd, m1 := key_m1 nd\<rparr>)
     in key\<lparr>mvtype := key_mvtype nd\<rparr>)"

definition LV_STR_NODE_GET_KEY :: "lvTreeNode \<Rightarrow> mval \<Rightarrow> mval" where
  "LV_STR_NODE_GET_KEY nd key = key\<lparr>mvtype := key_mvtype nd, str_of := key_str nd\<rparr>"

definition LV_NODE_GET_KEY :: "lvTreeNode \<Rightarrow> mval \<Rightarrow> mval" where
  "LV_NODE_GET_KEY nd key =
    (if is_canon (key_mvtype nd)
     then let key = LV_NUM_NODE_GET_KEY nd key in key\<lparr>mvtype := (mvtype key)\<lparr>is_canon := False\<rparr>\<rparr>
     else LV_STR_NODE_GET_KEY nd key)"

text \<open>
  The key a subscript is searched with: a canonical number as a number with the \<open>MV_CANONICAL\<close> bit, anything else
  as a string, transformed by the collation library if there is one.
\<close>

definition subs_key :: "bool \<Rightarrow> collseq \<Rightarrow> mval \<Rightarrow> mval result" where
  "subs_key undef_inhibit coll key =
    (case MV_IS_CANONICAL undef_inhibit key of
       Inl err \<Rightarrow> Inl err
     | Inr is_canonical \<Rightarrow>
         if \<not> is_canonical then
           Inr (case coll of None \<Rightarrow> key | Some (xform, xback) \<Rightarrow> key\<lparr>mvtype := MV_STR, str_of := xform (str_of key)\<rparr>)
         else
           (case MV_FORCE_NUM undef_inhibit key of
              Inl err \<Rightarrow> Inl err
            | Inr key \<Rightarrow> Inr (key\<lparr>mvtype := mv_or (mvtype key) MV_CANONICAL\<rparr>)))"

section \<open>$ORDER and $NEXT\<close>

definition MINUS_ONE :: int where [mv_defs]: "MINUS_ONE = - MV_BIAS"

text \<open>
  \<open>get_first\<close> with the key as it is afterwards (\<open>s2n\<close> and the \<open>MV_NUM_APPROX\<close> bit are left in it).
\<close>

definition get_first :: "bool \<Rightarrow> bool \<Rightarrow> mval \<Rightarrow> (bool \<times> mval) result" where
  "get_first undef_inhibit is_fnnext key =
    (if is_str (mvtype key) \<and> str_of key = [] then Inr (True, key)
     else if is_fnnext then
       case (if \<not> (is_nm (mvtype key) \<or> is_approx (mvtype key)) then
               case val_iscan undef_inhibit key of
                 Inl err \<Rightarrow> Inl err
               | Inr True \<Rightarrow>
                   (case s2n False key of
                      Inl err \<Rightarrow> Inl err
                    | Inr r \<Rightarrow> if \<not> is_nm (mvtype (r_mval r)) then Inl ERR_NUMOFLOW else Inr (r_mval r))
               | Inr False \<Rightarrow> Inr (key\<lparr>mvtype := mv_or (mvtype key) MV_NUM_APPROX\<rparr>)
             else Inr key) of
         Inl err \<Rightarrow> Inl err
       | Inr key \<Rightarrow> Inr (fst (isint key) \<and> m1 key = MINUS_ONE, key)
     else Inr (False, key))"

text \<open>The search: the start of \<open>op_fnorder\<close> up to the null-subscript test.\<close>

definition order_search ::
  "bool \<Rightarrow> collseq \<Rightarrow> bool \<Rightarrow> lvheap \<Rightarrow> lvTree \<Rightarrow> mval \<Rightarrow> (nptr \<times> lvheap \<times> lvTree) result option" where
  "order_search undef_inhibit coll is_fnnext h lvt key =
    (case MV_FORCE_DEFINED undef_inhibit key of
       Inl err \<Rightarrow> Some (Inl err)
     | Inr key \<Rightarrow>
         (case get_first undef_inhibit is_fnnext key of
            Inl err \<Rightarrow> Some (Inl err)
          | Inr (True, _) \<Rightarrow> do { node \<leftarrow> lvAvlTreeFirst h lvt; Some (Inr (node, h, lvt)) }
          | Inr (False, key) \<Rightarrow>
              (case subs_key undef_inhibit coll key of
                 Inl err \<Rightarrow> Some (Inl err)
               | Inr key \<Rightarrow> do { r \<leftarrow> lvAvlTreeKeyNext h lvt key; Some (Inr r) })))"

definition order_back :: "collseq \<Rightarrow> mval \<Rightarrow> mval" where
  "order_back coll dst =
    (let dst = dst\<lparr>mvtype := (mvtype dst)\<lparr>is_canon := False\<rparr>\<rparr>
     in case coll of None \<Rightarrow> dst
        | Some (xform, xback) \<Rightarrow> if is_str (mvtype dst) then dst\<lparr>str_of := xback (str_of dst)\<rparr> else dst)"

definition order_result :: "collseq \<Rightarrow> bool \<Rightarrow> lvheap \<Rightarrow> nptr \<Rightarrow> mval \<Rightarrow> mval option" where
  "order_result coll is_fnnext h node dst =
    (if node = None then
       Some (if \<not> is_fnnext then dst\<lparr>mvtype := MV_STR, str_of := []\<rparr>
             else dst\<lparr>mvtype := mv_or MV_NM MV_INT, m1 := - 1 * MV_BIAS\<rparr>)
     else do { n \<leftarrow> rd h node; Some (order_back coll (LV_NODE_GET_KEY n dst)) })"

text \<open>
  \<open>src\<close> is the child tree of the variable: absent when the variable is, or has no subscripts.  The result is
  the value stored in \<open>dst\<close> with the state after the search.
\<close>

definition op_fnorder_with ::
  "bool \<Rightarrow> collseq \<Rightarrow> bool \<Rightarrow> bool \<Rightarrow> lvheap \<Rightarrow> lvTree option \<Rightarrow> mval \<Rightarrow> mval \<Rightarrow> (mval \<times> lvheap \<times> lvTree option) result option" where
  "op_fnorder_with undef_inhibit coll stdnull is_fnnext h src key dst =
    (case src of
       None \<Rightarrow> do { dst \<leftarrow> order_result coll is_fnnext h None dst; Some (Inr (dst, h, None)) }
     | Some lvt \<Rightarrow> do {
         r \<leftarrow> order_search undef_inhibit coll is_fnnext h lvt key;
         (case r of
            Inl err \<Rightarrow> Some (Inl err)
          | Inr (node, h, lvt) \<Rightarrow> do {
              node \<leftarrow> (if stdnull then hop_null h node else Some node);
              dst \<leftarrow> order_result coll is_fnnext h node dst;
              Some (Inr (dst, h, Some lvt))
            })
       })"

definition op_fnorder ::
  "bool \<Rightarrow> collseq \<Rightarrow> bool \<Rightarrow> lvheap \<Rightarrow> lvTree option \<Rightarrow> mval \<Rightarrow> mval \<Rightarrow> (mval \<times> lvheap \<times> lvTree option) result option" where
  "op_fnorder undef_inhibit coll stdnull = op_fnorder_with undef_inhibit coll stdnull False"

text \<open>\<open>op_fnnext\<close> sets \<open>TREF(in_op_fnnext)\<close>, which \<open>op_fnorder\<close> reads and resets.\<close>

definition op_fnnext ::
  "bool \<Rightarrow> collseq \<Rightarrow> bool \<Rightarrow> lvheap \<Rightarrow> lvTree option \<Rightarrow> mval \<Rightarrow> mval \<Rightarrow> (mval \<times> lvheap \<times> lvTree option) result option" where
  "op_fnnext undef_inhibit coll stdnull = op_fnorder_with undef_inhibit coll stdnull True"

section \<open>$ZPREVIOUS\<close>

definition hop_null_prev :: "lvheap \<Rightarrow> nptr \<Rightarrow> nptr option" where
  "hop_null_prev h node =
    (if node = None then Some None
     else do { n \<leftarrow> rd h node; if is_null_subs n then lvAvlTreePrev h node else Some node })"

definition zprevious_search ::
  "bool \<Rightarrow> collseq \<Rightarrow> lvheap \<Rightarrow> lvTree \<Rightarrow> mval \<Rightarrow> (nptr \<times> lvheap \<times> lvTree) result option" where
  "zprevious_search undef_inhibit coll h lvt key =
    (case MV_FORCE_DEFINED undef_inhibit key of
       Inl err \<Rightarrow> Some (Inl err)
     | Inr key \<Rightarrow>
         if is_str (mvtype key) \<and> str_of key = []
         then do { node \<leftarrow> lvAvlTreeLast h lvt; Some (Inr (node, h, lvt)) }
         else
           (case subs_key undef_inhibit coll key of
              Inl err \<Rightarrow> Some (Inl err)
            | Inr key \<Rightarrow> do { r \<leftarrow> lvAvlTreeKeyPrev h lvt key; Some (Inr r) }))"

definition op_fnzprevious ::
  "bool \<Rightarrow> collseq \<Rightarrow> bool \<Rightarrow> lvheap \<Rightarrow> lvTree option \<Rightarrow> mval \<Rightarrow> mval \<Rightarrow> (mval \<times> lvheap \<times> lvTree option) result option" where
  "op_fnzprevious undef_inhibit coll stdnull h src key dst =
    (case src of
       None \<Rightarrow> do { dst \<leftarrow> order_result coll False h None dst; Some (Inr (dst, h, None)) }
     | Some lvt \<Rightarrow> do {
         r \<leftarrow> zprevious_search undef_inhibit coll h lvt key;
         (case r of
            Inl err \<Rightarrow> Some (Inl err)
          | Inr (node, h, lvt) \<Rightarrow> do {
              node \<leftarrow> (if stdnull then hop_null_prev h node else Some node);
              dst \<leftarrow> order_result coll False h node dst;
              Some (Inr (dst, h, Some lvt))
            })
       })"

section \<open>The subscript an M value denotes\<close>

text \<open>A number that is not approximate denotes itself, everything else its string.\<close>

definition val_key :: "mval \<Rightarrow> skey" where
  "val_key v = (if is_nm (mvtype v) \<and> \<not> is_approx (mvtype v) then NumKey (numval v) else StrKey (str_of v))"

text \<open>
  A node as insertion leaves it: a numeric key has the number bits, a string key is not the text of a
  canonical number (such a subscript is stored as a number).
\<close>

definition proper_node :: "lvTreeNode \<Rightarrow> bool" where
  "proper_node n \<longleftrightarrow> (if is_canon (key_mvtype n) then is_nm (key_mvtype n) \<and> \<not> is_approx (key_mvtype n)
     else key_mvtype n = MV_STR \<and> \<not> iscan_text (key_str n))"

lemma node_subs_key:
  assumes "wf_node n" "proper_node n"
  shows "\<exists>k. subs_key ui None (LV_NODE_GET_KEY n d) = Inr k \<and> lv_key k \<and> key_abs k = node_key n"
    and "val_key (LV_NODE_GET_KEY n d) = node_key n" "MV_DEFINED (LV_NODE_GET_KEY n d)"
    and "is_str (mvtype (LV_NODE_GET_KEY n d)) \<and> str_of (LV_NODE_GET_KEY n d) = [] \<longleftrightarrow> is_null_subs n"
    and "order_back None (LV_NODE_GET_KEY n d) = LV_NODE_GET_KEY n d"
  using assms
  by (auto simp: wf_node_def proper_node_def LV_NODE_GET_KEY_def LV_NUM_NODE_GET_KEY_def LV_STR_NODE_GET_KEY_def Let_def
      subs_key_def MV_IS_CANONICAL_def MV_FORCE_NUM_def MV_DEFINED_def val_iscan_def MV_FORCE_STR_def val_key_def
      lv_key_def int_key_def num_key_def str_key_def wf_int_def wf_flt_def key_abs_def node_key_def node_num_def numval_def mant_def
      is_null_subs_def order_back_def split: if_splits)

section \<open>One step\<close>

lemma sorted_prefix: "sorted_keys h xs \<Longrightarrow> \<exists>ws. xs = filter (\<lambda>x. hkey h x < K) xs @ ws"
proof (induction xs)
  case (Cons x xs)
  show ?case
  proof (cases "hkey h x < K")
    case True
    with Cons obtain ws where "xs = filter (\<lambda>x. hkey h x < K) xs @ ws" by (auto simp: sorted_keys_Cons)
    with True show ?thesis by (intro exI [of _ ws]) simp
  next
    case False
    then have "filter (\<lambda>x. hkey h x < K) (x # xs) = []"
      using Cons.prems by (auto simp: sorted_keys_Cons filter_empty_conv dest: less_trans)
    then show ?thesis by simp
  qed
qed simp

text \<open>The subscripts $ORDER shows: all of them, or all but the null subscript under the standard null collation.\<close>

definition shown :: "bool \<Rightarrow> lvheap \<Rightarrow> nat list \<Rightarrow> nat list" where
  "shown stdnull h xs = (if stdnull then filter (\<lambda>x. \<not> null_at h x) xs else xs)"

definition proper :: "lvheap \<Rightarrow> nat tree \<Rightarrow> bool" where
  "proper h t \<longleftrightarrow> (\<forall>a \<in> set_tree t. proper_node (the (h a)))"

lemma quiet_node: "heap_quiet h' h \<Longrightarrow> rel_option data_eq (h' x) (h x)"
  by (simp add: heap_quiet_def heap_data_def)

lemma quiet_null: "heap_quiet h' h \<Longrightarrow> null_at h' x = null_at h x"
  using quiet_node [of h' h x] by (cases "h x"; cases "h' x") (auto simp: null_at_def is_null_subs_def data_eq_def)

lemma quiet_proper: "heap_quiet h' h \<Longrightarrow> proper h' t = proper h t"
proof -
  assume q: "heap_quiet h' h"
  have "proper_node (the (h' x)) = proper_node (the (h x))" for x
    using quiet_node [OF q, of x] by (cases "h x"; cases "h' x") (auto simp: proper_node_def data_eq_def)
  then show ?thesis by (simp add: proper_def)
qed

lemma quiet_shown: "heap_quiet h' h \<Longrightarrow> shown stdnull h' = shown stdnull h"
  by (rule ext) (simp add: shown_def quiet_null)

text \<open>Both searches end in a state that differs from the first in cached forms and directions only.\<close>

lemma key_next_good:
  assumes "lv_key k" "lv_good h lvt t" "t \<noteq> Leaf"
  obtains h' lvt' where "lvAvlTreeKeyNext h lvt k = Some (hd_opt (above h t (key_abs k)), h', lvt')" "lv_good h' lvt' t" "heap_quiet h' h"
proof -
  have "lv_inv h lvt t" using assms(2) by (simp add: lv_good_def)
  then obtain h' lvt' where r: "lvAvlTreeKeyNext h lvt k = Some (hd_opt (above h t (key_abs k)), h', lvt')" "heap_quiet h' h"
    using key_next_ok(1) [OF assms(1) _ assms(3)] by blast
  moreover have "lv_good h' lvt' t" using key_step_lookup(1) [OF r(1)] step_lookup_good [OF assms(2,1)] by blast
  ultimately show ?thesis using that by blast
qed

lemma key_prev_good:
  assumes "lv_key k" "lv_good h lvt t" "t \<noteq> Leaf"
  obtains h' lvt' where "lvAvlTreeKeyPrev h lvt k = Some (last_opt (below h t (key_abs k)), h', lvt')" "lv_good h' lvt' t" "heap_quiet h' h"
proof -
  have "lv_inv h lvt t" using assms(2) by (simp add: lv_good_def)
  then obtain h' lvt' where r: "lvAvlTreeKeyPrev h lvt k = Some (last_opt (below h t (key_abs k)), h', lvt')" "heap_quiet h' h"
    using key_next_ok(2) [OF assms(1) _ assms(3)] by blast
  moreover have "lv_good h' lvt' t" using key_step_lookup(2) [OF r(1)] step_lookup_good [OF assms(2,1)] by blast
  ultimately show ?thesis using that by blast
qed

lemma good_parts:
  assumes "lv_good h lvt t"
  shows "search_tree h t" "is_tree h None t" "avl_root lvt = rootp t" "sorted_keys h (inorder t)" "distinct (inorder t)"
    "\<And>a. a \<in> set_tree t \<Longrightarrow> wf_node (the (h a))"
  using assms search_tree_distinct [of h t] by (auto simp: lv_good_def lv_inv_def lv_search_def search_tree_def)

lemma shown_hop:
  assumes "lv_good h lvt t" "inorder t = ws @ xs"
  shows "(if stdnull then hop_null h (hd_opt xs) else Some (hd_opt xs)) = Some (hd_opt (shown stdnull h xs))"
  using hop_null_ok [OF good_parts(1) [OF assms(1)] assms(2)] by (simp add: shown_def)

lemma shown_hop_prev:
  assumes g: "lv_good h lvt t" and io: "inorder t = xs @ ws"
  shows "(if stdnull then hop_null_prev h (last_opt xs) else Some (last_opt xs)) = Some (last_opt (shown stdnull h xs))"
proof (cases xs rule: rev_cases)
  case Nil then show ?thesis by (simp add: hop_null_prev_def shown_def)
next
  case (snoc ys x)
  note p = good_parts [OF g]
  have sub: "set (ys @ [x]) \<subseteq> set_tree t" using io snoc by (auto simp flip: set_inorder)
  then obtain n where n: "h x = Some n" using is_tree_dom [OF p(2), of x] by auto
  show ?thesis
  proof (cases "null_at h x")
    case True
    have "\<not> null_at h y" if "y \<in> set ys" for y
    proof -
      have "hkey h y < hkey h x" using p(4) io snoc that by (auto simp: sorted_keys_append sorted_keys_Cons)
      moreover have "hkey h x = StrKey []" using True null_at_key p(6) sub by auto
      ultimately show ?thesis using null_at_key [of h y] p(6) sub that by auto
    qed
    then have "filter (\<lambda>x. \<not> null_at h x) ys = ys" by (simp add: filter_id_conv)
    moreover have "lvAvlTreePrev h (Some x) = Some (last_opt ys)" using next_inorder(2) [OF p(2,5)] io snoc by simp
    ultimately show ?thesis using True n snoc by (simp add: hop_null_prev_def null_at_def shown_def)
  next
    case False
    with n snoc show ?thesis by (simp add: hop_null_prev_def null_at_def shown_def)
  qed
qed

text \<open>What is stored in \<open>dst\<close> for a node.\<close>

definition out_val :: "lvheap \<Rightarrow> nptr \<Rightarrow> mval \<Rightarrow> mval" where
  "out_val h node dst = (case node of None \<Rightarrow> dst\<lparr>mvtype := MV_STR, str_of := []\<rparr> | Some a \<Rightarrow> LV_NODE_GET_KEY (the (h a)) dst)"

lemma order_result_out:
  assumes "lv_good h lvt t" "proper h t" "set_option node \<subseteq> set_tree t"
  shows "order_result None False h node dst = Some (out_val h node dst)"
proof (cases node)
  case None then show ?thesis by (simp add: order_result_def out_val_def)
next
  case (Some a)
  with assms obtain n where n: "h a = Some n" "a \<in> set_tree t" using is_tree_dom [OF good_parts(2) [OF assms(1)], of a] by auto
  then have "wf_node n" "proper_node n" using good_parts(6) [OF assms(1), of a] assms(2) by (auto simp: proper_def)
  with n Some node_subs_key(5) show ?thesis by (simp add: order_result_def out_val_def)
qed

lemma out_val_key:
  assumes g: "lv_good h' lvt' t" "heap_quiet h' h" "proper h t" and n: "set_option n \<subseteq> set_tree t"
  shows "case n of None \<Rightarrow> out_val h' n dst = dst\<lparr>mvtype := MV_STR, str_of := []\<rparr> | Some a \<Rightarrow> val_key (out_val h' n dst) = hkey h a"
proof (cases n)
  case None then show ?thesis by (simp add: out_val_def)
next
  case (Some a)
  then have "a \<in> set_tree t" using n by simp
  then have "wf_node (the (h' a))" "proper_node (the (h' a))"
    using good_parts(6) [OF g(1)] g(3) quiet_proper [OF g(2), of t] by (auto simp: proper_def)
  from node_subs_key(2) [OF this, of dst] Some heap_quiet_hkey [OF g(2)] show ?thesis by (simp add: out_val_def hkey_def fun_eq_iff)
qed

lemma ends_in: "set_option (hd_opt xs) \<subseteq> set xs" "set_option (last_opt xs) \<subseteq> set xs"
  by (cases xs; simp add: last_opt_def)+

lemma shown_sub: "set (shown stdnull h xs) \<subseteq> set xs"
  by (auto simp: shown_def)

lemma fnorder_key:
  assumes g: "lv_good h lvt t" "t \<noteq> Leaf" "proper h t" and d: "MV_DEFINED key" "\<not> (is_str (mvtype key) \<and> str_of key = [])"
    and k: "subs_key ui None key = Inr k" "lv_key k"
  obtains h' lvt' where "op_fnorder ui None stdnull h (Some lvt) key dst =
      Some (Inr (out_val h' (hd_opt (shown stdnull h (above h t (key_abs k)))) dst, h', Some lvt'))"
    "lv_good h' lvt' t" "heap_quiet h' h"
proof -
  obtain h' lvt' where r: "lvAvlTreeKeyNext h lvt k = Some (hd_opt (above h t (key_abs k)), h', lvt')" "lv_good h' lvt' t" "heap_quiet h' h"
    by (rule key_next_good [OF k(2) g(1,2)])
  have s: "order_search ui None False h lvt key = Some (Inr (hd_opt (above h t (key_abs k)), h', lvt'))"
    using d k r(1) by (auto simp: order_search_def MV_FORCE_DEFINED_def get_first_def)
  obtain ws where io: "inorder t = ws @ above h t (key_abs k)"
    using sorted_suffix [OF good_parts(4) [OF g(1)], of "key_abs k"] by (auto simp: above_def)
  note hop = shown_hop [OF r(2) io, of stdnull, unfolded quiet_shown [OF r(3)]]
  have "set_option (hd_opt (shown stdnull h (above h t (key_abs k)))) \<subseteq> set_tree t"
    using ends_in(1) [of "shown stdnull h (above h t (key_abs k))"] shown_sub [of stdnull h] by (fastforce simp: above_def)
  note out = order_result_out [OF r(2) _ this, of dst, unfolded quiet_proper [OF r(3)], OF g(3)]
  show ?thesis
    by (rule that [of h' lvt']) (use s hop out r in \<open>simp_all add: op_fnorder_def op_fnorder_with_def\<close>)
qed

lemma fnzprevious_key:
  assumes g: "lv_good h lvt t" "t \<noteq> Leaf" "proper h t" and d: "MV_DEFINED key" "\<not> (is_str (mvtype key) \<and> str_of key = [])"
    and k: "subs_key ui None key = Inr k" "lv_key k"
  obtains h' lvt' where "op_fnzprevious ui None stdnull h (Some lvt) key dst =
      Some (Inr (out_val h' (last_opt (shown stdnull h (below h t (key_abs k)))) dst, h', Some lvt'))"
    "lv_good h' lvt' t" "heap_quiet h' h"
proof -
  obtain h' lvt' where r: "lvAvlTreeKeyPrev h lvt k = Some (last_opt (below h t (key_abs k)), h', lvt')" "lv_good h' lvt' t" "heap_quiet h' h"
    by (rule key_prev_good [OF k(2) g(1,2)])
  have s: "zprevious_search ui None h lvt key = Some (Inr (last_opt (below h t (key_abs k)), h', lvt'))"
    using d k r(1) by (auto simp: zprevious_search_def MV_FORCE_DEFINED_def)
  obtain ws where io: "inorder t = below h t (key_abs k) @ ws"
    using sorted_prefix [OF good_parts(4) [OF g(1)], of "key_abs k"] by (auto simp: below_def)
  note hop = shown_hop_prev [OF r(2) io, of stdnull, unfolded quiet_shown [OF r(3)]]
  have "set_option (last_opt (shown stdnull h (below h t (key_abs k)))) \<subseteq> set_tree t"
    using ends_in(2) [of "shown stdnull h (below h t (key_abs k))"] shown_sub [of stdnull h] by (fastforce simp: below_def)
  note out = order_result_out [OF r(2) _ this, of dst, unfolded quiet_proper [OF r(3)], OF g(3)]
  show ?thesis
    by (rule that [of h' lvt']) (use s hop out r in \<open>simp_all add: op_fnzprevious_def\<close>)
qed

section \<open>The loop of an M program\<close>

text \<open>
  \<open>SET x="" FOR  SET x=$ORDER(a(x)) QUIT:x=""\<close>: the values of \<open>x\<close> before the loop quits; \<open>None\<close> if it raises an
  error, gets stuck, or has not quit after \<open>n\<close> rounds.
\<close>

fun order_loop :: "nat \<Rightarrow> bool \<Rightarrow> bool \<Rightarrow> lvheap \<Rightarrow> lvTree option \<Rightarrow> mval \<Rightarrow> mval list option" where
  "order_loop 0 ui stdnull h src x = None"
| "order_loop (Suc n) ui stdnull h src x = do {
     r \<leftarrow> op_fnorder ui None stdnull h src x x;
     (case r of Inl err \<Rightarrow> None
      | Inr (x, h, src) \<Rightarrow>
          if is_str (mvtype x) \<and> str_of x = [] then Some []
          else do { xs \<leftarrow> order_loop n ui stdnull h src x; Some (x # xs) })
   }"

lemma shown_Cons:
  assumes "shown stdnull h ys = b # rest"
  obtains us vs where "ys = us @ b # vs" "rest = shown stdnull h vs" "stdnull \<longrightarrow> \<not> null_at h b"
proof (cases stdnull)
  case True
  with assms have "filter (\<lambda>x. \<not> null_at h x) ys = b # rest" by (simp add: shown_def)
  from filter_eq_ConsD [OF this] True that show ?thesis by (auto simp: shown_def)
next
  case False
  with assms that [of "[]" rest] show ?thesis by (simp add: shown_def)
qed

text \<open>What the loop does once \<open>$ORDER\<close> has stepped to the first of \<open>ys\<close>.\<close>

definition tail_ok :: "nat \<Rightarrow> bool \<Rightarrow> bool \<Rightarrow> nat tree \<Rightarrow> nat list \<Rightarrow> bool" where
  "tail_ok n ui stdnull t ys \<longleftrightarrow> (\<forall>h lvt xs a d. lv_good h lvt t \<longrightarrow> proper h t \<longrightarrow>
     (stdnull \<or> (\<forall>x \<in> set_tree t. \<not> null_at h x)) \<longrightarrow> \<not> null_at h a \<longrightarrow> inorder t = xs @ a # ys \<longrightarrow>
     (\<exists>ds. order_loop n ui stdnull h (Some lvt) (LV_NODE_GET_KEY (the (h a)) d) = Some ds \<and>
       map val_key ds = map (hkey h) (shown stdnull h ys)))"

text \<open>The loop after one call of \<open>$ORDER\<close> whose result is the node at the head of the subscripts shown.\<close>

lemma loop_step:
  assumes r: "op_fnorder ui None stdnull h (Some lvt) x x = Some (Inr (out_val h' (hd_opt (shown stdnull h ys)) x, h', Some lvt'))"
    and g: "lv_good h' lvt' t" "heap_quiet h' h" "proper h t" "stdnull \<or> (\<forall>x \<in> set_tree t. \<not> null_at h x)"
    and io: "inorder t = xs @ ys" and IH: "\<And>vs. length vs < length ys \<Longrightarrow> tail_ok n ui stdnull t vs"
  shows "\<exists>ds. order_loop (Suc n) ui stdnull h (Some lvt) x = Some ds \<and> map val_key ds = map (hkey h) (shown stdnull h ys)"
proof (cases "shown stdnull h ys")
  case Nil
  with r show ?thesis by (simp add: out_val_def)
next
  case (Cons b rest)
  then obtain us vs where y: "ys = us @ b # vs" "rest = shown stdnull h vs" "stdnull \<longrightarrow> \<not> null_at h b" by (rule shown_Cons)
  have b: "b \<in> set_tree t" "inorder t = (xs @ us) @ b # vs" using io y(1) by (simp_all flip: set_inorder)
  have nb: "\<not> null_at h' b" using y(3) g(4) b(1) quiet_null [OF g(2)] by auto
  have wf: "wf_node (the (h' b))" "proper_node (the (h' b))"
    using good_parts(6) [OF g(1) b(1)] g(3) quiet_proper [OF g(2), of t] b(1) by (auto simp: proper_def)
  define x' where "x' = LV_NODE_GET_KEY (the (h' b)) x"
  have x': "\<not> (is_str (mvtype x') \<and> str_of x' = [])" "val_key x' = hkey h' b"
    using node_subs_key(2,4) [OF wf, of x] nb by (auto simp: x'_def null_at_def hkey_def)
  have "tail_ok n ui stdnull t vs" using y(1) by (intro IH) simp
  moreover have "proper h' t" "stdnull \<or> (\<forall>x \<in> set_tree t. \<not> null_at h' x)"
    using g(3,4) quiet_proper [OF g(2)] quiet_null [OF g(2)] by simp_all
  ultimately obtain ds where ds: "order_loop n ui stdnull h' (Some lvt') x' = Some ds" "map val_key ds = map (hkey h') (shown stdnull h' vs)"
    using g(1) nb b(2) unfolding tail_ok_def x'_def by meson
  have "out_val h' (hd_opt (shown stdnull h ys)) x = x'" using Cons by (simp add: out_val_def x'_def)
  with r have "op_fnorder ui None stdnull h (Some lvt) x x = Some (Inr (x', h', Some lvt'))" by simp
  then have "order_loop (Suc n) ui stdnull h (Some lvt) x = Some (x' # ds)" using x'(1) ds(1) by auto
  moreover have "map val_key (x' # ds) = map (hkey h) (shown stdnull h ys)"
    unfolding Cons y(2) using x'(2) ds(2) quiet_shown [OF g(2), of stdnull] heap_quiet_hkey [OF g(2)] by simp
  ultimately show ?thesis by blast
qed

lemma above_at:
  assumes "lv_good h lvt t" "inorder t = xs @ a # ys"
  shows "above h t (hkey h a) = ys" "below h t (hkey h a) = xs"
proof -
  have "sorted_keys h (xs @ a # ys)" using good_parts(4) [OF assms(1)] assms(2) by simp
  then have s: "\<forall>x \<in> set xs. hkey h x < hkey h a" "\<forall>x \<in> set [a]. hkey h x = hkey h a" "\<forall>x \<in> set ys. hkey h a < hkey h x"
    by (auto simp: sorted_keys_append sorted_keys_Cons)
  have "inorder t = xs @ [a] @ ys" using assms(2) by simp
  from above_split [OF this s] show "above h t (hkey h a) = ys" "below h t (hkey h a) = xs" .
qed

lemma order_loop_tail: "length ys < n \<Longrightarrow> tail_ok n ui stdnull t ys"
proof (induction n arbitrary: ys)
  case (Suc n)
  show ?case unfolding tail_ok_def
  proof (intro allI impI)
    fix h lvt xs a d
    assume g: "lv_good h lvt t" "proper h t" "stdnull \<or> (\<forall>x \<in> set_tree t. \<not> null_at h x)" "\<not> null_at h a"
      and io: "inorder t = xs @ a # ys"
    have a: "a \<in> set_tree t" "t \<noteq> Leaf" using io by (auto simp flip: set_inorder)
    have wf: "wf_node (the (h a))" "proper_node (the (h a))" using good_parts(6) [OF g(1) a(1)] g(2) a(1) by (auto simp: proper_def)
    define x where "x = LV_NODE_GET_KEY (the (h a)) d"
    have x: "MV_DEFINED x" "\<not> (is_str (mvtype x) \<and> str_of x = [])"
      using node_subs_key(3,4) [OF wf, of d] g(4) by (auto simp: x_def null_at_def)
    obtain k where k: "subs_key ui None x = Inr k" "lv_key k" "key_abs k = hkey h a"
      using node_subs_key(1) [OF wf, of ui d] by (auto simp: x_def hkey_def)
    obtain h' lvt' where r: "op_fnorder ui None stdnull h (Some lvt) x x =
        Some (Inr (out_val h' (hd_opt (shown stdnull h (above h t (key_abs k)))) x, h', Some lvt'))"
      "lv_good h' lvt' t" "heap_quiet h' h" by (rule fnorder_key [OF g(1) a(2) g(2) x k(1,2)])
    show "\<exists>ds. order_loop (Suc n) ui stdnull h (Some lvt) (LV_NODE_GET_KEY (the (h a)) d) = Some ds \<and>
        map val_key ds = map (hkey h) (shown stdnull h ys)"
      unfolding x_def [symmetric]
    proof (rule loop_step [OF _ r(2,3) g(2,3)])
      show "op_fnorder ui None stdnull h (Some lvt) x x = Some (Inr (out_val h' (hd_opt (shown stdnull h ys)) x, h', Some lvt'))"
        using r(1) k(3) above_at(1) [OF g(1) io] by simp
      show "inorder t = (xs @ [a]) @ ys" using io by simp
      show "tail_ok n ui stdnull t vs" if "length vs < length ys" for vs using Suc that by simp
    qed
  qed
qed simp

lemma order_loop_ok:
  assumes g: "lv_good h lvt t" "t \<noteq> Leaf" "proper h t" "stdnull \<or> (\<forall>x \<in> set_tree t. \<not> null_at h x)"
    and x: "is_str (mvtype x)" "str_of x = []" and n: "size t < n"
  shows "\<exists>ds. order_loop n ui stdnull h (Some lvt) x = Some ds \<and> map val_key ds = map (hkey h) (shown stdnull h (inorder t))"
proof -
  obtain n' where n': "n = Suc n'" "size t \<le> n'" using n by (cases n) auto
  have "order_search ui None False h lvt x = Some (Inr (hd_opt (inorder t), h, lvt))"
    using x first_inorder [OF good_parts(2,3) [OF g(1)]]
    by (simp add: order_search_def MV_FORCE_DEFINED_def MV_DEFINED_def get_first_def)
  moreover have "set_option (hd_opt (shown stdnull h (inorder t))) \<subseteq> set_tree t"
    using ends_in(1) [of "shown stdnull h (inorder t)"] shown_sub [of stdnull h "inorder t"] by auto
  ultimately have "op_fnorder ui None stdnull h (Some lvt) x x =
      Some (Inr (out_val h (hd_opt (shown stdnull h (inorder t))) x, h, Some lvt))"
    using shown_hop [OF g(1), of "[]" "inorder t" stdnull] order_result_out [OF g(1,3)]
    by (simp add: op_fnorder_def op_fnorder_with_def)
  from loop_step [OF this g(1) _ g(3,4), where xs = "[]" and n = n'] n' order_loop_tail [of _ n' ui stdnull t] show ?thesis by simp
qed

section \<open>Subscripts an M program can pass\<close>

text \<open>
  A defined value: a number in range, or a string; a string that also carries the bits of an approximate number
  is not the text of a canonical one.
\<close>

definition subs_ok :: "mval \<Rightarrow> bool" where
  "subs_ok v \<longleftrightarrow> MV_DEFINED v \<and> \<not> is_canon (mvtype v) \<and>
     (if is_nm (mvtype v) then wf_num v \<and> (is_approx (mvtype v) \<longrightarrow> is_str (mvtype v) \<and> \<not> iscan_text (str_of v))
      else \<not> is_int (mvtype v))"

lemma canon_key: "wf_num v \<Longrightarrow> lv_key (v\<lparr>mvtype := mv_or (mvtype v) MV_CANONICAL\<rparr>)"
  by (auto simp: lv_key_def int_key_def num_key_def wf_num_def wf_int_def wf_flt_def)

lemma force_num_wf:
  assumes "subs_ok v" "MV_FORCE_NUM ui v = Inr w"
  shows "wf_num w"
  using assms s2n_wf [of v]
  by (auto simp: subs_ok_def MV_FORCE_NUM_def split: if_splits sum.splits)

lemma subs_key_cases:
  assumes "subs_ok v" "subs_key ui None v = Inr k"
  obtains (num) w where "wf_num w" "k = w\<lparr>mvtype := mv_or (mvtype w) MV_CANONICAL\<rparr>"
    | (str) "k = v" "str_key v" "\<not> iscan_text (str_of v)"
proof (cases "MV_IS_CANONICAL ui v = Inr True")
  case True
  with assms(2) obtain w where "MV_FORCE_NUM ui v = Inr w" "k = w\<lparr>mvtype := mv_or (mvtype w) MV_CANONICAL\<rparr>"
    by (auto simp: subs_key_def split: sum.splits)
  with force_num_wf [OF assms(1)] num show ?thesis by blast
next
  case False
  with assms(2) have c: "MV_IS_CANONICAL ui v = Inr False" "k = v"
    by (auto simp: subs_key_def split: sum.splits if_splits)
  with assms(1) show ?thesis
    by (intro str) (auto simp: subs_ok_def MV_IS_CANONICAL_def MV_DEFINED_def val_iscan_def MV_FORCE_STR_def str_key_def split: if_splits)
qed

lemma subs_key_lv_key: "subs_ok v \<Longrightarrow> subs_key ui None v = Inr k \<Longrightarrow> lv_key k"
  using canon_key by (elim subs_key_cases) (auto simp: lv_key_def)

lemma new_node_proper:
  assumes "subs_ok v" "subs_key ui None v = Inr k"
  shows "proper_node (new_node slot lvt k par)"
  using assms
proof (cases rule: subs_key_cases)
  case (num w)
  then show ?thesis by (auto simp: proper_node_def new_node_def Let_def wf_num_def wf_int_def wf_flt_def)
next
  case str
  then show ?thesis by (simp add: proper_node_def new_node_def Let_def str_key_def)
qed

section \<open>Properties\<close>

text \<open>
  C21. Every subscript a program can pass becomes a key of one of the three kinds the tree functions take, or
  raises NUMOFLOW.
\<close>

theorem subs_key_typed:
  assumes "subs_ok v"
  shows "subs_key ui None v = Inl ERR_NUMOFLOW \<or> (\<exists>k. subs_key ui None v = Inr k \<and> lv_key k)"
proof (cases "subs_key ui None v")
  case (Inr k) then show ?thesis using subs_key_lv_key [OF assms] by blast
next
  case (Inl err)
  have "s2n False v = Inl e \<Longrightarrow> e = ERR_NUMOFLOW" for e
    by (auto simp: s2n_def s2n_number_def Let_def split: if_splits sum.splits prod.splits)
  with Inl assms show ?thesis
    by (auto simp: subs_ok_def subs_key_def MV_IS_CANONICAL_def MV_FORCE_NUM_def MV_DEFINED_def val_iscan_def MV_FORCE_STR_def split: sum.splits if_splits)
qed

theorem subs_key_typed_witness:
  "subs_key False None (ex_string [65, 66]) = Inl ERR_NUMOFLOW \<or>
   (\<exists>k. subs_key False None (ex_string [65, 66]) = Inr k \<and> lv_key k)"
  by (rule subs_key_typed) (simp add: subs_ok_def ex_string_def MV_DEFINED_def)

text \<open>
  C20. A subscript survives the tree: the value that $ORDER reads back from the node created for a subscript
  denotes the subscript the node was created for, and reading it again as a subscript gives the same key.
\<close>

theorem subscript_roundtrip:
  assumes "subs_ok v" "subs_key ui None v = Inr k"
  shows "val_key (LV_NODE_GET_KEY (new_node slot lvt k par) d) = key_abs k \<and>
    (\<exists>k'. subs_key ui None (LV_NODE_GET_KEY (new_node slot lvt k par) d) = Inr k' \<and> key_abs k' = key_abs k)"
proof -
  note k = subs_key_lv_key [OF assms]
  have n: "wf_node (new_node slot lvt k par)" "proper_node (new_node slot lvt k par)" "node_key (new_node slot lvt k par) = key_abs k"
    using new_node_ok(1,2) [OF k] new_node_proper [OF assms] by blast+
  from node_subs_key(1,2) [OF n(1,2)] n(3) show ?thesis by metis
qed

lemma ex_subs_key: "subs_ok (ex_num 4000)"
  "subs_key False None (ex_num 4000) = Inr ((ex_num 4000)\<lparr>mvtype := mv_or (mvtype (ex_num 4000)) MV_CANONICAL\<rparr>)"
  by (simp_all add: subs_ok_def ex_num_def MV_DEFINED_def wf_num_def wf_int_def mv_defs subs_key_def MV_IS_CANONICAL_def MV_FORCE_NUM_def)

theorem subscript_roundtrip_witness:
  "val_key (LV_NODE_GET_KEY (new_node ex_slot ex_lvt ((ex_num 4000)\<lparr>mvtype := mv_or (mvtype (ex_num 4000)) MV_CANONICAL\<rparr>) None) literal_null)
    = NumKey (4000 * 10 ^ 77)"
  using subscript_roundtrip [OF ex_subs_key, of ex_slot ex_lvt None literal_null]
  by (simp add: key_abs_def numval_def ex_num_def)

lemma ex_good: "lv_good ex_heap ex_lvt ex_tree" "proper ex_heap ex_tree"
proof -
  have "tree_parent (the (ex_heap a)) = lvt_addr ex_lvt" if "a \<in> set_tree ex_tree" for a
    using that by (auto simp: ex_tree_def ex_heap_def new_node_def Let_def)
  with ex_inv show "lv_good ex_heap ex_lvt ex_tree" by (simp add: lv_good_def)
  have "\<not> iscan_text [65]" by (simp add: iscan_text_def Let_def DIGIT_def word_le_def)
  then have "proper_node (the (ex_heap a))" if "a \<in> set_tree ex_tree" for a
    using that by (auto simp: ex_tree_def ex_heap_def new_node_def Let_def proper_node_def ex_int_def ex_str_def)
  then show "proper ex_heap ex_tree" by (simp add: proper_def)
qed

lemma ex_neighbours:
  "above ex_heap ex_tree (NumKey (4000 * 10 ^ 77)) = [4, 3]" "below ex_heap ex_tree (NumKey (4000 * 10 ^ 77)) = [2]"
  "\<And>xs. set xs \<subseteq> {2, 3, 4} \<Longrightarrow> shown s ex_heap xs = xs"
  "key_abs ((ex_num 4000)\<lparr>mvtype := mv_or (mvtype (ex_num 4000)) MV_CANONICAL\<rparr>) = NumKey (4000 * 10 ^ 77)"
  "ex_tree \<noteq> Leaf" "\<not> (is_str (mvtype (ex_num 4000)) \<and> str_of (ex_num 4000) = [])"
  using ex_null
  by (auto simp: above_def below_def ex_tree_def ex_node_keys shown_def null_at_def filter_id_conv key_abs_def numval_def ex_num_def)

text \<open>
  C18. $ORDER: for a subscript other than the null string, on a tree with nodes, \<open>op_fnorder\<close> returns a value
  that denotes the least subscript above it (the null subscript left out under the standard null
  collation), or the null string when there is none, and keeps the invariant of the tree.
\<close>

theorem fnorder_next:
  assumes "lv_good h lvt t" "t \<noteq> Leaf" "proper h t" "subs_ok key" "\<not> (is_str (mvtype key) \<and> str_of key = [])"
    "subs_key ui None key = Inr k"
  shows "\<exists>d h' lvt'. op_fnorder ui None stdnull h (Some lvt) key dst = Some (Inr (d, h', Some lvt')) \<and> lv_good h' lvt' t \<and>
    (case hd_opt (shown stdnull h (above h t (key_abs k))) of
       None \<Rightarrow> d = dst\<lparr>mvtype := MV_STR, str_of := []\<rparr>
     | Some a \<Rightarrow> val_key d = hkey h a)"
proof -
  let ?n = "hd_opt (shown stdnull h (above h t (key_abs k)))"
  have d: "MV_DEFINED key" using assms(4) by (simp add: subs_ok_def)
  obtain h' lvt' where r: "op_fnorder ui None stdnull h (Some lvt) key dst = Some (Inr (out_val h' ?n dst, h', Some lvt'))"
    "lv_good h' lvt' t" "heap_quiet h' h"
    by (rule fnorder_key [OF assms(1-3) d assms(5,6) subs_key_lv_key [OF assms(4,6)]])
  have "set_option ?n \<subseteq> set_tree t"
    using ends_in(1) [of "shown stdnull h (above h t (key_abs k))"] shown_sub [of stdnull h] by (fastforce simp: above_def)
  then have "case ?n of None \<Rightarrow> out_val h' ?n dst = dst\<lparr>mvtype := MV_STR, str_of := []\<rparr> | Some a \<Rightarrow> val_key (out_val h' ?n dst) = hkey h a"
    by (rule out_val_key [OF r(2,3) assms(3)])
  with r show ?thesis by blast
qed

theorem fnorder_next_witness:
  "\<exists>d h' lvt'. op_fnorder False None True ex_heap (Some ex_lvt) (ex_num 4000) literal_null = Some (Inr (d, h', Some lvt')) \<and>
    val_key d = NumKey (5000 * 10 ^ 77)"
  using fnorder_next [OF ex_good(1) ex_neighbours(5) ex_good(2) ex_subs_key(1) ex_neighbours(6) ex_subs_key(2), of True literal_null]
  unfolding ex_neighbours(4) ex_neighbours(1,2) by (auto simp: ex_neighbours(3) ex_node_keys)

text \<open>
  C19. $ZPREVIOUS: likewise \<open>op_fnzprevious\<close> returns a value that denotes the greatest subscript below.
\<close>

theorem fnzprevious_prev:
  assumes "lv_good h lvt t" "t \<noteq> Leaf" "proper h t" "subs_ok key" "\<not> (is_str (mvtype key) \<and> str_of key = [])"
    "subs_key ui None key = Inr k"
  shows "\<exists>d h' lvt'. op_fnzprevious ui None stdnull h (Some lvt) key dst = Some (Inr (d, h', Some lvt')) \<and> lv_good h' lvt' t \<and>
    (case last_opt (shown stdnull h (below h t (key_abs k))) of
       None \<Rightarrow> d = dst\<lparr>mvtype := MV_STR, str_of := []\<rparr>
     | Some a \<Rightarrow> val_key d = hkey h a)"
proof -
  let ?n = "last_opt (shown stdnull h (below h t (key_abs k)))"
  have d: "MV_DEFINED key" using assms(4) by (simp add: subs_ok_def)
  obtain h' lvt' where r: "op_fnzprevious ui None stdnull h (Some lvt) key dst = Some (Inr (out_val h' ?n dst, h', Some lvt'))"
    "lv_good h' lvt' t" "heap_quiet h' h"
    by (rule fnzprevious_key [OF assms(1-3) d assms(5,6) subs_key_lv_key [OF assms(4,6)]])
  have "set_option ?n \<subseteq> set_tree t"
    using ends_in(2) [of "shown stdnull h (below h t (key_abs k))"] shown_sub [of stdnull h] by (fastforce simp: below_def)
  then have "case ?n of None \<Rightarrow> out_val h' ?n dst = dst\<lparr>mvtype := MV_STR, str_of := []\<rparr> | Some a \<Rightarrow> val_key (out_val h' ?n dst) = hkey h a"
    by (rule out_val_key [OF r(2,3) assms(3)])
  with r show ?thesis by blast
qed

theorem fnzprevious_prev_witness:
  "\<exists>d h' lvt'. op_fnzprevious False None True ex_heap (Some ex_lvt) (ex_num 4000) literal_null = Some (Inr (d, h', Some lvt')) \<and>
    val_key d = NumKey (3000 * 10 ^ 77)"
  using fnzprevious_prev [OF ex_good(1) ex_neighbours(5) ex_good(2) ex_subs_key(1) ex_neighbours(6) ex_subs_key(2), of True literal_null]
  unfolding ex_neighbours(4) ex_neighbours(1,2) by (auto simp: ex_neighbours(3) ex_node_keys)

text \<open>
  C17. The usual loop \<open>SET x="" FOR  SET x=$ORDER(a(x)) QUIT:x=""\<close> ends, and \<open>x\<close> takes every subscript of the
  tree exactly once, in ascending order (the null subscript left out under the standard null collation;
  without it the tree must not have one).
\<close>

theorem order_loop_visits_all:
  assumes "lv_good h lvt t" "t \<noteq> Leaf" "proper h t" "stdnull \<or> (\<forall>a \<in> set_tree t. \<not> null_at h a)"
    "is_str (mvtype x)" "str_of x = []" "size t < n"
  shows "\<exists>ds. order_loop n ui stdnull h (Some lvt) x = Some ds \<and>
    map val_key ds = map (hkey h) (if stdnull then filter (\<lambda>a. \<not> null_at h a) (inorder t) else inorder t)"
  using order_loop_ok [OF assms] by (simp add: shown_def)

theorem order_loop_visits_all_witness:
  "\<exists>ds. order_loop 4 False True ex_heap (Some ex_lvt) literal_null = Some ds \<and>
    map val_key ds = [NumKey (3000 * 10 ^ 77), NumKey (5000 * 10 ^ 77), StrKey [65]]"
  using order_loop_visits_all [OF ex_good(1) _ ex_good(2), of True literal_null 4 False] ex_null
  by (simp add: ex_tree_def ex_node_keys null_at_def literal_null_def)

end
