(* ===== verification/GvSubsc.thy ===== *)
theory GvSubsc
  imports N2s LvKey
begin

text \<open>
  The encoding of subscripts in database keys, \<open>mval2subsc.c\<close>: a canonical number becomes an exponent
  byte and base-100 digits through the tables \<open>pos_code\<close> and \<open>neg_code\<close>, any other value an escaped string.
  The theorems: the two number forms of one number encode alike, and the bytewise order of encodings,
  whatever follows them in the key, is the M collation order (numbers by value, then strings).
\<close>

unbundle bit_operations_syntax

section \<open>The key and the code tables\<close>

definition STR_SUB_PREFIX :: byte where "STR_SUB_PREFIX = 0xFF"
definition SUBSCRIPT_STDCOL_NULL :: byte where "SUBSCRIPT_STDCOL_NULL = 1"
definition STR_SUB_ESCAPE :: byte where "STR_SUB_ESCAPE = 1"
definition SUBSCRIPT_ZERO :: byte where "SUBSCRIPT_ZERO = 0x80"
definition SUBSCRIPT_BIAS :: int where "SUBSCRIPT_BIAS = 0xBE"
definition NEG_MNTSSA_END :: byte where "NEG_MNTSSA_END = 0xFF"
definition KEY_DELIMITER :: byte where "KEY_DELIMITER = 0"
definition MAX_NUM_SUBSC_LEN :: int where "MAX_NUM_SUBSC_LEN = 10"
definition MAX_GVKEY_PADDING_LEN :: int where "MAX_GVKEY_PADDING_LEN = MAX_NUM_SUBSC_LEN + 16"

text \<open>
  A key buffer: \<open>base\<close> holds the bytes up to \<open>end\<close>, the offset of the second of the two terminating nulls; what
  lies behind is not represented.
\<close>

record gv_key =
  gk_top :: int
  gk_end :: nat
  gk_prev :: nat
  gk_base :: bytes

definition pos_code :: "int list" where
  "pos_code =
    [1, 2, 3, 4, 5, 6, 7, 8, 9, 10,
     17, 18, 19, 20, 21, 22, 23, 24, 25, 26,
     33, 34, 35, 36, 37, 38, 39, 40, 41, 42,
     49, 50, 51, 52, 53, 54, 55, 56, 57, 58,
     65, 66, 67, 68, 69, 70, 71, 72, 73, 74,
     81, 82, 83, 84, 85, 86, 87, 88, 89, 90,
     97, 98, 99, 100, 101, 102, 103, 104, 105, 106,
     113, 114, 115, 116, 117, 118, 119, 120, 121, 122,
     129, 130, 131, 132, 133, 134, 135, 136, 137, 138,
     145, 146, 147, 148, 149, 150, 151, 152, 153, 154]"

definition neg_code :: "int list" where
  "neg_code =
    [254, 253, 252, 251, 250, 249, 248, 247, 246, 245,
     238, 237, 236, 235, 234, 233, 232, 231, 230, 229,
     222, 221, 220, 219, 218, 217, 216, 215, 214, 213,
     206, 205, 204, 203, 202, 201, 200, 199, 198, 197,
     190, 189, 188, 187, 186, 185, 184, 183, 182, 181,
     174, 173, 172, 171, 170, 169, 168, 167, 166, 165,
     158, 157, 156, 155, 154, 153, 152, 151, 150, 149,
     142, 141, 140, 139, 138, 137, 136, 135, 134, 133,
     126, 125, 124, 123, 122, 121, 120, 119, 118, 117,
     110, 109, 108, 107, 106, 105, 104, 103, 102, 101]"

definition cvt_table :: "bool \<Rightarrow> int \<Rightarrow> byte" where
  "cvt_table is_negative i = of_int ((if is_negative then neg_code else pos_code) ! nat i)"

text \<open>The exponent byte, complemented for a negative number.\<close>

definition exp_byte :: "bool \<Rightarrow> int \<Rightarrow> byte" where
  "exp_byte is_negative ex = (if is_negative then NOT (of_int ex) else of_int ex)"

section \<open>Numbers\<close>

text \<open>
  Integer form.  \<open>strip100\<close> is the loop KEEP_STRIPING, which drops trailing zero pairs and pushes the first
  other pair; \<open>rest100\<close> is FINISH_INTEGERS.  The pairs pushed on \<open>tm\<close> come out in reverse.
\<close>

function strip100 :: "(int \<Rightarrow> byte) \<Rightarrow> int \<Rightarrow> bytes \<Rightarrow> int \<times> bytes" where
  "strip100 tbl mt tm =
    (if mt > 0 then
       let mw = mt - mt sdiv 100 * 100; mt = mt sdiv 100
       in if mw \<noteq> 0 then (mt, tbl mw # tm) else strip100 tbl mt tm
     else (mt, tm))"
  by pat_completeness auto
termination
  by (relation "measure (\<lambda>(tbl, mt, tm). nat mt)") (auto simp: sdiv_nonneg)

function rest100 :: "(int \<Rightarrow> byte) \<Rightarrow> int \<Rightarrow> bytes \<Rightarrow> bytes" where
  "rest100 tbl mt tm =
    (if mt > 0 then rest100 tbl (mt sdiv 100) (tbl (mt - mt sdiv 100 * 100) # tm) else tm)"
  by pat_completeness auto
termination
  by (relation "measure (\<lambda>(tbl, mt, tm). nat mt)") (auto simp: sdiv_nonneg)

declare strip100.simps [simp del] rest100.simps [simp del]

definition EVEN_INTEGER :: "(int \<Rightarrow> byte) \<Rightarrow> int \<Rightarrow> bytes" where
  "EVEN_INTEGER tbl mt = (let (mt, tm) = strip100 tbl mt [] in rest100 tbl mt tm)"

definition ODD_INTEGER :: "(int \<Rightarrow> byte) \<Rightarrow> int \<Rightarrow> bytes" where
  "ODD_INTEGER tbl mt =
    (let mw = mt - mt sdiv 10 * 10; mt = mt sdiv 10
     in if mw \<noteq> 0 then rest100 tbl mt [tbl (mw * 10)] else EVEN_INTEGER tbl mt)"

definition int_subsc :: "int \<Rightarrow> bytes" where
  "int_subsc m =
    (if m = 0 then [SUBSCRIPT_ZERO]
     else
       let is_negative = (0 > m);
           mt = (if is_negative then - m else m);
           tbl = cvt_table is_negative;
           out = (\<lambda>ex ds. exp_byte is_negative ex # ds)
       in (if 10 > mt then out (SUBSCRIPT_BIAS - 2) [tbl (mt * 10)]
           else if 100 > mt then out (SUBSCRIPT_BIAS - 1) [tbl mt]
           else if 1000 > mt then out SUBSCRIPT_BIAS (ODD_INTEGER tbl mt)
           else if 10000 > mt then out (SUBSCRIPT_BIAS + 1) (EVEN_INTEGER tbl mt)
           else if 100000 > mt then out (SUBSCRIPT_BIAS + 2) (ODD_INTEGER tbl mt)
           else if 1000000 > mt then out (SUBSCRIPT_BIAS + 3) (EVEN_INTEGER tbl mt)
           else if 10000000 > mt then out (SUBSCRIPT_BIAS + 4) (ODD_INTEGER tbl mt)
           else if 100000000 > mt then out (SUBSCRIPT_BIAS + 5) (EVEN_INTEGER tbl mt)
           else out (SUBSCRIPT_BIAS + 6) (ODD_INTEGER tbl mt))
          @ (if is_negative then [NEG_MNTSSA_END] else []))"

text \<open>
  Float form.  One step of the digit loops strips the two top digits of a nine-digit number; the loop
  LAST_LONGWORD runs while digits are left, at most five times (\<open>last_longword_ok\<close>).
\<close>

definition top2 :: "int \<Rightarrow> int \<times> int" where
  "top2 mt = (let mx = mt sdiv (MANT_HI sdiv 100) in (mx, (mt - mx * (MANT_HI sdiv 100)) * 100))"

fun digits4 :: "(int \<Rightarrow> byte) \<Rightarrow> nat \<Rightarrow> int \<Rightarrow> bytes" where
  "digits4 tbl 0 mt = []"
| "digits4 tbl (Suc n) mt = (let (mx, mt) = top2 mt in tbl mx # digits4 tbl n mt)"

fun LAST_LONGWORD :: "(int \<Rightarrow> byte) \<Rightarrow> nat \<Rightarrow> int \<Rightarrow> bytes option" where
  "LAST_LONGWORD tbl fuel mt =
    (if mt = 0 then Some []
     else case fuel of
       0 \<Rightarrow> None
     | Suc fuel \<Rightarrow> (let (mx, mt) = top2 mt in map_option (\<lambda>ds. tbl mx # ds) (LAST_LONGWORD tbl fuel mt)))"

declare LAST_LONGWORD.simps [simp del]

definition flt_subsc :: "mval \<Rightarrow> bytes option" where
  "flt_subsc v =
    (let is_negative = (sgn_of v \<noteq> 0);
         tbl = cvt_table is_negative;
         (mx, mt) = top2 (m1 v);
         mw = m0 v;
         ds = (if mw = 0 then LAST_LONGWORD tbl 5 mt
               else
                 let mx = mw sdiv (MANT_HI sdiv 10);
                     mt = mt + mx * 10;
                     mw = (mw - mx * (MANT_HI sdiv 10)) * 10
                 in if mw = 0 then LAST_LONGWORD tbl 5 mt
                    else map_option (\<lambda>ds. digits4 tbl 4 mt @ ds) (LAST_LONGWORD tbl 5 mw))
     in map_option (\<lambda>ds. exp_byte is_negative (e_of v - MV_XBIAS + SUBSCRIPT_BIAS) # tbl mx # ds
          @ (if is_negative then [NEG_MNTSSA_END] else [])) ds)"

definition num_subsc :: "mval \<Rightarrow> bytes option" where
  "num_subsc v = (if is_int (mvtype v) then Some (int_subsc (m1 v)) else flt_subsc v)"

section \<open>Strings and the whole routine\<close>

text \<open>The string loop; \<open>None\<close> is the key overflow when the escapes do not fit.\<close>

fun str_loop :: "int \<Rightarrow> bytes \<Rightarrow> bytes option" where
  "str_loop avail [] = Some []"
| "str_loop avail (ch # s) =
    (if ch \<le> 1 then
       if 0 > avail - 1 then None
       else map_option (\<lambda>out. STR_SUB_ESCAPE # (ch + 1) # out) (str_loop (avail - 1) s)
     else map_option (\<lambda>out. ch # out) (str_loop avail s))"

definition str_subsc :: "bool \<Rightarrow> int \<Rightarrow> bytes \<Rightarrow> bytes option" where
  "str_subsc std_null_coll avail s =
    (if 0 > avail then None
     else if s = [] then Some [if std_null_coll then SUBSCRIPT_STDCOL_NULL else STR_SUB_PREFIX]
     else map_option (\<lambda>out. STR_SUB_PREFIX # out) (str_loop avail s))"

text \<open>The label ALLDONE: the terminators, the new offsets and the check against the end of the buffer.\<close>

definition subsc_done :: "gv_key \<Rightarrow> bytes \<Rightarrow> gv_key result" where
  "subsc_done out_key sub =
    (let out_key = out_key\<lparr>gk_base := take (gk_end out_key) (gk_base out_key) @ sub @ [KEY_DELIMITER, KEY_DELIMITER],
           gk_prev := gk_end out_key, gk_end := gk_end out_key + length sub + 1\<rparr>
     in if MAX_GVKEY_PADDING_LEN + 1 > gk_top out_key - int (gk_end out_key) then Inl ERR_GVSUBOFLOW else Inr out_key)"

text \<open>
  The collation of the global: \<open>TREF(transform)\<close>, \<open>gv_target->nct\<close>, and the transformation of its collation
  sequence, which a user library provides.
\<close>

record gv_coll =
  transform :: bool
  nct :: bool
  collseq :: "(bytes \<Rightarrow> bytes) option"

text \<open>The value as the routine classifies it: a number, or a string with the bit MV_NUM_APPROX.\<close>

definition subsc_class :: "bool \<Rightarrow> gv_coll \<Rightarrow> mval \<Rightarrow> (mval \<times> bool) result" where
  "subsc_class undef_inhibit gc v =
    (if transform gc \<and> nct gc then
       (case MV_FORCE_STR undef_inhibit v of Inl err \<Rightarrow> Inl err | Inr v \<Rightarrow> Inr (v, True))
     else if \<not> is_nm (mvtype v) \<and> \<not> is_approx (mvtype v) then
       (case MV_FORCE_STR undef_inhibit v of
          Inl err \<Rightarrow> Inl err
        | Inr v \<Rightarrow>
            if iscan_text (str_of v) then
              (case s2n False v of Inl err \<Rightarrow> Inl err | Inr r \<Rightarrow> Inr (r_mval r, is_approx (mvtype (r_mval r))))
            else Inr (v\<lparr>mvtype := mv_or (mvtype v) MV_NUM_APPROX\<rparr>, True))
     else Inr (v, is_approx (mvtype v)))"

definition mval2subsc :: "bool \<Rightarrow> gv_coll \<Rightarrow> mval \<Rightarrow> gv_key \<Rightarrow> bool \<Rightarrow> (mval \<times> gv_key) option result" where
  "mval2subsc undef_inhibit gc in_val out_key std_null_coll =
    (case subsc_class undef_inhibit gc in_val of
       Inl err \<Rightarrow> Inl err
     | Inr (in_val, True) \<Rightarrow>
         let s = (case (if transform gc then collseq gc else None) of None \<Rightarrow> str_of in_val | Some xform \<Rightarrow> xform (str_of in_val));
             avail = gk_top out_key - int (gk_end out_key + length s + 3)
         in (case str_subsc std_null_coll avail s of
               None \<Rightarrow> Inl ERR_GVSUBOFLOW
             | Some sub \<Rightarrow> (case subsc_done out_key sub of Inl err \<Rightarrow> Inl err | Inr k \<Rightarrow> Inr (Some (in_val, k))))
     | Inr (in_val, False) \<Rightarrow>
         (case num_subsc in_val of
            None \<Rightarrow> Inr None
          | Some sub \<Rightarrow> (case subsc_done out_key sub of Inl err \<Rightarrow> Inl err | Inr k \<Rightarrow> Inr (Some (in_val, k)))))"

section \<open>Base-100 digits\<close>

text \<open>The \<open>n\<close> base-100 digits of \<open>x\<close> from the top, all of them and without trailing zeros.\<close>

fun pairs :: "nat \<Rightarrow> int \<Rightarrow> int list" where
  "pairs 0 x = []"
| "pairs (Suc n) x = x div 100 ^ n # pairs n (x mod 100 ^ n)"

fun spairs :: "nat \<Rightarrow> int \<Rightarrow> int list" where
  "spairs 0 x = []"
| "spairs (Suc n) x = (if x = 0 then [] else x div 100 ^ n # spairs n (x mod 100 ^ n))"

lemma spairs_0 [simp]: "spairs n 0 = []"
  by (cases n) auto

lemma pow100: "(100::int) ^ n = 10 ^ (2 * n)"
  by (simp add: power_mult)

lemma pairs_length [simp]: "length (pairs n x) = n"
  by (induction n arbitrary: x) auto

lemma spairs_length: "length (spairs n x) \<le> n"
  by (induction n arbitrary: x) auto

lemma div_pair_bounds: "0 \<le> x \<Longrightarrow> x < 100 ^ Suc n \<Longrightarrow> 0 \<le> x div 100 ^ n \<and> x div 100 ^ n < (100::int)"
  by (auto simp: pos_imp_zdiv_nonneg_iff intro: div_less_prod)

lemma pairs_range: "0 \<le> x \<Longrightarrow> x < 100 ^ n \<Longrightarrow> \<forall>d \<in> set (pairs n x). 0 \<le> d \<and> d < 100"
proof (induction n arbitrary: x)
  case (Suc n)
  have "\<forall>d \<in> set (pairs n (x mod 100 ^ n)). 0 \<le> d \<and> d < 100" by (rule Suc.IH) simp_all
  with div_pair_bounds [OF Suc.prems] show ?case unfolding pairs.simps list.set by blast
qed simp

lemma spairs_range: "0 \<le> x \<Longrightarrow> x < 100 ^ n \<Longrightarrow> \<forall>d \<in> set (spairs n x). 0 \<le> d \<and> d < 100"
proof (induction n arbitrary: x)
  case (Suc n)
  have "\<forall>d \<in> set (spairs n (x mod 100 ^ n)). 0 \<le> d \<and> d < 100" by (rule Suc.IH) simp_all
  moreover have "set (spairs (Suc n) x) \<subseteq> insert (x div 100 ^ n) (set (spairs n (x mod 100 ^ n)))"
    by auto
  ultimately show ?case using div_pair_bounds [OF Suc.prems] by blast
qed simp

lemma spairs_shift1: "0 \<le> y \<Longrightarrow> y < 100 ^ n \<Longrightarrow> spairs (Suc n) (100 * y) = spairs n y"
proof (induction n arbitrary: y)
  case (Suc n)
  have d: "100 * y div 100 ^ Suc n = y div 100 ^ n" "100 * y mod 100 ^ Suc n = 100 * (y mod 100 ^ n)"
    by (simp, simp only: mult_mod_right power_Suc)
  have ih: "spairs (Suc n) (100 * (y mod 100 ^ n)) = spairs n (y mod 100 ^ n)" by (rule Suc.IH) simp_all
  show ?case
  proof (cases "y = 0")
    case False
    then have "spairs (Suc (Suc n)) (100 * y) = y div 100 ^ n # spairs (Suc n) (100 * (y mod 100 ^ n))"
      unfolding spairs.simps(2) [of "Suc n"] d by simp
    also have "\<dots> = spairs (Suc n) y" unfolding ih using False by simp
    finally show ?thesis .
  qed simp
qed simp

lemma spairs_shift: "0 \<le> y \<Longrightarrow> y < 100 ^ n \<Longrightarrow> spairs (n + k) (y * 100 ^ k) = spairs n y"
proof (induction k)
  case (Suc k)
  have "y * 100 ^ k < 100 ^ n * 100 ^ k" using Suc by simp
  then have "y * 100 ^ k < 100 ^ (n + k)" by (simp add: power_add)
  then have "spairs (Suc (n + k)) (100 * (y * 100 ^ k)) = spairs (n + k) (y * 100 ^ k)" using Suc by (intro spairs_shift1) auto
  then show ?case using Suc by (simp add: mult.left_commute)
qed simp

lemma spairs_append:
  "0 \<le> a \<Longrightarrow> a < 100 ^ k \<Longrightarrow> 0 < b \<Longrightarrow> b < 100 ^ n \<Longrightarrow> spairs (k + n) (a * 100 ^ n + b) = pairs k a @ spairs n b"
proof (induction k arbitrary: a)
  case (Suc k)
  define q r where "q = a div 100 ^ k" and "r = a mod 100 ^ k"
  have a: "a = q * 100 ^ k + r" "0 \<le> r" "r < 100 ^ k" by (simp_all add: q_def r_def div_mult_mod_eq)
  have lt: "r * 100 ^ n + b < 100 ^ (k + n)"
  proof -
    have "r * 100 ^ n + b < (r + 1) * 100 ^ n" using Suc by (simp add: algebra_simps)
    also have "\<dots> \<le> 100 ^ k * 100 ^ n" using a by (intro mult_right_mono) auto
    finally show ?thesis by (simp add: power_add)
  qed
  have ge: "0 \<le> r * 100 ^ n + b" using a Suc by simp
  have e: "a * 100 ^ n + b = (r * 100 ^ n + b) + q * 100 ^ (k + n)" by (simp add: a(1) power_add algebra_simps)
  have d: "(a * 100 ^ n + b) div 100 ^ (k + n) = q" "(a * 100 ^ n + b) mod 100 ^ (k + n) = r * 100 ^ n + b"
    unfolding e using lt ge by simp_all
  have "a * 100 ^ n + b \<noteq> 0" using Suc by (simp add: add_nonneg_eq_0_iff)
  then have "spairs (Suc (k + n)) (a * 100 ^ n + b) = q # spairs (k + n) (r * 100 ^ n + b)" using d by simp
  then show ?case using Suc.IH [OF a(2,3) Suc.prems(3,4)] by (simp add: q_def r_def)
next
  case 0
  then have "a = 0" by simp
  then show ?case by simp
qed

lemma pairs_snoc: "0 \<le> q \<Longrightarrow> q < 100 ^ n \<Longrightarrow> 0 \<le> r \<Longrightarrow> r < 100 \<Longrightarrow> pairs (Suc n) (100 * q + r) = pairs n q @ [r]"
proof (induction n arbitrary: q)
  case (Suc n)
  have d: "(100 * q + r) div 100 ^ Suc n = q div 100 ^ n" "(100 * q + r) mod 100 ^ Suc n = 100 * (q mod 100 ^ n) + r"
  proof -
    have "(100 * q + r) div 100 ^ Suc n = (100 * q + r) div 100 div 100 ^ n" by (simp add: zdiv_zmult2_eq)
    also have "(100 * q + r) div 100 = q" using Suc by simp
    finally show dv: "(100 * q + r) div 100 ^ Suc n = q div 100 ^ n" .
    have "(100 * q + r) mod 100 ^ Suc n = 100 * q + r - (q div 100 ^ n) * 100 ^ Suc n" unfolding dv [symmetric] by (rule minus_div_mult_eq_mod [symmetric])
    then show "(100 * q + r) mod 100 ^ Suc n = 100 * (q mod 100 ^ n) + r"
      by (simp add: minus_div_mult_eq_mod [symmetric] algebra_simps)
  qed
  have "pairs (Suc (Suc n)) (100 * q + r) = q div 100 ^ n # pairs (Suc n) (100 * (q mod 100 ^ n) + r)"
    by (simp only: pairs.simps(2) [of "Suc n"] d)
  then show ?case using Suc.IH [of "q mod 100 ^ n"] Suc.prems by simp
qed simp

section \<open>The digit loops compute them\<close>

lemma rest100_pairs:
  "(n = 0 \<or> 100 ^ (n - 1) \<le> x) \<Longrightarrow> 0 \<le> x \<Longrightarrow> x < 100 ^ n \<Longrightarrow> rest100 tbl x tm = map tbl (pairs n x) @ tm"
proof (induction n arbitrary: x tm)
  case 0
  then show ?case by (subst rest100.simps) simp
next
  case (Suc n)
  define q r where "q = x div 100" and "r = x mod 100"
  have x: "x = 100 * q + r" "0 \<le> r" "r < 100" by (simp_all add: q_def r_def)
  have x1: "100 ^ n \<le> x" using Suc.prems(1) by simp
  then have x0: "0 < x" using zero_less_power [of "100::int" n] by linarith
  have q: "0 \<le> q" "q < 100 ^ n" using x0 Suc.prems(3) by (auto simp: q_def pos_imp_zdiv_nonneg_iff intro: div_less_prod)
  have q': "n = 0 \<or> 100 ^ (n - 1) \<le> q"
  proof (cases n)
    case (Suc k)
    have "100 * 100 ^ k \<le> 100 * q + r" using x1 x(1) Suc by simp
    then have "100 ^ k \<le> q" using x(3) by linarith
    then show ?thesis using Suc by simp
  qed simp
  have "rest100 tbl x tm = rest100 tbl q (tbl r # tm)"
    using x0 by (subst rest100.simps) (simp add: sdiv_nonneg q_def minus_div_mult_eq_mod r_def)
  also have "\<dots> = map tbl (pairs n q) @ tbl r # tm" by (rule Suc.IH [OF q' q])
  also have "\<dots> = map tbl (pairs (Suc n) x) @ tm" unfolding x(1) pairs_snoc [OF q x(2,3)] by simp
  finally show ?case .
qed

lemma spairs_snoc:
  assumes "0 \<le> q" "q < 100 ^ n" "0 < r" "r < 100"
  shows "spairs (Suc n) (100 * q + r) = pairs n q @ [r]"
  using spairs_append [OF assms(1,2,3), of 1] assms(3,4) by (simp add: mult.commute)

lemma EVEN_INTEGER_ok:
  "100 ^ n \<le> x \<Longrightarrow> x < 100 ^ Suc n \<Longrightarrow> EVEN_INTEGER tbl x = map tbl (spairs (Suc n) x)"
proof (induction n arbitrary: x)
  case 0
  then have s: "x div 100 = 0" "x mod 100 = x" by simp_all
  have "strip100 tbl x [] = (0, [tbl x])" using 0 s by (subst strip100.simps) (simp add: sdiv_nonneg Let_def)
  moreover have "rest100 tbl 0 [tbl x] = [tbl x]" by (subst rest100.simps) simp
  ultimately show ?case using 0 by (simp add: EVEN_INTEGER_def)
next
  case (Suc n)
  define q r where "q = x div 100" and "r = x mod 100"
  have x: "x = 100 * q + r" "0 \<le> r" "r < 100" by (simp_all add: q_def r_def)
  have x0: "0 < x" using Suc.prems(1) zero_less_power [of "100::int" "Suc n"] by linarith
  have q: "0 \<le> q" "q < 100 ^ Suc n" using x0 Suc.prems(2) by (auto simp: q_def pos_imp_zdiv_nonneg_iff intro: div_less_prod)
  have "100 * 100 ^ n \<le> 100 * q + r" using Suc.prems(1) x(1) by simp
  then have q': "100 ^ n \<le> q" using x(3) by linarith
  have s: "strip100 tbl x [] = (if r \<noteq> 0 then (q, [tbl r]) else strip100 tbl q [])"
    using x0 by (subst strip100.simps) (simp add: sdiv_nonneg q_def minus_div_mult_eq_mod r_def Let_def)
  show ?case
  proof (cases "r = 0")
    case True
    then have "EVEN_INTEGER tbl x = EVEN_INTEGER tbl q" by (simp add: EVEN_INTEGER_def s)
    also have "\<dots> = map tbl (spairs (Suc n) q)" by (rule Suc.IH [OF q' q(2)])
    also have "spairs (Suc n) q = spairs (Suc (Suc n)) x" unfolding x(1) True add_0_right using q by (intro spairs_shift1 [symmetric])
    finally show ?thesis .
  next
    case False
    then have "EVEN_INTEGER tbl x = map tbl (pairs (Suc n) q) @ [tbl r]"
      using rest100_pairs [of "Suc n" q tbl "[tbl r]"] q q' by (simp add: EVEN_INTEGER_def s)
    moreover have "0 < r" using False x(2) by simp
    then have "spairs (Suc (Suc n)) x = pairs (Suc n) q @ [r]" unfolding x(1) by (rule spairs_snoc [OF q _ x(3)])
    ultimately show ?thesis by (simp only: map_append list.map)
  qed
qed

lemma ODD_INTEGER_ok:
  assumes "100 ^ n \<le> 10 * x" "10 * x < 100 ^ Suc n" "0 < n"
  shows "ODD_INTEGER tbl x = map tbl (spairs (Suc n) (10 * x))"
proof -
  define q r where "q = x div 10" and "r = x mod 10"
  have x: "x = 10 * q + r" "0 \<le> r" "r < 10" by (simp_all add: q_def r_def)
  have x0: "0 < x" using assms(1) zero_less_power [of "100::int" n] by linarith
  obtain k where k: "n = Suc k" using assms(3) by (cases n) auto
  have "100 * 100 ^ k \<le> 100 * q + 10 * r" using assms(1) x(1) k by simp
  then have q: "100 ^ k \<le> q" using x(3) by linarith
  have "10 * x < 100 * 100 ^ n" using assms(2) by simp
  then have q2: "0 \<le> q" "q < 100 ^ n" using x x0 by linarith+
  have o: "ODD_INTEGER tbl x = (if r \<noteq> 0 then rest100 tbl q [tbl (r * 10)] else EVEN_INTEGER tbl q)"
    using x0 by (simp add: ODD_INTEGER_def sdiv_nonneg q_def minus_div_mult_eq_mod r_def Let_def)
  have x': "10 * x = 100 * q + 10 * r" using x(1) by simp
  show ?thesis
  proof (cases "r = 0")
    case True
    have "ODD_INTEGER tbl x = map tbl (spairs n q)" using EVEN_INTEGER_ok [OF q] q2 k True by (simp add: o)
    also have "spairs n q = spairs (Suc n) (10 * x)" unfolding x' True using q2 by (simp only: mult_zero_right add_0_right spairs_shift1)
    finally show ?thesis .
  next
    case False
    have "ODD_INTEGER tbl x = map tbl (pairs n q) @ [tbl (r * 10)]"
      using rest100_pairs [of n q tbl "[tbl (r * 10)]"] q q2 k False by (simp add: o)
    moreover have "spairs (Suc n) (10 * x) = pairs n q @ [10 * r]" unfolding x'
      using False x(2,3) by (intro spairs_snoc [OF q2]) auto
    ultimately show ?thesis by (simp only: map_append list.map mult.commute)
  qed
qed

lemma top2_eq: "0 \<le> mt \<Longrightarrow> top2 mt = (mt div 10000000, mt mod 10000000 * 100)"
proof -
  assume "0 \<le> mt"
  then have "mt sdiv (MANT_HI sdiv 100) = mt div 10000000" "MANT_HI sdiv 100 = 10000000" by (simp_all add: mv_defs sdiv_nonneg)
  then show ?thesis unfolding top2_def Let_def by (simp only: minus_div_mult_eq_mod)
qed

text \<open>One step of the float loops, on \<open>mt * 10\<close>, a number of five pairs whose last \<open>5 - n\<close> are zero.\<close>

lemma top2_step:
  assumes z: "mt * 10 = z * 100 ^ (4 - n)" "0 \<le> z" "z < 100 ^ Suc n" "n \<le> 4"
  shows "fst (top2 mt) = z div 100 ^ n" "snd (top2 mt) * 10 = (z mod 100 ^ n) * 100 ^ (5 - n)"
proof -
  have mt: "0 \<le> mt" using z(1,2) zero_le_power [of "100::int" "4 - n"] mult_nonneg_nonneg [of z "100 ^ (4 - n)"] by linarith
  have sp: "(100::int) ^ 4 = 100 ^ n * 100 ^ (4 - n)" using z(4) by (simp flip: power_add)
  have t: "top2 mt = (mt div 10000000, mt mod 10000000 * 100)"
    by (rule top2_eq [OF mt])
  have "mt div 10000000 = mt * 10 div 100 ^ 4" using div_mult_mult1 [of 10 mt 10000000] by (simp add: mult.commute)
  also have "\<dots> = z div 100 ^ n" unfolding z(1) sp by simp
  finally show "fst (top2 mt) = z div 100 ^ n" using t by simp
  have "mt mod 10000000 * 10 = mt * 10 mod 100 ^ 4" using mult_mod_right [of 10 mt 10000000] by (simp add: mult.commute)
  also have "\<dots> = (z mod 100 ^ n) * 100 ^ (4 - n)" unfolding z(1) sp by (simp only: mult_mod_left)
  finally have "mt mod 10000000 * 100 * 10 = (z mod 100 ^ n) * (100 ^ (4 - n) * 100)" by simp
  also have "(100::int) ^ (4 - n) * 100 = 100 ^ (5 - n)" using z(4) by (simp add: Suc_diff_le power_Suc2 [symmetric] del: power_Suc)
  finally show "snd (top2 mt) * 10 = (z mod 100 ^ n) * 100 ^ (5 - n)" using t by simp
qed

lemma last_longword_ok:
  "mt * 10 = z * 100 ^ (5 - n) \<Longrightarrow> 0 \<le> z \<Longrightarrow> z < 100 ^ n \<Longrightarrow> n \<le> 5 \<Longrightarrow> LAST_LONGWORD tbl n mt = Some (map tbl (spairs n z))"
proof (induction n arbitrary: mt z)
  case 0
  then show ?case by (subst LAST_LONGWORD.simps) simp
next
  case (Suc n)
  show ?case
  proof (cases "z = 0")
    case True
    then show ?thesis using Suc.prems by (subst LAST_LONGWORD.simps) simp
  next
    case False
    then have "mt \<noteq> 0" using Suc.prems(1) by auto
    obtain mx mt' where t: "top2 mt = (mx, mt')" by fastforce
    have z: "mt * 10 = z * 100 ^ (4 - n)" "n \<le> 4" using Suc.prems(1,4) by simp_all
    note S = top2_step [OF z(1) Suc.prems(2,3) z(2), unfolded t fst_conv snd_conv]
    have "LAST_LONGWORD tbl n mt' = Some (map tbl (spairs n (z mod 100 ^ n)))"
      by (rule Suc.IH [OF S(2)]) (use Suc.prems(4) in simp_all)
    then have "LAST_LONGWORD tbl (Suc n) mt = Some (tbl mx # map tbl (spairs n (z mod 100 ^ n)))"
      using \<open>mt \<noteq> 0\<close> t by (subst LAST_LONGWORD.simps) simp
    then show ?thesis using False S(1) by simp
  qed
qed

lemma digits4_ok:
  "mt * 10 = z * 100 ^ (5 - n) \<Longrightarrow> 0 \<le> z \<Longrightarrow> z < 100 ^ n \<Longrightarrow> n \<le> 5 \<Longrightarrow> digits4 tbl n mt = map tbl (pairs n z)"
proof (induction n arbitrary: mt z)
  case (Suc n)
  obtain mx mt' where t: "top2 mt = (mx, mt')" by fastforce
  have z: "mt * 10 = z * 100 ^ (4 - n)" "n \<le> 4" using Suc.prems(1,4) by simp_all
  note S = top2_step [OF z(1) Suc.prems(2,3) z(2), unfolded t fst_conv snd_conv]
  have "digits4 tbl n mt' = map tbl (pairs n (z mod 100 ^ n))"
    by (rule Suc.IH [OF S(2)]) (use Suc.prems(4) in simp_all)
  then show ?case using S(1) by (simp add: t)
qed simp

text \<open>What both number forms encode to: the exponent and the pairs of the 18-digit mantissa.\<close>

definition num_enc :: "bool \<Rightarrow> int \<Rightarrow> int \<Rightarrow> bytes" where
  "num_enc neg e M =
    exp_byte neg (e - MV_XBIAS + SUBSCRIPT_BIAS) # map (cvt_table neg) (spairs 9 M) @ (if neg then [NEG_MNTSSA_END] else [])"

lemma flt_subsc_ok:
  assumes v: "wf_flt v"
  shows "flt_subsc v = Some (num_enc (sgn_of v \<noteq> 0) (e_of v) (join (m1 v) (m0 v)))"
proof -
  define a b c where "a = m1 v" and "b = m0 v" and "c = a mod 10000000"
  have ab: "100000000 \<le> a" "a < 1000000000" "0 \<le> b" "b < 1000000000" using v by (auto simp: wf_flt_def a_def b_def mv_defs)
  have c: "0 \<le> c" "c < 10000000" by (simp_all add: c_def)
  define d f where "d = b div 100000000" and "f = b mod 100000000"
  have b: "b = d * 100000000 + f" "0 \<le> f" "f < 100000000" by (simp_all add: d_def f_def)
  have d: "0 \<le> d" "d \<le> 9" using b ab by linarith+
  define tbl where "tbl = cvt_table (sgn_of v \<noteq> 0)"
  have t: "top2 a = (a div 10000000, c * 100)"
    using top2_eq [of a] ab by (simp add: c_def)
  have lw: "LAST_LONGWORD tbl 5 m = Some (map tbl (spairs 5 (m * 10)))" if "0 \<le> m" "m < 1000000000" for m
    by (rule last_longword_ok) (use that in simp_all)
  have sh: "spairs 5 z = spairs 8 (z * 1000000)" if "0 \<le> z" "z < 10000000000" for z
    using spairs_shift [of z 5 3] that by simp
  define ds where "ds = (if b = 0 then LAST_LONGWORD tbl 5 (c * 100)
     else let mx = b sdiv (MANT_HI sdiv 10); mt = c * 100 + mx * 10; mw = (b - mx * (MANT_HI sdiv 10)) * 10
          in if mw = 0 then LAST_LONGWORD tbl 5 mt
             else map_option (\<lambda>ds. digits4 tbl 4 mt @ ds) (LAST_LONGWORD tbl 5 mw))"
  have ds: "ds = Some (map tbl (spairs 8 (c * 1000000000 + b)))"
  proof -
    have sd: "b sdiv 100000000 = d" "MANT_HI sdiv 10 = 100000000" using ab by (simp_all add: mv_defs sdiv_nonneg d_def)
    have f: "(b - d * 100000000) * 10 = f * 10" using b by simp
    consider "b = 0" | "b \<noteq> 0" "f = 0" | "b \<noteq> 0" "f \<noteq> 0" by blast
    then show ?thesis
    proof cases
      case 1
      then show ?thesis using lw [of "c * 100"] sh [of "c * 1000"] c by (simp add: ds_def mult.commute)
    next
      case 2
      then have "ds = LAST_LONGWORD tbl 5 (c * 100 + d * 10)" unfolding ds_def Let_def sd f by simp
      also have "\<dots> = Some (map tbl (spairs 5 (c * 1000 + d * 100)))" using lw [of "c * 100 + d * 10"] c d by (simp add: algebra_simps)
      also have "spairs 5 (c * 1000 + d * 100) = spairs 8 (c * 1000000000 + b)"
        using sh [of "c * 1000 + d * 100"] c d b 2 by (simp add: algebra_simps)
      finally show ?thesis .
    next
      case 3
      have f0: "0 < f" using 3 b by simp
      have l: "LAST_LONGWORD tbl 5 (f * 10) = Some (map tbl (spairs 4 f))"
        using lw [of "f * 10"] spairs_shift [of f 4 1] b f0 by (simp add: mult.commute)
      have g: "digits4 tbl 4 (c * 100 + d * 10) = map tbl (pairs 4 (c * 10 + d))"
        by (rule digits4_ok) (use c d in simp_all)
      have "ds = map_option (\<lambda>ds. digits4 tbl 4 (c * 100 + d * 10) @ ds) (LAST_LONGWORD tbl 5 (f * 10))"
        using 3 unfolding ds_def Let_def sd f by simp
      also have "\<dots> = Some (map tbl (pairs 4 (c * 10 + d) @ spairs 4 f))" by (simp add: l g)
      also have "pairs 4 (c * 10 + d) @ spairs 4 f = spairs (4 + 4) ((c * 10 + d) * 100 ^ 4 + f)"
        by (rule spairs_append [symmetric]) (use c d b f0 in simp_all)
      also have "(c * 10 + d) * 100 ^ 4 + f = c * 1000000000 + b" using b by (simp add: algebra_simps)
      finally show ?thesis by simp
    qed
  qed
  have M: "join a b div 100 ^ 8 = a div 10000000" "join a b mod 100 ^ 8 = c * 1000000000 + b"
  proof -
    have e: "join a b = (c * 1000000000 + b) + (a div 10000000) * 10000000000000000"
      using div_mult_mod_eq [of a 10000000] unfolding join_def MANT_HI_def c_def by linarith
    have lt: "0 \<le> c * 1000000000 + b" "c * 1000000000 + b < 10000000000000000" using c ab by simp_all
    show "join a b div 100 ^ 8 = a div 10000000" "join a b mod 100 ^ 8 = c * 1000000000 + b" unfolding e using lt by simp_all
  qed
  have "join a b \<noteq> 0" using ab by (simp add: join_def mv_defs)
  then have "spairs (Suc 8) (join a b) = a div 10000000 # spairs 8 (c * 1000000000 + b)" unfolding spairs.simps M by simp
  then have "spairs 9 (join a b) = a div 10000000 # spairs 8 (c * 1000000000 + b)" by (simp add: eval_nat_numeral)
  moreover have "flt_subsc v = map_option (\<lambda>ds. exp_byte (sgn_of v \<noteq> 0) (e_of v - MV_XBIAS + SUBSCRIPT_BIAS) # tbl (a div 10000000) # ds
          @ (if sgn_of v \<noteq> 0 then [NEG_MNTSSA_END] else [])) ds"
    unfolding flt_subsc_def ds_def Let_def a_def [symmetric] b_def [symmetric] tbl_def [symmetric] t by simp
  ultimately show ?thesis unfolding ds by (simp add: num_enc_def a_def b_def tbl_def)
qed

definition int_digits_out :: "(int \<Rightarrow> byte) \<Rightarrow> int \<Rightarrow> int \<times> bytes" where
  "int_digits_out tbl mt =
    (if 10 > mt then (- 2, [tbl (mt * 10)]) else if 100 > mt then (- 1, [tbl mt])
     else if 1000 > mt then (0, ODD_INTEGER tbl mt) else if 10000 > mt then (1, EVEN_INTEGER tbl mt)
     else if 100000 > mt then (2, ODD_INTEGER tbl mt) else if 1000000 > mt then (3, EVEN_INTEGER tbl mt)
     else if 10000000 > mt then (4, ODD_INTEGER tbl mt) else if 100000000 > mt then (5, EVEN_INTEGER tbl mt)
     else (6, ODD_INTEGER tbl mt))"

lemma int_digits_ok:
  assumes m: "10 ^ (d - 1) \<le> mt" "mt < 10 ^ d" and d: "1 \<le> d" "d \<le> 9"
  shows "int_digits_out tbl mt = (int d - 3, map tbl (spairs 9 (mt * 10 ^ (18 - d))))" (is ?Q)
proof -
  note io = int_digits_out_def
  have even: "EVEN_INTEGER tbl mt = map tbl (spairs n mt)" if "100 ^ (n - 1) \<le> mt" "mt < 100 ^ n" "1 \<le> n" for n
    using EVEN_INTEGER_ok [of "n - 1" mt tbl] that by simp
  have odd: "ODD_INTEGER tbl mt = map tbl (spairs n (10 * mt))" if "100 ^ (n - 1) \<le> 10 * mt" "10 * mt < 100 ^ n" "1 < n" for n
    using ODD_INTEGER_ok [of "n - 1" mt tbl] that by simp
  have q1: "?Q" if "d = 1"
    using that m spairs_shift [of "10 * mt" 1 8] by (simp add: io mult.commute)
  have q2: "?Q" if "d = 2"
    using that m spairs_shift [of mt 1 8] by (simp add: io mult.commute)
  have q3: "?Q" if "d = 3"
    using that m odd [of 2] spairs_shift [of "10 * mt" 2 7] by (simp add: io mult.commute)
  have q4: "?Q" if "d = 4"
    using that m even [of 2] spairs_shift [of mt 2 7] by (simp add: io mult.commute)
  have q5: "?Q" if "d = 5"
    using that m odd [of 3] spairs_shift [of "10 * mt" 3 6] by (simp add: io mult.commute)
  have q6: "?Q" if "d = 6"
    using that m even [of 3] spairs_shift [of mt 3 6] by (simp add: io mult.commute)
  have q7: "?Q" if "d = 7"
    using that m odd [of 4] spairs_shift [of "10 * mt" 4 5] by (simp add: io mult.commute)
  have q8: "?Q" if "d = 8"
    using that m even [of 4] spairs_shift [of mt 4 5] by (simp add: io mult.commute)
  have q9: "?Q" if "d = 9"
    using that m odd [of 5] spairs_shift [of "10 * mt" 5 4] by (simp add: io mult.commute)
  have "d = 1 \<or> d = 2 \<or> d = 3 \<or> d = 4 \<or> d = 5 \<or> d = 6 \<or> d = 7 \<or> d = 8 \<or> d = 9" using d by presburger
  then show ?Q using q1 q2 q3 q4 q5 q6 q7 q8 q9 by (elim disjE) assumption+
qed

lemma int_subsc_out:
  "m \<noteq> 0 \<Longrightarrow> int_subsc m = (let (c, ds) = int_digits_out (cvt_table (m < 0)) \<bar>m\<bar>
     in exp_byte (m < 0) (SUBSCRIPT_BIAS + c) # ds @ (if m < 0 then [NEG_MNTSSA_END] else []))"
  unfolding int_subsc_def int_digits_out_def Let_def abs_if by simp

text \<open>An integer form encodes as the float form \<open>promote\<close> makes of it.\<close>

lemma int_subsc_promote:
  assumes v: "wf_int v" "m1 v \<noteq> 0"
  shows "Some (int_subsc (m1 v)) = flt_subsc (promote v)"
proof -
  define mt neg d where "mt = \<bar>m1 v\<bar>" and "neg = (m1 v < 0)" and "d = nat (scan_pwr mt 0)"
  have mt: "0 < mt" "mt < MANT_HI" using v by (auto simp: mt_def wf_int_def)
  note S = scan_pwr_pos [OF mt]
  have d: "1 \<le> d" "d \<le> 9" "scan_pwr mt 0 = int d" "10 ^ (d - 1) \<le> mt" "mt < 10 ^ d"
    using S by (auto simp: d_def nat_diff_distrib)
  have p: "wf_flt (promote v)" "m0 (promote v) = 0" "sgn_of (promote v) = (if neg then 1 else 0)"
    using promote_props [OF v(1)] v(2) by (auto simp: neg_def)
  have e: "e_of (promote v) = 59 + int d" "m1 (promote v) = mt * 10 ^ (9 - d)"
  proof -
    have "ten_pwr (9 - int d) = 10 ^ (9 - d)" using d(2) ten_pwr_eq [of "9 - int d"] by (simp add: nat_diff_distrib)
    then show "e_of (promote v) = 59 + int d" "m1 (promote v) = mt * 10 ^ (9 - d)"
      using v(2) d(3) by (auto simp: promote_def Let_def mt_def mv_defs abs_if split: if_splits)
  qed
  have "join (m1 (promote v)) (m0 (promote v)) = mt * (10 ^ (9 - d) * 10 ^ 9)" by (simp add: p e join_def mv_defs)
  also have "(10::int) ^ (9 - d) * 10 ^ 9 = 10 ^ (9 - d + 9)" by (simp only: power_add)
  also have "9 - d + 9 = 18 - d" using d(2) by simp
  finally have J: "join (m1 (promote v)) (m0 (promote v)) = mt * 10 ^ (18 - d)" .
  have "int_subsc (m1 v) = exp_byte neg (SUBSCRIPT_BIAS + (int d - 3)) # map (cvt_table neg) (spairs 9 (mt * 10 ^ (18 - d))) @ (if neg then [NEG_MNTSSA_END] else [])"
    unfolding int_subsc_out [OF v(2)] mt_def [symmetric] neg_def [symmetric] int_digits_ok [OF d(4,5,1,2)] by simp
  then show ?thesis unfolding flt_subsc_ok [OF p(1)] num_enc_def J by (simp add: p e MV_XBIAS_def algebra_simps)
qed

section \<open>The order of the encodings\<close>

definition pair_code :: "int \<Rightarrow> int" where
  "pair_code i = i div 10 * 16 + i mod 10 + 1"

lemma code_tables:
  "pos_code = map (\<lambda>n. pair_code (int n)) [0..<100]" "neg_code = map (\<lambda>n. 255 - pair_code (int n)) [0..<100]"
  by code_simp+

lemma pair_code_order: "i < j \<Longrightarrow> pair_code i < pair_code j"
proof -
  assume a: "i < j"
  obtain q r q' r' where d: "i div 10 = q" "i mod 10 = r" "j div 10 = q'" "j mod 10 = r'" by blast
  have e: "i = q * 10 + r" "j = q' * 10 + r'" "0 \<le> r" "r < 10" "0 \<le> r'" "r' < 10"
    using d div_mult_mod_eq [of i 10] div_mult_mod_eq [of j 10] by auto
  show ?thesis unfolding pair_code_def d using a e by (cases "q = q'") auto
qed

lemma pair_code_range: "0 \<le> i \<Longrightarrow> i < 100 \<Longrightarrow> 1 \<le> pair_code i \<and> pair_code i \<le> 154"
  using pair_code_order [of i 99] pair_code_order [of 0 i] by (cases "i = 0"; cases "i = 99") (simp_all add: pair_code_def)

lemma cvt_table_eq: "0 \<le> i \<Longrightarrow> i < 100 \<Longrightarrow> cvt_table neg i = of_int (if neg then 255 - pair_code i else pair_code i)"
proof -
  assume i: "0 \<le> i" "i < 100"
  then have n: "nat i < 100" "int (nat i) = i" by auto
  have u: "map f [0..<100] ! nat i = f (nat i)" for f :: "nat \<Rightarrow> int" using n(1) by (simp add: nth_append)
  show ?thesis unfolding cvt_table_def code_tables using u [of "\<lambda>n. pair_code (int n)"] u [of "\<lambda>n. 255 - pair_code (int n)"] n(2)
    by (cases neg) (simp_all only: if_True if_False)
qed

lemma byte_less: "0 \<le> a \<Longrightarrow> a < b \<Longrightarrow> b < 256 \<Longrightarrow> (of_int a :: byte) < of_int b"
  by (simp add: word_less_def unsigned_of_int take_bit_int_eq_self)

lemma NOT_of_int: "NOT (of_int x :: byte) = of_int (255 - x)"
proof -
  have "(of_int (255 - x) :: byte) = of_int (- x - 1) + of_int 256" by (simp only: of_int_add [symmetric]) simp
  then show ?thesis by (simp add: not_eq_complement)
qed

lemma cvt_order:
  assumes "0 \<le> i" "i < j" "j < 100"
  shows "cvt_table False i < cvt_table False j" "cvt_table True j < cvt_table True i"
  using assms pair_code_order [OF assms(2)] pair_code_range [of i] pair_code_range [of j]
  by (auto simp: cvt_table_eq simp del: of_int_diff intro!: byte_less)

lemma cvt_ends:
  assumes "0 \<le> i" "i < 100"
  shows "KEY_DELIMITER < cvt_table False i" "cvt_table True i < NEG_MNTSSA_END"
  using assms pair_code_range [of i] byte_less [of 0 "pair_code i"] byte_less [of "255 - pair_code i" 255]
  by (auto simp: cvt_table_eq KEY_DELIMITER_def NEG_MNTSSA_END_def)

text \<open>
  Digit strings without trailing zeros compare like the numbers, when the delimiter sorts below
  every digit, and the other way round with complemented digits and the end mark above them.
\<close>

lemma spairs_less:
  "0 \<le> x \<Longrightarrow> x < y \<Longrightarrow> y < 100 ^ n \<Longrightarrow>
    map (cvt_table False) (spairs n x) @ KEY_DELIMITER # s < map (cvt_table False) (spairs n y) @ KEY_DELIMITER # t \<and>
    map (cvt_table True) (spairs n y) @ NEG_MNTSSA_END # s < map (cvt_table True) (spairs n x) @ NEG_MNTSSA_END # t"
proof (induction n arbitrary: x y)
  case (Suc n)
  define p q where "p = x div 100 ^ n" and "q = y div 100 ^ n"
  have q: "0 \<le> q" "q < 100" using div_pair_bounds [of y n] Suc.prems by (auto simp: q_def)
  have y: "spairs (Suc n) y = q # spairs n (y mod 100 ^ n)" using Suc.prems by (simp add: q_def)
  show ?case
  proof (cases "x = 0")
    case True
    then show ?thesis unfolding y using cvt_ends [OF q] by simp
  next
    case False
    then have x: "spairs (Suc n) x = p # spairs n (x mod 100 ^ n)" by (simp add: p_def)
    have p: "0 \<le> p" "p < 100" using div_pair_bounds [of x n] Suc.prems by (auto simp: p_def)
    have pq: "p \<le> q" unfolding p_def q_def using Suc.prems by (intro zdiv_mono1) auto
    show ?thesis
    proof (cases "p = q")
      case True
      have "x mod 100 ^ n < y mod 100 ^ n"
        using Suc.prems(2) div_mult_mod_eq [of x "100 ^ n", folded p_def] div_mult_mod_eq [of y "100 ^ n", folded q_def, folded True]
        by linarith
      from Suc.IH [OF _ this] show ?thesis unfolding x y True by simp
    next
      case False
      then have "p < q" using pq by simp
      from cvt_order [OF p(1) this q(2)] show ?thesis unfolding x y by simp
    qed
  qed
qed simp

lemma exp_byte_eq: "exp_byte neg (e - MV_XBIAS + SUBSCRIPT_BIAS) = of_int (if neg then 127 - e else e + 128)"
  by (simp add: exp_byte_def NOT_of_int MV_XBIAS_def SUBSCRIPT_BIAS_def add.commute del: of_int_add of_int_diff)

text \<open>The encoding of a well-formed number, by its sign, exponent and mantissa.\<close>

lemma num_subsc_cases:
  assumes v: "wf_num v"
  obtains "numval v = 0" "num_subsc v = Some [SUBSCRIPT_ZERO]"
  | sg e M where "numval v = sgnd sg (M * 10 ^ nat e)" "num_subsc v = Some (num_enc (sg \<noteq> 0) e M)"
      "10 ^ 17 \<le> M" "M < 10 ^ 18" "20 \<le> e" "e < 110"
proof (cases "numval v = 0")
  case True
  then have "is_int (mvtype v)" "m1 v = 0" using promoted_zero [OF v] by auto
  then show thesis using that(1) True by (simp add: num_subsc_def int_subsc_def)
next
  case False
  define p where "p = promoted v"
  have w: "wf_flt p" and n: "numval p = numval v" and s: "num_subsc v = flt_subsc p"
    using wf_num_cases [OF v] promote_props [of v] int_subsc_promote [of v] False
    by (auto simp: p_def promoted_def numval_def num_subsc_def)
  note N = num_flt_limbs [OF w] and L = limbs_join [OF num_flt_limbs(1) [OF w]]
  have "e_of p < 110" using w by (simp add: wf_flt_def mv_defs)
  then show thesis using that(2) [of "sgn_of p" "join (m1 p) (m0 p)" "e_of p"] N L flt_subsc_ok [OF w] n s by simp
qed

lemma mantissa_order:
  fixes M M' e e' :: int
  assumes "10 ^ 17 \<le> M" "M < 10 ^ 18" "10 ^ 17 \<le> M'" "M' < 10 ^ 18" "0 \<le> e" "0 \<le> e'"
  shows "M * 10 ^ nat e < M' * 10 ^ nat e' \<longleftrightarrow> e < e' \<or> (e = e' \<and> M < M')"
proof -
  have lt: "a * 10 ^ nat i < b * 10 ^ nat j" if "i < j" "10 ^ 17 \<le> b" "a < 10 ^ 18" "0 \<le> i" for a b i j :: int
    using that by (intro mant_exp_less [of _ "10 ^ 17"]) auto
  consider "e < e'" | "e = e'" | "e' < e" by linarith
  then show ?thesis
  proof cases
    case 1
    then show ?thesis using lt [of e e' M' M] assms by simp
  next
    case 2
    then show ?thesis by simp
  next
    case 3
    then show ?thesis using lt [of e' e M M'] assms by auto
  qed
qed

lemma num_enc_less:
  assumes M: "10 ^ 17 \<le> M" "M < 10 ^ 18" "20 \<le> e" "e < 110" and M': "10 ^ 17 \<le> M'" "M' < 10 ^ 18" "20 \<le> e'" "e' < 110"
    and lt: "M * 10 ^ nat e < M' * 10 ^ nat e'"
  shows "num_enc False e M @ KEY_DELIMITER # s < num_enc False e' M' @ KEY_DELIMITER # t"
    and "num_enc True e' M' @ s < num_enc True e M @ t"
proof -
  have "(of_int (e + 128) :: byte) < of_int (e' + 128)" "(of_int (127 - e') :: byte) < of_int (127 - e)" if "e < e'"
    using that M M' by (auto intro!: byte_less simp del: of_int_add of_int_diff)
  moreover have "e < e' \<or> (e = e' \<and> M < M')" using mantissa_order [of M M' e e'] M M' lt by simp
  moreover have "M < M' \<Longrightarrow> map (cvt_table False) (spairs 9 M) @ KEY_DELIMITER # s < map (cvt_table False) (spairs 9 M') @ KEY_DELIMITER # t"
    "M < M' \<Longrightarrow> map (cvt_table True) (spairs 9 M') @ NEG_MNTSSA_END # s < map (cvt_table True) (spairs 9 M) @ NEG_MNTSSA_END # t"
    using spairs_less [of M M' 9] M M' by simp_all
  ultimately show "num_enc False e M @ KEY_DELIMITER # s < num_enc False e' M' @ KEY_DELIMITER # t"
    and "num_enc True e' M' @ s < num_enc True e M @ t"
    unfolding num_enc_def exp_byte_eq by (auto simp del: of_int_add of_int_diff)
qed

text \<open>Negative numbers, zero, positive numbers and strings are told apart by their first byte.\<close>

lemma first_bytes:
  assumes "20 \<le> e" "e < 110"
  shows "num_enc True e M @ s < SUBSCRIPT_ZERO # t" "SUBSCRIPT_ZERO # s < num_enc False e M @ t"
    and "num_enc neg e M @ s < STR_SUB_PREFIX # t" "SUBSCRIPT_ZERO # s < STR_SUB_PREFIX # t"
    and "20 \<le> e' \<Longrightarrow> e' < 110 \<Longrightarrow> num_enc True e M @ s < num_enc False e' M' @ t"
proof -
  have z: "(0x80 :: byte) = of_int 128" "(0xFF :: byte) = of_int 255" by simp_all
  have "(of_int (127 - e) :: byte) < of_int 128" "(of_int 128 :: byte) < of_int (e + 128)" "(of_int (e + 128) :: byte) < of_int 255"
    "(of_int (127 - e) :: byte) < of_int 255" "(of_int 128 :: byte) < of_int 255"
    by (rule byte_less; use assms in linarith)+
  then show "num_enc True e M @ s < SUBSCRIPT_ZERO # t" "SUBSCRIPT_ZERO # s < num_enc False e M @ t"
    "num_enc neg e M @ s < STR_SUB_PREFIX # t" "SUBSCRIPT_ZERO # s < STR_SUB_PREFIX # t"
    unfolding num_enc_def exp_byte_eq SUBSCRIPT_ZERO_def STR_SUB_PREFIX_def z by (auto simp del: of_int_add of_int_diff of_int_numeral)
  show "num_enc True e M @ s < num_enc False e' M' @ t" if "20 \<le> e'" "e' < 110"
  proof -
    have "(of_int (127 - e) :: byte) < of_int (e' + 128)" using assms that by (auto intro!: byte_less simp del: of_int_add of_int_diff)
    then show ?thesis unfolding num_enc_def exp_byte_eq by (auto simp del: of_int_add of_int_diff)
  qed
qed

lemma num_subsc_less:
  assumes u: "wf_num u" and v: "wf_num v" and lt: "numval u < numval v" and a: "num_subsc u = Some a" and b: "num_subsc v = Some b"
  shows "a @ KEY_DELIMITER # s < b @ KEY_DELIMITER # t"
proof (rule num_subsc_cases [OF u]; rule num_subsc_cases [OF v])
  fix sg e M sg' e' M'
  assume U: "numval u = sgnd sg (M * 10 ^ nat e)" "num_subsc u = Some (num_enc (sg \<noteq> 0) e M)" "10 ^ 17 \<le> M" "M < 10 ^ 18" "20 \<le> e" "e < 110"
  assume V: "numval v = sgnd sg' (M' * 10 ^ nat e')" "num_subsc v = Some (num_enc (sg' \<noteq> 0) e' M')" "10 ^ 17 \<le> M'" "M' < 10 ^ 18" "20 \<le> e'" "e' < 110"
  define x y where "x = M * 10 ^ nat e" and "y = M' * 10 ^ nat e'"
  have pos: "0 < x" "0 < y" using U V by (simp_all add: x_def y_def)
  have "sgnd sg x < sgnd sg' y" using lt U(1) V(1) by (simp add: x_def y_def)
  then have "\<not> (sg = 0 \<and> sg' \<noteq> 0)" using pos by (auto simp: sgnd_def split: if_splits)
  then consider "sg = 0" "sg' = 0" | "sg \<noteq> 0" "sg' = 0" | "sg \<noteq> 0" "sg' \<noteq> 0" by blast
  then show ?thesis
  proof cases
    case 1
    then show ?thesis using num_enc_less(1) [OF U(3-6) V(3-6)] lt U V a b by (simp add: sgnd_def)
  next
    case 2
    then show ?thesis using first_bytes(5) [OF U(5,6) V(5,6)] U V a b by simp
  next
    case 3
    then show ?thesis using num_enc_less(2) [OF V(3-6) U(3-6)] lt U V a b by (simp add: sgnd_def)
  qed
next
  assume U: "numval u = 0" "num_subsc u = Some [SUBSCRIPT_ZERO]"
  fix sg' e' M'
  assume V: "numval v = sgnd sg' (M' * 10 ^ nat e')" "num_subsc v = Some (num_enc (sg' \<noteq> 0) e' M')" "10 ^ 17 \<le> M'" "M' < 10 ^ 18" "20 \<le> e'" "e' < 110"
  have "sg' = 0" using lt U V by (auto simp: sgnd_def zero_less_mult_iff mult_less_0_iff split: if_splits)
  then show ?thesis using first_bytes(2) [OF V(5,6)] U V a b by simp
next
  assume V: "numval v = 0" "num_subsc v = Some [SUBSCRIPT_ZERO]"
  fix sg e M
  assume U: "numval u = sgnd sg (M * 10 ^ nat e)" "num_subsc u = Some (num_enc (sg \<noteq> 0) e M)" "10 ^ 17 \<le> M" "M < 10 ^ 18" "20 \<le> e" "e < 110"
  have "sg \<noteq> 0" using lt U V by (auto simp: sgnd_def zero_less_mult_iff mult_less_0_iff split: if_splits)
  then show ?thesis using first_bytes(1) [OF U(5,6)] U V a b by simp
next
  assume "numval u = 0" "numval v = 0"
  then show ?thesis using lt by simp
qed

section \<open>Strings\<close>

fun esc :: "bytes \<Rightarrow> bytes" where
  "esc [] = []"
| "esc (ch # s) = (if ch \<le> 1 then [STR_SUB_ESCAPE, ch + 1] else [ch]) @ esc s"

lemma str_loop_esc: "str_loop avail s = Some out \<Longrightarrow> out = esc s"
  by (induction avail s arbitrary: out rule: str_loop.induct) (auto split: if_splits)

lemma byte_le_1: "ch \<le> (1 :: byte) \<Longrightarrow> ch = 0 \<or> ch = 1"
proof -
  assume "ch \<le> 1"
  then have "unat ch \<le> 1" by (simp add: word_le_nat_alt)
  then have "unat ch = 0 \<or> unat ch = 1" by linarith
  then show ?thesis by (auto simp: word_unat_eq_iff)
qed

lemma esc_less: "s < t \<Longrightarrow> esc s @ KEY_DELIMITER # a < esc t @ KEY_DELIMITER # b"
proof (induction s arbitrary: t)
  case Nil
  then obtain d t' where "t = d # t'" by (cases t) auto
  moreover have "(0::byte) < d" if "\<not> d \<le> 1" using that by (simp add: word_gt_0) auto
  ultimately show ?case by (auto simp: KEY_DELIMITER_def STR_SUB_ESCAPE_def)
next
  case (Cons c s)
  then obtain d t' where t: "t = d # t'" by (cases t) auto
  with Cons.prems consider "c < d" | "c = d" "s < t'" by auto
  then show ?case
  proof cases
    case 1
    show ?thesis
    proof (cases "c \<le> 1")
      case True
      then consider "c = 0" | "c = 1" using byte_le_1 by blast
      then show ?thesis
      proof cases
        case 1
        then show ?thesis using \<open>c < d\<close> byte_le_1 [of d] t by (cases "d \<le> 1") (auto simp: STR_SUB_ESCAPE_def not_le)
      next
        case 2
        then show ?thesis using \<open>c < d\<close> t by (auto simp: STR_SUB_ESCAPE_def not_le)
      qed
    next
      case False
      then have "\<not> d \<le> 1" using 1 by simp
      then show ?thesis using False 1 t by simp
    qed
  next
    case 2
    then show ?thesis using Cons.IH [of t'] t by simp
  qed
qed

section \<open>Subscripts in a key\<close>

text \<open>The values the routine is called with: numeric bits only on a well-formed number.\<close>

definition subsc_val :: "mval \<Rightarrow> bool" where
  "subsc_val v \<longleftrightarrow> (if is_nm (mvtype v) then wf_num v else \<not> is_int (mvtype v)) \<and>
     (is_approx (mvtype v) \<longrightarrow> is_str (mvtype v))"

text \<open>The subscript a classified value stands for.\<close>

definition subsc_abs :: "mval \<Rightarrow> skey" where
  "subsc_abs v = (if is_approx (mvtype v) then StrKey (str_of v) else NumKey (numval v))"

lemma subsc_class_ok:
  assumes v: "subsc_val v" and c: "subsc_class undef_inhibit gc v = Inr (w, str)" and gc: "\<not> transform gc"
  shows "str = is_approx (mvtype w)" "\<not> str \<Longrightarrow> wf_num w"
proof -
  have "str = is_approx (mvtype w) \<and> (\<not> str \<longrightarrow> wf_num w)"
  proof (cases "\<not> is_nm (mvtype v) \<and> \<not> is_approx (mvtype v)")
    case False
    then show ?thesis using c gc v by (auto simp: subsc_class_def subsc_val_def split: if_splits)
  next
    case True
    obtain x where x: "MV_FORCE_STR undef_inhibit v = Inr x" using c gc True by (auto simp: subsc_class_def split: sum.splits if_splits)
    have ns: "str_of x \<noteq> [] \<Longrightarrow> \<not> is_int (mvtype x)"
      using x True v by (auto simp: MV_FORCE_STR_def MV_DEFINED_def underr_def subsc_val_def literal_null_def split: if_splits)
    show ?thesis
    proof (cases "iscan_text (str_of x)")
      case F: False
      then show ?thesis using c gc True x by (auto simp: subsc_class_def)
    next
      case T: True
      then have "str_of x \<noteq> []" by (auto simp: iscan_text_def)
      then show ?thesis using c gc True x T ns s2n_wf [of x] by (auto simp: subsc_class_def split: sum.splits)
    qed
  qed
  then show "str = is_approx (mvtype w)" "\<not> str \<Longrightarrow> wf_num w" by auto
qed

text \<open>What a successful call appends, and that its encoding is the one of the subscript.\<close>

definition encodes :: "bytes \<Rightarrow> mval \<Rightarrow> bool" where
  "encodes sub v \<longleftrightarrow> (if is_approx (mvtype v) then sub = STR_SUB_PREFIX # esc (str_of v) else wf_num v \<and> num_subsc v = Some sub)"

lemma mval2subsc_appends:
  assumes v: "subsc_val v" and gc: "\<not> transform gc" and m: "mval2subsc undef_inhibit gc v k False = Inr (Some (w, k'))"
  shows "\<exists>sub. encodes sub w \<and> gk_base k' = take (gk_end k) (gk_base k) @ sub @ [KEY_DELIMITER, KEY_DELIMITER] \<and>
    gk_end k' = gk_end k + length sub + 1 \<and> gk_prev k' = gk_end k \<and> MAX_GVKEY_PADDING_LEN + 1 \<le> gk_top k - int (gk_end k')"
proof -
  obtain x str where c: "subsc_class undef_inhibit gc v = Inr (x, str)" using m by (auto simp: mval2subsc_def split: sum.splits)
  note C = subsc_class_ok [OF v c gc]
  have done_ok: "gk_base k' = take (gk_end k) (gk_base k) @ sub @ [KEY_DELIMITER, KEY_DELIMITER] \<and>
    gk_end k' = gk_end k + length sub + 1 \<and> gk_prev k' = gk_end k \<and> MAX_GVKEY_PADDING_LEN + 1 \<le> gk_top k - int (gk_end k')"
    if "subsc_done k sub = Inr k'" for sub using that by (auto simp: subsc_done_def Let_def split: if_splits)
  show ?thesis
  proof (cases str)
    case True
    then obtain sub where s: "str_subsc False (gk_top k - int (gk_end k + length (str_of x) + 3)) (str_of x) = Some sub"
      "subsc_done k sub = Inr k'" "w = x"
      using m c gc by (auto simp: mval2subsc_def Let_def split: option.splits sum.splits)
    then have "encodes sub w" using C True str_loop_esc
      by (auto simp: encodes_def str_subsc_def split: if_splits)
    then show ?thesis using done_ok [OF s(2)] by blast
  next
    case False
    then obtain sub where s: "num_subsc x = Some sub" "subsc_done k sub = Inr k'" "w = x"
      using m c by (auto simp: mval2subsc_def split: option.splits sum.splits)
    then have "encodes sub w" using C False by (auto simp: encodes_def)
    then show ?thesis using done_ok [OF s(2)] by blast
  qed
qed

lemma encodes_less:
  assumes a: "encodes a u" and b: "encodes b v" and lt: "subsc_abs u < subsc_abs v"
  shows "a @ KEY_DELIMITER # s < b @ KEY_DELIMITER # t"
proof (cases "is_approx (mvtype u)")
  case True
  then have "is_approx (mvtype v)" "str_of u < str_of v" using lt by (auto simp: subsc_abs_def split: if_splits)
  then show ?thesis using True a b esc_less [of "str_of u" "str_of v" s t] by (simp add: encodes_def)
next
  case u: False
  show ?thesis
  proof (cases "is_approx (mvtype v)")
    case True
    have wu: "wf_num u" "num_subsc u = Some a" using a u by (auto simp: encodes_def)
    show ?thesis
    proof (rule num_subsc_cases [OF wu(1)])
      assume "num_subsc u = Some [SUBSCRIPT_ZERO]"
      then show ?thesis using wu b True first_bytes(4) [of 20] by (simp add: encodes_def)
    next
      fix sg e M assume "num_subsc u = Some (num_enc (sg \<noteq> 0) e M)" "20 \<le> e" "e < 110"
      then show ?thesis using wu b True first_bytes(3) [of e] by (simp add: encodes_def)
    qed
  next
    case False
    then show ?thesis using u a b lt num_subsc_less [of u v a b s t] by (simp add: encodes_def subsc_abs_def)
  qed
qed

section \<open>Properties\<close>

text \<open>
  C22. Keys collate like subscripts: two values appended to the same key prefix, each in whatever form it is
  held (integer, float, canonical string, other string), give keys whose bytewise order is the M order
  of the subscripts (numbers by value, before strings; strings by bytes), whatever further subscripts
  follow the delimiter.
\<close>

theorem mval2subsc_order:
  assumes u: "subsc_val u" and v: "subsc_val v" and gc: "\<not> transform gc"
    and a: "mval2subsc undef_inhibit gc u k False = Inr (Some (u', k1))"
    and b: "mval2subsc undef_inhibit gc v k False = Inr (Some (v', k2))"
    and lt: "subsc_abs u' < subsc_abs v'"
  shows "butlast (gk_base k1) @ s < butlast (gk_base k2) @ t"
proof -
  obtain x y where x: "encodes x u'" "gk_base k1 = take (gk_end k) (gk_base k) @ x @ [KEY_DELIMITER, KEY_DELIMITER]"
    and y: "encodes y v'" "gk_base k2 = take (gk_end k) (gk_base k) @ y @ [KEY_DELIMITER, KEY_DELIMITER]"
    using mval2subsc_appends [OF u gc a] mval2subsc_appends [OF v gc b] by blast
  have pre: "p @ xs < p @ ys \<longleftrightarrow> xs < ys" for p xs ys :: bytes by (induction p) auto
  show ?thesis unfolding x(2) y(2) using encodes_less [OF x(1) y(1) lt, of s t] by (simp add: butlast_append pre)
qed

definition ex_coll :: gv_coll where
  "ex_coll = \<lparr>transform = False, nct = False, collseq = None\<rparr>"

definition ex_gkey :: gv_key where
  "ex_gkey = \<lparr>gk_top = 300, gk_end = 2, gk_prev = 0, gk_base = [65, 0, 0]\<rparr>"

lemma ex_gkey_eval:
  "mval2subsc False ex_coll (ex_num 1500) ex_gkey False =
     Inr (Some (ex_num 1500, \<lparr>gk_top = 300, gk_end = 5, gk_prev = 2, gk_base = [65, 0, 191, 22, 0, 0]\<rparr>))"
  "mval2subsc False ex_coll (ex_num 2000) ex_gkey False =
     Inr (Some (ex_num 2000, \<lparr>gk_top = 300, gk_end = 5, gk_prev = 2, gk_base = [65, 0, 191, 33, 0, 0]\<rparr>))"
  by code_simp+

theorem mval2subsc_order_witness:
  "([65, 0, 191, 22, 0] :: bytes) @ [255, 65, 0, 0] < [65, 0, 191, 33, 0] @ [0]"
proof -
  have "subsc_val (ex_num 1500)" "subsc_val (ex_num 2000)" "\<not> transform ex_coll" "subsc_abs (ex_num 1500) < subsc_abs (ex_num 2000)"
    by (simp_all add: subsc_val_def subsc_abs_def ex_num_def ex_coll_def wf_num_def wf_int_def numval_def mv_defs)
  from mval2subsc_order [OF this(1,2,3) ex_gkey_eval this(4), of "[255, 65, 0, 0]" "[0]"] show ?thesis by simp
qed

text \<open>
  C23. One number, one encoding: the encodings of two numbers are equal exactly when the numbers are, so
  the integer form and the float form of a number make the same key.
\<close>

theorem num_subsc_unique:
  assumes u: "wf_num u" and v: "wf_num v"
  shows "num_subsc u = num_subsc v \<longleftrightarrow> numval u = numval v"
proof
  assume eq: "num_subsc u = num_subsc v"
  obtain a where a: "num_subsc u = Some a" by (rule num_subsc_cases [OF u]) blast+
  show "numval u = numval v"
    using num_subsc_less [OF u v _ a, of a "[]" "[]"] num_subsc_less [OF v u, of a a "[]" "[]"] a eq
    by (cases "numval u" "numval v" rule: linorder_cases) auto
next
  assume eq: "numval u = numval v"
  show "num_subsc u = num_subsc v"
  proof (rule num_subsc_cases [OF u]; rule num_subsc_cases [OF v])
    fix sg e M sg' e' M'
    assume U: "numval u = sgnd sg (M * 10 ^ nat e)" "num_subsc u = Some (num_enc (sg \<noteq> 0) e M)" "10 ^ 17 \<le> M" "M < 10 ^ 18" "20 \<le> e"
    assume V: "numval v = sgnd sg' (M' * 10 ^ nat e')" "num_subsc v = Some (num_enc (sg' \<noteq> 0) e' M')" "10 ^ 17 \<le> M'" "M' < 10 ^ 18" "20 \<le> e'"
    define x y where "x = M * 10 ^ nat e" and "y = M' * 10 ^ nat e'"
    have pos: "0 < x" "0 < y" using U V by (simp_all add: x_def y_def)
    have "sgnd sg x = sgnd sg' y" using eq U(1) V(1) by (simp add: x_def y_def)
    then have s: "(sg = 0) = (sg' = 0)" "x = y" using pos by (auto simp: sgnd_def split: if_splits)
    have "e = e' \<and> M = M'"
      using mantissa_order [of M M' e e'] mantissa_order [of M' M e' e] U V s(2) unfolding x_def y_def by auto
    then show ?thesis using s(1) U(2) V(2) by simp
  qed (use eq in \<open>auto simp: sgnd_def split: if_splits\<close>)
qed

theorem num_subsc_unique_witness:
  "num_subsc (ex_num (- 1500)) = num_subsc (promote (ex_num (- 1500)))"
proof -
  have w: "wf_int (ex_num (- 1500))" "m1 (ex_num (- 1500)) \<noteq> 0" by (simp_all add: wf_int_def ex_num_def mv_defs)
  then show ?thesis using num_subsc_unique [of "ex_num (- 1500)" "promote (ex_num (- 1500))"] promote_props(1,2) [OF w(1)]
    by (simp add: wf_num_def)
qed

text \<open>
  C24. Encoding a number always ends (five rounds of the loop LAST_LONGWORD are enough for every mantissa) and
  takes at most \<open>MAX_NUM_SUBSC_LEN\<close> bytes, one more for the end mark of a negative number, so the padding of a key
  buffer always has room for it.
\<close>

theorem num_subsc_fits:
  assumes v: "wf_num v"
  shows "\<exists>sub. num_subsc v = Some sub \<and> int (length sub) \<le> MAX_NUM_SUBSC_LEN + of_bool (numval v < 0) \<and>
    int (length sub) + 2 \<le> MAX_GVKEY_PADDING_LEN + 1"
proof (rule num_subsc_cases [OF v])
  fix sg e M
  assume U: "numval v = sgnd sg (M * 10 ^ nat e)" "num_subsc v = Some (num_enc (sg \<noteq> 0) e M)" "10 ^ 17 \<le> M"
  have "numval v < 0 \<longleftrightarrow> sg \<noteq> 0" using U(1,3) by (simp add: sgnd_def mult_less_0_iff zero_less_mult_iff)
  then show ?thesis using U(2) spairs_length [of 9 M]
    by (auto simp: num_enc_def MAX_NUM_SUBSC_LEN_def MAX_GVKEY_PADDING_LEN_def)
qed (simp add: MAX_NUM_SUBSC_LEN_def MAX_GVKEY_PADDING_LEN_def)

theorem num_subsc_fits_witness:
  "\<exists>sub. num_subsc ex_float = Some sub \<and> int (length sub) \<le> MAX_NUM_SUBSC_LEN + of_bool (numval ex_float < 0) \<and>
    int (length sub) + 2 \<le> MAX_GVKEY_PADDING_LEN + 1"
  by (rule num_subsc_fits) (simp add: wf_num_def wf_flt_def ex_float_def mv_defs)

end
