(* ===== verification/Bitmap.thy ===== *)
theory Bitmap
  imports Prelude
begin

text \<open>
  The block allocation bitmaps of a database file.  A local bitmap has two bits for each of the blocks it
  describes (busy, free, recycled), the master bitmap one bit for each local bitmap: set when the local
  bitmap has a block that is not busy.  A map is a byte list, an address in it an index; reading or writing
  outside it is \<open>None\<close>.
\<close>

unbundle bit_operations_syntax

section \<open>Bits (\<open>bit_set.c\<close>, \<open>bit_clear.c\<close>)\<close>

definition rdb :: "bytes \<Rightarrow> nat \<Rightarrow> byte option" where
  "rdb m i = (if i < length m then Some (m ! i) else None)"

definition bit_set :: "nat \<Rightarrow> bytes \<Rightarrow> (bool \<times> bytes) option" where
  "bit_set b m = do {
     p \<leftarrow> rdb m (b div 8);
     let mask = push_bit (b mod 8) 1;
     Some (mask AND p \<noteq> 0, m[b div 8 := p OR mask])
   }"

definition bit_clear :: "nat \<Rightarrow> bytes \<Rightarrow> (bool \<times> bytes) option" where
  "bit_clear b m = do {
     p \<leftarrow> rdb m (b div 8);
     let mask = push_bit (b mod 8) 1;
     Some (mask AND p \<noteq> 0, m[b div 8 := p AND NOT mask])
   }"

section \<open>Local bitmaps (\<open>gdsbml.h\<close>, \<open>bml_busy.c\<close>, \<open>bml_free.c\<close>, \<open>bml_recycled.c\<close>, \<open>bml_newmap.c\<close>)\<close>

definition BML_BITS_PER_BLK :: nat where "BML_BITS_PER_BLK = 2"
definition BLK_BUSY :: byte where "BLK_BUSY = 0"
definition BLK_FREE :: byte where "BLK_FREE = 1"
definition BLK_MAPINVALID :: byte where "BLK_MAPINVALID = 2"
definition BLK_RECYCLED :: byte where "BLK_RECYCLED = 3"
definition FOUR_BLKS_FREE :: byte where "FOUR_BLKS_FREE = 0x55"
definition THREE_BLKS_FREE :: byte where "THREE_BLKS_FREE = 0x54"
definition THREE_BLKS_BITMASK :: byte where "THREE_BLKS_BITMASK = 0x3F"
definition TWO_BLKS_BITMASK :: byte where "TWO_BLKS_BITMASK = 0x0F"
definition ONE_BLK_BITMASK :: byte where "ONE_BLK_BITMASK = 0x03"

definition GET_BM_STATUS :: "bytes \<Rightarrow> nat \<Rightarrow> byte option" where
  "GET_BM_STATUS m blknum = do {
     p \<leftarrow> rdb m ((blknum * BML_BITS_PER_BLK) div 8);
     Some (drop_bit ((blknum * BML_BITS_PER_BLK) mod 8) p AND 3)
   }"

definition SET_BM_STATUS :: "bytes \<Rightarrow> nat \<Rightarrow> byte \<Rightarrow> bytes option" where
  "SET_BM_STATUS m blknum new_bml_status = do {
     p \<leftarrow> rdb m ((blknum * BML_BITS_PER_BLK) div 8);
     let sh = (blknum * BML_BITS_PER_BLK) mod 8;
     Some (m[(blknum * BML_BITS_PER_BLK) div 8 :=
       (p AND NOT (push_bit sh 0x03)) OR push_bit sh (new_bml_status AND 0x03)])
   }"

definition bml_busy :: "nat \<Rightarrow> bytes \<Rightarrow> (bool \<times> bytes) option" where
  "bml_busy setbusy m = do {
     let setbusy = setbusy * BML_BITS_PER_BLK;
     (ret, m) \<leftarrow> bit_clear setbusy m;
     (ret1, m) \<leftarrow> bit_clear (setbusy + 1) m;
     Some (ret, m)
   }"

definition bml_free :: "nat \<Rightarrow> bytes \<Rightarrow> (bool \<times> bytes) option" where
  "bml_free setfree m = do {
     let setfree = setfree * BML_BITS_PER_BLK;
     (ret, m) \<leftarrow> bit_set setfree m;
     (ret1, m) \<leftarrow> bit_clear (setfree + 1) m;
     Some (ret, m)
   }"

definition bml_recycled :: "nat \<Rightarrow> bytes \<Rightarrow> (bool \<times> bytes) option" where
  "bml_recycled setfree m = do {
     let setfree = setfree * BML_BITS_PER_BLK;
     (ret, m) \<leftarrow> bit_set setfree m;
     (ret1, m) \<leftarrow> bit_set (setfree + 1) m;
     Some (ret, m)
   }"

text \<open>A local bitmap block: its header and the map behind it.\<close>

record bm_blk =
  bver :: nat
  levl :: byte
  bsiz :: nat
  tn :: nat
  lmap :: bytes

definition LCL_MAP_LEVL :: byte where "LCL_MAP_LEVL = 0xFF"
definition SIZEOF_blk_hdr :: nat where "SIZEOF_blk_hdr = 16"

text \<open>\<open>None\<close> when the size leaves no byte for the map: the unsigned \<open>size - 1\<close> given to \<open>memset\<close> would wrap.\<close>

definition bml_newmap :: "nat \<Rightarrow> nat \<Rightarrow> nat \<Rightarrow> bm_blk option" where
  "bml_newmap sz curr_tn ondsk_blkver =
    (if sz \<le> SIZEOF_blk_hdr then None
     else Some \<lparr>bver = ondsk_blkver, levl = LCL_MAP_LEVL, bsiz = sz, tn = curr_tn,
       lmap = THREE_BLKS_FREE # replicate (sz - SIZEOF_blk_hdr - 1) FOUR_BLKS_FREE\<rparr>)"

definition BM_MINUS_BLKHDR_SIZE :: "nat \<Rightarrow> nat" where
  "BM_MINUS_BLKHDR_SIZE bplm = bplm div (8 div BML_BITS_PER_BLK)"

definition BM_SIZE :: "nat \<Rightarrow> nat" where
  "BM_SIZE bplm = SIZEOF_blk_hdr + BM_MINUS_BLKHDR_SIZE bplm"

definition BLKS_PER_LMAP :: nat where "BLKS_PER_LMAP = 512"

definition IS_BITMAP_BLK :: "nat \<Rightarrow> bool" where
  "IS_BITMAP_BLK blk \<longleftrightarrow> blk - blk mod BLKS_PER_LMAP = blk"

text \<open>The status \<open>VALIDATE_BM_BLK\<close> computes; a false one is also reported to the operator log.\<close>

definition VALIDATE_BM_BLK :: "nat \<Rightarrow> bm_blk \<Rightarrow> nat \<Rightarrow> bool" where
  "VALIDATE_BM_BLK blk bp bplmap =
    (if IS_BITMAP_BLK blk \<and> (LCL_MAP_LEVL \<noteq> levl bp \<or> BM_SIZE bplmap \<noteq> bsiz bp) then False else True)"

section \<open>Searching a local bitmap (\<open>bml_find_free.c\<close>, \<open>bm_find_blk.c\<close>)\<close>

definition DIVIDE_ROUND_UP :: "nat \<Rightarrow> nat \<Rightarrow> nat" where
  "DIVIDE_ROUND_UP v m = (v + (m - 1)) div m"

text \<open>\<open>RETURN_IF_FREE\<close>: the block within the byte at \<open>ptr\<close>, when the byte has one that is not busy.\<close>

definition RETURN_IF_FREE :: "byte \<Rightarrow> nat \<Rightarrow> nat option" where
  "RETURN_IF_FREE valid ptr =
    (if valid \<noteq> 0 then
       Some (ptr * (8 div BML_BITS_PER_BLK) +
         (if valid > THREE_BLKS_BITMASK then 3 else if valid > TWO_BLKS_BITMASK then 2
          else if valid > ONE_BLK_BITMASK then 1 else 0))
     else None)"

text \<open>A loop over whole bytes from \<open>ptr\<close> up to \<open>topp\<close>: the block found, or NULL; outside the map \<open>None\<close>.\<close>

function find_free_loop :: "bytes \<Rightarrow> nat \<Rightarrow> nat \<Rightarrow> nat option option" where
  "find_free_loop m ptr topp =
    (if ptr < topp then do {
       valid \<leftarrow> rdb m ptr;
       (case RETURN_IF_FREE valid ptr of Some b \<Rightarrow> Some (Some b) | None \<Rightarrow> find_free_loop m (ptr + 1) topp)
     } else Some None)"
  by pat_completeness auto
termination by (relation "measure (\<lambda>(m, ptr, topp). topp - ptr)") auto

text \<open>The valid part of the last byte.\<close>

definition last_valid :: "byte \<Rightarrow> nat \<Rightarrow> byte" where
  "last_valid p total_bits =
    (let bits = total_bits mod 8
     in if bits = 6 then p AND THREE_BLKS_BITMASK else if bits = 4 then p AND TWO_BLKS_BITMASK
        else if bits = 2 then p AND ONE_BLK_BITMASK else p)"

text \<open>\<open>NO_FREE_SPACE\<close> is the inner \<open>None\<close>.\<close>

definition bml_find_free :: "nat \<Rightarrow> bytes \<Rightarrow> nat \<Rightarrow> nat option option" where
  "bml_find_free hint m total_blks = do {
     let hint = (hint * BML_BITS_PER_BLK) div 8;
     let total_bits = total_blks * BML_BITS_PER_BLK;
     let hint = (if hint > DIVIDE_ROUND_UP total_bits 8 then 0 else hint);
     let topp = DIVIDE_ROUND_UP total_bits 8 - 1;
     r \<leftarrow> find_free_loop m hint topp;
     (case r of
        Some b \<Rightarrow> Some (Some b)
      | None \<Rightarrow> do {
          let ptr = max hint topp;
          p \<leftarrow> rdb m ptr;
          (case (if p \<noteq> 0 then RETURN_IF_FREE (last_valid p total_bits) ptr else None) of
             Some b \<Rightarrow> Some (Some b)
           | None \<Rightarrow> if hint \<noteq> 0 then find_free_loop m 0 hint else Some None)
        })
   }"

text \<open>
  \<open>bm_find_blk\<close>: the first block at or after \<open>hint\<close> that is not busy, with \<open>*used\<close>; the test of one byte is
  written out four times in the source.
\<close>

definition find_in_byte :: "byte \<Rightarrow> nat \<Rightarrow> (nat \<times> bool) option" where
  "find_in_byte valid ptr =
    (if valid \<noteq> 0 then
       Some (if valid AND 1 \<noteq> 0 then (ptr * 4, valid AND 2 \<noteq> 0)
             else if valid AND 4 \<noteq> 0 then (ptr * 4 + 1, valid AND 8 \<noteq> 0)
             else if valid AND 16 \<noteq> 0 then (ptr * 4 + 2, valid AND 32 \<noteq> 0)
             else (ptr * 4 + 3, valid AND 128 \<noteq> 0))
     else None)"

function find_blk_loop :: "bytes \<Rightarrow> nat \<Rightarrow> nat \<Rightarrow> (nat \<times> bool) option option" where
  "find_blk_loop m ptr topp =
    (if ptr < topp then do {
       p \<leftarrow> rdb m ptr;
       (case find_in_byte p ptr of Some r \<Rightarrow> Some (Some r) | None \<Rightarrow> find_blk_loop m (ptr + 1) topp)
     } else Some None)"
  by pat_completeness auto
termination by (relation "measure (\<lambda>(m, ptr, topp). topp - ptr)") auto

declare find_free_loop.simps [simp del] find_blk_loop.simps [simp del]

definition hint_mask :: "nat \<Rightarrow> byte" where
  "hint_mask hint = (case hint mod 4 of 0 \<Rightarrow> 255 | Suc 0 \<Rightarrow> 252 | Suc (Suc 0) \<Rightarrow> 240 | _ \<Rightarrow> 192)"

definition bm_find_blk :: "nat \<Rightarrow> bytes \<Rightarrow> nat \<Rightarrow> (nat \<times> bool) option option" where
  "bm_find_blk hint m total_blks = do {
     let total_bits = total_blks * BML_BITS_PER_BLK;
     let topp = (total_bits + 7) div 8 - 1;
     (first, ptr) \<leftarrow>
       (if hint \<noteq> 0 then do {
          let ptr = (hint * BML_BITS_PER_BLK) div 8;
          p \<leftarrow> rdb m ptr;
          let valid = (if ptr = topp then last_valid p total_bits else p);
          Some (find_in_byte (valid AND hint_mask hint) ptr, ptr + 1)
        } else Some (None, 0));
     (case first of
        Some r \<Rightarrow> Some (Some r)
      | None \<Rightarrow> do {
          r \<leftarrow> find_blk_loop m ptr topp;
          (case r of
             Some r \<Rightarrow> Some (Some r)
           | None \<Rightarrow>
               let ptr = max ptr topp in
               if ptr = topp then do {
                 p \<leftarrow> rdb m ptr;
                 Some (if p \<noteq> 0 then find_in_byte (last_valid p total_bits) ptr else None)
               } else Some None)
        })
   }"

section \<open>The status of a block, by its two bits\<close>

text \<open>The two bits of block \<open>b\<close>; a block is busy when both are clear.\<close>

definition lo_bit :: "bytes \<Rightarrow> nat \<Rightarrow> bool" where
  "lo_bit m b = bit (m ! (b div 4)) (2 * (b mod 4))"

definition hi_bit :: "bytes \<Rightarrow> nat \<Rightarrow> bool" where
  "hi_bit m b = bit (m ! (b div 4)) (2 * (b mod 4) + 1)"

definition avail :: "bytes \<Rightarrow> nat \<Rightarrow> bool" where
  "avail m b \<longleftrightarrow> lo_bit m b \<or> hi_bit m b"

definition in_map :: "bytes \<Rightarrow> nat \<Rightarrow> bool" where
  "in_map m b \<longleftrightarrow> b div 4 < length m"

lemma blk_index: "(b * 2) div 8 = b div 4" "(b * 2) mod 8 = 2 * (b mod 4)" "(b * 2 + 1) div 8 = b div 4"
  "(b * 2 + 1) mod 8 = 2 * (b mod 4) + 1" for b :: nat
  by presburger+

lemma byte_bits: "bit p n \<Longrightarrow> n < 8" for p :: byte
  using bit_imp_le_length by fastforce

lemma mask_test: "(2 ^ n AND p \<noteq> 0) \<longleftrightarrow> bit p n" for p :: byte
  using and_exp_eq_0_iff_not_bit [of p n] by (simp add: and.commute)

lemma byte_or_mask: "bit (p OR 2 ^ n) k \<longleftrightarrow> bit p k \<or> (k = n \<and> n < 8)" for p :: byte
  by (auto simp: bit_simps)

lemma byte_clear_mask: "bit (p AND NOT (2 ^ n)) k \<longleftrightarrow> bit p k \<and> k \<noteq> n" for p :: byte
  by (auto simp: bit_simps dest: byte_bits)

lemma small_bits: "bit (1::byte) k \<longleftrightarrow> k = 0" "bit (2::byte) k \<longleftrightarrow> k = 1" "bit (3::byte) k \<longleftrightarrow> k = 0 \<or> k = 1"
proof -
  show "bit (1::byte) k \<longleftrightarrow> k = 0" by (simp add: bit_1_iff)
  have "bit (2 ^ 1 :: byte) k \<longleftrightarrow> k = 1" by (auto simp only: bit_exp_iff) simp
  then show "bit (2::byte) k \<longleftrightarrow> k = 1" by (simp only: power_one_right)
  have "bit (mask 2 :: byte) k \<longleftrightarrow> k = 0 \<or> k = 1" by (auto simp only: bit_mask_iff) auto
  moreover have "mask 2 = (3::byte)" by (simp add: mask_eq_exp_minus_1)
  ultimately show "bit (3::byte) k \<longleftrightarrow> k = 0 \<or> k = 1" by (simp only:)
qed

lemma bit_set_ok:
  assumes "b div 8 < length m"
  shows "bit_set b m = Some (bit (m ! (b div 8)) (b mod 8), m[b div 8 := (m ! (b div 8)) OR 2 ^ (b mod 8)])"
  using assms by (simp add: bit_set_def rdb_def Let_def mask_test)

lemma bit_clear_ok:
  assumes "b div 8 < length m"
  shows "bit_clear b m = Some (bit (m ! (b div 8)) (b mod 8), m[b div 8 := (m ! (b div 8)) AND NOT (2 ^ (b mod 8))])"
  using assms by (simp add: bit_clear_def rdb_def Let_def mask_test)

text \<open>The status byte in terms of the two bits.\<close>

lemma status_bits: "drop_bit n p AND 3 = of_bool (bit p n) + 2 * of_bool (bit p (Suc n))" for p :: byte
proof (rule bit_eqI)
  fix k
  have "bit (drop_bit n p AND 3) k \<longleftrightarrow> (k = 0 \<and> bit p n) \<or> (k = 1 \<and> bit p (Suc n))"
    unfolding bit_and_iff small_bits bit_drop_bit_eq by auto
  then show "bit (drop_bit n p AND 3) k \<longleftrightarrow> bit (of_bool (bit p n) + 2 * of_bool (bit p (Suc n)) :: byte) k"
    using small_bits [of k] by (cases "bit p n"; cases "bit p (Suc n)") simp_all
qed

lemma GET_BM_STATUS_bits: "in_map m b \<Longrightarrow> GET_BM_STATUS m b = Some (of_bool (lo_bit m b) + 2 * of_bool (hi_bit m b))"
  by (simp only: GET_BM_STATUS_def BML_BITS_PER_BLK_def blk_index rdb_def in_map_def if_True bind.bind_lunit status_bits
      lo_bit_def hi_bit_def Suc_eq_plus1)

lemmas blk_status_defs = BLK_BUSY_def BLK_FREE_def BLK_MAPINVALID_def BLK_RECYCLED_def

lemma status_cases:
  assumes "in_map m b"
  shows "GET_BM_STATUS m b = Some BLK_BUSY \<longleftrightarrow> \<not> avail m b"
    "GET_BM_STATUS m b = Some BLK_FREE \<longleftrightarrow> lo_bit m b \<and> \<not> hi_bit m b"
    "GET_BM_STATUS m b = Some BLK_RECYCLED \<longleftrightarrow> lo_bit m b \<and> hi_bit m b"
    "GET_BM_STATUS m b = Some BLK_MAPINVALID \<longleftrightarrow> \<not> lo_bit m b \<and> hi_bit m b"
  using GET_BM_STATUS_bits [OF assms] by (cases "lo_bit m b"; cases "hi_bit m b"; simp add: avail_def blk_status_defs)+

section \<open>Writing a status\<close>

definition sets :: "bytes \<Rightarrow> bytes \<Rightarrow> nat \<Rightarrow> bool \<Rightarrow> bool \<Rightarrow> bool" where
  "sets m m' b l h \<longleftrightarrow> length m' = length m \<and>
     (\<forall>x. lo_bit m' x = (if x = b then l else lo_bit m x) \<and> hi_bit m' x = (if x = b then h else hi_bit m x))"

lemma same_blk: "x div 4 = b div 4 \<Longrightarrow> x mod 4 = b mod 4 \<Longrightarrow> x = b" for x b :: nat
  by (metis div_mult_mod_eq)

lemma put_lo:
  assumes "in_map m b" "\<And>k. bit p k \<longleftrightarrow> (if k = 2 * (b mod 4) then v else bit (m ! (b div 4)) k)"
  shows "sets m (m[b div 4 := p]) b v (hi_bit m b)"
  using assms same_blk [of _ b]
  by (auto simp: sets_def lo_bit_def hi_bit_def in_map_def nth_list_update)

lemma put_hi:
  assumes "in_map m b" "\<And>k. bit p k \<longleftrightarrow> (if k = 2 * (b mod 4) + 1 then v else bit (m ! (b div 4)) k)"
  shows "sets m (m[b div 4 := p]) b (lo_bit m b) v"
  using assms same_blk [of _ b]
  by (auto simp: sets_def lo_bit_def hi_bit_def in_map_def nth_list_update)

lemma sets_trans: "sets m m1 b l (hi_bit m b) \<Longrightarrow> sets m1 m2 b (lo_bit m1 b) h \<Longrightarrow> sets m m2 b l h"
  by (auto simp: sets_def)

lemma sets_in_map: "sets m m' b l h \<Longrightarrow> in_map m' x = in_map m x"
  by (simp add: sets_def in_map_def)

lemma blk_bit_range: "2 * (b mod 4) < 8" "2 * (b mod 4) + 1 < 8" for b :: nat
  by presburger+

lemma bit_set_lo:
  assumes "in_map m b"
  obtains m' where "bit_set (b * 2) m = Some (lo_bit m b, m')" "sets m m' b True (hi_bit m b)"
  using bit_set_ok [of "b * 2" m] put_lo [OF assms, of "m ! (b div 4) OR 2 ^ (2 * (b mod 4))" True] assms blk_bit_range [of b]
  by (auto simp: blk_index in_map_def byte_or_mask lo_bit_def)

lemma bit_set_hi:
  assumes "in_map m b"
  obtains m' where "bit_set (b * 2 + 1) m = Some (hi_bit m b, m')" "sets m m' b (lo_bit m b) True"
  using bit_set_ok [of "b * 2 + 1" m] put_hi [OF assms, of "m ! (b div 4) OR 2 ^ (2 * (b mod 4) + 1)" True] assms blk_bit_range [of b]
  unfolding blk_index by (auto simp: in_map_def byte_or_mask hi_bit_def simp del: power_Suc)

lemma bit_clear_lo:
  assumes "in_map m b"
  obtains m' where "bit_clear (b * 2) m = Some (lo_bit m b, m')" "sets m m' b False (hi_bit m b)"
  using bit_clear_ok [of "b * 2" m] put_lo [OF assms, of "m ! (b div 4) AND NOT (2 ^ (2 * (b mod 4)))" False] assms
  by (auto simp: blk_index in_map_def byte_clear_mask lo_bit_def)

lemma bit_clear_hi:
  assumes "in_map m b"
  obtains m' where "bit_clear (b * 2 + 1) m = Some (hi_bit m b, m')" "sets m m' b (lo_bit m b) False"
  using bit_clear_ok [of "b * 2 + 1" m] put_hi [OF assms, of "m ! (b div 4) AND NOT (2 ^ (2 * (b mod 4) + 1))" False] assms
  unfolding blk_index by (auto simp: in_map_def byte_clear_mask hi_bit_def simp del: power_Suc)

text \<open>
  The contract of the three functions \<open>gvcst_map_build\<close> chooses from: block \<open>b\<close> gets the status with the bits
  \<open>l\<close> and \<open>h\<close>, no other block changes, and the result is the old low bit (0 exactly for a busy block of a valid map).
\<close>

locale bml_writer =
  fixes f :: "nat \<Rightarrow> bytes \<Rightarrow> (bool \<times> bytes) option" and l h :: bool
  assumes writes: "in_map m b \<Longrightarrow> \<exists>m'. f b m = Some (lo_bit m b, m') \<and> sets m m' b l h"

interpretation Busy: bml_writer bml_busy False False
proof
  fix m b assume i: "in_map m b"
  obtain m1 where 1: "bit_clear (b * 2) m = Some (lo_bit m b, m1)" "sets m m1 b False (hi_bit m b)" using bit_clear_lo [OF i] .
  have "in_map m1 b" using sets_in_map [OF 1(2)] i by simp
  from bit_clear_hi [OF this] obtain m2 where 2: "bit_clear (b * 2 + 1) m1 = Some (hi_bit m1 b, m2)" "sets m1 m2 b (lo_bit m1 b) False" .
  from 1 2 sets_trans [OF 1(2) 2(2)] show "\<exists>m'. bml_busy b m = Some (lo_bit m b, m') \<and> sets m m' b False False"
    by (simp add: bml_busy_def BML_BITS_PER_BLK_def)
qed

interpretation Free: bml_writer bml_free True False
proof
  fix m b assume i: "in_map m b"
  obtain m1 where 1: "bit_set (b * 2) m = Some (lo_bit m b, m1)" "sets m m1 b True (hi_bit m b)" using bit_set_lo [OF i] .
  have "in_map m1 b" using sets_in_map [OF 1(2)] i by simp
  from bit_clear_hi [OF this] obtain m2 where 2: "bit_clear (b * 2 + 1) m1 = Some (hi_bit m1 b, m2)" "sets m1 m2 b (lo_bit m1 b) False" .
  from 1 2 sets_trans [OF 1(2) 2(2)] show "\<exists>m'. bml_free b m = Some (lo_bit m b, m') \<and> sets m m' b True False"
    by (simp add: bml_free_def BML_BITS_PER_BLK_def)
qed

interpretation Recycled: bml_writer bml_recycled True True
proof
  fix m b assume i: "in_map m b"
  obtain m1 where 1: "bit_set (b * 2) m = Some (lo_bit m b, m1)" "sets m m1 b True (hi_bit m b)" using bit_set_lo [OF i] .
  have "in_map m1 b" using sets_in_map [OF 1(2)] i by simp
  from bit_set_hi [OF this] obtain m2 where 2: "bit_set (b * 2 + 1) m1 = Some (hi_bit m1 b, m2)" "sets m1 m2 b (lo_bit m1 b) True" .
  from 1 2 sets_trans [OF 1(2) 2(2)] show "\<exists>m'. bml_recycled b m = Some (lo_bit m b, m') \<and> sets m m' b True True"
    by (simp add: bml_recycled_def BML_BITS_PER_BLK_def)
qed

section \<open>Searching\<close>

definition av :: "byte \<Rightarrow> nat \<Rightarrow> bool" where
  "av v i \<longleftrightarrow> bit v (2 * i) \<or> bit v (2 * i + 1)"

lemma avail_byte: "avail m b = av (m ! (b div 4)) (b mod 4)"
  by (simp add: avail_def lo_bit_def hi_bit_def av_def)

lemma above_mask:
  fixes v :: byte
  assumes "n = 2 \<or> n = 4 \<or> n = 6"
  shows "mask n < v \<longleftrightarrow> (\<exists>k \<ge> n. bit v k)"
proof -
  have "v \<le> mask n \<longleftrightarrow> uint v < 2 ^ n" using assms by (auto simp: word_le_def mask_eq_exp_minus_1)
  also have "\<dots> \<longleftrightarrow> take_bit n (uint v) = uint v" by (simp add: take_bit_int_eq_self_iff)
  also have "\<dots> \<longleftrightarrow> take_bit n v = v" by (simp add: word_uint_eq_iff unsigned_take_bit_eq)
  also have "\<dots> \<longleftrightarrow> (\<forall>k. bit v k \<longrightarrow> k < n)" using byte_bits [of v] by (auto simp: bit_eq_iff bit_take_bit_iff)
  also have "\<dots> \<longleftrightarrow> (\<forall>k \<ge> n. \<not> bit v k)" by (meson not_le)
  finally show ?thesis by (auto simp: not_le [symmetric])
qed

lemma pair_of_bit: "bit v k \<Longrightarrow> av v (k div 2) \<and> k div 2 < 4" for v :: byte
proof -
  assume b: "bit v k"
  have "k = 2 * (k div 2) \<or> k = 2 * (k div 2) + 1" by presburger
  then have "av v (k div 2)" using b unfolding av_def by metis
  then show ?thesis using byte_bits [OF b] by auto
qed

lemma byte_avail: "v \<noteq> 0 \<longleftrightarrow> (\<exists>i < 4. av v i)" for v :: byte
proof
  assume "v \<noteq> 0"
  then obtain k where "bit v k" by (auto simp: bit_eq_iff)
  then show "\<exists>i < 4. av v i" using pair_of_bit by blast
qed (auto simp: av_def)

lemma blk_masks: "THREE_BLKS_BITMASK = mask 6" "TWO_BLKS_BITMASK = mask 4" "ONE_BLK_BITMASK = mask 2"
  by (simp_all add: THREE_BLKS_BITMASK_def TWO_BLKS_BITMASK_def ONE_BLK_BITMASK_def mask_eq_exp_minus_1)

lemma return_if_free:
  "case RETURN_IF_FREE v ptr of Some b \<Rightarrow> b div 4 = ptr \<and> av v (b mod 4) | None \<Rightarrow> v = 0"
proof (cases "v = 0")
  case True then show ?thesis by (simp add: RETURN_IF_FREE_def)
next
  case False
  define i where "i = (if v > THREE_BLKS_BITMASK then 3 else if v > TWO_BLKS_BITMASK then 2 else if v > ONE_BLK_BITMASK then 1 else 0 :: nat)"
  obtain k where k: "bit v k" using False by (auto simp: bit_eq_iff)
  consider "mask 6 < v" | "\<not> mask 6 < v" "mask 4 < v" | "\<not> mask 6 < v" "\<not> mask 4 < v" "mask 2 < v" | "\<not> mask 6 < v" "\<not> mask 4 < v" "\<not> mask 2 < v" by blast
  then have "av v i"
  proof cases
    case 1
    then obtain k where k: "k \<ge> 6" "bit v k" by (auto simp: above_mask)
    then have "k div 2 = 3" using byte_bits [OF k(2)] by simp
    then show ?thesis using 1 pair_of_bit [OF k(2)] by (simp add: i_def blk_masks)
  next
    case 2
    then obtain k where k: "k \<ge> 4" "bit v k" "k < 6" by (auto simp: above_mask) (meson not_less)
    then have "k div 2 = 2" by simp
    then show ?thesis using 2 pair_of_bit [OF k(2)] by (simp add: i_def blk_masks)
  next
    case 3
    then obtain k where k: "k \<ge> 2" "bit v k" "k < 4" by (auto simp: above_mask) (meson not_less)
    then have "k div 2 = 1" by simp
    then show ?thesis using 3 pair_of_bit [OF k(2)] by (simp add: i_def blk_masks)
  next
    case 4
    then have "k < 2" using k by (auto simp: above_mask) (meson not_less)
    then have "k div 2 = 0" by simp
    then show ?thesis using 4 pair_of_bit [OF k] by (simp add: i_def blk_masks)
  qed
  moreover have "i < 4" by (simp add: i_def)
  moreover have "RETURN_IF_FREE v ptr = Some (ptr * 4 + i)" using False by (simp add: RETURN_IF_FREE_def BML_BITS_PER_BLK_def i_def)
  ultimately show ?thesis by simp
qed

lemma last_valid_bits: "bit (last_valid p (n * 2)) k \<longleftrightarrow> bit p k \<and> (n mod 4 = 0 \<or> k < 2 * (n mod 4))"
proof -
  have "(n * 2) mod 8 = 2 * (n mod 4)" by (rule blk_index)
  moreover have "n mod 4 < 4" by simp
  then have "n mod 4 = 0 \<or> n mod 4 = 1 \<or> n mod 4 = 2 \<or> n mod 4 = 3" by linarith
  ultimately show ?thesis
    unfolding last_valid_def Let_def blk_masks by (auto simp: bit_simps dest: byte_bits)
qed

lemma last_valid_av: "i < 4 \<Longrightarrow> av (last_valid p (n * 2)) i \<longleftrightarrow> av p i \<and> (n mod 4 = 0 \<or> i < n mod 4)"
  unfolding av_def last_valid_bits by linarith

lemma find_free_loop_ok:
  "topp \<le> length m \<Longrightarrow> \<exists>r. find_free_loop m ptr topp = Some r \<and>
     (case r of Some b \<Rightarrow> ptr \<le> b div 4 \<and> b div 4 < topp \<and> avail m b
      | None \<Rightarrow> \<forall>b. ptr \<le> b div 4 \<longrightarrow> b div 4 < topp \<longrightarrow> \<not> avail m b)"
proof (induction m ptr topp rule: find_free_loop.induct)
  case (1 m ptr topp)
  show ?case
  proof (cases "ptr < topp")
    case False
    then show ?thesis by (subst find_free_loop.simps) auto
  next
    case True
    then have p: "rdb m ptr = Some (m ! ptr)" using 1(2) by (simp add: rdb_def)
    show ?thesis
    proof (cases "RETURN_IF_FREE (m ! ptr) ptr")
      case (Some b)
      with return_if_free [of "m ! ptr" ptr] have "b div 4 = ptr" "avail m b" by (auto simp: avail_byte)
      with True p Some show ?thesis by (subst find_free_loop.simps) simp
    next
      case None
      with return_if_free [of "m ! ptr" ptr] have "m ! ptr = 0" by simp
      then have z: "\<not> avail m b" if "b div 4 = ptr" for b using that by (auto simp: avail_byte av_def)
      obtain r where r: "find_free_loop m (ptr + 1) topp = Some r"
        "case r of Some b \<Rightarrow> ptr + 1 \<le> b div 4 \<and> b div 4 < topp \<and> avail m b | None \<Rightarrow> \<forall>b. ptr + 1 \<le> b div 4 \<longrightarrow> b div 4 < topp \<longrightarrow> \<not> avail m b"
        using 1(1) [OF True p None 1(2)] by blast
      have "find_free_loop m ptr topp = Some r" using True p None r(1) by (subst find_free_loop.simps) simp
      moreover have "case r of Some b \<Rightarrow> ptr \<le> b div 4 \<and> b div 4 < topp \<and> avail m b | None \<Rightarrow> \<forall>b. ptr \<le> b div 4 \<longrightarrow> b div 4 < topp \<longrightarrow> \<not> avail m b"
      proof (cases r)
        case (Some b) with r(2) show ?thesis by simp
      next
        case r0: None
        show ?thesis unfolding r0 option.case
        proof (intro allI impI)
          fix b assume "ptr \<le> b div 4" "b div 4 < topp"
          then show "\<not> avail m b" using r(2) z [of b] r0 by (cases "b div 4 = ptr") auto
        qed
      qed
      ultimately show ?thesis by blast
    qed
  qed
qed

text \<open>The bytes a map of \<open>n\<close> blocks needs, and the last of them.\<close>

abbreviation map_bytes :: "nat \<Rightarrow> nat" where
  "map_bytes n \<equiv> (n + 3) div 4"

lemma round_up_bytes: "DIVIDE_ROUND_UP (n * 2) 8 = map_bytes n" "(n * 2 + 7) div 8 = map_bytes n"
  unfolding DIVIDE_ROUND_UP_def by simp_all

lemma last_byte:
  assumes "0 < n" "b div 4 = map_bytes n - 1"
  shows "b < n \<longleftrightarrow> n mod 4 = 0 \<or> b mod 4 < n mod 4"
proof -
  define q r c where "q = n div 4" and "r = n mod 4" and "c = b mod 4"
  have n: "n = 4 * q + r" "r < 4" "c < 4" by (simp_all add: q_def r_def c_def)
  have b: "b = 4 * (b div 4) + c" by (simp add: c_def)
  show ?thesis
  proof (cases "r = 0")
    case True
    then have "map_bytes n = q" using n by simp
    then show ?thesis using True n b assms unfolding r_def [symmetric] by linarith
  next
    case False
    then have "map_bytes n = q + 1" using n by simp
    then have "b = 4 * q + c" using b assms(2) by simp
    then show ?thesis using False n unfolding r_def [symmetric] c_def [symmetric] by linarith
  qed
qed

lemma before_last: "0 < n \<Longrightarrow> b div 4 < map_bytes n - 1 \<Longrightarrow> b < n"
  using div_mult_mod_eq [of b 4] div_mult_mod_eq [of "n + 3" 4] mod_less_divisor [of 4 b] by simp

lemma blk_byte: "b < n \<Longrightarrow> b div 4 \<le> map_bytes n - 1" for b n :: nat
  using div_le_mono [of "b + 4" "n + 3" 4] by simp

lemma last_avail:
  assumes "0 < n" "ptr = map_bytes n - 1"
  shows "b div 4 = ptr \<Longrightarrow> av (last_valid (m ! ptr) (n * 2)) (b mod 4) \<longleftrightarrow> avail m b \<and> b < n"
  using assms last_byte [OF assms(1), of b] last_valid_av [of "b mod 4"] by (auto simp: avail_byte)

lemma last_valid_zero: "p = 0 \<Longrightarrow> last_valid p n = 0"
  by (simp add: last_valid_def Let_def)

lemma bml_find_free_ok:
  assumes n: "0 < n" "map_bytes n \<le> length m" and h: "hint div 4 \<noteq> map_bytes n"
  shows "\<exists>r. bml_find_free hint m n = Some r \<and>
    (case r of Some b \<Rightarrow> b < n \<and> avail m b | None \<Rightarrow> \<forall>b < n. \<not> avail m b)"
proof -
  define topp where "topp = map_bytes n - 1"
  define hb where "hb = (if hint div 4 > map_bytes n then 0 else hint div 4)"
  have hb: "hb \<le> topp" "topp < length m" using h n by (auto simp: hb_def topp_def)
  obtain r1 where r1: "find_free_loop m hb topp = Some r1"
    "case r1 of Some b \<Rightarrow> hb \<le> b div 4 \<and> b div 4 < topp \<and> avail m b | None \<Rightarrow> \<forall>b. hb \<le> b div 4 \<longrightarrow> b div 4 < topp \<longrightarrow> \<not> avail m b"
    using find_free_loop_ok [of topp m hb] hb by auto
  obtain r2 where r2: "find_free_loop m 0 hb = Some r2"
    "case r2 of Some b \<Rightarrow> 0 \<le> b div 4 \<and> b div 4 < hb \<and> avail m b | None \<Rightarrow> \<forall>b. 0 \<le> b div 4 \<longrightarrow> b div 4 < hb \<longrightarrow> \<not> avail m b"
    using find_free_loop_ok [of hb m 0] hb by auto
  define v where "v = last_valid (m ! topp) (n * 2)"
  define r3 where "r3 = (if m ! topp \<noteq> 0 then RETURN_IF_FREE v topp else None)"
  have run: "bml_find_free hint m n = (case r1 of Some b \<Rightarrow> Some (Some b) | None \<Rightarrow>
      (case r3 of Some b \<Rightarrow> Some (Some b) | None \<Rightarrow> if hb \<noteq> 0 then Some r2 else Some None))"
    unfolding bml_find_free_def Let_def BML_BITS_PER_BLK_def blk_index round_up_bytes hb_def [symmetric] topp_def [symmetric]
    using r1(1) r2(1) hb by (simp add: max_absorb2 rdb_def r3_def v_def split: option.splits)
  have r3: "case r3 of Some b \<Rightarrow> b div 4 = topp \<and> avail m b \<and> b < n | None \<Rightarrow> v = 0"
    using return_if_free [of v topp] last_avail [OF n(1) topp_def] last_valid_zero [of "m ! topp" "n * 2"]
    by (auto simp: r3_def v_def split: option.splits)
  have z: "v = 0 \<Longrightarrow> b div 4 = topp \<Longrightarrow> \<not> (avail m b \<and> b < n)" for b
    using last_avail [OF n(1) topp_def, of b m] by (auto simp: v_def av_def)
  show ?thesis
  proof (cases r1)
    case (Some b) with run r1(2) before_last [OF n(1), of b] show ?thesis by (auto simp: topp_def)
  next
    case r1N: None
    show ?thesis
    proof (cases r3)
      case (Some b) with run r1N r3 show ?thesis by auto
    next
      case None
      then have v: "v = 0" using r3 by simp
      have hi: "\<not> avail m b" if "b < n" "hb \<le> b div 4" for b
        using r1(2) r1N z [OF v, of b] blk_byte [OF that(1)] that by (cases "b div 4 = topp") (auto simp: topp_def)
      show ?thesis
      proof (cases r2)
        case r2S: (Some b)
        then have "b div 4 < topp" "hb \<noteq> 0" "avail m b" using r2(2) hb by auto
        with run r1N None r2S before_last [OF n(1), of b] show ?thesis by (auto simp: topp_def)
      next
        case r2N: None
        have "\<not> avail m b" if "b < n" for b using hi [OF that] r2(2) r2N by (cases "hb \<le> b div 4") auto
        with run r1N None r2N show ?thesis by auto
      qed
    qed
  qed
qed

subsection \<open>The first block that is not busy\<close>

lemma find_append: "find P (xs @ ys) = (case find P xs of None \<Rightarrow> find P ys | Some x \<Rightarrow> Some x)"
  by (induction xs) auto

lemma find_none: "\<forall>x \<in> set xs. \<not> P x \<Longrightarrow> find P xs = None"
  by (auto simp: find_None_iff)

lemma upt_split: "a \<le> b \<Longrightarrow> b \<le> c \<Longrightarrow> [a..<c] = [a..<b] @ [b..<c]"
  using upt_add_eq_append [of a b "c - b"] by simp

lemma find_restrict:
  assumes "a \<le> l" "l \<le> u" "u \<le> c"
  shows "find (\<lambda>b. P b \<and> l \<le> b \<and> b < u) [a..<c] = find P [l..<u]"
proof -
  have "[a..<c] = [a..<l] @ [l..<u] @ [u..<c]" using assms upt_split [of a l c] upt_split [of l u c] by simp
  moreover have "find (\<lambda>b. P b \<and> l \<le> b \<and> b < u) [l..<u] = find P [l..<u]" by (rule find_cong) auto
  moreover have "find (\<lambda>b. P b \<and> l \<le> b \<and> b < u) [a..<l] = None" "find (\<lambda>b. P b \<and> l \<le> b \<and> b < u) [u..<c] = None"
    by (rule find_none; simp)+
  ultimately show ?thesis by (simp add: find_append del: upt_Suc split: option.splits)
qed

definition valid_byte :: "byte \<Rightarrow> bool" where
  "valid_byte v \<longleftrightarrow> (\<forall>i < 4. bit v (2 * i + 1) \<longrightarrow> bit v (2 * i))"

definition in_byte :: "byte \<Rightarrow> nat \<Rightarrow> (nat \<times> bool) option" where
  "in_byte v ptr = map_option (\<lambda>b. (b, bit v (2 * (b mod 4) + 1))) (find (\<lambda>b. av v (b mod 4)) [ptr * 4..<ptr * 4 + 4])"

lemma and_bits:
  fixes v :: byte
  shows "v AND 1 \<noteq> 0 \<longleftrightarrow> bit v 0" "v AND 2 \<noteq> 0 \<longleftrightarrow> bit v 1" "v AND 4 \<noteq> 0 \<longleftrightarrow> bit v 2" "v AND 8 \<noteq> 0 \<longleftrightarrow> bit v 3"
    "v AND 16 \<noteq> 0 \<longleftrightarrow> bit v 4" "v AND 32 \<noteq> 0 \<longleftrightarrow> bit v 5" "v AND 128 \<noteq> 0 \<longleftrightarrow> bit v 7"
  using mask_test [of 0 v] mask_test [of 1 v] mask_test [of 2 v] mask_test [of 3 v] mask_test [of 4 v] mask_test [of 5 v] mask_test [of 7 v]
  by (simp_all add: and.commute)

lemma four_blks: "[ptr * 4..<ptr * 4 + 4] = [ptr * 4, ptr * 4 + 1, ptr * 4 + 2, ptr * 4 + 3]" for ptr :: nat
  by (simp add: upt_rec)

lemma below_four: "(\<forall>i < 4. P i) \<longleftrightarrow> P 0 \<and> P 1 \<and> P 2 \<and> P (3::nat)" "(\<exists>i < 4. P i) \<longleftrightarrow> P 0 \<or> P 1 \<or> P 2 \<or> P (3::nat)"
  by (auto simp: numeral_eq_Suc less_Suc_eq)

lemma in_byte_unfold:
  "in_byte v ptr = (if av v 0 then Some (ptr * 4, bit v 1) else if av v 1 then Some (ptr * 4 + 1, bit v 3)
     else if av v 2 then Some (ptr * 4 + 2, bit v 5) else if av v 3 then Some (ptr * 4 + 3, bit v 7) else None)"
proof -
  have m: "(ptr * 4) mod 4 = 0" "(ptr * 4 + 1) mod 4 = 1" "(ptr * 4 + 2) mod 4 = 2" "(ptr * 4 + 3) mod 4 = 3"
    by (simp_all only: mod_mult_self3) simp_all
  show ?thesis unfolding in_byte_def four_blks find.simps m using m by simp
qed

lemma find_in_byte_eq:
  assumes v: "valid_byte v"
  shows "find_in_byte v ptr = in_byte v ptr"
proof -
  have a: "av v 0 = bit v 0" "av v 1 = bit v 2" "av v 2 = bit v 4" "av v 3 = bit v 6"
    using v unfolding valid_byte_def av_def below_four by (simp_all) blast+
  have z: "v \<noteq> 0 \<longleftrightarrow> bit v 0 \<or> bit v 2 \<or> bit v 4 \<or> bit v 6"
    unfolding byte_avail below_four a ..
  show ?thesis
    unfolding find_in_byte_def and_bits in_byte_unfold z a by (simp only: if_split) auto
qed

definition first_avail :: "bytes \<Rightarrow> nat \<Rightarrow> nat \<Rightarrow> (nat \<times> bool) option" where
  "first_avail m lo hi = map_option (\<lambda>b. (b, hi_bit m b)) (find (avail m) [lo..<hi])"

lemma first_avail_append:
  assumes "a \<le> b" "b \<le> c"
  shows "first_avail m a c = (case first_avail m a b of None \<Rightarrow> first_avail m b c | Some r \<Rightarrow> Some r)"
proof -
  show ?thesis unfolding first_avail_def upt_split [OF assms] find_append by (simp split: option.splits)
qed

text \<open>A byte masked to the blocks from \<open>l\<close> up to \<open>u\<close>.\<close>

lemma in_byte_masked:
  assumes lu: "ptr * 4 \<le> l" "l \<le> u" "u \<le> ptr * 4 + 4"
    and w: "\<And>b k. b div 4 = ptr \<Longrightarrow> k < 2 \<Longrightarrow> bit w (2 * (b mod 4) + k) \<longleftrightarrow> bit (m ! ptr) (2 * (b mod 4) + k) \<and> l \<le> b \<and> b < u"
  shows "in_byte w ptr = first_avail m l u"
proof -
  have w0: "bit w (2 * (b mod 4)) \<longleftrightarrow> lo_bit m b \<and> l \<le> b \<and> b < u" "bit w (2 * (b mod 4) + 1) \<longleftrightarrow> hi_bit m b \<and> l \<le> b \<and> b < u"
    if "b \<in> set [ptr * 4..<ptr * 4 + 4]" for b
  proof -
    have b: "b div 4 = ptr" using that by auto
    from w [OF b, of 0] w [OF b, of 1] b
    show "bit w (2 * (b mod 4)) \<longleftrightarrow> lo_bit m b \<and> l \<le> b \<and> b < u" "bit w (2 * (b mod 4) + 1) \<longleftrightarrow> hi_bit m b \<and> l \<le> b \<and> b < u"
      by (simp_all add: lo_bit_def hi_bit_def)
  qed
  have "find (\<lambda>b. av w (b mod 4)) [ptr * 4..<ptr * 4 + 4] = find (\<lambda>b. avail m b \<and> l \<le> b \<and> b < u) [ptr * 4..<ptr * 4 + 4]"
    by (rule find_cong [OF refl]) (use w0 in \<open>auto simp: av_def avail_def\<close>)
  also have "\<dots> = find (avail m) [l..<u]" by (rule find_restrict [OF lu])
  finally have f: "find (\<lambda>b. av w (b mod 4)) [ptr * 4..<ptr * 4 + 4] = find (avail m) [l..<u]" .
  show ?thesis
  proof (cases "find (avail m) [l..<u]")
    case (Some b)
    then have "b \<in> set [l..<u]" by (auto simp: find_Some_iff)
    then have "b \<in> set [ptr * 4..<ptr * 4 + 4]" "l \<le> b" "b < u" using lu by auto
    with w0(2) [of b] Some f show ?thesis by (simp add: in_byte_def first_avail_def)
  qed (simp add: in_byte_def first_avail_def f)
qed

definition map_valid :: "bytes \<Rightarrow> nat \<Rightarrow> bool" where
  "map_valid m n \<longleftrightarrow> (\<forall>b < n. hi_bit m b \<longrightarrow> lo_bit m b)"

lemma valid_masked:
  assumes "map_valid m n" "u \<le> n"
    and w: "\<And>b k. b div 4 = ptr \<Longrightarrow> k < 2 \<Longrightarrow> bit w (2 * (b mod 4) + k) \<longleftrightarrow> bit (m ! ptr) (2 * (b mod 4) + k) \<and> l \<le> b \<and> b < u"
  shows "valid_byte w"
  unfolding valid_byte_def
proof (intro allI impI)
  fix i :: nat assume i: "i < 4" "bit w (2 * i + 1)"
  have b: "(ptr * 4 + i) div 4 = ptr" "(ptr * 4 + i) mod 4 = i" using i(1) by auto
  have "hi_bit m (ptr * 4 + i)" "l \<le> ptr * 4 + i" "ptr * 4 + i < u" using w [OF b(1), of 1] i(2) b by (auto simp: hi_bit_def)
  moreover from this have "lo_bit m (ptr * 4 + i)" using assms(1,2) by (auto simp: map_valid_def)
  ultimately show "bit w (2 * i)" using w [OF b(1), of 0] b by (simp add: lo_bit_def)
qed

lemma hint_mask_bits: "bit (hint_mask h) k \<longleftrightarrow> k < 8 \<and> 2 * (h mod 4) \<le> k"
proof -
  have "h mod 4 < 4" by simp
  then consider "h mod 4 = 0" | "h mod 4 = 1" | "h mod 4 = 2" | "h mod 4 = 3" by linarith
  moreover have "hint_mask h = (if h mod 4 = 0 then 255 else if h mod 4 = 1 then 252 else if h mod 4 = 2 then 240 else 192)"
    by (auto simp: hint_mask_def split: nat.splits)
  ultimately have "hint_mask h = NOT (mask (2 * (h mod 4)))"
    by cases (simp_all add: mask_eq_exp_minus_1)
  then show ?thesis by (auto simp: bit_simps dest: byte_bits)
qed

lemma same_byte_le: "hint div 4 = b div 4 \<Longrightarrow> hint mod 4 \<le> b mod 4 \<longleftrightarrow> hint \<le> b" for hint b :: nat
  using div_mult_mod_eq [of hint 4] div_mult_mod_eq [of b 4] by linarith

lemma last_bounds: "0 < n \<Longrightarrow> (map_bytes n - 1) * 4 < n \<and> n \<le> (map_bytes n - 1) * 4 + 4"
  using div_mult_mod_eq [of "n + 3" 4] mod_less_divisor [of 4 "n + 3"] by linarith

text \<open>The three bytes \<open>bm_find_blk\<close> looks at: a whole byte, the last byte, and the byte of \<open>hint\<close>.\<close>

lemma find_in_byte_masked:
  assumes "map_valid m n" "ptr * 4 \<le> l" "l \<le> u" "u \<le> ptr * 4 + 4" "u \<le> n"
    and w: "\<And>b k. b div 4 = ptr \<Longrightarrow> k < 2 \<Longrightarrow> bit w (2 * (b mod 4) + k) \<longleftrightarrow> bit (m ! ptr) (2 * (b mod 4) + k) \<and> l \<le> b \<and> b < u"
  shows "find_in_byte w ptr = first_avail m l u"
  using find_in_byte_eq [OF valid_masked [OF assms(1,5) w]] in_byte_masked [OF assms(2-4) w] by simp

lemma whole_byte: "map_valid m n \<Longrightarrow> ptr * 4 + 4 \<le> n \<Longrightarrow> find_in_byte (m ! ptr) ptr = first_avail m (ptr * 4) (ptr * 4 + 4)"
  by (rule find_in_byte_masked [of m n]) auto

lemma last_bits:
  assumes "0 < n" "b div 4 = map_bytes n - 1" "k < 2"
  shows "bit (last_valid p (n * 2)) (2 * (b mod 4) + k) \<longleftrightarrow> bit p (2 * (b mod 4) + k) \<and> b < n"
  unfolding last_valid_bits last_byte [OF assms(1,2)] using assms(3) by linarith

lemma last_byte_find:
  assumes "map_valid m n" "0 < n" "ptr = map_bytes n - 1"
  shows "find_in_byte (last_valid (m ! ptr) (n * 2)) ptr = first_avail m (ptr * 4) n"
proof (rule find_in_byte_masked [OF assms(1)])
  fix b k :: nat assume "b div 4 = ptr" "k < 2"
  then show "bit (last_valid (m ! ptr) (n * 2)) (2 * (b mod 4) + k) \<longleftrightarrow> bit (m ! ptr) (2 * (b mod 4) + k) \<and> ptr * 4 \<le> b \<and> b < n"
    using last_bits [OF assms(2), of b k "m ! ptr"] assms(3) div_mult_mod_eq [of b 4] by auto
qed (use last_bounds [OF assms(2)] assms(3) in auto)

lemma hint_bits: "b div 4 = hint div 4 \<Longrightarrow> k < 2 \<Longrightarrow>
    bit (v AND hint_mask hint) (2 * (b mod 4) + k) \<longleftrightarrow> bit v (2 * (b mod 4) + k) \<and> hint \<le> b"
  using same_byte_le [of hint b] byte_bits [of v "2 * (b mod 4) + k"]
  unfolding bit_and_iff hint_mask_bits by auto

lemma hint_byte_find:
  assumes "map_valid m n" "hint < n"
  defines "ptr \<equiv> hint div 4"
  shows "find_in_byte ((if ptr = map_bytes n - 1 then last_valid (m ! ptr) (n * 2) else m ! ptr) AND hint_mask hint) ptr
    = first_avail m hint (min n (ptr * 4 + 4))"
proof (rule find_in_byte_masked [OF assms(1)])
  fix b k :: nat assume b: "b div 4 = ptr" "k < 2"
  have r: "ptr * 4 \<le> b" "b < ptr * 4 + 4" using b(1) div_mult_mod_eq [of b 4] mod_less_divisor [of 4 b] by auto
  have lt: "ptr \<noteq> map_bytes n - 1 \<Longrightarrow> b < n"
    using before_last [of n b] blk_byte [of hint n] b assms by auto
  show "bit ((if ptr = map_bytes n - 1 then last_valid (m ! ptr) (n * 2) else m ! ptr) AND hint_mask hint) (2 * (b mod 4) + k)
    \<longleftrightarrow> bit (m ! ptr) (2 * (b mod 4) + k) \<and> hint \<le> b \<and> b < min n (ptr * 4 + 4)"
    unfolding hint_bits [OF b(1)[unfolded ptr_def] b(2)]
    using r lt last_bits [of n b k "m ! ptr"] b assms(2) by auto
qed (use div_mult_mod_eq [of hint 4] mod_less_divisor [of 4 hint] assms in \<open>auto simp: ptr_def\<close>)

lemma find_blk_loop_ok:
  "map_valid m n \<Longrightarrow> topp * 4 \<le> n \<Longrightarrow> topp \<le> length m \<Longrightarrow> ptr \<le> topp \<Longrightarrow>
    find_blk_loop m ptr topp = Some (first_avail m (ptr * 4) (topp * 4))"
proof (induction m ptr topp rule: find_blk_loop.induct)
  case (1 m ptr topp)
  show ?case
  proof (cases "ptr < topp")
    case False
    then show ?thesis using 1(5) by (subst find_blk_loop.simps) (simp add: first_avail_def)
  next
    case True
    then have p: "rdb m ptr = Some (m ! ptr)" using 1(4) by (simp add: rdb_def)
    have w: "find_in_byte (m ! ptr) ptr = first_avail m (ptr * 4) (ptr * 4 + 4)" using whole_byte 1(2,3) True by auto
    have a: "first_avail m (ptr * 4) (topp * 4) = (case first_avail m (ptr * 4) (ptr * 4 + 4) of
        None \<Rightarrow> first_avail m ((ptr + 1) * 4) (topp * 4) | Some r \<Rightarrow> Some r)"
    proof -
      have "(ptr + 1) * 4 = ptr * 4 + 4" "ptr * 4 + 4 \<le> topp * 4" using True by simp_all
      then show ?thesis using first_avail_append [of "ptr * 4" "ptr * 4 + 4" "topp * 4" m] by (simp only:)
    qed
    show ?thesis
    proof (cases "find_in_byte (m ! ptr) ptr")
      case None
      with 1(1) [OF True p None 1(2-4)] True p w a show ?thesis by (subst find_blk_loop.simps) simp
    qed (use True p w a in \<open>subst find_blk_loop.simps, simp\<close>)
  qed
qed

lemma bm_find_blk_ok:
  assumes "hint < n" "map_bytes n \<le> length m" "map_valid m n"
  shows "bm_find_blk hint m n = Some (first_avail m hint n)"
proof -
  define topp where "topp = map_bytes n - 1"
  have n: "0 < n" using assms(1) by simp
  note lb = last_bounds [OF n, folded topp_def]
  have t: "topp < length m" using assms(2) n by (simp add: topp_def)
  have hb: "hint div 4 \<le> topp" using blk_byte [OF assms(1)] by (simp add: topp_def)
  have find_in_0: "find_in_byte 0 p = None" for p by (simp add: find_in_byte_def)
  have lastf: "(if m ! topp \<noteq> 0 then find_in_byte (last_valid (m ! topp) (n * 2)) topp else None) = first_avail m (topp * 4) n"
    using last_byte_find [OF assms(3) n topp_def] last_valid_zero [of "m ! topp" "n * 2"] find_in_0 by auto
  define tail where "tail ptr = do {
          r \<leftarrow> find_blk_loop m ptr topp;
          (case r of Some r \<Rightarrow> Some (Some r) | None \<Rightarrow>
               let ptr = max ptr topp in
               if ptr = topp then do {
                 p \<leftarrow> rdb m ptr;
                 Some (if p \<noteq> 0 then find_in_byte (last_valid p (n * 2)) ptr else None)
               } else Some None) }" for ptr
  have tail: "tail ptr = Some (first_avail m (ptr * 4) n)" if "ptr \<le> topp" for ptr
    using find_blk_loop_ok [OF assms(3) _ _ that] lb t lastf first_avail_append [of "ptr * 4" "topp * 4" n m] that
    by (auto simp: tail_def Let_def rdb_def max_absorb2 split: option.splits)
  have tail_end: "tail (topp + 1) = Some None" by (simp add: tail_def find_blk_loop.simps)
  have p: "rdb m (hint div 4) = Some (m ! (hint div 4))" using hb t by (simp add: rdb_def)
  have run: "bm_find_blk hint m n = (if hint \<noteq> 0 then
      (case first_avail m hint (min n (hint div 4 * 4 + 4)) of Some r \<Rightarrow> Some (Some r) | None \<Rightarrow> tail (hint div 4 + 1)) else tail 0)"
    unfolding bm_find_blk_def Let_def BML_BITS_PER_BLK_def blk_index round_up_bytes topp_def [symmetric]
    using hint_byte_find [OF assms(3,1), folded topp_def] p
    by (simp add: tail_def Let_def cong del: option.case_cong_weak if_weak_cong)
  show ?thesis
  proof (cases "hint = 0")
    case True then show ?thesis using run tail [of 0] by simp
  next
    case h: False
    show ?thesis
    proof (cases "hint div 4 = topp")
      case True
      then have "min n (hint div 4 * 4 + 4) = n" using lb by simp
      then show ?thesis using run h True tail_end by (simp split: option.splits)
    next
      case False
      then have lt: "hint div 4 + 1 \<le> topp" using hb by simp
      then have "min n (hint div 4 * 4 + 4) = hint div 4 * 4 + 4" using lb by simp
      moreover have "hint \<le> hint div 4 * 4 + 4" using div_mult_mod_eq [of hint 4] mod_less_divisor [of 4 hint] by linarith
      ultimately show ?thesis
        using run h tail [OF lt] first_avail_append [of hint "hint div 4 * 4 + 4" n m] lt lb
        by (simp add: algebra_simps split: option.splits)
    qed
  qed
qed

section \<open>Properties\<close>

lemma in_map_bound: "b < n \<Longrightarrow> map_bytes n \<le> length m \<Longrightarrow> in_map m b"
  using blk_byte [of b n] by (simp add: in_map_def)

lemma sets_status: "sets m m' b l h \<Longrightarrow> in_map m b \<Longrightarrow> in_map m x \<Longrightarrow>
    GET_BM_STATUS m' x = (if x = b then Some (of_bool l + 2 * of_bool h) else GET_BM_STATUS m x)"
  using sets_in_map [of m m' b l h] by (auto simp: GET_BM_STATUS_bits sets_def)

lemma not_in_map: "\<not> in_map m b \<Longrightarrow> GET_BM_STATUS m b = None"
  by (simp add: GET_BM_STATUS_def BML_BITS_PER_BLK_def blk_index rdb_def in_map_def)

context bml_writer
begin

lemma write_status:
  assumes "in_map m b" "GET_BM_STATUS m b = Some s"
  shows "\<exists>m'. f b m = Some (s AND 1 \<noteq> 0, m') \<and> length m' = length m \<and>
    (\<forall>x. GET_BM_STATUS m' x = (if x = b then Some (of_bool l + 2 * of_bool h) else GET_BM_STATUS m x))"
proof -
  obtain m' where m': "f b m = Some (lo_bit m b, m')" "sets m m' b l h" using writes [OF assms(1)] by blast
  have "s AND 1 \<noteq> 0 \<longleftrightarrow> lo_bit m b"
    using assms GET_BM_STATUS_bits [OF assms(1)] by (cases "lo_bit m b"; cases "hi_bit m b") auto
  moreover have "GET_BM_STATUS m' x = (if x = b then Some (of_bool l + 2 * of_bool h) else GET_BM_STATUS m x)" for x
  proof (cases "in_map m x")
    case True then show ?thesis using sets_status [OF m'(2) assms(1)] by blast
  next
    case False
    then show ?thesis using assms(1) sets_in_map [OF m'(2)] by (auto simp: not_in_map)
  qed
  ultimately show ?thesis using m' by (auto simp: sets_def)
qed

end

text \<open>
  Marking block \<open>b\<close> of a local bitmap busy, free or recycled: \<open>bml_busy\<close>, \<open>bml_free\<close> and \<open>bml_recycled\<close> give it
  exactly the status \<open>BLK_BUSY\<close>, \<open>BLK_FREE\<close>, \<open>BLK_RECYCLED\<close> that \<open>GET_BM_STATUS\<close> reads, leave every other block's
  status as it was, and return the low bit of the old status (0 when the block was busy).
\<close>

theorem bml_status_writes:
  assumes "GET_BM_STATUS m b = Some s"
    and "(f, st) \<in> {(bml_busy, BLK_BUSY), (bml_free, BLK_FREE), (bml_recycled, BLK_RECYCLED)}"
  shows "\<exists>m'. f b m = Some (s AND 1 \<noteq> 0, m') \<and> length m' = length m \<and>
    (\<forall>x. GET_BM_STATUS m' x = (if x = b then Some st else GET_BM_STATUS m x))"
proof -
  have i: "in_map m b" using assms(1) not_in_map [of m b] by auto
  show ?thesis
    using assms(2) Busy.write_status [OF i assms(1)] Free.write_status [OF i assms(1)] Recycled.write_status [OF i assms(1)]
    by (auto simp: blk_status_defs)
qed

theorem bml_status_writes_witness:
  "\<exists>m'. bml_recycled 5 [0x54, 0x51] = Some (False, m') \<and> GET_BM_STATUS m' 5 = Some BLK_RECYCLED \<and> GET_BM_STATUS m' 6 = Some BLK_FREE"
proof -
  have g: "GET_BM_STATUS [0x54, 0x51] 5 = Some 0" "GET_BM_STATUS [0x54, 0x51] 6 = Some BLK_FREE" by code_simp+
  show ?thesis using bml_status_writes [OF g(1), of bml_recycled BLK_RECYCLED] g(2) by auto
qed

text \<open>
  C25. \<open>bml_find_free\<close> is complete and sound: on a map that holds the \<open>n\<close> blocks, from any hint except the one byte
  past the map, it returns a block of the map that is not busy, or \<open>NO_FREE_SPACE\<close> exactly when every block is busy.
\<close>

theorem bml_find_free_correct:
  assumes "0 < n" "map_bytes n \<le> length m" "hint div 4 \<noteq> map_bytes n"
  shows "(\<exists>b < n. bml_find_free hint m n = Some (Some b) \<and> GET_BM_STATUS m b \<noteq> Some BLK_BUSY) \<or>
    (bml_find_free hint m n = Some None \<and> (\<forall>b < n. GET_BM_STATUS m b = Some BLK_BUSY))"
  using bml_find_free_ok [OF assms] status_cases(1) in_map_bound [OF _ assms(2)] by (fastforce split: option.splits)

theorem bml_find_free_correct_witness: "bml_find_free 1 [0, 0x14, 0] 9 = Some (Some 6)"
proof -
  have v: "bml_find_free 1 [0, 0x14, 0] 9 = Some (Some 6)" by code_simp
  show ?thesis using bml_find_free_correct [of 9 "[0, 0x14, 0]" 1] v by auto
qed

lemma bm_find_map:
  assumes "hint < n" "map_bytes n \<le> length m" "\<forall>b < n. GET_BM_STATUS m b \<noteq> Some BLK_MAPINVALID"
  shows "bm_find_blk hint m n = Some (map_option (\<lambda>b. (b, GET_BM_STATUS m b = Some BLK_RECYCLED))
    (find (\<lambda>b. GET_BM_STATUS m b \<noteq> Some BLK_BUSY) [hint..<n]))"
proof -
  note i = in_map_bound [OF _ assms(2)]
  have v: "map_valid m n" using assms(3) status_cases(4) [OF i] by (auto simp: map_valid_def)
  have f: "find (avail m) [hint..<n] = find (\<lambda>b. GET_BM_STATUS m b \<noteq> Some BLK_BUSY) [hint..<n]"
    by (rule find_cong) (use status_cases(1) [OF i] in auto)
  show ?thesis unfolding bm_find_blk_ok [OF assms(1,2) v] first_avail_def f
  proof (rule arg_cong [where f = Some], rule option.map_cong [OF refl])
    fix b assume "b \<in> set_option (find (\<lambda>b. GET_BM_STATUS m b \<noteq> Some BLK_BUSY) [hint..<n])"
    then have "b < n" by (auto simp: find_Some_iff)
    then show "(b, hi_bit m b) = (b, GET_BM_STATUS m b = Some BLK_RECYCLED)"
      using status_cases(3) [OF i] v by (auto simp: map_valid_def)
  qed
qed

text \<open>
  C15. \<open>bm_find_blk\<close> is equal to its specification on a valid map (no block has the status \<open>BLK_MAPINVALID\<close>): the
  first block at or after the hint that is not busy, with \<open>used\<close> set when that block is recycled, and
  \<open>NO_FREE_SPACE\<close> when there is none; the byte masks for the hint and the partial last byte lose no block.
\<close>

theorem bm_find_blk_first:
  assumes "hint < n" "map_bytes n \<le> length m" "\<forall>b < n. GET_BM_STATUS m b \<noteq> Some BLK_MAPINVALID"
  shows "bm_find_blk hint m n = Some (map_option (\<lambda>b. (b, GET_BM_STATUS m b = Some BLK_RECYCLED))
    (find (\<lambda>b. GET_BM_STATUS m b \<noteq> Some BLK_BUSY) [hint..<n]))"
  using assms by (rule bm_find_map)

theorem bm_find_blk_first_witness: "bm_find_blk 2 [0x11, 0x30] 7 = Some (Some (2, False)) \<and> bm_find_blk 3 [0x11, 0x30] 7 = Some (Some (6, True))"
proof -
  have g: "GET_BM_STATUS [0x11, 0x30] 0 = Some 1" "GET_BM_STATUS [0x11, 0x30] 1 = Some 0" "GET_BM_STATUS [0x11, 0x30] 2 = Some 1"
    "GET_BM_STATUS [0x11, 0x30] 3 = Some 0" "GET_BM_STATUS [0x11, 0x30] 4 = Some 0" "GET_BM_STATUS [0x11, 0x30] 5 = Some 0"
    "GET_BM_STATUS [0x11, 0x30] 6 = Some 3" by code_simp+
  have v: "\<forall>b < 7. GET_BM_STATUS [0x11, 0x30] b \<noteq> Some BLK_MAPINVALID"
  proof (intro allI impI)
    fix b :: nat assume "b < 7"
    then have "b = 0 \<or> b = 1 \<or> b = 2 \<or> b = 3 \<or> b = 4 \<or> b = 5 \<or> b = 6" by linarith
    then show "GET_BM_STATUS [0x11, 0x30] b \<noteq> Some BLK_MAPINVALID" using g by (elim disjE) (simp_all add: blk_status_defs)
  qed
  have "[2..<7] = [2, 3, 4, 5, 6::nat]" "[3..<7] = [3, 4, 5, 6::nat]" by code_simp+
  then show ?thesis using bm_find_blk_first [of 2 7 "[0x11, 0x30]"] bm_find_blk_first [of 3 7 "[0x11, 0x30]"] v g by (simp add: blk_status_defs)
qed

lemma put_status_bits:
  fixes p s :: byte
  assumes "sh + 1 < 8"
  shows "bit ((p AND NOT (push_bit sh 0x03)) OR push_bit sh (s AND 0x03)) k \<longleftrightarrow>
    (if k = sh then bit s 0 else if k = sh + 1 then bit s 1 else bit p k)"
proof -
  have 3: "bit (push_bit sh (x AND 3)) k \<longleftrightarrow> (k = sh \<and> bit x 0) \<or> (k = sh + 1 \<and> bit x 1)" for x :: byte
    unfolding bit_push_bit_iff bit_and_iff small_bits using assms by (auto simp: less_imp_le le_Suc_eq dest: byte_bits)
  have "bit (push_bit sh (3::byte)) k \<longleftrightarrow> k = sh \<or> k = sh + 1"
    using 3 [of 3] small_bits(3) by simp
  then show ?thesis unfolding bit_or_iff bit_and_iff bit_not_iff 3 using byte_bits [of p k] by auto
qed

lemma put_both:
  assumes "in_map m b"
    and p: "\<And>k. bit p k \<longleftrightarrow> (if k = 2 * (b mod 4) then l else if k = 2 * (b mod 4) + 1 then h else bit (m ! (b div 4)) k)"
  shows "sets m (m[b div 4 := p]) b l h"
  unfolding sets_def
proof (intro conjI allI)
  fix x
  have odd: "2 * u + 1 \<noteq> 2 * v" "2 * u \<noteq> 2 * v + 1" for u v :: nat by presburger+
  have p0: "bit p (2 * u) = (if u = b mod 4 then l else bit (m ! (b div 4)) (2 * u))" for u
    unfolding p [of "2 * u"] using odd(2) by simp
  have p1: "bit p (2 * u + 1) = (if u = b mod 4 then h else bit (m ! (b div 4)) (2 * u + 1))" for u
    unfolding p [of "2 * u + 1"] using odd(1) by simp
  have at: "x div 4 = b div 4 \<Longrightarrow> x = b \<longleftrightarrow> x mod 4 = b mod 4" using same_blk by blast
  have up: "m[b div 4 := p] ! (x div 4) = (if x div 4 = b div 4 then p else m ! (x div 4))"
    using assms(1) by (simp add: in_map_def nth_list_update)
  show "lo_bit (m[b div 4 := p]) x = (if x = b then l else lo_bit m x)"
    unfolding lo_bit_def up using at p0 [of "x mod 4"] by (cases "x div 4 = b div 4") auto
  show "hi_bit (m[b div 4 := p]) x = (if x = b then h else hi_bit m x)"
    unfolding hi_bit_def up using at p1 [of "x mod 4"] by (cases "x div 4 = b div 4") auto
qed simp

lemma SET_BM_STATUS_sets:
  assumes "in_map m b"
  shows "\<exists>m'. SET_BM_STATUS m b s = Some m' \<and> sets m m' b (bit s 0) (bit s 1)"
proof -
  let ?v = "(m ! (b div 4) AND NOT (push_bit (2 * (b mod 4)) 0x03)) OR push_bit (2 * (b mod 4)) (s AND 0x03)"
  have e: "SET_BM_STATUS m b s = Some (m[b div 4 := ?v])"
    using assms by (simp only: SET_BM_STATUS_def BML_BITS_PER_BLK_def blk_index rdb_def in_map_def if_True bind.bind_lunit Let_def)
  have "sets m (m[b div 4 := ?v]) b (bit s 0) (bit s 1)"
    by (rule put_both [OF assms put_status_bits [OF blk_bit_range(2)]])
  with e show ?thesis by blast
qed

lemma status_of_bits: "of_bool (bit s 0) + 2 * of_bool (bit s 1) = s AND (3::byte)"
  using status_bits [of 0 s] by simp

text \<open>
  \<open>SET_BM_STATUS\<close> and \<open>GET_BM_STATUS\<close> are a store and its read-back: the two low bits of the value stored for a
  block are read back for that block, and the status of every other block is as before.
\<close>

theorem SET_GET_BM_STATUS:
  assumes "in_map m b"
  shows "\<exists>m'. SET_BM_STATUS m b s = Some m' \<and> length m' = length m \<and> GET_BM_STATUS m' b = Some (s AND 3) \<and>
    (\<forall>x. x \<noteq> b \<longrightarrow> GET_BM_STATUS m' x = GET_BM_STATUS m x)"
proof -
  obtain m' where m': "SET_BM_STATUS m b s = Some m'" "sets m m' b (bit s 0) (bit s 1)" using SET_BM_STATUS_sets [OF assms] by blast
  have "GET_BM_STATUS m' x = GET_BM_STATUS m x" if "x \<noteq> b" for x
    using sets_status [OF m'(2) assms, of x] that sets_in_map [OF m'(2), of x] by (cases "in_map m x") (auto simp: not_in_map)
  then show ?thesis using m' sets_status [OF m'(2) assms assms] status_of_bits by (auto simp: sets_def)
qed

theorem SET_GET_BM_STATUS_witness:
  "\<exists>m'. SET_BM_STATUS [0x54, 0x55] 6 BLK_RECYCLED = Some m' \<and> GET_BM_STATUS m' 6 = Some BLK_RECYCLED \<and> GET_BM_STATUS m' 7 = Some BLK_FREE"
proof -
  have g: "in_map [0x54, 0x55] 6" "GET_BM_STATUS [0x54, 0x55] 7 = Some BLK_FREE" "BLK_RECYCLED AND 3 = BLK_RECYCLED" by code_simp+
  show ?thesis using SET_GET_BM_STATUS [OF g(1), of BLK_RECYCLED] g(2,3) by auto
qed

lemma newmap_bytes: "i < n \<Longrightarrow> (THREE_BLKS_FREE # replicate (n - 1) FOUR_BLKS_FREE) ! i = (if i = 0 then THREE_BLKS_FREE else FOUR_BLKS_FREE)"
  by (cases i) auto

lemma newmap_status: "j < 4 \<Longrightarrow> drop_bit (2 * j) FOUR_BLKS_FREE AND 3 = BLK_FREE"
  "j < 4 \<Longrightarrow> drop_bit (2 * j) THREE_BLKS_FREE AND 3 = (if j = 0 then BLK_BUSY else BLK_FREE)" for j :: nat
proof -
  have "\<forall>j < (4::nat). drop_bit (2 * j) FOUR_BLKS_FREE AND 3 = BLK_FREE" unfolding below_four by code_simp
  then show "j < 4 \<Longrightarrow> drop_bit (2 * j) FOUR_BLKS_FREE AND 3 = BLK_FREE" by blast
  have "\<forall>j < (4::nat). drop_bit (2 * j) THREE_BLKS_FREE AND 3 = (if j = 0 then BLK_BUSY else BLK_FREE)" unfolding below_four by code_simp
  then show "j < 4 \<Longrightarrow> drop_bit (2 * j) THREE_BLKS_FREE AND 3 = (if j = 0 then BLK_BUSY else BLK_FREE)" by blast
qed

text \<open>
  A new local bitmap of \<open>bplm\<close> blocks passes \<open>VALIDATE_BM_BLK\<close>, has its own block (the first) busy and every
  other block free.
\<close>

theorem bml_newmap_free:
  assumes "4 dvd bplm" "0 < bplm"
  shows "\<exists>bp. bml_newmap (BM_SIZE bplm) ctn ver = Some bp \<and> VALIDATE_BM_BLK blk bp bplm \<and> tn bp = ctn \<and>
    (\<forall>b < bplm. GET_BM_STATUS (lmap bp) b = Some (if b = 0 then BLK_BUSY else BLK_FREE))"
proof -
  define n where "n = bplm div 4"
  have n: "bplm = 4 * n" "0 < n" using assms by (auto simp: n_def)
  have sz: "BM_SIZE bplm = SIZEOF_blk_hdr + n" by (simp add: BM_SIZE_def BM_MINUS_BLKHDR_SIZE_def BML_BITS_PER_BLK_def n_def)
  let ?m = "THREE_BLKS_FREE # replicate (n - 1) FOUR_BLKS_FREE"
  have "GET_BM_STATUS ?m b = Some (if b = 0 then BLK_BUSY else BLK_FREE)" if "b < bplm" for b
  proof -
    have i: "b div 4 < n" using that n by auto
    have "GET_BM_STATUS ?m b = Some (drop_bit (2 * (b mod 4)) (?m ! (b div 4)) AND 3)"
      using i by (simp add: GET_BM_STATUS_def BML_BITS_PER_BLK_def blk_index rdb_def del: nth_Cons' nth_Cons_0)
    also have "\<dots> = Some (if b = 0 then BLK_BUSY else BLK_FREE)"
      unfolding newmap_bytes [OF i] using newmap_status [of "b mod 4"] same_blk [of b 0] by auto
    finally show ?thesis .
  qed
  then show ?thesis using n sz by (simp add: bml_newmap_def VALIDATE_BM_BLK_def)
qed

theorem bml_newmap_free_witness:
  "\<exists>bp. bml_newmap (BM_SIZE 512) 7 2 = Some bp \<and> VALIDATE_BM_BLK 0 bp 512 \<and> GET_BM_STATUS (lmap bp) 511 = Some BLK_FREE"
  using bml_newmap_free [of 512 7 2 0] by auto

end
