(* ===== verification/BmCommit.thy ===== *)
theory BmCommit
  imports Bitmap
begin

text \<open>
  Committing a change of a local bitmap: the list of block numbers of the cw-set element is applied to the map
  (\<open>gvcst_map_build.c\<close>), then the count of free blocks and the master map follow it (\<open>bm_update\<close> of
  \<open>t_end_sysops.c\<close>).  The state is the part of the segment (file header, node local, bitmap blocks) the
  routines touch (\<open>acc_meth_mm\<close>: the access method is MM, \<open>csa_total_blks\<close>: the process's own copy of the
  file size); \<open>lcl_maps\<close> gives a local bitmap block as \<open>t_qread\<close> returns it, \<open>None\<close> when the read fails.
\<close>

section \<open>State\<close>

datatype inctn_opcode_t = inctn_invalid_op | inctn_gvcstput_extra_blk_split | inctn_mu_reorg | inctn_wcs_recover
  | inctn_gdsfilext_gtm | inctn_gdsfilext_mu_reorg | inctn_db_format_change | inctn_bmp_mark_free_gtm
  | inctn_bmp_mark_free_mu_reorg | inctn_blkmarkfree | inctn_blkupgrd | inctn_blkupgrd_fmtchng | inctn_blkdwngrd
  | inctn_blkdwngrd_fmtchng | inctn_blkreencrypt | inctn_jnlphase2salvage | inctn_opcode_total

text \<open>The messages sent to the operator log.\<close>

datatype bm_msg = ERR_FREEBLKSLOW int nat | ERR_DBBADFREEBLKCTR int int | ERR_DBMBMINCFREFIXED nat

record bm_db =
  bplmap :: nat
  total_blks :: nat
  acc_meth_mm :: bool
  csa_total_blks :: nat
  now_crit :: bool
  free_blocks :: int
  curr_tn :: nat
  master_map :: bytes
  db_got_to_v5_once :: bool
  extension_size :: nat
  blks_to_upgrd :: int
  blks_to_upgrd_subzero_error :: int
  tn_upgrd_blks_0 :: nat
  fully_upgraded :: bool
  trunc_pid :: nat
  highest_lbm_with_busy_blk :: nat
  highest_lbm_blk_changed :: int
  lcl_maps :: "nat \<Rightarrow> bm_blk option"
  msgs :: "bm_msg list"

text \<open>The process-wide variables the routines read.\<close>

record bm_glo =
  mu_reorg_upgrd_dwngrd_in_prog :: bool
  inctn_opcode :: inctn_opcode_t
  inctn_detail_blknum :: nat

text \<open>A cw-set element for a local bitmap; \<open>old_block\<close> is the block it was made from, \<open>new_buff\<close> is present when the block is already built (\<open>done\<close>).\<close>

record cw_set_element =
  cs_blk :: nat
  reference_cnt :: int
  cs_level :: nat
  upd_addr :: "nat list"
  old_block :: bm_blk
  new_buff :: "bm_blk option"

definition CSE_LEVEL_DRT_LVL0_FREE :: nat where "CSE_LEVEL_DRT_LVL0_FREE = 9"

section \<open>Applying the update array (\<open>gvcst_map_build.c\<close>)\<close>

type_synonym bml_func = "nat \<Rightarrow> bytes \<Rightarrow> (bool \<times> bytes) option"

definition DETERMINE_BML_FUNC_COMMON :: "cw_set_element \<Rightarrow> bm_db \<Rightarrow> bml_func" where
  "DETERMINE_BML_FUNC_COMMON cs db =
    (if reference_cnt cs > 0 then bml_busy else if db_got_to_v5_once db then bml_recycled else bml_free)"

definition DETERMINE_BML_FUNC :: "bm_glo \<Rightarrow> cw_set_element \<Rightarrow> bm_db \<Rightarrow> bml_func \<times> cw_set_element \<times> bm_db" where
  "DETERMINE_BML_FUNC g cs db =
    (if trunc_pid db \<noteq> 0 then
       (if reference_cnt cs > 0 then
          (bml_busy, cs, db\<lparr>highest_lbm_with_busy_blk := max (cs_blk cs) (highest_lbm_with_busy_blk db)\<rparr>)
        else if reference_cnt cs < 0 then
          (if db_got_to_v5_once db \<and> CSE_LEVEL_DRT_LVL0_FREE \<noteq> cs_level cs then (bml_recycled, cs, db)
           else (bml_free, cs\<lparr>cs_level := unat LCL_MAP_LEVL\<rparr>, db))
        else (if db_got_to_v5_once db \<and> mu_reorg_upgrd_dwngrd_in_prog g then bml_recycled else bml_free, cs, db))
     else (DETERMINE_BML_FUNC_COMMON cs db, cs, db))"

text \<open>
  The loop over the update array, which a zero ends; reading past the array is \<open>None\<close>.  \<open>actual_cnt\<close> is the
  count of the debug build.
\<close>

fun map_build_loop :: "bml_func \<Rightarrow> int \<Rightarrow> nat list \<Rightarrow> bytes \<Rightarrow> int \<Rightarrow> (int \<times> bytes) option" where
  "map_build_loop bml_func ref_cnt [] m actual_cnt = None"
| "map_build_loop bml_func ref_cnt (bitnum # array) m actual_cnt =
    (if bitnum = 0 then Some (actual_cnt, m)
     else do {
       (ret, m) \<leftarrow> bml_func bitnum m;
       map_build_loop bml_func ref_cnt array m
         (if ref_cnt > 0 then actual_cnt + 1 else if \<not> ret then actual_cnt - 1 else actual_cnt)
     })"

definition gvcst_map_build ::
    "bm_glo \<Rightarrow> nat list \<Rightarrow> bm_blk \<Rightarrow> cw_set_element \<Rightarrow> nat \<Rightarrow> bm_db \<Rightarrow> (int \<times> bm_blk \<times> cw_set_element \<times> bm_db) option" where
  "gvcst_map_build g array bp cs ctn db = do {
     let bp = bp\<lparr>tn := ctn\<rparr>;
     let (bml_func, cs, db) = DETERMINE_BML_FUNC g cs db;
     (actual_cnt, m) \<leftarrow> map_build_loop bml_func (reference_cnt cs) array (lmap bp) 0;
     Some (actual_cnt, bp\<lparr>lmap := m\<rparr>, cs, db)
   }"

section \<open>Counters and master map (\<open>bm_update\<close>)\<close>

definition INCR_BLKS_TO_UPGRD :: "bm_db \<Rightarrow> int \<Rightarrow> bm_db" where
  "INCR_BLKS_TO_UPGRD db cur_delta =
    (let new_blks_to_upgrd = cur_delta + blks_to_upgrd db;
         db = db\<lparr>blks_to_upgrd := new_blks_to_upgrd\<rparr>
     in if 0 \<ge> new_blks_to_upgrd then
          (if 0 = new_blks_to_upgrd then db\<lparr>tn_upgrd_blks_0 := curr_tn db\<rparr>
           else db\<lparr>blks_to_upgrd := 0, blks_to_upgrd_subzero_error := blks_to_upgrd_subzero_error db - new_blks_to_upgrd\<rparr>)
        else db\<lparr>fully_upgraded := False\<rparr>)"

definition DECR_BLKS_TO_UPGRD :: "bm_db \<Rightarrow> int \<Rightarrow> bm_db" where
  "DECR_BLKS_TO_UPGRD db delta = INCR_BLKS_TO_UPGRD db (- delta)"

definition map_size :: "nat \<Rightarrow> nat \<Rightarrow> nat \<Rightarrow> nat" where
  "map_size bpl tot blkid = (if (tot div bpl) * bpl = blkid then tot - blkid else bpl)"

definition bm_update :: "bm_glo \<Rightarrow> cw_set_element \<Rightarrow> bm_blk \<Rightarrow> bm_db \<Rightarrow> bm_db option" where
  "bm_update g cs lclmap db = do {
     let blkid = cs_blk cs;
     let tot = map_size (bplmap db) (total_blks db) blkid;
     let db = db\<lparr>free_blocks := free_blocks db - reference_cnt cs\<rparr>;
     (change_bmm, db) \<leftarrow>
       (if 0 < reference_cnt cs then do {
          bml_full \<leftarrow> bml_find_free 0 (lmap lclmap) tot;
          if bml_full = None then do {
            (old, mm) \<leftarrow> bit_clear (blkid div bplmap db) (master_map db);
            let db = db\<lparr>master_map := mm\<rparr>;
            Some (True,
              if extension_size db = 0 \<and> (int BLKS_PER_LMAP > free_blocks db \<or> int (total_blks db div 32) > free_blocks db)
              then db\<lparr>msgs := msgs db @ [ERR_FREEBLKSLOW (free_blocks db) (total_blks db)]\<rparr> else db)
          } else Some (False, db)
        } else if 0 > reference_cnt cs then do {
          (old, mm) \<leftarrow> bit_set (blkid div bplmap db) (master_map db);
          let db = db\<lparr>master_map := mm\<rparr>;
          Some (\<not> old,
            if inctn_opcode g = inctn_bmp_mark_free_gtm \<or> inctn_opcode g = inctn_bmp_mark_free_mu_reorg
            then (if 0 \<noteq> inctn_detail_blknum g then DECR_BLKS_TO_UPGRD db 1 else db) else db)
        } else Some (False, db));
     Some (if change_bmm \<and> int blkid > highest_lbm_blk_changed db then db\<lparr>highest_lbm_blk_changed := int blkid\<rparr> else db)
   }"

text \<open>
  The \<open>gds_t_writemap\<close> branch of \<open>mm_update\<close> (and of \<open>bg_update_phase1\<close>): build the map in place, or copy the block
  built before, then \<open>bm_update\<close>.
\<close>

definition copy_bm_blk :: "bm_blk \<Rightarrow> bm_blk \<Rightarrow> bm_blk" where
  "copy_bm_blk nb bp = nb\<lparr>lmap := take (bsiz nb - SIZEOF_blk_hdr) (lmap nb) @ drop (bsiz nb - SIZEOF_blk_hdr) (lmap bp)\<rparr>"

definition mm_update_map :: "bm_glo \<Rightarrow> cw_set_element \<Rightarrow> nat \<Rightarrow> bm_db \<Rightarrow> bm_db option" where
  "mm_update_map g cs effective_tn db = do {
     bp \<leftarrow> lcl_maps db (cs_blk cs);
     (bp, cs, db) \<leftarrow>
       (case new_buff cs of
          None \<Rightarrow> do {
            (actual_cnt, bp, cs, db) \<leftarrow> gvcst_map_build g (upd_addr cs) bp cs effective_tn db;
            Some (bp, cs, db)
          }
        | Some nb \<Rightarrow> Some (copy_bm_blk nb bp, cs, db));
     bm_update g cs bp (db\<lparr>lcl_maps := (lcl_maps db)(cs_blk cs \<mapsto> bp)\<rparr>)
   }"

section \<open>The update array applied to a map\<close>

text \<open>All blocks of \<open>xs\<close> have got the bits \<open>l\<close>, \<open>h\<close>, the others are as before.\<close>

definition sets_all :: "bytes \<Rightarrow> bytes \<Rightarrow> nat set \<Rightarrow> bool \<Rightarrow> bool \<Rightarrow> bool" where
  "sets_all m m' X l h \<longleftrightarrow> length m' = length m \<and>
     (\<forall>x. lo_bit m' x = (if x \<in> X then l else lo_bit m x) \<and> hi_bit m' x = (if x \<in> X then h else hi_bit m x))"

lemma sets_all_step: "sets m m1 x l h \<Longrightarrow> sets_all m1 m2 X l h \<Longrightarrow> sets_all m m2 (insert x X) l h"
  by (auto simp: sets_def sets_all_def)

definition cnt_of :: "int \<Rightarrow> bytes \<Rightarrow> nat list \<Rightarrow> int" where
  "cnt_of ref_cnt m xs = (if ref_cnt > 0 then int (length xs) else - int (length (filter (\<lambda>x. \<not> lo_bit m x) xs)))"

context bml_writer
begin

lemma map_build_loop_ok:
  "\<forall>x \<in> set xs. 0 < x \<and> in_map m x \<Longrightarrow> distinct xs \<Longrightarrow>
    \<exists>m'. map_build_loop f ref_cnt (xs @ 0 # r) m c = Some (c + cnt_of ref_cnt m xs, m') \<and> sets_all m m' (set xs) l h"
proof (induction xs arbitrary: m c)
  case Nil
  then show ?case by (simp add: cnt_of_def sets_all_def)
next
  case (Cons x xs)
  obtain m1 where m1: "f x m = Some (lo_bit m x, m1)" "sets m m1 x l h" using writes [of m x] Cons.prems(1) by auto
  have i: "\<forall>y \<in> set xs. 0 < y \<and> in_map m1 y" using Cons.prems(1) sets_in_map [OF m1(2)] by simp
  define c1 where "c1 = (if ref_cnt > 0 then c + 1 else if \<not> lo_bit m x then c - 1 else c)"
  have d: "distinct xs" "x \<notin> set xs" using Cons.prems(2) by auto
  obtain m2 where m2: "map_build_loop f ref_cnt (xs @ 0 # r) m1 c1 = Some (c1 + cnt_of ref_cnt m1 xs, m2)" "sets_all m1 m2 (set xs) l h"
    using Cons.IH [OF i d(1)] by blast
  have "filter (\<lambda>y. \<not> lo_bit m1 y) xs = filter (\<lambda>y. \<not> lo_bit m y) xs"
    by (rule filter_cong [OF refl]) (use m1(2) d(2) in \<open>auto simp: sets_def\<close>)
  then have "c1 + cnt_of ref_cnt m1 xs = c + cnt_of ref_cnt m (x # xs)" by (simp add: c1_def cnt_of_def)
  moreover have "x \<noteq> 0" using Cons.prems(1) by simp
  ultimately show ?case using m1 m2 sets_all_step [OF m1(2) m2(2)] by (simp add: c1_def [symmetric])
qed

end

section \<open>The master map\<close>

definition mbit :: "bytes \<Rightarrow> nat \<Rightarrow> bool" where
  "mbit m i = bit (m ! (i div 8)) (i mod 8)"

lemma same_bit: "j div 8 = i div 8 \<Longrightarrow> j mod 8 = i mod 8 \<Longrightarrow> j = i" for i j :: nat
  by (metis div_mult_mod_eq)

lemma bit_set_mbit:
  assumes "i div 8 < length m"
  shows "\<exists>m'. bit_set i m = Some (mbit m i, m') \<and> length m' = length m \<and> (\<forall>j. mbit m' j \<longleftrightarrow> j = i \<or> mbit m j)"
  using assms same_bit [of _ i] unfolding bit_set_ok [OF assms] mbit_def by (auto simp: nth_list_update byte_or_mask)

lemma bit_clear_mbit:
  assumes "i div 8 < length m"
  shows "\<exists>m'. bit_clear i m = Some (mbit m i, m') \<and> length m' = length m \<and> (\<forall>j. mbit m' j \<longleftrightarrow> j \<noteq> i \<and> mbit m j)"
  using assms same_bit [of _ i] unfolding bit_clear_ok [OF assms] mbit_def by (auto simp: nth_list_update byte_clear_mask)

section \<open>Consistency of the maps and the free count\<close>

definition n_maps :: "bm_db \<Rightarrow> nat" where
  "n_maps db = DIVIDE_ROUND_UP (total_blks db) (bplmap db)"

definition size_of_map :: "bm_db \<Rightarrow> nat \<Rightarrow> nat" where
  "size_of_map db i = map_size (bplmap db) (total_blks db) (i * bplmap db)"

definition free_in :: "bytes \<Rightarrow> nat \<Rightarrow> nat" where
  "free_in m n = length (filter (\<lambda>b. GET_BM_STATUS m b \<noteq> Some BLK_BUSY) [0..<n])"

definition map_ok :: "bm_db \<Rightarrow> nat \<Rightarrow> bm_blk \<Rightarrow> bool" where
  "map_ok db i bp \<longleftrightarrow> map_bytes (bplmap db) \<le> length (lmap bp) \<and>
     (\<forall>b < size_of_map db i. GET_BM_STATUS (lmap bp) b \<noteq> Some BLK_MAPINVALID) \<and>
     (mbit (master_map db) i \<longleftrightarrow> 0 < free_in (lmap bp) (size_of_map db i))"

definition free_at :: "bm_db \<Rightarrow> nat \<Rightarrow> nat" where
  "free_at db i = (case lcl_maps db (i * bplmap db) of Some bp \<Rightarrow> free_in (lmap bp) (size_of_map db i) | None \<Rightarrow> 0)"

text \<open>
  Every local map can be read, is valid, and has its bit in the master map exactly when it has a block that is
  not busy; the count of free blocks in the file header is the number of blocks that are not busy.
\<close>

definition bm_consistent :: "bm_db \<Rightarrow> bool" where
  "bm_consistent db \<longleftrightarrow> 0 < bplmap db \<and> 0 < total_blks db \<and> n_maps db \<le> 8 * length (master_map db) \<and>
     (\<forall>i < n_maps db. \<exists>bp. lcl_maps db (i * bplmap db) = Some bp \<and> map_ok db i bp) \<and>
     free_blocks db = (\<Sum>i < n_maps db. int (free_at db i))"

lemma size_of_map_bounds:
  assumes "0 < bplmap db" "i < n_maps db"
  shows "0 < size_of_map db i" "size_of_map db i \<le> bplmap db"
proof -
  let ?b = "bplmap db" and ?t = "total_blks db"
  have "i < (?t + (?b - 1)) div ?b" using assms(2) by (simp add: n_maps_def DIVIDE_ROUND_UP_def)
  then have "(i + 1) * ?b \<le> ?t + (?b - 1)" by (simp add: less_eq_div_iff_mult_less_eq [OF assms(1)] Suc_le_eq [symmetric])
  then have "i * ?b < ?t" using assms(1) by (simp add: algebra_simps)
  moreover have "?t div ?b * ?b = i * ?b \<Longrightarrow> ?t - i * ?b < ?b"
    using div_mult_mod_eq [of ?t ?b] mod_less_divisor [OF assms(1), of ?t] by linarith
  ultimately show "0 < size_of_map db i" "size_of_map db i \<le> ?b" using assms(1) by (auto simp: size_of_map_def map_size_def)
qed

lemma map_in: "map_bytes bpl \<le> length m \<Longrightarrow> n \<le> bpl \<Longrightarrow> b < n \<Longrightarrow> in_map m b"
  by (rule in_map_bound [of b bpl]) auto

lemma map_bytes_mono: "n \<le> k \<Longrightarrow> map_bytes n \<le> map_bytes k"
  by (rule div_le_mono) simp

text \<open>Blocks that are not busy, as a set.\<close>

abbreviation avail_blks :: "bytes \<Rightarrow> nat \<Rightarrow> nat set" where
  "avail_blks m n \<equiv> {b. b < n \<and> avail m b}"

lemma free_in_card:
  assumes "\<And>b. b < n \<Longrightarrow> in_map m b"
  shows "free_in m n = card (avail_blks m n)"
proof -
  have "set (filter (\<lambda>b. GET_BM_STATUS m b \<noteq> Some BLK_BUSY) [0..<n]) = avail_blks m n"
    using status_cases(1) [OF assms] by auto
  then show ?thesis unfolding free_in_def using distinct_card [of "filter (\<lambda>b. GET_BM_STATUS m b \<noteq> Some BLK_BUSY) [0..<n]"] by simp
qed

text \<open>The effect of the update array on the number of blocks that are not busy.\<close>

lemma free_after_busy:
  assumes i: "\<And>b. b < n \<Longrightarrow> in_map m b" and s: "sets_all m m' (set xs) False False"
    and xs: "distinct xs" "set xs \<subseteq> avail_blks m n"
  shows "int (free_in m' n) = int (free_in m n) - int (length xs)"
proof -
  have i': "\<And>b. b < n \<Longrightarrow> in_map m' b" using i s by (simp add: in_map_def sets_all_def)
  have "avail_blks m' n = avail_blks m n - set xs" using s by (auto simp: avail_def sets_all_def split: if_splits)
  then have "card (avail_blks m' n) = card (avail_blks m n) - length xs"
    using card_Diff_subset [OF _ xs(2)] distinct_card [OF xs(1)] by simp
  moreover have "length xs \<le> card (avail_blks m n)" using card_mono [OF _ xs(2)] distinct_card [OF xs(1)] by simp
  ultimately show ?thesis using free_in_card [of n m] free_in_card [of n m'] i i' by simp
qed

lemma free_after_free:
  assumes i: "\<And>b. b < n \<Longrightarrow> in_map m b" and s: "sets_all m m' (set xs) True h"
    and xs: "distinct xs" "\<forall>x \<in> set xs. x < n" and v: "map_valid m n"
  shows "int (free_in m' n) = int (free_in m n) + int (length (filter (\<lambda>x. \<not> lo_bit m x) xs))"
proof -
  have i': "\<And>b. b < n \<Longrightarrow> in_map m' b" using i s by (simp add: in_map_def sets_all_def)
  let ?B = "set (filter (\<lambda>x. \<not> lo_bit m x) xs)"
  have "avail_blks m' n = avail_blks m n \<union> ?B" using s xs(2) v by (auto simp: avail_def sets_all_def map_valid_def split: if_splits)
  moreover have "avail_blks m n \<inter> ?B = {}" using v xs(2) by (auto simp: avail_def map_valid_def)
  ultimately have "card (avail_blks m' n) = card (avail_blks m n) + card ?B"
    using card_Un_disjoint [of "avail_blks m n" ?B] by simp
  moreover have "card ?B = length (filter (\<lambda>x. \<not> lo_bit m x) xs)" by (rule distinct_card) (simp add: xs(1))
  ultimately show ?thesis using free_in_card [of n m] free_in_card [of n m'] i i' by simp
qed

lemma sets_all_valid: "sets_all m m' X l h \<Longrightarrow> (h \<longrightarrow> l) \<Longrightarrow> map_valid m n \<Longrightarrow> map_valid m' n"
  by (auto simp: sets_all_def map_valid_def)

lemma map_valid_status:
  assumes "\<And>b. b < n \<Longrightarrow> in_map m b"
  shows "map_valid m n \<longleftrightarrow> (\<forall>b < n. GET_BM_STATUS m b \<noteq> Some BLK_MAPINVALID)"
  using status_cases(4) [OF assms] by (auto simp: map_valid_def)

lemma sum_change:
  fixes f f' :: "nat \<Rightarrow> int"
  assumes "i < n" "\<And>j. j < n \<Longrightarrow> j \<noteq> i \<Longrightarrow> f' j = f j"
  shows "(\<Sum>j < n. f' j) = (\<Sum>j < n. f j) - f i + f' i"
proof -
  have "(\<Sum>j \<in> {..<n} - {i}. f' j) = (\<Sum>j \<in> {..<n} - {i}. f j)" by (rule sum.cong) (use assms(2) in auto)
  then show ?thesis using sum.remove [of "{..<n}" i f] sum.remove [of "{..<n}" i f'] assms(1) by simp
qed

text \<open>A state in which one local map, its master bit and the count have changed together.\<close>

lemma consistent_step:
  assumes c: "bm_consistent db" and i: "i < n_maps db" and bp: "lcl_maps db (i * bplmap db) = Some bp"
    and len: "length (lmap bp') = length (lmap bp)" and v: "map_valid (lmap bp') (size_of_map db i)"
    and mm: "length mm' = length (master_map db)"
      "\<And>j. mbit mm' j \<longleftrightarrow> (if j = i then 0 < free_in (lmap bp') (size_of_map db i) else mbit (master_map db) j)"
    and db': "bplmap db' = bplmap db" "total_blks db' = total_blks db" "master_map db' = mm'"
      "lcl_maps db' = (lcl_maps db)(i * bplmap db \<mapsto> bp')"
      "free_blocks db' = free_blocks db - int (free_in (lmap bp) (size_of_map db i)) + int (free_in (lmap bp') (size_of_map db i))"
  shows "bm_consistent db'"
proof -
  have b: "0 < bplmap db" using c by (simp add: bm_consistent_def)
  have same: "n_maps db' = n_maps db" "size_of_map db' j = size_of_map db j" for j
    by (simp_all add: n_maps_def size_of_map_def db')
  have key: "j * bplmap db = i * bplmap db \<longleftrightarrow> j = i" for j using b by simp
  have in_m: "\<And>x. x < size_of_map db i \<Longrightarrow> in_map (lmap bp') x"
  proof -
    fix x assume "x < size_of_map db i"
    moreover have "map_bytes (bplmap db) \<le> length (lmap bp')" using c i bp len by (auto simp: bm_consistent_def map_ok_def)
    ultimately show "in_map (lmap bp') x" using map_in size_of_map_bounds(2) [OF b i] by blast
  qed
  have "\<exists>bq. lcl_maps db' (j * bplmap db') = Some bq \<and> map_ok db' j bq" if j: "j < n_maps db" for j
  proof (cases "j = i")
    case True
    have "map_bytes (bplmap db) \<le> length (lmap bp')" using c i bp len by (auto simp: bm_consistent_def map_ok_def)
    then have "map_ok db' i bp'" using v mm(2) map_valid_status [OF in_m] unfolding map_ok_def same db' by simp
    then show ?thesis using True by (simp add: db' key)
  next
    case False
    obtain bq where "lcl_maps db (j * bplmap db) = Some bq" "map_ok db j bq" using c j unfolding bm_consistent_def by blast
    then have "map_ok db' j bq" using mm(2) [of j] False unfolding map_ok_def same db' by simp
    then show ?thesis using \<open>lcl_maps db (j * bplmap db) = Some bq\<close> False key unfolding db' by auto
  qed
  moreover have "free_blocks db' = (\<Sum>j < n_maps db. int (free_at db' j))"
  proof -
    have "free_at db' j = free_at db j" if "j \<noteq> i" for j using that b unfolding free_at_def same db' by simp
    then have "(\<Sum>j < n_maps db. int (free_at db' j)) = (\<Sum>j < n_maps db. int (free_at db j)) - int (free_at db i) + int (free_at db' i)"
      by (intro sum_change [OF i]) simp
    moreover have "free_at db i = free_in (lmap bp) (size_of_map db i)" "free_at db' i = free_in (lmap bp') (size_of_map db i)"
      using bp unfolding free_at_def same db' by simp_all
    ultimately show ?thesis using c by (simp add: db' bm_consistent_def)
  qed
  ultimately show ?thesis using c mm(1) unfolding bm_consistent_def same db' by simp
qed

section \<open>Commits keep the maps consistent\<close>

text \<open>
  What the assertions of \<open>gvcst_map_build\<close> and \<open>bml_busy\<close> ask of an element: it names a local map of the file, the array
  is ascending, within the map and ends with zero, blocks to be marked busy are not busy and as many as the
  reference count, and otherwise the count is minus the number of busy blocks of the array.
\<close>

definition bitnums :: "cw_set_element \<Rightarrow> nat list" where
  "bitnums cs = takeWhile (\<lambda>x. x \<noteq> 0) (upd_addr cs)"

definition valid_update :: "bm_db \<Rightarrow> cw_set_element \<Rightarrow> bool" where
  "valid_update db cs \<longleftrightarrow> bplmap db dvd cs_blk cs \<and> cs_blk cs < total_blks db \<and> 0 \<in> set (upd_addr cs) \<and>
     sorted_wrt (<) (bitnums cs) \<and> (\<forall>x \<in> set (bitnums cs). x < map_size (bplmap db) (total_blks db) (cs_blk cs)) \<and>
     (case lcl_maps db (cs_blk cs) of None \<Rightarrow> False
      | Some bp \<Rightarrow> if 0 < reference_cnt cs
          then (\<forall>x \<in> set (bitnums cs). GET_BM_STATUS (lmap bp) x \<noteq> Some BLK_BUSY) \<and> reference_cnt cs = int (length (bitnums cs))
          else reference_cnt cs = - int (length (filter (\<lambda>x. GET_BM_STATUS (lmap bp) x = Some BLK_BUSY) (bitnums cs))))"

lemma array_split: "0 \<in> set (upd_addr cs) \<Longrightarrow> \<exists>r. upd_addr cs = bitnums cs @ 0 # r"
proof -
  assume "0 \<in> set (upd_addr cs)"
  then have "dropWhile (\<lambda>x. x \<noteq> 0) (upd_addr cs) \<noteq> []" by (auto simp: dropWhile_eq_Nil_conv)
  moreover from this have "hd (dropWhile (\<lambda>x. x \<noteq> 0) (upd_addr cs)) = 0" using hd_dropWhile by blast
  ultimately have "upd_addr cs = bitnums cs @ 0 # tl (dropWhile (\<lambda>x. x \<noteq> 0) (upd_addr cs))"
    unfolding bitnums_def by (metis list.collapse takeWhile_dropWhile_id)
  then show ?thesis by blast
qed

lemma DETERMINE_facts:
  "0 < reference_cnt cs \<Longrightarrow> fst (DETERMINE_BML_FUNC g cs db) = bml_busy"
  "\<not> 0 < reference_cnt cs \<Longrightarrow> fst (DETERMINE_BML_FUNC g cs db) = bml_free \<or> fst (DETERMINE_BML_FUNC g cs db) = bml_recycled"
  "cs_blk (fst (snd (DETERMINE_BML_FUNC g cs db))) = cs_blk cs"
  "reference_cnt (fst (snd (DETERMINE_BML_FUNC g cs db))) = reference_cnt cs"
  by (simp_all add: DETERMINE_BML_FUNC_def DETERMINE_BML_FUNC_COMMON_def)

text \<open>The parts of the state that neither \<open>DETERMINE_BML_FUNC\<close> nor the counters of \<open>bm_update\<close> change.\<close>

definition same_maps :: "bm_db \<Rightarrow> bm_db \<Rightarrow> bool" where
  "same_maps db db' \<longleftrightarrow> bplmap db' = bplmap db \<and> total_blks db' = total_blks db \<and> lcl_maps db' = lcl_maps db \<and>
     master_map db' = master_map db \<and> free_blocks db' = free_blocks db"

lemma DETERMINE_maps: "same_maps db (snd (snd (DETERMINE_BML_FUNC g cs db)))"
  by (simp add: DETERMINE_BML_FUNC_def same_maps_def)

lemma DECR_maps: "same_maps db (DECR_BLKS_TO_UPGRD db d)"
  by (simp add: DECR_BLKS_TO_UPGRD_def INCR_BLKS_TO_UPGRD_def same_maps_def Let_def)

lemma gvcst_map_build_ok:
  assumes "map_bytes (map_size (bplmap db) (total_blks db) (cs_blk cs)) \<le> length (lmap bp)"
    and u: "0 \<in> set (upd_addr cs)" "sorted_wrt (<) (bitnums cs)"
      "\<forall>x \<in> set (bitnums cs). x < map_size (bplmap db) (total_blks db) (cs_blk cs)"
  shows "\<exists>m' cs' db' h. gvcst_map_build g (upd_addr cs) bp cs ctn db =
      Some (cnt_of (reference_cnt cs) (lmap bp) (bitnums cs), bp\<lparr>tn := ctn, lmap := m'\<rparr>, cs', db') \<and>
    cs_blk cs' = cs_blk cs \<and> reference_cnt cs' = reference_cnt cs \<and> same_maps db db' \<and>
    sets_all (lmap bp) m' (set (bitnums cs)) (\<not> 0 < reference_cnt cs) h \<and> (0 < reference_cnt cs \<longrightarrow> \<not> h)"
proof -
  obtain f cs' db' where D: "DETERMINE_BML_FUNC g cs db = (f, cs', db')" by (cases "DETERMINE_BML_FUNC g cs db")
  note facts = DETERMINE_facts [where cs = cs and g = g and db = db] DETERMINE_maps [of db g cs]
  obtain r where r: "upd_addr cs = bitnums cs @ 0 # r" using array_split [OF u(1)] by blast
  have i: "\<forall>x \<in> set (bitnums cs). 0 < x \<and> in_map (lmap bp) x"
    using u(3) in_map_bound [OF _ assms(1)] set_takeWhileD unfolding bitnums_def by fastforce
  have d: "distinct (bitnums cs)" using u(2) strict_sorted_iff by blast
  define rc where "rc = reference_cnt cs"
  have "\<exists>m' h. map_build_loop f rc (bitnums cs @ 0 # r) (lmap bp) 0 = Some (cnt_of rc (lmap bp) (bitnums cs), m') \<and>
      sets_all (lmap bp) m' (set (bitnums cs)) (\<not> 0 < rc) h \<and> (0 < rc \<longrightarrow> \<not> h)"
  proof (cases "0 < rc")
    case True
    then have "f = bml_busy" using D facts by (simp add: rc_def)
    then show ?thesis using Busy.map_build_loop_ok [OF i d, of rc r 0] True by auto
  next
    case False
    then have "f = bml_free \<or> f = bml_recycled" using D facts by (simp add: rc_def)
    then show ?thesis
      using Free.map_build_loop_ok [OF i d, of rc r 0] Recycled.map_build_loop_ok [OF i d, of rc r 0] False by auto
  qed
  then obtain m' h where m': "map_build_loop f rc (bitnums cs @ 0 # r) (lmap bp) 0 = Some (cnt_of rc (lmap bp) (bitnums cs), m')"
    "sets_all (lmap bp) m' (set (bitnums cs)) (\<not> 0 < rc) h" "0 < rc \<longrightarrow> \<not> h" by blast
  have "gvcst_map_build g (upd_addr cs) bp cs ctn db = Some (cnt_of rc (lmap bp) (bitnums cs), bp\<lparr>tn := ctn, lmap := m'\<rparr>, cs', db')"
    unfolding gvcst_map_build_def r using D facts(4) m'(1) by (simp add: rc_def)
  then show ?thesis using D facts(3-5) m'(2,3) unfolding rc_def by auto
qed

text \<open>\<open>bm_update\<close> moves the count and the master bit with the map.\<close>

lemma bm_update_ok:
  assumes i: "cs_blk cs div bplmap db = i" "i div 8 < length (master_map db)"
    and n: "map_size (bplmap db) (total_blks db) (cs_blk cs) = n" "0 < n" "map_bytes n \<le> length (lmap bp)"
    and pos: "0 < reference_cnt cs \<Longrightarrow> mbit (master_map db) i"
    and neg: "reference_cnt cs < 0 \<Longrightarrow> 0 < free_in (lmap bp) n"
    and zero: "reference_cnt cs = 0 \<Longrightarrow> mbit (master_map db) i \<longleftrightarrow> 0 < free_in (lmap bp) n"
  shows "\<exists>db'. bm_update g cs bp db = Some db' \<and> bplmap db' = bplmap db \<and> total_blks db' = total_blks db \<and>
    lcl_maps db' = lcl_maps db \<and> free_blocks db' = free_blocks db - reference_cnt cs \<and>
    length (master_map db') = length (master_map db) \<and>
    (\<forall>j. mbit (master_map db') j \<longleftrightarrow> (if j = i then 0 < free_in (lmap bp) n else mbit (master_map db) j))"
proof -
  have im: "\<And>b. b < n \<Longrightarrow> in_map (lmap bp) b" using in_map_bound n(3) by blast
  have fr: "0 < free_in (lmap bp) n \<longleftrightarrow> (\<exists>b < n. avail (lmap bp) b)"
    using free_in_card [of n "lmap bp"] im by (auto simp: card_gt_0_iff)
  obtain r where r: "bml_find_free 0 (lmap bp) n = Some r" "(r = None) \<longleftrightarrow> \<not> 0 < free_in (lmap bp) n"
  proof -
    have "0 div 4 \<noteq> map_bytes n" using n(2) by simp
    from bml_find_free_ok [OF n(2,3) this] obtain r where "bml_find_free 0 (lmap bp) n = Some r"
      "case r of Some b \<Rightarrow> b < n \<and> avail (lmap bp) b | None \<Rightarrow> \<forall>b < n. \<not> avail (lmap bp) b" by blast
    then show ?thesis using fr that by (cases r) auto
  qed
  obtain ms where ms: "bit_set i (master_map db) = Some (mbit (master_map db) i, ms)" "length ms = length (master_map db)"
    "\<And>j. mbit ms j \<longleftrightarrow> j = i \<or> mbit (master_map db) j" using bit_set_mbit [OF i(2)] by blast
  obtain mc where mc: "bit_clear i (master_map db) = Some (mbit (master_map db) i, mc)" "length mc = length (master_map db)"
    "\<And>j. mbit mc j \<longleftrightarrow> j \<noteq> i \<and> mbit (master_map db) j" using bit_clear_mbit [OF i(2)] by blast
  consider "0 < reference_cnt cs" "r = None" | "0 < reference_cnt cs" "r \<noteq> None" | "reference_cnt cs < 0" | "reference_cnt cs = 0" by linarith
  then show ?thesis
  proof cases
    case 1 then show ?thesis using r mc i n unfolding bm_update_def Let_def by simp
  next
    case 2 then show ?thesis using r pos i n unfolding bm_update_def Let_def by auto
  next
    case 3
    then show ?thesis using ms neg i n DECR_maps unfolding bm_update_def Let_def by (auto simp: same_maps_def)
  next
    case 4 then show ?thesis using zero i n unfolding bm_update_def Let_def by auto
  qed
qed

text \<open>The bit test of \<open>gvcst_map_build\<close> and the status test agree on a valid map.\<close>

lemma busy_lo:
  assumes "in_map m x" "x < n" "map_valid m n"
  shows "GET_BM_STATUS m x = Some BLK_BUSY \<longleftrightarrow> \<not> lo_bit m x"
  using status_cases(1) [OF assms(1)] assms(2,3) by (auto simp: avail_def map_valid_def)

lemma map_of_block:
  assumes "0 < bplmap db" "bplmap db dvd blk" "blk < total_blks db"
  shows "blk div bplmap db < n_maps db" "blk div bplmap db * bplmap db = blk"
proof -
  show e: "blk div bplmap db * bplmap db = blk" using assms(2) by simp
  have "blk div bplmap db + 1 \<le> (total_blks db + (bplmap db - 1)) div bplmap db"
    using assms(1,3) e by (simp only: less_eq_div_iff_mult_less_eq [OF assms(1)] add_mult_distrib)
  then show "blk div bplmap db < n_maps db" by (simp add: n_maps_def DIVIDE_ROUND_UP_def)
qed

lemma sets_all_status:
  assumes "sets_all m m' X l h" "X \<subseteq> {x. in_map m x}"
  shows "GET_BM_STATUS m' x = (if x \<in> X then Some (of_bool l + 2 * of_bool h) else GET_BM_STATUS m x)"
proof -
  have "in_map m' x = in_map m x" using assms(1) by (simp add: sets_all_def in_map_def)
  then show ?thesis using assms by (cases "in_map m x") (auto simp: sets_all_def GET_BM_STATUS_bits not_in_map)
qed

lemma update_free_count:
  assumes im: "\<And>x. x < n \<Longrightarrow> in_map m x" and v: "map_valid m n" and xs: "distinct xs" "\<forall>x \<in> set xs. x < n"
    and B: "sets_all m m' (set xs) (\<not> 0 < rc) h" "0 < rc \<longrightarrow> \<not> h"
    and pos: "0 < rc \<Longrightarrow> (\<forall>x \<in> set xs. GET_BM_STATUS m x \<noteq> Some BLK_BUSY) \<and> rc = int (length xs)"
    and neg: "\<not> 0 < rc \<Longrightarrow> rc = - int (length (filter (\<lambda>x. GET_BM_STATUS m x = Some BLK_BUSY) xs))"
  shows "int (free_in m' n) = int (free_in m n) - rc"
proof -
  have busy: "GET_BM_STATUS m x = Some BLK_BUSY \<longleftrightarrow> \<not> lo_bit m x" if "x < n" for x
    using busy_lo [OF im [OF that] that v] .
  show ?thesis
  proof (cases "0 < rc")
    case True
    have "set xs \<subseteq> avail_blks m n" using pos [OF True] xs(2) busy by (auto simp: avail_def)
    then show ?thesis using free_after_busy [of n m m' xs] im B True xs(1) pos [OF True] by simp
  next
    case False
    have "filter (\<lambda>x. GET_BM_STATUS m x = Some BLK_BUSY) xs = filter (\<lambda>x. \<not> lo_bit m x) xs"
      by (rule filter_cong [OF refl]) (use busy xs(2) in auto)
    then show ?thesis using free_after_free [of n m m' xs h] im B(1) False xs v neg [OF False] by simp
  qed
qed

lemma mm_update_map_ok:
  assumes c: "bm_consistent db" and u: "valid_update db cs" and nb: "new_buff cs = None"
  shows "\<exists>db' bp bp'. mm_update_map g cs ctn db = Some db' \<and> bm_consistent db' \<and>
    lcl_maps db (cs_blk cs) = Some bp \<and> lcl_maps db' = (lcl_maps db)(cs_blk cs \<mapsto> bp') \<and> tn bp' = ctn \<and>
    (\<forall>x. (x \<in> set (bitnums cs) \<longrightarrow> (GET_BM_STATUS (lmap bp') x = Some BLK_BUSY \<longleftrightarrow> 0 < reference_cnt cs)) \<and>
         (x \<notin> set (bitnums cs) \<longrightarrow> GET_BM_STATUS (lmap bp') x = GET_BM_STATUS (lmap bp) x))"
proof -
  define i n rc xs where "i = cs_blk cs div bplmap db" and "n = size_of_map db i" and "rc = reference_cnt cs" and "xs = bitnums cs"
  have b: "0 < bplmap db" using c by (simp add: bm_consistent_def)
  have i: "i < n_maps db" "i * bplmap db = cs_blk cs"
    using map_of_block [OF b] u by (auto simp: valid_update_def i_def)
  obtain bp where bp: "lcl_maps db (i * bplmap db) = Some bp" "map_ok db i bp" using c i unfolding bm_consistent_def by blast
  have n: "map_size (bplmap db) (total_blks db) (cs_blk cs) = n" "0 < n" "n \<le> bplmap db"
    using size_of_map_bounds [OF b i(1)] i(2) by (simp_all add: n_def size_of_map_def)
  have len: "map_bytes n \<le> length (lmap bp)" using bp(2) map_bytes_mono [OF n(3)] by (simp add: map_ok_def)
  have im: "\<And>x. x < n \<Longrightarrow> in_map (lmap bp) x" using in_map_bound len by blast
  have v: "map_valid (lmap bp) n" using bp(2) map_valid_status [OF im] by (simp add: map_ok_def n_def)
  have xs: "sorted_wrt (<) xs" "distinct xs" "\<forall>x \<in> set xs. x < n"
    using u n(1) strict_sorted_iff by (auto simp: valid_update_def xs_def)
  obtain m' cs' db1 h where B: "gvcst_map_build g (upd_addr cs) bp cs ctn db = Some (cnt_of rc (lmap bp) xs, bp\<lparr>tn := ctn, lmap := m'\<rparr>, cs', db1)"
    "cs_blk cs' = cs_blk cs" "reference_cnt cs' = rc" "same_maps db db1" "sets_all (lmap bp) m' (set xs) (\<not> 0 < rc) h" "0 < rc \<longrightarrow> \<not> h"
    using gvcst_map_build_ok [of db cs bp g ctn] u len unfolding n(1) valid_update_def rc_def xs_def by blast
  define bp' where "bp' = bp\<lparr>tn := ctn, lmap := m'\<rparr>"
  define db2 where "db2 = db1\<lparr>lcl_maps := (lcl_maps db1)(cs_blk cs \<mapsto> bp')\<rparr>"
  have l': "length m' = length (lmap bp)" using B(5) by (simp add: sets_all_def)
  have free: "int (free_in m' n) = int (free_in (lmap bp) n) - rc"
    by (rule update_free_count [OF im v xs(2,3) B(5,6)]) (use u bp(1) i(2) in \<open>auto simp: valid_update_def xs_def rc_def\<close>)
  then have pos: "0 < rc \<Longrightarrow> 0 < free_in (lmap bp) n" and neg: "rc < 0 \<Longrightarrow> 0 < free_in m' n" by linarith+
  have mb: "mbit (master_map db) i \<longleftrightarrow> 0 < free_in (lmap bp) n" using bp(2) by (simp add: map_ok_def n_def)
  have i8: "i div 8 < length (master_map db)" using c i(1) by (auto simp: bm_consistent_def)
  have s2: "bplmap db2 = bplmap db" "total_blks db2 = total_blks db" "master_map db2 = master_map db" "free_blocks db2 = free_blocks db"
    "lcl_maps db2 = (lcl_maps db)(cs_blk cs \<mapsto> bp')" using B(4) by (auto simp: db2_def same_maps_def)
  have "\<exists>db'. bm_update g cs' bp' db2 = Some db' \<and> bplmap db' = bplmap db2 \<and> total_blks db' = total_blks db2 \<and>
    lcl_maps db' = lcl_maps db2 \<and> free_blocks db' = free_blocks db2 - reference_cnt cs' \<and>
    length (master_map db') = length (master_map db2) \<and>
    (\<forall>j. mbit (master_map db') j \<longleftrightarrow> (if j = i then 0 < free_in (lmap bp') n else mbit (master_map db2) j))"
    by (rule bm_update_ok) (use s2 B(2,3) n i8 len l' pos neg mb free in \<open>auto simp: i_def bp'_def\<close>)
  then obtain db' where D: "bm_update g cs' bp' db2 = Some db'" "bplmap db' = bplmap db" "total_blks db' = total_blks db"
    "lcl_maps db' = (lcl_maps db)(cs_blk cs \<mapsto> bp')" "free_blocks db' = free_blocks db - rc" "length (master_map db') = length (master_map db)"
    "\<And>j. mbit (master_map db') j \<longleftrightarrow> (if j = i then 0 < free_in m' n else mbit (master_map db) j)"
    using s2 B(3) by (auto simp: bp'_def)
  have run: "mm_update_map g cs ctn db = Some db'"
    unfolding mm_update_map_def using bp(1) i(2) nb B(1,2) D(1) by (simp add: bp'_def db2_def)
  have "bm_consistent db'"
    by (rule consistent_step [OF c i(1) bp(1), of bp' "master_map db'"])
      (use l' sets_all_valid [OF B(5) _ v] B(6) D free i(2) in \<open>auto simp: bp'_def n_def\<close>)
  moreover have "GET_BM_STATUS m' x = (if x \<in> set xs then Some (of_bool (\<not> 0 < rc) + 2 * of_bool h) else GET_BM_STATUS (lmap bp) x)" for x
    using sets_all_status [OF B(5)] xs(3) im by blast
  ultimately show ?thesis using run bp(1) i(2) D(4) B(6)
    by (intro exI [of _ db'] exI [of _ bp] exI [of _ bp']) (auto simp: bp'_def xs_def rc_def blk_status_defs)
qed

text \<open>An element built in advance (journaling, \<open>bm_setmap.c\<close>) commits the same state as one built in place.\<close>

lemma prebuilt_same:
  assumes "lcl_maps db (cs_blk cs) = Some bp" "trunc_pid db = 0" "new_buff cs = None"
    and "gvcst_map_build g (upd_addr cs) bp cs ctn db = Some (cnt, nb, cs', db')"
    and "bsiz nb = SIZEOF_blk_hdr + length (lmap nb)" "length (lmap nb) = length (lmap bp)"
  shows "mm_update_map g (cs\<lparr>new_buff := Some nb\<rparr>) ctn db = mm_update_map g cs ctn db"
proof -
  have "DETERMINE_BML_FUNC g cs db = (DETERMINE_BML_FUNC_COMMON cs db, cs, db)" using assms(2) by (simp add: DETERMINE_BML_FUNC_def)
  then have same: "cs' = cs" "db' = db" using assms(4) by (auto simp: gvcst_map_build_def split: Option.bind_splits)
  have "copy_bm_blk nb bp = nb" using assms(5,6) by (simp add: copy_bm_blk_def)
  moreover have "bm_update g (cs\<lparr>new_buff := Some nb\<rparr>) bq d = bm_update g cs bq d" for bq d by (simp add: bm_update_def Let_def)
  ultimately show ?thesis using assms same by (simp add: mm_update_map_def)
qed

section \<open>Sequences of commits\<close>

inductive bm_reach :: "bm_glo \<Rightarrow> bm_db \<Rightarrow> bm_db \<Rightarrow> bool" for g db0 where
  start: "bm_reach g db0 db0"
| commit: "bm_reach g db0 db \<Longrightarrow> valid_update db cs \<Longrightarrow> new_buff cs = None \<Longrightarrow>
    mm_update_map g cs ctn db = Some db' \<Longrightarrow> bm_reach g db0 db'"

lemma reach_consistent: "bm_reach g db0 db \<Longrightarrow> bm_consistent db0 \<Longrightarrow> bm_consistent db"
proof (induction rule: bm_reach.induct)
  case (commit db cs ctn db')
  then show ?case using mm_update_map_ok [of db cs g ctn] by auto
qed

text \<open>
  C11. From a consistent file on, after any sequence of bitmap commits (\<open>gvcst_map_build\<close> then \<open>bm_update\<close>) the master map
  has the bit of a local map exactly when that map has a block that is not busy, no block has an invalid
  status, and the free count of the file header is the number of blocks that are not busy.  A further valid
  commit returns; it makes the blocks it names busy when blocks are allocated and not busy when they are freed,
  and leaves every other block and every other local map alone.
\<close>

theorem commits_consistent:
  assumes "bm_consistent db0" "bm_reach g db0 db"
  shows "bm_consistent db \<and> (\<forall>cs ctn. valid_update db cs \<and> new_buff cs = None \<longrightarrow>
    (\<exists>db' bp bp'. mm_update_map g cs ctn db = Some db' \<and> bm_consistent db' \<and>
      lcl_maps db (cs_blk cs) = Some bp \<and> lcl_maps db' = (lcl_maps db)(cs_blk cs \<mapsto> bp') \<and> tn bp' = ctn \<and>
      (\<forall>x. (x \<in> set (bitnums cs) \<longrightarrow> (GET_BM_STATUS (lmap bp') x = Some BLK_BUSY \<longleftrightarrow> 0 < reference_cnt cs)) \<and>
           (x \<notin> set (bitnums cs) \<longrightarrow> GET_BM_STATUS (lmap bp') x = GET_BM_STATUS (lmap bp) x))))"
  using reach_consistent [OF assms(2,1)] mm_update_map_ok [of db] by blast

definition demo_blk :: bm_blk where
  "demo_blk = \<lparr>bver = 2, levl = LCL_MAP_LEVL, bsiz = 18, tn = 1, lmap = [0x54, 0x55]\<rparr>"

definition demo_db :: bm_db where
  "demo_db = \<lparr>bplmap = 8, total_blks = 6, acc_meth_mm = False, csa_total_blks = 6, now_crit = True, free_blocks = 5, curr_tn = 1, master_map = [1], db_got_to_v5_once = True,
     extension_size = 0, blks_to_upgrd = 0, blks_to_upgrd_subzero_error = 0, tn_upgrd_blks_0 = 0, fully_upgraded = True,
     trunc_pid = 0, highest_lbm_with_busy_blk = 0, highest_lbm_blk_changed = -1,
     lcl_maps = (\<lambda>b. if b = 0 then Some demo_blk else None), msgs = []\<rparr>"

definition demo_cs :: cw_set_element where
  "demo_cs = \<lparr>cs_blk = 0, reference_cnt = 2, cs_level = 255, upd_addr = [3, 5, 0], old_block = demo_blk, new_buff = None\<rparr>"

lemma demo_status: "GET_BM_STATUS [0x54, 0x55] 0 = Some 0" "GET_BM_STATUS [0x54, 0x55] 1 = Some 1" "GET_BM_STATUS [0x54, 0x55] 2 = Some 1"
  "GET_BM_STATUS [0x54, 0x55] 3 = Some 1" "GET_BM_STATUS [0x54, 0x55] 4 = Some 1" "GET_BM_STATUS [0x54, 0x55] 5 = Some 1"
  by code_simp+

lemma demo_consistent: "bm_consistent demo_db"
proof -
  have r: "[0..<6] = [0, 1, 2, 3, 4, 5::nat]" by code_simp
  have f: "free_in [0x54, 0x55] 6 = 5" unfolding free_in_def r by (simp add: demo_status [simplified] blk_status_defs)
  have nm: "n_maps demo_db = 1" "size_of_map demo_db 0 = 6" by code_simp+
  have inv: "b < 6 \<Longrightarrow> GET_BM_STATUS [0x54, 0x55] b \<noteq> Some BLK_MAPINVALID" for b :: nat
  proof -
    assume "b < 6"
    then have "b = 0 \<or> b = 1 \<or> b = 2 \<or> b = 3 \<or> b = 4 \<or> b = 5" by linarith
    then show ?thesis using demo_status by (elim disjE) (simp_all add: blk_status_defs)
  qed
  have mb: "mbit [1] 0" by code_simp
  have "map_ok demo_db 0 demo_blk" using inv f mb nm by (simp add: map_ok_def demo_db_def demo_blk_def)
  then show ?thesis using nm f by (simp add: bm_consistent_def) (simp add: demo_db_def demo_blk_def free_at_def)
qed

lemma demo_valid: "valid_update demo_db demo_cs"
  using demo_status by (simp add: valid_update_def demo_db_def demo_cs_def demo_blk_def bitnums_def map_size_def blk_status_defs)

theorem commits_consistent_witness:
  "\<exists>db' bp'. mm_update_map \<lparr>mu_reorg_upgrd_dwngrd_in_prog = False, inctn_opcode = inctn_invalid_op, inctn_detail_blknum = 0\<rparr> demo_cs 9 demo_db = Some db' \<and>
    bm_consistent db' \<and> lcl_maps db' 0 = Some bp' \<and> GET_BM_STATUS (lmap bp') 5 = Some BLK_BUSY"
proof -
  let ?g = "\<lparr>mu_reorg_upgrd_dwngrd_in_prog = False, inctn_opcode = inctn_invalid_op, inctn_detail_blknum = 0\<rparr>"
  have cs: "new_buff demo_cs = None" "cs_blk demo_cs = 0" "5 \<in> set (bitnums demo_cs)" "0 < reference_cnt demo_cs"
    by (simp_all add: demo_cs_def bitnums_def)
  show ?thesis
    using commits_consistent [OF demo_consistent bm_reach.start, of ?g] demo_valid cs by (metis fun_upd_same)
qed

end
