(* ===== verification/BmSearch.thy ===== *)
theory BmSearch
  imports BmCommit
begin

text \<open>
  Searching the master map: \<open>gtm_ffs\<close> (\<open>gtm_ffs.c\<close>) finds the first set bit of a bit field, \<open>bmm_find_free\<close>
  (\<open>bmm_find_free.c\<close>) a local map with room, \<open>is_free_blks_ctr_ok\<close> (\<open>bm_getfree.c\<close>) recounts the free blocks of
  the file and \<open>dse_f_free\<close> (\<open>dse_f_free.c\<close>) answers the DSE command FIND -FREEBLOCK.  A search returns
  \<open>None\<close> inside for -1 (\<open>NO_FREE_SPACE\<close>); the outer \<open>None\<close> is a read outside the map.
\<close>

section \<open>First set bit (\<open>gtm_ffs.c\<close>)\<close>

text \<open>The partial byte at the start: bits \<open>i\<close> up to 8 of byte \<open>c\<close>, at most \<open>sz\<close> of them.\<close>

function ffs_head :: "bytes \<Rightarrow> nat \<Rightarrow> nat \<Rightarrow> nat \<Rightarrow> nat \<Rightarrow> nat \<Rightarrow> nat option option" where
  "ffs_head m c offset i j sz =
    (if i < 8 \<and> j < sz then do {
       p \<leftarrow> rdb m c;
       if p AND push_bit i 1 \<noteq> 0 then Some (Some (offset + j)) else ffs_head m c offset (i + 1) (j + 1) sz
     } else Some None)"
  by pat_completeness auto
termination by (relation "measure (\<lambda>(m, c, offset, i, j, sz). 8 - i)") auto

text \<open>The bits of one byte.\<close>

function ffs_byte :: "byte \<Rightarrow> nat \<Rightarrow> nat \<Rightarrow> nat option" where
  "ffs_byte p i j =
    (if j < 8 then (if p AND push_bit j 1 \<noteq> 0 then Some (i + j) else ffs_byte p i (j + 1)) else None)"
  by pat_completeness auto
termination by (relation "measure (\<lambda>(p, i, j). 8 - j)") auto

text \<open>The whole bytes; at the end of the loop the position \<open>(c, i)\<close> is kept (\<open>Inr\<close>).\<close>

function ffs_full :: "bytes \<Rightarrow> nat \<Rightarrow> nat \<Rightarrow> nat \<Rightarrow> (nat + nat \<times> nat) option" where
  "ffs_full m c i topp =
    (if i < topp then do {
       p \<leftarrow> rdb m c;
       (case (if p \<noteq> 0 then ffs_byte p i 0 else None) of
          Some r \<Rightarrow> Some (Inl r)
        | None \<Rightarrow> ffs_full m (c + 1) (i + 8) topp)
     } else Some (Inr (c, i)))"
  by pat_completeness auto
termination by (relation "measure (\<lambda>(m, c, i, topp). topp - i)") auto

text \<open>The partial byte at the end.\<close>

function ffs_tail :: "bytes \<Rightarrow> nat \<Rightarrow> nat \<Rightarrow> nat \<Rightarrow> nat \<Rightarrow> nat option option" where
  "ffs_tail m c j i topp =
    (if i < topp then do {
       p \<leftarrow> rdb m c;
       if p AND push_bit j 1 \<noteq> 0 then Some (Some i) else ffs_tail m c (j + 1) (i + 1) topp
     } else Some None)"
  by pat_completeness auto
termination by (relation "measure (\<lambda>(m, c, j, i, topp). topp - i)") auto

declare ffs_head.simps [simp del] ffs_byte.simps [simp del] ffs_full.simps [simp del] ffs_tail.simps [simp del]

definition ROUND_DOWN2 :: "nat \<Rightarrow> nat \<Rightarrow> nat" where
  "ROUND_DOWN2 v m = v - v mod m"

definition ROUND_UP2 :: "nat \<Rightarrow> nat \<Rightarrow> nat" where
  "ROUND_UP2 v m = ROUND_DOWN2 (v + (m - 1)) m"

definition gtm_ffs :: "nat \<Rightarrow> bytes \<Rightarrow> nat \<Rightarrow> nat option option" where
  "gtm_ffs offset m sz = do {
     let c = offset div 8;
     let i = offset mod 8;
     (r, c) \<leftarrow> (if i \<noteq> 0 then do { r \<leftarrow> ffs_head m c offset i 0 sz; Some (r, c + 1) } else Some (None, c));
     (case r of
        Some b \<Rightarrow> Some (Some b)
      | None \<Rightarrow> do {
          s \<leftarrow> ffs_full m c (ROUND_UP2 offset 8) (ROUND_DOWN2 (sz + offset) 8);
          (case s of
             Inl b \<Rightarrow> Some (Some b)
           | Inr (c, i) \<Rightarrow> ffs_tail m c 0 i (sz + offset))
        })
   }"

section \<open>The master map search (\<open>bmm_find_free.c\<close>)\<close>

definition MAX_FFS_SIZE :: nat where "MAX_FFS_SIZE = 32"

text \<open>The inner loop: windows of at most 32 bits from \<open>start\<close> up to \<open>topp\<close>.\<close>

function bmm_pass :: "bytes \<Rightarrow> nat \<Rightarrow> nat \<Rightarrow> nat \<Rightarrow> nat option option" where
  "bmm_pass m start topp width =
    (if width > 0 then do {
       answer \<leftarrow> gtm_ffs start m width;
       (case answer of
          Some b \<Rightarrow> Some (Some b)
        | None \<Rightarrow> bmm_pass m (start + width) topp (min (topp - (start + width)) MAX_FFS_SIZE))
     } else Some None)"
  by pat_completeness auto
termination
  by (relation "measures [\<lambda>(m, start, topp, width). topp - start, \<lambda>(m, start, topp, width). width]")
    (auto simp: MAX_FFS_SIZE_def)

declare bmm_pass.simps [simp del]

definition bmm_first_width :: "nat \<Rightarrow> nat \<Rightarrow> nat" where
  "bmm_first_width start topp = min topp (ROUND_DOWN2 start MAX_FFS_SIZE + MAX_FFS_SIZE) - start"

definition bmm_find_free :: "nat \<Rightarrow> bytes \<Rightarrow> nat \<Rightarrow> nat option option" where
  "bmm_find_free hint m total_bits = do {
     let hint = (if hint \<ge> total_bits then 0 else hint);
     r \<leftarrow> (if total_bits \<noteq> 0 then bmm_pass m hint total_bits (bmm_first_width hint total_bits) else Some None);
     (case r of
        Some b \<Rightarrow> Some (Some b)
      | None \<Rightarrow> if total_bits \<noteq> 0 \<and> hint \<noteq> 0 then bmm_pass m 0 hint (bmm_first_width 0 hint) else Some None)
   }"

section \<open>Recounting the free blocks (\<open>is_free_blks_ctr_ok\<close> of \<open>bm_getfree.c\<close>)\<close>

text \<open>The loop over one local map; \<open>None\<close> is a read outside the map or a loop that does not end.\<close>

partial_function (option) count_free_bits :: "bytes \<Rightarrow> nat \<Rightarrow> nat \<Rightarrow> int \<Rightarrow> int option" where
  "count_free_bits m maxbitsthismap free_bit free_blks =
    (if free_bit < maxbitsthismap then do {
       r \<leftarrow> bm_find_blk free_bit m maxbitsthismap;
       (case r of
          None \<Rightarrow> Some free_blks
        | Some (b, blk_used) \<Rightarrow> count_free_bits m maxbitsthismap (b + 1) (free_blks + 1))
     } else Some free_blks)"

partial_function (option) count_free_maps :: "bm_db \<Rightarrow> nat \<Rightarrow> nat \<Rightarrow> nat \<Rightarrow> int \<Rightarrow> int option" where
  "count_free_maps db tot local_maps free_bml free_blks =
    (if free_bml < local_maps then do {
       r \<leftarrow> bmm_find_free free_bml (master_map db) local_maps;
       (case r of
          None \<Rightarrow> Some free_blks
        | Some bml \<Rightarrow>
            if bml < free_bml then Some free_blks
            else (case lcl_maps db (bml * BLKS_PER_LMAP) of
                None \<Rightarrow> count_free_maps db tot local_maps (bml + 1) free_blks
              | Some bmp \<Rightarrow>
                  if BM_SIZE BLKS_PER_LMAP \<noteq> bsiz bmp \<or> LCL_MAP_LEVL \<noteq> levl bmp
                  then count_free_maps db tot local_maps (bml + 1) free_blks
                  else do {
                    let maxbitsthismap = (if bml \<noteq> local_maps - 1 then BLKS_PER_LMAP else tot - bml * BLKS_PER_LMAP);
                    free_blks \<leftarrow> count_free_bits (lmap bmp) maxbitsthismap 0 free_blks;
                    count_free_maps db tot local_maps (bml + 1) free_blks
                  }))
     } else Some free_blks)"

definition is_free_blks_ctr_ok :: "bm_db \<Rightarrow> (bool \<times> bm_db) option" where
  "is_free_blks_ctr_ok db = do {
     let tot = (if acc_meth_mm db then csa_total_blks db else total_blks db);
     let local_maps = DIVIDE_ROUND_UP tot BLKS_PER_LMAP;
     free_blks \<leftarrow> count_free_maps db tot local_maps 0 0;
     Some (if free_blocks db \<noteq> free_blks
       then (False, db\<lparr>msgs := msgs db @ [ERR_DBBADFREEBLKCTR (free_blocks db) free_blks], free_blocks := free_blks\<rparr>)
       else (True, db))
   }"

section \<open>DSE FIND -FREEBLOCK (\<open>dse_f_free.c\<close>)\<close>

text \<open>What the command prints; \<open>blk\<close> is the block given with -HINT, as \<open>dse_getblk\<close> returns it.\<close>

datatype dse_answer = DseBplmapZero | DseDatabaseFull | DseBlkRdFail | DseMarkedFree nat | DseNextFree nat

definition dse_f_free :: "bm_db \<Rightarrow> nat \<Rightarrow> dse_answer option" where
  "dse_f_free db blk =
    (if 0 = bplmap db then Some DseBplmapZero
     else do {
       let mmap_hint = blk div bplmap db;
       master_bit \<leftarrow> bmm_find_free mmap_hint (master_map db) ((total_blks db + bplmap db - 1) div bplmap db);
       (case master_bit of
          None \<Rightarrow> Some DseDatabaseFull
        | Some master_bit \<Rightarrow> do {
            let in_last_bmap = (master_bit = total_blks db div bplmap db);
            (case lcl_maps db (master_bit * bplmap db) of
               None \<Rightarrow> Some DseBlkRdFail
             | Some lmap_base \<Rightarrow> do {
                 let lmap_hint = (if master_bit = mmap_hint then blk - (blk div bplmap db) * bplmap db else 0);
                 let tot = (if in_last_bmap then total_blks db - master_bit else bplmap db);
                 lmap_bit \<leftarrow> bml_find_free lmap_hint (lmap lmap_base) tot;
                 (case lmap_bit of
                    None \<Rightarrow> Some (DseMarkedFree (master_bit * bplmap db))
                  | Some b \<Rightarrow> Some (DseNextFree (master_bit * bplmap db + b)))
               })
          })
     })"

section \<open>The searches find the first set bit\<close>

definition first_bit :: "bytes \<Rightarrow> nat \<Rightarrow> nat \<Rightarrow> nat option" where
  "first_bit m lo hi = find (mbit m) [lo..<hi]"

lemma first_bit_empty: "hi \<le> lo \<Longrightarrow> first_bit m lo hi = None"
  by (simp add: first_bit_def)

lemma first_bit_step: "lo < hi \<Longrightarrow> first_bit m lo hi = (if mbit m lo then Some lo else first_bit m (lo + 1) hi)"
  by (simp add: first_bit_def upt_conv_Cons)

lemma first_bit_append: "a \<le> b \<Longrightarrow> b \<le> c \<Longrightarrow>
    first_bit m a c = (case first_bit m a b of None \<Rightarrow> first_bit m b c | Some r \<Rightarrow> Some r)"
  unfolding first_bit_def by (simp only: upt_split [of a b c] find_append)

lemma mask_test2: "p AND 2 ^ n = 0 \<longleftrightarrow> \<not> bit p n" for p :: byte
  using mask_test [of n p] unfolding and.commute [of p] by blast

lemma mbit_at: "k < 8 \<Longrightarrow> mbit m (8 * c + k) = bit (m ! c) k"
  by (simp add: mbit_def)

lemma ffs_head_ok:
  "8 * c + i = offset + j \<Longrightarrow> i \<le> 8 \<Longrightarrow> c < length m \<Longrightarrow>
    ffs_head m c offset i j sz = Some (first_bit m (offset + j) (min (8 * c + 8) (offset + sz)))"
proof (induction m c offset i j sz rule: ffs_head.induct)
  case (1 m c offset i j sz)
  show ?case
  proof (cases "i < 8 \<and> j < sz")
    case True
    then have "mbit m (offset + j) = bit (m ! c) i" using mbit_at [of i m c] 1(2) by simp
    moreover have "offset + j < min (8 * c + 8) (offset + sz)" using True 1(2) by linarith
    ultimately show ?thesis using True 1 first_bit_step [of "offset + j"]
      by (subst ffs_head.simps) (simp add: mask_test2 rdb_def)
  next
    case False
    then show ?thesis using 1(2) by (subst ffs_head.simps) (auto simp: first_bit_empty)
  qed
qed

lemma ffs_byte_ok: "j \<le> 8 \<Longrightarrow> ffs_byte (m ! c) (8 * c) j = first_bit m (8 * c + j) (8 * c + 8)"
proof (induction "m ! c" "8 * c" j rule: ffs_byte.induct)
  case (1 j)
  show ?case
  proof (cases "j < 8")
    case True
    then show ?thesis using 1 first_bit_step [of "8 * c + j" "8 * c + 8" m] mbit_at [of j m c]
      by (subst ffs_byte.simps) (simp add: mask_test2)
  qed (use 1(2) in \<open>subst ffs_byte.simps, simp add: first_bit_empty\<close>)
qed

lemma first_bit_zero: "m ! c = 0 \<Longrightarrow> first_bit m (8 * c) (8 * c + 8) = None"
  unfolding first_bit_def 
proof (rule find_none, intro ballI)
  fix x assume z: "m ! c = 0" and "x \<in> set [8 * c..<8 * c + 8]"
  then have "x div 8 = c" by (auto intro: div_nat_eqI)
  then show "\<not> mbit m x" using z by (simp add: mbit_def)
qed

lemma ffs_full_ok:
  "i = 8 * c \<Longrightarrow> i \<le> topp \<Longrightarrow> topp = 8 * t \<Longrightarrow> topp \<le> 8 * length m \<Longrightarrow>
    ffs_full m c i topp = Some (case first_bit m i topp of Some r \<Rightarrow> Inl r | None \<Rightarrow> Inr (t, topp))"
proof (induction m c i topp rule: ffs_full.induct)
  case (1 m c i topp)
  show ?case
  proof (cases "i < topp")
    case True
    then have ct: "c < t" "i + 8 \<le> topp" using 1(2,4) by simp_all
    then have p: "rdb m c = Some (m ! c)" using 1(4,5) by (simp add: rdb_def)
    have w: "(if m ! c \<noteq> 0 then ffs_byte (m ! c) i 0 else None) = first_bit m i (i + 8)"
      using ffs_byte_ok [of 0 m c] first_bit_zero [of m c] 1(2) by simp
    note a = first_bit_append [of i "i + 8" topp m, OF _ ct(2)]
    show ?thesis
    proof (cases "first_bit m i (i + 8)")
      case None
      have "ffs_full m (c + 1) (i + 8) topp = Some (case first_bit m (i + 8) topp of Some r \<Rightarrow> Inl r | None \<Rightarrow> Inr (t, topp))"
        by (rule 1(1) [OF True p w [unfolded None] _ ct(2) 1(4,5)]) (simp add: 1(2))
      then show ?thesis using True p w None a by (subst ffs_full.simps) simp
    next
      case (Some r) then show ?thesis using True p w a by (subst ffs_full.simps) simp
    qed
  next
    case False
    then have "c = t" "i = topp" using 1(2-4) by simp_all
    then show ?thesis by (subst ffs_full.simps) (simp add: first_bit_empty)
  qed
qed

lemma ffs_full_skip: "topp \<le> i \<Longrightarrow> ffs_full m c i topp = Some (Inr (c, i))"
  by (subst ffs_full.simps) simp

lemma ffs_tail_ok:
  "8 * c + j = i \<Longrightarrow> topp \<le> 8 * c + 8 \<Longrightarrow> topp \<le> 8 * length m \<Longrightarrow> ffs_tail m c j i topp = Some (first_bit m i topp)"
proof (induction m c j i topp rule: ffs_tail.induct)
  case (1 m c j i topp)
  show ?case
  proof (cases "i < topp")
    case True
    then have "mbit m i = bit (m ! c) j" "c < length m" using mbit_at [of j m c] 1(2-4) by auto
    then show ?thesis using True 1 first_bit_step [OF True, of m]
      by (subst ffs_tail.simps) (simp add: mask_test2 rdb_def)
  next
    case False
    then show ?thesis by (subst ffs_tail.simps) (simp add: first_bit_empty)
  qed
qed

lemma round_down: "ROUND_DOWN2 v 8 = 8 * (v div 8)"
  by (simp add: ROUND_DOWN2_def minus_mod_eq_mult_div)

lemma round_up: "ROUND_UP2 v 8 = 8 * ((v + 7) div 8)"
  by (simp add: ROUND_UP2_def round_down)

lemma gtm_ffs_ok:
  assumes "offset + sz \<le> 8 * length m" "0 < sz"
  shows "gtm_ffs offset m sz = Some (first_bit m offset (offset + sz))"
proof -
  define c where "c = (offset + 7) div 8"
  define e where "e = (sz + offset) div 8"
  have c: "offset \<le> 8 * c" "8 * c < offset + 8" unfolding c_def by linarith+
  have e: "8 * e \<le> sz + offset" "sz + offset < 8 * e + 8" unfolding e_def by linarith+
  define hi where "hi = min (8 * c) (offset + sz)"
  have head: "(if offset mod 8 \<noteq> 0 then do { r \<leftarrow> ffs_head m (offset div 8) offset (offset mod 8) 0 sz; Some (r, offset div 8 + 1) }
      else Some (None, offset div 8)) = Some (first_bit m offset hi, c)"
  proof (cases "offset mod 8 = 0")
    case True
    then obtain k where "offset = 8 * k" by (auto simp: mod_eq_0_iff_dvd)
    then have "8 * c = offset" "offset div 8 = c" by (simp_all add: c_def)
    then show ?thesis using True by (simp add: hi_def first_bit_empty)
  next
    case False
    then have c1: "c = offset div 8 + 1" using c div_mult_mod_eq [of offset 8] mod_less_divisor [of 8 offset] by linarith
    have "8 * (offset div 8) + offset mod 8 = offset + 0" "offset mod 8 \<le> 8" "offset div 8 < length m"
      using assms mod_less_divisor [of 8 offset] by (simp_all add: less_mult_imp_div_less)
    from ffs_head_ok [OF this, of sz] show ?thesis using False c1 by (simp add: hi_def algebra_simps)
  qed
  have rest: "(do { s \<leftarrow> ffs_full m c (8 * c) (8 * e); (case s of Inl b \<Rightarrow> Some (Some b) | Inr (c, i) \<Rightarrow> ffs_tail m c 0 i (sz + offset)) })
      = Some (first_bit m hi (offset + sz))"
  proof (cases "8 * c \<le> 8 * e")
    case True
    have "hi = 8 * c" using True e by (simp add: hi_def)
    moreover have "ffs_full m c (8 * c) (8 * e) = Some (case first_bit m (8 * c) (8 * e) of Some r \<Rightarrow> Inl r | None \<Rightarrow> Inr (e, 8 * e))"
      by (rule ffs_full_ok) (use True assms e in auto)
    moreover have "ffs_tail m e 0 (8 * e) (sz + offset) = Some (first_bit m (8 * e) (sz + offset))"
      by (rule ffs_tail_ok) (use assms e in auto)
    ultimately show ?thesis using first_bit_append [of "8 * c" "8 * e" "sz + offset" m] True e(1)
      by (simp add: add.commute split: option.splits)
  next
    case False
    then have "e + 1 \<le> c" by simp
    then have l: "8 * e \<le> 8 * c" "sz + offset \<le> 8 * c" using e by linarith+
    have "ffs_tail m c 0 (8 * c) (sz + offset) = Some None" using l(2) by (subst ffs_tail.simps) simp
    then show ?thesis using l by (simp add: ffs_full_skip hi_def first_bit_empty)
  qed
  have a: "first_bit m offset (offset + sz) = (case first_bit m offset hi of None \<Rightarrow> first_bit m hi (offset + sz) | Some r \<Rightarrow> Some r)"
    by (rule first_bit_append) (use c in \<open>auto simp: hi_def\<close>)
  show ?thesis unfolding gtm_ffs_def Let_def head round_up round_down c_def [symmetric] e_def [symmetric] a
    using rest by (simp split: option.splits)
qed

lemma bmm_pass_ok:
  "start + width \<le> topp \<Longrightarrow> topp \<le> 8 * length m \<Longrightarrow> (width = 0 \<longrightarrow> start = topp) \<Longrightarrow>
    bmm_pass m start topp width = Some (first_bit m start topp)"
proof (induction m start topp width rule: bmm_pass.induct)
  case (1 m start topp width)
  show ?case
  proof (cases "width > 0")
    case True
    have f: "gtm_ffs start m width = Some (first_bit m start (start + width))" by (rule gtm_ffs_ok) (use 1(2,3) True in auto)
    have a: "first_bit m start topp = (case first_bit m start (start + width) of None \<Rightarrow> first_bit m (start + width) topp | Some r \<Rightarrow> Some r)"
      by (rule first_bit_append) (use 1(2) in auto)
    show ?thesis
    proof (cases "first_bit m start (start + width)")
      case None
      have "bmm_pass m (start + width) topp (min (topp - (start + width)) MAX_FFS_SIZE) = Some (first_bit m (start + width) topp)"
        by (rule 1(1) [OF True f None]) (use 1(2,3) in \<open>auto simp: MAX_FFS_SIZE_def\<close>)
      then show ?thesis using True f None a by (subst bmm_pass.simps) simp
    qed (use True f a in \<open>subst bmm_pass.simps, simp\<close>)
  qed (use 1(4) in \<open>subst bmm_pass.simps, simp add: first_bit_empty\<close>)
qed

lemma bmm_full_pass:
  assumes "start < topp" "topp \<le> 8 * length m"
  shows "bmm_pass m start topp (bmm_first_width start topp) = Some (first_bit m start topp)"
proof (rule bmm_pass_ok)
  have "start < ROUND_DOWN2 start MAX_FFS_SIZE + MAX_FFS_SIZE"
    using mod_less_divisor [of 32 start] mod_less_eq_dividend [of start 32] unfolding ROUND_DOWN2_def MAX_FFS_SIZE_def by linarith
  then show "start + bmm_first_width start topp \<le> topp" "bmm_first_width start topp = 0 \<longrightarrow> start = topp"
    using assms(1) by (auto simp: bmm_first_width_def)
qed (rule assms(2))

lemma bmm_find_free_ok:
  fixes hint :: nat
  assumes "n \<le> 8 * length m"
  defines "h \<equiv> (if hint < n then hint else 0)"
  shows "bmm_find_free hint m n = Some (case first_bit m h n of Some b \<Rightarrow> Some b | None \<Rightarrow> first_bit m 0 h)"
proof (cases "n = 0")
  case True
  then show ?thesis by (simp add: bmm_find_free_def h_def first_bit_empty)
next
  case False
  then have h: "h < n" "(if hint \<ge> n then 0 else hint) = h" by (auto simp: h_def)
  have "h \<noteq> 0 \<Longrightarrow> bmm_pass m 0 h (bmm_first_width 0 h) = Some (first_bit m 0 h)" using bmm_full_pass [of 0 h m] h assms(1) by simp
  then show ?thesis unfolding bmm_find_free_def Let_def h(2) using bmm_full_pass [OF h(1) assms(1)] False
    by (auto simp: first_bit_empty split: option.splits)
qed

text \<open>
  C14. \<open>bmm_find_free\<close> is equal to its specification: the first set bit of the field at or after the hint, else the
  first one before it, else \<open>NO_FREE_SPACE\<close>.  The 32-bit windows, the partial bytes of \<open>gtm_ffs\<close> and the wrap
  to the beginning lose no bit and read nothing outside the field.
\<close>

theorem bmm_find_free_cyclic:
  assumes "n \<le> 8 * length m"
  shows "bmm_find_free hint m n = Some (find (\<lambda>i. bit (m ! (i div 8)) (i mod 8))
    (if hint < n then [hint..<n] @ [0..<hint] else [0..<n]))"
proof -
  have e: "mbit m = (\<lambda>i. bit (m ! (i div 8)) (i mod 8))" by (rule ext) (simp add: mbit_def)
  show ?thesis
    unfolding bmm_find_free_ok [OF assms] first_bit_def e [symmetric]
    by (auto simp: find_append split: option.splits)
qed

theorem bmm_find_free_cyclic_witness: "bmm_find_free 14 [0x04, 0x10] 15 = Some (Some 2)"
proof -
  have "[14..<15] @ [0..<14] = [14, 0, 1, 2, 3, 4, 5, 6, 7, 8, 9, 10, 11, 12, 13::nat]" by code_simp
  moreover have "\<not> bit (0x10::byte) 6" "\<not> bit (0x04::byte) 0" "\<not> bit (0x04::byte) 1" "bit (0x04::byte) 2" by code_simp+
  ultimately show ?thesis using bmm_find_free_cyclic [of 15 "[0x04, 0x10]" 14] by simp
qed

section \<open>The recount\<close>

lemma find_filter:
  assumes "find P [a..<n] = Some b"
  shows "a \<le> b" "b < n" "filter P [a..<n] = b # filter P [b + 1..<n]"
proof -
  from assms have b: "a \<le> b" "b < n" "P b" and l: "\<And>x. a \<le> x \<Longrightarrow> x < b \<Longrightarrow> \<not> P x"
    unfolding find_Some_iff by (auto simp: nth_upt) (metis add_diff_inverse_nat le_add1 nat_add_left_cancel_less not_less nth_upt add.commute)
  show "a \<le> b" "b < n" by (fact b)+
  have "[a..<n] = [a..<b] @ b # [b + 1..<n]" using b upt_split [of a b n] by (simp add: upt_conv_Cons)
  moreover have "filter P [a..<b] = []" using l by (auto simp: filter_empty_conv)
  ultimately show "filter P [a..<n] = b # filter P [b + 1..<n]" using b(3) by simp
qed

lemma find_filter_none: "find P xs = None \<Longrightarrow> filter P xs = []"
  by (auto simp: find_None_iff filter_empty_conv)

lemma count_free_bits_ok:
  assumes "map_bytes n \<le> length m" "map_valid m n"
  shows "count_free_bits m n a c = Some (c + int (length (filter (avail m) [a..<n])))"
proof (induction "n - a" arbitrary: a c rule: less_induct)
  case less
  show ?case
  proof (cases "a < n")
    case False then show ?thesis by (subst count_free_bits.simps) simp
  next
    case True
    have f: "bm_find_blk a m n = Some (first_avail m a n)" by (rule bm_find_blk_ok [OF True assms])
    show ?thesis
    proof (cases "find (avail m) [a..<n]")
      case None
      then show ?thesis using True f find_filter_none [OF None] by (subst count_free_bits.simps) (simp add: first_avail_def)
    next
      case (Some b)
      note b = find_filter [OF Some]
      have "count_free_bits m n (b + 1) (c + 1) = Some (c + 1 + int (length (filter (avail m) [b + 1..<n])))"
        by (rule less) (use b(1,2) in linarith)
      then show ?thesis using True f Some b(3) by (subst count_free_bits.simps) (simp add: first_avail_def)
    qed
  qed
qed

text \<open>Every local map can be read as a bitmap block and has no invalid status; nothing is said of the master map or the count.\<close>

definition maps_readable :: "bm_db \<Rightarrow> bool" where
  "maps_readable db \<longleftrightarrow> bplmap db = BLKS_PER_LMAP \<and> n_maps db \<le> 8 * length (master_map db) \<and>
     (\<forall>i < n_maps db. case lcl_maps db (i * BLKS_PER_LMAP) of None \<Rightarrow> False
       | Some bp \<Rightarrow> bsiz bp = BM_SIZE BLKS_PER_LMAP \<and> levl bp = LCL_MAP_LEVL \<and> map_bytes BLKS_PER_LMAP \<le> length (lmap bp) \<and>
           (\<forall>b < size_of_map db i. GET_BM_STATUS (lmap bp) b \<noteq> Some BLK_MAPINVALID))"

lemma map_size_last:
  assumes "0 < bpl" "i < DIVIDE_ROUND_UP tot bpl"
  shows "map_size bpl tot (i * bpl) = (if i \<noteq> DIVIDE_ROUND_UP tot bpl - 1 then bpl else tot - i * bpl)"
proof -
  define q r where "q = tot div bpl" and "r = tot mod bpl"
  have t: "tot = q * bpl + r" "r < bpl" using assms(1) by (simp_all add: q_def r_def)
  have same: "q * bpl = i * bpl \<longleftrightarrow> i = q" using assms(1) by auto
  have n: "DIVIDE_ROUND_UP tot bpl = (if r = 0 then q else q + 1)"
  proof (cases "r = 0")
    case True
    have "tot + (bpl - 1) = (bpl - 1) + q * bpl" using t True by simp
    then show ?thesis using True assms(1) by (simp only: DIVIDE_ROUND_UP_def div_mult_self1) simp
  next
    case False
    have "tot + (bpl - 1) = (r - 1) + (q + 1) * bpl" using t False assms(1) by (simp add: algebra_simps)
    then show ?thesis using False t(2) assms(1) by (simp only: DIVIDE_ROUND_UP_def div_mult_self1 if_False) simp
  qed
  show ?thesis
  proof (cases "r = 0")
    case True
    then have "i < q" using assms(2) n by simp
    then show ?thesis using True n t same by (auto simp: map_size_def q_def [symmetric] diff_mult_distrib [symmetric])
  next
    case False
    then show ?thesis using n t same by (auto simp: map_size_def q_def [symmetric])
  qed
qed

lemma count_map:
  assumes r: "maps_readable db" and i: "i < n_maps db"
  obtains bp where "lcl_maps db (i * BLKS_PER_LMAP) = Some bp" "bsiz bp = BM_SIZE BLKS_PER_LMAP" "levl bp = LCL_MAP_LEVL"
    "\<And>c. count_free_bits (lmap bp) (if i \<noteq> n_maps db - 1 then BLKS_PER_LMAP else total_blks db - i * BLKS_PER_LMAP) 0 c
      = Some (c + int (free_at db i))"
proof -
  have b: "bplmap db = BLKS_PER_LMAP" "0 < bplmap db" using r by (simp_all add: maps_readable_def BLKS_PER_LMAP_def)
  obtain bp where bp: "lcl_maps db (i * BLKS_PER_LMAP) = Some bp" "bsiz bp = BM_SIZE BLKS_PER_LMAP" "levl bp = LCL_MAP_LEVL"
    "map_bytes BLKS_PER_LMAP \<le> length (lmap bp)" "\<forall>b < size_of_map db i. GET_BM_STATUS (lmap bp) b \<noteq> Some BLK_MAPINVALID"
    using r i by (fastforce simp: maps_readable_def split: option.splits)
  have sz: "size_of_map db i \<le> BLKS_PER_LMAP" using size_of_map_bounds(2) [OF b(2) i] b(1) by simp
  have len: "map_bytes (size_of_map db i) \<le> length (lmap bp)" using bp(4) map_bytes_mono [OF sz] by linarith
  have im: "\<And>x. x < size_of_map db i \<Longrightarrow> in_map (lmap bp) x" using in_map_bound len by blast
  have v: "map_valid (lmap bp) (size_of_map db i)" using map_valid_status [OF im] bp(5) by simp
  have e: "(if i \<noteq> n_maps db - 1 then BLKS_PER_LMAP else total_blks db - i * BLKS_PER_LMAP) = size_of_map db i"
    using map_size_last [OF b(2), of i "total_blks db"] i b(1) by (simp add: size_of_map_def n_maps_def)
  have "filter (avail (lmap bp)) [0..<size_of_map db i] = filter (\<lambda>b. GET_BM_STATUS (lmap bp) b \<noteq> Some BLK_BUSY) [0..<size_of_map db i]"
    by (rule filter_cong [OF refl]) (use status_cases(1) [OF im] in auto)
  then have "count_free_bits (lmap bp) (size_of_map db i) 0 c = Some (c + int (free_at db i))" for c
    using count_free_bits_ok [OF len v, of 0 c] bp(1) b(1) by (simp add: free_at_def free_in_def)
  then show ?thesis using that [OF bp(1-3)] unfolding e by blast
qed

lemma count_free_maps_ok:
  assumes r: "maps_readable db"
  shows "count_free_maps db (total_blks db) (n_maps db) a c =
    Some (c + int (sum_list (map (free_at db) (filter (mbit (master_map db)) [a..<n_maps db]))))"
proof (induction "n_maps db - a" arbitrary: a c rule: less_induct)
  case less
  have n: "n_maps db \<le> 8 * length (master_map db)" using r by (simp add: maps_readable_def)
  show ?case
  proof (cases "a < n_maps db")
    case False then show ?thesis by (subst count_free_maps.simps) simp
  next
    case True
    have f: "bmm_find_free a (master_map db) (n_maps db) =
        Some (case find (mbit (master_map db)) [a..<n_maps db] of Some b \<Rightarrow> Some b | None \<Rightarrow> find (mbit (master_map db)) [0..<a])"
      using bmm_find_free_ok [OF n, of a] True unfolding first_bit_def by simp
    show ?thesis
    proof (cases "find (mbit (master_map db)) [a..<n_maps db]")
      case None
      have low: "find (mbit (master_map db)) [0..<a] = Some b \<Longrightarrow> b < a" for b by (rule find_filter(2))
      show ?thesis
        using True f None find_filter_none [OF None] low by (subst count_free_maps.simps) (auto split: option.splits)
    next
      case (Some b)
      note b = find_filter [OF Some]
      obtain bp where bp: "lcl_maps db (b * BLKS_PER_LMAP) = Some bp" "bsiz bp = BM_SIZE BLKS_PER_LMAP" "levl bp = LCL_MAP_LEVL"
        "\<And>c. count_free_bits (lmap bp) (if b \<noteq> n_maps db - 1 then BLKS_PER_LMAP else total_blks db - b * BLKS_PER_LMAP) 0 c
          = Some (c + int (free_at db b))" using count_map [OF r b(2)] by blast
      have "count_free_maps db (total_blks db) (n_maps db) (b + 1) (c + int (free_at db b)) =
          Some (c + int (free_at db b) + int (sum_list (map (free_at db) (filter (mbit (master_map db)) [b + 1..<n_maps db]))))"
        by (rule less) (use b(1,2) in linarith)
      then show ?thesis using True f Some bp b by (subst count_free_maps.simps) simp
    qed
  qed
qed

text \<open>The number of blocks that are not busy in the local maps the master map shows as not full.\<close>

definition visible_free :: "bm_db \<Rightarrow> int" where
  "visible_free db = int (sum_list (map (free_at db) (filter (mbit (master_map db)) [0..<n_maps db])))"

lemma visible_free_all:
  assumes "bm_consistent db"
  shows "visible_free db = (\<Sum>i < n_maps db. int (free_at db i))"
proof -
  have z: "free_at db i = 0" if "i < n_maps db" "\<not> mbit (master_map db) i" for i
    using assms that unfolding bm_consistent_def map_ok_def free_at_def by fastforce
  have "sum_list (map (free_at db) (filter P [0..<n])) = (\<Sum>i < n. if P i then free_at db i else 0)" for P n
    by (induction n) auto
  then have "visible_free db = int (\<Sum>i < n_maps db. if mbit (master_map db) i then free_at db i else 0)" by (simp add: visible_free_def)
  also have "(\<Sum>i < n_maps db. if mbit (master_map db) i then free_at db i else 0) = (\<Sum>i < n_maps db. free_at db i)"
    by (rule sum.cong) (use z in auto)
  finally show ?thesis by simp
qed

text \<open>
  C16. \<open>is_free_blks_ctr_ok\<close> returns on every file whose local maps can be read, and afterwards the free count is the
  number of blocks that are not busy in the local maps the master map shows as not full: TRUE and no change
  when the count was right, otherwise FALSE, the count corrected and \<open>DBBADFREEBLKCTR\<close> sent.  On consistent
  maps it answers TRUE.
\<close>

theorem free_blks_ctr_recount:
  assumes "maps_readable db" "\<not> acc_meth_mm db \<or> csa_total_blks db = total_blks db"
  shows "is_free_blks_ctr_ok db = Some (if free_blocks db = visible_free db then (True, db)
      else (False, db\<lparr>msgs := msgs db @ [ERR_DBBADFREEBLKCTR (free_blocks db) (visible_free db)], free_blocks := visible_free db\<rparr>)) \<and>
    (bm_consistent db \<longrightarrow> free_blocks db = visible_free db)"
proof -
  have t: "(if acc_meth_mm db then csa_total_blks db else total_blks db) = total_blks db" using assms(2) by auto
  have n: "DIVIDE_ROUND_UP (total_blks db) BLKS_PER_LMAP = n_maps db" using assms(1) by (simp add: n_maps_def maps_readable_def)
  have "count_free_maps db (total_blks db) (n_maps db) 0 0 = Some (visible_free db)"
    using count_free_maps_ok [OF assms(1), of 0 0] by (simp add: visible_free_def)
  moreover have "bm_consistent db \<longrightarrow> free_blocks db = visible_free db"
    using visible_free_all [of db] by (simp add: bm_consistent_def)
  ultimately show ?thesis by (simp add: is_free_blks_ctr_ok_def t n)
qed

definition demo_map :: bm_blk where
  "demo_map = \<lparr>bver = 2, levl = LCL_MAP_LEVL, bsiz = 144, tn = 1, lmap = 0x54 # replicate 127 0\<rparr>"

definition demo_file :: bm_db where
  "demo_file = demo_db\<lparr>bplmap := 512, total_blks := 3, free_blocks := 7, lcl_maps := (\<lambda>b. if b = 0 then Some demo_map else None)\<rparr>"

lemma demo_map_status: "GET_BM_STATUS (lmap demo_map) 0 = Some 0" "GET_BM_STATUS (lmap demo_map) 1 = Some 1" "GET_BM_STATUS (lmap demo_map) 2 = Some 1"
  by (simp_all add: GET_BM_STATUS_def rdb_def BML_BITS_PER_BLK_def demo_map_def)

lemma demo_map_valid: "b < 3 \<Longrightarrow> GET_BM_STATUS (lmap demo_map) b \<noteq> Some BLK_MAPINVALID"
proof -
  assume "b < 3"
  then have "b = 0 \<or> b = 1 \<or> b = 2" by linarith
  then show ?thesis using demo_map_status by (elim disjE) (simp_all add: blk_status_defs)
qed

lemma demo_map_free: "free_in (lmap demo_map) 3 = 2"
proof -
  have "[0..<3] = [0, 1, 2::nat]" by code_simp
  then show ?thesis using demo_map_status unfolding free_in_def by (simp add: blk_status_defs)
qed

lemma demo_file_maps: "n_maps demo_file = 1" "size_of_map demo_file 0 = 3" "mbit (master_map demo_file) 0"
  by code_simp+

lemma demo_file_readable: "maps_readable demo_file"
  unfolding maps_readable_def demo_file_maps(1) using demo_file_maps(2) demo_map_valid
  by (simp add: demo_file_def demo_db_def)
    (simp add: demo_map_def BLKS_PER_LMAP_def BM_SIZE_def SIZEOF_blk_hdr_def BM_MINUS_BLKHDR_SIZE_def BML_BITS_PER_BLK_def)

theorem free_blks_ctr_recount_witness:
  "\<exists>db'. is_free_blks_ctr_ok demo_file = Some (False, db') \<and> free_blocks db' = 2"
proof -
  have "free_at demo_file 0 = 2" using demo_map_free demo_file_maps(2) unfolding free_at_def by (simp add: demo_file_def)
  then have "visible_free demo_file = 2" using demo_file_maps by (simp add: visible_free_def)
  then show ?thesis using free_blks_ctr_recount [OF demo_file_readable] by (simp add: demo_file_def demo_db_def)
qed

section \<open>FIND -FREEBLOCK in the last local map\<close>

definition demo_two :: bm_db where
  "demo_two = demo_db\<lparr>bplmap := 8, total_blks := 10, free_blocks := 1, master_map := [2],
     lcl_maps := (\<lambda>b. if b = 0 then Some (demo_blk\<lparr>lmap := [0, 0]\<rparr>) else if b = 8 then Some demo_blk else None)\<rparr>"

lemma status_zero: "in_map [0, 0] b \<Longrightarrow> GET_BM_STATUS [0, 0] b = Some BLK_BUSY"
  by (cases "b div 4") (auto simp: GET_BM_STATUS_def BML_BITS_PER_BLK_def blk_index rdb_def in_map_def BLK_BUSY_def nth_Cons')

lemma demo_two_consistent: "bm_consistent demo_two"
proof -
  have nm: "n_maps demo_two = 2" "size_of_map demo_two 0 = 8" "size_of_map demo_two 1 = 2" "[0..<2] = [0, 1::nat]" by code_simp+
  have z: "GET_BM_STATUS [0, 0] b = Some BLK_BUSY" if "b < 8" for b by (rule status_zero) (use that in \<open>simp add: in_map_def\<close>)
  have f0: "free_in [0, 0] 8 = 0" unfolding free_in_def using z by (auto simp: filter_empty_conv)
  have f1: "free_in [0x54, 0x55] 2 = 1" unfolding free_in_def nm(4) by (simp add: demo_status [simplified] blk_status_defs)
  have mb: "\<not> mbit [2] 0" "mbit [2] 1" by code_simp+
  have "map_ok demo_two 0 (demo_blk\<lparr>lmap := [0, 0]\<rparr>)"
    using nm z f0 mb by (simp add: map_ok_def demo_two_def demo_blk_def blk_status_defs)
  moreover have "map_ok demo_two 1 demo_blk"
    using nm f1 mb demo_status by (auto simp: map_ok_def demo_two_def demo_blk_def blk_status_defs less_2_cases_iff)
  ultimately have "\<forall>i < 2. \<exists>bp. lcl_maps demo_two (i * bplmap demo_two) = Some bp \<and> map_ok demo_two i bp"
    by (auto simp: less_2_cases_iff) (simp_all add: demo_two_def)
  moreover have "(\<Sum>i < 2. int (free_at demo_two i)) = 1"
    using nm f0 f1 by (simp add: numeral_2_eq_2 free_at_def) (simp add: demo_two_def demo_blk_def)
  ultimately show ?thesis using nm by (simp add: bm_consistent_def) (simp add: demo_two_def)
qed

text \<open>
  \<open>dse_f_free\<close> on a consistent file of ten blocks, whose only free block is block 9, answers that block 11 is
  the next free block: for the last local map it subtracts the number of the map, not of its first block, from
  the size of the file, and so searches past the end of the file.
\<close>

theorem dse_f_free_past_end:
  "bm_consistent demo_two \<and> total_blks demo_two = 10 \<and> dse_f_free demo_two 0 = Some (DseNextFree 11)"
proof -
  have "dse_f_free demo_two 0 = Some (DseNextFree 11)" by code_simp
  then show ?thesis using demo_two_consistent by (simp add: demo_two_def)
qed

end
