(* ===== verification/BmGetfree.thy ===== *)
theory BmGetfree
  imports BmSearch
begin

text \<open>
  Allocating a block (\<open>bm_getfree.c\<close>): the search over the master map and the local maps for a block that is not
  busy, recorded in the cw-set element of its local map.  Extending the file (\<open>GDSFILEXT\<close>) is a parameter: it
  returns \<open>None\<close> for \<open>SS_NORMAL\<close> or the status, and the new state.  The cw-set is a list, each entry the latest
  version of its element (\<open>TRAVERSE_TO_LATEST_CSE\<close>); the entries from \<open>cw_work\<close> on are bitmap elements.
\<close>

type_synonym gdsfilext_t = "nat \<Rightarrow> nat \<Rightarrow> bm_db \<Rightarrow> int option \<times> bm_db"

definition MAP_RD_FAIL :: int where "MAP_RD_FAIL = - 2"
definition FILE_EXTENDED :: int where "FILE_EXTENDED = - 4"
definition CDB_STAGNATE :: nat where "CDB_STAGNATE = 3"

section \<open>The element of a local map\<close>

text \<open>
  In a TP transaction front to back, otherwise back to front; 0 when no element is found.  Back to front, a
  \<open>depth\<close> of -1 is compared as an unsigned value, passes \<open>depth >= cw_work\<close> and reads before the cw-set: \<open>None\<close>.
\<close>

function cse_depth_tp :: "cw_set_element list \<Rightarrow> nat \<Rightarrow> nat \<Rightarrow> nat \<Rightarrow> nat option" where
  "cse_depth_tp cs bml depth cw_set_top =
    (if depth < cw_set_top then
       (if depth < length cs then
          (if bml = cs_blk (cs ! depth) then Some depth else cse_depth_tp cs bml (depth + 1) cw_set_top)
        else None)
     else Some 0)"
  by pat_completeness auto
termination by (relation "measure (\<lambda>(cs, bml, depth, t). t - depth)") auto

fun cse_depth_back :: "cw_set_element list \<Rightarrow> nat \<Rightarrow> nat \<Rightarrow> nat \<Rightarrow> nat option" where
  "cse_depth_back cs bml cw_work 0 = None"
| "cse_depth_back cs bml cw_work (Suc depth) =
    (if depth \<ge> cw_work then
       (if depth < length cs then
          (if bml = cs_blk (cs ! depth) then Some depth else cse_depth_back cs bml cw_work depth)
        else None)
     else Some 0)"

declare cse_depth_tp.simps [simp del]

definition cse_depth :: "bool \<Rightarrow> cw_set_element list \<Rightarrow> nat \<Rightarrow> nat \<Rightarrow> nat \<Rightarrow> nat option" where
  "cse_depth dollar_tlevel cs bml cw_work cw_depth =
    (if dollar_tlevel then cse_depth_tp cs bml cw_work cw_depth else cse_depth_back cs bml cw_work cw_depth)"

text \<open>The bitmap to search and the offset in it: the block read, or the element's block behind its last entry.\<close>

definition bmp_offset :: "bm_db \<Rightarrow> cw_set_element list \<Rightarrow> nat \<Rightarrow> nat \<Rightarrow> (int + bm_blk \<times> nat) option" where
  "bmp_offset db cs depth bml =
    (if 0 = depth then
       (case lcl_maps db bml of
          None \<Rightarrow> Some (Inl MAP_RD_FAIL)
        | Some bmp \<Rightarrow>
            Some (if BM_SIZE BLKS_PER_LMAP \<noteq> bsiz bmp \<or> LCL_MAP_LEVL \<noteq> levl bmp then Inl MAP_RD_FAIL else Inr (bmp, 0)))
     else
       (let cs1 = cs ! depth; i = reference_cnt cs1 - 1
        in if 0 \<le> i \<and> nat i < length (upd_addr cs1) then Some (Inr (old_block cs1, upd_addr cs1 ! nat i + 1)) else None))"

section \<open>The search loop\<close>

text \<open>How the loop is left: a return with a status, a bit found (its map, the element's depth, the map
  block, the bit, \<open>blk_used\<close>), or the loop count used up with no bit.\<close>

datatype getfree_exit = GfReturn int | GfFound nat nat bm_blk nat bool nat | GfExhausted

definition cycle_down :: "nat \<Rightarrow> nat \<Rightarrow> nat" where
  "cycle_down hint_limit hint_cycled = (if hint_limit < hint_cycled then hint_limit else 0)"

partial_function (option) getfree_loop ::
    "gdsfilext_t \<Rightarrow> bool \<Rightarrow> cw_set_element list \<Rightarrow> nat \<Rightarrow> nat \<Rightarrow> nat \<Rightarrow> bm_db \<Rightarrow> nat \<Rightarrow> nat \<Rightarrow> nat \<Rightarrow> nat \<Rightarrow> nat
      \<Rightarrow> (getfree_exit \<times> bm_db) option" where
  "getfree_loop ext tlevel cs cw_work cw_depth hint_limit db hint hint_cycled tot local_maps lcnt =
    (if lcnt = 0 then Some (GfExhausted, db)
     else do {
       bml \<leftarrow> bmm_find_free (hint div BLKS_PER_LMAP) (master_map db) local_maps;
       (case (case bml of None \<Rightarrow> None | Some bml \<Rightarrow> if bml \<ge> hint_cycled then None else Some bml) of
          None \<Rightarrow>
            if bml \<noteq> None \<and> hint_limit < hint_cycled
            then getfree_loop ext tlevel cs cw_work cw_depth hint_limit db 1 hint_limit tot local_maps (lcnt - 1)
            else (case ext (extension_size db) tot db of
                (Some status, db) \<Rightarrow> Some (GfReturn status, db)
              | (None, db) \<Rightarrow>
                  if acc_meth_mm db then Some (GfReturn FILE_EXTENDED, db)
                  else (let new_tot = total_blks db; hint_cycled = DIVIDE_ROUND_UP new_tot BLKS_PER_LMAP; local_maps = hint_cycled + 2
                        in getfree_loop ext tlevel cs cw_work cw_depth hint_limit db tot hint_cycled new_tot local_maps (local_maps + 1)))
        | Some bml \<Rightarrow> do {
            let bml = bml * BLKS_PER_LMAP;
            let (hint, hint_cycled) =
              (if ROUND_DOWN2 hint BLKS_PER_LMAP \<noteq> bml
               then (bml + 1, if bml < hint \<and> hint_cycled \<noteq> 0 then cycle_down hint_limit hint_cycled else hint_cycled)
               else (hint, hint_cycled));
            let msize = (if ROUND_DOWN2 tot BLKS_PER_LMAP = bml then tot - bml else BLKS_PER_LMAP);
            depth \<leftarrow> cse_depth tlevel cs bml cw_work cw_depth;
            bo \<leftarrow> bmp_offset db cs depth bml;
            (case bo of
               Inl status \<Rightarrow> Some (GfReturn status, db)
             | Inr (bmp, offset) \<Rightarrow> do {
                 free_bit \<leftarrow> (if offset < msize then bm_find_blk offset (lmap bmp) msize else Some None);
                 (case free_bit of
                    Some (b, blk_used) \<Rightarrow> Some (GfFound bml depth bmp b blk_used msize, db)
                  | None \<Rightarrow> do {
                      let hint = bml + BLKS_PER_LMAP;
                      let (hint, hint_cycled) =
                        (if hint \<ge> tot then (1, if hint_cycled \<noteq> 0 then cycle_down hint_limit hint_cycled else hint_cycled)
                         else (hint, hint_cycled));
                      db \<leftarrow> (if 0 = depth \<and> now_crit db then do {
                          (old, mm) \<leftarrow> bit_clear (bml div BLKS_PER_LMAP) (master_map db);
                          Some (db\<lparr>msgs := msgs db @ [ERR_DBMBMINCFREFIXED bml], master_map := mm\<rparr>)
                        } else Some db);
                      getfree_loop ext tlevel cs cw_work cw_depth hint_limit db hint hint_cycled tot local_maps (lcnt - 1)
                    })
               })
          })
     })"

section \<open>\<open>bm_getfree\<close>\<close>

text \<open>\<open>t_write_map\<close>: a new element at the end of the cw-set.\<close>

definition t_write_map :: "cw_set_element list \<Rightarrow> nat \<Rightarrow> bm_blk \<Rightarrow> nat list \<Rightarrow> int \<Rightarrow> cw_set_element list" where
  "t_write_map cs blk_num buffaddr upd ref_cnt =
    cs @ [\<lparr>cs_blk = blk_num, reference_cnt = ref_cnt, cs_level = unat LCL_MAP_LEVL, upd_addr = upd, old_block = buffaddr, new_buff = None\<rparr>]"

text \<open>\<open>GotNoBit\<close> is the fall-through with \<open>free_bit\<close> -1, \<open>GotAssert\<close> the \<open>assertpro\<close> for a bit outside the map.\<close>

datatype getfree_res = GotBlk nat bool | GotStatus int | GotNoBit | GotAssert

definition bm_getfree ::
    "gdsfilext_t \<Rightarrow> bool \<Rightarrow> nat \<Rightarrow> nat \<Rightarrow> nat \<Rightarrow> cw_set_element list \<Rightarrow> bm_db \<Rightarrow> (getfree_res \<times> cw_set_element list \<times> bm_db) option" where
  "bm_getfree ext tlevel t_tries hint cw_work cs db = do {
     let tot = (if acc_meth_mm db then csa_total_blks db else total_blks db);
     let hint = (if hint \<ge> tot then 1 else hint);
     let hint_cycled = DIVIDE_ROUND_UP tot BLKS_PER_LMAP;
     let hint_limit = hint div BLKS_PER_LMAP;
     let local_maps = hint_cycled + 2;
     (e, db) \<leftarrow> getfree_loop ext tlevel cs cw_work (length cs) hint_limit db hint hint_cycled tot local_maps (local_maps + 1);
     (case e of
        GfReturn status \<Rightarrow> Some (GotStatus status, cs, db)
      | GfExhausted \<Rightarrow> Some (GotNoBit, cs, db)
      | GfFound bml depth bmp free_bit blk_used msize \<Rightarrow>
          if msize \<le> free_bit \<and> CDB_STAGNATE \<le> t_tries then Some (GotAssert, cs, db)
          else if 0 \<noteq> depth then do {
            let cs1 = cs ! depth;
            let i = nat (reference_cnt cs1);
            if i < length (upd_addr cs1)
            then Some (GotBlk (bml + free_bit) blk_used,
              cs[depth := cs1\<lparr>upd_addr := (upd_addr cs1)[i := free_bit], reference_cnt := reference_cnt cs1 + 1\<rparr>], db)
            else None
          } else Some (GotBlk (bml + free_bit) blk_used,
              t_write_map cs bml bmp (free_bit # replicate BLKS_PER_LMAP 0) 1, db))
   }"

section \<open>The first allocation in a map\<close>

text \<open>A file ready for allocation: consistent, its maps readable, each map's own block busy, and room in the
  master map for the two bits past the last local map that the search looks at.\<close>

definition alloc_ready :: "bm_db \<Rightarrow> bool" where
  "alloc_ready db \<longleftrightarrow> bm_consistent db \<and> maps_readable db \<and> n_maps db + 2 \<le> 8 * length (master_map db) \<and>
     (\<not> acc_meth_mm db \<or> csa_total_blks db = total_blks db) \<and>
     (\<forall>i < n_maps db. case lcl_maps db (i * BLKS_PER_LMAP) of None \<Rightarrow> False | Some bp \<Rightarrow> GET_BM_STATUS (lmap bp) 0 = Some BLK_BUSY)"

lemma no_element: "length cs \<le> cw_work \<Longrightarrow> cs \<noteq> [] \<Longrightarrow> cse_depth tlevel cs bml cw_work (length cs) = Some 0"
  by (cases "length cs") (auto simp: cse_depth_def cse_depth_tp.simps)

lemma free_map:
  assumes r: "alloc_ready db" and i: "i < n_maps db" "mbit (master_map db) i"
  obtains bp b where "lcl_maps db (i * BLKS_PER_LMAP) = Some bp" "bsiz bp = BM_SIZE BLKS_PER_LMAP" "levl bp = LCL_MAP_LEVL"
    "0 < size_of_map db i" "bm_find_blk 0 (lmap bp) (size_of_map db i) = Some (Some (b, GET_BM_STATUS (lmap bp) b = Some BLK_RECYCLED))"
    "0 < b" "b < size_of_map db i" "GET_BM_STATUS (lmap bp) b \<noteq> Some BLK_BUSY"
proof -
  have c: "bm_consistent db" and m: "maps_readable db" using r by (simp_all add: alloc_ready_def)
  have b: "bplmap db = BLKS_PER_LMAP" "0 < bplmap db" using m by (simp_all add: maps_readable_def BLKS_PER_LMAP_def)
  obtain bp where bp: "lcl_maps db (i * BLKS_PER_LMAP) = Some bp" "map_ok db i bp" using c i(1) b(1) unfolding bm_consistent_def by auto
  have hd: "bsiz bp = BM_SIZE BLKS_PER_LMAP" "levl bp = LCL_MAP_LEVL" "GET_BM_STATUS (lmap bp) 0 = Some BLK_BUSY"
    using r m i(1) bp(1) by (auto simp: maps_readable_def alloc_ready_def)
  note sz = size_of_map_bounds [OF b(2) i(1)]
  have len: "map_bytes (size_of_map db i) \<le> length (lmap bp)" using bp(2) map_bytes_mono [OF sz(2)] by (simp add: map_ok_def)
  have inv: "\<forall>x < size_of_map db i. GET_BM_STATUS (lmap bp) x \<noteq> Some BLK_MAPINVALID" using bp(2) by (simp add: map_ok_def)
  let ?P = "\<lambda>x. GET_BM_STATUS (lmap bp) x \<noteq> Some BLK_BUSY"
  have "0 < free_in (lmap bp) (size_of_map db i)" using bp(2) i(2) by (simp add: map_ok_def)
  then have "filter ?P [0..<size_of_map db i] \<noteq> []" by (simp add: free_in_def)
  then obtain x where x: "find ?P [0..<size_of_map db i] = Some x" using find_filter_none [of ?P] by (cases "find ?P [0..<size_of_map db i]") auto
  have px: "?P x" using x by (auto simp: find_Some_iff)
  have "0 < x" using px hd(3) by (cases x) auto
  moreover have "bm_find_blk 0 (lmap bp) (size_of_map db i) = Some (Some (x, GET_BM_STATUS (lmap bp) x = Some BLK_RECYCLED))"
    using bm_find_map [OF sz(1) len inv] x by simp
  ultimately show ?thesis using that [OF bp(1) hd(1,2) sz(1)] find_filter(2) [OF x] px by blast
qed

lemma map_size_round: "map_size bpl tot blk = (if ROUND_DOWN2 tot bpl = blk then tot - blk else bpl)"
  by (simp add: map_size_def ROUND_DOWN2_def minus_mod_eq_div_mult)

text \<open>One round of the loop that meets a local map with room.\<close>

lemma loop_finds:
  assumes r: "alloc_ready db" and i: "i < n_maps db" "mbit (master_map db) i"
    and f: "bmm_find_free (hint div BLKS_PER_LMAP) (master_map db) lm = Some (Some i)" "i < hint_cycled" "0 < lcnt"
    and cs: "length cs \<le> cw_work" "cs \<noteq> []"
  shows "\<exists>bp b. lcl_maps db (i * BLKS_PER_LMAP) = Some bp \<and> 0 < b \<and> b < size_of_map db i \<and> GET_BM_STATUS (lmap bp) b \<noteq> Some BLK_BUSY \<and>
    getfree_loop ext tlevel cs cw_work (length cs) hint_limit db hint hint_cycled (total_blks db) lm lcnt =
      Some (GfFound (i * BLKS_PER_LMAP) 0 bp b (GET_BM_STATUS (lmap bp) b = Some BLK_RECYCLED) (size_of_map db i), db)"
proof -
  have b: "bplmap db = BLKS_PER_LMAP" using r by (simp add: alloc_ready_def maps_readable_def)
  obtain bp b where bp: "lcl_maps db (i * BLKS_PER_LMAP) = Some bp" "bsiz bp = BM_SIZE BLKS_PER_LMAP" "levl bp = LCL_MAP_LEVL"
    "0 < size_of_map db i" "bm_find_blk 0 (lmap bp) (size_of_map db i) = Some (Some (b, GET_BM_STATUS (lmap bp) b = Some BLK_RECYCLED))"
    "0 < b" "b < size_of_map db i" "GET_BM_STATUS (lmap bp) b \<noteq> Some BLK_BUSY" using free_map [OF r i] .
  have sz: "(if ROUND_DOWN2 (total_blks db) BLKS_PER_LMAP = i * BLKS_PER_LMAP then total_blks db - i * BLKS_PER_LMAP else BLKS_PER_LMAP) = size_of_map db i"
    by (simp add: size_of_map_def map_size_round b)
  have bo: "bmp_offset db cs 0 (i * BLKS_PER_LMAP) = Some (Inr (bp, 0))" using bp(1-3) by (simp add: bmp_offset_def)
  have "getfree_loop ext tlevel cs cw_work (length cs) hint_limit db hint hint_cycled (total_blks db) lm lcnt =
      Some (GfFound (i * BLKS_PER_LMAP) 0 bp b (GET_BM_STATUS (lmap bp) b = Some BLK_RECYCLED) (size_of_map db i), db)"
    using f bp(4,5) bo no_element [OF cs] by (subst getfree_loop.simps) (simp add: sz Let_def)
  then show ?thesis using bp by blast
qed

lemma first_bit_some: "first_bit m lo hi = Some i \<Longrightarrow> lo \<le> i \<and> i < hi \<and> mbit m i \<and> (\<forall>j. lo \<le> j \<longrightarrow> j < i \<longrightarrow> \<not> mbit m j)"
proof -
  assume f: "first_bit m lo hi = Some i"
  then have r: "lo \<le> i" "i < hi" using find_filter(1,2) [of "mbit m" lo hi i] by (simp_all add: first_bit_def)
  have p: "mbit m i" using f unfolding first_bit_def find_Some_iff by blast
  have "\<not> mbit m j" if "lo \<le> j" "j < i" for j
  proof
    assume j: "mbit m j"
    have "find (mbit m) [lo..<i] \<noteq> None" using that j by (auto simp: find_None_iff)
    then obtain k where k: "find (mbit m) [lo..<i] = Some k" by auto
    then have "first_bit m lo hi = Some k" using first_bit_append [of lo i hi m] r by (simp add: first_bit_def)
    then show False using f find_filter(2) [OF k] by simp
  qed
  then show ?thesis using r p by blast
qed

lemma first_bit_none: "first_bit m lo hi = None \<Longrightarrow> lo \<le> j \<Longrightarrow> j < hi \<Longrightarrow> \<not> mbit m j"
  by (auto simp: first_bit_def find_None_iff)

lemma some_free_map:
  assumes "bm_consistent db" "0 < free_blocks db"
  obtains i where "i < n_maps db" "mbit (master_map db) i"
proof -
  have "\<exists>i < n_maps db. 0 < free_at db i"
  proof (rule ccontr)
    assume "\<not> ?thesis"
    then have "(\<Sum>i < n_maps db. int (free_at db i)) = 0" by simp
    then show False using assms by (simp add: bm_consistent_def)
  qed
  then obtain i where i: "i < n_maps db" "0 < free_at db i" by blast
  then have "mbit (master_map db) i" using assms(1) unfolding bm_consistent_def map_ok_def free_at_def by fastforce
  then show ?thesis using that i(1) by blast
qed

lemma hint_map:
  assumes "x < tot" "0 < b"
  shows "x div b < DIVIDE_ROUND_UP tot b"
proof -
  have "(x div b + 1) * b \<le> tot + (b - 1)" using assms div_mult_mod_eq [of x b] by (simp only: add_mult_distrib)
  then show ?thesis unfolding DIVIDE_ROUND_UP_def by (simp add: less_eq_div_iff_mult_less_eq [OF assms(2)] Suc_le_eq [symmetric])
qed

text \<open>The loop reaches a local map with room in at most two rounds.\<close>

lemma loop_allocates:
  assumes r: "alloc_ready db" and f: "0 < free_blocks db" and cs: "length cs \<le> cw_work" "cs \<noteq> []" and h: "hint div BLKS_PER_LMAP < n_maps db"
  defines "lm \<equiv> n_maps db + 2"
  shows "\<exists>i bp b. i < n_maps db \<and> lcl_maps db (i * BLKS_PER_LMAP) = Some bp \<and> 0 < b \<and> b < size_of_map db i \<and>
    GET_BM_STATUS (lmap bp) b \<noteq> Some BLK_BUSY \<and>
    getfree_loop ext tlevel cs cw_work (length cs) (hint div BLKS_PER_LMAP) db hint (n_maps db) (total_blks db) lm (lm + 1) =
      Some (GfFound (i * BLKS_PER_LMAP) 0 bp b (GET_BM_STATUS (lmap bp) b = Some BLK_RECYCLED) (size_of_map db i), db)"
proof -
  let ?h = "hint div BLKS_PER_LMAP" and ?mm = "master_map db"
  have n: "lm \<le> 8 * length ?mm" "?h < lm" using r h by (simp_all add: alloc_ready_def lm_def)
  obtain i0 where i0: "i0 < n_maps db" "mbit ?mm i0" using some_free_map f r by (auto simp: alloc_ready_def)
  have fb: "bmm_find_free ?h ?mm lm = Some (case first_bit ?mm ?h lm of Some b \<Rightarrow> Some b | None \<Rightarrow> first_bit ?mm 0 ?h)"
    using bmm_find_free_ok [OF n(1), of ?h] n(2) by simp
  have fin: "bmm_find_free ?h ?mm lm = Some (Some i) \<Longrightarrow> i < n_maps db \<Longrightarrow> mbit ?mm i \<Longrightarrow> ?thesis" for i
    using loop_finds [OF r _ _ _ _ _ cs, of i hint lm "n_maps db" "lm + 1" ext tlevel ?h] by (simp del: One_nat_def) blast
  show ?thesis
  proof (cases "first_bit ?mm ?h lm")
    case None
    then have "i0 < ?h" using first_bit_none [OF None, of i0] i0 n(2) by (simp add: lm_def) (meson not_le less_trans lessI)
    then obtain i where i: "first_bit ?mm 0 ?h = Some i" using first_bit_none [of ?mm 0 ?h i0] i0(2) by (cases "first_bit ?mm 0 ?h") auto
    then show ?thesis using fin [of i] fb None first_bit_some [OF i] h by simp
  next
    case (Some j)
    note j = first_bit_some [OF Some]
    show ?thesis
    proof (cases "j < n_maps db")
      case True then show ?thesis using fin [of j] fb Some j by simp
    next
      case False
      then have i0h: "i0 < ?h" using j i0 by (meson not_le less_le_trans leI)
      have f0: "bmm_find_free (1 div BLKS_PER_LMAP) ?mm lm = Some (first_bit ?mm 0 lm)"
        using bmm_find_free_ok [OF n(1), of 0] by (simp add: BLKS_PER_LMAP_def first_bit_empty lm_def split: option.splits)
      obtain i where i: "first_bit ?mm 0 lm = Some i" using first_bit_none [of ?mm 0 lm i0] i0 by (cases "first_bit ?mm 0 lm") (auto simp: lm_def)
      note fi = first_bit_some [OF i]
      have "i \<le> i0" using fi i0(2) by (meson le0 not_le)
      then have "i < ?h" "i < n_maps db" using i0h i0(1) by simp_all
      then obtain bp b where l: "lcl_maps db (i * BLKS_PER_LMAP) = Some bp" "0 < b" "b < size_of_map db i" "GET_BM_STATUS (lmap bp) b \<noteq> Some BLK_BUSY"
        "getfree_loop ext tlevel cs cw_work (length cs) ?h db 1 ?h (total_blks db) lm lm =
          Some (GfFound (i * BLKS_PER_LMAP) 0 bp b (GET_BM_STATUS (lmap bp) b = Some BLK_RECYCLED) (size_of_map db i), db)"
        using loop_finds [OF r _ _ _ _ _ cs, of i 1 lm ?h lm ext tlevel ?h] f0 i fi by (auto simp: lm_def)
      have "getfree_loop ext tlevel cs cw_work (length cs) ?h db hint (n_maps db) (total_blks db) lm (lm + 1) =
          getfree_loop ext tlevel cs cw_work (length cs) ?h db 1 ?h (total_blks db) lm lm"
        using fb Some False h by (subst getfree_loop.simps) simp
      then show ?thesis using l \<open>i < n_maps db\<close> by metis
    qed
  qed
qed

lemma map_end:
  assumes "0 < bplmap db" "i < n_maps db"
  shows "i * bplmap db < total_blks db" "i * bplmap db + size_of_map db i \<le> total_blks db"
proof -
  let ?b = "bplmap db" and ?t = "total_blks db"
  have "i + 1 \<le> (?t + (?b - 1)) div ?b" using assms(2) by (simp add: n_maps_def DIVIDE_ROUND_UP_def)
  then have "(i + 1) * ?b \<le> ?t + (?b - 1)" by (simp only: less_eq_div_iff_mult_less_eq [OF assms(1)])
  then show l: "i * ?b < ?t" using assms(1) by (simp add: algebra_simps)
  show "i * ?b + size_of_map db i \<le> ?t"
  proof (cases "?t div ?b * ?b = i * ?b")
    case True then show ?thesis using l by (simp add: size_of_map_def map_size_def)
  next
    case False
    have "i \<le> ?t div ?b" using l by (simp add: less_eq_div_iff_mult_less_eq [OF assms(1)])
    then have "i + 1 \<le> ?t div ?b" using False by (cases "i = ?t div ?b") auto
    then have "(i + 1) * ?b \<le> ?t" by (simp only: less_eq_div_iff_mult_less_eq [OF assms(1)])
    then show ?thesis using False by (simp add: size_of_map_def map_size_def algebra_simps)
  qed
qed

text \<open>The element of a first allocation is one the commit accepts.\<close>

lemma new_element_valid:
  assumes "bplmap db = BLKS_PER_LMAP" "i < n_maps db" "lcl_maps db (i * BLKS_PER_LMAP) = Some bp" "0 < b" "b < size_of_map db i"
    "GET_BM_STATUS (lmap bp) b \<noteq> Some BLK_BUSY"
    and e: "e = \<lparr>cs_blk = i * BLKS_PER_LMAP, reference_cnt = 1, cs_level = l, upd_addr = b # replicate BLKS_PER_LMAP 0, old_block = bp, new_buff = None\<rparr>"
  shows "valid_update db e" "bitnums e = [b]"
proof -
  have p: "0 < bplmap db" using assms(1) by (simp add: BLKS_PER_LMAP_def)
  show n: "bitnums e = [b]" using assms(4) by (simp add: e bitnums_def BLKS_PER_LMAP_def)
  show "valid_update db e" unfolding valid_update_def n using assms map_end(1) [OF p assms(2)]
    by (simp add: size_of_map_def BLKS_PER_LMAP_def)
qed

lemma getfree_first:
  assumes r: "alloc_ready db" and f: "0 < free_blocks db" and cs: "length cs \<le> cw_work" "cs \<noteq> []"
  shows "\<exists>i bp b e. i < n_maps db \<and> lcl_maps db (i * BLKS_PER_LMAP) = Some bp \<and> 0 < b \<and> b < size_of_map db i \<and>
    GET_BM_STATUS (lmap bp) b \<noteq> Some BLK_BUSY \<and> valid_update db e \<and> bitnums e = [b] \<and> cs_blk e = i * BLKS_PER_LMAP \<and>
    reference_cnt e = 1 \<and> new_buff e = None \<and>
    bm_getfree ext tlevel t_tries hint cw_work cs db =
      Some (GotBlk (i * BLKS_PER_LMAP + b) (GET_BM_STATUS (lmap bp) b = Some BLK_RECYCLED), cs @ [e], db)"
proof -
  have m: "bplmap db = BLKS_PER_LMAP" "0 < total_blks db" using r by (simp_all add: alloc_ready_def maps_readable_def bm_consistent_def)
  have tot: "(if acc_meth_mm db then csa_total_blks db else total_blks db) = total_blks db" using r by (auto simp: alloc_ready_def)
  have n: "DIVIDE_ROUND_UP (total_blks db) BLKS_PER_LMAP = n_maps db" by (simp add: n_maps_def m(1))
  define h where "h = (if hint \<ge> total_blks db then 1 else hint)"
  have "h div BLKS_PER_LMAP < n_maps db"
  proof (cases "hint \<ge> total_blks db")
    case True
    then show ?thesis using hint_map [OF m(2), of BLKS_PER_LMAP] n by (simp add: h_def BLKS_PER_LMAP_def)
  next
    case False
    then show ?thesis using hint_map [of hint "total_blks db" BLKS_PER_LMAP] n by (simp add: h_def BLKS_PER_LMAP_def)
  qed
  from loop_allocates [OF r f cs this, of ext tlevel] obtain i bp b where l: "i < n_maps db" "lcl_maps db (i * BLKS_PER_LMAP) = Some bp"
    "0 < b" "b < size_of_map db i" "GET_BM_STATUS (lmap bp) b \<noteq> Some BLK_BUSY"
    "getfree_loop ext tlevel cs cw_work (length cs) (h div BLKS_PER_LMAP) db h (n_maps db) (total_blks db) (n_maps db + 2) (n_maps db + 2 + 1) =
      Some (GfFound (i * BLKS_PER_LMAP) 0 bp b (GET_BM_STATUS (lmap bp) b = Some BLK_RECYCLED) (size_of_map db i), db)" by blast
  define e where "e = \<lparr>cs_blk = i * BLKS_PER_LMAP, reference_cnt = 1, cs_level = unat LCL_MAP_LEVL, upd_addr = b # replicate BLKS_PER_LMAP 0,
    old_block = bp, new_buff = None\<rparr>"
  have "bm_getfree ext tlevel t_tries hint cw_work cs db =
      Some (GotBlk (i * BLKS_PER_LMAP + b) (GET_BM_STATUS (lmap bp) b = Some BLK_RECYCLED), cs @ [e], db)"
    unfolding bm_getfree_def Let_def tot n h_def [symmetric] using l(4,6) by (simp add: t_write_map_def e_def)
  moreover note new_element_valid [OF m(1) l(1-5) e_def]
  ultimately show ?thesis using l(1-5) by (intro exI [of _ i] exI [of _ bp] exI [of _ b] exI [of _ e]) (simp add: e_def)
qed

text \<open>
  C12. Allocation succeeds whenever a block is free: on a consistent file whose free count is not zero, \<open>bm_getfree\<close> for
  the first bitmap of a transaction returns from any hint, in or out of TP, without extending the file, a block
  of the file that is not busy in its local map, says whether the block is recycled, and appends to the cw-set an
  element that commits: \<open>gvcst_map_build\<close> and \<open>bm_update\<close> then return, the block is busy and the file is consistent.
\<close>

theorem getfree_allocates:
  assumes "alloc_ready db" "0 < free_blocks db" "length cs \<le> cw_work" "cs \<noteq> []"
  shows "\<exists>blk bp e db' bp'. bm_getfree ext tlevel t_tries hint cw_work cs db =
      Some (GotBlk blk (GET_BM_STATUS (lmap bp) (blk mod BLKS_PER_LMAP) = Some BLK_RECYCLED), cs @ [e], db) \<and>
    blk < total_blks db \<and> lcl_maps db (cs_blk e) = Some bp \<and> cs_blk e = blk - blk mod BLKS_PER_LMAP \<and>
    GET_BM_STATUS (lmap bp) (blk mod BLKS_PER_LMAP) \<noteq> Some BLK_BUSY \<and>
    mm_update_map g e ctn db = Some db' \<and> bm_consistent db' \<and> lcl_maps db' (cs_blk e) = Some bp' \<and>
    GET_BM_STATUS (lmap bp') (blk mod BLKS_PER_LMAP) = Some BLK_BUSY"
proof -
  obtain i bp b e where E: "i < n_maps db" "lcl_maps db (i * BLKS_PER_LMAP) = Some bp" "0 < b" "b < size_of_map db i"
    "GET_BM_STATUS (lmap bp) b \<noteq> Some BLK_BUSY" "valid_update db e" "bitnums e = [b]" "cs_blk e = i * BLKS_PER_LMAP"
    "reference_cnt e = 1" "new_buff e = None" "bm_getfree ext tlevel t_tries hint cw_work cs db =
      Some (GotBlk (i * BLKS_PER_LMAP + b) (GET_BM_STATUS (lmap bp) b = Some BLK_RECYCLED), cs @ [e], db)"
    using getfree_first [OF assms] by blast
  have c: "bm_consistent db" "bplmap db = BLKS_PER_LMAP" "0 < bplmap db"
    using assms(1) by (simp_all add: alloc_ready_def maps_readable_def BLKS_PER_LMAP_def)
  have "b < BLKS_PER_LMAP" using E(4) size_of_map_bounds(2) [OF c(3) E(1)] c(2) by simp
  then have m: "(i * BLKS_PER_LMAP + b) mod BLKS_PER_LMAP = b" "i * BLKS_PER_LMAP + b - b = cs_blk e" by (simp_all add: E(8))
  have t: "i * BLKS_PER_LMAP + b < total_blks db" using map_end(2) [OF c(3) E(1)] E(4) c(2) by simp
  obtain db' bp' where "mm_update_map g e ctn db = Some db'" "bm_consistent db'" "lcl_maps db' = (lcl_maps db)(cs_blk e \<mapsto> bp')"
    "GET_BM_STATUS (lmap bp') b = Some BLK_BUSY"
    using mm_update_map_ok [OF c(1) E(6,10), of g ctn] E(7,9) by auto
  then show ?thesis using E t m
    by (intro exI [of _ "i * BLKS_PER_LMAP + b"] exI [of _ bp] exI [of _ e] exI [of _ db'] exI [of _ bp']) simp
qed

definition demo_alloc :: bm_db where
  "demo_alloc = demo_file\<lparr>free_blocks := 2\<rparr>"

lemma demo_alloc_maps: "n_maps demo_alloc = 1" "size_of_map demo_alloc 0 = 3" "mbit (master_map demo_alloc) 0"
  using demo_file_maps by (simp_all add: demo_alloc_def n_maps_def size_of_map_def)

lemma demo_alloc_ready: "alloc_ready demo_alloc"
proof -
  have l: "lcl_maps demo_alloc 0 = Some demo_map" "bplmap demo_alloc = BLKS_PER_LMAP" "0 < total_blks demo_alloc" "length (master_map demo_alloc) = 1"
    by (simp_all add: demo_alloc_def demo_file_def demo_db_def BLKS_PER_LMAP_def)
  have len: "map_bytes BLKS_PER_LMAP \<le> length (lmap demo_map)" by (simp add: demo_map_def BLKS_PER_LMAP_def)
  have "map_ok demo_alloc 0 demo_map" using demo_map_valid demo_map_free demo_alloc_maps len l by (simp add: map_ok_def)
  moreover have "free_at demo_alloc 0 = 2" using l demo_map_free demo_alloc_maps by (simp add: free_at_def)
  moreover have "free_blocks demo_alloc = 2" by (simp add: demo_alloc_def)
  ultimately have "bm_consistent demo_alloc" using l demo_alloc_maps by (simp add: bm_consistent_def BLKS_PER_LMAP_def)
  moreover have "maps_readable demo_alloc"
  proof -
    have e: "n_maps demo_alloc = n_maps demo_file" "size_of_map demo_alloc i = size_of_map demo_file i" "master_map demo_alloc = master_map demo_file"
      "lcl_maps demo_alloc = lcl_maps demo_file" "bplmap demo_alloc = bplmap demo_file" for i
      by (simp_all add: demo_alloc_def n_maps_def size_of_map_def)
    show ?thesis using demo_file_readable unfolding maps_readable_def e .
  qed
  ultimately show ?thesis using l demo_alloc_maps demo_map_status
    by (simp add: alloc_ready_def demo_alloc_def demo_file_def demo_db_def blk_status_defs)
qed

theorem getfree_allocates_witness:
  "\<exists>blk used e. bm_getfree (\<lambda>x t db. (Some 1, db)) False 0 700 1 [demo_cs] demo_alloc = Some (GotBlk blk used, [demo_cs, e], demo_alloc) \<and> blk < 3"
proof -
  have "total_blks demo_alloc = 3" "0 < free_blocks demo_alloc" by (simp_all add: demo_alloc_def demo_file_def)
  then show ?thesis using getfree_allocates [OF demo_alloc_ready, of "[demo_cs]" 1] by fastforce
qed

end
