(* ===== verification/BmFresh.thy ===== *)
theory BmFresh
  imports BmGetfree
begin

text \<open>
  Several allocations in one transaction: whatever elements the cw-set already has, and whether or not the file is
  extended on the way, a block that \<open>bm_getfree\<close> returns was not allocated before by the same transaction.
\<close>

section \<open>What the search returns\<close>

text \<open>A local map with a status for each of its blocks.\<close>

definition map_sane :: "bm_blk \<Rightarrow> bool" where
  "map_sane bp \<longleftrightarrow> map_bytes BLKS_PER_LMAP \<le> length (lmap bp) \<and> (\<forall>b < BLKS_PER_LMAP. GET_BM_STATUS (lmap bp) b \<noteq> Some BLK_MAPINVALID)"

definition maps_sane :: "bm_db \<Rightarrow> bool" where
  "maps_sane db \<longleftrightarrow> (\<forall>bp \<in> ran (lcl_maps db). map_sane bp)"

definition found_ok :: "bool \<Rightarrow> cw_set_element list \<Rightarrow> nat \<Rightarrow> nat \<Rightarrow> getfree_exit \<times> bm_db \<Rightarrow> bool" where
  "found_ok tlevel cs cw_work cw_depth = (\<lambda>(r, db). case r of
     GfFound bml depth bmp b used msize \<Rightarrow> BLKS_PER_LMAP dvd bml \<and> cse_depth tlevel cs bml cw_work cw_depth = Some depth \<and>
       msize \<le> BLKS_PER_LMAP \<and> maps_sane db \<and>
       (\<exists>offset. bmp_offset db cs depth bml = Some (Inr (bmp, offset)) \<and> offset < msize \<and> bm_find_blk offset (lmap bmp) msize = Some (Some (b, used)))
   | _ \<Rightarrow> True)"

lemma last_map_size: "(if ROUND_DOWN2 tot BLKS_PER_LMAP = bml then tot - bml else BLKS_PER_LMAP) \<le> BLKS_PER_LMAP"
  using mod_less_divisor [of 512 tot] by (auto simp: ROUND_DOWN2_def BLKS_PER_LMAP_def)

text \<open>File extension keeps the maps sane.\<close>

definition ext_sane :: "gdsfilext_t \<Rightarrow> bool" where
  "ext_sane ext \<longleftrightarrow> (\<forall>x t d. maps_sane d \<longrightarrow> maps_sane (snd (ext x t d)))"

lemma found_ok_simps [simp]: "found_ok tlevel cs w d (GfReturn x, db)" "found_ok tlevel cs w d (GfExhausted, db)"
  by (simp_all add: found_ok_def)

lemma found_okI:
  "BLKS_PER_LMAP dvd bml \<Longrightarrow> cse_depth tlevel cs bml w d = Some depth \<Longrightarrow> msize \<le> BLKS_PER_LMAP \<Longrightarrow> maps_sane db \<Longrightarrow>
    bmp_offset db cs depth bml = Some (Inr (bmp, offset)) \<Longrightarrow> offset < msize \<Longrightarrow> bm_find_blk offset (lmap bmp) msize = Some (Some (b, used)) \<Longrightarrow>
    found_ok tlevel cs w d (GfFound bml depth bmp b used msize, db)"
  by (auto simp: found_ok_def)

lemma loop_found:
  assumes "getfree_loop ext tlevel cs cw_work cw_depth hint_limit db hint hint_cycled tot local_maps lcnt = Some r" "ext_sane ext" "maps_sane db"
  shows "found_ok tlevel cs cw_work cw_depth r"
  using assms(2,3)
proof (induction ext tlevel cs cw_work cw_depth hint_limit db hint hint_cycled tot local_maps lcnt r
    rule: getfree_loop.raw_induct)
  case (1 loop ext tlevel cs cw_work cw_depth hint_limit db hint hint_cycled tot local_maps lcnt r)
  note IH = 1(1) and body = 1(2) and sane = 1(3,4)
  show ?case
  proof (cases "lcnt = 0")
    case True then show ?thesis using body by (auto simp: found_ok_def)
  next
    case False
    then obtain m where m: "bmm_find_free (hint div BLKS_PER_LMAP) (master_map db) local_maps = Some m"
      using body by (auto simp: bind_eq_Some_conv)
    show ?thesis
    proof (cases "case m of None \<Rightarrow> None | Some bml \<Rightarrow> if bml \<ge> hint_cycled then None else Some bml")
      case None
      have e: "maps_sane d" if "ext (extension_size db) tot db = (x, d)" for x d
        using sane that unfolding ext_sane_def by (metis snd_conv)
      show ?thesis using body False m sane e unfolding if_not_P [OF False] m bind.bind_lunit None option.case
        by (auto simp: Let_def split: if_splits prod.splits option.splits intro: IH)
    next
      case (Some i)
      define bml where "bml = i * BLKS_PER_LMAP"
      define msize where "msize = (if ROUND_DOWN2 tot BLKS_PER_LMAP = bml then tot - bml else BLKS_PER_LMAP)"
      have ms: "msize \<le> BLKS_PER_LMAP" "BLKS_PER_LMAP dvd bml" unfolding msize_def bml_def by (rule last_map_size, simp)
      have sane': "maps_sane (db\<lparr>msgs := x, master_map := y\<rparr>)" for x y using sane(2) by (simp add: maps_sane_def)
      obtain hint2 hc2 where hh2: "(if ROUND_DOWN2 hint BLKS_PER_LMAP \<noteq> bml
          then (bml + 1, if bml < hint \<and> hint_cycled \<noteq> 0 then cycle_down hint_limit hint_cycled else hint_cycled) else (hint, hint_cycled)) = (hint2, hc2)"
        by (metis surj_pair)
      obtain hint3 hc3 where hh3: "(if bml + BLKS_PER_LMAP \<ge> tot then (1, if hc2 \<noteq> 0 then cycle_down hint_limit hc2 else hc2)
          else (bml + BLKS_PER_LMAP, hc2)) = (hint3, hc3)" by (metis surj_pair)
      note B = body [unfolded if_not_P [OF False] m bind.bind_lunit Some option.case bml_def [symmetric] msize_def [symmetric] Let_def hh2 prod.case hh3]
      obtain depth where d: "cse_depth tlevel cs bml cw_work cw_depth = Some depth" using B by (cases "cse_depth tlevel cs bml cw_work cw_depth") simp_all
      obtain bo where bo: "bmp_offset db cs depth bml = Some bo" using B d by (cases "bmp_offset db cs depth bml") simp_all
      show ?thesis
      proof (cases bo)
        case (Inl status) then show ?thesis using B d bo by auto
      next
        case (Inr x)
        obtain bmp offset where x: "x = (bmp, offset)" by (cases x)
        note B2 = B [unfolded d bo Inr x bind.bind_lunit sum.case prod.case]
        obtain fb where fb: "(if offset < msize then bm_find_blk offset (lmap bmp) msize else Some None) = Some fb"
          using B2 by (cases "if offset < msize then bm_find_blk offset (lmap bmp) msize else Some None") simp_all
        show ?thesis
        proof (cases fb)
          case None
          then show ?thesis using B2 unfolding fb bind.bind_lunit None option.case using sane sane'
            by (auto simp: bind_eq_Some_conv split: if_splits intro: IH)
        next
          case (Some q)
          then show ?thesis using B2 unfolding fb bind.bind_lunit Some option.case using fb [unfolded Some] d bo Inr x ms sane
            by (cases q) (auto split: if_splits intro: found_okI)
        qed
      qed
    qed
  qed
qed (rule assms(1))

section \<open>The blocks a transaction has allocated\<close>

definition bits_of :: "cw_set_element \<Rightarrow> nat list" where
  "bits_of e = take (nat (reference_cnt e)) (upd_addr e)"

definition allocated :: "nat \<Rightarrow> cw_set_element list \<Rightarrow> nat set" where
  "allocated cw_work cs = {cs_blk e + b | e b. e \<in> set (drop cw_work cs) \<and> b \<in> set (bits_of e)}"

text \<open>An element of the bitmaps: the bits in ascending order, none past the map.\<close>

definition elem_ok :: "cw_set_element \<Rightarrow> bool" where
  "elem_ok e \<longleftrightarrow> BLKS_PER_LMAP dvd cs_blk e \<and> 0 < reference_cnt e \<and> nat (reference_cnt e) \<le> length (upd_addr e) \<and>
     sorted_wrt (<) (bits_of e) \<and> (\<forall>b \<in> set (bits_of e). b < BLKS_PER_LMAP) \<and> map_sane (old_block e)"

definition cw_ok :: "nat \<Rightarrow> cw_set_element list \<Rightarrow> bool" where
  "cw_ok cw_work cs \<longleftrightarrow> 0 < cw_work \<and> cw_work \<le> length cs \<and> distinct (map cs_blk (drop cw_work cs)) \<and> (\<forall>e \<in> set (drop cw_work cs). elem_ok e)"

definition elem_at :: "cw_set_element list \<Rightarrow> nat \<Rightarrow> nat \<Rightarrow> nat \<Rightarrow> nat \<Rightarrow> bool" where
  "elem_at cs bml i n depth \<longleftrightarrow> (if depth = 0 then \<forall>j. i \<le> j \<and> j < n \<longrightarrow> cs_blk (cs ! j) \<noteq> bml
     else i \<le> depth \<and> depth < n \<and> cs_blk (cs ! depth) = bml)"

lemma depth_tp: "cse_depth_tp cs bml i (length cs) = Some depth \<Longrightarrow> 0 < i \<Longrightarrow> elem_at cs bml i (length cs) depth"
proof (induction "length cs - i" arbitrary: i)
  case 0
  then show ?case by (simp add: elem_at_def cse_depth_tp.simps [of cs bml i])
next
  case (Suc m)
  then have i: "i < length cs" by simp
  show ?case
  proof (cases "bml = cs_blk (cs ! i)")
    case True
    then have "cse_depth_tp cs bml i (length cs) = Some i" using i by (subst cse_depth_tp.simps) simp
    then show ?thesis using Suc.prems i True by (simp add: elem_at_def)
  next
    case False
    then have "cse_depth_tp cs bml (i + 1) (length cs) = Some depth" using Suc.prems(1) i by (simp add: cse_depth_tp.simps [of cs bml i])
    then have e: "elem_at cs bml (i + 1) (length cs) depth" using Suc.hyps(1) [of "i + 1"] Suc.hyps(2) by simp
    have "j = i \<or> i + 1 \<le> j" if "i \<le> j" for j using that by linarith
    then show ?thesis using e False unfolding elem_at_def by (auto split: if_splits)
  qed
qed

lemma depth_back: "cse_depth_back cs bml w n = Some depth \<Longrightarrow> n \<le> length cs \<Longrightarrow> 0 < w \<Longrightarrow> elem_at cs bml w n depth"
proof (induction n)
  case (Suc n)
  show ?case
  proof (cases "n \<ge> w \<and> bml \<noteq> cs_blk (cs ! n)")
    case True
    then have e: "elem_at cs bml w n depth" using Suc by simp
    have "j = n \<or> j < n" if "j < Suc n" for j using that by linarith
    then show ?thesis using e True unfolding elem_at_def by (auto split: if_splits)
  next
    case False
    then show ?thesis using Suc.prems by (auto simp: elem_at_def split: if_splits)
  qed
qed simp

lemma depth_elem: "cse_depth tlevel cs bml w (length cs) = Some depth \<Longrightarrow> 0 < w \<Longrightarrow> elem_at cs bml w (length cs) depth"
  by (auto simp: cse_depth_def intro: depth_tp depth_back split: if_splits)

lemma find_between:
  assumes "map_sane bp" "offset < msize" "msize \<le> BLKS_PER_LMAP" "bm_find_blk offset (lmap bp) msize = Some (Some (b, used))"
  shows "offset \<le> b" "b < msize" "GET_BM_STATUS (lmap bp) b \<noteq> Some BLK_BUSY" "used \<longleftrightarrow> GET_BM_STATUS (lmap bp) b = Some BLK_RECYCLED"
proof -
  have "map_bytes msize \<le> length (lmap bp)" using assms(1,3) by (auto simp: map_sane_def BLKS_PER_LMAP_def)
  moreover have "\<forall>b < msize. GET_BM_STATUS (lmap bp) b \<noteq> Some BLK_MAPINVALID" using assms(1,3) by (simp add: map_sane_def)
  ultimately have "map_option (\<lambda>b. (b, GET_BM_STATUS (lmap bp) b = Some BLK_RECYCLED)) (find (\<lambda>b. GET_BM_STATUS (lmap bp) b \<noteq> Some BLK_BUSY) [offset..<msize]) = Some (b, used)"
    using bm_find_map [OF assms(2)] assms(4) by simp
  then have "find (\<lambda>b. GET_BM_STATUS (lmap bp) b \<noteq> Some BLK_BUSY) [offset..<msize] = Some b" "used \<longleftrightarrow> GET_BM_STATUS (lmap bp) b = Some BLK_RECYCLED" by auto
  then show "offset \<le> b" "b < msize" "GET_BM_STATUS (lmap bp) b \<noteq> Some BLK_BUSY" "used \<longleftrightarrow> GET_BM_STATUS (lmap bp) b = Some BLK_RECYCLED"
    by (auto simp: find_Some_iff)
qed

text \<open>Blocks of different maps differ.\<close>

lemma same_map:
  assumes "BLKS_PER_LMAP dvd m" "BLKS_PER_LMAP dvd m'" "b < BLKS_PER_LMAP" "b' < BLKS_PER_LMAP" "m + b = m' + b'"
  shows "m = m'" "b = b'"
proof -
  have "(m + b) mod BLKS_PER_LMAP = b" using assms(1,3) by (auto elim!: dvdE)
  moreover have "(m' + b') mod BLKS_PER_LMAP = b'" using assms(2,4) by (auto elim!: dvdE)
  ultimately show "b = b'" "m = m'" using assms(5) by simp_all
qed

section \<open>A new block\<close>

lemma bits_snoc:
  assumes "0 < reference_cnt e" "nat (reference_cnt e) < length (upd_addr e)"
  shows "bits_of (e\<lparr>upd_addr := (upd_addr e)[nat (reference_cnt e) := b], reference_cnt := reference_cnt e + 1\<rparr>) = bits_of e @ [b]"
proof -
  define i where "i = nat (reference_cnt e)"
  have "nat (reference_cnt e + 1) = Suc i" using assms(1) by (simp add: i_def)
  then show ?thesis using assms(2) by (simp add: bits_of_def i_def [symmetric] take_Suc_conv_app_nth)
qed

lemma last_bit:
  assumes "elem_ok e" "x \<in> set (bits_of e)"
  shows "x \<le> upd_addr e ! nat (reference_cnt e - 1)"
proof -
  define n where "n = nat (reference_cnt e)"
  have e: "0 < n" "n \<le> length (upd_addr e)" "sorted_wrt (<) (bits_of e)" "bits_of e = take n (upd_addr e)" "nat (reference_cnt e - 1) = n - 1"
    using assms(1) by (auto simp: elem_ok_def n_def bits_of_def)
  obtain j where j: "j < n" "x = bits_of e ! j" using assms(2) e(2,4) by (auto simp: in_set_conv_nth)
  have "bits_of e ! j \<le> bits_of e ! (n - 1)"
  proof (cases "j = n - 1")
    case False
    then have "j < n - 1" using j(1) by simp
    then show ?thesis using sorted_wrt_nth_less [OF e(3), of j "n - 1"] e(1,2,4) by simp
  qed simp
  then show ?thesis using j e by simp
qed

lemma elem_of: "e \<in> set (drop w cs) \<longleftrightarrow> (\<exists>j. w \<le> j \<and> j < length cs \<and> e = cs ! j)"
proof
  assume "e \<in> set (drop w cs)"
  then obtain i where "i < length cs - w" "e = cs ! (w + i)" by (auto simp: in_set_conv_nth)
  then show "\<exists>j. w \<le> j \<and> j < length cs \<and> e = cs ! j" by (intro exI [of _ "w + i"]) auto
next
  assume "\<exists>j. w \<le> j \<and> j < length cs \<and> e = cs ! j"
  then obtain j where "w \<le> j" "j < length cs" "e = cs ! j" by blast
  then show "e \<in> set (drop w cs)" by (auto simp: in_set_conv_nth intro!: exI [of _ "j - w"])
qed

lemma cw_elem: "cw_ok w cs \<Longrightarrow> w \<le> j \<Longrightarrow> j < length cs \<Longrightarrow> elem_ok (cs ! j)"
  using elem_of [of "cs ! j" w cs] unfolding cw_ok_def by blast

text \<open>A block more in an element that is there.\<close>

lemma fresh_in_elem:
  assumes w: "cw_ok w cs" and d: "w \<le> d" "d < length cs" "nat (reference_cnt (cs ! d)) < length (upd_addr (cs ! d))"
    and b: "upd_addr (cs ! d) ! nat (reference_cnt (cs ! d) - 1) < b" "b < BLKS_PER_LMAP"
    and e': "e' = (cs ! d)\<lparr>upd_addr := (upd_addr (cs ! d))[nat (reference_cnt (cs ! d)) := b], reference_cnt := reference_cnt (cs ! d) + 1\<rparr>"
  shows "cs_blk (cs ! d) + b \<notin> allocated w cs" "allocated w (cs[d := e']) = insert (cs_blk (cs ! d) + b) (allocated w cs)" "cw_ok w (cs[d := e'])"
    "e' \<in> set (drop w (cs[d := e']))"
proof -
  let ?e = "cs ! d"
  have ok: "elem_ok (cs ! j)" if "w \<le> j" "j < length cs" for j by (rule cw_elem [OF w that])
  have dist: "j = d" if "w \<le> j" "j < length cs" "cs_blk (cs ! j) = cs_blk ?e" for j
  proof -
    have "map cs_blk (drop w cs) ! (j - w) = map cs_blk (drop w cs) ! (d - w)" using that d by simp
    then have "j - w = d - w" using w that(1,2) d by (subst nth_eq_iff_index_eq [symmetric, of "map cs_blk (drop w cs)"]) (auto simp: cw_ok_def)
    then show ?thesis using that(1) d(1) by simp
  qed
  have e: "0 < reference_cnt ?e" "elem_ok ?e" using ok [OF d(1,2)] by (auto simp: elem_ok_def)
  have bits: "bits_of e' = bits_of ?e @ [b]" "cs_blk e' = cs_blk ?e" "old_block e' = old_block ?e" unfolding e' using bits_snoc [OF e(1) d(3)] by simp_all
  have above: "x < b" if "x \<in> set (bits_of ?e)" for x using last_bit [OF e(2) that] b(1) by simp
  show "cs_blk ?e + b \<notin> allocated w cs"
  proof
    assume "cs_blk ?e + b \<in> allocated w cs"
    then obtain j x where j: "w \<le> j" "j < length cs" "x \<in> set (bits_of (cs ! j))" "cs_blk ?e + b = cs_blk (cs ! j) + x" by (auto simp: allocated_def elem_of)
    have "x < BLKS_PER_LMAP" "BLKS_PER_LMAP dvd cs_blk (cs ! j)" "BLKS_PER_LMAP dvd cs_blk ?e" using ok [OF j(1,2)] e(2) j(3) by (auto simp: elem_ok_def)
    then have "cs_blk ?e = cs_blk (cs ! j)" "b = x" using same_map [of "cs_blk ?e" "cs_blk (cs ! j)" b x] b(2) j(4) by simp_all
    then have "b \<in> set (bits_of ?e)" using dist [OF j(1,2)] j(3) by simp
    then show False using above by blast
  qed
  show "allocated w (cs[d := e']) = insert (cs_blk ?e + b) (allocated w cs)"
  proof (rule set_eqI)
    fix x
    have "x \<in> allocated w (cs[d := e']) \<longleftrightarrow> (\<exists>j y. w \<le> j \<and> j < length cs \<and> y \<in> set (bits_of (cs[d := e'] ! j)) \<and> x = cs_blk (cs[d := e'] ! j) + y)"
      by (auto simp: allocated_def elem_of)
    also have "\<dots> \<longleftrightarrow> x = cs_blk ?e + b \<or> (\<exists>j y. w \<le> j \<and> j < length cs \<and> y \<in> set (bits_of (cs ! j)) \<and> x = cs_blk (cs ! j) + y)"
      using d(1,2) bits by (auto simp: nth_list_update split: if_splits)
    also have "\<dots> \<longleftrightarrow> x \<in> insert (cs_blk ?e + b) (allocated w cs)" by (auto simp: allocated_def elem_of)
    finally show "x \<in> allocated w (cs[d := e']) \<longleftrightarrow> x \<in> insert (cs_blk ?e + b) (allocated w cs)" .
  qed
  have "map cs_blk (drop w (cs[d := e'])) = map cs_blk (drop w cs)"
  proof (rule nth_equalityI)
    fix i
    show "map cs_blk (drop w (cs[d := e'])) ! i = map cs_blk (drop w cs) ! i" if "i < length (map cs_blk (drop w (cs[d := e'])))"
      using that d(2) bits(2) by (cases "d = w + i") simp_all
  qed simp
  moreover have oke: "elem_ok e'"
    using e(2) bits above b(2) d(3) by (auto simp: elem_ok_def sorted_wrt_append) (simp_all add: e')
  moreover have "elem_ok (cs[d := e'] ! j)" if "w \<le> j" "j < length cs" for j using oke ok [OF that] that(2) by (cases "j = d") simp_all
  ultimately show "cw_ok w (cs[d := e'])" using w by (auto simp: cw_ok_def elem_of)
  show "e' \<in> set (drop w (cs[d := e']))" using d by (auto simp: elem_of)
qed

text \<open>The first block of a new element.\<close>

lemma fresh_new_elem:
  assumes w: "cw_ok w cs" and none: "\<And>j. w \<le> j \<Longrightarrow> j < length cs \<Longrightarrow> cs_blk (cs ! j) \<noteq> cs_blk e"
    and e: "elem_ok e" "bits_of e = [b]"
  shows "cs_blk e + b \<notin> allocated w cs" "allocated w (cs @ [e]) = insert (cs_blk e + b) (allocated w cs)" "cw_ok w (cs @ [e])"
    "e \<in> set (drop w (cs @ [e]))"
proof -
  have wl: "w \<le> length cs" using w by (simp add: cw_ok_def)
  have s: "set (drop w (cs @ [e])) = insert e (set (drop w cs))" using wl by simp
  show "cs_blk e + b \<notin> allocated w cs"
  proof
    assume "cs_blk e + b \<in> allocated w cs"
    then obtain j x where j: "w \<le> j" "j < length cs" "x \<in> set (bits_of (cs ! j))" "cs_blk e + b = cs_blk (cs ! j) + x" by (auto simp: allocated_def elem_of)
    have "elem_ok (cs ! j)" by (rule cw_elem [OF w j(1,2)])
    then have "cs_blk e = cs_blk (cs ! j)" using same_map(1) [of "cs_blk e" "cs_blk (cs ! j)" b x] e j(3,4) by (auto simp: elem_ok_def)
    then show False using none [OF j(1,2)] by simp
  qed
  have "cs_blk e + b \<in> allocated w (cs @ [e])" unfolding allocated_def s using e(2) by (intro CollectI exI [of _ e] exI [of _ b]) simp
  then show "allocated w (cs @ [e]) = insert (cs_blk e + b) (allocated w cs)" unfolding allocated_def s using e(2) by auto
  have "cs_blk e \<notin> cs_blk ` set (drop w cs)" using none by (force simp: elem_of)
  then show "cw_ok w (cs @ [e])" using w e(1) wl by (auto simp: cw_ok_def)
  show "e \<in> set (drop w (cs @ [e]))" unfolding s by simp
qed

text \<open>
  C13. One transaction never allocates a block twice: when \<open>bm_getfree\<close> returns a block, for whatever bitmap elements the
  transaction already has in its cw-set, from any hint, in or out of TP and with or without an extension of the
  file, the block is none of those recorded in these elements, it is not busy in the map its element refers to, and
  it is recorded: the elements then hold exactly the blocks from before and the new one, each element again with
  ascending bits.
\<close>

theorem getfree_fresh:
  assumes "cw_ok cw_work cs" "maps_sane db" "ext_sane ext" "bm_getfree ext tlevel t_tries hint cw_work cs db = Some (GotBlk blk used, cs', db')"
  shows "blk \<notin> allocated cw_work cs \<and> allocated cw_work cs' = insert blk (allocated cw_work cs) \<and> cw_ok cw_work cs' \<and>
    (\<exists>e \<in> set (drop cw_work cs'). cs_blk e = blk - blk mod BLKS_PER_LMAP \<and> blk mod BLKS_PER_LMAP \<in> set (bits_of e) \<and>
      GET_BM_STATUS (lmap (old_block e)) (blk mod BLKS_PER_LMAP) \<noteq> Some BLK_BUSY)"
proof -
  let ?B = BLKS_PER_LMAP
  have cw: "0 < cw_work" using assms(1) by (simp add: cw_ok_def)
  define tot where "tot = (if acc_meth_mm db then csa_total_blks db else total_blks db)"
  define hint' where "hint' = (if hint \<ge> tot then 1 else hint)"
  define hc where "hc = DIVIDE_ROUND_UP tot ?B"
  obtain g where g: "getfree_loop ext tlevel cs cw_work (length cs) (hint' div ?B) db hint' hc tot (hc + 2) (hc + 2 + 1) = Some g"
    using assms(4) unfolding bm_getfree_def Let_def tot_def [symmetric] hint'_def [symmetric] hc_def [symmetric]
    by (cases "getfree_loop ext tlevel cs cw_work (length cs) (hint' div ?B) db hint' hc tot (hc + 2) (hc + 2 + 1)") simp_all
  note G = assms(4) [unfolded bm_getfree_def Let_def, folded tot_def, folded hint'_def, folded hc_def, unfolded g bind.bind_lunit]
  obtain bml depth bmp b msize where gf: "g = (GfFound bml depth bmp b used msize, db')" "blk = bml + b"
    and up: "if depth \<noteq> 0 then nat (reference_cnt (cs ! depth)) < length (upd_addr (cs ! depth)) \<and>
        cs' = cs[depth := (cs ! depth)\<lparr>upd_addr := (upd_addr (cs ! depth))[nat (reference_cnt (cs ! depth)) := b], reference_cnt := reference_cnt (cs ! depth) + 1\<rparr>]
      else cs' = t_write_map cs bml bmp (b # replicate ?B 0) 1"
    using G by (cases g; cases "fst g") (auto simp: Let_def split: if_splits)
  have f: "?B dvd bml" "cse_depth tlevel cs bml cw_work (length cs) = Some depth" "msize \<le> ?B" "maps_sane db'"
    using loop_found [OF g assms(3,2)] by (simp_all add: gf(1) found_ok_def)
  obtain offset where o: "bmp_offset db' cs depth bml = Some (Inr (bmp, offset))" "offset < msize" "bm_find_blk offset (lmap bmp) msize = Some (Some (b, used))"
    using loop_found [OF g assms(3,2)] by (auto simp: gf(1) found_ok_def)
  have at: "elem_at cs bml cw_work (length cs) depth" by (rule depth_elem [OF f(2) cw])
  have blk: "blk mod ?B = b" "blk - blk mod ?B = bml" if "b < ?B" using gf(2) f(1) that by (auto elim!: dvdE)
  show ?thesis
  proof (cases "depth = 0")
    case True
    then have bmp: "lcl_maps db' bml = Some bmp" "offset = 0" using o(1) by (auto simp: bmp_offset_def split: option.splits if_splits)
    have sane: "map_sane bmp" using f(4) bmp(1) by (auto simp: maps_sane_def ran_def)
    note fb = find_between [OF sane o(2) f(3) o(3)]
    define e where "e = \<lparr>cs_blk = bml, reference_cnt = 1, cs_level = unat LCL_MAP_LEVL, upd_addr = b # replicate ?B 0, old_block = bmp, new_buff = None\<rparr>"
    have e: "elem_ok e" "bits_of e = [b]" "cs' = cs @ [e]" "cs_blk e = bml" "old_block e = bmp"
      using f(1,3) fb(2) sane up True by (simp_all add: elem_ok_def e_def bits_of_def t_write_map_def)
    have "\<And>j. cw_work \<le> j \<Longrightarrow> j < length cs \<Longrightarrow> cs_blk (cs ! j) \<noteq> cs_blk e" using at True by (simp add: elem_at_def e_def)
    note N = fresh_new_elem [OF assms(1) this e(1,2)]
    show ?thesis using N e fb f(3) blk gf(2) by (auto intro!: bexI [of _ e])
  next
    case False
    then have d: "cw_work \<le> depth" "depth < length cs" "cs_blk (cs ! depth) = bml" using at by (simp_all add: elem_at_def)
    have ok: "elem_ok (cs ! depth)" by (rule cw_elem [OF assms(1) d(1,2)])
    have bmp: "bmp = old_block (cs ! depth)" "offset = upd_addr (cs ! depth) ! nat (reference_cnt (cs ! depth) - 1) + 1"
      using o(1) False by (auto simp: bmp_offset_def Let_def split: if_splits)
    have sane: "map_sane bmp" using ok bmp(1) by (simp add: elem_ok_def)
    note fb = find_between [OF sane o(2) f(3) o(3)]
    define e where "e = (cs ! depth)\<lparr>upd_addr := (upd_addr (cs ! depth))[nat (reference_cnt (cs ! depth)) := b], reference_cnt := reference_cnt (cs ! depth) + 1\<rparr>"
    have u: "nat (reference_cnt (cs ! depth)) < length (upd_addr (cs ! depth))" "cs' = cs[depth := e]" using up False by (simp_all add: e_def)
    have lt: "upd_addr (cs ! depth) ! nat (reference_cnt (cs ! depth) - 1) < b" "b < ?B" using fb(1,2) f(3) bmp(2) by simp_all
    note N = fresh_in_elem [OF assms(1) d(1,2) u(1) lt e_def]
    have "bits_of e = bits_of (cs ! depth) @ [b]" unfolding e_def using ok u(1) by (intro bits_snoc) (simp_all add: elem_ok_def)
    moreover have "cs_blk e = bml" "old_block e = bmp" by (simp_all add: e_def d(3) bmp(1))
    ultimately show ?thesis using N u(2) d(3) fb blk [OF lt(2)] gf(2) by (auto intro!: bexI [of _ e])
  qed
qed

text \<open>A second allocation in the file of three blocks, when block 1 is already in the cw-set.\<close>

definition demo_elem :: cw_set_element where
  "demo_elem = \<lparr>cs_blk = 0, reference_cnt = 1, cs_level = 255, upd_addr = 1 # replicate 512 0, old_block = demo_map, new_buff = None\<rparr>"

lemma demo_map_sane: "map_sane demo_map"
proof -
  have "GET_BM_STATUS (lmap demo_map) b \<noteq> Some BLK_MAPINVALID" if b: "b < 512" for b
  proof (cases "b < 4")
    case True
    then have "b = 0 \<or> b = 1 \<or> b = 2 \<or> b = 3" by linarith
    then show ?thesis by (elim disjE) (simp_all add: GET_BM_STATUS_def rdb_def BML_BITS_PER_BLK_def demo_map_def blk_status_defs)
  next
    case False
    define j where "j = b * 2 div 8 - 1"
    have "b * 2 div 8 = Suc j" "j < 127" using False b by (auto simp: j_def)
    then have "GET_BM_STATUS (lmap demo_map) b = Some 0" by (simp add: GET_BM_STATUS_def rdb_def BML_BITS_PER_BLK_def demo_map_def)
    then show ?thesis by (simp add: blk_status_defs)
  qed
  then show ?thesis by (simp add: map_sane_def BLKS_PER_LMAP_def) (simp add: demo_map_def)
qed

lemma demo_cw_ok: "cw_ok 1 [demo_cs, demo_elem]" "allocated 1 [demo_cs, demo_elem] = {1}"
  using demo_map_sane by (simp_all add: cw_ok_def elem_ok_def allocated_def bits_of_def demo_elem_def BLKS_PER_LMAP_def)

lemma demo_second: "\<exists>cs'. bm_getfree (\<lambda>x t db. (Some 1, db)) False 0 700 1 [demo_cs, demo_elem] demo_alloc = Some (GotBlk 2 False, cs', demo_alloc)"
proof -
  have b: "acc_meth_mm demo_alloc = False" "total_blks demo_alloc = 3" "master_map demo_alloc = [1]"
    by (simp_all add: demo_alloc_def demo_file_def demo_db_def)
  have m: "bmm_find_free 0 [1] 3 = Some (Some 0)" by code_simp
  have d: "cse_depth False [demo_cs, demo_elem] 0 1 2 = Some 1" by (simp add: cse_depth_def demo_elem_def numeral_2_eq_2)
  have o: "bmp_offset demo_alloc [demo_cs, demo_elem] 1 0 = Some (Inr (demo_map, 2))" by (simp add: bmp_offset_def demo_elem_def)
  have f: "bm_find_blk 2 (lmap demo_map) 3 = Some (Some (2, False))"
  proof -
    have "[2..<3] = [2 :: nat]" by code_simp
    moreover have "map_bytes 3 \<le> length (lmap demo_map)" by (simp add: demo_map_def)
    moreover have "\<forall>b < 3. GET_BM_STATUS (lmap demo_map) b \<noteq> Some BLK_MAPINVALID" using demo_map_valid by blast
    moreover have "BLK_BUSY \<noteq> 1" "BLK_RECYCLED \<noteq> 1" by (simp_all add: blk_status_defs)
    ultimately show ?thesis using bm_find_map [of 2 3 "lmap demo_map"] demo_map_status(3) by simp
  qed
  have "getfree_loop (\<lambda>x t db. (Some 1, db)) False [demo_cs, demo_elem] 1 2 0 demo_alloc 1 1 3 3 4 = Some (GfFound 0 1 demo_map 2 False 3, demo_alloc)"
    using m d o f b by (subst getfree_loop.simps) (simp add: BLKS_PER_LMAP_def ROUND_DOWN2_def)
  moreover have "DIVIDE_ROUND_UP 3 BLKS_PER_LMAP = 1" "1 div BLKS_PER_LMAP = 0" "length [demo_cs, demo_elem] = 2" "(1 :: nat) + 2 = 3" "(3 :: nat) + 1 = 4"
    "[demo_cs, demo_elem] ! 1 = demo_elem" "(700 :: nat) \<ge> 3" by (simp_all add: BLKS_PER_LMAP_def DIVIDE_ROUND_UP_def)
  moreover have "nat (reference_cnt demo_elem) < length (upd_addr demo_elem)" by (simp add: demo_elem_def)
  ultimately show ?thesis unfolding bm_getfree_def Let_def b if_False if_True by (simp only: bind.bind_lunit prod.case getfree_exit.case) simp
qed

theorem getfree_fresh_witness:
  "\<exists>cs'. bm_getfree (\<lambda>x t db. (Some 1, db)) False 0 700 1 [demo_cs, demo_elem] demo_alloc = Some (GotBlk 2 False, cs', demo_alloc) \<and>
    allocated 1 cs' = {1, 2} \<and> cw_ok 1 cs'"
proof -
  obtain cs' where c: "bm_getfree (\<lambda>x t db. (Some 1, db)) False 0 700 1 [demo_cs, demo_elem] demo_alloc = Some (GotBlk 2 False, cs', demo_alloc)"
    using demo_second by blast
  have s: "maps_sane demo_alloc" "ext_sane (\<lambda>x t db. (Some 1, db))"
    using demo_map_sane by (auto simp: maps_sane_def ext_sane_def demo_alloc_def demo_file_def ran_def)
  show ?thesis using getfree_fresh [OF demo_cw_ok(1) s c] demo_cw_ok(2) c by auto
qed

end
