(* ===== verification/GvBlk.thy ===== *)
theory GvBlk
  imports Bitmap "HOL-Library.List_Lexorder"
begin

text \<open>
  Searching a block of the B-tree: records with prefix-compressed keys behind a block header
  (\<open>gdsblk.h\<close>), the search of a block for a key (\<open>gvcst_search_blk\<close>, \<open>gvcst_blk_search.h\<close>) and the
  expansion of a compressed key (\<open>gvcst_expand_key.c\<close>).  A block is a byte list, a pointer into it an index;
  multi-byte fields are little-endian; a read outside the block or the key buffer is \<open>None\<close>.
\<close>

section \<open>Record and block headers (\<open>gdsblk.h\<close>)\<close>

datatype cdb_sc = cdb_sc_normal | cdb_sc_rmisalign | cdb_sc_r2small | cdb_sc_mkblk | cdb_sc_blkmod | cdb_sc_badoffset | cdb_sc_blklenerr

definition SIZEOF_rec_hdr :: nat where "SIZEOF_rec_hdr = 4"

definition GET_USHORT :: "bytes \<Rightarrow> nat \<Rightarrow> nat option" where
  "GET_USHORT blk p = do { a \<leftarrow> rdb blk p; b \<leftarrow> rdb blk (p + 1); Some (unat a + 256 * unat b) }"

definition GET_ULONG :: "bytes \<Rightarrow> nat \<Rightarrow> nat option" where
  "GET_ULONG blk p = do { a \<leftarrow> GET_USHORT blk p; b \<leftarrow> GET_USHORT blk (p + 2); Some (a + 65536 * b) }"

definition EVAL_CMPC2 :: "bytes \<Rightarrow> nat \<Rightarrow> nat option" where
  "EVAL_CMPC2 blk rp = do {
     cmpc \<leftarrow> rdb blk (rp + 2);
     let v = unat cmpc;
     if 253 \<le> v then do { cmpc2 \<leftarrow> rdb blk (rp + 3); Some ((253 + (v - 253) * 256 + unat cmpc2) mod 1024) }
     else Some v
   }"

text \<open>The two bytes \<open>SET_CMPC\<close> leaves in the record header, from the old second byte.\<close>

definition SET_CMPC :: "nat \<Rightarrow> byte \<Rightarrow> byte \<times> byte" where
  "SET_CMPC v cmpc2 =
    (if 253 > v then (of_nat v, cmpc2)
     else (of_nat (253 + (v - 253) div 256), of_nat ((v - 253) mod 256)))"

definition IS_64_BLK_ID :: "bytes \<Rightarrow> bool option" where
  "IS_64_BLK_ID blk = do { v \<leftarrow> GET_USHORT blk 0; Some (1 < v) }"

definition bstar_rec_size :: "bool \<Rightarrow> nat" where
  "bstar_rec_size long_blk_id = (if long_blk_id then SIZEOF_rec_hdr + 8 else SIZEOF_rec_hdr + 4)"

section \<open>Searching a block (\<open>gvcst_search_blk\<close>)\<close>

text \<open>The variant without \<open>expand_prev_key\<close>, which would leave the key of the previous record in \<open>gv_altkey\<close> besides.\<close>

record srch_rec_status =
  offset :: nat
  match :: nat

record srch_blk_status =
  prev_rec :: srch_rec_status
  curr_rec :: srch_rec_status

text \<open>Comparing the target with the key of a record: the last difference, the target position and its remaining length.\<close>

function cmp_loop :: "bytes \<Rightarrow> bytes \<Rightarrow> nat \<Rightarrow> nat \<Rightarrow> int \<Rightarrow> (int \<times> nat \<times> int) option" where
  "cmp_loop blk base pRec pCurrTarg nTargLen =
    (if pCurrTarg < length base then do {
       r \<leftarrow> rdb blk pRec;
       let nFlg = uint (base ! pCurrTarg) - uint r;
       if nFlg \<noteq> 0 then Some (nFlg, pCurrTarg, nTargLen)
       else if nTargLen - 1 = 0 then Some (nFlg, pCurrTarg + 1, nTargLen - 1)
       else cmp_loop blk base (pRec + 1) (pCurrTarg + 1) (nTargLen - 1)
     } else None)"
  by pat_completeness auto
termination by (relation "measure (\<lambda>(blk, base, pRec, pCurrTarg, nTargLen). length base - pCurrTarg)") auto

declare cmp_loop.simps [simp del]

text \<open>
  The loop over the records.  \<open>Inl\<close> is a failure, \<open>Inr\<close> gives previous record, its match, current record and its
  match; \<open>pPrevRec\<close> is \<open>None\<close> as long as the variable has no value.
\<close>

partial_function (option) search_loop ::
    "bytes \<Rightarrow> nat \<Rightarrow> bool \<Rightarrow> nat \<Rightarrow> bytes \<Rightarrow> nat \<Rightarrow> nat \<Rightarrow> nat option \<Rightarrow> nat \<Rightarrow> nat \<Rightarrow> int
      \<Rightarrow> (cdb_sc + nat option \<times> nat \<times> nat \<times> nat) option" where
  "search_loop blk pTop level0 star base pRecBase nRecLen pPrevRec nMatchCnt pCurrTarg nTargLen = do {
     let pRec = pRecBase + nRecLen;
     if pRec \<ge> pTop then
       (if pRec > pTop then Some (Inl cdb_sc_blklenerr)
        else if \<not> level0 then Some (Inr (pPrevRec, 0, pRecBase, 0))
        else Some (Inr (Some pRecBase, nMatchCnt, pRec, 0)))
     else do {
       nRecLen \<leftarrow> GET_USHORT blk pRec;
       if nRecLen = 0 then Some (Inl cdb_sc_badoffset)
       else do {
         let pPrevRec = Some pRecBase;
         let pRecBase = pRec;
         nTmp \<leftarrow> EVAL_CMPC2 blk pRec;
         if nTmp > nMatchCnt
         then search_loop blk pTop level0 star base pRecBase nRecLen pPrevRec nMatchCnt pCurrTarg nTargLen
         else if nTmp < nMatchCnt
         then Some (Inr (pPrevRec, nMatchCnt, pRecBase, if star = nRecLen \<and> \<not> level0 then 0 else nTmp))
         else do {
           (nFlg, pCurrTarg, nTargLen) \<leftarrow> cmp_loop blk base (pRec + SIZEOF_rec_hdr) pCurrTarg nTargLen;
           if 0 < nFlg
           then search_loop blk pTop level0 star base pRecBase nRecLen pPrevRec pCurrTarg pCurrTarg nTargLen
           else Some (Inr (pPrevRec, nMatchCnt, pRecBase, if star = nRecLen \<and> \<not> level0 then 0 else pCurrTarg))
         }
       }
     }
   }"

definition gvcst_search_blk :: "bytes \<Rightarrow> nat \<Rightarrow> bytes \<Rightarrow> nat \<Rightarrow> (cdb_sc + srch_blk_status) option" where
  "gvcst_search_blk blk blk_size base key_end = do {
     long_blk_id \<leftarrow> IS_64_BLK_ID blk;
     lev \<leftarrow> rdb blk 3;
     blen \<leftarrow> GET_ULONG blk 4;
     r \<leftarrow> search_loop blk (min blen blk_size) (lev = 0) (bstar_rec_size long_blk_id) base 0 SIZEOF_blk_hdr None 0 0 (int key_end + 1);
     (case r of
        Inl e \<Rightarrow> Some (Inl e)
      | Inr (pPrevRec, nMatchCnt, pRecBase, nTargLen) \<Rightarrow> do {
          p \<leftarrow> pPrevRec;
          Some (Inr \<lparr>prev_rec = \<lparr>offset = p mod 65536, match = nMatchCnt mod 65536\<rparr>,
            curr_rec = \<lparr>offset = pRecBase mod 65536, match = nTargLen mod 65536\<rparr>\<rparr>)
        })
   }"

section \<open>Expanding a key (\<open>gvcst_expand_key.c\<close>)\<close>

text \<open>\<open>memcpy\<close> of \<open>n\<close> bytes of the block at \<open>src\<close> into the key buffer at \<open>dst\<close>.\<close>

definition copy_key :: "bytes \<Rightarrow> nat \<Rightarrow> bytes \<Rightarrow> nat \<Rightarrow> nat \<Rightarrow> bytes option" where
  "copy_key base dst blk src n =
    (if src + n \<le> length blk \<and> dst + n \<le> length base
     then Some (take dst base @ take n (drop src blk) @ drop (dst + n) base) else None)"

text \<open>The loop over the records up to \<open>rtop\<close>; \<open>Inl\<close> is a failure with the buffer as it is then, \<open>Inr\<close> the buffer, the compressed length and the rest of the key.\<close>

partial_function (option) expand_loop ::
    "bytes \<Rightarrow> nat \<Rightarrow> nat \<Rightarrow> nat \<Rightarrow> nat \<Rightarrow> bytes \<Rightarrow> nat \<Rightarrow> nat option \<Rightarrow> (cdb_sc \<times> bytes + bytes \<times> nat \<times> nat) option" where
  "expand_loop blk rtop key_top rp r_offset base expKeyCmpLen expKeyUnCmp =
    (if r_offset < SIZEOF_rec_hdr then Some (Inl (cdb_sc_r2small, base))
     else do {
       let rp = rp + r_offset;
       if rp > rtop then Some (Inl (cdb_sc_rmisalign, base))
       else do {
         nTmp \<leftarrow> EVAL_CMPC2 blk rp;
         r \<leftarrow> (if nTmp > expKeyCmpLen then
                (if nTmp \<ge> key_top then Some (Inl (cdb_sc_blkmod, base))
                 else (case expKeyUnCmp of
                     None \<Rightarrow> Some (Inl (cdb_sc_blkmod, base))
                   | Some p \<Rightarrow> do { b \<leftarrow> copy_key base expKeyCmpLen blk p (nTmp - expKeyCmpLen); Some (Inr b) }))
              else Some (Inr base));
         (case r of
            Inl e \<Rightarrow> Some (Inl e)
          | Inr base \<Rightarrow>
              if rp = rtop then Some (Inr (base, nTmp, rp + SIZEOF_rec_hdr))
              else do {
                r_offset \<leftarrow> GET_USHORT blk rp;
                expand_loop blk rtop key_top rp r_offset base nTmp (Some (rp + SIZEOF_rec_hdr))
              })
       }
     })"

text \<open>The position of the second of two successive zero bytes; the inner \<open>None\<close> is the end of the block.\<close>

function scan_delims :: "bytes \<Rightarrow> nat \<Rightarrow> nat \<Rightarrow> nat option option" where
  "scan_delims blk pTop tmpPtr =
    (if tmpPtr \<ge> pTop then Some None
     else do {
       a \<leftarrow> rdb blk tmpPtr;
       if a = 0 then do {
         b \<leftarrow> rdb blk (tmpPtr + 1);
         if b = 0 then Some (Some (tmpPtr + 1)) else scan_delims blk pTop (tmpPtr + 1)
       } else scan_delims blk pTop (tmpPtr + 1)
     })"
  by pat_completeness auto
termination by (relation "measure (\<lambda>(blk, pTop, tmpPtr). pTop - tmpPtr)") auto

declare scan_delims.simps [simp del]

text \<open>
  The key buffer \<open>base\<close> has \<open>key->top\<close> bytes.  The result is the code, the buffer and the end of the key, 0 when it
  was not set.
\<close>

definition gvcst_expand_key :: "bytes \<Rightarrow> nat \<Rightarrow> nat \<Rightarrow> bytes \<Rightarrow> (cdb_sc \<times> bytes \<times> nat) option" where
  "gvcst_expand_key blk blk_size rec_top base = do {
     r \<leftarrow> expand_loop blk rec_top (length base) 0 SIZEOF_blk_hdr base 0 None;
     (case r of
        Inl (e, base) \<Rightarrow> Some (e, base, 0)
      | Inr (base, expKeyCmpLen, expKeyUnCmp) \<Rightarrow> do {
          blen \<leftarrow> GET_ULONG blk 4;
          d \<leftarrow> scan_delims blk (min blen blk_size - 1) expKeyUnCmp;
          (case d of
             None \<Rightarrow> Some (cdb_sc_blkmod, base, 0)
           | Some tmpPtr \<Rightarrow> do {
               let expKeyUnCmpLen = tmpPtr + 1 - expKeyUnCmp;
               if expKeyCmpLen + expKeyUnCmpLen > length base then Some (cdb_sc_blkmod, base, 0)
               else do {
                 base \<leftarrow> copy_key base expKeyCmpLen blk expKeyUnCmp expKeyUnCmpLen;
                 b0 \<leftarrow> rdb base 0;
                 if b0 = 0 then Some (cdb_sc_mkblk, base, 0)
                 else do {
                   let key_end = expKeyCmpLen + (expKeyUnCmpLen - 1);
                   let base = base[key_end := 0, key_end - 1 := 0];
                   b \<leftarrow> rdb base (key_end - 2);
                   Some (if b = 0 then cdb_sc_mkblk else cdb_sc_normal, base, key_end)
                 }
               }
             })
        })
   }"

section \<open>Common prefixes and the order of keys\<close>

fun lcp :: "'a list \<Rightarrow> 'a list \<Rightarrow> nat" where
  "lcp (x # xs) (y # ys) = (if x = y then Suc (lcp xs ys) else 0)"
| "lcp xs ys = 0"

lemma lcp_len: "lcp a b \<le> length a" "lcp a b \<le> length b"
  by (induction a b rule: lcp.induct) auto

lemma lcp_nth: "i < lcp a b \<Longrightarrow> a ! i = b ! i"
  by (induction a b arbitrary: i rule: lcp.induct) (auto simp: nth_Cons split: nat.splits if_splits)

lemma lcp_diff: "lcp a b < length a \<Longrightarrow> lcp a b < length b \<Longrightarrow> a ! lcp a b \<noteq> b ! lcp a b"
  by (induction a b rule: lcp.induct) auto

lemma lcp_eqI: "n < length a \<Longrightarrow> n < length b \<Longrightarrow> (\<And>i. i < n \<Longrightarrow> a ! i = b ! i) \<Longrightarrow> a ! n \<noteq> b ! n \<Longrightarrow> lcp a b = n"
proof -
  assume n: "n < length a" "n < length b" and e: "\<And>i. i < n \<Longrightarrow> a ! i = b ! i" and d: "a ! n \<noteq> b ! n"
  have "\<not> lcp a b < n" using lcp_diff [of a b] e n by (meson less_trans)
  moreover have "\<not> n < lcp a b" using lcp_nth [of n a b] d by blast
  ultimately show ?thesis by linarith
qed

lemma lcp_commute: "lcp a b = lcp b a"
  by (induction a b rule: lcp.induct) auto

lemma lcp_same [simp]: "lcp a a = length a"
  by (induction a) auto

text \<open>The order of two keys at their first difference.\<close>

definition klt :: "bytes \<Rightarrow> bytes \<Rightarrow> bool" where
  "klt a b \<longleftrightarrow> lcp a b < length a \<and> lcp a b < length b \<and> a ! lcp a b < b ! lcp a b"

text \<open>A key ends with the first two successive zero bytes it has.\<close>

definition gkey_ok :: "bytes \<Rightarrow> bool" where
  "gkey_ok k \<longleftrightarrow> 2 < length k \<and> k ! (length k - 2) = 0 \<and> k ! (length k - 1) = 0 \<and>
     (\<forall>i < length k - 2. \<not> (k ! i = 0 \<and> k ! (i + 1) = 0))"

lemma prefix_free:
  assumes "gkey_ok a" "gkey_ok b" "a \<noteq> b"
  shows "lcp a b < length a"
proof (rule ccontr)
  assume "\<not> ?thesis"
  then have l: "lcp a b = length a" using lcp_len(1) [of a b] by simp
  have n: "length a \<le> length b" "2 < length a" using lcp_len(2) [of a b] l assms(1) by (auto simp: gkey_ok_def)
  have e: "a ! i = b ! i" if "i < length a" for i using lcp_nth [of i a b] l that by simp
  have "length a = length b"
  proof (rule ccontr)
    assume "length a \<noteq> length b"
    then have "length a - 2 < length b - 2" using n by linarith
    moreover have "length a - 2 + 1 = length a - 1" using n(2) by simp
    ultimately show False using assms(1,2) e [of "length a - 2"] e [of "length a - 1"] n(2) unfolding gkey_ok_def by auto
  qed
  then show False using e assms(3) by (auto intro: nth_equalityI)
qed

lemma keys_differ:
  assumes "gkey_ok a" "gkey_ok b" "a \<noteq> b"
  shows "lcp a b < length a" "lcp a b < length b" "a ! lcp a b \<noteq> b ! lcp a b"
  using prefix_free [OF assms] prefix_free [OF assms(2,1)] assms(3) lcp_diff [of a b] lcp_commute [of a b] by auto

lemma klt_total: "gkey_ok a \<Longrightarrow> gkey_ok b \<Longrightarrow> a \<noteq> b \<Longrightarrow> klt a b \<or> klt b a"
  using keys_differ [of a b] lcp_commute [of a b] by (auto simp: klt_def)

lemma klt_asym: "klt a b \<Longrightarrow> \<not> klt b a"
  by (auto simp: klt_def lcp_commute)

lemma klt_irrefl: "\<not> klt a a"
  by (simp add: klt_def)

text \<open>For keys this is the lexicographic order of byte strings, the order of the encoded subscripts.\<close>

lemma klt_imp_less: "klt a b \<Longrightarrow> a < b"
  by (induction a b rule: lcp.induct) (auto simp: klt_def split: if_splits)

lemma klt_less: "gkey_ok a \<Longrightarrow> gkey_ok b \<Longrightarrow> klt a b \<longleftrightarrow> a < b"
  using klt_total [of a b] klt_imp_less [of a b] klt_imp_less [of b a] by (auto dest: less_asym)

text \<open>What the compression count of the next key says about the target, which is above the previous key.\<close>

lemma lcp_chain: "min (lcp t p) (lcp p k) \<le> lcp t k"
proof (rule ccontr)
  assume n: "\<not> ?thesis"
  then have l: "lcp t k < lcp t p" "lcp t k < lcp p k" by auto
  then have "lcp t k < length t" "lcp t k < length k" using lcp_len [of t p] lcp_len [of p k] by linarith+
  then have "t ! lcp t k \<noteq> k ! lcp t k" by (rule lcp_diff)
  then show False using lcp_nth [OF l(1)] lcp_nth [OF l(2)] by simp
qed

lemma count_above:
  assumes "klt p t" "lcp t p < lcp p k"
  shows "lcp t k = lcp t p" "klt k t"
proof -
  let ?m = "lcp t p"
  have m: "?m < length t" "?m < length p" "p ! ?m < t ! ?m" using assms(1) by (auto simp: klt_def lcp_commute)
  have k: "?m < length k" "k ! ?m = p ! ?m" using assms(2) lcp_len(2) [of p k] lcp_nth [OF assms(2)] by simp_all
  show e: "lcp t k = ?m"
  proof (rule lcp_eqI [OF m(1) k(1)])
    show "t ! i = k ! i" if "i < ?m" for i using lcp_nth [OF that] lcp_nth [of i p k] that assms(2) by simp
  qed (use m(3) k(2) in simp)
  then show "klt k t" using m k by (simp add: klt_def lcp_commute [of k t])
qed

lemma count_below:
  assumes "klt p k" "lcp p k < lcp t p"
  shows "lcp t k = lcp p k" "klt t k"
proof -
  let ?c = "lcp p k"
  have c: "?c < length p" "?c < length k" "p ! ?c < k ! ?c" using assms(1) by (auto simp: klt_def)
  have t: "?c < length t" "t ! ?c = p ! ?c" using assms(2) lcp_len(1) [of t p] lcp_nth [OF assms(2)] by simp_all
  show e: "lcp t k = ?c"
  proof (rule lcp_eqI [OF t(1) c(2)])
    show "t ! i = k ! i" if "i < ?c" for i using lcp_nth [OF that] lcp_nth [of i t p] that assms(2) by simp
  qed (use c(3) t(2) in simp)
  then show "klt t k" using c t by (simp add: klt_def)
qed

section \<open>Blocks of compressed records\<close>

text \<open>
  \<open>recs_at blk off top prev rs\<close>: from \<open>off\<close> on the block holds the records \<open>rs\<close> (keys with record sizes) up to \<open>top\<close>, each
  key without the prefix it shares with the key before it, and the length of that prefix in the header.
\<close>

fun recs_at :: "bytes \<Rightarrow> nat \<Rightarrow> nat \<Rightarrow> bytes \<Rightarrow> (bytes \<times> nat) list \<Rightarrow> bool" where
  "recs_at blk off topp prev [] \<longleftrightarrow> off = topp"
| "recs_at blk off topp prev ((k, n) # rs) \<longleftrightarrow>
    SIZEOF_rec_hdr + (length k - lcp prev k) \<le> n \<and> off + n \<le> topp \<and> topp \<le> length blk \<and>
    GET_USHORT blk off = Some n \<and> EVAL_CMPC2 blk off = Some (lcp prev k) \<and>
    take (length k - lcp prev k) (drop (off + SIZEOF_rec_hdr) blk) = drop (lcp prev k) k \<and>
    recs_at blk (off + n) topp k rs"

lemma rec_byte:
  assumes "recs_at blk off topp prev ((k, n) # rs)" "lcp prev k \<le> i" "i < length k"
  shows "rdb blk (off + SIZEOF_rec_hdr + (i - lcp prev k)) = Some (k ! i)"
proof -
  let ?c = "lcp prev k"
  have "(take (length k - ?c) (drop (off + SIZEOF_rec_hdr) blk)) ! (i - ?c) = (drop ?c k) ! (i - ?c)" using assms(1) by simp
  moreover have "off + SIZEOF_rec_hdr + (i - ?c) < length blk" using assms by auto
  ultimately show ?thesis using assms(2,3) by (simp add: rdb_def)
qed

lemma cmp_loop_ok:
  assumes r: "recs_at blk off topp prev ((k, n) # rs)" and g: "gkey_ok t" "gkey_ok k"
  shows "lcp prev k \<le> i \<Longrightarrow> i \<le> lcp t k \<Longrightarrow> i < length t \<Longrightarrow>
    cmp_loop blk (t @ u) (off + SIZEOF_rec_hdr + (i - lcp prev k)) i (int (length t) - int i) =
      Some (if t = k then (0, length t, 0)
            else (uint (t ! lcp t k) - uint (k ! lcp t k), lcp t k, int (length t) - int (lcp t k)))"
proof (induction "length t - i" arbitrary: i rule: less_induct)
  case less
  have ik: "i < length k"
  proof (cases "t = k")
    case False then show ?thesis using keys_differ(2) [OF g] less(3) by simp
  qed (use less(4) in simp)
  note b = rec_byte [OF r less(2) ik]
  have s: "off + SIZEOF_rec_hdr + (i - lcp prev k) + 1 = off + SIZEOF_rec_hdr + (i + 1 - lcp prev k)" using less(2) by simp
  show ?case
  proof (cases "i < lcp t k")
    case True
    then have eq: "t ! i = k ! i" by (rule lcp_nth)
    show ?thesis
    proof (cases "i + 1 = length t")
      case last: True
      then have "t = k" using True keys_differ(1) [OF g] by (cases "t = k") auto
      then show ?thesis using last b eq less(4) by (subst cmp_loop.simps) (simp add: nth_append)
    next
      case False
      have "cmp_loop blk (t @ u) (off + SIZEOF_rec_hdr + (i + 1 - lcp prev k)) (i + 1) (int (length t) - int (i + 1)) =
        Some (if t = k then (0, length t, 0) else (uint (t ! lcp t k) - uint (k ! lcp t k), lcp t k, int (length t) - int (lcp t k)))"
        by (rule less(1)) (use less(2-4) True False in auto)
      moreover have "cmp_loop blk (t @ u) P i N = cmp_loop blk (t @ u) (P + 1) (i + 1) (N - 1)" if "rdb blk P = Some (k ! i)" "N - 1 \<noteq> 0" for P N
        using that eq less(4) by (subst cmp_loop.simps) (simp add: nth_append)
      from this [OF b, of "int (length t) - int i"] have "cmp_loop blk (t @ u) (off + SIZEOF_rec_hdr + (i - lcp prev k)) i (int (length t) - int i) =
        cmp_loop blk (t @ u) (off + SIZEOF_rec_hdr + (i + 1 - lcp prev k)) (i + 1) (int (length t) - int (i + 1))"
        unfolding s using False less(4) by (simp add: algebra_simps)
      ultimately show ?thesis by (simp only:)
    qed
  next
    case False
    then have i: "i = lcp t k" using less(3) by simp
    then have ne: "t \<noteq> k" using less(4) by auto
    have "uint (t ! i) \<noteq> uint (k ! i)" using keys_differ(3) [OF g ne] i by (simp add: word_uint_eq_iff [symmetric])
    then show ?thesis using b i ne less(4) by (subst cmp_loop.simps) (simp add: nth_append)
  qed
qed

text \<open>The keys ascend.\<close>

fun keys_ascend :: "bytes \<Rightarrow> (bytes \<times> nat) list \<Rightarrow> bool" where
  "keys_ascend prev [] \<longleftrightarrow> True"
| "keys_ascend prev ((k, n) # rs) \<longleftrightarrow> gkey_ok k \<and> (prev = [] \<or> klt prev k) \<and> keys_ascend k rs"

text \<open>What the search should find: the first key that is not below the target.\<close>

fun search_spec :: "bytes \<Rightarrow> bytes \<Rightarrow> nat \<Rightarrow> nat \<Rightarrow> (bytes \<times> nat) list \<Rightarrow> nat \<times> nat \<times> nat \<times> nat" where
  "search_spec t prev poff off [] = (poff, lcp t prev, off, 0)"
| "search_spec t prev poff off ((k, n) # rs) =
    (if klt k t then search_spec t k off (off + n) rs else (poff, lcp t prev, off, lcp t k))"

lemma lcp_Nil [simp]: "lcp t [] = 0" "lcp [] t = 0"
  by (cases t; simp)+

lemma search_loop_ok:
  assumes "gkey_ok t"
  shows "recs_at blk off topp prev rs \<Longrightarrow> keys_ascend prev rs \<Longrightarrow> prev = [] \<or> klt prev t \<Longrightarrow> poff + len = off \<Longrightarrow>
    search_loop blk topp True star (t @ u) poff len pp (lcp t prev) (lcp t prev) (int (length t) - int (lcp t prev)) =
      Some (Inr (case search_spec t prev poff off rs of (a, b, c, d) \<Rightarrow> (Some a, b, c, d)))"
proof (induction rs arbitrary: prev off poff len pp)
  case Nil
  then show ?case by (subst search_loop.simps) simp
next
  case (Cons r rs)
  obtain k n where r: "r = (k, n)" by (cases r)
  have R: "off < topp" "0 < n" "GET_USHORT blk off = Some n" "EVAL_CMPC2 blk off = Some (lcp prev k)" "recs_at blk (off + n) topp k rs"
    and R0: "recs_at blk off topp prev ((k, n) # rs)" using Cons.prems(1) r by (auto simp: SIZEOF_rec_hdr_def)
  have K: "gkey_ok k" "prev = [] \<or> klt prev k" "keys_ascend k rs" using Cons.prems(2) r by auto
  define m c where "m = lcp t prev" and "c = lcp prev k"
  have len: "poff + len = off" by (fact Cons.prems(4))
  have nxt: "klt k t \<Longrightarrow> search_loop blk topp True star (t @ u) off n (Some poff) (lcp t k) (lcp t k) (int (length t) - int (lcp t k)) =
      Some (Inr (case search_spec t k off (off + n) rs of (a, b, c, d) \<Rightarrow> (Some a, b, c, d)))"
    using Cons.IH [OF R(5) K(3)] by simp
  have step: "search_loop blk topp True star (t @ u) poff len pp m m (int (length t) - int m) =
     (if c > m then search_loop blk topp True star (t @ u) off n (Some poff) m m (int (length t) - int m)
      else if c < m then Some (Inr (Some poff, m, off, c))
      else do {
        (nFlg, pCurrTarg, nTargLen) \<leftarrow> cmp_loop blk (t @ u) (off + SIZEOF_rec_hdr) m (int (length t) - int m);
        if 0 < nFlg then search_loop blk topp True star (t @ u) off n (Some poff) pCurrTarg pCurrTarg nTargLen
        else Some (Inr (Some poff, m, off, pCurrTarg)) })"
    using R(1-4) by (subst search_loop.simps) (simp add: len c_def Let_def cong del: if_weak_cong)
  consider "c > m" | "c < m" | "c = m" by linarith
  then show ?case
  proof cases
    case 1
    then have "prev \<noteq> []" by (auto simp: c_def)
    then have "lcp t k = m" "klt k t" using count_above [of prev t k] Cons.prems(3) 1 by (auto simp: m_def c_def)
    then show ?thesis using step 1 nxt r by (simp add: m_def [symmetric])
  next
    case 2
    then have "prev \<noteq> []" by (auto simp: m_def)
    then have "lcp t k = c" "klt t k" using count_below [of prev k t] K(2) 2 by (auto simp: m_def c_def)
    then show ?thesis using step 2 r klt_asym [of t k] by (simp add: m_def [symmetric])
  next
    case 3
    have "m \<le> lcp t k" using lcp_chain [of t prev k] 3 by (simp add: m_def c_def)
    moreover have "m < length t"
    proof (cases "prev = []")
      case True then show ?thesis using assms by (auto simp: m_def gkey_ok_def)
    next
      case False then show ?thesis using Cons.prems(3) by (auto simp: m_def klt_def lcp_commute)
    qed
    ultimately have cl: "cmp_loop blk (t @ u) (off + SIZEOF_rec_hdr) m (int (length t) - int m) =
      Some (if t = k then (0, length t, 0) else (uint (t ! lcp t k) - uint (k ! lcp t k), lcp t k, int (length t) - int (lcp t k)))"
      using cmp_loop_ok [OF R0 assms K(1), of m u] 3 by (simp add: c_def)
    show ?thesis
    proof (cases "t = k")
      case True then show ?thesis using step 3 cl r klt_irrefl [of k] by (simp add: m_def)
    next
      case False
      have "0 < uint (t ! lcp t k) - uint (k ! lcp t k) \<longleftrightarrow> klt k t"
        using keys_differ [OF assms K(1) False] by (simp add: klt_def lcp_commute [of k t] word_less_def)
      then show ?thesis using step 3 cl r False nxt by (simp add: m_def [symmetric])
    qed
  qed
qed

section \<open>The search of a data block\<close>

lemma klt_I:
  assumes "n < length a" "n < length b" "\<And>i. i < n \<Longrightarrow> a ! i = b ! i" "a ! n < b ! n"
  shows "klt a b"
proof -
  have "lcp a b = n" by (rule lcp_eqI [OF assms(1-3)]) (use assms(4) in auto)
  then show ?thesis using assms by (simp add: klt_def)
qed

lemma klt_trans:
  assumes "klt a b" "klt b c"
  shows "klt a c"
proof -
  let ?m = "lcp a b" and ?n = "lcp b c"
  have m: "?m < length a" "?m < length b" "a ! ?m < b ! ?m" and n: "?n < length b" "?n < length c" "b ! ?n < c ! ?n"
    using assms by (simp_all add: klt_def)
  have e: "a ! i = c ! i" if "i < ?m" "i < ?n" for i using lcp_nth [OF that(1)] lcp_nth [OF that(2)] by simp
  consider "?m < ?n" | "?n < ?m" | "?m = ?n" by linarith
  then show ?thesis
  proof cases
    case 1
    show ?thesis
    proof (rule klt_I [of ?m])
      show "a ! ?m < c ! ?m" using m(3) lcp_nth [OF 1] by simp
    qed (use m(1) n(2) 1 e in simp_all)
  next
    case 2
    show ?thesis
    proof (rule klt_I [of ?n])
      show "a ! ?n < c ! ?n" using n(3) lcp_nth [OF 2] by simp
    qed (use m(1) n(2) 2 e in simp_all)
  next
    case 3
    show ?thesis
    proof (rule klt_I [of ?m])
      show "a ! ?m < c ! ?m" using m(3) n(3) unfolding 3 by (rule less_trans)
    qed (use m(1) n(2) 3 e in simp_all)
  qed
qed

text \<open>A block of level 0 with the records \<open>rs\<close>.\<close>

definition data_block :: "bytes \<Rightarrow> nat \<Rightarrow> (bytes \<times> nat) list \<Rightarrow> bool" where
  "data_block blk blk_size rs \<longleftrightarrow> GET_USHORT blk 0 \<noteq> None \<and> rdb blk 3 = Some 0 \<and> keys_ascend [] rs \<and>
     (case GET_ULONG blk 4 of None \<Rightarrow> False
      | Some b \<Rightarrow> b \<le> blk_size \<and> b \<le> length blk \<and> b < 65536 \<and> recs_at blk SIZEOF_blk_hdr b [] rs)"

definition rec_off :: "(bytes \<times> nat) list \<Rightarrow> nat" where
  "rec_off rs = SIZEOF_blk_hdr + sum_list (map snd rs)"

abbreviation below :: "bytes \<Rightarrow> bytes \<times> nat \<Rightarrow> bool" where
  "below t r \<equiv> klt (fst r) t"

lemma search_spec_split:
  "search_spec t prev poff off rs =
    (let lo = takeWhile (below t) rs; hi = dropWhile (below t) rs in
     (if lo = [] then poff else off + sum_list (map snd (butlast lo)),
      lcp t (if lo = [] then prev else fst (last lo)),
      off + sum_list (map snd lo),
      case hi of [] \<Rightarrow> 0 | (k, n) # _ \<Rightarrow> lcp t k))"
  by (induction t prev poff off rs rule: search_spec.induct) (auto simp: Let_def)

lemma recs_end: "recs_at blk off topp prev rs \<Longrightarrow> off + sum_list (map snd rs) = topp"
  by (induction blk off topp prev rs rule: recs_at.induct) auto

lemma ascend_above: "keys_ascend prev rs \<Longrightarrow> r \<in> set rs \<Longrightarrow> prev = [] \<or> klt prev (fst r)"
proof (induction prev rs rule: keys_ascend.induct)
  case (2 prev k n rs)
  have "r = (k, n) \<or> k = [] \<or> klt k (fst r)" using 2 by auto
  moreover have "k \<noteq> []" using 2(2) by (auto simp: gkey_ok_def)
  ultimately show ?case using 2(2) klt_trans [of prev k "fst r"] by auto
qed simp

lemma ascend_ok: "keys_ascend prev rs \<Longrightarrow> r \<in> set rs \<Longrightarrow> gkey_ok (fst r)"
  by (induction prev rs rule: keys_ascend.induct) auto

text \<open>Behind the first key that is not below the target none is.\<close>

lemma ascend_dropWhile:
  "keys_ascend prev rs \<Longrightarrow> gkey_ok t \<Longrightarrow> r \<in> set (dropWhile (below t) rs) \<Longrightarrow> \<not> below t r"
proof (induction prev rs rule: keys_ascend.induct)
  case (2 prev k n rs)
  show ?case
  proof (cases "klt k t")
    case True then show ?thesis using 2 by simp
  next
    case False
    have "k \<noteq> []" using 2(2) by (auto simp: gkey_ok_def)
    then have "r = (k, n) \<or> klt k (fst r)" using 2(2,4) False ascend_above [of k rs r] by auto
    then show ?thesis using False klt_trans [of k "fst r" t] by auto
  qed
qed simp

lemma match_all: "gkey_ok t \<Longrightarrow> gkey_ok k \<Longrightarrow> lcp t k = length t \<longleftrightarrow> t = k"
  using keys_differ(1) [of t k] by (cases "t = k") auto

lemma found_in_rest:
  assumes "keys_ascend [] rs" "gkey_ok t"
  shows "(case dropWhile (below t) rs of [] \<Rightarrow> 0 | (k, n) # _ \<Rightarrow> lcp t k) = length t \<longleftrightarrow> t \<in> fst ` set rs"
proof (cases "dropWhile (below t) rs")
  case Nil
  then have "\<forall>r \<in> set rs. below t r" by (simp add: dropWhile_eq_Nil_conv)
  then have "t \<notin> fst ` set rs" using klt_irrefl by force
  moreover have "length t \<noteq> 0" using assms(2) by (auto simp: gkey_ok_def)
  ultimately show ?thesis unfolding Nil by simp
next
  case (Cons r hi)
  obtain k n where r: "r = (k, n)" by (cases r)
  have rin: "r \<in> set rs" using Cons by (metis list.set_intros(1) set_dropWhileD)
  then have k: "gkey_ok k" using ascend_ok [OF assms(1)] r by fastforce
  have sub: "keys_ascend k hi \<and> gkey_ok k" if "keys_ascend p rs" "dropWhile (below t) rs = (k, n) # hi" for p
    using that by (induction p rs rule: keys_ascend.induct) (auto split: if_splits)
  have "t \<in> fst ` set rs \<longleftrightarrow> t = k"
  proof
    assume "t \<in> fst ` set rs"
    then obtain q where q: "q \<in> set rs" "fst q = t" by auto
    have "q \<notin> set (takeWhile (below t) rs)" using set_takeWhileD [of q "below t" rs] q(2) klt_irrefl by auto
    then have "q \<in> set (dropWhile (below t) rs)" using q(1) by (metis Un_iff set_append takeWhile_dropWhile_id)
    then have "q = (k, n) \<or> klt k t" using Cons r ascend_above [of k hi q] sub [OF assms(1)] k q(2) by (auto simp: gkey_ok_def)
    moreover have "\<not> klt k t" using ascend_dropWhile [OF assms, of r] Cons r by simp
    ultimately show "t = k" using q(2) by auto
  qed (use rin r in force)
  then show ?thesis using Cons r match_all [OF assms(2) k] by simp
qed

lemma spec_bound:
  assumes "recs_at blk off topp prev rs"
  shows "off + sum_list (map snd (takeWhile P rs)) \<le> topp" "off + sum_list (map snd (butlast (takeWhile P rs))) \<le> topp"
proof -
  have "sum_list (map snd rs) = sum_list (map snd (takeWhile P rs)) + sum_list (map snd (dropWhile P rs))"
    by (metis map_append sum_list_append takeWhile_dropWhile_id)
  then show a: "off + sum_list (map snd (takeWhile P rs)) \<le> topp" using recs_end [OF assms] by simp
  have "sum_list (map snd (butlast xs)) \<le> sum_list (map snd xs)" for xs :: "(bytes \<times> nat) list" by (induction xs) auto
  then show "off + sum_list (map snd (butlast (takeWhile P rs))) \<le> topp" using a by (meson add_left_mono le_trans)
qed

lemma search_result:
  assumes d: "data_block blk blk_size rs" and t: "gkey_ok t" "length t < 65536"
  defines "lo \<equiv> takeWhile (below t) rs" and "hi \<equiv> dropWhile (below t) rs"
  shows "gvcst_search_blk blk blk_size (t @ u) (length t - 1) = Some (Inr
    \<lparr>prev_rec = \<lparr>offset = (if lo = [] then 0 else rec_off (butlast lo)), match = (if lo = [] then 0 else lcp t (fst (last lo)))\<rparr>,
     curr_rec = \<lparr>offset = rec_off lo, match = (case hi of [] \<Rightarrow> 0 | (k, n) # _ \<Rightarrow> lcp t k)\<rparr>\<rparr>)"
proof -
  obtain v b where b: "GET_USHORT blk 0 = Some v" "rdb blk 3 = Some 0" "keys_ascend [] rs" "GET_ULONG blk 4 = Some b" "b \<le> blk_size"
    "b < 65536" "recs_at blk SIZEOF_blk_hdr b [] rs" using d by (auto simp: data_block_def split: option.splits)
  have e: "int (length t - 1) + 1 = int (length t)" using t(1) by (auto simp: gkey_ok_def)
  have s: "search_spec t [] 0 SIZEOF_blk_hdr rs =
     (if lo = [] then 0 else rec_off (butlast lo), if lo = [] then 0 else lcp t (fst (last lo)), rec_off lo, case hi of [] \<Rightarrow> 0 | (k, n) # _ \<Rightarrow> lcp t k)"
    unfolding search_spec_split Let_def lo_def hi_def rec_off_def by simp
  have l: "search_loop blk b True star (t @ u) 0 SIZEOF_blk_hdr None 0 0 (int (length t)) =
      Some (Inr (Some (if lo = [] then 0 else rec_off (butlast lo)), if lo = [] then 0 else lcp t (fst (last lo)), rec_off lo, case hi of [] \<Rightarrow> 0 | (k, n) # _ \<Rightarrow> lcp t k))" for star
    using search_loop_ok [OF t(1) b(7,3), of 0 SIZEOF_blk_hdr star u None] s by simp
  have "rec_off lo < 65536" "rec_off (butlast lo) < 65536"
    using spec_bound [OF b(7), of "below t"] b(6) by (simp_all add: rec_off_def lo_def)
  moreover have "lcp t x < 65536" for x using lcp_len(1) [of t x] t(2) by linarith
  ultimately show ?thesis unfolding gvcst_search_blk_def IS_64_BLK_ID_def using b(1,2,4,5) l e
    by (simp add: min_absorb1 split: list.splits)
qed

text \<open>
  C8. Searching a data block: on a block of ascending, prefix-compressed keys \<open>gvcst_search_blk\<close> returns normally
  with the current record the first whose key is not below the target (or the end of the block), the previous
  record the one before it (or the block header), and in each match count the length of the prefix the key
  shares with the target.  The match of the current record is the whole target exactly when the key is in the
  block.
\<close>

theorem search_blk_finds:
  assumes "data_block blk blk_size rs" "gkey_ok t" "length t < 65536"
  shows "\<exists>lo hi st. rs = lo @ hi \<and> (\<forall>r \<in> set lo. fst r < t) \<and> (\<forall>r \<in> set hi. t \<le> fst r) \<and>
    gvcst_search_blk blk blk_size (t @ u) (length t - 1) = Some (Inr st) \<and>
    offset (prev_rec st) = (if lo = [] then 0 else rec_off (butlast lo)) \<and>
    match (prev_rec st) = (if lo = [] then 0 else lcp t (fst (last lo))) \<and>
    offset (curr_rec st) = rec_off lo \<and> match (curr_rec st) = (if hi = [] then 0 else lcp t (fst (hd hi))) \<and>
    (match (curr_rec st) = length t \<longleftrightarrow> t \<in> fst ` set rs)"
proof -
  define lo hi where "lo = takeWhile (below t) rs" and "hi = dropWhile (below t) rs"
  have a: "keys_ascend [] rs" using assms(1) by (simp add: data_block_def)
  have c: "(case hi of [] \<Rightarrow> 0 | (k, n) # _ \<Rightarrow> lcp t k) = (if hi = [] then 0 else lcp t (fst (hd hi)))" by (cases hi) auto
  have "rs = lo @ hi" by (simp add: lo_def hi_def)
  moreover have "\<forall>r \<in> set lo. fst r < t" unfolding lo_def using set_takeWhileD [of _ "below t" rs] klt_imp_less by blast
  moreover have "\<forall>r \<in> set hi. t \<le> fst r" unfolding hi_def
  proof
    fix r assume r: "r \<in> set (dropWhile (below t) rs)"
    have "gkey_ok (fst r)" by (rule ascend_ok [OF a set_dropWhileD [OF r]])
    then show "t \<le> fst r" using ascend_dropWhile [OF a assms(2) r] klt_less [of "fst r" t] assms(2) by (simp add: not_less)
  qed
  moreover note search_result [OF assms, of u, folded lo_def hi_def, unfolded c] found_in_rest [OF a assms(2), folded hi_def, unfolded c]
  ultimately show ?thesis by (intro exI [of _ lo] exI [of _ hi]) simp
qed

section \<open>Compression counts\<close>

lemma unat_small: "v < 256 \<Longrightarrow> unat (of_nat v :: byte) = v"
  by (simp add: unat_of_nat take_bit_nat_eq_self)

text \<open>
  A compression count of up to 1020 written by \<open>SET_CMPC\<close> is read back by \<open>EVAL_CMPC2\<close>, in one byte or in two.
\<close>

theorem cmpc_roundtrip:
  assumes "v \<le> 1020" "rp + 3 < length blk" "blk ! (rp + 2) = fst (SET_CMPC v old)" "blk ! (rp + 3) = snd (SET_CMPC v old)"
  shows "EVAL_CMPC2 blk rp = Some v"
proof (cases "v < 253")
  case True
  then show ?thesis using assms unat_small [of v] by (simp add: EVAL_CMPC2_def SET_CMPC_def rdb_def Let_def)
next
  case False
  define w where "w = v - 253"
  have w: "v = 253 + w" "w < 768" using False assms(1) by (simp_all add: w_def)
  have q: "w div 256 < 3" "w mod 256 < 256" "253 + w div 256 < 256" using w(2) by auto
  have u: "unat (of_nat (253 + w div 256) :: byte) = 253 + w div 256" "unat (of_nat (w mod 256) :: byte) = w mod 256"
    by (rule unat_small [OF q(3)]) (rule unat_small [OF q(2)])
  have "blk ! (rp + 2) = of_nat (253 + w div 256)" "blk ! (rp + 3) = of_nat (w mod 256)"
    using assms(3,4) w by (simp_all add: SET_CMPC_def)
  moreover have "(253 + w div 256 * 256 + w mod 256) mod 1024 = v" using w by simp
  ultimately show ?thesis using assms(2) u by (simp only: EVAL_CMPC2_def rdb_def Let_def) simp
qed

theorem cmpc_roundtrip_witness: "EVAL_CMPC2 [0, 0, 254, 44] 0 = Some 553"
proof -
  have "SET_CMPC 553 0 = (254, 44)" by code_simp
  then show ?thesis using cmpc_roundtrip [of 553 0 "[0, 0, 254, 44]" 0] by simp
qed

section \<open>Expanding a key\<close>

lemma take_lcp: "take (lcp a b) a = take (lcp a b) b"
  by (induction a b rule: lcp.induct) auto

text \<open>The buffer holds the compressed part of the previous key, the block the rest of it.\<close>

definition half_key :: "bytes \<Rightarrow> bytes \<Rightarrow> bytes \<Rightarrow> nat \<Rightarrow> nat option \<Rightarrow> bool" where
  "half_key blk base prev cl uncmp \<longleftrightarrow> cl \<le> length prev \<and> take cl base = take cl prev \<and>
     (case uncmp of None \<Rightarrow> prev = []
      | Some p \<Rightarrow> p + (length prev - cl) \<le> length blk \<and> take (length prev - cl) (drop p blk) = drop cl prev)"

lemma expand_step:
  assumes h: "half_key blk base prev cl uncmp" and l: "length k < length base" "length prev < length base"
  defines "c \<equiv> lcp prev k"
  shows "\<exists>b. (if c > cl then
      (if c \<ge> length base then Some (Inl (cdb_sc_blkmod, base))
       else (case uncmp of None \<Rightarrow> Some (Inl (cdb_sc_blkmod, base))
         | Some p \<Rightarrow> do { b \<leftarrow> copy_key base cl blk p (c - cl); Some (Inr b) }))
     else Some (Inr base)) = Some (Inr b) \<and> length b = length base \<and> take c b = take c k"
proof -
  have c: "c \<le> length prev" "c \<le> length k" "take c prev = take c k" unfolding c_def by (rule lcp_len take_lcp)+
  show ?thesis
  proof (cases "c > cl")
    case True
    then have "prev \<noteq> []" by (auto simp: c_def)
    then obtain p where p: "uncmp = Some p" "p + (length prev - cl) \<le> length blk" "take (length prev - cl) (drop p blk) = drop cl prev"
      and cl: "cl \<le> length prev" "take cl base = take cl prev" using h by (auto simp: half_key_def split: option.splits)
    have bytes: "take (c - cl) (drop p blk) = take (c - cl) (drop cl prev)"
      using arg_cong [OF p(3), of "take (c - cl)"] c(1) by (simp add: min_def split: if_splits)
    define b where "b = take cl base @ take (c - cl) (drop p blk) @ drop c base"
    have "take cl prev @ take (c - cl) (drop cl prev) = take c prev" using take_add [of cl "c - cl" prev] True by simp
    then have "b = take c k @ drop c base" unfolding b_def bytes cl(2) using c(3) by (simp flip: append_assoc)
    then have "length b = length base" "take c b = take c k" using c(1,2) l by simp_all
    moreover have "copy_key base cl blk p (c - cl) = Some b" unfolding copy_key_def b_def using True p(2) c(1) l by simp
    ultimately show ?thesis using True p(1) c(2) l(1) by simp
  next
    case False
    then have "take c base = take c (take cl base)" by simp
    also have "\<dots> = take c k" using h False c(3) by (simp add: half_key_def min_def)
    finally show ?thesis using False by simp
  qed
qed

lemma expand_loop_ok:
  "recs_at blk off topp prev (lo @ (k, n) # hi) \<Longrightarrow> half_key blk base prev cl uncmp \<Longrightarrow> rp + r_offset = off \<Longrightarrow>
    SIZEOF_rec_hdr \<le> r_offset \<Longrightarrow> length prev < length base \<Longrightarrow> (\<forall>r \<in> set lo. length (fst r) < length base) \<Longrightarrow> length k < length base \<Longrightarrow>
    \<exists>b. expand_loop blk (off + sum_list (map snd lo)) (length base) rp r_offset base cl uncmp =
        Some (Inr (b, lcp (if lo = [] then prev else fst (last lo)) k, off + sum_list (map snd lo) + SIZEOF_rec_hdr)) \<and>
      length b = length base \<and>
      take (lcp (if lo = [] then prev else fst (last lo)) k) b = take (lcp (if lo = [] then prev else fst (last lo)) k) k"
proof (induction lo arbitrary: off prev base cl uncmp rp r_offset)
  case Nil
  then have E: "EVAL_CMPC2 blk off = Some (lcp prev k)" by simp
  obtain b where "(if lcp prev k > cl then
      (if lcp prev k \<ge> length base then Some (Inl (cdb_sc_blkmod, base))
       else (case uncmp of None \<Rightarrow> Some (Inl (cdb_sc_blkmod, base))
         | Some p \<Rightarrow> do { b \<leftarrow> copy_key base cl blk p (lcp prev k - cl); Some (Inr b) }))
     else Some (Inr base)) = Some (Inr b)" "length b = length base" "take (lcp prev k) b = take (lcp prev k) k"
    using expand_step [OF Nil(2) Nil(7,5)] by blast
  then show ?case using Nil(3,4) E by (subst expand_loop.simps) (simp del: if_split_asm)
next
  case (Cons r lo)
  obtain q j where r: "r = (q, j)" by (cases r)
  have R: "SIZEOF_rec_hdr + (length q - lcp prev q) \<le> j" "off + j \<le> topp" "topp \<le> length blk" "GET_USHORT blk off = Some j"
    "EVAL_CMPC2 blk off = Some (lcp prev q)" "take (length q - lcp prev q) (drop (off + SIZEOF_rec_hdr) blk) = drop (lcp prev q) q"
    "recs_at blk (off + j) topp q (lo @ (k, n) # hi)" using Cons.prems(1) r by auto
  have lq: "length q < length base" using Cons.prems(6) r by simp
  obtain b where b: "(if lcp prev q > cl then
      (if lcp prev q \<ge> length base then Some (Inl (cdb_sc_blkmod, base))
       else (case uncmp of None \<Rightarrow> Some (Inl (cdb_sc_blkmod, base))
         | Some p \<Rightarrow> do { b \<leftarrow> copy_key base cl blk p (lcp prev q - cl); Some (Inr b) }))
     else Some (Inr base)) = Some (Inr b)" "length b = length base" "take (lcp prev q) b = take (lcp prev q) q"
    using expand_step [OF Cons.prems(2) lq Cons.prems(5)] by blast
  have h: "half_key blk b q (lcp prev q) (Some (off + SIZEOF_rec_hdr))"
    using R b(3) lcp_len(2) [of prev q] by (simp add: half_key_def)
  have j: "0 < j" "SIZEOF_rec_hdr \<le> j" using R(1) by (auto simp: SIZEOF_rec_hdr_def)
  have s: "expand_loop blk (off + sum_list (map snd (r # lo))) (length base) rp r_offset base cl uncmp =
      expand_loop blk (off + j + sum_list (map snd lo)) (length b) off j b (lcp prev q) (Some (off + SIZEOF_rec_hdr))"
    using Cons.prems(3,4) R(4,5) b(1,2) r j(1) by (subst expand_loop.simps) (simp add: add.assoc del: if_split_asm)
  have "(if r # lo = [] then prev else fst (last (r # lo))) = (if lo = [] then q else fst (last lo))" using r by simp
  then show ?case using Cons.IH [OF R(7) h refl j(2)] lq Cons.prems(6,7) b(2) s r by (simp add: add.assoc)
qed

text \<open>The first double zero of the stored part is the end of the key.\<close>

lemma scan_delims_ok:
  assumes r: "recs_at blk off topp prev ((k, n) # rs)" and g: "gkey_ok k"
    and t: "off + SIZEOF_rec_hdr + (length k - lcp prev k) \<le> pTop + 1"
  shows "lcp prev k \<le> i \<Longrightarrow> i \<le> length k - 2 \<Longrightarrow>
    scan_delims blk pTop (off + SIZEOF_rec_hdr + (i - lcp prev k)) = Some (Some (off + SIZEOF_rec_hdr + (length k - 1 - lcp prev k)))"
proof (induction "length k - i" arbitrary: i rule: less_induct)
  case less
  have k: "2 < length k" "k ! (length k - 2) = 0" "k ! (length k - 1) = 0" using g by (simp_all add: gkey_ok_def)
  have i: "i < length k" "i + 1 < length k" using less(3) k(1) by simp_all
  have s: "off + SIZEOF_rec_hdr + (i - lcp prev k) + 1 = off + SIZEOF_rec_hdr + (i + 1 - lcp prev k)" using less(2) by simp
  have a: "rdb blk (off + SIZEOF_rec_hdr + (i - lcp prev k)) = Some (k ! i)" by (rule rec_byte [OF r less(2) i(1)])
  have b: "rdb blk (off + SIZEOF_rec_hdr + (i - lcp prev k) + 1) = Some (k ! (i + 1))"
    unfolding s by (rule rec_byte [OF r _ i(2)]) (use less(2) in simp)
  have in_blk: "\<not> off + SIZEOF_rec_hdr + (i - lcp prev k) \<ge> pTop" using t i less(2) by linarith
  show ?case
  proof (cases "i = length k - 2")
    case True
    then have "k ! i = 0" "k ! (i + 1) = 0" using k by (simp_all add: Suc_diff_Suc numeral_2_eq_2)
    moreover have "i + 1 = length k - 1" using True k(1) by simp
    ultimately show ?thesis using a b in_blk s by (subst scan_delims.simps) simp
  next
    case False
    then have lt: "i < length k - 2" using less(3) by simp
    then have "\<not> (k ! i = 0 \<and> k ! (i + 1) = 0)" using g by (simp add: gkey_ok_def)
    moreover have "scan_delims blk pTop (off + SIZEOF_rec_hdr + (i - lcp prev k) + 1) = Some (Some (off + SIZEOF_rec_hdr + (length k - 1 - lcp prev k)))"
      unfolding s by (rule less(1)) (use lt less(2) i in auto)
    ultimately show ?thesis using a b in_blk by (subst scan_delims.simps) auto
  qed
qed

lemma recs_suffix:
  "recs_at blk off topp prev (lo @ rs) \<Longrightarrow> recs_at blk (off + sum_list (map snd lo)) topp (if lo = [] then prev else fst (last lo)) rs"
proof (induction lo arbitrary: off prev)
  case (Cons r lo)
  obtain q j where r: "r = (q, j)" by (cases r)
  then show ?case using Cons.IH [of "off + j" q] Cons.prems by (cases "lo = []") (simp_all add: add.assoc)
qed simp

lemma ascend_suffix:
  "keys_ascend prev (lo @ rs) \<Longrightarrow> keys_ascend (if lo = [] then prev else fst (last lo)) rs"
  by (induction lo arbitrary: prev) (auto split: if_splits)

lemma short_prefix:
  assumes "gkey_ok k" "prev = [] \<or> klt prev k"
  shows "lcp prev k \<le> length k - 2"
proof (cases "prev = []")
  case False
  then have l: "klt prev k" using assms(2) by simp
  have "lcp prev k \<noteq> length k - 1"
  proof
    assume "lcp prev k = length k - 1"
    then have "prev ! (length k - 1) < k ! (length k - 1)" using l by (simp add: klt_def)
    then show False using assms(1) by (simp add: gkey_ok_def)
  qed
  then show ?thesis using l by (simp add: klt_def) linarith
qed simp

lemma end_of_key:
  assumes "gkey_ok k" "k ! 0 \<noteq> 0"
  shows "(k @ u)[length k - 1 := 0, length k - 1 - 1 := 0] = k @ u" "rdb (k @ u) (length k - 1 - 2) = Some (k ! (length k - 3))"
    "k ! (length k - 3) \<noteq> 0"
proof -
  have k: "2 < length k" "k ! (length k - 2) = 0" "k ! (length k - 1) = 0" "\<forall>i < length k - 2. \<not> (k ! i = 0 \<and> k ! (i + 1) = 0)"
    using assms(1) by (simp_all add: gkey_ok_def)
  have same: "(k @ u)[i := 0] = k @ u" if "i < length k" "k ! i = 0" for i
    using that list_update_id [of k i] by (simp add: list_update_append)
  have "(k @ u)[length k - 1 := 0] = k @ u" by (rule same) (use k in simp_all)
  moreover have "(k @ u)[length k - 2 := 0] = k @ u" by (rule same) (use k in simp_all)
  ultimately show "(k @ u)[length k - 1 := 0, length k - 1 - 1 := 0] = k @ u" by (simp add: numeral_2_eq_2)
  have e: "length k - 1 - 2 = length k - 3" by simp
  show "rdb (k @ u) (length k - 1 - 2) = Some (k ! (length k - 3))" unfolding e using k(1) by (auto simp: rdb_def nth_append)
  have "length k - 3 < length k - 2" "length k - 3 + 1 = length k - 2" using k(1) by simp_all
  then show "k ! (length k - 3) \<noteq> 0" using k(2,4) by metis
qed

text \<open>
  C10. Compression loses nothing: for every record of a data block \<open>gvcst_expand_key\<close> rebuilds from the compressed records
  the full key of that record, with its two terminating zero bytes and its end, whatever the key buffer held
  before, provided the buffer is longer than the keys.
\<close>

theorem expand_key_rebuilds:
  assumes d: "data_block blk blk_size (lo @ (k, n) # hi)" and k0: "k ! 0 \<noteq> 0"
    and len: "\<forall>r \<in> set (lo @ [(k, n)]). length (fst r) < length base"
  shows "\<exists>u. gvcst_expand_key blk blk_size (rec_off lo) base = Some (cdb_sc_normal, k @ u, length k - 1) \<and> length (k @ u) = length base"
proof -
  obtain b where b: "keys_ascend [] (lo @ (k, n) # hi)" "GET_ULONG blk 4 = Some b" "b \<le> blk_size" "recs_at blk SIZEOF_blk_hdr b [] (lo @ (k, n) # hi)"
    using d by (auto simp: data_block_def split: option.splits)
  define p c where "p = (if lo = [] then [] else fst (last lo))" and "c = lcp p k"
  define o4 where "o4 = rec_off lo + SIZEOF_rec_hdr"
  have r: "recs_at blk (rec_off lo) b p ((k, n) # hi)" using recs_suffix [OF b(4)] by (simp add: p_def rec_off_def)
  have a: "gkey_ok k" "p = [] \<or> klt p k" using ascend_suffix [OF b(1)] unfolding p_def [symmetric] by simp_all
  have c: "c \<le> length k - 2" "c \<le> length k" "2 < length k" using short_prefix [OF a] a(1) by (auto simp: c_def gkey_ok_def)
  have base0: "length [] < length base" using len by auto
  have h0: "half_key blk base [] 0 None" by (simp add: half_key_def)
  obtain b1 where b1: "expand_loop blk (rec_off lo) (length base) 0 SIZEOF_blk_hdr base 0 None = Some (Inr (b1, c, o4))"
    "length b1 = length base" "take c b1 = take c k"
    using expand_loop_ok [OF b(4) h0, of 0 SIZEOF_blk_hdr] len base0
    by (auto simp: rec_off_def p_def c_def o4_def SIZEOF_blk_hdr_def SIZEOF_rec_hdr_def)
  have R: "SIZEOF_rec_hdr + (length k - c) \<le> n" "rec_off lo + n \<le> b" "b \<le> length blk" "take (length k - c) (drop o4 blk) = drop c k"
    using r by (simp_all add: c_def o4_def)
  have sc: "scan_delims blk (b - 1) o4 = Some (Some (o4 + (length k - 1 - c)))"
    using scan_delims_ok [OF r a(1), of "b - 1" c] R c(1) by (simp add: c_def [symmetric] o4_def)
  have ln: "o4 + (length k - 1 - c) + 1 - o4 = length k - c" "c + (length k - c) = length k" "c + (length k - c - 1) = length k - 1"
    using c by simp_all
  have lb: "length k < length base" using len by simp
  have cp: "copy_key b1 c blk o4 (length k - c) = Some (k @ drop (length k) b1)"
    using R b1(2,3) ln(2) lb c(2) by (simp add: copy_key_def o4_def)
  have "gvcst_expand_key blk blk_size (rec_off lo) base = Some (cdb_sc_normal, k @ drop (length k) b1, length k - 1)"
  proof -
    have m: "min b blk_size = b" using b(3) by simp
    have nb: "\<not> c + (length k - c) > length b1" using ln(2) lb b1(2) by simp
    have z: "rdb (k @ drop (length k) b1) 0 = Some (k ! 0)" using c(3) by (auto simp: rdb_def nth_append)
    show ?thesis unfolding gvcst_expand_key_def b1(1) b(2) bind.bind_lunit sum.case prod.case m sc option.case Let_def ln(1) if_not_P [OF nb] cp z if_not_P [OF k0] ln(3)
      end_of_key(1,2) [OF a(1) k0] if_not_P [OF end_of_key(3) [OF a(1) k0]] ..
  qed
  then show ?thesis using b1(2) lb by (intro exI [of _ "drop (length k) b1"]) simp
qed

text \<open>A block of three records: the keys \<open>A1\<close>, \<open>AB\<close> and \<open>B\<close>, each with a value of one byte.\<close>

definition demo_data :: bytes where
  "demo_data = [2, 0, 0, 0, 40, 0, 0, 0, 7, 0, 0, 0, 0, 0, 0, 0,
     9, 0, 0, 0, 65, 49, 0, 0, 88,  8, 0, 1, 0, 66, 0, 0, 89,  7, 0, 0, 0, 66, 0, 0]"

lemma demo_data_ok: "data_block demo_data 512 [([65, 49, 0, 0], 9), ([65, 66, 0, 0], 8), ([66, 0, 0], 7)]"
proof -
  have l: "lcp [65, 49, 0, 0] [65, 66, 0, 0 :: byte] = 1" "lcp [65, 66, 0, 0] [66, 0, 0 :: byte] = 0" by code_simp+
  have g: "gkey_ok [65, 49, 0, 0]" "gkey_ok [65, 66, 0, 0]" "gkey_ok [66, 0, 0]"
    by (auto simp: gkey_ok_def less_Suc_eq nth_Cons' split: if_splits)
  have u: "GET_USHORT demo_data 0 = Some 2" "GET_USHORT demo_data 16 = Some 9" "GET_USHORT demo_data 25 = Some 8" "GET_USHORT demo_data 33 = Some 7"
    "rdb demo_data 3 = Some 0" "GET_ULONG demo_data 4 = Some 40" "EVAL_CMPC2 demo_data 16 = Some 0" "EVAL_CMPC2 demo_data 25 = Some 1"
    "EVAL_CMPC2 demo_data 33 = Some 0" by (simp_all add: GET_USHORT_def GET_ULONG_def EVAL_CMPC2_def rdb_def demo_data_def)
  have d: "take (Suc (Suc (Suc (Suc 0)))) (drop 20 demo_data) = [65, 49, 0, 0]" "take (Suc (Suc (Suc 0))) (drop 29 demo_data) = [66, 0, 0]" "take 3 (drop 37 demo_data) = [66, 0, 0]"
    "length demo_data = 40" by (simp_all add: demo_data_def)
  have a: "keys_ascend [] [([65, 49, 0, 0], 9), ([65, 66, 0, 0], 8), ([66, 0, 0], 7)]"
    using g l by (simp add: klt_def)
  show ?thesis using u d a l by (simp add: data_block_def SIZEOF_blk_hdr_def SIZEOF_rec_hdr_def)
qed

theorem search_blk_finds_witness:
  "\<exists>st. gvcst_search_blk demo_data 512 [65, 66, 0, 0] 3 = Some (Inr st) \<and> match (curr_rec st) = 4"
proof -
  let ?t = "[65, 66, 0, 0] :: bytes"
  have g: "gkey_ok ?t" "length ?t < 65536" by (auto simp: gkey_ok_def less_Suc_eq nth_Cons' split: if_splits)
  obtain st where st: "gvcst_search_blk demo_data 512 (?t @ []) (length ?t - 1) = Some (Inr st)"
    "match (curr_rec st) = length ?t \<longleftrightarrow> ?t \<in> fst ` set [([65, 49, 0, 0], 9 :: nat), ([65, 66, 0, 0], 8), ([66, 0, 0], 7)]"
    using search_blk_finds [OF demo_data_ok g, of "[]"] by blast
  have e: "length ?t - 1 = 3" "length ?t = 4" "?t @ [] = ?t" by simp_all
  show ?thesis using st unfolding e by simp
qed

theorem expand_key_rebuilds_witness:
  "\<exists>u. gvcst_expand_key demo_data 512 25 (replicate 16 7) = Some (cdb_sc_normal, [65, 66, 0, 0] @ u, 3)"
  using expand_key_rebuilds [of demo_data 512 "[([65, 49, 0, 0], 9)]" "[65, 66, 0, 0]" 8 "[([66, 0, 0], 7)]" "replicate 16 7"] demo_data_ok
  by (auto simp: rec_off_def SIZEOF_blk_hdr_def)

end
