(* ===== verification/GvTail.thy ===== *)
theory GvTail
  imports GvBlk
begin

text \<open>
  Continuing a search: \<open>gvcst_search_tail\<close> (\<open>gvcst_blk_search.h\<close>) starts where a search of the same block for a
  smaller key ended and is shown equal to a search from the beginning of the block.
\<close>

section \<open>The continued search\<close>

text \<open>The number of leading bytes, from \<open>i\<close> and at most \<open>n\<close> of them, on which two keys agree, as the index behind them.\<close>

fun same_run :: "bytes \<Rightarrow> bytes \<Rightarrow> nat \<Rightarrow> nat \<Rightarrow> nat option" where
  "same_run a b i 0 = Some i"
| "same_run a b i (Suc n) = do {
     x \<leftarrow> rdb a i;
     y \<leftarrow> rdb b i;
     if x \<noteq> y then Some i else same_run a b (i + 1) n
   }"

text \<open>
  Only data blocks are searched so.  At the record where the old search ended the comparison is entered in the middle
  of the loop (\<open>alt_loop_entry\<close>); the loop over the remaining records is that of \<open>gvcst_search_blk\<close>.
\<close>

definition tail_start :: "bytes \<Rightarrow> nat \<Rightarrow> bytes \<Rightarrow> nat \<Rightarrow> nat \<Rightarrow> nat option \<Rightarrow> nat \<Rightarrow> bytes \<Rightarrow> (cdb_sc + nat option \<times> nat \<times> nat \<times> nat) option" where
  "tail_start blk pTop base key_end pRec pPrevRec nMatchCnt oldbase =
    (if pRec \<ge> pTop then
       (if pRec > pTop then Some (Inl cdb_sc_blklenerr)
        else do { nMatchCnt \<leftarrow> same_run base oldbase 0 nMatchCnt; Some (Inr (pPrevRec, nMatchCnt, pRec, 0)) })
     else do {
       nRecLen \<leftarrow> GET_USHORT blk pRec;
       nTmp \<leftarrow> EVAL_CMPC2 blk pRec;
       pCurrTarg \<leftarrow> same_run base oldbase 0 nTmp;
       let nFlg = (if pCurrTarg = nTmp then 0 else uint (base ! pCurrTarg) - uint (oldbase ! pCurrTarg));
       let nTargLen = int key_end + 1;
       if 0 = nFlg then do {
         nMatchCnt \<leftarrow> (if pCurrTarg < nMatchCnt then same_run base oldbase pCurrTarg (nMatchCnt - pCurrTarg) else Some pCurrTarg);
         (nFlg, pCurrTarg, nTargLen) \<leftarrow> cmp_loop blk base (pRec + SIZEOF_rec_hdr) pCurrTarg (nTargLen - int pCurrTarg);
         if 0 < nFlg then search_loop blk pTop True 0 base pRec nRecLen pPrevRec pCurrTarg pCurrTarg nTargLen
         else Some (Inr (pPrevRec, nMatchCnt, pRec, pCurrTarg))
       } else if 0 < nFlg
         then search_loop blk pTop True 0 base pRec nRecLen pPrevRec pCurrTarg pCurrTarg (nTargLen - int pCurrTarg)
         else search_loop blk pTop True 0 base pRec nRecLen pPrevRec nMatchCnt pCurrTarg nTargLen
     })"

definition gvcst_search_tail :: "bytes \<Rightarrow> nat \<Rightarrow> bytes \<Rightarrow> nat \<Rightarrow> srch_blk_status \<Rightarrow> bytes \<Rightarrow> (cdb_sc + srch_blk_status) option" where
  "gvcst_search_tail blk blk_size base key_end st oldbase =
    (if 0 = offset (prev_rec st) then gvcst_search_blk blk blk_size base key_end
     else do {
       blen \<leftarrow> GET_ULONG blk 4;
       r \<leftarrow> tail_start blk (min blen blk_size) base key_end (offset (curr_rec st)) (Some (offset (prev_rec st))) (match (prev_rec st)) oldbase;
       (case r of
          Inl e \<Rightarrow> Some (Inl e)
        | Inr (pPrevRec, nMatchCnt, pRecBase, nTargLen) \<Rightarrow> do {
            p \<leftarrow> pPrevRec;
            Some (Inr \<lparr>prev_rec = \<lparr>offset = p mod 65536, match = nMatchCnt mod 65536\<rparr>,
              curr_rec = \<lparr>offset = pRecBase mod 65536, match = nTargLen mod 65536\<rparr>\<rparr>)
          })
     })"

section \<open>Common prefixes of three keys in order\<close>

lemma mid_lcp:
  assumes "klt a b" "klt b c"
  shows "lcp a c = min (lcp a b) (lcp b c)"
proof -
  let ?m = "lcp a b" and ?n = "lcp b c"
  have m: "?m < length a" "?m < length b" "a ! ?m < b ! ?m" and n: "?n < length b" "?n < length c" "b ! ?n < c ! ?n"
    using assms by (simp_all add: klt_def)
  have e: "a ! i = c ! i" if "i < min ?m ?n" for i using lcp_nth [of i a b] lcp_nth [of i b c] that by simp
  show ?thesis
  proof (rule lcp_eqI)
    consider "?m < ?n" | "?n < ?m" | "?m = ?n" by linarith
    then show "a ! min ?m ?n \<noteq> c ! min ?m ?n"
    proof cases
      case 1 then show ?thesis using m(3) lcp_nth [OF 1] by auto
    next
      case 2 then show ?thesis using n(3) lcp_nth [OF 2] by auto
    next
      case 3
      have "a ! ?m < c ! ?m" using m(3) n(3) unfolding 3 by (rule less_trans)
      then show ?thesis using 3 by auto
    qed
  qed (use m(1) n(2) e in auto)
qed

lemma same_run_ok:
  assumes "lcp a b < length a" "lcp a b < length b"
  shows "i \<le> lcp a b \<Longrightarrow> same_run (a @ u) (b @ v) i n = Some (min (i + n) (lcp a b))"
proof (induction n arbitrary: i)
  case (Suc n)
  have r: "rdb (a @ u) i = Some (a ! i)" "rdb (b @ v) i = Some (b ! i)" using assms Suc.prems by (auto simp: rdb_def nth_append)
  show ?case
  proof (cases "i < lcp a b")
    case True
    then show ?thesis using r Suc.IH [of "i + 1"] lcp_nth [OF True] by simp
  next
    case False
    then have "i = lcp a b" using Suc.prems by simp
    then show ?thesis using r lcp_diff [OF assms] by simp
  qed
qed simp

lemma search_spec_append:
  "\<forall>r \<in> set lo. below t r \<Longrightarrow> lo \<noteq> [] \<Longrightarrow>
    search_spec t prev poff off (lo @ hi) =
      search_spec t (fst (last lo)) (off + sum_list (map snd (butlast lo))) (off + sum_list (map snd lo)) hi"
proof (induction lo arbitrary: prev poff off)
  case (Cons r lo)
  obtain k n where r: "r = (k, n)" by (cases r)
  then show ?case using Cons.IH [of k off "off + n"] Cons.prems by (cases "lo = []") (simp_all add: add.assoc)
qed simp

lemma tail_end:
  assumes "klt p old" "klt old t"
  shows "tail_start blk off (t @ u) e off pp (lcp old p) (old @ v) = Some (Inr (pp, lcp t p, off, 0))"
proof -
  have "same_run (t @ u) (old @ v) 0 (lcp old p) = Some (min (lcp old p) (lcp t old))"
    using same_run_ok [of t old 0 u v "lcp old p"] assms(2) by (simp add: klt_def lcp_commute [of t old])
  moreover have "min (lcp old p) (lcp t old) = lcp t p" using mid_lcp [OF assms] by (simp add: lcp_commute)
  ultimately show ?thesis by (simp add: tail_start_def)
qed

text \<open>The old search ended at \<open>k\<close>, the record behind that of \<open>p\<close>.\<close>

lemma tail_rec:
  assumes r: "recs_at blk off topp p ((k, n) # hi)" and a: "keys_ascend p ((k, n) # hi)" and g: "gkey_ok old" "gkey_ok t"
    and o: "klt p old" "klt old t" "\<not> klt k old"
  shows "tail_start blk topp (t @ u) (length t - 1) off (Some poff) (lcp old p) (old @ v) =
    Some (Inr (case search_spec t p poff off ((k, n) # hi) of (a, b, c, d) \<Rightarrow> (Some a, b, c, d)))"
proof -
  define c where "c = lcp p k"
  have R: "off < topp" "GET_USHORT blk off = Some n" "EVAL_CMPC2 blk off = Some c" "recs_at blk (off + n) topp k hi"
    using r by (auto simp: SIZEOF_rec_hdr_def c_def)
  have K: "gkey_ok k" "keys_ascend k hi" using a by auto
  have le: "lcp p k \<le> lcp old p \<and> lcp p k \<le> lcp old k"
  proof (cases "k = old")
    case True then show ?thesis using lcp_len(2) [of p old] by (simp add: lcp_commute)
  next
    case False
    then have "klt old k" using klt_total [OF K(1) g(1)] o(3) by blast
    then show ?thesis using mid_lcp [OF o(1)] by (simp add: lcp_commute [of p old])
  qed
  have d: "lcp t old < length t" "lcp t old < length old" "old ! lcp t old < t ! lcp t old" using o(2) by (auto simp: klt_def lcp_commute)
  have run: "same_run (t @ u) (old @ v) i j = Some (min (i + j) (lcp t old))" if "i \<le> lcp t old" for i j
    using same_run_ok [OF d(1,2) that] .
  have e: "int (length t - 1) + 1 = int (length t)" using g(2) by (auto simp: gkey_ok_def)
  have nxt: "search_loop blk topp True 0 (t @ u) off n (Some poff) (lcp t k) (lcp t k) (int (length t) - int (lcp t k)) =
      Some (Inr (case search_spec t k off (off + n) hi of (a, b, c, d) \<Rightarrow> (Some a, b, c, d)))" if "klt k t"
    by (rule search_loop_ok [OF g(2) R(4) K(2)]) (use that in auto)
  show ?thesis
  proof (cases "lcp t old < c")
    case True
    then have k: "lcp t k = lcp t old" "klt k t" using count_above [OF o(2), of k] le by (auto simp: c_def)
    have "min c (lcp t old) = lcp t old" using True by simp
    moreover have "0 < uint ((t @ u) ! lcp t old) - uint ((old @ v) ! lcp t old)" using d by (simp add: nth_append word_less_def)
    ultimately show ?thesis using True R(1-3) run [of 0 c] nxt k e by (simp add: tail_start_def Let_def)
  next
    case False
    then have ci: "c \<le> lcp t old" "c < length t" "c \<le> lcp t k" using lcp_chain [of t old k] le d(1) by (auto simp: c_def)
    have cl: "cmp_loop blk (t @ u) (off + SIZEOF_rec_hdr) c (int (length t) - int c) =
      Some (if t = k then (0, length t, 0) else (uint (t ! lcp t k) - uint (k ! lcp t k), lcp t k, int (length t) - int (lcp t k)))"
      using cmp_loop_ok [OF r g(2) K(1), of c u] ci by (simp add: c_def)
    have m: "(if c < lcp old p then same_run (t @ u) (old @ v) c (lcp old p - c) else Some c) = Some (lcp t p)"
      using mid_lcp [OF o(1,2)] run [OF ci(1)] le ci(1) by (auto simp: c_def lcp_commute)
    have "tail_start blk topp (t @ u) (length t - 1) off (Some poff) (lcp old p) (old @ v) = do {
         (nFlg, pCurrTarg, nTargLen) \<leftarrow> cmp_loop blk (t @ u) (off + SIZEOF_rec_hdr) c (int (length t) - int c);
         if 0 < nFlg then search_loop blk topp True 0 (t @ u) off n (Some poff) pCurrTarg pCurrTarg nTargLen
         else Some (Inr (Some poff, lcp t p, off, pCurrTarg)) }"
      using R(1-3) run [of 0 c] ci(1) m e by (simp add: tail_start_def Let_def min_absorb1)
    note step = this [unfolded cl]
    show ?thesis
    proof (cases "t = k")
      case True then show ?thesis using step klt_irrefl [of k] by simp
    next
      case False
      have "0 < uint (t ! lcp t k) - uint (k ! lcp t k) \<longleftrightarrow> klt k t"
        using keys_differ [OF g(2) K(1) False] by (simp add: klt_def lcp_commute [of k t] word_less_def)
      then show ?thesis using step nxt False by simp
    qed
  qed
qed

text \<open>
  C9. Continuing a search: when a data block was searched for a key and the target is above that key,
  \<open>gvcst_search_tail\<close>, which starts at the record where that search ended and compares the target with the old key instead
  of the records skipped, gives exactly the result of \<open>gvcst_search_blk\<close> from the beginning of the block.
\<close>

theorem search_tail_same:
  assumes d: "data_block blk blk_size rs" and g: "gkey_ok old" "gkey_ok t" and l: "length old < 65536" "length t < 65536"
    and o: "old < t" and st: "gvcst_search_blk blk blk_size (old @ v) (length old - 1) = Some (Inr st)"
  shows "gvcst_search_tail blk blk_size (t @ u) (length t - 1) st (old @ v) = gvcst_search_blk blk blk_size (t @ u) (length t - 1)"
proof -
  define lo hi where "lo = takeWhile (below old) rs" and "hi = dropWhile (below old) rs"
  have s: "offset (prev_rec st) = (if lo = [] then 0 else rec_off (butlast lo))" "match (prev_rec st) = (if lo = [] then 0 else lcp old (fst (last lo)))"
    "offset (curr_rec st) = rec_off lo"
    using search_result [OF d g(1) l(1), of v] st unfolding lo_def [symmetric] by auto
  show ?thesis
  proof (cases "lo = []")
    case True then show ?thesis using s by (simp add: gvcst_search_tail_def)
  next
    case False
    define p where "p = fst (last lo)"
    have rs: "rs = lo @ hi" by (simp add: lo_def hi_def)
    obtain w b where b: "GET_USHORT blk 0 = Some w" "rdb blk 3 = Some 0" "keys_ascend [] rs" "GET_ULONG blk 4 = Some b" "b \<le> blk_size"
      "recs_at blk SIZEOF_blk_hdr b [] rs" using d by (auto simp: data_block_def split: option.splits)
    have ot: "klt old t" using klt_less [OF g] o by simp
    have lo: "\<forall>r \<in> set lo. below old r" unfolding lo_def using set_takeWhileD by fastforce
    then have po: "klt p old" using False by (simp add: p_def)
    have lt: "\<forall>r \<in> set lo. below t r" using lo klt_trans [OF _ ot] by blast
    have r: "recs_at blk (rec_off lo) b p hi" "keys_ascend p hi"
      using recs_suffix [of blk SIZEOF_blk_hdr b "[]" lo hi] ascend_suffix [of "[]" lo hi] b(3,6) False by (simp_all add: rs p_def rec_off_def)
    have e: "int (length t - 1) + 1 = int (length t)" using g(2) by (auto simp: gkey_ok_def)
    have "search_loop blk b True star (t @ u) 0 SIZEOF_blk_hdr None 0 0 (int (length t)) =
      Some (Inr (case search_spec t p (rec_off (butlast lo)) (rec_off lo) hi of (a, b, c, d) \<Rightarrow> (Some a, b, c, d)))" for star
      using search_loop_ok [OF g(2) b(6,3), of 0 SIZEOF_blk_hdr star u None] search_spec_append [OF lt False, of "[]" 0 SIZEOF_blk_hdr hi]
      by (simp add: rs p_def rec_off_def)
    moreover have "tail_start blk b (t @ u) (length t - 1) (rec_off lo) (Some (rec_off (butlast lo))) (lcp old p) (old @ v) =
      Some (Inr (case search_spec t p (rec_off (butlast lo)) (rec_off lo) hi of (a, b, c, d) \<Rightarrow> (Some a, b, c, d)))"
    proof (cases hi)
      case Nil then show ?thesis using tail_end [OF po ot] r(1) by simp
    next
      case (Cons x xs)
      then obtain k n where x: "hi = (k, n) # xs" by (cases x) auto
      have "\<not> klt k old" using ascend_dropWhile [OF b(3) g(1), of "(k, n)"] x by (simp add: hi_def)
      then show ?thesis using tail_rec [OF r [unfolded x] g po ot] x by simp
    qed
    ultimately show ?thesis using s False b(1,2,4,5) e
      by (simp add: gvcst_search_tail_def gvcst_search_blk_def IS_64_BLK_ID_def min_absorb1 p_def [symmetric] rec_off_def SIZEOF_blk_hdr_def)
  qed
qed

theorem search_tail_same_witness:
  "\<exists>st. gvcst_search_blk demo_data 512 [65, 66, 0, 0] 3 = Some (Inr st) \<and> offset (prev_rec st) = 16 \<and>
    gvcst_search_tail demo_data 512 [66, 0, 0] 2 st [65, 66, 0, 0] = gvcst_search_blk demo_data 512 [66, 0, 0] 2"
proof -
  let ?o = "[65, 66, 0, 0] :: bytes" and ?t = "[66, 0, 0] :: bytes"
  have g: "gkey_ok ?o" "gkey_ok ?t" by (auto simp: gkey_ok_def less_Suc_eq nth_Cons' split: if_splits)
  have l: "length ?o < 65536" "length ?t < 65536" "?o < ?t" by simp_all
  have k: "klt [65, 49, 0, 0] ?o" "\<not> klt ?o ?o" by (simp_all add: klt_def)
  obtain st where st: "gvcst_search_blk demo_data 512 (?o @ []) (length ?o - 1) = Some (Inr st)" "offset (prev_rec st) = 16"
    using search_result [OF demo_data_ok g(1) l(1), of "[]"] k by (simp add: rec_off_def SIZEOF_blk_hdr_def)
  have "gvcst_search_tail demo_data 512 (?t @ []) (length ?t - 1) st (?o @ []) = gvcst_search_blk demo_data 512 (?t @ []) (length ?t - 1)"
    by (rule search_tail_same [OF demo_data_ok g l st(1)])
  then show ?thesis using st by (intro exI [of _ st]) (simp add: numeral_2_eq_2 numeral_3_eq_3)
qed

end
