(* ===== verification/Hashtab.thy ===== *)
theory Hashtab
  imports Bitmap
begin

text \<open>
  The hash tables of the run time (\<open>hashtab_implementation.h\<close>), in the instance for 32-bit keys (\<open>hashtab_int4.h\<close>): open
  addressing with double hashing, deleted entries, a bit vector of the entries that were passed in a collision,
  expansion and compaction.  The array \<open>base\<close> is a list (empty when the pointer is NULL), a pointer to an entry an
  index; \<open>top\<close> is its length.  A result \<open>None\<close> is an access outside an array, a failing \<open>assertpro\<close> or a loop without end.
\<close>

section \<open>Sizes (\<open>mtables.c\<close>)\<close>

definition default_ht_sizes :: "nat list" where
  "default_ht_sizes = [13, 37, 53, 97, 193, 389, 769, 1543, 3079, 6151, 12289, 24593, 49157,
     62501, 102503, 154981, 218459, 290047, 366077, 442861, 517151,
     603907, 705247, 823541, 961729, 1123079, 1311473, 1531499, 1788443,
     2088497, 2438881, 2848057, 3325901, 3883903, 4535483, 5296409, 6185021,
     7222661, 8434427, 9849503, 11502019, 13431661, 15685133, 18316643, 21389671,
     24978257, 29168903, 34062629, 39777391, 46450931, 54244103, 0]"

definition extended_ht_sizes :: "nat list" where
  "extended_ht_sizes = [13, 37, 53, 97, 193, 389, 769, 1543, 3079, 6151, 12289, 24593, 49157,
     62501, 102503, 154981, 218459, 290047, 366077, 442861, 517151,
     603907, 705247, 823541, 961729, 1123079, 1311473, 1531499, 1788443,
     2088497, 2438881, 2848057, 3325901, 3883903, 4535483, 5296409, 6185021,
     7222661, 8434427, 9849503, 11502019, 13431661, 15685133, 18316643, 21389671,
     24978257, 29168903, 34062629, 39777391, 46450931, 54244103,
     100663319, 201326611, 402653189, 805306457, 1610612741, 0]"

section \<open>Tables (\<open>hashtab.h\<close>, \<open>hashtab_int4.h\<close>)\<close>

type_synonym uint4 = "32 word"
type_synonym htval = "64 word"

record ht_ent_int4 =
  ht_key :: uint4
  ht_value :: htval

text \<open>Of the spare array only its presence is kept: it is cleared before it is used again.\<close>

record hash_table_int4 =
  tab_base :: "ht_ent_int4 list"
  spare_base :: bool
  entry_passed_thru :: bytes
  tab_size :: nat
  initial_size :: nat
  spare_base_size :: nat
  tab_count :: nat
  del_count :: nat
  exp_trigger_size :: nat
  cmp_trigger_size :: nat
  dont_compact :: bool
  dont_keep_spare_table :: bool
  defer_base_release :: bool
  tab_active :: bool

definition HT_DELETED_ENTRY :: htval where "HT_DELETED_ENTRY = -1"
definition HT_LOAD_FACTOR :: nat where "HT_LOAD_FACTOR = 50"
definition HT_REHASH_FACTOR :: nat where "HT_REHASH_FACTOR = HT_LOAD_FACTOR div 2"

definition HTENT_EMPTY_INT4 :: "ht_ent_int4 \<Rightarrow> bool" where
  "HTENT_EMPTY_INT4 e \<longleftrightarrow> ht_value e = 0"

definition HTENT_MARK_DELETED :: "ht_ent_int4 \<Rightarrow> bool" where
  "HTENT_MARK_DELETED e \<longleftrightarrow> HT_DELETED_ENTRY = ht_value e"

definition HTENT_VALID_INT4 :: "ht_ent_int4 \<Rightarrow> bool" where
  "HTENT_VALID_INT4 e \<longleftrightarrow> \<not> HTENT_EMPTY_INT4 e \<and> HT_DELETED_ENTRY \<noteq> ht_value e"

definition COMPUTE_HASH_INT4 :: "uint4 \<Rightarrow> nat" where
  "COMPUTE_HASH_INT4 k = unat k"

text \<open>The counters are unsigned 32-bit integers.\<close>

definition inc32 :: "nat \<Rightarrow> nat" where "inc32 n = (n + 1) mod 2 ^ 32"
definition dec32 :: "nat \<Rightarrow> nat" where "dec32 n = (n + (2 ^ 32 - 1)) mod 2 ^ 32"

definition HT_REHASH_TABLE_SIZE :: "hash_table_int4 \<Rightarrow> nat" where
  "HT_REHASH_TABLE_SIZE t = min (tab_size t) ((tab_count t * 4) mod 2 ^ 32)"

definition COMPACT_NEEDED :: "hash_table_int4 \<Rightarrow> bool" where
  "COMPACT_NEEDED t \<longleftrightarrow> \<not> dont_compact t \<and>
    (del_count t > cmp_trigger_size t \<or> (initial_size t < tab_size t \<and> tab_count t < cmp_trigger_size t div 2))"

definition tab_ent :: "hash_table_int4 \<Rightarrow> nat \<Rightarrow> ht_ent_int4 option" where
  "tab_ent t i = (if i < length (tab_base t) then Some (tab_base t ! i) else None)"

definition INSERT_HTENT :: "hash_table_int4 \<Rightarrow> nat \<Rightarrow> uint4 \<Rightarrow> htval \<Rightarrow> hash_table_int4 option" where
  "INSERT_HTENT t i k v = do {
     e \<leftarrow> tab_ent t i;
     let t = (if HT_DELETED_ENTRY = ht_value e then t\<lparr>del_count := dec32 (del_count t)\<rparr> else t);
     Some (t\<lparr>tab_base := (tab_base t)[i := \<lparr>ht_key = k, ht_value = v\<rparr>], tab_count := inc32 (tab_count t)\<rparr>)
   }"

section \<open>Double hashing\<close>

definition SET_REHASH_FACTOR :: "nat \<Rightarrow> nat \<Rightarrow> nat option" where
  "SET_REHASH_FACTOR hash prime = (if prime - 1 = 0 then None else Some (1 + hash mod (prime - 1)))"

definition SET_REHASH_INDEX :: "nat \<Rightarrow> nat \<Rightarrow> nat \<Rightarrow> nat" where
  "SET_REHASH_INDEX ht_index rhfact prime =
    (let ht_index = (ht_index + rhfact) mod 2 ^ 32 in if ht_index \<ge> prime then ht_index - prime else ht_index)"

text \<open>
  The three operations on keys look at the entries in the same way: at the entry the hash gives, then in a loop at the
  others.  \<open>step\<close> is the macro that looks at one entry: it returns (\<open>Inl\<close>) or falls through (\<open>Inr\<close>) with what the
  operation keeps.
\<close>

partial_function (option) probe_loop ::
    "(nat \<Rightarrow> 's \<Rightarrow> ('r + 's) option) \<Rightarrow> nat \<Rightarrow> nat \<Rightarrow> nat \<Rightarrow> nat \<Rightarrow> 's \<Rightarrow> ('r + 's) option" where
  "probe_loop step ht_index save_ht_index rhfact prime s = do {
     x \<leftarrow> step ht_index s;
     (case x of
        Inl y \<Rightarrow> Some (Inl y)
      | Inr s \<Rightarrow>
          let ht_index = SET_REHASH_INDEX ht_index rhfact prime in
          if ht_index \<noteq> save_ht_index then probe_loop step ht_index save_ht_index rhfact prime s else Some (Inr s))
   }"

definition double_hash :: "(nat \<Rightarrow> 's \<Rightarrow> ('r + 's) option) \<Rightarrow> nat \<Rightarrow> nat \<Rightarrow> 's \<Rightarrow> ('r + 's) option" where
  "double_hash step hash prime s =
    (if prime = 0 then None
     else do {
       let ht_index = hash mod prime;
       x \<leftarrow> step ht_index s;
       (case x of
          Inl y \<Rightarrow> Some (Inl y)
        | Inr s \<Rightarrow> do {
            rhfact \<leftarrow> SET_REHASH_FACTOR hash prime;
            probe_loop step (SET_REHASH_INDEX ht_index rhfact prime) ht_index rhfact prime s
          })
     })"

section \<open>Lookup\<close>

definition RETURN_IF_LOOKUP_DONE :: "hash_table_int4 \<Rightarrow> uint4 \<Rightarrow> nat \<Rightarrow> unit \<Rightarrow> (nat option + unit) option" where
  "RETURN_IF_LOOKUP_DONE t k i u = do {
     e \<leftarrow> tab_ent t i;
     if HTENT_EMPTY_INT4 e then Some (Inl None)
     else if \<not> HTENT_MARK_DELETED e \<and> ht_key e = k then Some (Inl (Some i))
     else Some (Inr ())
   }"

text \<open>The result is the index of the entry, \<open>Some None\<close> for the null pointer.\<close>

definition lookup_hashtab_int4 :: "hash_table_int4 \<Rightarrow> uint4 \<Rightarrow> nat option option" where
  "lookup_hashtab_int4 t k = do {
     x \<leftarrow> double_hash (RETURN_IF_LOOKUP_DONE t k) (COMPUTE_HASH_INT4 k) (tab_size t) ();
     (case x of Inl y \<Rightarrow> Some y | Inr _ \<Rightarrow> Some None)
   }"

section \<open>Adding an entry to a table of unchanged size\<close>

text \<open>\<open>RETURN_IF_ADDED\<close> and, when it falls through, the \<open>bit_set\<close> behind it; \<open>first_del_ent\<close> is kept with the table.\<close>

definition RETURN_IF_ADDED ::
    "uint4 \<Rightarrow> htval \<Rightarrow> nat \<Rightarrow> hash_table_int4 \<times> nat option \<Rightarrow> (bool \<times> nat \<times> hash_table_int4 + hash_table_int4 \<times> nat option) option" where
  "RETURN_IF_ADDED k v i = (\<lambda>(t, first_del_ent). do {
     e \<leftarrow> tab_ent t i;
     if HTENT_EMPTY_INT4 e then do {
       let i = (case first_del_ent of None \<Rightarrow> i | Some d \<Rightarrow> d);
       t \<leftarrow> INSERT_HTENT t i k v;
       Some (Inl (True, i, t))
     } else if \<not> HTENT_MARK_DELETED e \<and> ht_key e = k then Some (Inl (False, i, t))
     else do {
       let first_del_ent = (if HTENT_MARK_DELETED e \<and> first_del_ent = None then Some i else first_del_ent);
       (ret, ptr) \<leftarrow> bit_set i (entry_passed_thru t);
       Some (Inr (t\<lparr>entry_passed_thru := ptr\<rparr>, first_del_ent))
     }
   })"

text \<open>
  \<open>ADD_HASHTAB_INTL\<close> with \<open>changing_table_size\<close>, behind the check for expansion: whether the key was added, the
  index of its entry, and the table.
\<close>

definition add_hashtab_intl_int4 :: "hash_table_int4 \<Rightarrow> uint4 \<Rightarrow> htval \<Rightarrow> (bool \<times> nat \<times> hash_table_int4) option" where
  "add_hashtab_intl_int4 t k v = do {
     x \<leftarrow> double_hash (RETURN_IF_ADDED k v) (COMPUTE_HASH_INT4 k) (tab_size t) (t, None);
     (case x of
        Inl y \<Rightarrow> Some y
      | Inr (t, None) \<Rightarrow> None
      | Inr (t, Some d) \<Rightarrow> do { t \<leftarrow> INSERT_HTENT t d k v; Some (True, d, t) })
   }"

section \<open>Initialization\<close>

datatype ht_error = HTOFLOW | MEMORY

function size_loop :: "nat list \<Rightarrow> nat \<Rightarrow> nat \<Rightarrow> nat \<Rightarrow> nat option" where
  "size_loop ht_sizes minsize index cur =
    (if cur \<noteq> 0 \<and> cur < minsize
     then (if index < length ht_sizes then size_loop ht_sizes minsize (index + 1) (ht_sizes ! index) else None)
     else Some cur)"
  by pat_completeness auto
termination by (relation "measure (\<lambda>(ht_sizes, minsize, index, cur). length ht_sizes - index)") auto

function shrink_loop :: "nat list \<Rightarrow> nat \<Rightarrow> nat \<Rightarrow> nat \<Rightarrow> nat \<Rightarrow> nat option" where
  "shrink_loop ht_sizes old_size index cur prior_size =
    (if cur \<noteq> 0 \<and> cur < old_size
     then (if index < length ht_sizes then shrink_loop ht_sizes old_size (index + 1) (ht_sizes ! index) (ht_sizes ! (index - 1)) else None)
     else Some prior_size)"
  by pat_completeness auto
termination by (relation "measure (\<lambda>(ht_sizes, old_size, index, cur, prior_size). length ht_sizes - index)") auto

declare size_loop.simps [simp del] shrink_loop.simps [simp del]

definition HT_FIELDS_COMMON_INIT :: "hash_table_int4 \<Rightarrow> hash_table_int4" where
  "HT_FIELDS_COMMON_INIT t = t\<lparr>
     exp_trigger_size := tab_size t * HT_LOAD_FACTOR div 100,
     cmp_trigger_size := tab_size t * HT_REHASH_FACTOR div 100,
     tab_active := True, tab_count := 0, del_count := 0\<rparr>"

definition ROUND_UP8 :: "nat \<Rightarrow> nat" where "ROUND_UP8 n = (n + 7) div 8 * 8"

definition new_size :: "nat list \<Rightarrow> nat \<Rightarrow> hash_table_int4 option \<Rightarrow> nat option" where
  "new_size ht_sizes minsize old_table =
    (case old_table of
       None \<Rightarrow> size_loop ht_sizes minsize 0 (ht_sizes ! 0)
     | Some old \<Rightarrow>
         if minsize > tab_size old div 2 then size_loop ht_sizes minsize 0 (ht_sizes ! 0)
         else do {
           prior \<leftarrow> shrink_loop ht_sizes (tab_size old) 1 (ht_sizes ! 1) (ht_sizes ! 0);
           Some (if prior > initial_size old then prior else initial_size old)
         })"

text \<open>
  \<open>mem n\<close> says whether an array for \<open>n\<close> entries can be allocated.  \<open>minsize\<close> is the value its unsigned comparisons use.  The
  result is an error or the new table, and the old table with what happened to its spare array.
\<close>

definition init_hashtab_intl_int4 ::
    "nat list \<Rightarrow> (nat \<Rightarrow> bool) \<Rightarrow> hash_table_int4 \<Rightarrow> nat \<Rightarrow> hash_table_int4 option
      \<Rightarrow> ((ht_error + hash_table_int4) \<times> hash_table_int4 option) option" where
  "init_hashtab_intl_int4 ht_sizes mem t minsize old_table = do {
     cur_ht_size \<leftarrow> new_size ht_sizes minsize old_table;
     if cur_ht_size \<noteq> 0 then do {
       let t = t\<lparr>tab_base := [], spare_base := False, spare_base_size := 0\<rparr>;
       let keep = (case old_table of Some old \<Rightarrow> \<not> dont_keep_spare_table old | None \<Rightarrow> \<not> dont_keep_spare_table t);
       let reuse = (keep \<and> (case old_table of Some old \<Rightarrow> spare_base_size old = cur_ht_size \<and> spare_base old | None \<Rightarrow> False));
       let old_table = (if keep then map_option (\<lambda>old. old\<lparr>spare_base := False,
             spare_base_size := (if spare_base_size old = cur_ht_size \<or> spare_base old then 0 else spare_base_size old)\<rparr>) old_table
           else old_table);
       if \<not> reuse \<and> \<not> mem cur_ht_size then Some (Inl MEMORY, old_table)
       else do {
         let t = t\<lparr>tab_base := replicate cur_ht_size \<lparr>ht_key = 0, ht_value = 0\<rparr>,
           entry_passed_thru := replicate (ROUND_UP8 cur_ht_size) 0, tab_size := cur_ht_size\<rparr>;
         let t = (case old_table of None \<Rightarrow> t | Some old \<Rightarrow> t\<lparr>initial_size := initial_size old, dont_compact := dont_compact old,
           dont_keep_spare_table := dont_keep_spare_table old, defer_base_release := defer_base_release old\<rparr>);
         Some (Inr (HT_FIELDS_COMMON_INIT t), old_table)
       }
     } else Some (Inl HTOFLOW, old_table)
   }"

definition init_hashtab_int4 :: "nat list \<Rightarrow> (nat \<Rightarrow> bool) \<Rightarrow> hash_table_int4 \<Rightarrow> nat \<Rightarrow> bool \<Rightarrow> bool \<Rightarrow> (ht_error + hash_table_int4) option" where
  "init_hashtab_int4 ht_sizes mem t minsize no_compact no_spare = do {
     s \<leftarrow> size_loop ht_sizes minsize 0 (ht_sizes ! 0);
     (r, _) \<leftarrow> init_hashtab_intl_int4 ht_sizes mem
       (t\<lparr>initial_size := (if s \<noteq> 0 then s else minsize), dont_compact := no_compact, dont_keep_spare_table := no_spare,
          defer_base_release := False, tab_active := True\<rparr>) minsize None;
     Some r
   }"

section \<open>Expansion\<close>

fun move_entries :: "ht_ent_int4 list \<Rightarrow> hash_table_int4 \<Rightarrow> hash_table_int4 option" where
  "move_entries [] newtable = Some newtable"
| "move_entries (e # es) newtable =
    (if HTENT_VALID_INT4 e then do {
       (added, i, newtable) \<leftarrow> add_hashtab_intl_int4 newtable (ht_key e) (ht_value e);
       move_entries es newtable
     } else move_entries es newtable)"

text \<open>
  The result tells the error that \<open>hashtab_rehash_ch\<close> caught, when the table keeps its array; the caller sees that from
  the unchanged \<open>base\<close>.  What the uninitialized local \<open>newtable\<close> holds does not matter, since every field is set.
  The value fields of the old array, which receive the addresses of the moved entries, are not kept.
\<close>

definition blank_table :: hash_table_int4 where
  "blank_table = \<lparr>tab_base = [], spare_base = False, entry_passed_thru = [], tab_size = 0, initial_size = 0, spare_base_size = 0,
     tab_count = 0, del_count = 0, exp_trigger_size = 0, cmp_trigger_size = 0, dont_compact = False, dont_keep_spare_table = False,
     defer_base_release = False, tab_active = False\<rparr>"

definition expand_hashtab_int4 :: "nat list \<Rightarrow> (nat \<Rightarrow> bool) \<Rightarrow> hash_table_int4 \<Rightarrow> nat \<Rightarrow> (ht_error option \<times> hash_table_int4) option" where
  "expand_hashtab_int4 ht_sizes mem t minsize = do {
     (r, old) \<leftarrow> init_hashtab_intl_int4 ht_sizes mem (blank_table\<lparr>dont_keep_spare_table := dont_keep_spare_table t\<rparr>) minsize (Some t);
     t \<leftarrow> old;
     (case r of
        Inl e \<Rightarrow> Some (Some e, t)
      | Inr newtable \<Rightarrow> do {
          newtable \<leftarrow> (if 0 < tab_count t then move_entries (tab_base t) newtable else Some newtable);
          Some (None,
            if dont_keep_spare_table newtable then newtable\<lparr>spare_base := False, spare_base_size := 0\<rparr>
            else newtable\<lparr>spare_base := True, spare_base_size := tab_size t\<rparr>)
        })
   }"

section \<open>Adding\<close>

definition add_hashtab_int4 ::
    "nat list \<Rightarrow> (nat \<Rightarrow> bool) \<Rightarrow> hash_table_int4 \<Rightarrow> uint4 \<Rightarrow> htval \<Rightarrow> (ht_error \<times> hash_table_int4 + bool \<times> nat \<times> hash_table_int4) option" where
  "add_hashtab_int4 ht_sizes mem t k v =
    (if tab_count t \<ge> exp_trigger_size t then do {
       (err, t) \<leftarrow> expand_hashtab_int4 ht_sizes mem t (tab_size t + 1);
       (case err of
          Some e \<Rightarrow>
            if exp_trigger_size t \<ge> tab_size t then Some (Inl (e, t))
            else map_option Inr (add_hashtab_intl_int4 (t\<lparr>exp_trigger_size := tab_size t\<rparr>) k v)
        | None \<Rightarrow> map_option Inr (add_hashtab_intl_int4 t k v))
     } else map_option Inr (add_hashtab_intl_int4 t k v))"

section \<open>Deleting\<close>

definition DELETE_HTENT :: "hash_table_int4 \<Rightarrow> nat \<Rightarrow> hash_table_int4 option" where
  "DELETE_HTENT t entry_num = do {
     e \<leftarrow> tab_ent t entry_num;
     p \<leftarrow> rdb (entry_passed_thru t) (entry_num div 8);
     let t = (if push_bit (entry_num mod 8) 1 AND p \<noteq> 0
       then t\<lparr>tab_base := (tab_base t)[entry_num := e\<lparr>ht_value := HT_DELETED_ENTRY\<rparr>], del_count := inc32 (del_count t)\<rparr>
       else t\<lparr>tab_base := (tab_base t)[entry_num := e\<lparr>ht_value := 0\<rparr>]\<rparr>);
     Some (t\<lparr>tab_count := dec32 (tab_count t)\<rparr>)
   }"

definition delete_hashtab_ent_int4 :: "hash_table_int4 \<Rightarrow> nat \<Rightarrow> hash_table_int4 option" where
  "delete_hashtab_ent_int4 t tabent = DELETE_HTENT t tabent"

definition compact_hashtab_int4 :: "nat list \<Rightarrow> (nat \<Rightarrow> bool) \<Rightarrow> hash_table_int4 \<Rightarrow> hash_table_int4 option" where
  "compact_hashtab_int4 ht_sizes mem t =
    (if \<not> dont_compact t then do {
       (err, t) \<leftarrow> expand_hashtab_int4 ht_sizes mem t (HT_REHASH_TABLE_SIZE t);
       Some (if err \<noteq> None then t\<lparr>cmp_trigger_size := tab_size t\<rparr> else t)
     } else Some t)"

definition RETURN_IF_DELETED ::
    "nat list \<Rightarrow> (nat \<Rightarrow> bool) \<Rightarrow> hash_table_int4 \<Rightarrow> uint4 \<Rightarrow> nat \<Rightarrow> unit \<Rightarrow> (bool \<times> hash_table_int4 + unit) option" where
  "RETURN_IF_DELETED ht_sizes mem t k i u = do {
     e \<leftarrow> tab_ent t i;
     if HTENT_EMPTY_INT4 e then Some (Inl (False, t))
     else if \<not> HTENT_MARK_DELETED e \<and> ht_key e = k then do {
       t \<leftarrow> DELETE_HTENT t i;
       t \<leftarrow> (if COMPACT_NEEDED t then compact_hashtab_int4 ht_sizes mem t else Some t);
       Some (Inl (True, t))
     } else Some (Inr ())
   }"

definition delete_hashtab_int4 :: "nat list \<Rightarrow> (nat \<Rightarrow> bool) \<Rightarrow> hash_table_int4 \<Rightarrow> uint4 \<Rightarrow> (bool \<times> hash_table_int4) option" where
  "delete_hashtab_int4 ht_sizes mem t k = do {
     x \<leftarrow> double_hash (RETURN_IF_DELETED ht_sizes mem t k) (COMPUTE_HASH_INT4 k) (tab_size t) ();
     (case x of Inl y \<Rightarrow> Some y | Inr _ \<Rightarrow> Some (False, t))
   }"

section \<open>Releasing and clearing\<close>

definition free_hashtab_int4 :: "hash_table_int4 \<Rightarrow> hash_table_int4" where
  "free_hashtab_int4 t = t\<lparr>tab_base := [], spare_base := False, spare_base_size := 0\<rparr>"

text \<open>\<open>memset\<close> clears the entries and the bytes of the bit vector the size needs, all within the array.\<close>

definition reinitialize_hashtab_int4 :: "hash_table_int4 \<Rightarrow> hash_table_int4 option" where
  "reinitialize_hashtab_int4 t =
    (let n = tab_size t div 8 + 1 in
     if tab_size t \<le> length (tab_base t) \<and> n \<le> length (entry_passed_thru t)
     then Some (HT_FIELDS_COMMON_INIT (t\<lparr>
       tab_base := replicate (tab_size t) \<lparr>ht_key = 0, ht_value = 0\<rparr> @ drop (tab_size t) (tab_base t),
       entry_passed_thru := replicate n 0 @ drop n (entry_passed_thru t)\<rparr>))
     else None)"

end
