(* ===== verification/HashtabProbe.thy ===== *)
theory HashtabProbe
  imports Hashtab
begin

text \<open>
  Probing: with a prime table size double hashing visits every entry once; the invariant of a table, and lookup,
  insertion and deletion of an entry in a table of unchanged size as operations on a map.
\<close>

section \<open>The probe sequence\<close>

definition ht_prime :: "nat \<Rightarrow> bool" where
  "ht_prime p \<longleftrightarrow> 2 < p \<and> (\<forall>d. 1 < d \<and> d < p \<longrightarrow> \<not> d dvd p)"

lemma ht_prime_coprime:
  assumes "ht_prime p" "0 < r" "r < p"
  shows "coprime r p"
proof -
  have "gcd r p dvd p" "gcd r p \<le> r" "0 < gcd r p" using assms(2) by (simp_all add: dvd_imp_le)
  then have "\<not> 1 < gcd r p" using assms(1,3) unfolding ht_prime_def by (meson le_less_trans)
  then have "gcd r p = 1" using \<open>0 < gcd r p\<close> by linarith
  then show ?thesis by (simp add: coprime_iff_gcd_eq_1)
qed

definition probe :: "nat \<Rightarrow> nat \<Rightarrow> nat \<Rightarrow> nat" where
  "probe h p j = (h + j * (1 + h mod (p - 1))) mod p"

lemma probe_less: "ht_prime p \<Longrightarrow> probe h p j < p"
  by (simp add: probe_def ht_prime_def)

lemma probe_0: "probe h p 0 = h mod p"
  by (simp add: probe_def)

lemma factor_less: "ht_prime p \<Longrightarrow> 1 + h mod (p - 1) < p"
  using mod_less_divisor [of "p - 1" h] unfolding ht_prime_def by linarith

lemma probe_Suc:
  assumes "ht_prime p" "p \<le> 2 ^ 31"
  shows "SET_REHASH_INDEX (probe h p j) (1 + h mod (p - 1)) p = probe h p (Suc j)"
proof -
  define r where "r = 1 + h mod (p - 1)"
  have r: "r < p" "probe h p j < p" using factor_less [OF assms(1)] probe_less [OF assms(1)] by (simp_all add: r_def)
  then have w: "(probe h p j + r) mod 2 ^ 32 = probe h p j + r" using assms(2) by simp
  have "probe h p (Suc j) = (probe h p j + r) mod p"
    unfolding probe_def r_def [symmetric] mod_add_left_eq by (simp add: ac_simps)
  also have "\<dots> = (if probe h p j + r \<ge> p then probe h p j + r - p else probe h p j + r)"
    using r by (simp add: mod_if)
  finally show ?thesis unfolding SET_REHASH_INDEX_def r_def [symmetric] w Let_def by simp
qed

lemma probe_inj:
  assumes "ht_prime p" "i < p" "j < p" "probe h p i = probe h p j"
  shows "i = j"
proof -
  define r where "r = 1 + h mod (p - 1)"
  have c: "coprime r p" using ht_prime_coprime [OF assms(1), of r] factor_less [OF assms(1), of h] by (simp add: r_def)
  have "i = j" if l: "i \<le> j" "j < p" "probe h p i = probe h p j" for i j
  proof -
    have "(h + j * r) mod p = (h + i * r) mod p" using l(3) by (simp add: probe_def r_def)
    moreover have "h + i * r \<le> h + j * r" using l(1) by simp
    ultimately have "p dvd (h + j * r) - (h + i * r)" using mod_eq_dvd_iff_nat by blast
    moreover have "(h + j * r) - (h + i * r) = (j - i) * r" by (simp add: diff_mult_distrib)
    ultimately have "p dvd (j - i) * r" by simp
    then have "p dvd j - i" using c by (metis coprime_commute coprime_dvd_mult_left_iff)
    then show ?thesis using l by (metis diff_is_0_eq' dvd_imp_le le_antisym less_imp_diff_less linorder_not_less zero_less_iff_neq_zero diff_diff_cancel diff_zero)
  qed
  then show ?thesis using assms by (cases "i \<le> j") (auto dest: not_le_imp_less, metis le_eq_less_or_eq nat_le_linear)
qed

lemma probe_surj:
  assumes "ht_prime p" "i < p"
  shows "\<exists>j < p. probe h p j = i"
proof -
  have "probe h p ` {..<p} \<subseteq> {..<p}" using probe_less [OF assms(1)] by auto
  moreover have "inj_on (probe h p) {..<p}" using probe_inj [OF assms(1)] by (auto simp: inj_on_def)
  ultimately have "probe h p ` {..<p} = {..<p}" by (simp add: endo_inj_surj)
  then show ?thesis using assms(2) by (metis imageE lessThan_iff)
qed

lemma probe_wrap: "probe h p p = probe h p 0"
  unfolding probe_def by (simp only: mod_mult_self2 mult_0 add_0_right)

text \<open>
  The rule for the three operations: when looking at the \<open>j\<close>th entry of the sequence returns with \<open>Q\<close> or takes \<open>I j\<close> to
  \<open>I (j + 1)\<close>, the whole search returns with \<open>Q\<close>, or ends after all \<open>p\<close> entries.
\<close>

lemma probe_loop_run:
  assumes p: "ht_prime p" "p \<le> 2 ^ 31" and r: "r = 1 + h mod (p - 1)"
    and step: "\<And>j s. j < p \<Longrightarrow> I j s \<Longrightarrow>
      (\<exists>y. step (probe h p j) s = Some (Inl y) \<and> Q y) \<or> (\<exists>s'. step (probe h p j) s = Some (Inr s') \<and> I (Suc j) s')"
  shows "0 < j \<Longrightarrow> j < p \<Longrightarrow> I j s \<Longrightarrow>
    (\<exists>y. probe_loop step (probe h p j) (probe h p 0) r p s = Some (Inl y) \<and> Q y) \<or>
    (\<exists>s'. probe_loop step (probe h p j) (probe h p 0) r p s = Some (Inr s') \<and> I p s')"
proof (induction "p - j" arbitrary: j s rule: less_induct)
  case less
  note nx = probe_Suc [OF p, of h j, folded r]
  consider (ret) y where "step (probe h p j) s = Some (Inl y)" "Q y" | (go) s' where "step (probe h p j) s = Some (Inr s')" "I (Suc j) s'"
    using step less.prems by blast
  then show ?case
  proof cases
    case ret then show ?thesis by (subst (1 2) probe_loop.simps) simp
  next
    case go
    show ?thesis
    proof (cases "Suc j < p")
      case True
      then have "probe h p (Suc j) \<noteq> probe h p 0" using probe_inj [OF p(1), of "Suc j" 0 h] by auto
      then have "probe_loop step (probe h p j) (probe h p 0) r p s = probe_loop step (probe h p (Suc j)) (probe h p 0) r p s'"
        using go nx by (subst probe_loop.simps) (simp add: Let_def)
      then show ?thesis using less.hyps [OF _ _ True go(2)] True by simp
    next
      case False
      then have "Suc j = p" using less.prems by simp
      then have "probe_loop step (probe h p j) (probe h p 0) r p s = Some (Inr s')"
        using go nx probe_wrap [of h p] by (subst probe_loop.simps) (simp add: Let_def)
      then show ?thesis using go(2) \<open>Suc j = p\<close> by simp
    qed
  qed
qed

lemma double_hash_run:
  assumes p: "ht_prime p" "p \<le> 2 ^ 31" and I0: "I 0 s"
    and step: "\<And>j s. j < p \<Longrightarrow> I j s \<Longrightarrow>
      (\<exists>y. step (probe h p j) s = Some (Inl y) \<and> Q y) \<or> (\<exists>s'. step (probe h p j) s = Some (Inr s') \<and> I (Suc j) s')"
  shows "(\<exists>y. double_hash step h p s = Some (Inl y) \<and> Q y) \<or> (\<exists>s'. double_hash step h p s = Some (Inr s') \<and> I p s')"
proof -
  have p2: "0 < p" "1 < p" "p - 1 \<noteq> 0" using p(1) by (auto simp: ht_prime_def)
  consider (ret) y where "step (probe h p 0) s = Some (Inl y)" "Q y" | (go) s' where "step (probe h p 0) s = Some (Inr s')" "I 1 s'"
    using step [OF p2(1) I0] by auto
  then show ?thesis
  proof cases
    case ret then show ?thesis using p2 by (simp add: double_hash_def probe_0)
  next
    case go
    have "double_hash step h p s = probe_loop step (probe h p 1) (probe h p 0) (1 + h mod (p - 1)) p s'"
      using go(1) p2 probe_Suc [OF p, of h 0] by (simp add: double_hash_def probe_0 SET_REHASH_FACTOR_def Let_def)
    then show ?thesis using probe_loop_run [where I = I and Q = Q and step = step, OF p refl step _ p2(2) go(2)] by simp
  qed
qed

section \<open>The invariant and the map a table stands for\<close>

definition passed :: "hash_table_int4 \<Rightarrow> nat \<Rightarrow> bool" where
  "passed t i \<longleftrightarrow> bit (entry_passed_thru t ! (i div 8)) (i mod 8)"

abbreviation kprobe :: "hash_table_int4 \<Rightarrow> uint4 \<Rightarrow> nat \<Rightarrow> nat" where
  "kprobe t k j \<equiv> probe (COMPUTE_HASH_INT4 k) (tab_size t) j"

text \<open>Every entry before \<open>i\<close> in the sequence of \<open>k\<close> is in use or deleted, and marked as passed.\<close>

definition reached :: "hash_table_int4 \<Rightarrow> uint4 \<Rightarrow> nat \<Rightarrow> bool" where
  "reached t k i \<longleftrightarrow> (\<exists>j < tab_size t. kprobe t k j = i \<and>
     (\<forall>j' < j. \<not> HTENT_EMPTY_INT4 (tab_base t ! kprobe t k j') \<and> passed t (kprobe t k j')))"

definition ht_core :: "hash_table_int4 \<Rightarrow> bool" where
  "ht_core t \<longleftrightarrow> ht_prime (tab_size t) \<and> tab_size t \<le> 2 ^ 31 \<and> length (tab_base t) = tab_size t \<and>
     tab_size t \<le> 8 * length (entry_passed_thru t) \<and>
     (\<forall>i < tab_size t. HTENT_VALID_INT4 (tab_base t ! i) \<longrightarrow> reached t (ht_key (tab_base t ! i)) i) \<and>
     (\<forall>i < tab_size t. \<forall>i' < tab_size t. HTENT_VALID_INT4 (tab_base t ! i) \<longrightarrow> HTENT_VALID_INT4 (tab_base t ! i') \<longrightarrow>
        ht_key (tab_base t ! i) = ht_key (tab_base t ! i') \<longrightarrow> i = i') \<and>
     tab_count t = length (filter HTENT_VALID_INT4 (tab_base t)) \<and>
     del_count t = length (filter HTENT_MARK_DELETED (tab_base t))"

definition ht_map :: "hash_table_int4 \<Rightarrow> uint4 \<Rightarrow> htval option" where
  "ht_map t k = map_option ht_value (List.find (\<lambda>e. HTENT_VALID_INT4 e \<and> ht_key e = k) (tab_base t))"

lemmas ent_defs = HTENT_VALID_INT4_def HTENT_EMPTY_INT4_def HTENT_MARK_DELETED_def HT_DELETED_ENTRY_def

lemma ht_coreD:
  assumes "ht_core t"
  shows "ht_prime (tab_size t)" "tab_size t \<le> 2 ^ 31" "length (tab_base t) = tab_size t" "tab_size t \<le> 8 * length (entry_passed_thru t)"
    "tab_count t = length (filter HTENT_VALID_INT4 (tab_base t))" "del_count t = length (filter HTENT_MARK_DELETED (tab_base t))"
    "\<And>i. i < tab_size t \<Longrightarrow> HTENT_VALID_INT4 (tab_base t ! i) \<Longrightarrow> reached t (ht_key (tab_base t ! i)) i"
    "\<And>i i'. i < tab_size t \<Longrightarrow> i' < tab_size t \<Longrightarrow> HTENT_VALID_INT4 (tab_base t ! i) \<Longrightarrow> HTENT_VALID_INT4 (tab_base t ! i') \<Longrightarrow>
      ht_key (tab_base t ! i) = ht_key (tab_base t ! i') \<Longrightarrow> i = i'"
  using assms unfolding ht_core_def by blast+

lemma ht_map_None: "ht_map t k = None \<longleftrightarrow> (\<forall>i < length (tab_base t). \<not> (HTENT_VALID_INT4 (tab_base t ! i) \<and> ht_key (tab_base t ! i) = k))"
  by (auto simp: ht_map_def find_None_iff in_set_conv_nth)

lemma ht_map_at:
  assumes "ht_core t" "i < tab_size t" "HTENT_VALID_INT4 (tab_base t ! i)"
  shows "ht_map t (ht_key (tab_base t ! i)) = Some (ht_value (tab_base t ! i))"
proof -
  let ?P = "\<lambda>e. HTENT_VALID_INT4 e \<and> ht_key e = ht_key (tab_base t ! i)"
  have "List.find ?P (tab_base t) = Some (tab_base t ! i)"
    unfolding find_Some_iff using assms ht_coreD(3) [OF assms(1)] ht_coreD(8) [OF assms(1), of _ i]
    by (intro exI [of _ i]) (auto, metis less_trans nat_neq_iff)
  then show ?thesis by (simp add: ht_map_def)
qed

lemma ht_map_Some:
  assumes "ht_core t"
  shows "ht_map t k = Some v \<longleftrightarrow> (\<exists>i < tab_size t. HTENT_VALID_INT4 (tab_base t ! i) \<and> tab_base t ! i = \<lparr>ht_key = k, ht_value = v\<rparr>)"
proof
  assume "ht_map t k = Some v"
  then obtain i where "i < tab_size t" "HTENT_VALID_INT4 (tab_base t ! i)" "ht_key (tab_base t ! i) = k"
    using ht_map_None [of t k] ht_coreD(3) [OF assms] by auto
  then show "\<exists>i < tab_size t. HTENT_VALID_INT4 (tab_base t ! i) \<and> tab_base t ! i = \<lparr>ht_key = k, ht_value = v\<rparr>"
    using ht_map_at [OF assms] \<open>ht_map t k = Some v\<close> by (intro exI [of _ i]) auto
next
  assume "\<exists>i < tab_size t. HTENT_VALID_INT4 (tab_base t ! i) \<and> tab_base t ! i = \<lparr>ht_key = k, ht_value = v\<rparr>"
  then show "ht_map t k = Some v" using ht_map_at [OF assms] by fastforce
qed

section \<open>Looking at the entries of a key in turn\<close>

definition seen :: "hash_table_int4 \<Rightarrow> uint4 \<Rightarrow> nat \<Rightarrow> bool" where
  "seen t k j \<longleftrightarrow> (\<forall>j' < j. \<not> HTENT_EMPTY_INT4 (tab_base t ! kprobe t k j') \<and>
     (HTENT_MARK_DELETED (tab_base t ! kprobe t k j') \<or> ht_key (tab_base t ! kprobe t k j') \<noteq> k))"

lemma seen_Suc:
  "seen t k j \<Longrightarrow> \<not> HTENT_EMPTY_INT4 (tab_base t ! kprobe t k j) \<Longrightarrow>
    HTENT_MARK_DELETED (tab_base t ! kprobe t k j) \<or> ht_key (tab_base t ! kprobe t k j) \<noteq> k \<Longrightarrow> seen t k (Suc j)"
  by (auto simp: seen_def less_Suc_eq)

lemma seen_absent:
  assumes c: "ht_core t" and s: "seen t k j" and e: "j = tab_size t \<or> HTENT_EMPTY_INT4 (tab_base t ! kprobe t k j)"
  shows "ht_map t k = None"
proof (rule ccontr)
  assume "ht_map t k \<noteq> None"
  then obtain i where i: "i < tab_size t" "HTENT_VALID_INT4 (tab_base t ! i)" "ht_key (tab_base t ! i) = k"
    using ht_map_None [of t k] ht_coreD(3) [OF c] by auto
  obtain j0 where j0: "j0 < tab_size t" "kprobe t k j0 = i" "\<forall>j' < j0. \<not> HTENT_EMPTY_INT4 (tab_base t ! kprobe t k j')"
    using ht_coreD(7) [OF c i(1,2)] i(3) by (auto simp: reached_def)
  have "\<not> j0 < j" using s i j0(2) by (auto simp: seen_def ent_defs)
  moreover have "\<not> j < j0" using e j0 by auto
  ultimately have "j0 = j" by simp
  then show False using e j0(1,2) i(2) by (auto simp: ent_defs)
qed

text \<open>Lookup returns on every table that satisfies the invariant, with the entry of the key if there is one.\<close>

lemma ht_lookup_ok:
  assumes c: "ht_core t"
  shows "(lookup_hashtab_int4 t k = Some None \<and> ht_map t k = None) \<or>
    (\<exists>i v. lookup_hashtab_int4 t k = Some (Some i) \<and> i < tab_size t \<and> tab_base t ! i = \<lparr>ht_key = k, ht_value = v\<rparr> \<and>
      HTENT_VALID_INT4 (tab_base t ! i) \<and> ht_map t k = Some v)"
proof -
  let ?h = "COMPUTE_HASH_INT4 k" and ?p = "tab_size t"
  define Q where "Q r \<longleftrightarrow> (case r of None \<Rightarrow> ht_map t k = None
    | Some i \<Rightarrow> i < ?p \<and> HTENT_VALID_INT4 (tab_base t ! i) \<and> ht_key (tab_base t ! i) = k)" for r
  have step: "(\<exists>y. RETURN_IF_LOOKUP_DONE t k (probe ?h ?p j) u = Some (Inl y) \<and> Q y) \<or>
      (\<exists>s'. RETURN_IF_LOOKUP_DONE t k (probe ?h ?p j) u = Some (Inr s') \<and> seen t k (Suc j))" if j: "j < ?p" "seen t k j" for j u
  proof -
    have q: "kprobe t k j < ?p" "tab_ent t (kprobe t k j) = Some (tab_base t ! kprobe t k j)"
      using probe_less [OF ht_coreD(1) [OF c]] ht_coreD(3) [OF c] by (simp_all add: tab_ent_def)
    show ?thesis using q seen_absent [OF c j(2)] seen_Suc [OF j(2)] by (auto simp: RETURN_IF_LOOKUP_DONE_def Q_def ent_defs)
  qed
  have "(\<exists>y. double_hash (RETURN_IF_LOOKUP_DONE t k) ?h ?p () = Some (Inl y) \<and> Q y) \<or>
      (\<exists>s'. double_hash (RETURN_IF_LOOKUP_DONE t k) ?h ?p () = Some (Inr s') \<and> seen t k ?p)"
    by (rule double_hash_run [where I = "\<lambda>j _. seen t k j", OF ht_coreD(1,2) [OF c] _ step]) (simp_all add: seen_def)
  then obtain r where r: "lookup_hashtab_int4 t k = Some r" "Q r"
    using seen_absent [OF c, of k ?p] by (auto simp: lookup_hashtab_int4_def Q_def)
  show ?thesis
  proof (cases r)
    case None then show ?thesis using r by (simp add: Q_def)
  next
    case (Some i)
    then have i: "i < ?p" "HTENT_VALID_INT4 (tab_base t ! i)" "ht_key (tab_base t ! i) = k" using r by (simp_all add: Q_def)
    then have "tab_base t ! i = \<lparr>ht_key = k, ht_value = ht_value (tab_base t ! i)\<rparr>" by simp
    then show ?thesis using r(1) Some i ht_map_at [OF c i(1,2)] by auto
  qed
qed

end
