(* ===== verification/HtPrimes.thy ===== *)
theory HtPrimes
  imports HashtabProbe
begin

text \<open>
  The sizes of hash tables are primes, shown with Lucas' criterion: \<open>n\<close> is prime when some \<open>a\<close> has the order
  \<open>n - 1\<close> modulo \<open>n\<close>.  The powers are computed by repeated squaring with the quotients given.
\<close>

section \<open>Lucas' criterion\<close>

definition is_prime :: "nat \<Rightarrow> bool" where
  "is_prime p \<longleftrightarrow> 1 < p \<and> (\<forall>d. 1 < d \<and> d < p \<longrightarrow> \<not> d dvd p)"

lemma ht_prime_iff: "ht_prime p \<longleftrightarrow> is_prime p \<and> p \<noteq> 2"
  by (auto simp: ht_prime_def is_prime_def)

lemma prime_coprime:
  assumes "is_prime q" "\<not> q dvd d"
  shows "coprime q d"
proof (rule ccontr)
  assume "\<not> coprime q d"
  then have "gcd q d \<noteq> 1" by (simp add: coprime_iff_gcd_eq_1)
  moreover have "gcd q d \<le> q" "gcd q d dvd q" "0 < gcd q d" using assms(1) by (auto simp: is_prime_def intro: dvd_imp_le)
  ultimately have "gcd q d = q" using assms(1) unfolding is_prime_def by (metis Suc_lessI le_neq_implies_less One_nat_def)
  then show False using assms(2) by (metis gcd_dvd2)
qed

lemma prime_factor:
  "list_all is_prime qs \<Longrightarrow> 1 < d \<Longrightarrow> d dvd prod_list qs \<Longrightarrow> \<exists>q \<in> set qs. q dvd d"
proof (induction qs)
  case (Cons q qs)
  show ?case
  proof (cases "q dvd d")
    case False
    then have "coprime d q" using prime_coprime [of q d] Cons.prems(1) by (simp add: coprime_commute)
    then have "d dvd prod_list qs" using Cons.prems(3) by (simp add: coprime_dvd_mult_right_iff)
    then show ?thesis using Cons by simp
  qed simp
qed simp

lemma power_mod_add: "(a :: nat) ^ i mod n = 1 \<Longrightarrow> a ^ (i + j) mod n = a ^ j mod n"
  by (metis mod_mult_left_eq mult_1 power_add)

lemma power_mod_mult: "(a :: nat) ^ m mod n = 1 \<Longrightarrow> a ^ (m * d + r) mod n = a ^ r mod n"
proof (induction d)
  case (Suc d)
  have "m * Suc d + r = m + (m * d + r)" by simp
  then show ?case using Suc power_mod_add [OF Suc.prems, of "m * d + r"] by (simp add: add.assoc)
qed simp

lemma order_full:
  assumes n: "1 < n" and one: "a ^ (n - 1) mod n = (1 :: nat)" and qs: "list_all is_prime qs" "prod_list qs = n - 1"
    and no: "\<And>q. q \<in> set qs \<Longrightarrow> a ^ ((n - 1) div q) mod n \<noteq> 1" and k: "0 < k" "k < n - 1"
  shows "a ^ k mod n \<noteq> 1"
proof
  assume "a ^ k mod n = 1"
  define m where "m = (LEAST m. 0 < m \<and> a ^ m mod n = 1)"
  have m: "0 < m" "a ^ m mod n = 1" "m \<le> k"
    using LeastI [of "\<lambda>m. 0 < m \<and> a ^ m mod n = 1" k] Least_le [of "\<lambda>m. 0 < m \<and> a ^ m mod n = 1" k] k(1) \<open>a ^ k mod n = 1\<close> by (simp_all add: m_def)
  define d where "d = (n - 1) div m"
  have "a ^ ((n - 1) mod m) mod n = 1"
    using power_mod_mult [OF m(2), of d "(n - 1) mod m"] one by (simp add: d_def)
  moreover have "(n - 1) mod m < m" using m(1) by simp
  ultimately have "(n - 1) mod m = 0" using not_less_Least [of "(n - 1) mod m" "\<lambda>m. 0 < m \<and> a ^ m mod n = 1"] by (auto simp: m_def)
  then have nd: "n - 1 = m * d" by (simp add: d_def mod_eq_0_iff_dvd)
  then have "1 < d" using m(3) k(2) by (metis One_nat_def less_one linorder_neqE_nat mult.right_neutral mult_0_right not_less not_less_zero)
  moreover have "d dvd prod_list qs" using nd qs(2) by simp
  ultimately obtain q where q: "q \<in> set qs" "q dvd d" using prime_factor [OF qs(1)] by blast
  then obtain e where e: "d = q * e" by auto
  have "0 < q" using q(1) qs(1) by (auto simp: list_all_iff is_prime_def)
  then have "(n - 1) div q = m * e + 0" using nd e by simp
  then have "a ^ ((n - 1) div q) mod n = 1" using power_mod_mult [OF m(2), of e 0] n by simp
  then show False using no [OF q(1)] by simp
qed

lemma lucas:
  assumes n: "1 < n" and one: "a ^ (n - 1) mod n = (1 :: nat)" and qs: "list_all is_prime qs" "prod_list qs = n - 1"
    and no: "\<And>q. q \<in> set qs \<Longrightarrow> a ^ ((n - 1) div q) mod n \<noteq> 1"
  shows "is_prime n"
proof -
  have cop: "\<not> d dvd a ^ i" if "1 < d" "d dvd n" "i \<le> n - 1" for d i
  proof
    assume "d dvd a ^ i"
    then have "d dvd a ^ (n - 1)" using that(3) by (meson dvd_trans le_imp_power_dvd)
    then have "d dvd a ^ (n - 1) mod n" using that(2) by (simp add: dvd_mod)
    then show False using one that(1) by simp
  qed
  have ca: "coprime a n"
  proof (rule ccontr)
    assume "\<not> coprime a n"
    then have "gcd a n \<noteq> 1" by (simp add: coprime_iff_gcd_eq_1)
    moreover have "0 < gcd a n" using n by simp
    ultimately have "1 < gcd a n" by linarith
    moreover have "gcd a n dvd a ^ 1" by simp
    moreover have "1 \<le> n - 1" using n by simp
    ultimately show False using cop [of "gcd a n" 1] by (metis gcd_dvd2)
  qed
  have a0: "0 < a" using one n by (cases "a = 0") (auto simp: power_0_left split: if_splits)
  have "inj_on (\<lambda>i. a ^ i mod n) {..<n - 1}"
  proof (rule linorder_inj_onI)
    fix i j assume ij: "i < j" "i \<in> {..<n - 1}" "j \<in> {..<n - 1}"
    show "a ^ i mod n \<noteq> a ^ j mod n"
    proof
      assume "a ^ i mod n = a ^ j mod n"
      moreover have "a ^ i \<le> a ^ j"
        using ij(1) a0 by (intro power_increasing) simp_all
      ultimately have "n dvd a ^ j - a ^ i" by (metis mod_eq_dvd_iff_nat)
      also have "a ^ j - a ^ i = a ^ i * (a ^ (j - i) - 1)" using ij(1) by (simp add: right_diff_distrib' power_add [symmetric])
      finally have "n dvd a ^ (j - i) - 1"
        using ca by (metis coprime_commute coprime_dvd_mult_right_iff coprime_power_right_iff)
      moreover have "1 \<le> a ^ (j - i)" using a0 by (simp add: Suc_le_eq)
      ultimately have "a ^ (j - i) mod n = 1 mod n" using mod_eq_dvd_iff_nat [of 1 "a ^ (j - i)" n] by simp
      moreover have "0 < j - i" "j - i < n - 1" using ij by auto
      ultimately show False using order_full [OF n one qs no, of "j - i"] n by simp
    qed
  qed auto
  moreover have "a ^ i mod n \<in> {1..<n}" if "i < n - 1" for i
  proof -
    have "a ^ i mod n \<noteq> 0" using cop [of n i] n that by (auto simp: mod_eq_0_iff_dvd)
    then show ?thesis using n by simp
  qed
  ultimately have "(\<lambda>i. a ^ i mod n) ` {..<n - 1} = {1..<n}"
    by (intro card_subset_eq) (auto simp: card_image)
  then have "\<exists>i < n - 1. a ^ i mod n = d" if "1 < d" "d < n" for d using that by (metis (no_types, lifting) atLeastLessThan_iff imageE lessThan_iff less_imp_le)
  then show ?thesis unfolding is_prime_def using n cop
    by (metis dvd_mod_imp_dvd dvd_refl less_imp_le)
qed

section \<open>Powers by repeated squaring\<close>

fun ladder :: "nat \<Rightarrow> nat \<Rightarrow> nat \<Rightarrow> (bool \<times> nat) list \<Rightarrow> nat option" where
  "ladder n a r [] = Some r"
| "ladder n a r ((b, q) # c) =
    (let x = (if b then r * r * a else r * r) in
     if q * n \<le> x \<and> x < q * n + n then ladder n a (x - q * n) c else None)"

fun expo :: "nat \<Rightarrow> (bool \<times> nat) list \<Rightarrow> nat" where
  "expo k [] = k"
| "expo k ((b, q) # c) = expo (2 * k + (if b then 1 else 0)) c"

lemma ladder_power: "ladder n a r c = Some s \<Longrightarrow> a ^ k mod n = r \<Longrightarrow> a ^ expo k c mod n = s"
proof (induction n a r c arbitrary: k rule: ladder.induct)
  case (2 n a r b q c)
  define x where "x = (if b then r * r * a else r * r)"
  have x: "q * n \<le> x" "x < q * n + n" "ladder n a (x - q * n) c = Some s" using 2(2) by (auto simp: x_def Let_def split: if_splits)
  have "a ^ (2 * k) mod n = (r * r) mod n" using 2(3) by (metis mod_mult_eq mult_2 power_add)
  then have "a ^ (2 * k + (if b then 1 else 0)) mod n = x mod n" by (auto simp: x_def) (metis mod_mult_left_eq mult.commute)
  also have "x mod n = x - q * n" using x(1,2) by (metis add.commute le_add_diff_inverse less_diff_conv2 mod_less mod_mult_self2 add_diff_cancel_left' less_diff_conv mult.commute)
  finally show ?case using 2(1) [OF refl] x by (simp add: x_def Let_def)
qed simp

lemma lucas_cert:
  assumes n: "1 < n" and c: "ladder n a 1 c = Some 1" "expo 0 c = n - 1" and qs: "list_all is_prime qs" "prod_list qs = n - 1" "set qs \<subseteq> set (map fst cs)"
    and cs: "list_all (\<lambda>(q, c). expo 0 c * q = n - 1 \<and> (case ladder n a 1 c of None \<Rightarrow> False | Some s \<Rightarrow> s \<noteq> 1)) cs"
  shows "is_prime n"
proof (rule lucas [OF n _ qs(1,2)])
  have pw: "a ^ expo 0 c mod n = s" if "ladder n a 1 c = Some s" for c s using ladder_power [OF that, of 0] n by simp
  then show "a ^ (n - 1) mod n = 1" using c by metis
  fix q assume q: "q \<in> set qs"
  then obtain cq where "(q, cq) \<in> set cs" using qs(3) by auto
  then have e: "expo 0 cq * q = n - 1" "case ladder n a 1 cq of None \<Rightarrow> False | Some s \<Rightarrow> s \<noteq> 1" using cs by (auto simp: list_all_iff)
  have "0 < q" using q qs(1) by (auto simp: list_all_iff is_prime_def)
  then have "(n - 1) div q = expo 0 cq" using e(1) by (metis nonzero_mult_div_cancel_right not_gr_zero)
  then show "a ^ ((n - 1) div q) mod n \<noteq> 1" using pw e(2) by (auto split: option.splits)
qed

text \<open>Small primes by trial division.\<close>

lemma small_prime:
  assumes "1 < p" "p < k * k" "list_all (\<lambda>d. p mod d \<noteq> 0) [2..<k]"
  shows "is_prime p"
proof -
  have "\<not> d dvd p" if d: "1 < d" "d < p" for d
  proof
    assume "d dvd p"
    then obtain e where e: "p = d * e" by auto
    then have "1 < e" using d by (cases e) (auto simp: less_Suc_eq_0_disj)
    have "d < k \<or> e < k"
    proof (rule ccontr)
      assume "\<not> ?thesis"
      then have "k * k \<le> d * e" by (intro mult_le_mono) auto
      then show False using assms(2) e by simp
    qed
    moreover have nz: "p mod x \<noteq> 0" if "2 \<le> x" "x < k" for x using assms(3) that by (simp add: list_all_iff)
    have "p mod d = 0" "p mod e = 0" using e by simp_all
    then have "\<not> (2 \<le> d \<and> d < k)" "\<not> (2 \<le> e \<and> e < k)" using nz [of d] nz [of e] by auto
    ultimately show False using d(1) \<open>1 < e\<close> by auto
  qed
  then show ?thesis using assms(1) by (simp add: is_prime_def)
qed

end
