(* ===== verification/HashtabEnt.thy ===== *)
theory HashtabEnt
  imports HashtabProbe
begin

text \<open>
  Adding an entry to and deleting an entry from a hash table of unchanged size: both keep the invariant and change
  the map at one key.
\<close>

section \<open>Writing one entry\<close>

lemma filter_update:
  "i < length xs \<Longrightarrow> length (filter P (xs[i := x])) + (if P (xs ! i) then 1 else 0) = length (filter P xs) + (if P x then 1 else 0)"
proof (induction xs arbitrary: i)
  case (Cons y ys) then show ?case by (cases i) auto
qed simp

lemma counters_fit:
  assumes "ht_core t"
  shows "tab_count t \<le> tab_size t" "del_count t \<le> tab_size t" "tab_count t + del_count t \<le> tab_size t"
proof -
  have "length (filter HTENT_VALID_INT4 xs) + length (filter HTENT_MARK_DELETED xs) \<le> length xs" for xs
    by (induction xs) (auto simp: ent_defs)
  from this [of "tab_base t"] show "tab_count t + del_count t \<le> tab_size t" using ht_coreD(3,5,6) [OF assms] by simp
  then show "tab_count t \<le> tab_size t" "del_count t \<le> tab_size t" by simp_all
qed

lemma inc32_small: "n < 2 ^ 31 + 1 \<Longrightarrow> inc32 n = n + 1"
  by (simp add: inc32_def)

lemma dec32_small: "0 < n \<Longrightarrow> n \<le> 2 ^ 31 \<Longrightarrow> dec32 n = n - 1"
  by (simp add: dec32_def mod_if)

lemma map_write:
  assumes c: "ht_core t" "ht_core t'" and b: "tab_base t' = (tab_base t)[i := e]" "i < tab_size t" "tab_size t' = tab_size t"
  shows "ht_key (tab_base t ! i) = k \<or> \<not> HTENT_VALID_INT4 (tab_base t ! i) \<Longrightarrow> ht_key e = k \<or> \<not> HTENT_VALID_INT4 e \<Longrightarrow> q \<noteq> k \<Longrightarrow>
    ht_map t' q = ht_map t q"
proof -
  assume a: "ht_key (tab_base t ! i) = k \<or> \<not> HTENT_VALID_INT4 (tab_base t ! i)" "ht_key e = k \<or> \<not> HTENT_VALID_INT4 e" "q \<noteq> k"
  have "ht_map t' q = Some v \<longleftrightarrow> ht_map t q = Some v" for v
    unfolding ht_map_Some [OF c(1)] ht_map_Some [OF c(2)] b using a b(2) ht_coreD(3) [OF c(1)]
    by (intro ex_cong1) (auto simp: nth_list_update)
  then show ?thesis by (metis not_None_eq)
qed

text \<open>Marking more entries as passed.\<close>

definition more_passed :: "hash_table_int4 \<Rightarrow> hash_table_int4 \<Rightarrow> bool" where
  "more_passed t t' \<longleftrightarrow> (\<exists>ps. t' = t\<lparr>entry_passed_thru := ps\<rparr> \<and> length ps = length (entry_passed_thru t) \<and> (\<forall>i. passed t i \<longrightarrow> passed t' i))"

lemma more_passed_refl: "more_passed t t"
  unfolding more_passed_def by (intro exI [of _ "entry_passed_thru t"]) simp

lemma more_passed_same:
  assumes "more_passed t t'"
  shows "tab_base t' = tab_base t" "tab_size t' = tab_size t" "tab_count t' = tab_count t" "del_count t' = del_count t"
    "length (entry_passed_thru t') = length (entry_passed_thru t)" "\<And>i. passed t i \<Longrightarrow> passed t' i" "ht_map t' = ht_map t"
  using assms by (auto simp: more_passed_def ht_map_def)

lemma more_passed_core:
  assumes "ht_core t" "more_passed t t'"
  shows "ht_core t'"
proof -
  note m = more_passed_same [OF assms(2)]
  have "reached t' k i" if "reached t k i" for k i using that m unfolding reached_def by metis
  then show ?thesis using assms(1) unfolding ht_core_def m by blast
qed

lemma passed_set:
  assumes "i div 8 < length (entry_passed_thru t)" "bit_set i (entry_passed_thru t) = Some (r, ps)"
  shows "length ps = length (entry_passed_thru t)" "passed (t\<lparr>entry_passed_thru := ps\<rparr>) q \<longleftrightarrow> passed t q \<or> q = i"
proof -
  have ps: "ps = (entry_passed_thru t)[i div 8 := (entry_passed_thru t ! (i div 8)) OR 2 ^ (i mod 8)]"
    using bit_set_ok [OF assms(1)] assms(2) by simp
  then show "length ps = length (entry_passed_thru t)" by simp
  have b: "bit (2 ^ (i mod 8) :: byte) (q mod 8) \<longleftrightarrow> i mod 8 = q mod 8" by (auto simp: bit_exp_iff possible_bit_def)
  show "passed (t\<lparr>entry_passed_thru := ps\<rparr>) q \<longleftrightarrow> passed t q \<or> q = i"
  proof (cases "q div 8 = i div 8")
    case True
    have "q = i \<longleftrightarrow> q mod 8 = i mod 8" using True by (metis div_mult_mod_eq)
    then show ?thesis using True ps assms(1) b by (auto simp: passed_def bit_or_iff)
  next
    case False
    then have "q \<noteq> i" by auto
    then show ?thesis using False ps by (simp add: passed_def)
  qed
qed

section \<open>Inserting\<close>

lemma ht_insert_ok:
  assumes c: "ht_core t" and v: "v \<noteq> 0" "v \<noteq> -1" and k: "ht_map t k = None"
    and j: "j < tab_size t" "i = kprobe t k j" "\<not> HTENT_VALID_INT4 (tab_base t ! i)"
    and path: "\<forall>j' < j. \<not> HTENT_EMPTY_INT4 (tab_base t ! kprobe t k j') \<and> passed t (kprobe t k j')"
  shows "\<exists>d. INSERT_HTENT t i k v = Some (t\<lparr>tab_base := (tab_base t)[i := \<lparr>ht_key = k, ht_value = v\<rparr>], tab_count := tab_count t + 1, del_count := d\<rparr>) \<and>
    ht_core (t\<lparr>tab_base := (tab_base t)[i := \<lparr>ht_key = k, ht_value = v\<rparr>], tab_count := tab_count t + 1, del_count := d\<rparr>) \<and>
    ht_map (t\<lparr>tab_base := (tab_base t)[i := \<lparr>ht_key = k, ht_value = v\<rparr>], tab_count := tab_count t + 1, del_count := d\<rparr>) = (ht_map t)(k \<mapsto> v)"
proof -
  let ?e = "\<lparr>ht_key = k, ht_value = v\<rparr>" and ?p = "tab_size t"
  define d where "d = (if HT_DELETED_ENTRY = ht_value (tab_base t ! i) then dec32 (del_count t) else del_count t)"
  define t' where "t' = t\<lparr>tab_base := (tab_base t)[i := ?e], tab_count := tab_count t + 1, del_count := d\<rparr>"
  have i: "i < ?p" "i < length (tab_base t)" using probe_less [OF ht_coreD(1) [OF c]] ht_coreD(3) [OF c] by (simp_all add: j(2))
  have ve: "HTENT_VALID_INT4 ?e" "\<not> HTENT_MARK_DELETED ?e" "\<not> HTENT_EMPTY_INT4 ?e" using v by (auto simp: ent_defs)
  have le: "tab_count t \<le> 2 ^ 31" "del_count t \<le> 2 ^ 31" using counters_fit [OF c] ht_coreD(2) [OF c] by linarith+
  have ins: "INSERT_HTENT t i k v = Some t'"
    using i(2) inc32_small [of "tab_count t"] le(1) by (simp add: INSERT_HTENT_def tab_ent_def t'_def d_def Let_def)
  have dl: "d = length (filter HTENT_MARK_DELETED ((tab_base t)[i := ?e]))"
  proof (cases "HTENT_MARK_DELETED (tab_base t ! i)")
    case True
    then have "0 < del_count t" using i(2) unfolding ht_coreD(6) [OF c] by (auto simp: filter_empty_conv)
    then show ?thesis using True filter_update [OF i(2), of HTENT_MARK_DELETED ?e] ve(2) dec32_small [OF _ le(2)] ht_coreD(6) [OF c]
      by (auto simp: d_def HTENT_MARK_DELETED_def)
  next
    case False
    then show ?thesis using filter_update [OF i(2), of HTENT_MARK_DELETED ?e] ve(2) ht_coreD(6) [OF c] by (auto simp: d_def HTENT_MARK_DELETED_def)
  qed
  have old: "reached t' q m" if "reached t q m" for q m
  proof -
    have "\<not> HTENT_EMPTY_INT4 (((tab_base t)[i := ?e]) ! n)" if "\<not> HTENT_EMPTY_INT4 (tab_base t ! n)" for n
      using that ve(3) i(2) by (cases "n = i") auto
    then show ?thesis using that unfolding reached_def by (auto simp: t'_def passed_def)
  qed
  have new: "reached t' k i"
    unfolding reached_def
  proof (intro exI [of _ j] conjI allI impI)
    fix j' assume j': "j' < j"
    then have "kprobe t k j' \<noteq> i" using probe_inj [OF ht_coreD(1) [OF c], of j' j] j(1,2) by fastforce
    then show "\<not> HTENT_EMPTY_INT4 (tab_base t' ! kprobe t' k j')" "passed t' (kprobe t' k j')"
      using path j' by (simp_all add: t'_def passed_def)
  qed (use j in \<open>simp_all add: t'_def\<close>)
  have kn: "\<And>m. m < ?p \<Longrightarrow> HTENT_VALID_INT4 (tab_base t ! m) \<Longrightarrow> ht_key (tab_base t ! m) \<noteq> k"
    using k ht_coreD(3) [OF c] by (auto simp: ht_map_None)
  have core: "ht_core t'"
  proof -
    have "\<forall>m < ?p. HTENT_VALID_INT4 (tab_base t' ! m) \<longrightarrow> reached t' (ht_key (tab_base t' ! m)) m"
      using new old ht_coreD(7) [OF c] i by (auto simp: t'_def nth_list_update)
    moreover have "\<forall>m < ?p. \<forall>n < ?p. HTENT_VALID_INT4 (tab_base t' ! m) \<longrightarrow> HTENT_VALID_INT4 (tab_base t' ! n) \<longrightarrow>
        ht_key (tab_base t' ! m) = ht_key (tab_base t' ! n) \<longrightarrow> m = n"
      using ht_coreD(8) [OF c] kn i by (auto simp: t'_def nth_list_update split: if_splits)
    moreover have "tab_count t' = length (filter HTENT_VALID_INT4 (tab_base t'))"
      using filter_update [OF i(2), of HTENT_VALID_INT4 ?e] ve(1) j(3) ht_coreD(5) [OF c] by (simp add: t'_def)
    ultimately show ?thesis using ht_coreD(1-4) [OF c] dl unfolding ht_core_def by (simp add: t'_def)
  qed
  have "ht_map t' q = ((ht_map t)(k \<mapsto> v)) q" for q
  proof (cases "q = k")
    case True
    then show ?thesis using ht_map_at [OF core, of i] i ve(1) by (simp add: t'_def)
  next
    case False
    then show ?thesis using map_write [OF c core _ i(1), of ?e k q] j(3) by (simp add: t'_def)
  qed
  then show ?thesis using ins core unfolding t'_def by (intro exI [of _ d]) auto
qed

text \<open>What an insertion leaves alone.\<close>

definition same_frame :: "hash_table_int4 \<Rightarrow> hash_table_int4 \<Rightarrow> bool" where
  "same_frame t t' \<longleftrightarrow> (\<exists>b ps c d. t' = t\<lparr>tab_base := b, entry_passed_thru := ps, tab_count := c, del_count := d\<rparr>)"

lemma same_frameD:
  assumes "same_frame t t'"
  shows "tab_size t' = tab_size t" "initial_size t' = initial_size t" "exp_trigger_size t' = exp_trigger_size t"
    "cmp_trigger_size t' = cmp_trigger_size t" "dont_compact t' = dont_compact t" "dont_keep_spare_table t' = dont_keep_spare_table t"
    "spare_base t' = spare_base t" "spare_base_size t' = spare_base_size t"
  using assms by (auto simp: same_frame_def)

lemma same_frame_trans: "same_frame t t' \<Longrightarrow> same_frame t' t'' \<Longrightarrow> same_frame t t''"
  unfolding same_frame_def by (elim exE) (simp, blast)

lemma more_passed_frame: "more_passed t t' \<Longrightarrow> same_frame t t'"
  unfolding more_passed_def same_frame_def
  by (elim exE conjE) (rule exI [of _ "tab_base t"], rule_tac x = ps in exI, rule exI [of _ "tab_count t"], rule exI [of _ "del_count t"], simp)

definition added :: "hash_table_int4 \<Rightarrow> uint4 \<Rightarrow> htval \<Rightarrow> bool \<times> nat \<times> hash_table_int4 \<Rightarrow> bool" where
  "added t k v r = (case r of (b, i, t') \<Rightarrow> ht_core t' \<and> same_frame t t' \<and> i < tab_size t \<and>
     (if ht_map t k = None
      then b \<and> ht_map t' = (ht_map t)(k \<mapsto> v) \<and> tab_count t' = tab_count t + 1 \<and> tab_base t' ! i = \<lparr>ht_key = k, ht_value = v\<rparr>
      else \<not> b \<and> ht_map t' = ht_map t \<and> tab_count t' = tab_count t \<and> tab_base t' = tab_base t \<and>
        HTENT_VALID_INT4 (tab_base t ! i) \<and> ht_key (tab_base t ! i) = k))"

definition add_inv :: "hash_table_int4 \<Rightarrow> uint4 \<Rightarrow> nat \<Rightarrow> hash_table_int4 \<times> nat option \<Rightarrow> bool" where
  "add_inv t k j = (\<lambda>(t', fd). more_passed t t' \<and> seen t k j \<and> (\<forall>j' < j. passed t' (kprobe t k j')) \<and>
     (case fd of None \<Rightarrow> \<forall>j' < j. \<not> HTENT_MARK_DELETED (tab_base t ! kprobe t k j')
      | Some d \<Rightarrow> \<exists>jd < j. d = kprobe t k jd \<and> HTENT_MARK_DELETED (tab_base t ! d)))"

lemma add_at:
  assumes c: "ht_core t" and v: "v \<noteq> 0" "v \<noteq> -1" and k: "ht_map t k = None" and a: "add_inv t k j (t', fd)" "j \<le> tab_size t"
    and i: "case fd of None \<Rightarrow> j < tab_size t \<and> i = kprobe t k j \<and> \<not> HTENT_VALID_INT4 (tab_base t ! i) | Some d \<Rightarrow> i = d"
  shows "\<exists>t''. INSERT_HTENT t' i k v = Some t'' \<and> added t k v (True, i, t'')"
proof -
  have m: "more_passed t t'" "seen t k j" "\<And>j'. j' < j \<Longrightarrow> passed t' (kprobe t k j')" using a by (auto simp: add_inv_def)
  note s = more_passed_same [OF m(1)]
  obtain j0 where j0: "j0 < tab_size t" "j0 \<le> j" "i = kprobe t k j0" "\<not> HTENT_VALID_INT4 (tab_base t ! i)"
  proof (cases fd)
    case None then show ?thesis using i that [of j] by auto
  next
    case (Some d)
    then obtain jd where "jd < j" "d = kprobe t k jd" "HTENT_MARK_DELETED (tab_base t ! d)" using a(1) by (auto simp: add_inv_def)
    then show ?thesis using i a(2) Some that [of jd] by (simp add: ent_defs)
  qed
  have path: "\<forall>j' < j0. \<not> HTENT_EMPTY_INT4 (tab_base t' ! kprobe t' k j') \<and> passed t' (kprobe t' k j')"
    using m(2,3) j0(2) unfolding s by (auto simp: seen_def)
  have ip: "i < tab_size t" using probe_less [OF ht_coreD(1) [OF c]] by (simp add: j0(3))
  define e where "e = \<lparr>ht_key = k, ht_value = v\<rparr>"
  obtain d where d: "INSERT_HTENT t' i k v = Some (t'\<lparr>tab_base := (tab_base t')[i := e], tab_count := tab_count t' + 1, del_count := d\<rparr>)"
    "ht_core (t'\<lparr>tab_base := (tab_base t')[i := e], tab_count := tab_count t' + 1, del_count := d\<rparr>)"
    "ht_map (t'\<lparr>tab_base := (tab_base t')[i := e], tab_count := tab_count t' + 1, del_count := d\<rparr>) = (ht_map t')(k \<mapsto> v)"
    using ht_insert_ok [OF more_passed_core [OF c m(1)] v, of k j0 i] j0 k path unfolding s e_def by blast
  have f: "same_frame t' (t'\<lparr>tab_base := (tab_base t')[i := e], tab_count := tab_count t' + 1, del_count := d\<rparr>)"
    unfolding same_frame_def
    by (intro exI [of _ "(tab_base t')[i := e]"] exI [of _ "entry_passed_thru t'"] exI [of _ "tab_count t' + 1"] exI [of _ d]) simp
  show ?thesis using d k ip same_frame_trans [OF more_passed_frame [OF m(1)] f] ht_coreD(3) [OF c] s
    by (auto simp: added_def e_def)
qed

lemma all_valid_full:
  assumes c: "ht_core t" and "\<And>i. i < tab_size t \<Longrightarrow> HTENT_VALID_INT4 (tab_base t ! i)"
  shows "tab_count t = tab_size t"
proof -
  have "filter HTENT_VALID_INT4 (tab_base t) = tab_base t" using assms(2) ht_coreD(3) [OF c] by (auto simp: filter_id_conv in_set_conv_nth)
  then show ?thesis using ht_coreD(3,5) [OF c] by simp
qed

text \<open>As long as an entry is not in use, adding returns: the failing \<open>assertpro\<close> is not reached.\<close>

lemma add_intl_ok:
  assumes c: "ht_core t" and v: "v \<noteq> 0" "v \<noteq> -1" and room: "tab_count t < tab_size t"
  shows "\<exists>r. add_hashtab_intl_int4 t k v = Some r \<and> added t k v r"
proof -
  let ?h = "COMPUTE_HASH_INT4 k" and ?p = "tab_size t"
  have step: "(\<exists>y. RETURN_IF_ADDED k v (probe ?h ?p j) s = Some (Inl y) \<and> added t k v y) \<or>
      (\<exists>s'. RETURN_IF_ADDED k v (probe ?h ?p j) s = Some (Inr s') \<and> add_inv t k (Suc j) s')" if j: "j < ?p" "add_inv t k j s" for j s
  proof -
    obtain t' fd where s: "s = (t', fd)" by (cases s)
    have m: "more_passed t t'" "seen t k j" "\<And>j'. j' < j \<Longrightarrow> passed t' (kprobe t k j')" using j(2) by (auto simp: s add_inv_def)
    note mp = more_passed_same [OF m(1)]
    define q where "q = kprobe t k j"
    have q: "q < ?p" "tab_ent t' q = Some (tab_base t ! q)"
      using probe_less [OF ht_coreD(1) [OF c]] ht_coreD(3) [OF c] by (simp_all add: tab_ent_def q_def mp)
    consider (empty) "HTENT_EMPTY_INT4 (tab_base t ! q)" | (found) "HTENT_VALID_INT4 (tab_base t ! q)" "ht_key (tab_base t ! q) = k"
      | (on) "\<not> HTENT_EMPTY_INT4 (tab_base t ! q)" "HTENT_MARK_DELETED (tab_base t ! q) \<or> ht_key (tab_base t ! q) \<noteq> k"
      by (auto simp: ent_defs)
    then show ?thesis
    proof cases
      case empty
      then have k: "ht_map t k = None" using seen_absent [OF c m(2)] by (simp add: q_def)
      define i where "i = (case fd of None \<Rightarrow> q | Some d \<Rightarrow> d)"
      have "case fd of None \<Rightarrow> j < ?p \<and> i = kprobe t k j \<and> \<not> HTENT_VALID_INT4 (tab_base t ! i) | Some d \<Rightarrow> i = d"
        using j(1) empty by (auto simp: i_def q_def ent_defs split: option.splits)
      then obtain t'' where "INSERT_HTENT t' i k v = Some t''" "added t k v (True, i, t'')"
        using add_at [OF c v k j(2) [unfolded s]] j(1) by auto
      then show ?thesis using empty q by (auto simp: s RETURN_IF_ADDED_def q_def [symmetric] i_def [symmetric] Let_def)
    next
      case found
      have "RETURN_IF_ADDED k v q s = Some (Inl (False, q, t'))" using found q by (simp add: s RETURN_IF_ADDED_def ent_defs)
      moreover have "ht_map t k \<noteq> None" using ht_map_at [OF c q(1) found(1)] found(2) by simp
      then have "added t k v (False, q, t')" using found q(1) mp more_passed_core [OF c m(1)] more_passed_frame [OF m(1)] by (simp add: added_def)
      ultimately show ?thesis by (auto simp: q_def)
    next
      case on
      have b: "q div 8 < length (entry_passed_thru t')" using q(1) ht_coreD(4) [OF c] unfolding mp by linarith
      obtain r ps where ps: "bit_set q (entry_passed_thru t') = Some (r, ps)" using bit_set_ok [OF b] by blast
      note P = passed_set [OF b ps]
      define fd' where "fd' = (if HTENT_MARK_DELETED (tab_base t ! q) \<and> fd = None then Some q else fd)"
      have "RETURN_IF_ADDED k v q s = Some (Inr (t'\<lparr>entry_passed_thru := ps\<rparr>, fd'))"
        using on q ps by (auto simp: s RETURN_IF_ADDED_def fd'_def)
      moreover have "more_passed t (t'\<lparr>entry_passed_thru := ps\<rparr>)"
        using m(1) P by (auto simp: more_passed_def)
      moreover have "seen t k (Suc j)" using seen_Suc [OF m(2)] on by (simp add: q_def)
      moreover have "\<forall>j' < Suc j. passed (t'\<lparr>entry_passed_thru := ps\<rparr>) (kprobe t k j')" using P m(3) by (auto simp: less_Suc_eq q_def)
      moreover have "case fd' of None \<Rightarrow> \<forall>j' < Suc j. \<not> HTENT_MARK_DELETED (tab_base t ! kprobe t k j')
          | Some d \<Rightarrow> \<exists>jd < Suc j. d = kprobe t k jd \<and> HTENT_MARK_DELETED (tab_base t ! d)"
        using j(2) by (auto simp: s add_inv_def fd'_def q_def less_Suc_eq split: option.splits if_splits)
      ultimately show ?thesis by (auto simp: add_inv_def q_def)
    qed
  qed
  have "(\<exists>y. double_hash (RETURN_IF_ADDED k v) ?h ?p (t, None) = Some (Inl y) \<and> added t k v y) \<or>
      (\<exists>s'. double_hash (RETURN_IF_ADDED k v) ?h ?p (t, None) = Some (Inr s') \<and> add_inv t k ?p s')"
    by (rule double_hash_run [where I = "add_inv t k", OF ht_coreD(1,2) [OF c] _ step]) (simp_all add: add_inv_def seen_def more_passed_refl)
  then show ?thesis
  proof (elim disjE exE conjE)
    fix s' assume s: "double_hash (RETURN_IF_ADDED k v) ?h ?p (t, None) = Some (Inr s')" "add_inv t k ?p s'"
    obtain t' fd where s': "s' = (t', fd)" by (cases s')
    have sn: "seen t k ?p" and k: "ht_map t k = None" using s(2) seen_absent [OF c, of k ?p] by (auto simp: s' add_inv_def)
    show ?thesis
    proof (cases fd)
      case None
      have "HTENT_VALID_INT4 (tab_base t ! i)" if "i < ?p" for i
        using probe_surj [OF ht_coreD(1) [OF c] that, of ?h] sn s(2) by (auto simp: s' None add_inv_def seen_def ent_defs)
      then show ?thesis using all_valid_full [OF c] room by simp
    next
      case (Some d)
      then show ?thesis using s add_at [OF c v k s(2) [unfolded s'], of d] by (auto simp: s' add_hashtab_intl_int4_def)
    qed
  qed (auto simp: add_hashtab_intl_int4_def)
qed

section \<open>Deleting\<close>

lemma ht_delete_ok:
  assumes c: "ht_core t" and i: "i < tab_size t" "HTENT_VALID_INT4 (tab_base t ! i)" "ht_key (tab_base t ! i) = k"
  shows "\<exists>t'. DELETE_HTENT t i = Some t' \<and> ht_core t' \<and> same_frame t t' \<and> tab_count t' + 1 = tab_count t \<and> ht_map t' = (ht_map t)(k := None)"
proof -
  let ?p = "tab_size t" and ?o = "tab_base t ! i"
  have il: "i < length (tab_base t)" "i div 8 < length (entry_passed_thru t)" using i(1) ht_coreD(3,4) [OF c] by auto
  define e where "e = ?o\<lparr>ht_value := if passed t i then HT_DELETED_ENTRY else 0\<rparr>"
  define d where "d = (if passed t i then inc32 (del_count t) else del_count t)"
  define t' where "t' = t\<lparr>tab_base := (tab_base t)[i := e], tab_count := dec32 (tab_count t), del_count := d\<rparr>"
  have bt: "push_bit (i mod 8) 1 AND entry_passed_thru t ! (i div 8) \<noteq> 0 \<longleftrightarrow> passed t i"
    using bit_set_ok [OF il(2)] il(2) by (simp add: bit_set_def rdb_def passed_def Let_def)
  have del: "DELETE_HTENT t i = Some t'"
    using il bt by (auto simp: DELETE_HTENT_def tab_ent_def rdb_def t'_def e_def d_def Let_def)
  have nv: "\<not> HTENT_VALID_INT4 e" "HTENT_EMPTY_INT4 e \<longleftrightarrow> \<not> passed t i" "HTENT_MARK_DELETED e \<longleftrightarrow> passed t i" by (auto simp: e_def ent_defs)
  have nd: "\<not> HTENT_MARK_DELETED ?o" using i(2) by (simp add: ent_defs)
  have le: "tab_count t \<le> 2 ^ 31" "del_count t \<le> 2 ^ 31" using counters_fit [OF c] ht_coreD(2) [OF c] by linarith+
  have c0: "length (filter HTENT_VALID_INT4 ((tab_base t)[i := e])) + 1 = tab_count t"
    using filter_update [OF il(1), of HTENT_VALID_INT4 e] i(2) nv(1) ht_coreD(5) [OF c] by simp
  then have ct: "tab_count t' = length (filter HTENT_VALID_INT4 (tab_base t'))" "tab_count t' + 1 = tab_count t"
    using dec32_small [OF _ le(1)] by (simp_all add: t'_def)
  have dt: "del_count t' = length (filter HTENT_MARK_DELETED (tab_base t'))"
    using filter_update [OF il(1), of HTENT_MARK_DELETED e] nv(3) nd ht_coreD(6) [OF c] inc32_small [of "del_count t"] le(2)
    by (auto simp: t'_def d_def)
  have r: "reached t' q m" if "reached t q m" for q m
  proof -
    have "\<not> HTENT_EMPTY_INT4 (((tab_base t)[i := e]) ! n)" if "\<not> HTENT_EMPTY_INT4 (tab_base t ! n)" "passed t n" for n
      using that nv(2) il(1) by (cases "n = i") auto
    then show ?thesis using that unfolding reached_def by (auto simp: t'_def passed_def)
  qed
  have at: "HTENT_VALID_INT4 (tab_base t ! m) \<and> tab_base t' ! m = tab_base t ! m" if "m < ?p" "HTENT_VALID_INT4 (tab_base t' ! m)" for m
    using that nv(1) il(1) by (cases "m = i") (auto simp: t'_def)
  have core: "ht_core t'"
  proof -
    have "\<forall>m < ?p. HTENT_VALID_INT4 (tab_base t' ! m) \<longrightarrow> reached t' (ht_key (tab_base t' ! m)) m"
      using at r ht_coreD(7) [OF c] by metis
    moreover have "\<forall>m < ?p. \<forall>n < ?p. HTENT_VALID_INT4 (tab_base t' ! m) \<longrightarrow> HTENT_VALID_INT4 (tab_base t' ! n) \<longrightarrow>
        ht_key (tab_base t' ! m) = ht_key (tab_base t' ! n) \<longrightarrow> m = n"
      using at ht_coreD(8) [OF c] by metis
    ultimately show ?thesis using ht_coreD(1-4) [OF c] ct(1) dt unfolding ht_core_def by (simp add: t'_def)
  qed
  have "ht_map t' q = ((ht_map t)(k := None)) q" for q
  proof (cases "q = k")
    case True
    have "ht_key (tab_base t' ! m) \<noteq> k" if "m < ?p" "HTENT_VALID_INT4 (tab_base t' ! m)" for m
    proof
      assume "ht_key (tab_base t' ! m) = k"
      then have "m = i" using at [OF that] that(1) i ht_coreD(8) [OF c, of m i] by simp
      then show False using that(2) nv(1) il(1) by (simp add: t'_def)
    qed
    then show ?thesis using True ht_coreD(3) [OF core] by (auto simp: ht_map_None t'_def)
  next
    case False
    then show ?thesis using map_write [OF c core _ i(1), of e k q] i(3) nv(1) by (simp add: t'_def)
  qed
  moreover have "same_frame t t'" unfolding same_frame_def t'_def
    by (intro exI [of _ "(tab_base t)[i := e]"] exI [of _ "entry_passed_thru t"] exI [of _ "dec32 (tab_count t)"] exI [of _ d]) simp
  ultimately show ?thesis using del core ct(2) by auto
qed

end
