(* ===== verification/HashtabOps.thy ===== *)
theory HashtabOps
  imports HashtabEnt
begin

text \<open>
  Initialization, expansion and compaction of hash tables, and the operations offered to the callers: they implement
  a finite map, whatever happens to the size of the table.
\<close>

section \<open>The sizes\<close>

text \<open>The list ends with 0; the sizes before are primes, each at least 2 above and less than 8 times the one before.\<close>

definition size_chain :: "nat list \<Rightarrow> bool" where
  "size_chain ns \<longleftrightarrow> (\<forall>i. Suc i < length ns \<longrightarrow> ns ! i + 2 \<le> ns ! Suc i \<and> ns ! Suc i < 8 * ns ! i)"

definition sizes_ok :: "nat list \<Rightarrow> bool" where
  "sizes_ok ht_sizes \<longleftrightarrow> ht_sizes \<noteq> [] \<and> last ht_sizes = 0 \<and> 2 \<le> length (butlast ht_sizes) \<and>
     (\<forall>n \<in> set (butlast ht_sizes). ht_prime n \<and> n \<le> 2 ^ 31) \<and> size_chain (butlast ht_sizes)"

lemma sizes_okE:
  assumes "sizes_ok ht_sizes"
  obtains ns where "ht_sizes = ns @ [0]" "2 \<le> length ns" "\<forall>n \<in> set ns. ht_prime n \<and> n \<le> 2 ^ 31" "size_chain ns" "set ns = set ht_sizes - {0}"
proof
  let ?ns = "butlast ht_sizes"
  have o: "ht_sizes \<noteq> []" "last ht_sizes = 0" "\<forall>n \<in> set ?ns. ht_prime n \<and> n \<le> 2 ^ 31" using assms by (simp_all add: sizes_ok_def)
  show e: "ht_sizes = ?ns @ [0]" using o(1,2) by (metis append_butlast_last_id)
  have "0 \<notin> set ?ns" using o(3) by (auto simp: ht_prime_def)
  moreover have "set ht_sizes = insert 0 (set ?ns)" using arg_cong [OF e, of set] by simp
  ultimately show "set ?ns = set ht_sizes - {0}" by simp
  show "2 \<le> length ?ns" "\<forall>n \<in> set ?ns. ht_prime n \<and> n \<le> 2 ^ 31" "size_chain ?ns" using assms by (simp_all add: sizes_ok_def)
qed

lemma sizes_prime:
  assumes "sizes_ok ht_sizes" "n \<in> set ht_sizes - {0}"
  shows "ht_prime n" "n \<le> 2 ^ 31"
proof -
  obtain ns where "\<forall>n \<in> set ns. ht_prime n \<and> n \<le> 2 ^ 31" "set ns = set ht_sizes - {0}" using sizes_okE [OF assms(1)] .
  then show "ht_prime n" "n \<le> 2 ^ 31" using assms(2) by simp_all
qed

lemma chain_step: "size_chain ns \<Longrightarrow> Suc i < length ns \<Longrightarrow> ns ! i + 2 \<le> ns ! Suc i \<and> ns ! Suc i < 8 * ns ! i"
  by (simp add: size_chain_def)

lemma size_loop_ok:
  assumes "0 \<notin> set ns"
  shows "(c \<noteq> 0 \<Longrightarrow> i \<le> length ns \<and> c \<in> set ns) \<Longrightarrow> \<exists>r. size_loop (ns @ [0]) m i c = Some r \<and> (r = 0 \<or> r \<in> set ns \<and> m \<le> r)"
proof (induction "Suc (length ns) - i" arbitrary: i c rule: less_induct)
  case less
  show ?case
  proof (cases "c \<noteq> 0 \<and> c < m")
    case True
    then have i: "i < length (ns @ [0])" using less.prems by simp
    have e: "size_loop (ns @ [0]) m i c = size_loop (ns @ [0]) m (i + 1) ((ns @ [0]) ! i)"
      using True i by (subst size_loop.simps) simp
    have "\<exists>r. size_loop (ns @ [0]) m (i + 1) ((ns @ [0]) ! i) = Some r \<and> (r = 0 \<or> r \<in> set ns \<and> m \<le> r)"
      by (rule less.hyps) (use i in \<open>auto simp: nth_append split: if_splits\<close>)
    then show ?thesis unfolding e .
  next
    case False
    then have "size_loop (ns @ [0]) m i c = Some c" by (subst size_loop.simps) auto
    then show ?thesis using False less.prems by auto
  qed
qed

lemma ascending_le:
  assumes "size_chain ns" "i \<le> j" "j < length ns"
  shows "ns ! i \<le> (ns :: nat list) ! j"
  using assms(2,3)
proof (induction j rule: dec_induct)
  case (step n) then show ?case using chain_step [OF assms(1), of n] by simp
qed simp

lemma ascending_gap:
  assumes a: "size_chain ns" and "x \<in> set ns" "y \<in> set ns" "x < y"
  shows "x + 2 \<le> (y :: nat)"
proof -
  obtain i j where ij: "i < length ns" "j < length ns" "x = ns ! i" "y = ns ! j" using assms(2,3) by (auto simp: in_set_conv_nth)
  have "\<not> j \<le> i" using ascending_le [OF a, of j i] ij assms(4) by auto
  then have "Suc i \<le> j" by simp
  then have "ns ! Suc i \<le> ns ! j" using ascending_le [OF a] ij by blast
  then show ?thesis using chain_step [OF a, of i] ij \<open>Suc i \<le> j\<close> by simp
qed

lemma shrink_loop_ok:
  assumes a: "size_chain ns" and z: "0 \<notin> set ns" and s: "s \<in> set ns"
  shows "Suc m \<le> length ns \<Longrightarrow> i = Suc m \<or> i = Suc (Suc m) \<Longrightarrow>
    \<exists>r. shrink_loop (ns @ [0]) s i ((ns @ [0]) ! Suc m) ((ns @ [0]) ! m) = Some r \<and> r \<in> set ns \<and> s < 8 * r"
proof (induction "2 * length ns + 2 - (m + i)" arbitrary: m i rule: less_induct)
  case less
  let ?c = "(ns @ [0]) ! Suc m" and ?p = "(ns @ [0]) ! m"
  have m: "m < length ns" "?p = ns ! m" "ns ! m \<in> set ns" using less.prems(1) by (simp_all add: nth_append)
  have pos: "0 < ns ! m" using z m(3) by (metis gr0I)
  show ?case
  proof (cases "?c \<noteq> 0 \<and> ?c < s")
    case True
    then have sm: "Suc m < length ns" using less.prems(1) by (auto simp: nth_append split: if_splits)
    then have i: "i < length (ns @ [0])" using less.prems(2) by auto
    have e: "shrink_loop (ns @ [0]) s i ?c ?p = shrink_loop (ns @ [0]) s (i + 1) ((ns @ [0]) ! i) ((ns @ [0]) ! (i - 1))"
      using True i by (subst shrink_loop.simps) simp
    obtain m' where m': "i = Suc m'" using less.prems(2) by auto
    have "\<exists>r. shrink_loop (ns @ [0]) s (i + 1) ((ns @ [0]) ! Suc m') ((ns @ [0]) ! m') = Some r \<and> r \<in> set ns \<and> s < 8 * r"
      by (rule less.hyps) (use i m' sm less.prems in auto)
    then show ?thesis unfolding e by (simp add: m')
  next
    case False
    then have "shrink_loop (ns @ [0]) s i ?c ?p = Some (ns ! m)" using m(2) by (subst shrink_loop.simps) auto
    moreover have "s < 8 * ns ! m"
    proof (cases "Suc m < length ns")
      case True
      then have "?c = ns ! Suc m" "ns ! Suc m \<in> set ns" by (simp_all add: nth_append)
      then have "s \<le> ns ! Suc m" using False z by auto
      then show ?thesis using chain_step [OF a True] by simp
    next
      case False
      obtain j where "j < length ns" "s = ns ! j" using s by (auto simp: in_set_conv_nth)
      then have "s \<le> ns ! m" using ascending_le [OF a, of j m] False m(1) by simp
      then show ?thesis using pos by simp
    qed
    ultimately show ?thesis using m(3) by auto
  qed
qed

section \<open>The invariant between operations\<close>

definition ht_inv :: "nat list \<Rightarrow> hash_table_int4 \<Rightarrow> bool" where
  "ht_inv ht_sizes t \<longleftrightarrow> ht_core t \<and> tab_size t \<in> set ht_sizes - {0} \<and> initial_size t \<in> set ht_sizes - {0} \<and>
     exp_trigger_size t \<le> tab_size t \<and> (tab_count t = tab_size t \<longrightarrow> exp_trigger_size t = tab_size t)"

text \<open>The sizes chosen when a table changes: large enough, or no size at all.\<close>

lemma new_size_grow:
  assumes "sizes_ok ht_sizes" "case old of None \<Rightarrow> True | Some t \<Rightarrow> minsize > tab_size t div 2"
  shows "\<exists>c. new_size ht_sizes minsize old = Some c \<and> (c = 0 \<or> c \<in> set ht_sizes - {0} \<and> minsize \<le> c)"
proof -
  obtain ns where ns: "ht_sizes = ns @ [0]" "2 \<le> length ns" "set ns = set ht_sizes - {0}" using sizes_okE [OF assms(1)] by blast
  have z: "0 \<notin> set ns" using ns(3) by simp
  have "ht_sizes ! 0 \<in> set ns" using ns(1,2) by (cases ns) auto
  then have "\<exists>r. size_loop (ns @ [0]) minsize 0 (ht_sizes ! 0) = Some r \<and> (r = 0 \<or> r \<in> set ns \<and> minsize \<le> r)"
    by (intro size_loop_ok [OF z]) auto
  then have "\<exists>r. size_loop ht_sizes minsize 0 (ht_sizes ! 0) = Some r \<and> (r = 0 \<or> r \<in> set ht_sizes - {0} \<and> minsize \<le> r)"
    unfolding ns(1) [symmetric] ns(3) .
  then show ?thesis using assms(2) by (cases old) (auto simp: new_size_def)
qed

lemma new_size_shrink:
  assumes "sizes_ok ht_sizes" "ht_inv ht_sizes t" "minsize \<le> tab_size t div 2"
  shows "\<exists>c. new_size ht_sizes minsize (Some t) = Some c \<and> c \<in> set ht_sizes - {0} \<and> tab_size t < 8 * c"
proof -
  obtain ns where ns: "ht_sizes = ns @ [0]" "2 \<le> length ns" "set ns = set ht_sizes - {0}"
    "size_chain ns" using sizes_okE [OF assms(1)] by blast
  have i: "tab_size t \<in> set ns" "initial_size t \<in> set ns" using assms(2) ns(3) by (auto simp: ht_inv_def)
  have z: "0 \<notin> set ns" using ns(3) by simp
  have "Suc 0 \<le> length ns" using ns(2) by simp
  then have "\<exists>r. shrink_loop ht_sizes (tab_size t) 1 (ht_sizes ! 1) (ht_sizes ! 0) = Some r \<and> r \<in> set ns \<and> tab_size t < 8 * r"
    using shrink_loop_ok [OF ns(4) z i(1), of 0 1] unfolding ns(1) [symmetric] by simp
  then obtain r where r: "shrink_loop ht_sizes (tab_size t) 1 (ht_sizes ! 1) (ht_sizes ! 0) = Some r" "r \<in> set ns" "tab_size t < 8 * r"
    by blast
  show ?thesis using r i(2) assms(3) ns(3) by (auto simp: new_size_def)
qed

section \<open>Fresh tables\<close>

definition fresh_table :: "nat \<Rightarrow> hash_table_int4 \<Rightarrow> bool" where
  "fresh_table c n \<longleftrightarrow> ht_core n \<and> ht_map n = Map.empty \<and> tab_size n = c \<and> tab_count n = 0 \<and> exp_trigger_size n = c div 2"

lemma fresh_ok:
  assumes "ht_prime c" "c \<le> 2 ^ 31" "tab_base n = replicate c \<lparr>ht_key = 0, ht_value = 0\<rparr>" "c \<le> 8 * length (entry_passed_thru n)" "tab_size n = c"
  shows "fresh_table c (HT_FIELDS_COMMON_INIT n)"
proof -
  let ?n = "HT_FIELDS_COMMON_INIT n"
  have b: "tab_base ?n = replicate c \<lparr>ht_key = 0, ht_value = 0\<rparr>" "entry_passed_thru ?n = entry_passed_thru n" "tab_size ?n = c"
    "tab_count ?n = 0" "del_count ?n = 0" "exp_trigger_size ?n = c div 2"
    using assms(3,5) by (simp_all add: HT_FIELDS_COMMON_INIT_def HT_LOAD_FACTOR_def)
  have e: "\<not> HTENT_VALID_INT4 \<lparr>ht_key = 0, ht_value = 0\<rparr>" "\<not> HTENT_MARK_DELETED \<lparr>ht_key = 0, ht_value = 0\<rparr>" by (simp_all add: ent_defs)
  have "ht_core ?n" using assms(1,2,4) b e unfolding ht_core_def by (simp add: filter_replicate)
  moreover have "ht_map ?n = Map.empty"
    using ht_map_None [of ?n] b(1) e(1) by (intro ext) (simp add: HT_FIELDS_COMMON_INIT_def)
  ultimately show ?thesis using b by (simp add: fresh_table_def)
qed

lemma fresh_inv:
  assumes "fresh_table c n" "initial_size n \<in> set ht_sizes - {0}" "c \<in> set ht_sizes - {0}"
  shows "ht_inv ht_sizes n"
  using assms by (auto simp: fresh_table_def ht_inv_def)

lemma round_up8_le: "c \<le> 8 * ROUND_UP8 c"
  unfolding ROUND_UP8_def using div_mult_mod_eq [of "c + 7" 8] mod_less_divisor [of 8 "c + 7"] by linarith

lemma init_new:
  assumes "sizes_ok ht_sizes" "new_size ht_sizes minsize (Some t) = Some c" "c \<in> set ht_sizes - {0}"
  shows "\<exists>r b s. init_hashtab_intl_int4 ht_sizes mem n minsize (Some t) = Some (r, Some (t\<lparr>spare_base := b, spare_base_size := s\<rparr>)) \<and>
    (case r of Inl e \<Rightarrow> True
     | Inr n' \<Rightarrow> fresh_table c n' \<and> initial_size n' = initial_size t \<and> dont_keep_spare_table n' = dont_keep_spare_table t)"
proof -
  have p: "ht_prime c" "c \<le> 2 ^ 31" "c \<noteq> 0" using sizes_prime [OF assms(1,3)] assms(3) by simp_all
  note r = round_up8_le [of c]
  define n' where "n' = (HT_FIELDS_COMMON_INIT (n\<lparr>spare_base := False, spare_base_size := 0, tab_base := replicate c \<lparr>ht_key = 0, ht_value = 0\<rparr>,
    entry_passed_thru := replicate (ROUND_UP8 c) 0, tab_size := c, initial_size := initial_size t, dont_compact := dont_compact t,
    dont_keep_spare_table := dont_keep_spare_table t, defer_base_release := defer_base_release t\<rparr>))"
  have f: "fresh_table c n'" unfolding n'_def by (rule fresh_ok) (use p r in simp_all)
  have i: "initial_size n' = initial_size t" "dont_keep_spare_table n' = dont_keep_spare_table t"
    by (simp_all add: n'_def HT_FIELDS_COMMON_INIT_def)
  define b where "b = (dont_keep_spare_table t \<and> spare_base t)"
  define z where "z = (if \<not> dont_keep_spare_table t \<and> (spare_base_size t = c \<or> spare_base t) then 0 else spare_base_size t)"
  have "\<exists>r. init_hashtab_intl_int4 ht_sizes mem n minsize (Some t) = Some (r, Some (t\<lparr>spare_base := b, spare_base_size := z\<rparr>)) \<and>
      (r = Inl MEMORY \<or> r = Inr n')"
    using p(3) assms(2) by (auto simp: init_hashtab_intl_int4_def n'_def b_def z_def Let_def)
  then obtain r where r: "init_hashtab_intl_int4 ht_sizes mem n minsize (Some t) = Some (r, Some (t\<lparr>spare_base := b, spare_base_size := z\<rparr>))"
      "r = Inl MEMORY \<or> r = Inr n'" by blast
  show ?thesis by (rule exI [of _ r], rule exI [of _ b], rule exI [of _ z]) (use r f i in auto)
qed

section \<open>Moving the entries\<close>

lemma distinct_valid_keys:
  "(\<And>i i'. i < length xs \<Longrightarrow> i' < length xs \<Longrightarrow> P (xs ! i) \<Longrightarrow> P (xs ! i') \<Longrightarrow> f (xs ! i) = f (xs ! i') \<Longrightarrow> i = i') \<Longrightarrow>
    distinct (map f (filter P xs))"
proof (induction xs)
  case (Cons x xs)
  have "distinct (map f (filter P xs))" using Cons.IH Cons.prems [of "Suc _" "Suc _"] by simp
  moreover have "f x \<notin> f ` (set xs \<inter> Collect P)" if "P x"
  proof
    assume "f x \<in> f ` (set xs \<inter> Collect P)"
    then obtain i where "i < length xs" "P (xs ! i)" "f x = f (xs ! i)" by (auto simp: in_set_conv_nth)
    then show False using Cons.prems [of 0 "Suc i"] that by simp
  qed
  ultimately show ?case by (auto simp: Int_def)
qed simp

lemma move_ok:
  "ht_core n \<Longrightarrow> distinct (map ht_key (filter HTENT_VALID_INT4 es)) \<Longrightarrow>
    (\<And>e. e \<in> set es \<Longrightarrow> HTENT_VALID_INT4 e \<Longrightarrow> ht_map n (ht_key e) = None) \<Longrightarrow>
    tab_count n + length (filter HTENT_VALID_INT4 es) \<le> tab_size n \<Longrightarrow>
    \<exists>n'. move_entries es n = Some n' \<and> ht_core n' \<and> same_frame n n' \<and> tab_count n' = tab_count n + length (filter HTENT_VALID_INT4 es) \<and>
      (\<forall>q. ht_map n' q = (case List.find (\<lambda>e. HTENT_VALID_INT4 e \<and> ht_key e = q) es of None \<Rightarrow> ht_map n q | Some e \<Rightarrow> Some (ht_value e)))"
proof (induction es arbitrary: n)
  case Nil
  have "same_frame n n" by (rule more_passed_frame [OF more_passed_refl])
  then show ?case using Nil by simp
next
  case (Cons e es)
  show ?case
  proof (cases "HTENT_VALID_INT4 e")
    case False
    then show ?thesis using Cons.IH [OF Cons.prems(1)] Cons.prems by simp
  next
    case True
    have v: "ht_value e \<noteq> 0" "ht_value e \<noteq> -1" using True by (auto simp: ent_defs)
    have room: "tab_count n < tab_size n" using Cons.prems(4) True by simp
    have k: "ht_map n (ht_key e) = None" using Cons.prems(3) True by simp
    obtain b i n1 where a: "add_hashtab_intl_int4 n (ht_key e) (ht_value e) = Some (b, i, n1)" "ht_core n1" "same_frame n n1"
      "ht_map n1 = (ht_map n)(ht_key e \<mapsto> ht_value e)" "tab_count n1 = tab_count n + 1"
      using add_intl_ok [OF Cons.prems(1) v room, of "ht_key e"] k by (auto simp: added_def)
    have "ht_map n1 (ht_key x) = None" if "x \<in> set es" "HTENT_VALID_INT4 x" for x
    proof -
      have "ht_key x \<in> ht_key ` {y \<in> set es. HTENT_VALID_INT4 y}" using that by blast
      moreover have "ht_key e \<notin> ht_key ` {y \<in> set es. HTENT_VALID_INT4 y}" using Cons.prems(2) True by simp
      ultimately have "ht_key x \<noteq> ht_key e" by metis
      then show ?thesis using that Cons.prems(3) a(4) by simp
    qed
    moreover have "tab_count n1 + length (filter HTENT_VALID_INT4 es) \<le> tab_size n1"
      using Cons.prems(4) True a(5) same_frameD(1) [OF a(3)] by simp
    moreover have "distinct (map ht_key (filter HTENT_VALID_INT4 es))" using Cons.prems(2) True by simp
    ultimately obtain n' where n': "move_entries es n1 = Some n'" "ht_core n'" "same_frame n1 n'"
      "tab_count n' = tab_count n1 + length (filter HTENT_VALID_INT4 es)"
      "\<forall>q. ht_map n' q = (case List.find (\<lambda>e. HTENT_VALID_INT4 e \<and> ht_key e = q) es of None \<Rightarrow> ht_map n1 q | Some e \<Rightarrow> Some (ht_value e))"
      using Cons.IH [OF a(2)] by blast
    have "ht_key e \<notin> ht_key ` {y \<in> set es. HTENT_VALID_INT4 y}" using Cons.prems(2) True by simp
    then have none: "List.find (\<lambda>x. HTENT_VALID_INT4 x \<and> ht_key x = ht_key e) es = None"
      unfolding find_None_iff by (metis (mono_tags, lifting) image_eqI mem_Collect_eq)
    have "ht_map n' q = (case List.find (\<lambda>e. HTENT_VALID_INT4 e \<and> ht_key e = q) (e # es) of None \<Rightarrow> ht_map n q | Some e \<Rightarrow> Some (ht_value e))" for q
      using n'(5) none True a(4) by (cases "ht_key e = q") (auto split: option.splits)
    then show ?thesis using True a n' same_frame_trans [OF a(3) n'(3)] by (intro exI [of _ n']) simp
  qed
qed

section \<open>Expansion and compaction\<close>

lemma inv_congs:
  assumes "tab_base t' = tab_base t" "entry_passed_thru t' = entry_passed_thru t" "tab_size t' = tab_size t" "tab_count t' = tab_count t" "del_count t' = del_count t"
  shows "ht_core t' = ht_core t" "ht_map t' = ht_map t"
  using assms by (auto simp: ht_core_def reached_def passed_def ht_map_def)

lemma expand_ok:
  assumes s: "sizes_ok ht_sizes" and i: "ht_inv ht_sizes t" and c: "new_size ht_sizes minsize (Some t) = Some c"
    "c = 0 \<or> c \<in> set ht_sizes - {0} \<and> tab_count t < c"
  shows "\<exists>err t'. expand_hashtab_int4 ht_sizes mem t minsize = Some (err, t') \<and> ht_inv ht_sizes t' \<and> ht_map t' = ht_map t \<and>
    tab_count t' = tab_count t \<and> (if err = None then tab_size t' = c \<and> c \<noteq> 0 else tab_size t' = tab_size t \<and> exp_trigger_size t' = exp_trigger_size t)"
proof (cases "c = 0")
  case True
  then show ?thesis using c(1) i by (simp add: expand_hashtab_int4_def init_hashtab_intl_int4_def)
next
  case False
  then have cc: "c \<in> set ht_sizes - {0}" "tab_count t < c" using c(2) by auto
  let ?b = "blank_table\<lparr>dont_keep_spare_table := dont_keep_spare_table t\<rparr>"
  have core: "ht_core t" and ini: "initial_size t \<in> set ht_sizes - {0}" using i by (auto simp: ht_inv_def)
  obtain r b z where r: "init_hashtab_intl_int4 ht_sizes mem ?b minsize (Some t) = Some (r, Some (t\<lparr>spare_base := b, spare_base_size := z\<rparr>))"
    "case r of Inl e \<Rightarrow> True | Inr n \<Rightarrow> fresh_table c n \<and> initial_size n = initial_size t \<and> dont_keep_spare_table n = dont_keep_spare_table t"
    using init_new [OF s c(1) cc(1), of mem ?b] by blast
  define o' where "o' = t\<lparr>spare_base := b, spare_base_size := z\<rparr>"
  have o': "ht_core o'" "ht_map o' = ht_map t" "tab_base o' = tab_base t" "tab_count o' = tab_count t" "tab_size o' = tab_size t"
    "exp_trigger_size o' = exp_trigger_size t" "initial_size o' = initial_size t"
    using inv_congs [of o' t] core by (simp_all add: o'_def)
  show ?thesis
  proof (cases r)
    case (Inl e)
    have "ht_inv ht_sizes o'" using i o' by (simp add: ht_inv_def)
    then show ?thesis using r(1) o' unfolding Inl by (simp add: expand_hashtab_int4_def o'_def [symmetric])
  next
    case (Inr n)
    have n: "ht_core n" "ht_map n = Map.empty" "tab_size n = c" "tab_count n = 0" "exp_trigger_size n = c div 2" "initial_size n = initial_size t"
      using r(2) by (simp_all add: Inr fresh_table_def)
    have "distinct (map ht_key (filter HTENT_VALID_INT4 (tab_base t)))"
      by (rule distinct_valid_keys) (use ht_coreD(3,8) [OF core] in auto)
    then obtain n1 where n1: "move_entries (tab_base t) n = Some n1" "ht_core n1" "same_frame n n1" "tab_count n1 = tab_count t"
      "\<forall>q. ht_map n1 q = (case List.find (\<lambda>e. HTENT_VALID_INT4 e \<and> ht_key e = q) (tab_base t) of None \<Rightarrow> ht_map n q | Some e \<Rightarrow> Some (ht_value e))"
      using move_ok [OF n(1), of "tab_base t"] n(2-4) cc(2) ht_coreD(5) [OF core] by auto
    have m1: "ht_map n1 = ht_map t" using n1(5) n(2) by (intro ext) (simp add: ht_map_def split: option.splits)
    define n2 where "n2 = (if 0 < tab_count t then n1 else n)"
    have m2: "ht_core n2" "ht_map n2 = ht_map t" "tab_count n2 = tab_count t" "tab_size n2 = c" "exp_trigger_size n2 = c div 2" "initial_size n2 = initial_size t"
    proof -
      have "ht_map t = Map.empty" if "tab_count t = 0"
        using that ht_coreD(5) [OF core] by (intro ext) (auto simp: ht_map_None filter_empty_conv)
      then show "ht_core n2" "ht_map n2 = ht_map t" "tab_count n2 = tab_count t" "tab_size n2 = c" "exp_trigger_size n2 = c div 2" "initial_size n2 = initial_size t"
        using n1 m1 n same_frameD(1-3) [OF n1(3)] by (auto simp: n2_def)
    qed
    have e: "expand_hashtab_int4 ht_sizes mem t minsize = Some (None,
        if dont_keep_spare_table n2 then n2\<lparr>spare_base := False, spare_base_size := 0\<rparr> else n2\<lparr>spare_base := True, spare_base_size := tab_size t\<rparr>)"
      using r(1) n1(1) o' unfolding Inr expand_hashtab_int4_def o'_def [symmetric] by (simp add: n2_def)
    have inv: "ht_inv ht_sizes (n2\<lparr>spare_base := x, spare_base_size := y\<rparr>)" "ht_map (n2\<lparr>spare_base := x, spare_base_size := y\<rparr>) = ht_map t" for x y
      using inv_congs [of "n2\<lparr>spare_base := x, spare_base_size := y\<rparr>" n2] m2 cc ini by (auto simp: ht_inv_def)
    show ?thesis unfolding e using inv m2 False by simp
  qed
qed

lemma compact_ok:
  assumes s: "sizes_ok ht_sizes" and i: "ht_inv ht_sizes t" and room: "tab_count t < tab_size t" "tab_count t < 2 ^ 30"
  shows "\<exists>t'. compact_hashtab_int4 ht_sizes mem t = Some t' \<and> ht_inv ht_sizes t' \<and> ht_map t' = ht_map t \<and> tab_count t' = tab_count t"
proof (cases "dont_compact t")
  case True then show ?thesis using i by (simp add: compact_hashtab_int4_def)
next
  case False
  let ?m = "HT_REHASH_TABLE_SIZE t"
  have m: "?m = min (tab_size t) (tab_count t * 4)" using room(2) by (simp add: HT_REHASH_TABLE_SIZE_def)
  have "\<exists>c. new_size ht_sizes ?m (Some t) = Some c \<and> (c = 0 \<or> c \<in> set ht_sizes - {0} \<and> tab_count t < c)"
  proof (cases "?m > tab_size t div 2")
    case True
    then obtain c where c: "new_size ht_sizes ?m (Some t) = Some c" "c = 0 \<or> c \<in> set ht_sizes - {0} \<and> ?m \<le> c"
      using new_size_grow [OF s, where old = "Some t" and minsize = ?m] by auto
    moreover have "c = 0 \<or> tab_count t < c" using c(2) m room(1) by (cases "tab_count t = 0") auto
    ultimately show ?thesis by blast
  next
    case False
    then obtain c where c: "new_size ht_sizes ?m (Some t) = Some c" "c \<in> set ht_sizes - {0}" "tab_size t < 8 * c"
      using new_size_shrink [OF s i, of ?m] by auto
    have "tab_count t * 4 \<le> tab_size t div 2" using False m room(1) by (auto simp: min_def split: if_splits)
    then have "tab_count t < c" using c(3) by linarith
    then show ?thesis using c by blast
  qed
  then obtain c where c: "new_size ht_sizes ?m (Some t) = Some c" "c = 0 \<or> c \<in> set ht_sizes - {0} \<and> tab_count t < c" by blast
  obtain err t' where e: "expand_hashtab_int4 ht_sizes mem t ?m = Some (err, t')" "ht_inv ht_sizes t'" "ht_map t' = ht_map t" "tab_count t' = tab_count t"
    using expand_ok [OF s i c, of mem] by blast
  have "ht_inv ht_sizes (t'\<lparr>cmp_trigger_size := x\<rparr>)" "ht_map (t'\<lparr>cmp_trigger_size := x\<rparr>) = ht_map t" for x
    using e(2,3) inv_congs [of "t'\<lparr>cmp_trigger_size := x\<rparr>" t'] by (auto simp: ht_inv_def)
  then show ?thesis using False e by (simp add: compact_hashtab_int4_def)
qed

section \<open>The operations of the callers\<close>

text \<open>A value a caller may store: not one of the two that mark empty and deleted entries.\<close>

definition ok_value :: "htval \<Rightarrow> bool" where
  "ok_value v \<longleftrightarrow> v \<noteq> 0 \<and> v \<noteq> -1"

definition ht_good :: "nat list \<Rightarrow> hash_table_int4 \<Rightarrow> bool" where
  "ht_good ht_sizes t \<longleftrightarrow> sizes_ok ht_sizes \<and> (\<forall>n \<in> set ht_sizes. n \<le> 2 ^ 30) \<and> ht_inv ht_sizes t"

lemma added_inv:
  assumes "ht_inv ht_sizes t" "added t k v (b, i, t')" "tab_count t < tab_size t" "tab_count t + 1 = tab_size t \<Longrightarrow> exp_trigger_size t = tab_size t"
  shows "ht_inv ht_sizes t'" "b \<longleftrightarrow> ht_map t k = None" "ht_map t' = (if b then (ht_map t)(k \<mapsto> v) else ht_map t)"
    "i < tab_size t'" "\<exists>u. tab_base t' ! i = \<lparr>ht_key = k, ht_value = u\<rparr> \<and> ht_map t' k = Some u"
proof -
  have a: "ht_core t'" "same_frame t t'" "i < tab_size t" using assms(2) by (simp_all add: added_def)
  note f = same_frameD [OF a(2)]
  show b: "b \<longleftrightarrow> ht_map t k = None" "ht_map t' = (if b then (ht_map t)(k \<mapsto> v) else ht_map t)"
    using assms(2) by (auto simp: added_def split: if_splits)
  have c: "tab_count t' = (if b then tab_count t + 1 else tab_count t)" using assms(2) b(1) by (simp add: added_def split: if_splits)
  show "ht_inv ht_sizes t'" using assms(1,3,4) a(1) c f by (auto simp: ht_inv_def)
  show "i < tab_size t'" using a(3) f by simp
  show "\<exists>u. tab_base t' ! i = \<lparr>ht_key = k, ht_value = u\<rparr> \<and> ht_map t' k = Some u"
  proof (cases b)
    case True
    then show ?thesis using assms(2) b by (simp add: added_def)
  next
    case False
    then have v: "tab_base t' = tab_base t" "HTENT_VALID_INT4 (tab_base t ! i)" "ht_key (tab_base t ! i) = k" "ht_core t"
      using assms(1,2) b by (auto simp: added_def ht_inv_def split: if_splits)
    then have "tab_base t ! i = \<lparr>ht_key = k, ht_value = ht_value (tab_base t ! i)\<rparr>" by simp
    then show ?thesis using False b(2) v ht_map_at [OF v(4) a(3) v(2)] by auto
  qed
qed

definition add_done :: "nat list \<Rightarrow> hash_table_int4 \<Rightarrow> uint4 \<Rightarrow> htval \<Rightarrow> bool \<times> nat \<times> hash_table_int4 \<Rightarrow> bool" where
  "add_done ht_sizes t k v = (\<lambda>(b, i, t'). ht_inv ht_sizes t' \<and> (b \<longleftrightarrow> ht_map t k = None) \<and>
     ht_map t' = (if b then (ht_map t)(k \<mapsto> v) else ht_map t) \<and> i < tab_size t' \<and>
     (\<exists>u. tab_base t' ! i = \<lparr>ht_key = k, ht_value = u\<rparr> \<and> ht_map t' k = Some u))"

lemma add_room:
  assumes "ht_inv ht_sizes t" "ok_value v" "tab_count t < tab_size t" "tab_count t + 1 = tab_size t \<Longrightarrow> exp_trigger_size t = tab_size t"
  shows "\<exists>r. add_hashtab_intl_int4 t k v = Some r \<and> add_done ht_sizes t k v r"
proof -
  have "ht_core t" using assms(1) by (simp add: ht_inv_def)
  then obtain b i t' where r: "add_hashtab_intl_int4 t k v = Some (b, i, t')" "added t k v (b, i, t')"
    using add_intl_ok [of t v k] assms(2,3) by (auto simp: ok_value_def)
  show ?thesis using r(1) added_inv [OF assms(1) r(2) assms(3,4)] by (auto simp: add_done_def)
qed

lemma add_ok:
  assumes s: "sizes_ok ht_sizes" and i: "ht_inv ht_sizes t" and v: "ok_value v"
  shows "(\<exists>e t'. add_hashtab_int4 ht_sizes mem t k v = Some (Inl (e, t')) \<and> tab_count t' = tab_size t' \<and> ht_inv ht_sizes t' \<and> ht_map t' = ht_map t) \<or>
    (\<exists>r. add_hashtab_int4 ht_sizes mem t k v = Some (Inr r) \<and> add_done ht_sizes t k v r)"
proof (cases "tab_count t \<ge> exp_trigger_size t")
  case False
  moreover have "exp_trigger_size t \<le> tab_size t" using i by (simp add: ht_inv_def)
  ultimately have "\<exists>r. add_hashtab_intl_int4 t k v = Some r \<and> add_done ht_sizes t k v r" by (intro add_room [OF i v]) auto
  then show ?thesis using False by (auto simp: add_hashtab_int4_def)
next
  case True
  obtain ns where ns: "size_chain ns" "set ns = set ht_sizes - {0}" using sizes_okE [OF s] .
  have core: "ht_core t" "tab_size t \<in> set ht_sizes - {0}" using i by (auto simp: ht_inv_def)
  have "tab_size t div 2 < tab_size t + 1" by simp
  then obtain c where c: "new_size ht_sizes (tab_size t + 1) (Some t) = Some c" "c = 0 \<or> c \<in> set ht_sizes - {0} \<and> tab_size t + 1 \<le> c"
    using new_size_grow [OF s, where old = "Some t" and minsize = "tab_size t + 1"] by auto
  have gap: "tab_size t + 2 \<le> c" if "c \<noteq> 0" using ascending_gap [OF ns(1), of "tab_size t" c] that c(2) core(2) ns(2) by simp
  have lt: "c = 0 \<or> c \<in> set ht_sizes - {0} \<and> tab_count t < c" using c(2) counters_fit(1) [OF core(1)] by auto
  obtain err t' where e: "expand_hashtab_int4 ht_sizes mem t (tab_size t + 1) = Some (err, t')" "ht_inv ht_sizes t'" "ht_map t' = ht_map t"
    "tab_count t' = tab_count t" "if err = None then tab_size t' = c \<and> c \<noteq> 0 else tab_size t' = tab_size t \<and> exp_trigger_size t' = exp_trigger_size t"
    using expand_ok [OF s i c(1) lt, of mem] by blast
  have d: "add_done ht_sizes t k v r = add_done ht_sizes t' k v r" for r using e(3) by (cases r) (simp add: add_done_def)
  show ?thesis
  proof (cases err)
    case None
    then have "tab_size t + 2 \<le> tab_size t'" using e(5) gap by simp
    then have "\<exists>r. add_hashtab_intl_int4 t' k v = Some r \<and> add_done ht_sizes t' k v r"
      using counters_fit(1) [OF core(1)] e(4) by (intro add_room [OF e(2) v]) auto
    then show ?thesis using True e(1) None by (auto simp: add_hashtab_int4_def d)
  next
    case (Some x)
    then have same: "tab_size t' = tab_size t" "exp_trigger_size t' = exp_trigger_size t" using e(5) by auto
    show ?thesis
    proof (cases "exp_trigger_size t \<ge> tab_size t")
      case ge: True
      then have "tab_count t = tab_size t" using True counters_fit(1) [OF core(1)] by simp
      then show ?thesis using True e Some same ge by (auto simp: add_hashtab_int4_def)
    next
      case lt: False
      define t1 where "t1 = t'\<lparr>exp_trigger_size := tab_size t\<rparr>"
      have t1: "ht_inv ht_sizes t1" "ht_map t1 = ht_map t" using e(2,3) same inv_congs [of t1 t'] by (auto simp: t1_def ht_inv_def)
      have "tab_count t1 < tab_size t1" using e(4) same i lt counters_fit(1) [OF core(1)] by (auto simp: t1_def ht_inv_def)
      moreover have "exp_trigger_size t1 = tab_size t1" using same by (simp add: t1_def)
      ultimately obtain r where r: "add_hashtab_intl_int4 t1 k v = Some r" "add_done ht_sizes t1 k v r"
        using add_room [OF t1(1) v, of k] by blast
      have "add_done ht_sizes t k v r" using r(2) unfolding add_done_def t1(2) .
      moreover have "add_hashtab_int4 ht_sizes mem t k v = Some (Inr r)"
        using True e(1) Some same lt r(1) by (simp add: add_hashtab_int4_def t1_def)
      ultimately show ?thesis by blast
    qed
  qed
qed

lemma delete_entry:
  assumes g: "ht_good ht_sizes t" and i: "i < tab_size t" "HTENT_VALID_INT4 (tab_base t ! i)" "ht_key (tab_base t ! i) = k"
  shows "\<exists>t1 t'. DELETE_HTENT t i = Some t1 \<and> (if COMPACT_NEEDED t1 then compact_hashtab_int4 ht_sizes mem t1 else Some t1) = Some t' \<and>
    ht_inv ht_sizes t' \<and> ht_map t' = (ht_map t)(k := None)"
proof -
  have inv: "ht_inv ht_sizes t" "sizes_ok ht_sizes" "\<forall>n \<in> set ht_sizes. n \<le> 2 ^ 30" using g by (simp_all add: ht_good_def)
  have core: "ht_core t" "tab_size t \<in> set ht_sizes" using inv(1) by (simp_all add: ht_inv_def)
  obtain t1 where t1: "DELETE_HTENT t i = Some t1" "ht_core t1" "same_frame t t1" "tab_count t1 + 1 = tab_count t" "ht_map t1 = (ht_map t)(k := None)"
    using ht_delete_ok [OF core(1) i] by blast
  note f = same_frameD [OF t1(3)]
  have lt: "tab_count t1 < tab_size t1" "tab_count t1 < 2 ^ 30"
    using t1(4) counters_fit(1) [OF core(1)] core(2) inv(3) f(1) by auto
  have i1: "ht_inv ht_sizes t1" using inv(1) t1(2) f lt by (auto simp: ht_inv_def)
  obtain t' where "compact_hashtab_int4 ht_sizes mem t1 = Some t'" "ht_inv ht_sizes t'" "ht_map t' = ht_map t1"
    using compact_ok [OF inv(2) i1 lt, of mem] by blast
  then show ?thesis using t1(1,5) i1 by auto
qed

lemma del_ok:
  assumes g: "ht_good ht_sizes t"
  shows "\<exists>t'. delete_hashtab_int4 ht_sizes mem t k = Some (ht_map t k \<noteq> None, t') \<and> ht_inv ht_sizes t' \<and> ht_map t' = (ht_map t)(k := None)"
proof -
  let ?h = "COMPUTE_HASH_INT4 k" and ?p = "tab_size t"
  have inv: "ht_inv ht_sizes t" using g by (simp add: ht_good_def)
  then have c: "ht_core t" by (simp add: ht_inv_def)
  define Q where "Q = (\<lambda>(b, t'). b = (ht_map t k \<noteq> None) \<and> ht_inv ht_sizes t' \<and> ht_map t' = (ht_map t)(k := None))"
  have no: "Q (False, t)" if "ht_map t k = None" using that inv by (auto simp: Q_def)
  have step: "(\<exists>y. RETURN_IF_DELETED ht_sizes mem t k (probe ?h ?p j) u = Some (Inl y) \<and> Q y) \<or>
      (\<exists>s'. RETURN_IF_DELETED ht_sizes mem t k (probe ?h ?p j) u = Some (Inr s') \<and> seen t k (Suc j))" if j: "j < ?p" "seen t k j" for j u
  proof -
    define q where "q = kprobe t k j"
    have q: "q < ?p" "tab_ent t q = Some (tab_base t ! q)"
      using probe_less [OF ht_coreD(1) [OF c]] ht_coreD(3) [OF c] by (simp_all add: tab_ent_def q_def)
    consider (empty) "HTENT_EMPTY_INT4 (tab_base t ! q)" | (found) "HTENT_VALID_INT4 (tab_base t ! q)" "ht_key (tab_base t ! q) = k"
      | (on) "\<not> HTENT_EMPTY_INT4 (tab_base t ! q)" "HTENT_MARK_DELETED (tab_base t ! q) \<or> ht_key (tab_base t ! q) \<noteq> k"
      by (auto simp: ent_defs)
    then show ?thesis
    proof cases
      case empty then show ?thesis using q no [OF seen_absent [OF c j(2)]] by (auto simp: RETURN_IF_DELETED_def q_def)
    next
      case found
      obtain t1 t' where "DELETE_HTENT t q = Some t1" "(if COMPACT_NEEDED t1 then compact_hashtab_int4 ht_sizes mem t1 else Some t1) = Some t'"
        "ht_inv ht_sizes t'" "ht_map t' = (ht_map t)(k := None)" using delete_entry [OF g q(1) found, of mem] by blast
      moreover have "ht_map t k \<noteq> None" using ht_map_at [OF c q(1) found(1)] found(2) by simp
      ultimately have "RETURN_IF_DELETED ht_sizes mem t k q u = Some (Inl (True, t')) \<and> Q (True, t')"
        using found q by (simp add: RETURN_IF_DELETED_def ent_defs Q_def)
      then show ?thesis by (auto simp: q_def)
    next
      case on then show ?thesis using q seen_Suc [OF j(2)] by (auto simp: RETURN_IF_DELETED_def q_def)
    qed
  qed
  have "(\<exists>y. double_hash (RETURN_IF_DELETED ht_sizes mem t k) ?h ?p () = Some (Inl y) \<and> Q y) \<or>
      (\<exists>s'. double_hash (RETURN_IF_DELETED ht_sizes mem t k) ?h ?p () = Some (Inr s') \<and> seen t k ?p)"
    by (rule double_hash_run [where I = "\<lambda>j _. seen t k j", OF ht_coreD(1,2) [OF c] _ step]) (simp_all add: seen_def)
  then show ?thesis using no seen_absent [OF c, of k ?p] by (auto simp: delete_hashtab_int4_def Q_def)
qed

end
