(* ===== verification/HtSizes.thy ===== *)
theory HtSizes
  imports HtPrimes HashtabOps
begin

text \<open>
  The list \<open>default_ht_sizes\<close> (\<open>mtables.c\<close>) satisfies what the hash tables need of it; certificates of primality for its
  numbers, each with the factors of the predecessor and the quotients of the powers.
\<close>

section \<open>Primes below 1000\<close>

lemma prime_2: "is_prime 2"
  by (rule small_prime [of _ 2]) (simp_all add: upt_rec)

lemma prime_3: "is_prime 3"
  by (rule small_prime [of _ 2]) (simp_all add: upt_rec)

lemma prime_5: "is_prime 5"
  by (rule small_prime [of _ 3]) (simp_all add: upt_rec)

lemma prime_7: "is_prime 7"
  by (rule small_prime [of _ 3]) (simp_all add: upt_rec)

lemma prime_11: "is_prime 11"
  by (rule small_prime [of _ 4]) (simp_all add: upt_rec)

lemma prime_13: "is_prime 13"
  by (rule small_prime [of _ 4]) (simp_all add: upt_rec)

lemma prime_17: "is_prime 17"
  by (rule small_prime [of _ 5]) (simp_all add: upt_rec)

lemma prime_19: "is_prime 19"
  by (rule small_prime [of _ 5]) (simp_all add: upt_rec)

lemma prime_23: "is_prime 23"
  by (rule small_prime [of _ 5]) (simp_all add: upt_rec)

lemma prime_29: "is_prime 29"
  by (rule small_prime [of _ 6]) (simp_all add: upt_rec)

lemma prime_31: "is_prime 31"
  by (rule small_prime [of _ 6]) (simp_all add: upt_rec)

lemma prime_37: "is_prime 37"
  by (rule small_prime [of _ 7]) (simp_all add: upt_rec)

lemma prime_41: "is_prime 41"
  by (rule small_prime [of _ 7]) (simp_all add: upt_rec)

lemma prime_47: "is_prime 47"
  by (rule small_prime [of _ 7]) (simp_all add: upt_rec)

lemma prime_53: "is_prime 53"
  by (rule small_prime [of _ 8]) (simp_all add: upt_rec)

lemma prime_61: "is_prime 61"
  by (rule small_prime [of _ 8]) (simp_all add: upt_rec)

lemma prime_71: "is_prime 71"
  by (rule small_prime [of _ 9]) (simp_all add: upt_rec)

lemma prime_73: "is_prime 73"
  by (rule small_prime [of _ 9]) (simp_all add: upt_rec)

lemma prime_79: "is_prime 79"
  by (rule small_prime [of _ 9]) (simp_all add: upt_rec)

lemma prime_83: "is_prime 83"
  by (rule small_prime [of _ 10]) (simp_all add: upt_rec)

lemma prime_97: "is_prime 97"
  by (rule small_prime [of _ 10]) (simp_all add: upt_rec)

lemma prime_103: "is_prime 103"
  by (rule small_prime [of _ 11]) (simp_all add: upt_rec)

lemma prime_127: "is_prime 127"
  by (rule small_prime [of _ 12]) (simp_all add: upt_rec)

lemma prime_131: "is_prime 131"
  by (rule small_prime [of _ 12]) (simp_all add: upt_rec)

lemma prime_149: "is_prime 149"
  by (rule small_prime [of _ 13]) (simp_all add: upt_rec)

lemma prime_151: "is_prime 151"
  by (rule small_prime [of _ 13]) (simp_all add: upt_rec)

lemma prime_163: "is_prime 163"
  by (rule small_prime [of _ 13]) (simp_all add: upt_rec)

lemma prime_193: "is_prime 193"
  by (rule small_prime [of _ 14]) (simp_all add: upt_rec)

lemma prime_229: "is_prime 229"
  by (rule small_prime [of _ 16]) (simp_all add: upt_rec)

lemma prime_251: "is_prime 251"
  by (rule small_prime [of _ 16]) (simp_all add: upt_rec)

lemma prime_257: "is_prime 257"
  by (rule small_prime [of _ 17]) (simp_all add: upt_rec)

lemma prime_263: "is_prime 263"
  by (rule small_prime [of _ 17]) (simp_all add: upt_rec)

lemma prime_271: "is_prime 271"
  by (rule small_prime [of _ 17]) (simp_all add: upt_rec)

lemma prime_293: "is_prime 293"
  by (rule small_prime [of _ 18]) (simp_all add: upt_rec)

lemma prime_311: "is_prime 311"
  by (rule small_prime [of _ 18]) (simp_all add: upt_rec)

lemma prime_313: "is_prime 313"
  by (rule small_prime [of _ 18]) (simp_all add: upt_rec)

lemma prime_383: "is_prime 383"
  by (rule small_prime [of _ 20]) (simp_all add: upt_rec)

lemma prime_389: "is_prime 389"
  by (rule small_prime [of _ 20]) (simp_all add: upt_rec)

lemma prime_401: "is_prime 401"
  by (rule small_prime [of _ 21]) (simp_all add: upt_rec)

lemma prime_421: "is_prime 421"
  by (rule small_prime [of _ 21]) (simp_all add: upt_rec)

lemma prime_433: "is_prime 433"
  by (rule small_prime [of _ 21]) (simp_all add: upt_rec)

lemma prime_563: "is_prime 563"
  by (rule small_prime [of _ 24]) (simp_all add: upt_rec)

lemma prime_653: "is_prime 653"
  by (rule small_prime [of _ 26]) (simp_all add: upt_rec)

lemma prime_709: "is_prime 709"
  by (rule small_prime [of _ 27]) (simp_all add: upt_rec)

lemma prime_719: "is_prime 719"
  by (rule small_prime [of _ 27]) (simp_all add: upt_rec)

lemma prime_761: "is_prime 761"
  by (rule small_prime [of _ 28]) (simp_all add: upt_rec)

lemma prime_769: "is_prime 769"
  by (rule small_prime [of _ 28]) (simp_all add: upt_rec)

lemma prime_853: "is_prime 853"
  by (rule small_prime [of _ 30]) (simp_all add: upt_rec)

lemma prime_967: "is_prime 967"
  by (rule small_prime [of _ 32]) (simp_all add: upt_rec)

section \<open>Certificates\<close>

lemma prime_1543: "is_prime 1543"
  by (rule lucas_cert [of 1543 5 "[(True, 0), (True, 0), (False, 10), (False, 24), (False, 639), (False, 3), (False, 199), (False, 607), (True, 579), (True, 5046), (False, 1541)]"
      "[2, 3, 257]" "[(2, [(True, 0), (True, 0), (False, 10), (False, 24), (False, 639), (False, 3), (False, 199), (False, 607), (True, 579), (True, 5046)]), (3, [(True, 0), (False, 0), (False, 0), (False, 253), (False, 39), (False, 74), (False, 353), (False, 1347), (True, 2881), (False, 481)]), (257, [(True, 0), (True, 0), (False, 10)])]"])
    (simp_all add: prime_2 prime_3 prime_257)

lemma prime_3079: "is_prime 3079"
  by (rule lucas_cert [of 3079 6 "[(True, 0), (True, 0), (False, 15), (False, 72), (False, 7), (False, 1118), (False, 1892), (False, 1207), (False, 224), (True, 1458), (True, 54), (False, 3077)]"
      "[2, 3, 3, 3, 3, 19]" "[(2, [(True, 0), (True, 0), (False, 15), (False, 72), (False, 7), (False, 1118), (False, 1892), (False, 1207), (False, 224), (True, 1458), (True, 54)]), (3, [(True, 0), (False, 0), (False, 0), (False, 545), (False, 791), (False, 492), (False, 2837), (False, 2569), (False, 2958), (True, 803), (False, 97)]), (19, [(True, 0), (False, 0), (True, 2), (False, 850), (False, 194), (False, 994), (True, 7593), (False, 474)])]"])
    (simp_all add: prime_2 prime_3 prime_19)

lemma prime_6151: "is_prime 6151"
  by (rule lucas_cert [of 6151 3 "[(True, 0), (True, 0), (False, 0), (False, 86), (False, 979), (False, 4389), (False, 457), (False, 284), (False, 104), (False, 14), (True, 1100), (True, 1782), (False, 6149)]"
      "[2, 3, 5, 5, 41]" "[(2, [(True, 0), (True, 0), (False, 0), (False, 86), (False, 979), (False, 4389), (False, 457), (False, 284), (False, 104), (False, 14), (True, 1100), (True, 1782)]), (3, [(True, 0), (False, 0), (False, 0), (False, 1), (False, 27), (False, 665), (False, 726), (False, 1846), (False, 754), (False, 563), (True, 7925), (False, 7)]), (5, [(True, 0), (False, 0), (False, 0), (True, 3), (True, 737), (False, 4763), (False, 1831), (True, 31), (True, 9416), (True, 7387), (False, 5016)]), (41, [(True, 0), (False, 0), (False, 0), (True, 3), (False, 245), (True, 17006), (True, 4898), (False, 1)])]"])
    (simp_all add: prime_2 prime_3 prime_5 prime_41)

lemma prime_12289: "is_prime 12289"
  by (rule lucas_cert [of 12289 11 "[(True, 0), (True, 0), (False, 144), (False, 307), (False, 8636), (False, 940), (False, 5659), (False, 12010), (False, 4349), (False, 2794), (False, 1390), (False, 5533), (False, 177), (False, 12287)]"
      "[2, 2, 2, 2, 2, 2, 2, 2, 2, 2, 2, 2, 3]" "[(2, [(True, 0), (True, 0), (False, 144), (False, 307), (False, 8636), (False, 940), (False, 5659), (False, 12010), (False, 4349), (False, 2794), (False, 1390), (False, 5533), (False, 177)]), (3, [(True, 0), (False, 0), (False, 1), (False, 450), (False, 279), (False, 6137), (False, 11010), (False, 191), (False, 2887), (False, 4584), (False, 4289), (False, 0), (False, 3169)])]"])
    (simp_all add: prime_2 prime_3)

lemma prime_24593: "is_prime 24593"
  by (rule lucas_cert [of 24593 3 "[(True, 0), (True, 0), (False, 0), (False, 21), (False, 9134), (False, 2399), (False, 8569), (False, 1402), (False, 40), (False, 6135), (True, 42206), (False, 15374), (False, 9447), (False, 14644), (False, 24591)]"
      "[2, 2, 2, 2, 29, 53]" "[(2, [(True, 0), (True, 0), (False, 0), (False, 21), (False, 9134), (False, 2399), (False, 8569), (False, 1402), (False, 40), (False, 6135), (True, 42206), (False, 15374), (False, 9447), (False, 14644)]), (29, [(True, 0), (True, 0), (False, 0), (True, 64), (False, 16873), (True, 48560), (False, 4770), (False, 22673), (False, 23240), (False, 450)]), (53, [(True, 0), (True, 0), (True, 0), (False, 194), (True, 17352), (False, 20132), (False, 21), (False, 3420), (False, 12486)])]"])
    (simp_all add: prime_2 prime_29 prime_53)

lemma prime_49157: "is_prime 49157"
  by (rule lucas_cert [of 49157 2 "[(True, 0), (True, 0), (False, 0), (False, 0), (False, 341), (False, 4383), (False, 6525), (False, 7094), (False, 26170), (False, 182), (False, 45757), (False, 38458), (False, 18916), (True, 37166), (False, 2592), (False, 49155)]"
      "[2, 2, 12289]" "[(2, [(True, 0), (True, 0), (False, 0), (False, 0), (False, 341), (False, 4383), (False, 6525), (False, 7094), (False, 26170), (False, 182), (False, 45757), (False, 38458), (False, 18916), (True, 37166), (False, 2592)]), (12289, [(True, 0), (False, 0), (False, 0)])]"])
    (simp_all add: prime_2 prime_12289)

lemma prime_62501: "is_prime 62501"
  by (rule lucas_cert [of 62501 2 "[(True, 0), (True, 0), (True, 0), (True, 0), (False, 17179), (True, 44151), (False, 6657), (False, 40069), (False, 38992), (False, 60903), (True, 14662), (False, 30989), (False, 21445), (True, 31502), (False, 0), (False, 62499)]"
      "[2, 2, 5, 5, 5, 5, 5, 5]" "[(2, [(True, 0), (True, 0), (True, 0), (True, 0), (False, 17179), (True, 44151), (False, 6657), (False, 40069), (False, 38992), (False, 60903), (True, 14662), (False, 30989), (False, 21445), (True, 31502), (False, 0)]), (5, [(True, 0), (True, 0), (False, 0), (False, 0), (False, 268), (False, 11618), (True, 107965), (True, 68677), (False, 7), (True, 22056), (False, 8446), (True, 5516), (False, 23450), (False, 4202)])]"])
    (simp_all add: prime_2 prime_5)

lemma prime_102503: "is_prime 102503"
  by (rule lucas_cert [of 102503 5 "[(True, 0), (True, 0), (False, 0), (False, 2381), (True, 319897), (False, 3682), (False, 47796), (False, 43320), (False, 34897), (False, 46838), (True, 229458), (True, 197346), (False, 34123), (False, 42877), (True, 1694), (True, 153506), (False, 102501)]"
      "[2, 53, 967]" "[(2, [(True, 0), (True, 0), (False, 0), (False, 2381), (True, 319897), (False, 3682), (False, 47796), (False, 43320), (False, 34897), (False, 46838), (True, 229458), (True, 197346), (False, 34123), (False, 42877), (True, 1694), (True, 153506)]), (53, [(True, 0), (True, 0), (True, 0), (True, 297723), (False, 58529), (False, 11177), (False, 60532), (True, 82), (True, 457392), (True, 209939), (False, 21333)]), (967, [(True, 0), (True, 0), (False, 0), (True, 11908), (False, 92552), (True, 460335), (False, 13082)])]"])
    (simp_all add: prime_2 prime_53 prime_967)

lemma prime_154981: "is_prime 154981"
  by (rule lucas_cert [of 154981 2 "[(True, 0), (False, 0), (False, 0), (True, 0), (False, 1), (True, 148197), (True, 123636), (True, 288063), (False, 1241), (True, 4061), (False, 9005), (True, 106808), (True, 38336), (False, 2689), (False, 30850), (True, 266699), (False, 3249), (False, 154979)]"
      "[2, 2, 3, 3, 3, 5, 7, 41]" "[(2, [(True, 0), (False, 0), (False, 0), (True, 0), (False, 1), (True, 148197), (True, 123636), (True, 288063), (False, 1241), (True, 4061), (False, 9005), (True, 106808), (True, 38336), (False, 2689), (False, 30850), (True, 266699), (False, 3249)]), (3, [(True, 0), (True, 0), (False, 0), (False, 0), (True, 216), (False, 39797), (False, 99915), (True, 246136), (True, 221648), (True, 190767), (False, 38939), (False, 153156), (True, 50119), (True, 67011), (False, 133149), (False, 12853)]), (5, [(True, 0), (True, 0), (True, 0), (True, 0), (False, 6928), (False, 7222), (True, 12525), (False, 264), (False, 117012), (False, 4180), (True, 15475), (False, 119), (True, 149158), (False, 134172), (False, 72597)]), (7, [(True, 0), (False, 0), (True, 0), (False, 0), (True, 13), (True, 87618), (False, 27382), (False, 16778), (True, 176104), (True, 174318), (True, 44003), (True, 103437), (True, 167666), (False, 86979), (False, 13901)]), (41, [(True, 0), (True, 0), (True, 0), (False, 0), (True, 3464), (True, 3611), (False, 1565), (False, 61544), (False, 72816), (True, 257755), (False, 40794), (False, 3195)])]"])
    (simp_all add: prime_2 prime_3 prime_5 prime_7 prime_41)

lemma prime_109229: "is_prime 109229"
  by (rule lucas_cert [of 109229 2 "[(True, 0), (True, 0), (False, 0), (True, 0), (False, 614), (True, 32697), (False, 2497), (True, 3), (False, 1274), (True, 205170), (False, 21198), (True, 176058), (False, 97969), (True, 6620), (True, 36209), (False, 72417), (False, 109227)]"
      "[2, 2, 7, 47, 83]" "[(2, [(True, 0), (True, 0), (False, 0), (True, 0), (False, 614), (True, 32697), (False, 2497), (True, 3), (False, 1274), (True, 205170), (False, 21198), (True, 176058), (False, 97969), (True, 6620), (True, 36209), (False, 72417)]), (7, [(True, 0), (True, 0), (True, 0), (True, 0), (False, 9830), (False, 3943), (True, 27237), (True, 77954), (True, 12893), (True, 15499), (False, 87529), (True, 14049), (False, 4342), (False, 25255)]), (47, [(True, 0), (False, 0), (False, 0), (True, 0), (False, 2), (False, 17472), (False, 2806), (True, 20536), (False, 10247), (True, 21633), (False, 27998), (False, 456)]), (83, [(True, 0), (False, 0), (True, 0), (False, 0), (False, 9), (True, 78591), (False, 1822), (False, 101094), (True, 29830), (False, 16511), (False, 23817)])]"])
    (simp_all add: prime_2 prime_7 prime_47 prime_83)

lemma prime_218459: "is_prime 218459"
  by (rule lucas_cert [of 218459 2 "[(True, 0), (True, 0), (False, 0), (True, 0), (False, 307), (True, 16111), (False, 148069), (True, 84263), (False, 163463), (True, 51942), (False, 206847), (True, 124687), (False, 153438), (True, 385427), (True, 154684), (False, 35847), (True, 71320), (False, 218457)]"
      "[2, 109229]" "[(2, [(True, 0), (True, 0), (False, 0), (True, 0), (False, 307), (True, 16111), (False, 148069), (True, 84263), (False, 163463), (True, 51942), (False, 206847), (True, 124687), (False, 153438), (True, 385427), (True, 154684), (False, 35847), (True, 71320)]), (109229, [(True, 0), (False, 0)])]"])
    (simp_all add: prime_2 prime_109229)

lemma prime_2417: "is_prime 2417"
  by (rule lucas_cert [of 2417 3 "[(True, 0), (False, 0), (False, 0), (True, 8), (False, 49), (True, 4846), (True, 1110), (True, 4377), (False, 861), (False, 607), (False, 1377), (False, 2415)]"
      "[2, 2, 2, 2, 151]" "[(2, [(True, 0), (False, 0), (False, 0), (True, 8), (False, 49), (True, 4846), (True, 1110), (True, 4377), (False, 861), (False, 607), (False, 1377)]), (151, [(True, 0), (False, 0), (False, 0), (False, 2), (False, 1233)])]"])
    (simp_all add: prime_2 prime_151)

lemma prime_48341: "is_prime 48341"
  by (rule lucas_cert [of 48341 3 "[(True, 0), (False, 0), (True, 0), (True, 3), (True, 64041), (True, 143861), (False, 5446), (False, 6694), (True, 128173), (True, 2055), (False, 7721), (True, 28790), (False, 48005), (True, 49435), (False, 42249), (False, 48339)]"
      "[2, 2, 5, 2417]" "[(2, [(True, 0), (False, 0), (True, 0), (True, 3), (True, 64041), (True, 143861), (False, 5446), (False, 6694), (True, 128173), (True, 2055), (False, 7721), (True, 28790), (False, 48005), (True, 49435), (False, 42249)]), (5, [(True, 0), (False, 0), (False, 0), (True, 0), (False, 8014), (True, 15326), (True, 5611), (True, 29742), (False, 9096), (False, 20090), (False, 12120), (True, 87345), (False, 775), (False, 14917)]), (2417, [(True, 0), (False, 0), (True, 0), (False, 1), (False, 2371)])]"])
    (simp_all add: prime_2 prime_5 prime_2417)

lemma prime_290047: "is_prime 290047"
  by (rule lucas_cert [of 290047 3 "[(True, 0), (False, 0), (False, 0), (False, 0), (True, 445), (True, 49598), (False, 38305), (True, 314955), (True, 20131), (False, 228809), (False, 53184), (True, 794513), (True, 561022), (True, 868617), (True, 387463), (True, 178), (True, 42414), (True, 260331), (False, 290045)]"
      "[2, 3, 48341]" "[(2, [(True, 0), (False, 0), (False, 0), (False, 0), (True, 445), (True, 49598), (False, 38305), (True, 314955), (True, 20131), (False, 228809), (False, 53184), (True, 794513), (True, 561022), (True, 868617), (True, 387463), (True, 178), (True, 42414), (True, 260331)]), (3, [(True, 0), (False, 0), (True, 0), (True, 0), (True, 324579), (True, 1917), (False, 28), (False, 174548), (True, 164909), (True, 502248), (False, 13746), (True, 330198), (False, 225106), (True, 307780), (False, 82140), (True, 65082), (False, 9349)]), (48341, [(True, 0), (True, 0), (False, 0)])]"])
    (simp_all add: prime_2 prime_3 prime_48341)

lemma prime_1289: "is_prime 1289"
  by (rule lucas_cert [of 1289 6 "[(True, 0), (False, 0), (True, 6), (False, 1), (False, 175), (False, 1), (False, 1137), (True, 4008), (False, 486), (False, 508), (False, 1287)]"
      "[2, 2, 2, 7, 23]" "[(2, [(True, 0), (False, 0), (True, 6), (False, 1), (False, 175), (False, 1), (False, 1137), (True, 4008), (False, 486), (False, 508)]), (7, [(True, 0), (False, 0), (True, 6), (True, 8), (True, 344), (False, 184), (False, 726), (False, 1135)]), (23, [(True, 0), (True, 0), (True, 217), (False, 38), (False, 432), (False, 1045)])]"])
    (simp_all add: prime_2 prime_7 prime_23)

lemma prime_366077: "is_prime 366077"
  by (rule lucas_cert [of 366077 2 "[(True, 0), (False, 0), (True, 0), (True, 0), (False, 11), (False, 76600), (True, 664101), (False, 60340), (True, 506378), (False, 85526), (True, 32927), (True, 365165), (True, 74115), (True, 82122), (True, 1368), (True, 116), (True, 122892), (False, 11940), (False, 366075)]"
      "[2, 2, 71, 1289]" "[(2, [(True, 0), (False, 0), (True, 0), (True, 0), (False, 11), (False, 76600), (True, 664101), (False, 60340), (True, 506378), (False, 85526), (True, 32927), (True, 365165), (True, 74115), (True, 82122), (True, 1368), (True, 116), (True, 122892), (False, 11940)]), (71, [(True, 0), (False, 0), (True, 0), (False, 0), (False, 2), (False, 273502), (False, 22338), (True, 134449), (False, 128843), (False, 183426), (True, 549344), (False, 17360), (False, 90165)]), (1289, [(True, 0), (False, 0), (False, 0), (False, 0), (True, 0), (True, 93859), (True, 75075), (False, 79386), (False, 310053)])]"])
    (simp_all add: prime_2 prime_71 prime_1289)

lemma prime_442861: "is_prime 442861"
  by (rule lucas_cert [of 442861 2 "[(True, 0), (True, 0), (False, 0), (True, 0), (True, 303), (False, 2148), (False, 49860), (False, 810), (False, 272188), (False, 44646), (True, 8570), (True, 103200), (True, 337191), (True, 172706), (False, 243866), (True, 284060), (True, 143004), (False, 17076), (False, 442859)]"
      "[2, 2, 3, 5, 11, 11, 61]" "[(2, [(True, 0), (True, 0), (False, 0), (True, 0), (True, 303), (False, 2148), (False, 49860), (False, 810), (False, 272188), (False, 44646), (True, 8570), (True, 103200), (True, 337191), (True, 172706), (False, 243866), (True, 284060), (True, 143004), (False, 17076)]), (3, [(True, 0), (False, 0), (False, 0), (True, 0), (False, 0), (False, 155171), (False, 193196), (False, 91471), (False, 166850), (False, 82418), (True, 668014), (False, 5367), (True, 62381), (False, 871), (False, 3082), (True, 740378), (False, 129359), (False, 303141)]), (5, [(True, 0), (False, 0), (True, 0), (False, 0), (True, 4), (True, 479092), (False, 130406), (False, 5265), (True, 307487), (True, 99111), (True, 407334), (True, 332361), (True, 386355), (True, 753635), (True, 681142), (False, 383803), (False, 32403)]), (11, [(True, 0), (False, 0), (False, 0), (True, 0), (True, 1), (True, 29943), (False, 35698), (True, 6606), (False, 35992), (True, 59095), (False, 80261), (False, 114687), (False, 254798), (True, 80862), (False, 45057), (False, 360426)]), (61, [(True, 0), (True, 0), (True, 0), (False, 0), (False, 606), (False, 8593), (True, 103691), (False, 60367), (True, 550259), (True, 430333), (True, 40525), (False, 114168), (False, 30280)])]"])
    (simp_all add: prime_2 prime_3 prime_5 prime_11 prime_61)

lemma prime_5171: "is_prime 5171"
  by (rule lucas_cert [of 5171 2 "[(True, 0), (False, 0), (True, 0), (False, 0), (False, 202), (False, 3147), (False, 0), (True, 50), (True, 1692), (False, 2500), (False, 2670), (True, 1682), (False, 5169)]"
      "[2, 5, 11, 47]" "[(2, [(True, 0), (False, 0), (True, 0), (False, 0), (False, 202), (False, 3147), (False, 0), (True, 50), (True, 1692), (False, 2500), (False, 2670), (True, 1682)]), (5, [(True, 0), (False, 0), (False, 0), (False, 0), (False, 12), (False, 2347), (False, 712), (True, 253), (False, 94), (True, 2469), (False, 3507)]), (11, [(True, 0), (True, 0), (True, 0), (False, 3), (True, 293), (False, 918), (True, 437), (True, 17), (False, 249)]), (47, [(True, 0), (True, 0), (False, 0), (True, 1), (True, 3529), (True, 7566), (False, 830)])]"])
    (simp_all add: prime_2 prime_5 prime_11 prime_47)

lemma prime_10343: "is_prime 10343"
  by (rule lucas_cert [of 10343 5 "[(True, 0), (False, 0), (True, 0), (False, 944), (False, 324), (False, 7414), (False, 405), (True, 809), (True, 10646), (False, 9035), (False, 343), (True, 1578), (True, 12041), (False, 10341)]"
      "[2, 5171]" "[(2, [(True, 0), (False, 0), (True, 0), (False, 944), (False, 324), (False, 7414), (False, 405), (True, 809), (True, 10646), (False, 9035), (False, 343), (True, 1578), (True, 12041)]), (5171, [(True, 0), (False, 0)])]"])
    (simp_all add: prime_2 prime_5171)

lemma prime_517151: "is_prime 517151"
  by (rule lucas_cert [of 517151 13 "[(True, 0), (True, 0), (True, 121), (True, 754488), (True, 126790), (True, 3077787), (False, 446377), (False, 282822), (True, 1038371), (False, 368107), (False, 287458), (False, 318641), (False, 42385), (False, 116708), (True, 77062), (True, 2418073), (True, 4486752), (True, 2547225), (False, 517149)]"
      "[2, 5, 5, 10343]" "[(2, [(True, 0), (True, 0), (True, 121), (True, 754488), (True, 126790), (True, 3077787), (False, 446377), (False, 282822), (True, 1038371), (False, 368107), (False, 287458), (False, 318641), (False, 42385), (False, 116708), (True, 77062), (True, 2418073), (True, 4486752), (True, 2547225)]), (5, [(True, 0), (True, 0), (False, 9), (False, 57505), (True, 1379325), (False, 6337), (True, 3565468), (False, 103476), (False, 293154), (False, 92716), (False, 31053), (False, 35566), (False, 216252), (False, 410361), (True, 203946), (True, 3284), (False, 246456)]), (10343, [(True, 0), (True, 0), (False, 9), (False, 57505), (True, 1379325), (False, 6337)])]"])
    (simp_all add: prime_2 prime_5 prime_10343)

lemma prime_603907: "is_prime 603907"
  by (rule lucas_cert [of 603907 2 "[(True, 0), (False, 0), (False, 0), (True, 0), (False, 0), (False, 113791), (True, 288791), (True, 28253), (False, 267569), (True, 348424), (True, 936464), (True, 175729), (False, 21748), (False, 476774), (False, 593940), (False, 129662), (False, 381208), (False, 552425), (True, 403778), (False, 603905)]"
      "[2, 3, 251, 401]" "[(2, [(True, 0), (False, 0), (False, 0), (True, 0), (False, 0), (False, 113791), (True, 288791), (True, 28253), (False, 267569), (True, 348424), (True, 936464), (True, 175729), (False, 21748), (False, 476774), (False, 593940), (False, 129662), (False, 381208), (False, 552425), (True, 403778)]), (3, [(True, 0), (True, 0), (False, 0), (False, 0), (False, 27), (True, 736955), (False, 323314), (False, 42566), (True, 51085), (False, 62389), (False, 231155), (True, 233079), (False, 575844), (True, 769955), (False, 251437), (True, 771224), (True, 4690), (False, 201)]), (251, [(True, 0), (False, 0), (False, 0), (True, 0), (False, 0), (True, 227582), (True, 1155164), (False, 226029), (False, 63805), (True, 169262), (True, 530725), (False, 349887)]), (401, [(True, 0), (False, 0), (True, 0), (True, 0), (True, 13), (True, 957919), (False, 113185), (False, 124525), (False, 545051), (True, 226237), (False, 208552)])]"])
    (simp_all add: prime_2 prime_3 prime_251 prime_401)

lemma prime_117541: "is_prime 117541"
  by (rule lucas_cert [of 117541 10 "[(True, 0), (True, 0), (True, 85), (False, 691), (False, 20756), (True, 632744), (False, 1549), (True, 428956), (True, 46163), (False, 29793), (False, 2854), (True, 16300), (False, 70979), (False, 23862), (True, 923359), (False, 85401), (False, 117539)]"
      "[2, 2, 3, 3, 5, 653]" "[(2, [(True, 0), (True, 0), (True, 85), (False, 691), (False, 20756), (True, 632744), (False, 1549), (True, 428956), (True, 46163), (False, 29793), (False, 2854), (True, 16300), (False, 70979), (False, 23862), (True, 923359), (False, 85401)]), (3, [(True, 0), (False, 0), (False, 0), (True, 8507), (True, 527112), (False, 72162), (False, 19570), (True, 492360), (False, 19601), (False, 52907), (False, 0), (False, 12050), (True, 841366), (True, 395178), (False, 30486), (False, 92227)]), (5, [(True, 0), (False, 0), (True, 0), (True, 850766), (False, 109779), (True, 341938), (True, 323164), (True, 17926), (True, 895477), (False, 5886), (True, 187), (False, 1377), (True, 36708), (False, 35737), (False, 9056)]), (653, [(True, 0), (False, 0), (True, 0), (True, 850766), (False, 109779), (True, 341938), (False, 32316), (False, 19985)])]"])
    (simp_all add: prime_2 prime_3 prime_5 prime_653)

lemma prime_705247: "is_prime 705247"
  by (rule lucas_cert [of 705247 3 "[(True, 0), (False, 0), (True, 0), (False, 0), (True, 14832), (True, 71557), (False, 24790), (False, 18120), (False, 147452), (False, 674949), (True, 705407), (False, 613907), (True, 4919), (True, 430580), (False, 598874), (True, 437407), (True, 24660), (True, 11039), (True, 509586), (False, 705245)]"
      "[2, 3, 117541]" "[(2, [(True, 0), (False, 0), (True, 0), (False, 0), (True, 14832), (True, 71557), (False, 24790), (False, 18120), (False, 147452), (False, 674949), (True, 705407), (False, 613907), (True, 4919), (True, 430580), (False, 598874), (True, 437407), (True, 24660), (True, 11039), (True, 509586)]), (3, [(True, 0), (True, 0), (True, 0), (False, 6), (False, 431250), (True, 86281), (False, 13694), (True, 1149164), (True, 1922013), (False, 10820), (False, 317112), (True, 1718584), (False, 698407), (False, 309545), (True, 14912), (False, 318280), (True, 1175505), (False, 39331)]), (117541, [(True, 0), (True, 0), (False, 0)])]"])
    (simp_all add: prime_2 prime_3 prime_117541)

lemma prime_5147: "is_prime 5147"
  by (rule lucas_cert [of 5147 2 "[(True, 0), (False, 0), (True, 0), (False, 0), (False, 203), (False, 2710), (False, 668), (False, 1554), (True, 8963), (True, 9937), (False, 111), (True, 8818), (False, 5145)]"
      "[2, 31, 83]" "[(2, [(True, 0), (False, 0), (True, 0), (False, 0), (False, 203), (False, 2710), (False, 668), (False, 1554), (True, 8963), (True, 9937), (False, 111), (True, 8818)]), (31, [(True, 0), (False, 0), (True, 0), (False, 0), (False, 203), (True, 5420), (True, 5348), (False, 811)]), (83, [(True, 0), (True, 0), (True, 0), (True, 6), (True, 1382), (False, 136)])]"])
    (simp_all add: prime_2 prime_31 prime_83)

lemma prime_41177: "is_prime 41177"
  by (rule lucas_cert [of 41177 3 "[(True, 0), (False, 0), (True, 0), (False, 1), (False, 7756), (False, 38029), (False, 12904), (False, 8), (True, 36013), (True, 9746), (False, 881), (True, 93057), (True, 29946), (False, 8570), (False, 17580), (False, 41175)]"
      "[2, 2, 2, 5147]" "[(2, [(True, 0), (False, 0), (True, 0), (False, 1), (False, 7756), (False, 38029), (False, 12904), (False, 8), (True, 36013), (True, 9746), (False, 881), (True, 93057), (True, 29946), (False, 8570), (False, 17580)]), (5147, [(True, 0), (False, 0), (False, 0), (False, 0)])]"])
    (simp_all add: prime_2 prime_5147)

lemma prime_823541: "is_prime 823541"
  by (rule lucas_cert [of 823541 2 "[(True, 0), (True, 0), (False, 0), (False, 0), (True, 40), (False, 455974), (False, 685450), (True, 846663), (False, 614385), (False, 493028), (False, 33246), (False, 56097), (True, 65610), (True, 598345), (True, 1341404), (True, 103913), (False, 352376), (True, 680079), (False, 420841), (False, 823539)]"
      "[2, 2, 5, 41177]" "[(2, [(True, 0), (True, 0), (False, 0), (False, 0), (True, 40), (False, 455974), (False, 685450), (True, 846663), (False, 614385), (False, 493028), (False, 33246), (False, 56097), (True, 65610), (True, 598345), (True, 1341404), (True, 103913), (False, 352376), (True, 680079), (False, 420841)]), (5, [(True, 0), (False, 0), (True, 0), (False, 0), (False, 1), (False, 61491), (False, 186203), (False, 3809), (True, 841080), (True, 981468), (False, 592634), (True, 263746), (True, 1404251), (False, 481944), (False, 461205), (True, 1422370), (False, 206777), (False, 421093)]), (41177, [(True, 0), (False, 0), (True, 0), (False, 0), (False, 1)])]"])
    (simp_all add: prime_2 prime_5 prime_41177)

lemma prime_5009: "is_prime 5009"
  by (rule lucas_cert [of 5009 3 "[(True, 0), (False, 0), (False, 0), (True, 3), (True, 12983), (True, 5984), (False, 726), (False, 2), (True, 6159), (False, 3382), (False, 206), (False, 3988), (False, 5007)]"
      "[2, 2, 2, 2, 313]" "[(2, [(True, 0), (False, 0), (False, 0), (True, 3), (True, 12983), (True, 5984), (False, 726), (False, 2), (True, 6159), (False, 3382), (False, 206), (False, 3988)]), (313, [(True, 0), (False, 0), (False, 0), (False, 1), (False, 480)])]"])
    (simp_all add: prime_2 prime_313)

lemma prime_961729: "is_prime 961729"
  by (rule lucas_cert [of 961729 11 "[(True, 0), (True, 0), (True, 20), (False, 66341), (True, 256293), (False, 56404), (True, 1085966), (False, 172549), (True, 8577876), (True, 115689), (False, 295109), (False, 50595), (True, 1712920), (True, 2959237), (False, 40368), (False, 836948), (False, 196295), (False, 515351), (False, 467044), (False, 961727)]"
      "[2, 2, 2, 2, 2, 2, 3, 5009]" "[(2, [(True, 0), (True, 0), (True, 20), (False, 66341), (True, 256293), (False, 56404), (True, 1085966), (False, 172549), (True, 8577876), (True, 115689), (False, 295109), (False, 50595), (True, 1712920), (True, 2959237), (False, 40368), (False, 836948), (False, 196295), (False, 515351), (False, 467044)]), (3, [(True, 0), (False, 0), (False, 0), (True, 2451), (True, 6432215), (True, 1699314), (False, 500376), (False, 277840), (True, 3272309), (False, 4194), (False, 854), (False, 808348), (True, 7511858), (False, 522127), (False, 221266), (False, 486028), (False, 497282), (False, 330368), (False, 270417)]), (5009, [(True, 0), (True, 0), (False, 1), (False, 681925), (False, 698985), (False, 52703), (False, 48068), (False, 240076)])]"])
    (simp_all add: prime_2 prime_3 prime_5009)

lemma prime_1123079: "is_prime 1123079"
  by (rule lucas_cert [of 1123079 11 "[(True, 0), (False, 0), (False, 0), (False, 190), (True, 9289348), (False, 84774), (False, 510699), (True, 9406716), (False, 966054), (False, 318710), (False, 2912), (True, 5474028), (True, 103853), (False, 170225), (False, 4538), (False, 290039), (False, 308560), (False, 889314), (True, 2452731), (True, 624074), (False, 1123077)]"
      "[2, 11, 71, 719]" "[(2, [(True, 0), (False, 0), (False, 0), (False, 190), (True, 9289348), (False, 84774), (False, 510699), (True, 9406716), (False, 966054), (False, 318710), (False, 2912), (True, 5474028), (True, 103853), (False, 170225), (False, 4538), (False, 290039), (False, 308560), (False, 889314), (True, 2452731), (True, 624074)]), (11, [(True, 0), (True, 0), (False, 1), (False, 374442), (False, 816172), (True, 3707514), (True, 8), (True, 4712655), (False, 36837), (True, 835564), (True, 5618188), (False, 35906), (True, 334383), (False, 814872), (False, 35105), (True, 5996100), (False, 734653)]), (71, [(True, 0), (True, 0), (True, 17), (True, 1526856), (False, 482069), (True, 47376), (True, 4891715), (True, 526515), (False, 1098637), (False, 224706), (True, 9223059), (False, 138531), (True, 7375536), (False, 1054946)]), (719, [(True, 0), (True, 0), (False, 1), (False, 374442), (False, 816172), (False, 337046), (True, 6535642), (True, 790998), (False, 59049), (True, 7734062), (False, 1047364)])]"])
    (simp_all add: prime_2 prime_11 prime_71 prime_719)

lemma prime_81967: "is_prime 81967"
  by (rule lucas_cert [of 81967 5 "[(True, 0), (False, 0), (True, 0), (False, 119), (False, 1628), (False, 504), (False, 745), (False, 7287), (False, 58003), (False, 26269), (False, 27278), (True, 298644), (False, 32674), (True, 387925), (True, 334985), (True, 95802), (False, 81965)]"
      "[2, 3, 19, 719]" "[(2, [(True, 0), (False, 0), (True, 0), (False, 119), (False, 1628), (False, 504), (False, 745), (False, 7287), (False, 58003), (False, 26269), (False, 27278), (True, 298644), (False, 32674), (True, 387925), (True, 334985), (True, 95802)]), (3, [(True, 0), (True, 0), (False, 0), (True, 14892), (False, 31188), (True, 47568), (False, 5834), (True, 202967), (False, 26216), (True, 61934), (True, 48861), (True, 42621), (False, 45), (True, 276525), (False, 26413)]), (19, [(True, 0), (False, 0), (False, 0), (False, 4), (False, 48049), (True, 4581), (True, 2949), (False, 1), (True, 146922), (True, 1010), (False, 75246), (True, 200581), (False, 69392)]), (719, [(True, 0), (True, 0), (True, 0), (False, 74463), (False, 581), (True, 109606), (False, 46298)])]"])
    (simp_all add: prime_2 prime_3 prime_19 prime_719)

lemma prime_1311473: "is_prime 1311473"
  by (rule lucas_cert [of 1311473 3 "[(True, 0), (False, 0), (True, 0), (False, 0), (False, 2658), (False, 602847), (False, 116129), (False, 1207756), (False, 1037767), (False, 1020457), (False, 10859), (True, 598751), (False, 596893), (True, 6146), (True, 822486), (True, 119772), (True, 1387780), (False, 668749), (False, 727512), (False, 189249), (False, 1311471)]"
      "[2, 2, 2, 2, 81967]" "[(2, [(True, 0), (False, 0), (True, 0), (False, 0), (False, 2658), (False, 602847), (False, 116129), (False, 1207756), (False, 1037767), (False, 1020457), (False, 10859), (True, 598751), (False, 596893), (True, 6146), (True, 822486), (True, 119772), (True, 1387780), (False, 668749), (False, 727512), (False, 189249)]), (81967, [(True, 0), (False, 0), (False, 0), (False, 0), (False, 32)])]"])
    (simp_all add: prime_2 prime_81967)

lemma prime_11261: "is_prime 11261"
  by (rule lucas_cert [of 11261 2 "[(True, 0), (False, 0), (True, 0), (False, 0), (True, 186), (True, 1206), (True, 516), (True, 18463), (True, 4420), (True, 7788), (True, 214), (True, 18282), (False, 7240), (False, 11259)]"
      "[2, 2, 5, 563]" "[(2, [(True, 0), (False, 0), (True, 0), (False, 0), (True, 186), (True, 1206), (True, 516), (True, 18463), (True, 4420), (True, 7788), (True, 214), (True, 18282), (False, 7240)]), (5, [(True, 0), (False, 0), (False, 0), (False, 0), (True, 11), (True, 9209), (False, 3472), (False, 293), (True, 721), (True, 15463), (False, 3501), (False, 103)]), (563, [(True, 0), (False, 0), (True, 0), (False, 0), (False, 93)])]"])
    (simp_all add: prime_2 prime_5 prime_563)

lemma prime_765749: "is_prime 765749"
  by (rule lucas_cert [of 765749 2 "[(True, 0), (False, 0), (True, 0), (True, 0), (True, 10), (False, 698053), (True, 53578), (False, 546895), (True, 1291303), (True, 792419), (True, 192692), (True, 8194), (False, 453180), (False, 44009), (True, 235118), (True, 1033567), (False, 52531), (True, 1502663), (False, 273), (False, 765747)]"
      "[2, 2, 17, 11261]" "[(2, [(True, 0), (False, 0), (True, 0), (True, 0), (True, 10), (False, 698053), (True, 53578), (False, 546895), (True, 1291303), (True, 792419), (True, 192692), (True, 8194), (False, 453180), (False, 44009), (True, 235118), (True, 1033567), (False, 52531), (True, 1502663), (False, 273)]), (17, [(True, 0), (False, 0), (True, 0), (False, 0), (True, 2), (True, 835690), (True, 33718), (True, 403364), (True, 444969), (True, 563020), (True, 181182), (True, 127021), (False, 750469), (True, 1487857), (False, 121727), (False, 1666)]), (11261, [(True, 0), (False, 0), (False, 0), (False, 0), (True, 0), (False, 22435), (False, 110106)])]"])
    (simp_all add: prime_2 prime_17 prime_11261)

lemma prime_1531499: "is_prime 1531499"
  by (rule lucas_cert [of 1531499 2 "[(True, 0), (False, 0), (True, 0), (True, 0), (True, 5), (False, 349021), (True, 1072624), (False, 193818), (True, 1631686), (True, 2470990), (True, 1078379), (True, 260847), (False, 209921), (False, 492457), (True, 1444906), (True, 3025771), (False, 979941), (True, 626094), (False, 507136), (True, 916130), (False, 1531497)]"
      "[2, 765749]" "[(2, [(True, 0), (False, 0), (True, 0), (True, 0), (True, 5), (False, 349021), (True, 1072624), (False, 193818), (True, 1631686), (True, 2470990), (True, 1078379), (True, 260847), (False, 209921), (False, 492457), (True, 1444906), (True, 3025771), (False, 979941), (True, 626094), (False, 507136), (True, 916130)]), (765749, [(True, 0), (False, 0)])]"])
    (simp_all add: prime_2 prime_765749)

lemma prime_44711: "is_prime 44711"
  by (rule lucas_cert [of 44711 7 "[(True, 0), (False, 0), (True, 0), (False, 6317), (True, 201350), (True, 72087), (True, 231954), (False, 408), (True, 42319), (False, 9452), (True, 82763), (False, 1415), (False, 5697), (True, 1440), (True, 14983), (False, 44709)]"
      "[2, 5, 17, 263]" "[(2, [(True, 0), (False, 0), (True, 0), (False, 6317), (True, 201350), (True, 72087), (True, 231954), (False, 408), (True, 42319), (False, 9452), (True, 82763), (False, 1415), (False, 5697), (True, 1440), (True, 14983)]), (5, [(True, 0), (False, 0), (False, 0), (False, 128), (True, 273458), (False, 244), (True, 28706), (True, 212032), (True, 164909), (False, 41116), (True, 30249), (True, 7586), (True, 18947), (False, 4826)]), (17, [(True, 0), (False, 0), (True, 0), (False, 6317), (False, 28764), (True, 39282), (False, 64), (False, 10531), (False, 33081), (True, 15939), (True, 10198), (False, 13434)]), (263, [(True, 0), (False, 0), (True, 0), (False, 6317), (True, 201350), (False, 10298), (True, 22118), (False, 9932)])]"])
    (simp_all add: prime_2 prime_5 prime_17 prime_263)

lemma prime_894221: "is_prime 894221"
  by (rule lucas_cert [of 894221 2 "[(True, 0), (True, 0), (False, 0), (True, 0), (True, 150), (False, 7999), (True, 712217), (False, 842728), (False, 162981), (True, 410319), (False, 35551), (True, 1416529), (False, 713723), (False, 604290), (False, 76479), (False, 220790), (True, 221895), (True, 309652), (False, 25176), (False, 894219)]"
      "[2, 2, 5, 44711]" "[(2, [(True, 0), (True, 0), (False, 0), (True, 0), (True, 150), (False, 7999), (True, 712217), (False, 842728), (False, 162981), (True, 410319), (False, 35551), (True, 1416529), (False, 713723), (False, 604290), (False, 76479), (False, 220790), (True, 221895), (True, 309652), (False, 25176)]), (5, [(True, 0), (False, 0), (True, 0), (False, 0), (True, 2), (True, 213150), (True, 609549), (False, 883155), (True, 356041), (False, 112610), (True, 1214022), (False, 12362), (False, 3972), (True, 12847), (True, 1421913), (True, 1715473), (False, 651903), (False, 458794)]), (44711, [(True, 0), (False, 0), (True, 0), (False, 0), (False, 1)])]"])
    (simp_all add: prime_2 prime_5 prime_44711)

lemma prime_1788443: "is_prime 1788443"
  by (rule lucas_cert [of 1788443 2 "[(True, 0), (True, 0), (False, 0), (True, 0), (True, 75), (False, 3992), (True, 1868321), (False, 454333), (False, 60414), (True, 456670), (False, 230102), (True, 284986), (False, 817900), (False, 1757293), (False, 1216822), (False, 808198), (True, 1184808), (True, 540936), (False, 1679973), (True, 983000), (False, 1788441)]"
      "[2, 894221]" "[(2, [(True, 0), (True, 0), (False, 0), (True, 0), (True, 75), (False, 3992), (True, 1868321), (False, 454333), (False, 60414), (True, 456670), (False, 230102), (True, 284986), (False, 817900), (False, 1757293), (False, 1216822), (False, 808198), (True, 1184808), (True, 540936), (False, 1679973), (True, 983000)]), (894221, [(True, 0), (False, 0)])]"])
    (simp_all add: prime_2 prime_894221)

lemma prime_130531: "is_prime 130531"
  by (rule lucas_cert [of 130531 10 "[(True, 0), (True, 0), (True, 76), (True, 485950), (True, 1253416), (True, 105469), (True, 678671), (False, 3744), (True, 763300), (True, 39094), (True, 798396), (True, 562452), (False, 24497), (False, 26125), (False, 58298), (True, 425410), (False, 130529)]"
      "[2, 3, 5, 19, 229]" "[(2, [(True, 0), (True, 0), (True, 76), (True, 485950), (True, 1253416), (True, 105469), (True, 678671), (False, 3744), (True, 763300), (True, 39094), (True, 798396), (True, 562452), (False, 24497), (False, 26125), (False, 58298), (True, 425410)]), (3, [(True, 0), (False, 0), (True, 0), (False, 76610), (True, 30920), (False, 29906), (False, 62487), (True, 1255161), (True, 29187), (True, 849670), (True, 1854), (True, 271456), (False, 4275), (True, 412190), (True, 1087065), (False, 29911)]), (5, [(True, 0), (True, 0), (False, 7), (False, 57034), (True, 199536), (False, 47370), (True, 211044), (True, 23719), (True, 1242874), (True, 1301013), (True, 382469), (True, 235561), (False, 112385), (True, 563003), (False, 121948)]), (19, [(True, 0), (True, 0), (False, 7), (True, 570343), (False, 108045), (True, 762), (True, 12043), (False, 6715), (True, 264730), (False, 101193), (True, 507827), (True, 973963), (False, 5074)]), (229, [(True, 0), (False, 0), (False, 0), (False, 766), (True, 13457), (True, 1284632), (True, 385082), (False, 120659), (True, 4995), (False, 22260)])]"])
    (simp_all add: prime_2 prime_3 prime_5 prime_19 prime_229)

lemma prime_2088497: "is_prime 2088497"
  by (rule lucas_cert [of 2088497 3 "[(True, 0), (True, 0), (True, 0), (True, 6), (True, 4747219), (True, 2342561), (True, 460586), (False, 1376994), (True, 4278623), (True, 980741), (True, 855019), (True, 3537217), (False, 6512), (False, 191046), (False, 1342348), (True, 4077470), (True, 649285), (False, 215466), (False, 2034026), (False, 1571764), (False, 2088495)]"
      "[2, 2, 2, 2, 130531]" "[(2, [(True, 0), (True, 0), (True, 0), (True, 6), (True, 4747219), (True, 2342561), (True, 460586), (False, 1376994), (True, 4278623), (True, 980741), (True, 855019), (True, 3537217), (False, 6512), (False, 191046), (False, 1342348), (True, 4077470), (True, 649285), (False, 215466), (False, 2034026), (False, 1571764)]), (130531, [(True, 0), (False, 0), (False, 0), (False, 0), (False, 20)])]"])
    (simp_all add: prime_2 prime_130531)

lemma prime_5081: "is_prime 5081"
  by (rule lucas_cert [of 5081 3 "[(True, 0), (False, 0), (False, 0), (True, 3), (True, 11639), (True, 5460), (True, 361), (False, 4971), (True, 5402), (True, 10983), (False, 324), (False, 1144), (False, 5079)]"
      "[2, 2, 2, 5, 127]" "[(2, [(True, 0), (False, 0), (False, 0), (True, 3), (True, 11639), (True, 5460), (True, 361), (False, 4971), (True, 5402), (True, 10983), (False, 324), (False, 1144)]), (5, [(True, 0), (True, 0), (True, 0), (True, 2824), (True, 15), (True, 7199), (True, 9794), (False, 4297), (False, 2950), (False, 2320)]), (127, [(True, 0), (False, 0), (True, 0), (False, 11), (False, 1962), (False, 3215)])]"])
    (simp_all add: prime_2 prime_5 prime_127)

lemma prime_2438881: "is_prime 2438881"
  by (rule lucas_cert [of 2438881 17 "[(True, 0), (False, 0), (False, 0), (True, 48623), (False, 1923001), (True, 2809), (False, 31892), (False, 1959275), (True, 10076), (True, 6620008), (False, 410458), (True, 27091), (True, 12124309), (False, 1209518), (True, 7626480), (True, 16173864), (True, 9167279), (False, 2415929), (False, 157326), (False, 43848), (False, 772129), (False, 2438879)]"
      "[2, 2, 2, 2, 2, 3, 5, 5081]" "[(2, [(True, 0), (False, 0), (False, 0), (True, 48623), (False, 1923001), (True, 2809), (False, 31892), (False, 1959275), (True, 10076), (True, 6620008), (False, 410458), (True, 27091), (True, 12124309), (False, 1209518), (True, 7626480), (True, 16173864), (True, 9167279), (False, 2415929), (False, 157326), (False, 43848), (False, 772129)]), (3, [(True, 0), (True, 0), (False, 9), (False, 1962280), (False, 759406), (True, 39540078), (True, 23851430), (False, 1238967), (False, 241386), (True, 35780708), (True, 9952670), (True, 48430), (True, 26385370), (False, 260748), (True, 8964225), (False, 129987), (False, 20897), (False, 352187), (False, 618830), (False, 682383)]), (5, [(True, 0), (True, 0), (True, 168), (False, 150906), (True, 2909214), (True, 24435422), (True, 18629166), (False, 3623), (False, 1643801), (False, 1760110), (True, 753470), (False, 1735297), (True, 15313), (True, 32213975), (False, 1326486), (False, 42074), (False, 63122), (False, 326652), (False, 1007364)]), (5081, [(True, 0), (True, 0), (True, 168), (True, 2565406), (False, 617443), (False, 6308), (False, 381109), (False, 1047284), (False, 166774)])]"])
    (simp_all add: prime_2 prime_3 prime_5 prime_5081)

lemma prime_118669: "is_prime 118669"
  by (rule lucas_cert [of 118669 2 "[(True, 0), (True, 0), (True, 0), (False, 0), (False, 2262), (True, 643), (True, 16407), (True, 106), (True, 210687), (True, 29906), (False, 113657), (False, 534), (False, 13565), (True, 204462), (True, 169866), (False, 56824), (False, 118667)]"
      "[2, 2, 3, 11, 29, 31]" "[(2, [(True, 0), (True, 0), (True, 0), (False, 0), (False, 2262), (True, 643), (True, 16407), (True, 106), (True, 210687), (True, 29906), (False, 113657), (False, 534), (False, 13565), (True, 204462), (True, 169866), (False, 56824)]), (3, [(True, 0), (False, 0), (False, 0), (True, 0), (True, 4), (False, 20741), (True, 22842), (False, 22048), (True, 215173), (False, 3168), (False, 38382), (False, 1126), (False, 56213), (True, 71487), (False, 4065), (False, 43369)]), (11, [(True, 0), (False, 0), (True, 0), (False, 0), (True, 17), (False, 53633), (False, 110215), (False, 3597), (True, 10139), (False, 30922), (False, 68425), (True, 73405), (False, 17898), (False, 45904)]), (29, [(True, 0), (True, 0), (True, 0), (True, 0), (True, 18096), (True, 41168), (True, 162390), (True, 212507), (True, 152158), (True, 8819), (False, 55071), (False, 18442)]), (31, [(True, 0), (True, 0), (True, 0), (False, 0), (True, 4524), (True, 2573), (True, 634), (True, 27377), (False, 4700), (True, 214674), (False, 32117), (False, 14459)])]"])
    (simp_all add: prime_2 prime_3 prime_11 prime_29 prime_31)

lemma prime_2848057: "is_prime 2848057"
  by (rule lucas_cert [of 2848057 5 "[(True, 0), (False, 0), (True, 0), (False, 3), (True, 2619241), (True, 5108571), (False, 33027), (True, 1373975), (True, 5041155), (True, 5234045), (False, 910762), (True, 3560758), (False, 1746966), (True, 4632493), (False, 3573), (False, 75913), (True, 6004319), (True, 1112985), (True, 12293945), (False, 204548), (False, 752920), (False, 2848055)]"
      "[2, 2, 2, 3, 118669]" "[(2, [(True, 0), (False, 0), (True, 0), (False, 3), (True, 2619241), (True, 5108571), (False, 33027), (True, 1373975), (True, 5041155), (True, 5234045), (False, 910762), (True, 3560758), (False, 1746966), (True, 4632493), (False, 3573), (False, 75913), (True, 6004319), (True, 1112985), (True, 12293945), (False, 204548), (False, 752920)]), (3, [(True, 0), (True, 0), (True, 0), (False, 2143), (False, 5885), (True, 12809871), (True, 5727074), (True, 294540), (True, 9152177), (True, 12968561), (False, 2455), (False, 970393), (False, 1550194), (True, 564285), (True, 171525), (False, 2514713), (True, 400047), (False, 703735), (False, 2586597), (False, 2769949)]), (118669, [(True, 0), (True, 0), (False, 0), (False, 85), (False, 1483899)])]"])
    (simp_all add: prime_2 prime_3 prime_118669)

lemma prime_3325901: "is_prime 3325901"
  by (rule lucas_cert [of 3325901 3 "[(True, 0), (True, 0), (False, 0), (False, 0), (True, 254754), (False, 1234263), (True, 7299), (False, 744802), (True, 1919691), (True, 2006955), (True, 46903), (True, 5250559), (True, 9834985), (True, 9763), (True, 805295), (True, 629941), (False, 1083354), (False, 254779), (True, 46418), (True, 1081300), (False, 2761284), (False, 3325899)]"
      "[2, 2, 5, 5, 79, 421]" "[(2, [(True, 0), (True, 0), (False, 0), (False, 0), (True, 254754), (False, 1234263), (True, 7299), (False, 744802), (True, 1919691), (True, 2006955), (True, 46903), (True, 5250559), (True, 9834985), (True, 9763), (True, 805295), (True, 629941), (False, 1083354), (False, 254779), (True, 46418), (True, 1081300), (False, 2761284)]), (5, [(True, 0), (False, 0), (True, 0), (False, 0), (False, 1048), (False, 462424), (True, 8223352), (False, 2183003), (False, 1641887), (True, 4127334), (True, 851905), (False, 2934952), (False, 3027838), (True, 157864), (False, 2527), (True, 1778132), (True, 1528132), (True, 2446539), (False, 312280), (False, 558654)]), (79, [(True, 0), (False, 0), (True, 0), (False, 0), (False, 1048), (True, 1387274), (False, 1741042), (False, 616361), (False, 348127), (True, 91995), (True, 157491), (True, 1786480), (False, 743619), (True, 7222739), (False, 171780), (False, 1997569)]), (421, [(True, 0), (True, 0), (True, 0), (True, 4), (False, 328530), (True, 10188), (True, 1763234), (False, 2209524), (True, 645823), (True, 2439155), (True, 7181667), (False, 1325729), (False, 117664)])]"])
    (simp_all add: prime_2 prime_5 prime_79 prime_421)

lemma prime_3883903: "is_prime 3883903"
  by (rule lucas_cert [of 3883903 3 "[(True, 0), (True, 0), (True, 0), (False, 1), (True, 624361), (True, 1637669), (False, 2378785), (True, 9080909), (False, 189655), (False, 777797), (False, 1876074), (False, 250150), (True, 5987759), (True, 2384199), (False, 24575), (True, 394538), (True, 4282504), (True, 7184536), (True, 180312), (True, 2920094), (True, 272427), (False, 3883901)]"
      "[2, 3, 11, 83, 709]" "[(2, [(True, 0), (True, 0), (True, 0), (False, 1), (True, 624361), (True, 1637669), (False, 2378785), (True, 9080909), (False, 189655), (False, 777797), (False, 1876074), (False, 250150), (True, 5987759), (True, 2384199), (False, 24575), (True, 394538), (True, 4282504), (True, 7184536), (True, 180312), (True, 2920094), (True, 272427)]), (3, [(True, 0), (False, 0), (False, 0), (True, 0), (True, 299), (True, 733482), (True, 4458235), (False, 2933026), (False, 824942), (False, 558051), (False, 285581), (False, 1432734), (True, 5886873), (False, 946978), (False, 569532), (True, 382962), (False, 549179), (True, 6820400), (False, 3119683), (True, 68106), (False, 2306581)]), (11, [(True, 0), (False, 0), (True, 0), (False, 0), (True, 2693), (True, 776168), (False, 41945), (False, 1052716), (False, 2279000), (True, 1581041), (True, 7718632), (False, 26053), (False, 2062012), (True, 3179966), (True, 2434175), (True, 1505341), (False, 30300), (True, 97619), (False, 6269)]), (83, [(True, 0), (False, 0), (True, 0), (True, 0), (False, 8079), (True, 6985512), (True, 10192761), (False, 1013668), (True, 2871285), (True, 4842954), (False, 3459586), (False, 13377), (True, 5161209), (False, 135237), (True, 354638), (False, 240585)]), (709, [(True, 0), (False, 0), (True, 0), (False, 0), (True, 2693), (False, 258722), (True, 5730684), (True, 2993567), (False, 253222), (False, 268955), (True, 1288692), (True, 2912844), (False, 2188099)])]"])
    (simp_all add: prime_2 prime_3 prime_11 prime_83 prime_709)

lemma prime_2473: "is_prime 2473"
  by (rule lucas_cert [of 2473 5 "[(True, 0), (False, 0), (False, 0), (True, 789), (True, 7515), (False, 709), (True, 10399), (False, 2315), (True, 4274), (False, 386), (False, 1468), (False, 2471)]"
      "[2, 2, 2, 3, 103]" "[(2, [(True, 0), (False, 0), (False, 0), (True, 789), (True, 7515), (False, 709), (True, 10399), (False, 2315), (True, 4274), (False, 386), (False, 1468)]), (3, [(True, 0), (True, 0), (False, 6), (False, 250), (True, 2531), (True, 5451), (True, 499), (False, 419), (False, 7), (False, 859)]), (103, [(True, 0), (True, 0), (False, 6), (False, 250), (False, 506)])]"])
    (simp_all add: prime_2 prime_3 prime_103)

lemma prime_4535483: "is_prime 4535483"
  by (rule lucas_cert [of 4535483 2 "[(True, 0), (False, 0), (False, 0), (False, 0), (True, 0), (False, 3787), (True, 7038072), (False, 155263), (False, 6018), (True, 939362), (True, 531705), (False, 1747208), (True, 562976), (False, 1423191), (False, 2237915), (True, 5285116), (False, 777723), (True, 43523), (True, 6989203), (True, 1465597), (False, 514), (True, 2389832), (False, 4535481)]"
      "[2, 7, 131, 2473]" "[(2, [(True, 0), (False, 0), (False, 0), (False, 0), (True, 0), (False, 3787), (True, 7038072), (False, 155263), (False, 6018), (True, 939362), (True, 531705), (False, 1747208), (True, 562976), (False, 1423191), (False, 2237915), (True, 5285116), (False, 777723), (True, 43523), (True, 6989203), (True, 1465597), (False, 514), (True, 2389832)]), (7, [(True, 0), (False, 0), (False, 0), (True, 0), (True, 0), (True, 121212), (True, 317469), (False, 968263), (False, 2222854), (False, 108377), (True, 1717111), (False, 90967), (True, 1988552), (True, 8281314), (True, 4050855), (True, 8522524), (False, 586779), (True, 3322474), (True, 9058462), (False, 441037)]), (131, [(True, 0), (False, 0), (False, 0), (False, 0), (False, 0), (True, 1893), (True, 8022322), (True, 2706730), (False, 653385), (False, 259946), (True, 119495), (True, 7531931), (True, 3535520), (True, 4854342), (True, 2727488), (False, 726873)]), (2473, [(True, 0), (True, 0), (True, 0), (False, 0), (False, 59), (True, 312599), (False, 1339757), (True, 1357252), (False, 2317059), (True, 29589), (False, 882424)])]"])
    (simp_all add: prime_2 prime_7 prime_131 prime_2473)

lemma prime_5296409: "is_prime 5296409"
  by (rule lucas_cert [of 5296409 3 "[(True, 0), (False, 0), (True, 0), (False, 0), (False, 658), (False, 576425), (False, 342073), (True, 175352), (True, 7466291), (False, 82407), (True, 15162515), (False, 3911791), (False, 276882), (False, 3578433), (True, 10532021), (False, 3001254), (False, 5236726), (False, 42126), (True, 4192125), (True, 15696071), (False, 1987817), (False, 29032), (False, 5296407)]"
      "[2, 2, 2, 13, 127, 401]" "[(2, [(True, 0), (False, 0), (True, 0), (False, 0), (False, 658), (False, 576425), (False, 342073), (True, 175352), (True, 7466291), (False, 82407), (True, 15162515), (False, 3911791), (False, 276882), (False, 3578433), (True, 10532021), (False, 3001254), (False, 5236726), (False, 42126), (True, 4192125), (True, 15696071), (False, 1987817), (False, 29032)]), (13, [(True, 0), (True, 0), (False, 0), (False, 0), (False, 53324), (True, 8278285), (True, 560895), (False, 1096833), (True, 12981536), (True, 9219878), (True, 7881622), (False, 420354), (True, 1578970), (True, 1999920), (True, 2806691), (True, 13049334), (False, 3761238), (False, 197306), (False, 6739)]), (127, [(True, 0), (False, 0), (True, 0), (False, 0), (False, 658), (False, 576425), (True, 1026219), (False, 526058), (True, 50668), (True, 238941), (True, 2270686), (False, 4409651), (True, 4042491), (False, 1641098), (False, 3321337), (False, 2273789)]), (401, [(True, 0), (True, 0), (False, 0), (False, 0), (True, 159974), (True, 434734), (True, 7585818), (False, 3924467), (False, 720620), (True, 5733156), (True, 149113), (False, 863006), (False, 567007), (False, 3534935)])]"])
    (simp_all add: prime_2 prime_13 prime_127 prime_401)

lemma prime_1237: "is_prime 1237"
  by (rule lucas_cert [of 1237 2 "[(True, 0), (False, 0), (False, 0), (True, 0), (True, 423), (False, 869), (True, 279), (False, 790), (True, 1283), (False, 385), (False, 1235)]"
      "[2, 2, 3, 103]" "[(2, [(True, 0), (False, 0), (False, 0), (True, 0), (True, 423), (False, 869), (True, 279), (False, 790), (True, 1283), (False, 385)]), (3, [(True, 0), (True, 0), (False, 0), (False, 3), (True, 239), (True, 1052), (True, 2228), (False, 215), (False, 73)]), (103, [(True, 0), (True, 0), (False, 0), (False, 3)])]"])
    (simp_all add: prime_2 prime_3 prime_103)

lemma prime_309251: "is_prime 309251"
  by (rule lucas_cert [of 309251 2 "[(True, 0), (False, 0), (False, 0), (True, 0), (False, 0), (True, 444425), (True, 39142), (True, 12393), (False, 53568), (False, 7799), (False, 183503), (False, 257418), (False, 78381), (False, 262374), (False, 32742), (False, 29574), (False, 17176), (True, 53258), (False, 309249)]"
      "[2, 5, 5, 5, 1237]" "[(2, [(True, 0), (False, 0), (False, 0), (True, 0), (False, 0), (True, 444425), (True, 39142), (True, 12393), (False, 53568), (False, 7799), (False, 183503), (False, 257418), (False, 78381), (False, 262374), (False, 32742), (False, 29574), (False, 17176), (True, 53258)]), (5, [(True, 0), (True, 0), (True, 0), (True, 0), (False, 3472), (False, 1615), (False, 95151), (True, 48523), (True, 445724), (False, 216469), (False, 2541), (True, 459586), (True, 342360), (False, 255489), (True, 357168), (False, 62370)]), (1237, [(True, 0), (True, 0), (True, 0), (True, 0), (True, 6944), (False, 6462), (True, 29600), (False, 286834)])]"])
    (simp_all add: prime_2 prime_5 prime_1237)

lemma prime_6185021: "is_prime 6185021"
  by (rule lucas_cert [of 6185021 2 "[(True, 0), (False, 0), (True, 0), (True, 0), (True, 1), (True, 1570179), (False, 250359), (False, 1894516), (True, 11865482), (True, 7463071), (False, 922194), (False, 293811), (False, 1990992), (False, 1364290), (False, 1305720), (False, 229139), (False, 2071770), (True, 3479872), (True, 4055836), (True, 9073791), (True, 3664), (False, 5766504), (False, 6185019)]"
      "[2, 2, 5, 309251]" "[(2, [(True, 0), (False, 0), (True, 0), (True, 0), (True, 1), (True, 1570179), (False, 250359), (False, 1894516), (True, 11865482), (True, 7463071), (False, 922194), (False, 293811), (False, 1990992), (False, 1364290), (False, 1305720), (False, 229139), (False, 2071770), (True, 3479872), (True, 4055836), (True, 9073791), (True, 3664), (False, 5766504)]), (5, [(True, 0), (False, 0), (False, 0), (True, 0), (False, 0), (True, 22221), (True, 829702), (True, 212881), (False, 390093), (False, 3110890), (False, 5972858), (False, 662454), (False, 3532353), (False, 88079), (False, 617891), (False, 2985851), (False, 188392), (True, 4734123), (True, 3835583), (False, 5910508), (False, 1441753)]), (309251, [(True, 0), (False, 0), (True, 0), (False, 0), (False, 0)])]"])
    (simp_all add: prime_2 prime_5 prime_309251)

lemma prime_7222661: "is_prime 7222661"
  by (rule lucas_cert [of 7222661 2 "[(True, 0), (True, 0), (False, 0), (True, 0), (True, 18), (True, 4907517), (False, 4365279), (False, 614393), (False, 40781), (True, 7656345), (True, 248774), (False, 822730), (True, 3199767), (False, 663165), (True, 167245), (True, 536747), (False, 5576242), (False, 729952), (False, 1561087), (False, 287073), (True, 1109964), (False, 1434144), (False, 7222659)]"
      "[2, 2, 5, 19, 83, 229]" "[(2, [(True, 0), (True, 0), (False, 0), (True, 0), (True, 18), (True, 4907517), (False, 4365279), (False, 614393), (False, 40781), (True, 7656345), (True, 248774), (False, 822730), (True, 3199767), (False, 663165), (True, 167245), (True, 536747), (False, 5576242), (False, 729952), (False, 1561087), (False, 287073), (True, 1109964), (False, 1434144)]), (5, [(True, 0), (False, 0), (True, 0), (True, 0), (False, 0), (False, 2435693), (False, 201151), (False, 5434035), (False, 864715), (True, 1713078), (False, 971519), (True, 6654102), (False, 977486), (True, 2264238), (False, 2890), (True, 672181), (True, 5352796), (False, 101053), (True, 506340), (False, 1155), (False, 2339571)]), (19, [(True, 0), (False, 0), (True, 0), (True, 0), (True, 1), (False, 188217), (False, 3218429), (True, 11140299), (True, 355342), (False, 6249307), (False, 2082688), (True, 3236838), (True, 7070541), (True, 3567107), (False, 3729207), (True, 5747271), (True, 145740), (False, 1365890), (False, 4111549)]), (83, [(True, 0), (False, 0), (True, 0), (False, 0), (True, 0), (False, 608923), (False, 614656), (True, 463937), (True, 8015162), (True, 3184517), (True, 7423104), (True, 1109293), (False, 3812334), (True, 7486), (True, 3661667), (False, 3505219), (False, 425)]), (229, [(True, 0), (True, 0), (True, 0), (True, 0), (False, 148), (True, 6348049), (True, 8235807), (False, 510644), (False, 17760), (True, 1082612), (True, 4674137), (False, 459440), (True, 4103609), (False, 683713), (False, 1597766)])]"])
    (simp_all add: prime_2 prime_5 prime_19 prime_83 prime_229)

lemma prime_8434427: "is_prime 8434427"
  by (rule lucas_cert [of 8434427 2 "[(True, 0), (False, 0), (False, 0), (False, 0), (False, 0), (False, 509), (False, 403129), (False, 35102), (True, 14602168), (False, 3090604), (True, 4375272), (True, 2313240), (False, 236839), (False, 7300803), (True, 1804165), (False, 380199), (True, 11434056), (True, 7735246), (True, 6919615), (True, 4455243), (True, 7914483), (False, 6271159), (True, 603026), (False, 8434425)]"
      "[2, 7, 11, 11, 13, 383]" "[(2, [(True, 0), (False, 0), (False, 0), (False, 0), (False, 0), (False, 509), (False, 403129), (False, 35102), (True, 14602168), (False, 3090604), (True, 4375272), (True, 2313240), (False, 236839), (False, 7300803), (True, 1804165), (False, 380199), (True, 11434056), (True, 7735246), (True, 6919615), (True, 4455243), (True, 7914483), (False, 6271159), (True, 603026)]), (7, [(True, 0), (False, 0), (False, 0), (True, 0), (False, 0), (False, 8147), (True, 4182791), (True, 15591), (False, 631083), (False, 611574), (False, 30087), (True, 7218479), (False, 676056), (True, 1626439), (False, 167), (True, 7400952), (True, 906113), (False, 2598425), (True, 202473), (True, 14619065), (False, 3955321)]), (11, [(True, 0), (False, 0), (True, 0), (True, 0), (True, 0), (False, 8343037), (True, 13851180), (True, 4268119), (False, 335979), (False, 246784), (True, 7259127), (True, 14209674), (False, 7564906), (False, 2242941), (True, 898768), (False, 2641797), (True, 452), (True, 2133618), (True, 2095229), (False, 1366906)]), (13, [(True, 0), (False, 0), (False, 0), (True, 0), (True, 0), (True, 65179), (True, 16321479), (False, 7543467), (False, 347855), (True, 19985), (True, 3030339), (False, 1420437), (False, 2661111), (True, 990398), (True, 4328454), (False, 2614249), (False, 342), (False, 6477873), (True, 15325191), (False, 2966977)]), (383, [(True, 0), (False, 0), (True, 0), (False, 0), (True, 0), (True, 1042879), (False, 4597108), (False, 21770), (False, 733495), (False, 4988162), (False, 5807335), (False, 5188173), (True, 3324542), (True, 10286464), (False, 2375104)])]"])
    (simp_all add: prime_2 prime_7 prime_11 prime_13 prime_383)

lemma prime_13063: "is_prime 13063"
  by (rule lucas_cert [of 13063 5 "[(True, 0), (True, 0), (False, 1), (False, 502), (True, 14798), (True, 49273), (False, 2216), (False, 4367), (False, 218), (False, 198), (False, 2423), (True, 19), (True, 34166), (False, 13061)]"
      "[2, 3, 7, 311]" "[(2, [(True, 0), (True, 0), (False, 1), (False, 502), (True, 14798), (True, 49273), (False, 2216), (False, 4367), (False, 218), (False, 198), (False, 2423), (True, 19), (True, 34166)]), (3, [(True, 0), (False, 0), (False, 0), (False, 29), (True, 53277), (False, 3303), (False, 1670), (False, 11721), (False, 1517), (False, 12226), (False, 8938), (True, 60208), (False, 10507)]), (7, [(True, 0), (True, 0), (True, 5), (False, 12561), (True, 52907), (False, 9438), (False, 7998), (True, 49830), (False, 9619), (True, 47185), (False, 2223)]), (311, [(True, 0), (False, 0), (True, 0), (False, 747), (True, 21899), (False, 1130)])]"])
    (simp_all add: prime_2 prime_3 prime_7 prime_311)

lemma prime_9849503: "is_prime 9849503"
  by (rule lucas_cert [of 9849503 5 "[(True, 0), (False, 0), (False, 0), (True, 0), (False, 387298), (True, 10064880), (True, 546073), (False, 7394899), (False, 3519395), (True, 971850), (False, 1181914), (False, 70984), (True, 4815711), (False, 9472352), (True, 2530134), (False, 8319884), (True, 1738518), (False, 6539264), (False, 2966357), (True, 24895321), (True, 10915328), (True, 11768556), (True, 10830281), (False, 9849501)]"
      "[2, 13, 29, 13063]" "[(2, [(True, 0), (False, 0), (False, 0), (True, 0), (False, 387298), (True, 10064880), (True, 546073), (False, 7394899), (False, 3519395), (True, 971850), (False, 1181914), (False, 70984), (True, 4815711), (False, 9472352), (True, 2530134), (False, 8319884), (True, 1738518), (False, 6539264), (False, 2966357), (True, 24895321), (True, 10915328), (True, 11768556), (True, 10830281)]), (13, [(True, 0), (False, 0), (True, 0), (True, 4), (True, 45142902), (False, 5389898), (False, 2544931), (False, 7160122), (True, 20556628), (True, 669738), (True, 25858010), (True, 35587045), (True, 20301160), (False, 4116644), (False, 2980427), (True, 25438020), (False, 4293596), (True, 3648282), (True, 78354), (False, 382630)]), (29, [(True, 0), (False, 0), (True, 0), (False, 0), (False, 9682461), (True, 4489130), (False, 6514743), (True, 32995878), (True, 23594730), (True, 30734644), (False, 1519940), (True, 394394), (False, 27879), (True, 17138253), (True, 1348849), (False, 425239), (True, 23758199), (True, 41604062), (False, 1602054)]), (13063, [(True, 0), (False, 0), (True, 0), (True, 4), (True, 45142902), (True, 26949492), (False, 2888768), (False, 979676), (True, 31334188), (False, 1401090)])]"])
    (simp_all add: prime_2 prime_13 prime_29 prime_13063)

lemma prime_5281: "is_prime 5281"
  by (rule lucas_cert [of 5281 7 "[(True, 0), (False, 0), (True, 3), (False, 175), (False, 4965), (True, 26555), (False, 4880), (True, 28648), (False, 1018), (False, 549), (False, 167), (False, 529), (False, 5279)]"
      "[2, 2, 2, 2, 2, 3, 5, 11]" "[(2, [(True, 0), (False, 0), (True, 3), (False, 175), (False, 4965), (True, 26555), (False, 4880), (True, 28648), (False, 1018), (False, 549), (False, 167), (False, 529)]), (3, [(True, 0), (True, 0), (False, 22), (True, 2852), (True, 13666), (True, 16246), (False, 2852), (False, 106), (False, 279), (False, 1512), (False, 373)]), (5, [(True, 0), (False, 0), (False, 0), (False, 1091), (False, 1975), (True, 11340), (False, 1521), (False, 4406), (False, 1581), (False, 1526), (False, 235)]), (11, [(True, 0), (True, 0), (True, 155), (True, 32978), (False, 3324), (False, 800), (False, 1033), (False, 498), (False, 3325)])]"])
    (simp_all add: prime_2 prime_3 prime_5 prime_11)

lemma prime_11502019: "is_prime 11502019"
  by (rule lucas_cert [of 11502019 3 "[(True, 0), (False, 0), (True, 0), (False, 0), (True, 909), (True, 6567449), (True, 579319), (True, 30106588), (True, 15825417), (False, 8804151), (False, 3818279), (False, 3831241), (False, 4065008), (False, 9498804), (False, 110181), (True, 5528789), (True, 14467372), (True, 2784699), (False, 5484844), (False, 2362592), (False, 7014689), (False, 9427158), (True, 25860846), (False, 11502017)]"
      "[2, 3, 3, 11, 11, 5281]" "[(2, [(True, 0), (False, 0), (True, 0), (False, 0), (True, 909), (True, 6567449), (True, 579319), (True, 30106588), (True, 15825417), (False, 8804151), (False, 3818279), (False, 3831241), (False, 4065008), (False, 9498804), (False, 110181), (True, 5528789), (True, 14467372), (True, 2784699), (False, 5484844), (False, 2362592), (False, 7014689), (False, 9427158), (True, 25860846)]), (3, [(True, 0), (True, 0), (True, 0), (False, 0), (True, 5966811), (False, 1304449), (True, 3467488), (False, 4538140), (False, 3010185), (False, 1676064), (False, 1112643), (False, 3947403), (False, 2959938), (False, 159250), (True, 52314), (False, 779335), (False, 435831), (True, 240822), (False, 102797), (True, 21926323), (True, 30027886), (False, 466689)]), (11, [(True, 0), (True, 0), (True, 0), (True, 1), (True, 2113917), (True, 32909), (True, 33385), (True, 14701231), (False, 247114), (True, 23935258), (False, 398226), (False, 9076976), (True, 21310654), (False, 2481936), (False, 9858080), (False, 675238), (False, 9859194), (True, 28975275), (True, 4215173), (False, 7172080)]), (5281, [(True, 0), (False, 0), (False, 0), (False, 0), (True, 11), (False, 595867), (False, 7996894), (False, 3588389), (False, 3539976), (False, 7081325), (True, 13931400), (False, 17237)])]"])
    (simp_all add: prime_2 prime_3 prime_11 prime_5281)

lemma prime_13431661: "is_prime 13431661"
  by (rule lucas_cert [of 13431661 17 "[(True, 0), (True, 0), (False, 1), (False, 8533305), (True, 47635241), (True, 36670402), (False, 3922909), (False, 7230827), (True, 220494738), (True, 620449), (True, 31230180), (True, 32133785), (False, 4080271), (False, 3350741), (True, 78264156), (True, 163827893), (False, 1920293), (True, 182631337), (True, 12651326), (False, 4679445), (True, 35133828), (True, 149238195), (False, 251769), (False, 13431659)]"
      "[2, 2, 3, 5, 11, 47, 433]" "[(2, [(True, 0), (True, 0), (False, 1), (False, 8533305), (True, 47635241), (True, 36670402), (False, 3922909), (False, 7230827), (True, 220494738), (True, 620449), (True, 31230180), (True, 32133785), (False, 4080271), (False, 3350741), (True, 78264156), (True, 163827893), (False, 1920293), (True, 182631337), (True, 12651326), (False, 4679445), (True, 35133828), (True, 149238195), (False, 251769)]), (3, [(True, 0), (False, 0), (False, 0), (False, 519), (True, 28261359), (False, 391591), (False, 3944296), (False, 4671507), (True, 83541593), (False, 8383950), (True, 123884259), (False, 9438540), (False, 11161845), (False, 1989850), (True, 59093920), (False, 2984574), (False, 1678844), (True, 225320742), (False, 3132297), (False, 3154059), (True, 30129842), (False, 738804), (False, 1538341)]), (5, [(True, 0), (False, 0), (True, 0), (False, 150092), (False, 6081070), (False, 10342842), (True, 157532581), (True, 35354498), (True, 59769856), (True, 110711052), (True, 9358535), (True, 51294993), (False, 5699437), (True, 27078625), (False, 4530325), (True, 72616264), (True, 73522424), (True, 225757084), (True, 186864590), (True, 144202848), (False, 9301850), (False, 1692395)]), (11, [(True, 0), (False, 0), (False, 0), (True, 8828), (False, 12919690), (True, 186061389), (False, 1735139), (True, 34786), (False, 2306748), (False, 1685046), (False, 10386174), (False, 742287), (True, 49113422), (True, 176624852), (True, 121586341), (False, 6453671), (False, 5330677), (False, 12244599), (True, 113205921), (False, 2293704), (False, 3249983)]), (47, [(True, 0), (False, 0), (False, 0), (False, 519), (True, 28261359), (False, 391591), (True, 67053042), (True, 150242), (True, 120479998), (False, 2649104), (False, 408072), (False, 182578), (True, 33464501), (False, 1192675), (True, 75514290), (False, 1644), (True, 1033682), (False, 81613), (False, 3305105)]), (433, [(True, 0), (True, 0), (True, 30), (True, 69099049), (False, 13262165), (False, 204335), (True, 156648), (False, 1200455), (False, 3804523), (True, 14155627), (False, 10386276), (True, 13175192), (True, 22909673), (False, 13338540), (False, 12361470)])]"])
    (simp_all add: prime_2 prime_3 prime_5 prime_11 prime_47 prime_433)

lemma prime_126493: "is_prime 126493"
  by (rule lucas_cert [of 126493 5 "[(True, 0), (True, 0), (True, 0), (True, 241259), (False, 93), (True, 123937), (True, 54653), (True, 29569), (False, 103622), (False, 15653), (False, 46963), (False, 33263), (True, 148518), (True, 604559), (True, 392264), (False, 49924), (False, 126491)]"
      "[2, 2, 3, 83, 127]" "[(2, [(True, 0), (True, 0), (True, 0), (True, 241259), (False, 93), (True, 123937), (True, 54653), (True, 29569), (False, 103622), (False, 15653), (False, 46963), (False, 33263), (True, 148518), (True, 604559), (True, 392264), (False, 49924)]), (3, [(True, 0), (False, 0), (True, 0), (False, 77), (False, 5206), (True, 553543), (False, 73650), (False, 69840), (True, 53999), (False, 53284), (True, 32314), (True, 12130), (False, 13635), (True, 3092), (False, 22855), (False, 91947)]), (83, [(True, 0), (False, 0), (True, 0), (True, 386), (True, 131), (True, 560337), (True, 327898), (False, 112876), (True, 223609), (False, 102), (False, 105239)]), (127, [(True, 0), (True, 0), (True, 0), (True, 241259), (True, 467), (False, 5758), (False, 27919), (True, 4162), (False, 49781), (False, 94414)])]"])
    (simp_all add: prime_2 prime_3 prime_83 prime_127)

lemma prime_15685133: "is_prime 15685133"
  by (rule lucas_cert [of 15685133 2 "[(True, 0), (True, 0), (True, 0), (False, 0), (True, 34), (True, 1630915), (True, 18908558), (True, 10286604), (False, 1021839), (True, 16431891), (False, 407388), (True, 28022636), (False, 542367), (True, 3663051), (True, 4499693), (False, 11095162), (False, 6159957), (False, 11614023), (False, 234799), (False, 569462), (True, 22697107), (True, 4194360), (False, 1132344), (False, 15685131)]"
      "[2, 2, 31, 126493]" "[(2, [(True, 0), (True, 0), (True, 0), (False, 0), (True, 34), (True, 1630915), (True, 18908558), (True, 10286604), (False, 1021839), (True, 16431891), (False, 407388), (True, 28022636), (False, 542367), (True, 3663051), (True, 4499693), (False, 11095162), (False, 6159957), (False, 11614023), (False, 234799), (False, 569462), (True, 22697107), (True, 4194360), (False, 1132344)]), (31, [(True, 0), (True, 0), (True, 0), (True, 0), (False, 68), (True, 6523663), (True, 349091), (True, 824699), (False, 1826260), (False, 1010226), (False, 1890870), (False, 5313666), (True, 1146102), (True, 184339), (True, 29153083), (False, 822813), (True, 975655), (False, 947009), (False, 5244801)]), (126493, [(True, 0), (True, 0), (True, 0), (True, 0), (True, 136), (False, 13047326), (False, 698182)])]"])
    (simp_all add: prime_2 prime_31 prime_126493)

lemma prime_2711: "is_prime 2711"
  by (rule lucas_cert [of 2711 7 "[(True, 0), (False, 0), (True, 6), (False, 107), (True, 17508), (False, 856), (False, 1417), (True, 32), (False, 2553), (True, 2469), (True, 9607), (False, 2709)]"
      "[2, 5, 271]" "[(2, [(True, 0), (False, 0), (True, 6), (False, 107), (True, 17508), (False, 856), (False, 1417), (True, 32), (False, 2553), (True, 2469), (True, 9607)]), (5, [(True, 0), (False, 0), (False, 0), (False, 2126), (False, 544), (True, 5361), (True, 7427), (True, 256), (True, 806), (False, 1953)]), (271, [(True, 0), (False, 0), (True, 6), (False, 107)])]"])
    (simp_all add: prime_2 prime_5 prime_271)

lemma prime_16267: "is_prime 16267"
  by (rule lucas_cert [of 16267 3 "[(True, 0), (True, 0), (True, 0), (True, 882), (True, 368), (True, 2196), (True, 6356), (False, 10183), (False, 15307), (False, 5467), (True, 26876), (False, 3607), (True, 51), (False, 16265)]"
      "[2, 3, 2711]" "[(2, [(True, 0), (True, 0), (True, 0), (True, 882), (True, 368), (True, 2196), (True, 6356), (False, 10183), (False, 15307), (False, 5467), (True, 26876), (False, 3607), (True, 51)]), (3, [(True, 0), (False, 0), (True, 0), (False, 3), (True, 19368), (False, 1698), (False, 1068), (True, 45713), (False, 3219), (True, 21098), (True, 26921), (True, 12), (False, 14713)]), (2711, [(True, 0), (True, 0), (False, 0)])]"])
    (simp_all add: prime_2 prime_3 prime_2711)

lemma prime_18316643: "is_prime 18316643"
  by (rule lucas_cert [of 18316643 2 "[(True, 0), (False, 0), (False, 0), (False, 0), (True, 0), (False, 937), (True, 32207875), (True, 13513698), (True, 30293446), (False, 17353354), (True, 7409107), (True, 13084997), (True, 2956017), (True, 1591373), (True, 347313), (False, 12271333), (True, 1190987), (False, 1187443), (True, 5228912), (True, 5733592), (False, 1047019), (False, 5325303), (False, 515201), (True, 19671760), (False, 18316641)]"
      "[2, 563, 16267]" "[(2, [(True, 0), (False, 0), (False, 0), (False, 0), (True, 0), (False, 937), (True, 32207875), (True, 13513698), (True, 30293446), (False, 17353354), (True, 7409107), (True, 13084997), (True, 2956017), (True, 1591373), (True, 347313), (False, 12271333), (True, 1190987), (False, 1187443), (True, 5228912), (True, 5733592), (False, 1047019), (False, 5325303), (False, 515201), (True, 19671760)]), (563, [(True, 0), (True, 0), (True, 0), (True, 0), (True, 117), (True, 2149061), (True, 7839988), (False, 2953996), (False, 591420), (False, 6606643), (True, 5373474), (False, 4155591), (True, 2384955), (True, 18237675), (False, 1113049)]), (16267, [(True, 0), (False, 0), (False, 0), (False, 0), (True, 0), (True, 1875), (False, 14033622), (False, 844548), (True, 24555521), (True, 29239204), (False, 2802173)])]"])
    (simp_all add: prime_2 prime_563 prime_16267)

lemma prime_26407: "is_prime 26407"
  by (rule lucas_cert [of 26407 5 "[(True, 0), (True, 0), (False, 0), (False, 9245), (True, 11846), (True, 101719), (True, 4338), (False, 20521), (False, 7205), (True, 27270), (False, 47), (False, 166), (True, 17646), (True, 80802), (False, 26405)]"
      "[2, 3, 3, 3, 3, 163]" "[(2, [(True, 0), (True, 0), (False, 0), (False, 9245), (True, 11846), (True, 101719), (True, 4338), (False, 20521), (False, 7205), (True, 27270), (False, 47), (False, 166), (True, 17646), (True, 80802)]), (3, [(True, 0), (False, 0), (False, 0), (False, 14), (True, 82921), (False, 122), (False, 4707), (True, 115994), (True, 7869), (False, 18936), (False, 9806), (False, 1113), (True, 9526), (False, 1)]), (163, [(True, 0), (False, 0), (True, 0), (False, 369), (False, 17410), (False, 6895), (True, 26234), (False, 16647)])]"])
    (simp_all add: prime_2 prime_3 prime_163)

lemma prime_21389671: "is_prime 21389671"
  by (rule lucas_cert [of 21389671 3 "[(True, 0), (False, 0), (True, 0), (False, 0), (False, 163), (False, 3358), (True, 21892228), (True, 55052531), (False, 11926389), (False, 20106536), (True, 1003960), (True, 23557069), (False, 106447), (False, 7292721), (False, 1841406), (False, 11183041), (True, 18635672), (False, 1696332), (True, 29560275), (True, 17971378), (False, 547064), (False, 1052637), (True, 6525151), (True, 3722403), (False, 21389669)]"
      "[2, 3, 3, 3, 3, 5, 26407]" "[(2, [(True, 0), (False, 0), (True, 0), (False, 0), (False, 163), (False, 3358), (True, 21892228), (True, 55052531), (False, 11926389), (False, 20106536), (True, 1003960), (True, 23557069), (False, 106447), (False, 7292721), (False, 1841406), (False, 11183041), (True, 18635672), (False, 1696332), (True, 29560275), (True, 17971378), (False, 547064), (False, 1052637), (True, 6525151), (True, 3722403)]), (3, [(True, 0), (True, 0), (False, 0), (True, 0), (True, 356508), (False, 3503017), (False, 10525764), (True, 26005898), (True, 6703859), (False, 2665038), (False, 5546056), (True, 13245559), (False, 9997060), (True, 114644), (True, 30251252), (False, 4941431), (False, 1414077), (True, 1522154), (False, 5277967), (False, 1097948), (False, 2012096), (True, 930600), (False, 8726281)]), (5, [(True, 0), (False, 0), (False, 0), (False, 0), (False, 2), (False, 3342), (True, 7370422), (False, 13369590), (True, 20132), (False, 7716548), (False, 1051056), (False, 8937554), (True, 35972511), (True, 51790714), (False, 230786), (True, 60908628), (False, 1459283), (True, 828087), (False, 17157781), (True, 42146944), (True, 12489197), (True, 7977963), (False, 6972873)]), (26407, [(True, 0), (True, 0), (False, 0), (False, 0), (True, 39612), (False, 43247), (True, 1120067), (False, 8962106), (True, 29840489), (False, 7825530)])]"])
    (simp_all add: prime_2 prime_3 prime_5 prime_26407)

lemma prime_42193: "is_prime 42193"
  by (rule lucas_cert [of 42193 15 "[(True, 0), (False, 0), (True, 17), (False, 41995), (False, 2276), (True, 285388), (False, 1315), (False, 26766), (True, 229324), (True, 25855), (False, 72), (True, 18067), (False, 35466), (False, 28897), (False, 5769), (False, 42191)]"
      "[2, 2, 2, 2, 3, 3, 293]" "[(2, [(True, 0), (False, 0), (True, 17), (False, 41995), (False, 2276), (True, 285388), (False, 1315), (False, 26766), (True, 229324), (True, 25855), (False, 72), (True, 18067), (False, 35466), (False, 28897), (False, 5769)]), (3, [(True, 0), (True, 0), (False, 269), (True, 589128), (True, 605097), (False, 670), (True, 179193), (True, 153305), (True, 4292), (True, 627685), (False, 24589), (False, 4), (False, 2445), (False, 181)]), (293, [(True, 0), (False, 0), (False, 1), (True, 25276), (False, 1959), (False, 1663), (False, 1218), (False, 7531)])]"])
    (simp_all add: prime_2 prime_3 prime_293)

lemma prime_24978257: "is_prime 24978257"
  by (rule lucas_cert [of 24978257 3 "[(True, 0), (False, 0), (True, 0), (True, 0), (True, 3769), (True, 1973), (True, 43375268), (False, 4713303), (True, 64479782), (False, 4692801), (False, 1666178), (True, 2214760), (False, 342606), (False, 53711), (False, 6102613), (True, 42221984), (True, 52157728), (False, 2734037), (True, 43176162), (False, 1532772), (True, 522), (False, 4287600), (False, 12161886), (False, 9410740), (False, 24978255)]"
      "[2, 2, 2, 2, 37, 42193]" "[(2, [(True, 0), (False, 0), (True, 0), (True, 0), (True, 3769), (True, 1973), (True, 43375268), (False, 4713303), (True, 64479782), (False, 4692801), (False, 1666178), (True, 2214760), (False, 342606), (False, 53711), (False, 6102613), (True, 42221984), (True, 52157728), (False, 2734037), (True, 43176162), (False, 1532772), (True, 522), (False, 4287600), (False, 12161886), (False, 9410740)]), (37, [(True, 0), (False, 0), (True, 0), (False, 0), (False, 139), (True, 26331426), (False, 8281535), (False, 4181904), (True, 3636723), (True, 53419088), (False, 3915), (True, 68819454), (False, 20869657), (False, 4353326), (False, 11129762), (True, 16991994), (False, 559498), (False, 1344139), (False, 4637872), (False, 16635133)]), (42193, [(True, 0), (False, 0), (False, 0), (True, 0), (False, 15), (True, 19514173), (False, 1772254), (False, 3118905), (False, 8279791), (False, 23389540)])]"])
    (simp_all add: prime_2 prime_37 prime_42193)

lemma prime_1427: "is_prime 1427"
  by (rule lucas_cert [of 1427 2 "[(True, 0), (False, 0), (True, 0), (True, 1), (False, 270), (False, 86), (True, 321), (False, 465), (False, 314), (True, 946), (False, 1425)]"
      "[2, 23, 31]" "[(2, [(True, 0), (False, 0), (True, 0), (True, 1), (False, 270), (False, 86), (True, 321), (False, 465), (False, 314), (True, 946)]), (23, [(True, 0), (True, 0), (True, 0), (True, 22), (True, 2645), (False, 1252)]), (31, [(True, 0), (False, 0), (True, 0), (True, 1), (True, 540), (False, 345)])]"])
    (simp_all add: prime_2 prime_23 prime_31)

lemma prime_28541: "is_prime 28541"
  by (rule lucas_cert [of 28541 2 "[(True, 0), (True, 0), (False, 0), (True, 0), (True, 4702), (True, 22568), (True, 1446), (False, 22936), (True, 51160), (True, 735), (True, 21620), (True, 288), (True, 33891), (False, 6009), (False, 28539)]"
      "[2, 2, 5, 1427]" "[(2, [(True, 0), (True, 0), (False, 0), (True, 0), (True, 4702), (True, 22568), (True, 1446), (False, 22936), (True, 51160), (True, 735), (True, 21620), (True, 288), (True, 33891), (False, 6009)]), (5, [(True, 0), (False, 0), (True, 0), (True, 0), (False, 146), (False, 26147), (True, 9424), (False, 3814), (False, 5904), (True, 48322), (True, 20246), (False, 18409), (False, 1627)]), (1427, [(True, 0), (False, 0), (True, 0), (False, 0), (False, 36)])]"])
    (simp_all add: prime_2 prime_5 prime_1427)

lemma prime_29168903: "is_prime 29168903"
  by (rule lucas_cert [of 29168903 5 "[(True, 0), (True, 0), (False, 0), (True, 41), (True, 105241245), (True, 121357704), (True, 48106598), (False, 8657135), (True, 35699372), (False, 161311), (False, 1952701), (False, 6594290), (True, 26978080), (False, 1023059), (True, 65671817), (False, 1406383), (True, 54576351), (False, 3256290), (False, 475902), (False, 93894), (False, 2376934), (False, 3452019), (True, 102081721), (True, 110787106), (False, 29168901)]"
      "[2, 7, 73, 28541]" "[(2, [(True, 0), (True, 0), (False, 0), (True, 41), (True, 105241245), (True, 121357704), (True, 48106598), (False, 8657135), (True, 35699372), (False, 161311), (False, 1952701), (False, 6594290), (True, 26978080), (False, 1023059), (True, 65671817), (False, 1406383), (True, 54576351), (False, 3256290), (False, 475902), (False, 93894), (False, 2376934), (False, 3452019), (True, 102081721), (True, 110787106)]), (7, [(True, 0), (True, 0), (True, 0), (True, 1046), (True, 8174310), (True, 2210345), (True, 32571489), (False, 585877), (False, 5499567), (True, 91361021), (False, 18626136), (True, 114464927), (False, 26997484), (True, 73276380), (False, 4810757), (True, 30361147), (False, 740278), (False, 8254468), (True, 5691428), (False, 8966889), (True, 366448), (False, 11470)]), (73, [(True, 0), (True, 0), (False, 0), (False, 8), (False, 3990934), (False, 1783856), (True, 1074119), (True, 3228694), (False, 10022416), (False, 18643583), (False, 15674126), (True, 3806106), (True, 31984835), (False, 7385913), (True, 8891510), (False, 17566375), (True, 1511020), (True, 14473739), (False, 246176)]), (28541, [(True, 0), (True, 0), (True, 0), (True, 1046), (True, 8174310), (True, 2210345), (True, 32571489), (True, 2929387), (True, 4268233), (False, 25444034)])]"])
    (simp_all add: prime_2 prime_7 prime_73 prime_28541)

lemma prime_1789: "is_prime 1789"
  by (rule lucas_cert [of 1789 6 "[(True, 0), (True, 0), (False, 26), (True, 67), (True, 4214), (True, 3353), (True, 7376), (True, 16), (True, 2019), (False, 633), (False, 1787)]"
      "[2, 2, 3, 149]" "[(2, [(True, 0), (True, 0), (False, 26), (True, 67), (True, 4214), (True, 3353), (True, 7376), (True, 16), (True, 2019), (False, 633)]), (3, [(True, 0), (False, 0), (False, 0), (True, 5633), (False, 37), (True, 2644), (False, 736), (True, 4829), (False, 472), (False, 13)]), (149, [(True, 0), (True, 0), (False, 26), (False, 11)])]"])
    (simp_all add: prime_2 prime_3 prime_149)

lemma prime_500921: "is_prime 500921"
  by (rule lucas_cert [of 500921 3 "[(True, 0), (True, 0), (True, 0), (True, 28), (False, 208427), (True, 1091420), (False, 139017), (False, 233343), (True, 582489), (False, 108843), (False, 2974), (True, 26524), (False, 155279), (True, 1305328), (True, 169554), (True, 77844), (False, 425953), (False, 258504), (False, 500919)]"
      "[2, 2, 2, 5, 7, 1789]" "[(2, [(True, 0), (True, 0), (True, 0), (True, 28), (False, 208427), (True, 1091420), (False, 139017), (False, 233343), (True, 582489), (False, 108843), (False, 2974), (True, 26524), (False, 155279), (True, 1305328), (True, 169554), (True, 77844), (False, 425953), (False, 258504)]), (5, [(True, 0), (True, 0), (False, 0), (False, 1), (False, 1859), (False, 133152), (True, 73961), (True, 716320), (True, 676822), (False, 474808), (True, 339045), (False, 44574), (True, 845233), (True, 148152), (False, 377025), (False, 2641), (False, 86588)]), (7, [(True, 0), (False, 0), (False, 0), (False, 0), (True, 257), (False, 324971), (True, 1323), (True, 207622), (True, 158594), (True, 52498), (False, 35297), (False, 305), (False, 7889), (True, 81600), (False, 358868), (False, 420112), (False, 291203)]), (1789, [(True, 0), (False, 0), (False, 0), (False, 0), (True, 257), (True, 974913), (False, 3970), (False, 6635), (False, 475782)])]"])
    (simp_all add: prime_2 prime_5 prime_7 prime_1789)

lemma prime_34062629: "is_prime 34062629"
  by (rule lucas_cert [of 34062629 2 "[(True, 0), (False, 0), (False, 0), (False, 0), (False, 0), (False, 126), (False, 277783), (True, 13412984), (True, 58442325), (True, 7673633), (True, 13054270), (True, 34340878), (False, 18173803), (False, 29121785), (False, 2515826), (False, 26626398), (False, 21916395), (True, 9437940), (False, 9498517), (False, 3952939), (True, 2718042), (False, 670714), (False, 33579929), (True, 6255004), (False, 5287104), (False, 34062627)]"
      "[2, 2, 17, 500921]" "[(2, [(True, 0), (False, 0), (False, 0), (False, 0), (False, 0), (False, 126), (False, 277783), (True, 13412984), (True, 58442325), (True, 7673633), (True, 13054270), (True, 34340878), (False, 18173803), (False, 29121785), (False, 2515826), (False, 26626398), (False, 21916395), (True, 9437940), (False, 9498517), (False, 3952939), (True, 2718042), (False, 670714), (False, 33579929), (True, 6255004), (False, 5287104)]), (17, [(True, 0), (True, 0), (True, 0), (True, 0), (False, 31), (True, 18604058), (False, 6311807), (False, 18733999), (True, 48658512), (False, 7566149), (False, 21293744), (True, 66548425), (False, 9247643), (True, 60349927), (True, 33019050), (True, 1292610), (False, 32219618), (False, 24690458), (True, 10619865), (False, 24596801), (False, 8016383)]), (500921, [(True, 0), (False, 0), (False, 0), (False, 0), (True, 0), (False, 504), (False, 4444535)])]"])
    (simp_all add: prime_2 prime_17 prime_500921)

lemma prime_441971: "is_prime 441971"
  by (rule lucas_cert [of 441971 2 "[(True, 0), (True, 0), (False, 0), (True, 0), (False, 151), (True, 623667), (True, 26), (True, 820117), (True, 393016), (True, 722271), (False, 2973), (False, 54511), (True, 542811), (True, 232802), (True, 131141), (False, 11886), (False, 117675), (True, 95930), (False, 441969)]"
      "[2, 5, 193, 229]" "[(2, [(True, 0), (True, 0), (False, 0), (True, 0), (False, 151), (True, 623667), (True, 26), (True, 820117), (True, 393016), (True, 722271), (False, 2973), (False, 54511), (True, 542811), (True, 232802), (True, 131141), (False, 11886), (False, 117675), (True, 95930)]), (5, [(True, 0), (False, 0), (True, 0), (False, 0), (True, 4), (True, 490608), (False, 236463), (False, 65255), (True, 696507), (False, 271894), (True, 821023), (False, 52598), (False, 63), (True, 348809), (False, 2685), (True, 454943), (False, 120002)]), (193, [(True, 0), (False, 0), (False, 0), (False, 0), (True, 0), (True, 77742), (True, 3775), (True, 591253), (False, 24715), (False, 11716), (True, 54123), (False, 67372)]), (229, [(True, 0), (True, 0), (True, 0), (True, 0), (False, 2429), (False, 85387), (False, 220882), (True, 446966), (False, 263192), (True, 14400), (False, 135909)])]"])
    (simp_all add: prime_2 prime_5 prime_193 prime_229)

lemma prime_39777391: "is_prime 39777391"
  by (rule lucas_cert [of 39777391 11 "[(True, 0), (False, 0), (False, 0), (True, 59), (False, 3087239), (True, 307341180), (True, 21954374), (True, 2904861), (True, 141280561), (False, 11219341), (True, 276012692), (True, 5284247), (True, 324584090), (True, 119507377), (False, 39345555), (True, 84829996), (False, 4070779), (False, 10869248), (False, 8627709), (True, 148592514), (True, 16887248), (False, 8198854), (True, 45067311), (True, 26024243), (True, 260849619), (False, 39777389)]"
      "[2, 3, 3, 5, 441971]" "[(2, [(True, 0), (False, 0), (False, 0), (True, 59), (False, 3087239), (True, 307341180), (True, 21954374), (True, 2904861), (True, 141280561), (False, 11219341), (True, 276012692), (True, 5284247), (True, 324584090), (True, 119507377), (False, 39345555), (True, 84829996), (False, 4070779), (False, 10869248), (False, 8627709), (True, 148592514), (True, 16887248), (False, 8198854), (True, 45067311), (True, 26024243), (True, 260849619)]), (3, [(True, 0), (True, 0), (False, 0), (False, 78899), (True, 283250488), (False, 24211815), (True, 14628399), (False, 27501150), (False, 2049401), (True, 94714705), (False, 439847), (True, 80420974), (False, 29346524), (False, 35950070), (False, 14575967), (True, 74231278), (False, 1631978), (True, 325801696), (True, 129693583), (True, 348776277), (True, 53379311), (False, 21091227), (True, 375099862), (False, 906033)]), (5, [(True, 0), (True, 0), (True, 0), (True, 105015639), (False, 32216356), (False, 37893475), (True, 183509916), (False, 36752368), (True, 358594), (True, 16646528), (False, 4897780), (False, 15053234), (True, 239519056), (False, 32369965), (False, 10542932), (False, 17440295), (False, 113756), (False, 15287828), (True, 73622265), (False, 7608038), (True, 35566453), (True, 6098563), (False, 9417849)]), (441971, [(True, 0), (False, 0), (True, 0), (True, 7172), (False, 20023976), (True, 170058750), (False, 16208059)])]"])
    (simp_all add: prime_2 prime_3 prime_5 prime_441971)

lemma prime_1361: "is_prime 1361"
  by (rule lucas_cert [of 1361 3 "[(True, 0), (False, 0), (True, 0), (False, 43), (True, 609), (False, 1021), (True, 466), (False, 242), (False, 9), (False, 409), (False, 1359)]"
      "[2, 2, 2, 2, 5, 17]" "[(2, [(True, 0), (False, 0), (True, 0), (False, 43), (True, 609), (False, 1021), (True, 466), (False, 242), (False, 9), (False, 409)]), (5, [(True, 0), (False, 0), (False, 0), (False, 4), (True, 2750), (False, 73), (False, 948), (False, 52), (False, 813)]), (17, [(True, 0), (False, 0), (True, 0), (False, 43), (False, 203), (False, 113), (False, 316)])]"])
    (simp_all add: prime_2 prime_5 prime_17)

lemma prime_3413: "is_prime 3413"
  by (rule lucas_cert [of 3413 2 "[(True, 0), (True, 0), (False, 0), (True, 2), (False, 546), (True, 3540), (False, 666), (True, 593), (False, 7), (True, 4202), (False, 1104), (False, 3411)]"
      "[2, 2, 853]" "[(2, [(True, 0), (True, 0), (False, 0), (True, 2), (False, 546), (True, 3540), (False, 666), (True, 593), (False, 7), (True, 4202), (False, 1104)]), (853, [(True, 0), (False, 0), (False, 0)])]"])
    (simp_all add: prime_2 prime_853)

lemma prime_46450931: "is_prime 46450931"
  by (rule lucas_cert [of 46450931 2 "[(True, 0), (False, 0), (True, 0), (True, 0), (False, 0), (False, 378726), (False, 2488076), (True, 14994134), (False, 27798074), (False, 44615232), (True, 51807399), (True, 1872379), (False, 21051138), (False, 13000090), (True, 1438284), (False, 13745688), (False, 7418925), (False, 24544694), (True, 31947808), (True, 36359768), (True, 68642779), (True, 75231217), (False, 8057149), (False, 24052286), (True, 626770), (False, 46450929)]"
      "[2, 5, 1361, 3413]" "[(2, [(True, 0), (False, 0), (True, 0), (True, 0), (False, 0), (False, 378726), (False, 2488076), (True, 14994134), (False, 27798074), (False, 44615232), (True, 51807399), (True, 1872379), (False, 21051138), (False, 13000090), (True, 1438284), (False, 13745688), (False, 7418925), (False, 24544694), (True, 31947808), (True, 36359768), (True, 68642779), (True, 75231217), (False, 8057149), (False, 24052286), (True, 626770)]), (5, [(True, 0), (False, 0), (False, 0), (False, 0), (True, 0), (True, 739), (False, 22739551), (True, 18372398), (True, 81164186), (True, 3874149), (False, 5401416), (False, 4479271), (False, 28435733), (False, 153558), (False, 1952949), (True, 4786450), (True, 32760127), (True, 89137428), (False, 42575641), (False, 33055727), (True, 26958335), (False, 40708826), (True, 6550248), (False, 1906081)]), (1361, [(True, 0), (False, 0), (False, 0), (False, 0), (False, 0), (True, 184), (False, 39737505), (True, 7169189), (False, 30351566), (True, 65377490), (False, 5923213), (True, 34545589), (False, 36075980), (False, 24370238), (True, 44303361), (False, 22810368)]), (3413, [(True, 0), (True, 0), (False, 0), (True, 0), (False, 1), (True, 18374236), (False, 11439182), (False, 14568894), (True, 10689429), (False, 13814580), (True, 67279208), (False, 12675148), (True, 62144237), (False, 15779892)])]"])
    (simp_all add: prime_2 prime_5 prime_1361 prime_3413)

lemma prime_2465641: "is_prime 2465641"
  by (rule lucas_cert [of 2465641 11 "[(True, 0), (False, 0), (False, 0), (True, 956), (False, 256265), (True, 1450294), (True, 24285479), (False, 4339), (False, 257410), (True, 26541074), (True, 22278), (True, 4188291), (True, 4358703), (True, 3831719), (False, 1097), (True, 4112506), (True, 21039611), (False, 6627), (True, 9679606), (False, 2104856), (False, 2276584), (False, 2465639)]"
      "[2, 2, 2, 3, 3, 3, 3, 5, 761]" "[(2, [(True, 0), (False, 0), (False, 0), (True, 956), (False, 256265), (True, 1450294), (True, 24285479), (False, 4339), (False, 257410), (True, 26541074), (True, 22278), (True, 4188291), (True, 4358703), (True, 3831719), (False, 1097), (True, 4112506), (True, 21039611), (False, 6627), (True, 9679606), (False, 2104856), (False, 2276584)]), (3, [(True, 0), (True, 0), (False, 0), (False, 1272865), (True, 268350), (False, 258624), (False, 1279442), (False, 21287), (True, 11801503), (False, 263629), (True, 18141045), (False, 371207), (False, 18047), (True, 18885633), (True, 3085876), (True, 549209), (True, 5055289), (False, 219608), (False, 1972757), (False, 151653)]), (5, [(True, 0), (True, 0), (True, 7), (True, 22139612), (False, 382489), (False, 646884), (False, 324646), (False, 234962), (True, 1808439), (True, 388382), (False, 1505845), (False, 464583), (True, 22487901), (False, 41515), (False, 2408956), (True, 9420841), (False, 1650841), (False, 1119324), (False, 3411)]), (761, [(True, 0), (True, 0), (False, 0), (False, 1272865), (True, 268350), (False, 258624), (True, 14073863), (False, 1203), (True, 18082275), (False, 471144), (False, 31159), (False, 13347)])]"])
    (simp_all add: prime_2 prime_3 prime_5 prime_761)

lemma prime_54244103: "is_prime 54244103"
  by (rule lucas_cert [of 54244103 5 "[(True, 0), (True, 0), (False, 0), (False, 4), (True, 68016100), (True, 2776718), (True, 267702676), (False, 14907406), (True, 186242592), (True, 240941599), (True, 243312008), (False, 6215321), (True, 48152200), (True, 156572823), (False, 38127460), (False, 31570240), (True, 131816270), (True, 1198232), (False, 45314381), (False, 10835294), (False, 14489388), (False, 501030), (False, 4681), (True, 105542882), (True, 2368226), (False, 54244101)]"
      "[2, 11, 2465641]" "[(2, [(True, 0), (True, 0), (False, 0), (False, 4), (True, 68016100), (True, 2776718), (True, 267702676), (False, 14907406), (True, 186242592), (True, 240941599), (True, 243312008), (False, 6215321), (True, 48152200), (True, 156572823), (False, 38127460), (False, 31570240), (True, 131816270), (True, 1198232), (False, 45314381), (False, 10835294), (False, 14489388), (False, 501030), (False, 4681), (True, 105542882), (True, 2368226)]), (11, [(True, 0), (False, 0), (False, 0), (True, 0), (False, 70324), (True, 112697858), (True, 67538488), (False, 44253736), (False, 16453329), (True, 17778680), (True, 1362575), (True, 5319563), (True, 76009779), (True, 256672417), (False, 1479442), (True, 67994553), (True, 35662018), (False, 26864118), (True, 13614961), (False, 9823628), (False, 15884984), (True, 102836), (False, 51027863)]), (2465641, [(True, 0), (False, 0), (True, 0), (True, 0), (False, 43952902)])]"])
    (simp_all add: prime_2 prime_11 prime_2465641)

section \<open>The list of sizes\<close>

lemma size_chain_simps:
  "size_chain [x]" "size_chain (x # y # ns) \<longleftrightarrow> x + 2 \<le> y \<and> y < 8 * x \<and> size_chain (y # ns)"
proof -
  show "size_chain [x]" by (simp add: size_chain_def)
  have "(\<forall>i. Suc i < length (x # y # ns) \<longrightarrow> P i) \<longleftrightarrow> P 0 \<and> (\<forall>i. Suc i < length (y # ns) \<longrightarrow> P (Suc i))" for P
    by (auto simp: less_Suc_eq_0_disj)
  then show "size_chain (x # y # ns) \<longleftrightarrow> x + 2 \<le> y \<and> y < 8 * x \<and> size_chain (y # ns)" unfolding size_chain_def by simp
qed

lemma default_butlast:
  "default_ht_sizes = butlast default_ht_sizes @ [0]" "length (butlast default_ht_sizes) = 51"
  by (simp_all add: default_ht_sizes_def)

lemma default_primes: "n \<in> set (butlast default_ht_sizes) \<Longrightarrow> is_prime n \<and> 2 < n \<and> n \<le> 2 ^ 30"
  unfolding default_ht_sizes_def butlast.simps
  by (simp only: list.simps if_False if_True set_simps insert_iff empty_iff simp_thms)
    (elim disjE; simp add: prime_13 prime_37 prime_53 prime_97 prime_193 prime_389 prime_769 prime_1543 prime_3079 prime_6151 prime_12289 prime_24593 prime_49157 prime_62501 prime_102503 prime_154981 prime_218459 prime_290047 prime_366077 prime_442861 prime_517151 prime_603907 prime_705247 prime_823541 prime_961729 prime_1123079 prime_1311473 prime_1531499 prime_1788443 prime_2088497 prime_2438881 prime_2848057 prime_3325901 prime_3883903 prime_4535483 prime_5296409 prime_6185021 prime_7222661 prime_8434427 prime_9849503 prime_11502019 prime_13431661 prime_15685133 prime_18316643 prime_21389671 prime_24978257 prime_29168903 prime_34062629 prime_39777391 prime_46450931 prime_54244103)

lemma default_chain: "size_chain (butlast default_ht_sizes)"
  by (simp add: default_ht_sizes_def size_chain_simps)

lemma default_sizes_ok: "sizes_ok default_ht_sizes"
  using default_primes default_chain default_butlast(2) unfolding sizes_ok_def
  by (auto simp: ht_prime_iff default_ht_sizes_def dest: le_trans)

lemma default_sizes_bound: "n \<in> set default_ht_sizes \<Longrightarrow> n \<le> 2 ^ 30"
  using default_primes default_butlast(1) by (metis Un_iff empty_iff insert_iff le0 list.set(1) list.set(2) set_append)

end
