(* ===== verification/HashtabRun.thy ===== *)
theory HashtabRun
  imports HtSizes
begin

text \<open>
  Hash tables as dictionaries: the contract of a dictionary as a locale, what it gives for sequences of operations, and
  its interpretation by the hash tables.
\<close>

section \<open>Sequences of dictionary operations\<close>

datatype ('k, 'v) dict_op = Add 'k 'v | Del 'k

text \<open>The answers of the operations, in order, the last state, and the error that stopped the sequence.\<close>

fun dict_run :: "('t \<Rightarrow> 'k \<Rightarrow> 'v \<Rightarrow> ('e \<times> 't + bool \<times> 't) option) \<Rightarrow> ('t \<Rightarrow> 'k \<Rightarrow> (bool \<times> 't) option) \<Rightarrow> ('k, 'v) dict_op list \<Rightarrow> 't
    \<Rightarrow> (bool list \<times> 't \<times> 'e option) option" where
  "dict_run add del [] t = Some ([], t, None)"
| "dict_run add del (Add k v # ops) t = do {
     r \<leftarrow> add t k v;
     (case r of
        Inl (e, t) \<Rightarrow> Some ([], t, Some e)
      | Inr (b, t) \<Rightarrow> do { (bs, t, e) \<leftarrow> dict_run add del ops t; Some (b # bs, t, e) })
   }"
| "dict_run add del (Del k # ops) t = do {
     (b, t) \<leftarrow> del t k;
     (bs, t, e) \<leftarrow> dict_run add del ops t;
     Some (b # bs, t, e)
   }"

text \<open>The same operations on a finite map: an addition keeps a value that is there.\<close>

fun map_run :: "('k, 'v) dict_op list \<Rightarrow> ('k \<rightharpoonup> 'v) \<Rightarrow> bool list \<times> ('k \<rightharpoonup> 'v)" where
  "map_run [] m = ([], m)"
| "map_run (Add k v # ops) m = (let (bs, m') = map_run ops (if m k = None then m(k \<mapsto> v) else m) in ((m k = None) # bs, m'))"
| "map_run (Del k # ops) m = (let (bs, m') = map_run ops (m(k := None)) in ((m k \<noteq> None) # bs, m'))"

definition op_fine :: "('v \<Rightarrow> bool) \<Rightarrow> ('k, 'v) dict_op \<Rightarrow> bool" where
  "op_fine okv p \<longleftrightarrow> (case p of Add k v \<Rightarrow> okv v | Del k \<Rightarrow> True)"

text \<open>The contract: an addition may fail with an error only when the dictionary is full.\<close>

locale dictionary =
  fixes inv :: "'t \<Rightarrow> bool" and abst :: "'t \<Rightarrow> 'k \<Rightarrow> 'v option" and okv :: "'v \<Rightarrow> bool" and full :: "'t \<Rightarrow> bool"
    and add :: "'t \<Rightarrow> 'k \<Rightarrow> 'v \<Rightarrow> ('e \<times> 't + bool \<times> 't) option" and del :: "'t \<Rightarrow> 'k \<Rightarrow> (bool \<times> 't) option"
    and look :: "'t \<Rightarrow> 'k \<Rightarrow> 'v option option"
  assumes add_law: "inv t \<Longrightarrow> okv v \<Longrightarrow> (\<exists>e t'. add t k v = Some (Inl (e, t')) \<and> full t' \<and> inv t' \<and> abst t' = abst t) \<or>
      (\<exists>t'. add t k v = Some (Inr (abst t k = None, t')) \<and> inv t' \<and> abst t' = (if abst t k = None then (abst t)(k \<mapsto> v) else abst t))"
    and del_law: "inv t \<Longrightarrow> \<exists>t'. del t k = Some (abst t k \<noteq> None, t') \<and> inv t' \<and> abst t' = (abst t)(k := None)"
    and look_law: "inv t \<Longrightarrow> look t k = Some (abst t k)"
begin

lemma run_law:
  "inv t \<Longrightarrow> list_all (op_fine okv) ops \<Longrightarrow> \<exists>bs t' e. dict_run add del ops t = Some (bs, t', e) \<and> inv t' \<and> (if e = None then length bs = length ops else full t') \<and>
    map_run (take (length bs) ops) (abst t) = (bs, abst t')"
proof (induction ops arbitrary: t)
  case (Cons p ops)
  show ?case
  proof (cases p)
    case (Add k v)
    then have "okv v" using Cons.prems(2) by (simp add: op_fine_def)
    then consider (err) e t' where "add t k v = Some (Inl (e, t'))" "full t'" "inv t'" "abst t' = abst t"
      | (ok) t' where "add t k v = Some (Inr (abst t k = None, t'))" "inv t'" "abst t' = (if abst t k = None then (abst t)(k \<mapsto> v) else abst t)"
      using add_law [OF Cons.prems(1)] by blast
    then show ?thesis
    proof cases
      case err then show ?thesis by (simp add: Add)
    next
      case ok
      obtain bs t'' e where "dict_run add del ops t' = Some (bs, t'', e)" "inv t''" "if e = None then length bs = length ops else full t''"
        "map_run (take (length bs) ops) (abst t') = (bs, abst t'')" using Cons.IH [OF ok(2)] Cons.prems(2) by auto
      then show ?thesis using ok(1) unfolding ok(3) Add
        by (intro exI [of _ "(abst t k = None) # bs"] exI [of _ t''] exI [of _ e]) simp
    qed
  next
    case (Del k)
    obtain t' where t': "del t k = Some (abst t k \<noteq> None, t')" "inv t'" "abst t' = (abst t)(k := None)" using del_law [OF Cons.prems(1)] by blast
    obtain bs t'' e where "dict_run add del ops t' = Some (bs, t'', e)" "inv t''" "if e = None then length bs = length ops else full t''"
      "map_run (take (length bs) ops) (abst t') = (bs, abst t'')" using Cons.IH [OF t'(2)] Cons.prems(2) by auto
    then show ?thesis using t'(1) unfolding t'(3) Del
      by (intro exI [of _ "(abst t k \<noteq> None) # bs"] exI [of _ t''] exI [of _ e]) simp
  qed
qed simp

end

section \<open>Hash tables are dictionaries\<close>

definition ht_add :: "nat list \<Rightarrow> (nat \<Rightarrow> bool) \<Rightarrow> hash_table_int4 \<Rightarrow> uint4 \<Rightarrow> htval \<Rightarrow> (ht_error \<times> hash_table_int4 + bool \<times> hash_table_int4) option" where
  "ht_add ht_sizes mem t k v = map_option (map_sum id (\<lambda>(b, i, t'). (b, t'))) (add_hashtab_int4 ht_sizes mem t k v)"

definition ht_look :: "hash_table_int4 \<Rightarrow> uint4 \<Rightarrow> htval option option" where
  "ht_look t k = map_option (map_option (\<lambda>i. ht_value (tab_base t ! i))) (lookup_hashtab_int4 t k)"

interpretation hts: dictionary "ht_good ht_sizes" ht_map ok_value "\<lambda>t. tab_count t = tab_size t" "ht_add ht_sizes mem" "delete_hashtab_int4 ht_sizes mem" ht_look
  for ht_sizes mem
proof
  fix t k v
  assume g: "ht_good ht_sizes t"
  then have i: "sizes_ok ht_sizes" "ht_inv ht_sizes t" "ht_core t" by (auto simp: ht_good_def ht_inv_def)
  have good: "ht_good ht_sizes t'" if "ht_inv ht_sizes t'" for t' using g that by (simp add: ht_good_def)
  show "(\<exists>e t'. ht_add ht_sizes mem t k v = Some (Inl (e, t')) \<and> tab_count t' = tab_size t' \<and> ht_good ht_sizes t' \<and> ht_map t' = ht_map t) \<or>
      (\<exists>t'. ht_add ht_sizes mem t k v = Some (Inr (ht_map t k = None, t')) \<and> ht_good ht_sizes t' \<and>
        ht_map t' = (if ht_map t k = None then (ht_map t)(k \<mapsto> v) else ht_map t))" if "ok_value v"
    using add_ok [OF i(1,2) that, of mem k] good by (fastforce simp: ht_add_def add_done_def)
  show "\<exists>t'. delete_hashtab_int4 ht_sizes mem t k = Some (ht_map t k \<noteq> None, t') \<and> ht_good ht_sizes t' \<and> ht_map t' = (ht_map t)(k := None)"
    using del_ok [OF g, of mem k] good by blast
  show "ht_look t k = Some (ht_map t k)" using ht_lookup_ok [OF i(3), of k] by (auto simp: ht_look_def)
qed

section \<open>Hash tables from their initialization on\<close>

lemma init_good:
  assumes "sizes_ok ht_sizes" "\<forall>n \<in> set ht_sizes. n \<le> 2 ^ 30" "init_hashtab_int4 ht_sizes mem t0 minsize nc ns = Some (Inr t)"
  shows "ht_good ht_sizes t" "ht_map t = Map.empty"
proof -
  obtain c where c: "new_size ht_sizes minsize None = Some c" "c = 0 \<or> c \<in> set ht_sizes - {0} \<and> minsize \<le> c"
    using new_size_grow [OF assms(1), where old = None and minsize = minsize] by auto
  then have l: "size_loop ht_sizes minsize 0 (ht_sizes ! 0) = Some c" by (simp add: new_size_def)
  have nz: "c \<noteq> 0"
  proof
    assume "c = 0"
    then have "init_hashtab_int4 ht_sizes mem t0 minsize nc ns = Some (Inl HTOFLOW)"
      using l c(1) by (simp add: init_hashtab_int4_def init_hashtab_intl_int4_def)
    then show False using assms(3) by simp
  qed
  then have cs: "c \<in> set ht_sizes - {0}" using c(2) by simp
  define n where "n = t0\<lparr>initial_size := c, dont_compact := nc, dont_keep_spare_table := ns, defer_base_release := False, tab_active := True,
    tab_base := [], spare_base := False, spare_base_size := 0, tab_base := replicate c \<lparr>ht_key = 0, ht_value = 0\<rparr>,
    entry_passed_thru := replicate (ROUND_UP8 c) 0, tab_size := c\<rparr>"
  have "init_hashtab_int4 ht_sizes mem t0 minsize nc ns = Some (if mem c then Inr (HT_FIELDS_COMMON_INIT n) else Inl MEMORY)"
    using l c(1) nz by (simp add: init_hashtab_int4_def init_hashtab_intl_int4_def n_def Let_def)
  then have t: "t = HT_FIELDS_COMMON_INIT n" using assms(3) by (simp split: if_splits)
  have "fresh_table c t" unfolding t
    by (rule fresh_ok) (use sizes_prime [OF assms(1) cs] round_up8_le [of c] in \<open>simp_all add: n_def\<close>)
  moreover have "initial_size t = c" by (simp add: t n_def HT_FIELDS_COMMON_INIT_def)
  ultimately show "ht_good ht_sizes t" "ht_map t = Map.empty"
    using fresh_inv [of c t ht_sizes] cs assms(1,2) by (simp_all add: ht_good_def fresh_table_def)
qed

text \<open>
  C7. Hash tables are finite maps: after \<open>init_hashtab_int4\<close>, any sequence of \<open>add_hashtab_int4\<close> and \<open>delete_hashtab_int4\<close> runs,
  through every expansion and compaction, and whether or not memory for them is available.  The answers are those of
  the same operations on a map, and the table holds that map: \<open>lookup_hashtab_int4\<close> finds exactly its entries.  An
  addition ends the sequence with an error only when every entry of the table is in use.
\<close>

theorem hashtab_run_refines:
  assumes "init_hashtab_int4 default_ht_sizes mem t0 minsize no_compact no_spare = Some (Inr t)" "list_all (op_fine ok_value) ops"
  shows "\<exists>bs t' e. dict_run (ht_add default_ht_sizes mem) (delete_hashtab_int4 default_ht_sizes mem) ops t = Some (bs, t', e) \<and>
    (if e = None then length bs = length ops else tab_count t' = tab_size t') \<and>
    map_run (take (length bs) ops) Map.empty = (bs, ht_map t') \<and> (\<forall>k. ht_look t' k = Some (ht_map t' k))"
proof -
  have g: "ht_good default_ht_sizes t" "ht_map t = Map.empty"
    using init_good [OF default_sizes_ok _ assms(1)] default_sizes_bound by auto
  obtain bs t' e where r: "dict_run (ht_add default_ht_sizes mem) (delete_hashtab_int4 default_ht_sizes mem) ops t = Some (bs, t', e)"
    "ht_good default_ht_sizes t'" "if e = None then length bs = length ops else tab_count t' = tab_size t'"
    "map_run (take (length bs) ops) (ht_map t) = (bs, ht_map t')"
    using hts.run_law [OF g(1) assms(2), of mem] by blast
  show ?thesis using r g(2) hts.look_law [OF r(2)] by (intro exI [of _ bs] exI [of _ t'] exI [of _ e]) simp
qed

lemma init_13: "\<exists>t. init_hashtab_int4 default_ht_sizes (\<lambda>_. True) blank_table 10 False False = Some (Inr t)"
proof -
  have "size_loop default_ht_sizes 10 0 13 = Some 13" by (subst size_loop.simps) simp
  moreover have "default_ht_sizes ! 0 = 13" by (simp add: default_ht_sizes_def)
  ultimately show ?thesis by (simp add: init_hashtab_int4_def init_hashtab_intl_int4_def new_size_def Let_def)
qed

theorem hashtab_run_refines_witness:
  "\<exists>t bs t' e. init_hashtab_int4 default_ht_sizes (\<lambda>_. True) blank_table 10 False False = Some (Inr t) \<and>
    dict_run (ht_add default_ht_sizes (\<lambda>_. True)) (delete_hashtab_int4 default_ht_sizes (\<lambda>_. True)) [Add 5 7, Add 18 9, Add 5 8, Del 5] t = Some (bs, t', e) \<and>
    map_run (take (length bs) [Add 5 7, Add 18 9, Add 5 8, Del 5]) Map.empty = (bs, ht_map t')"
proof -
  obtain t where t: "init_hashtab_int4 default_ht_sizes (\<lambda>_. True) blank_table 10 False False = Some (Inr t)" using init_13 by blast
  have f: "list_all (op_fine ok_value) [Add 5 7, Add 18 9, Add 5 8, Del (5 :: uint4)]" by (simp add: op_fine_def ok_value_def)
  show ?thesis using hashtab_run_refines [OF t f] t by blast
qed

text \<open>
  The size asked for by a compaction is an unsigned product: with 2^30 entries in use, possible only in the largest
  tables of \<open>extended_ht_sizes\<close>, it is 0, and the next smaller size would be chosen although the entries do not fit.
\<close>

lemma rehash_size_wraps: "tab_count t = 2 ^ 30 \<Longrightarrow> HT_REHASH_TABLE_SIZE t = 0"
  by (simp add: HT_REHASH_TABLE_SIZE_def)

end
