(* ===== verification/Spec2Isabelle.thy ===== *)
theory Spec2Isabelle
  imports LvOrder GvSubsc BmFresh GvTail HashtabRun
begin

text \<open>
  GT.M: numbers, conversions, local-variable trees and hash tables of the M run time, and the block allocation
  bitmaps and B-tree blocks of the database.

  GT.M (\<open>src/\<close>) is an M language system: a compiler, a run-time library and a database engine.  The
  run time works on mvals, values that hold a number in one of two forms, a string, or both.  Local
  variables with subscripts are AVL trees of nodes keyed by mvals; every arithmetic operator, every
  comparison and every subscript of the language goes through the code modelled here.

  \<^bold>\<open>The parts and their theories.\<close>

  \<^item> \<open>Prelude\<close>: scalar types, truncating division, decimal mantissas, the collections \<open>mv_defs\<close>
    (constants) and \<open>mv_simps\<close> (flag accesses).
  \<^item> \<open>Mval\<close>: the mval record and its type bits (\<open>mdef.h\<close>, \<open>mdefsp.h\<close>), the constants of \<open>arit.h\<close>, the table
    \<open>ten_pwr\<close>, \<open>promote\<close> and \<open>demote\<close> (\<open>promodemo.c\<close>).  \<open>numval\<close> is the number an mval denotes, scaled by
    \<open>10^80\<close> so that every mval denotes an integer; \<open>wf_num\<close> says it is stored in one of the two legal forms.
  \<^item> \<open>S2n\<close>: strings to numbers (\<open>s2n.c\<close>), one function per scanning loop over string indices, and the
    forcing macros of \<open>mdef.h\<close>; errors are values of \<open>rt_error\<close>.
  \<^item> \<open>N2s\<close>: numbers to strings (\<open>n2s.c\<close>) and the canonical-number test (\<open>val_iscan.c\<close>).
  \<^item> \<open>Numcmp\<close>: the comparison \<open>numcmp\<close> (\<open>numcmp.c\<close>).
  \<^item> \<open>OpAdd\<close>: \<open>add_mvals\<close>, \<open>op_add\<close>, \<open>op_sub\<close> (\<open>op_add.c\<close>).
  \<^item> \<open>EbMul\<close>, \<open>EbDiv\<close>, \<open>EbInt\<close>: the routines of \<open>eb_muldiv.c\<close>: schoolbook multiplication and long division in
    radix 10000 on digit arrays (lists updated by index), and the integer fast paths in C \<open>double\<close>
    arithmetic (rationals rounded to 53 bits after each operation).
  \<^item> \<open>OpMul\<close>: \<open>op_mul\<close>, \<open>op_div\<close>, \<open>op_idiv\<close>, \<open>flt_mod\<close> (\<open>op_mul.c\<close>, \<open>op_div.c\<close>, \<open>op_idiv.c\<close>, \<open>flt_mod.c\<close>).
  \<^item> \<open>MvalConv\<close>: conversions between C integers or doubles and mvals (\<open>mvalconv.c\<close>), with the wrap-around of
    each C width written out.
  \<^item> \<open>LvTree\<close>: the subscript trees of \<open>lv_tree.c\<close> over an explicit store (\<open>lvheap\<close>, node address to node):
    traversals, comparison macros, lookups with their clue, insertion, deletion, rotations, each loop a
    partial function in the option type, so that following a NULL link or never ending is \<open>None\<close>.
  \<^item> \<open>LvKey\<close>, \<open>LvShape\<close>, \<open>LvLookup\<close>, \<open>LvAvl\<close>, \<open>LvInsert\<close>, \<open>LvDelete\<close>, \<open>LvSpec\<close>: the subscript order, the heap seen as
    a tree with contexts, lookup with the clue, balance and rotations, the two updates, and the
    refinement of a sorted association list.  The locale \<open>lv_key_cmp\<close> is the contract of the three comparison
    macros; the lookup proofs are done once inside it and it is interpreted on all of them.

  \<^item> \<open>LvTrace\<close>: a tree over time: the step relation of lookups, insertions, deletions and steps to a neighbour
    from \<open>LV_TREE_CREATE\<close> on, and sequences of operations (one level of \<open>op_putindx.c\<close> and \<open>lv_kill.c\<close>).
  \<^item> \<open>LvOrder\<close>: \<open>$ORDER\<close>, \<open>$NEXT\<close>, \<open>$ZPREVIOUS\<close> (\<open>op_fnorder.c\<close>, \<open>op_fnnext.c\<close>, \<open>op_fnzprevious.c\<close>), from the M value of a
    subscript to the tree and back; the site's collation library is a parameter.
  \<^item> \<open>GvSubsc\<close>: the byte encoding of subscripts in global variable keys (\<open>mval2subsc.c\<close>).
  \<^item> \<open>Bitmap\<close>: local bitmaps of database blocks as byte lists: bit operations (\<open>bit_set.c\<close>, \<open>bit_clear.c\<close>), statuses
    (\<open>gdsbml.h\<close>, \<open>bml_busy.c\<close>, \<open>bml_free.c\<close>, \<open>bml_recycled.c\<close>, \<open>bml_newmap.c\<close>) and the searches \<open>bml_find_free.c\<close> and
    \<open>bm_find_blk.c\<close>.  The locale \<open>bml_writer\<close> is the contract of the three status writers and is interpreted on them.
  \<^item> \<open>BmCommit\<close>: a commit of a bitmap change (\<open>gvcst_map_build.c\<close>, \<open>bm_update\<close> of \<open>t_end_sysops.c\<close>) on the state of local
    maps, master map and counters; sequences of commits as an inductive relation.
  \<^item> \<open>BmSearch\<close>: the master map search (\<open>gtm_ffs.c\<close>, \<open>bmm_find_free.c\<close>), the recount of free blocks
    (\<open>is_free_blks_ctr_ok\<close> of \<open>bm_getfree.c\<close>) and the free block search of DSE (\<open>dse_f_free.c\<close>).
  \<^item> \<open>BmGetfree\<close>: allocation of a block (\<open>bm_getfree\<close> with \<open>t_write_map\<close>); extending the file is a parameter.
    \<open>BmFresh\<close>: several allocations in one transaction.
  \<^item> \<open>GvBlk\<close>: blocks of records with prefix-compressed keys (\<open>gdsblk.h\<close>), their search (\<open>gvcst_search_blk\<close> of
    \<open>gvcst_blk_search.h\<close>) and the expansion of a key (\<open>gvcst_expand_key.c\<close>).  \<open>GvTail\<close>: the search that continues
    an earlier one in the same block (\<open>gvcst_search_tail\<close>).
  \<^item> \<open>Hashtab\<close>: the hash tables of \<open>hashtab_implementation.h\<close> for 32-bit keys (\<open>hashtab_int4.h\<close>), double hashing over
    an array as a list, with the sizes of \<open>mtables.c\<close>.  \<open>HashtabProbe\<close>, \<open>HashtabEnt\<close>, \<open>HashtabOps\<close>: the probe sequence,
    the invariant, and the operations as operations on a map.  \<open>HtPrimes\<close>, \<open>HtSizes\<close>: the sizes are primes.
    \<open>HashtabRun\<close>: the contract of a dictionary as a locale, interpreted by the hash tables.

  \<^bold>\<open>What the lemmas show.\<close>  Arithmetic: each operator returns the exact sum, difference, product or
  quotient cut to 18 digits as a well-formed number, or NUMOFLOW, or zero below the range, or DIVZERO
  (\<open>num_outcome\<close>), under hypotheses that exclude the inputs for which the code misbehaves (for the
  integer path of \<open>op_div\<close> by a bound on the divisor that is sufficient, not exact).
  Conversions: ranges of \<open>s2n\<close>, buffer bounds of \<open>n2s\<close>, exactness and round trips of the integer
  conversions.  Trees: lookup, insertion and deletion implement a finite map and keep the search-tree,
  balance, parent-link and clue invariants; traversals walk the sorted listing; the height is
  logarithmic; every reachable state is well-formed and no operation gets stuck in one; \<open>$ORDER\<close> and
  \<open>$ZPREVIOUS\<close> return the neighbouring subscript, and the usual loop over \<open>$ORDER\<close> ends after every subscript.
  Global keys: the bytes of two encoded subscripts compare as the subscripts do, a number has one
  encoding, the encoding loop ends and the encoding fits its buffer.  Bitmaps: a status write changes one
  block, \<open>bm_find_blk\<close> and \<open>bmm_find_free\<close> find the first block or bit, \<open>bml_find_free\<close> some block, after every sequence of commits the
  master map and the free count agree with the local maps, the recount corrects a wrong count, and
  while a block is free the first allocation of a transaction returns one whose element then commits; no
  transaction allocates a block twice.
  Blocks: the search finds the first key not below the target, in the same byte order as the encoded
  subscripts, continuing an earlier search gives the same result, and every compressed key can be rebuilt.
  Hash tables: from initialization on, every sequence of additions and deletions answers as a finite map does.

  \<^bold>\<open>Bounds and fuel.\<close>  \<open>int4\<close> values are integers; the range lemmas show that the stored values fit.  Tree loops
  are shown to return on every tree that satisfies the invariant; the \<open>$ORDER\<close> loop takes the number of
  rounds as fuel, and one more than the number of nodes is shown to be enough.  The
  correction loop of \<open>eb_div\<close> and the loops of the recount, of the block search and of the key expansion are
  partial functions, shown to return; the
  loop of \<open>bm_getfree\<close> too, shown to return when a block is free (a failing or useless file extension is outside).

  \<^bold>\<open>Not modelled.\<close>  The database engine above bitmaps and single blocks (block cache, B-trees, transactions, journaling,
  replication), file extension, the
  compiler and code generation, devices, locks, triggers, the utilities, the string pool and its garbage
  collector, and slot allocation for tree nodes (a new node's address is an argument).
\<close>

end
